(* ===== verification/Skynet_Prelude.thy ===== *)
theory Skynet_Prelude
  imports Main "HOL-Library.Word" "HOL-Library.Monad_Syntax" "HOL-Library.While_Combinator"
begin

text \<open>
  Shared material of the development: the machine types of the C code, the effect types
  (a call that does not return, a Lua error), ring buffers, and the interfaces that several
  components offer (first-in first-out queues, write-once tables).

  Conventions used by every component.
  \<^item> \<open>'a option\<close> as a result: \<open>None\<close> is a call that does not return normally, because
    an \<open>assert\<close> of the source fails (the process aborts) or because a pointer that is not
    allocated is followed.
  \<^item> \<open>string + 'a\<close> as a result: \<open>Inl\<close> is the text of a \<open>luaL_error\<close> raised to the Lua caller;
    \<open>'a lua_result\<close> where a call from Lua can also crash.
  \<^item> \<open>u8\<close>, \<open>u32\<close>, \<open>u64\<close> are the unsigned machine integers; a C \<open>int\<close>
    whose sign matters is read with \<open>sint\<close> or is an \<open>int\<close>.
\<close>

section \<open>Machine types\<close>

type_synonym u8 = "8 word"
type_synonym u16 = "16 word"
type_synonym u32 = "32 word"
type_synonym u64 = "64 word"
type_synonym bytes = "8 word list"

text \<open>An address of a heap object; \<open>None\<close> where the source has \<open>NULL\<close>.\<close>

type_synonym addr = nat

named_theorems byte_simps \<open>serialisation of machine words into bytes and back\<close>
named_theorems ring_simps \<open>contents of ring buffers\<close>

unbundle bit_operations_syntax

lemma unat_and_mask [byte_simps]: "unat (w AND mask n) = unat w mod 2 ^ n"
proof -
  have "unat (w AND mask n) = take_bit n (unat w)"
    by (simp add: unsigned_take_bit_eq flip: take_bit_eq_mask)
  then show ?thesis by (simp add: take_bit_eq_mod)
qed

lemma unat_drop_bit_div [byte_simps]: "unat (drop_bit n w) = unat w div 2 ^ n"
  by (rule trans [OF unat_drop_bit_eq drop_bit_eq_div])

text \<open>Masks that the source writes as literals or as \<open>size - 1\<close> of a power of two.\<close>

lemma unat_and_pred_power:
  "unat ((w::'a::len word) AND (2 ^ n - 1)) = unat w mod 2 ^ n"
  using unat_and_mask [of w n] by (simp add: mask_eq_exp_minus_1)

lemma sint_u32: "sint (w::u32) = (if unat w < 2 ^ 31 then int (unat w) else int (unat w) - 2 ^ 32)"
proof -
  have b: "uint w < 2 ^ 32" "0 \<le> uint w" using uint_lt2p [of w] by simp_all
  have "sint w = (uint w + 2 ^ 31) mod 2 ^ 32 - 2 ^ 31"
    by (simp add: sint_uint signed_take_bit_eq_take_bit_shift take_bit_eq_mod)
  also have "\<dots> = (if uint w < 2 ^ 31 then uint w else uint w - 2 ^ 32)"
  proof (cases "uint w < 2 ^ 31")
    case True
    then have "(uint w + 2 ^ 31) mod 2 ^ 32 = uint w + 2 ^ 31"
      using b by (intro mod_pos_pos_trivial) simp_all
    with True show ?thesis by simp
  next
    case False
    have "uint w + 2 ^ 31 = (uint w - 2 ^ 31) + 2 ^ 32" by simp
    then have "(uint w + 2 ^ 31) mod 2 ^ 32 = (uint w - 2 ^ 31) mod 2 ^ 32"
      by (simp only: mod_add_self2)
    also have "\<dots> = uint w - 2 ^ 31" using False b by (intro mod_pos_pos_trivial) simp_all
    finally show ?thesis using False by simp
  qed
  finally show ?thesis
    using of_nat_less_iff [of "unat w" "2 ^ 31", where 'a = int] by simp
qed

section \<open>Options as possibly failing calls\<close>

lemma bind_Some_iff: "Option.bind m f = Some y \<longleftrightarrow> (\<exists>x. m = Some x \<and> f x = Some y)"
  by (cases m) auto

lemma bind_None_iff: "Option.bind m f = None \<longleftrightarrow> m = None \<or> (\<exists>x. m = Some x \<and> f x = None)"
  by (cases m) auto

lemma option_ext: "(\<And>y. m = Some y \<longleftrightarrow> n = Some y) \<Longrightarrow> m = n"
  by (cases m; cases n) auto

section \<open>Calls from Lua\<close>

text \<open>
  The result of a function that a Lua service calls. \<open>Val\<close>: a value; \<open>Lua_error\<close>: a \<open>luaL_error\<close>; \<open>Crash\<close>: a failed
  assertion or an access outside an object; \<open>Out_of_fuel\<close>: the fuel of a function did not suffice.
\<close>

datatype 'a lua_result = Val 'a | Lua_error string | Crash | Out_of_fuel

fun lua_bind :: "'a lua_result \<Rightarrow> ('a \<Rightarrow> 'b lua_result) \<Rightarrow> 'b lua_result" where
  "lua_bind (Val x) f = f x"
| "lua_bind (Lua_error e) f = Lua_error e"
| "lua_bind Crash f = Crash"
| "lua_bind Out_of_fuel f = Out_of_fuel"

lemma bind_Val: "lua_bind m f = Val y \<longleftrightarrow> (\<exists>x. m = Val x \<and> f x = Val y)"
  by (cases m) auto

section \<open>Ring buffers\<close>

text \<open>
  \<open>ring xs h n\<close> is the sequence of the \<open>n\<close> elements of the circular array
  \<open>xs\<close> that start at index \<open>h\<close>.
\<close>

definition ring :: "'a list \<Rightarrow> nat \<Rightarrow> nat \<Rightarrow> 'a list" where
  "ring xs h n = map (\<lambda>i. xs ! ((h + i) mod length xs)) [0..<n]"

text \<open>The number of elements between the two indices of a ring of capacity \<open>c\<close>.\<close>

definition ring_len :: "nat \<Rightarrow> nat \<Rightarrow> nat \<Rightarrow> nat" where
  "ring_len c h t = (if h \<le> t then t - h else t + c - h)"

text \<open>The source's way to advance an index.\<close>

lemma wrap_index: "(i::nat) < c \<Longrightarrow> (if c \<le> Suc i then 0 else Suc i) = Suc i mod c"
  by (auto simp: mod_Suc)

lemma length_ring [simp]: "length (ring xs h n) = n"
  by (simp add: ring_def)

lemma ring_0 [simp]: "ring xs h 0 = []"
  by (simp add: ring_def)

lemma ring_nth: "i < n \<Longrightarrow> ring xs h n ! i = xs ! ((h + i) mod length xs)"
  by (simp add: ring_def)

lemma ring_snoc [ring_simps]:
  assumes "h < length xs" "n < length xs"
  shows "ring (xs[(h + n) mod length xs := x]) h (Suc n) = ring xs h n @ [x]"
proof (rule nth_equalityI)
  show "length (ring (xs[(h + n) mod length xs := x]) h (Suc n)) = length (ring xs h n @ [x])"
    by simp
next
  fix i
  assume i: "i < length (ring (xs[(h + n) mod length xs := x]) h (Suc n))"
  have pos: "0 < length xs" using assms by linarith
  show "ring (xs[(h + n) mod length xs := x]) h (Suc n) ! i = (ring xs h n @ [x]) ! i"
  proof (cases "i = n")
    case True
    then show ?thesis using pos
      by (simp add: ring_nth nth_append nth_list_update)
  next
    case False
    with i have lt: "i < n" by simp
    have "(h + i) mod length xs \<noteq> (h + n) mod length xs"
    proof
      assume "(h + i) mod length xs = (h + n) mod length xs"
      then have "i mod length xs = n mod length xs"
        by (simp add: mod_add_left_eq nat_mod_eq_iff)
      with lt assms show False by simp
    qed
    with lt pos show ?thesis
      by (simp add: ring_nth nth_append nth_list_update)
  qed
qed

lemma ring_Cons [ring_simps]:
  assumes "h < length xs"
  shows "ring xs h (Suc n) = xs ! h # ring xs (Suc h mod length xs) n"
proof -
  have "map (\<lambda>i. xs ! ((h + i) mod length xs)) [1..<Suc n]
      = map (\<lambda>i. xs ! ((Suc h mod length xs + i) mod length xs)) [0..<n]"
    unfolding map_Suc_upt [symmetric] One_nat_def map_map
    by (auto simp: mod_add_left_eq)
  with assms show ?thesis
    by (simp add: ring_def upt_conv_Cons del: upt_Suc)
qed

lemma ring_zero_take [ring_simps]: "n \<le> length xs \<Longrightarrow> ring xs 0 n = take n xs"
  by (rule nth_equalityI) (auto simp: ring_nth)

lemma ring_append_take:
  assumes "n \<le> length ys"
  shows "ring (ys @ zs) 0 n = take n ys"
  using assms by (simp add: ring_zero_take)

lemma ring_len_bound: "h < c \<Longrightarrow> t < c \<Longrightarrow> ring_len c h t < c"
  by (auto simp: ring_len_def)

lemma ring_len_tail: "h < c \<Longrightarrow> t < c \<Longrightarrow> (h + ring_len c h t) mod c = t"
  by (auto simp: ring_len_def)

lemma ring_len_eq_0 [simp]: "h < c \<Longrightarrow> t < c \<Longrightarrow> ring_len c h t = 0 \<longleftrightarrow> h = t"
  by (auto simp: ring_len_def)

lemma ring_len_self [simp]: "ring_len c h h = 0"
  by (simp add: ring_len_def)

lemma ring_len_push:
  "h < c \<Longrightarrow> t < c \<Longrightarrow> Suc t mod c \<noteq> h \<Longrightarrow>
    ring_len c h (Suc t mod c) = Suc (ring_len c h t)"
  by (auto simp: ring_len_def mod_Suc split: if_splits)

lemma ring_len_full:
  "h < c \<Longrightarrow> t < c \<Longrightarrow> Suc t mod c = h \<Longrightarrow> Suc (ring_len c h t) = c"
  by (auto simp: ring_len_def mod_Suc split: if_splits)

lemma ring_len_pop:
  "h < c \<Longrightarrow> t < c \<Longrightarrow> h \<noteq> t \<Longrightarrow>
    ring_len c h t = Suc (ring_len c (Suc h mod c) t)"
  by (auto simp: ring_len_def mod_Suc split: if_splits)

section \<open>The interface of a first-in first-out queue\<close>

text \<open>
  The operations of a queue and the abstract queue they implement. A removal returns
  \<open>None\<close> for an empty queue, as the source's return codes do.
\<close>

datatype 'a qop = Enq 'a | Deq

fun fifo_spec :: "'a qop list \<Rightarrow> 'a list \<Rightarrow> 'a option list \<times> 'a list" where
  "fifo_spec [] xs = ([], xs)"
| "fifo_spec (Enq x # ops) xs = fifo_spec ops (xs @ [x])"
| "fifo_spec (Deq # ops) [] = (let (rs, ys) = fifo_spec ops [] in (None # rs, ys))"
| "fifo_spec (Deq # ops) (x # xs) = (let (rs, ys) = fifo_spec ops xs in (Some x # rs, ys))"

fun fifo_run :: "('q \<Rightarrow> 'a \<Rightarrow> 'q option) \<Rightarrow> ('q \<Rightarrow> ('a option \<times> 'q) option)
    \<Rightarrow> 'a qop list \<Rightarrow> 'q \<Rightarrow> ('a option list \<times> 'q) option" where
  "fifo_run enq deq [] q = Some ([], q)"
| "fifo_run enq deq (Enq x # ops) q =
     (case enq q x of None \<Rightarrow> None | Some q' \<Rightarrow> fifo_run enq deq ops q')"
| "fifo_run enq deq (Deq # ops) q =
     (case deq q of None \<Rightarrow> None
      | Some (r, q') \<Rightarrow> map_option (\<lambda>(rs, q''). (r # rs, q'')) (fifo_run enq deq ops q'))"

locale fifo =
  fixes enq :: "'q \<Rightarrow> 'a \<Rightarrow> 'q option"
    and deq :: "'q \<Rightarrow> ('a option \<times> 'q) option"
    and inv :: "'q \<Rightarrow> bool"
    and abs :: "'q \<Rightarrow> 'a list"
  assumes enq_law: "inv q \<Longrightarrow> \<exists>q'. enq q x = Some q' \<and> inv q' \<and> abs q' = abs q @ [x]"
    and deq_nil_law: "inv q \<Longrightarrow> abs q = [] \<Longrightarrow>
      \<exists>q'. deq q = Some (None, q') \<and> inv q' \<and> abs q' = []"
    and deq_cons_law: "inv q \<Longrightarrow> abs q = x # xs \<Longrightarrow>
      \<exists>q'. deq q = Some (Some x, q') \<and> inv q' \<and> abs q' = xs"
begin

lemma run_refines:
  "inv q \<Longrightarrow> \<exists>q'. fifo_run enq deq ops q = Some (fst (fifo_spec ops (abs q)), q')
    \<and> inv q' \<and> abs q' = snd (fifo_spec ops (abs q))"
proof (induction ops arbitrary: q)
  case Nil
  then show ?case by simp
next
  case (Cons op ops)
  show ?case
  proof (cases op)
    case (Enq x)
    with Cons.prems obtain q' where "enq q x = Some q'" "inv q'" "abs q' = abs q @ [x]"
      using enq_law by blast
    then show ?thesis using Enq Cons.IH [of q'] by simp
  next
    case Deq
    show ?thesis
    proof (cases "abs q")
      case Nil
      with Cons.prems obtain q' where "deq q = Some (None, q')" "inv q'" "abs q' = []"
        using deq_nil_law by blast
      then show ?thesis using Deq Nil Cons.IH [of q'] by (auto simp: split_beta)
    next
      case c: (Cons x xs)
      with Cons.prems obtain q' where "deq q = Some (Some x, q')" "inv q'" "abs q' = xs"
        using deq_cons_law by blast
      then show ?thesis using Deq c Cons.IH [of q'] by (auto simp: split_beta)
    qed
  qed
qed

lemma run_never_stuck: "inv q \<Longrightarrow> fifo_run enq deq ops q \<noteq> None"
  using run_refines [of q ops] by auto

end

section \<open>The interface of a write-once table\<close>

text \<open>
  A table whose entries cannot be changed: an insertion for a key that is bound leaves the table as
  it is, or aborts. A failed insertion of a new key is possible (the table is full).
\<close>

fun wo_run :: "('s \<Rightarrow> 'k \<Rightarrow> 'v \<Rightarrow> 's option) \<Rightarrow> ('k \<times> 'v) list \<Rightarrow> 's \<Rightarrow> 's option" where
  "wo_run put [] s = Some s"
| "wo_run put ((k, v) # kvs) s = (case put s k v of None \<Rightarrow> None | Some s' \<Rightarrow> wo_run put kvs s')"

locale write_once =
  fixes get :: "'s \<Rightarrow> 'k \<Rightarrow> 'v option"
    and put :: "'s \<Rightarrow> 'k \<Rightarrow> 'v \<Rightarrow> 's option"
    and wf :: "'s \<Rightarrow> bool"
  assumes put_wf: "wf s \<Longrightarrow> put s k v = Some s' \<Longrightarrow> wf s'"
    and put_new: "wf s \<Longrightarrow> get s k = None \<Longrightarrow> put s k v = Some s' \<Longrightarrow> get s' = (get s)(k := Some v)"
    and put_bound: "wf s \<Longrightarrow> get s k = Some w \<Longrightarrow> put s k v = Some s' \<Longrightarrow> get s' = get s"
begin

lemma put_get:
  "wf s \<Longrightarrow> put s k v = Some s' \<Longrightarrow> get s' j = (case get s j of Some w \<Rightarrow> Some w
    | None \<Rightarrow> if j = k then Some v else None)"
  using put_new [of s k v s'] put_bound [of s k _ v s'] by (cases "get s k") (auto split: option.split)

lemma run_first:
  "wf s \<Longrightarrow> wo_run put kvs s = Some s' \<Longrightarrow>
    wf s' \<and> get s' = map_of kvs ++ get s"
proof (induction kvs arbitrary: s)
  case Nil
  then show ?case by simp
next
  case (Cons kv kvs)
  obtain k v where kv: "kv = (k, v)" by (cases kv)
  with Cons.prems obtain t where t: "put s k v = Some t" "wo_run put kvs t = Some s'"
    by (auto split: option.splits)
  have "get t = map_of [(k, v)] ++ get s"
    using put_get [OF Cons.prems(1) t(1)] by (auto simp: fun_eq_iff map_add_def split: option.splits)
  then have "map_of kvs ++ get t = map_of ((k, v) # kvs) ++ get s"
    by (auto simp: fun_eq_iff map_add_def split: option.splits)
  with Cons.IH [OF put_wf [OF Cons.prems(1) t(1)] t(2)] show ?case
    by (simp add: kv fun_upd_def)
qed

end

end
