(* ===== verification/MessageQueue.thy ===== *)
theory MessageQueue
  imports Skynet_Prelude
begin

text \<open>
  \<open>skynet-src/skynet_mq.c\<close>: the message queue of a service (a ring buffer that doubles when it
  is full, with an overload detector) and the global queue of the message queues that have work,
  a singly linked list threaded through the \<open>next\<close> fields of the queues themselves.

  The C functions run under the spin lock of the queue (or of the global queue), so each is one
  atomic step of the model. The fields \<open>cap\<close>, \<open>head\<close>, \<open>tail\<close>, \<open>overload\<close> and
  \<open>overload_threshold\<close> are C \<open>int\<close>s that are never negative; they are \<open>nat\<close> here.
  The capacity only doubles when the ring is full, so no value leaves the \<open>int\<close> range while a
  service has fewer than \<open>2 ^ 29\<close> pending messages.
\<close>

section \<open>Data\<close>

definition DEFAULT_QUEUE_SIZE :: nat where "DEFAULT_QUEUE_SIZE = 64"
definition MQ_IN_GLOBAL :: nat where "MQ_IN_GLOBAL = 1"
definition MQ_OVERLOAD :: nat where "MQ_OVERLOAD = 1024"

record skynet_message =
  msg_source :: u32
  msg_session :: u32
  msg_data :: u64
  msg_sz :: u64

record message_queue =
  mq_handle :: u32
  mq_cap :: nat
  mq_head :: nat
  mq_tail :: nat
  mq_release :: nat
  mq_in_global :: nat
  mq_over :: nat
  mq_over_threshold :: nat
  mq_queue :: "skynet_message list"
  mq_next :: "addr option"

text \<open>
  Memory from \<open>skynet_malloc\<close> is not initialised; its contents are the filler \<open>no_message\<close>,
  on which no result depends.
\<close>

definition no_message :: skynet_message where
  "no_message = \<lparr>msg_source = 0, msg_session = 0, msg_data = 0, msg_sz = 0\<rparr>"

section \<open>One queue\<close>

definition mq_create :: "u32 \<Rightarrow> message_queue" where
  "mq_create handle = \<lparr>mq_handle = handle, mq_cap = DEFAULT_QUEUE_SIZE, mq_head = 0, mq_tail = 0,
     mq_release = 0, mq_in_global = MQ_IN_GLOBAL, mq_over = 0, mq_over_threshold = MQ_OVERLOAD,
     mq_queue = replicate DEFAULT_QUEUE_SIZE no_message, mq_next = None\<rparr>"

definition mq_length :: "message_queue \<Rightarrow> nat" where
  "mq_length q = (if mq_head q \<le> mq_tail q then mq_tail q - mq_head q
                  else mq_tail q + mq_cap q - mq_head q)"

text \<open>\<open>skynet_mq_overload\<close> reads the recorded overload and resets it.\<close>

definition mq_overload :: "message_queue \<Rightarrow> nat \<times> message_queue" where
  "mq_overload q = (if mq_over q \<noteq> 0 then (mq_over q, q\<lparr>mq_over := 0\<rparr>) else (0, q))"

text \<open>The loop \<open>while (length > q->overload_threshold)\<close> of \<open>skynet_mq_pop\<close>.\<close>

definition overload_loop :: "nat \<Rightarrow> message_queue \<Rightarrow> message_queue option" where
  "overload_loop len q = while_option (\<lambda>q. mq_over_threshold q < len)
     (\<lambda>q. q\<lparr>mq_over := len, mq_over_threshold := mq_over_threshold q * 2\<rparr>) q"

text \<open>
  \<open>skynet_mq_pop\<close>: the result is \<open>(Some message, q')\<close> where the C function returns 0 and
  \<open>(None, q')\<close> where it returns 1.
\<close>

definition mq_pop :: "message_queue \<Rightarrow> (skynet_message option \<times> message_queue) option" where
  "mq_pop q =
     (if mq_head q \<noteq> mq_tail q then
        (let message = mq_queue q ! mq_head q;
             head = mq_head q + 1;
             tail = mq_tail q;
             cap = mq_cap q;
             head = (if head \<ge> cap then 0 else head);
             q = q\<lparr>mq_head := head\<rparr>;
             length = int tail - int head;
             length = (if length < 0 then length + int cap else length)
         in map_option (\<lambda>q. (Some message, q)) (overload_loop (nat length) q))
      else Some (None, q\<lparr>mq_over_threshold := MQ_OVERLOAD, mq_in_global := 0\<rparr>))"

definition mq_expand_queue :: "message_queue \<Rightarrow> message_queue" where
  "mq_expand_queue q =
     (let new_queue = map (\<lambda>i. mq_queue q ! ((mq_head q + i) mod mq_cap q)) [0..<mq_cap q]
                      @ replicate (mq_cap q) no_message
      in q\<lparr>mq_head := 0, mq_tail := mq_cap q, mq_cap := mq_cap q * 2, mq_queue := new_queue\<rparr>)"

text \<open>The part of \<open>skynet_mq_push\<close> that stores the message (before the \<open>in_global\<close> test).\<close>

definition mq_put :: "message_queue \<Rightarrow> skynet_message \<Rightarrow> message_queue" where
  "mq_put q message =
     (let q = q\<lparr>mq_queue := (mq_queue q)[mq_tail q := message]\<rparr>;
          tail = mq_tail q + 1;
          q = q\<lparr>mq_tail := (if tail \<ge> mq_cap q then 0 else tail)\<rparr>
      in if mq_head q = mq_tail q then mq_expand_queue q else q)"

section \<open>The store of queues and the global queue\<close>

record mq_state =
  mqs :: "addr \<Rightarrow> message_queue option"
  gq_head :: "addr option"
  gq_tail :: "addr option"

definition set_mq :: "mq_state \<Rightarrow> addr \<Rightarrow> message_queue \<Rightarrow> mq_state" where
  "set_mq st a q = st\<lparr>mqs := (mqs st)(a := Some q)\<rparr>"

definition skynet_mq_init :: mq_state where
  "skynet_mq_init = \<lparr>mqs = (\<lambda>_. None), gq_head = None, gq_tail = None\<rparr>"

text \<open>\<open>skynet_globalmq_push\<close>; \<open>None\<close> where its assertion fails.\<close>

definition skynet_globalmq_push :: "mq_state \<Rightarrow> addr \<Rightarrow> mq_state option" where
  "skynet_globalmq_push st a =
     (case mqs st a of None \<Rightarrow> None | Some q \<Rightarrow>
        if mq_next q \<noteq> None then None
        else (case gq_tail st of
                Some t \<Rightarrow> (case mqs st t of None \<Rightarrow> None | Some tq \<Rightarrow>
                  Some ((set_mq st t (tq\<lparr>mq_next := Some a\<rparr>))\<lparr>gq_tail := Some a\<rparr>))
              | None \<Rightarrow> Some (st\<lparr>gq_head := Some a, gq_tail := Some a\<rparr>)))"

text \<open>\<open>skynet_globalmq_pop\<close>: the queue it returns, if any, and the new state.\<close>

definition skynet_globalmq_pop :: "mq_state \<Rightarrow> (addr option \<times> mq_state) option" where
  "skynet_globalmq_pop st =
     (case gq_head st of None \<Rightarrow> Some (None, st) | Some a \<Rightarrow>
        (case mqs st a of None \<Rightarrow> None | Some q \<Rightarrow>
           (let st1 = st\<lparr>gq_head := mq_next q\<rparr>
            in if gq_head st1 = None then
                 (if gq_tail st1 \<noteq> Some a then None
                  else Some (Some a, set_mq (st1\<lparr>gq_tail := None\<rparr>) a (q\<lparr>mq_next := None\<rparr>)))
               else Some (Some a, set_mq st1 a (q\<lparr>mq_next := None\<rparr>)))))"

text \<open>\<open>skynet_mq_create\<close> at a fresh address.\<close>

definition skynet_mq_create :: "mq_state \<Rightarrow> addr \<Rightarrow> u32 \<Rightarrow> mq_state" where
  "skynet_mq_create st a handle = set_mq st a (mq_create handle)"

definition skynet_mq_push :: "mq_state \<Rightarrow> addr \<Rightarrow> skynet_message \<Rightarrow> mq_state option" where
  "skynet_mq_push st a message =
     (case mqs st a of None \<Rightarrow> None | Some q \<Rightarrow>
        (let q = mq_put q message
         in if mq_in_global q = 0
            then skynet_globalmq_push (set_mq st a (q\<lparr>mq_in_global := MQ_IN_GLOBAL\<rparr>)) a
            else Some (set_mq st a q)))"

definition skynet_mq_pop :: "mq_state \<Rightarrow> addr \<Rightarrow> (skynet_message option \<times> mq_state) option" where
  "skynet_mq_pop st a =
     (case mqs st a of None \<Rightarrow> None | Some q \<Rightarrow>
        (case mq_pop q of None \<Rightarrow> None | Some (r, q') \<Rightarrow> Some (r, set_mq st a q')))"

definition skynet_mq_mark_release :: "mq_state \<Rightarrow> addr \<Rightarrow> mq_state option" where
  "skynet_mq_mark_release st a =
     (case mqs st a of None \<Rightarrow> None | Some q \<Rightarrow>
        if mq_release q \<noteq> 0 then None
        else (let st = set_mq st a (q\<lparr>mq_release := 1\<rparr>)
              in if mq_in_global q \<noteq> MQ_IN_GLOBAL then skynet_globalmq_push st a else Some st))"

text \<open>\<open>_release\<close> frees the queue.\<close>

definition release_queue :: "mq_state \<Rightarrow> addr \<Rightarrow> mq_state option" where
  "release_queue st a =
     (case mqs st a of None \<Rightarrow> None | Some q \<Rightarrow>
        if mq_next q \<noteq> None then None else Some (st\<lparr>mqs := (mqs st)(a := None)\<rparr>))"

text \<open>
  \<open>_drop_queue\<close> hands every pending message to \<open>drop_func\<close>, which may change the state,
  and frees the queue.
\<close>

partial_function (option) drop_queue ::
  "(skynet_message \<Rightarrow> mq_state \<Rightarrow> mq_state option) \<Rightarrow> mq_state \<Rightarrow> addr \<Rightarrow> mq_state option" where
  "drop_queue drop_func st a =
     (case skynet_mq_pop st a of None \<Rightarrow> None
      | Some (r, st') \<Rightarrow>
         (case r of None \<Rightarrow> release_queue st' a
          | Some message \<Rightarrow>
             (case drop_func message st' of None \<Rightarrow> None
              | Some st'' \<Rightarrow> drop_queue drop_func st'' a)))"

definition skynet_mq_release ::
  "(skynet_message \<Rightarrow> mq_state \<Rightarrow> mq_state option) \<Rightarrow> mq_state \<Rightarrow> addr \<Rightarrow> mq_state option" where
  "skynet_mq_release drop_func st a =
     (case mqs st a of None \<Rightarrow> None | Some q \<Rightarrow>
        if mq_release q \<noteq> 0 then drop_queue drop_func st a else skynet_globalmq_push st a)"

section \<open>The ring buffer is a queue\<close>

definition mq_wf :: "message_queue \<Rightarrow> bool" where
  "mq_wf q \<longleftrightarrow> length (mq_queue q) = mq_cap q \<and> mq_head q < mq_cap q \<and> mq_tail q < mq_cap q
     \<and> 0 < mq_over_threshold q"

text \<open>The pending messages, oldest first.\<close>

definition mq_list :: "message_queue \<Rightarrow> skynet_message list" where
  "mq_list q = ring (mq_queue q) (mq_head q) (ring_len (mq_cap q) (mq_head q) (mq_tail q))"

lemma mq_create_wf: "mq_wf (mq_create h)" and mq_create_list: "mq_list (mq_create h) = []"
  by (simp_all add: mq_wf_def mq_list_def mq_create_def DEFAULT_QUEUE_SIZE_def MQ_OVERLOAD_def)

lemma mq_length_ring: "mq_length q = ring_len (mq_cap q) (mq_head q) (mq_tail q)"
  by (simp add: mq_length_def ring_len_def)

lemma mq_length_list: "mq_length q = length (mq_list q)"
  by (simp add: mq_length_ring mq_list_def)

lemma mq_put_cases:
  assumes "mq_wf q"
  shows "mq_list (mq_put q m) = mq_list q @ [m] \<and> mq_wf (mq_put q m)
    \<and> mq_cap (mq_put q m) = (if Suc (mq_length q) = mq_cap q then 2 * mq_cap q else mq_cap q)"
proof -
  let ?xs = "mq_queue q" and ?h = "mq_head q" and ?t = "mq_tail q" and ?c = "mq_cap q"
  let ?n = "ring_len ?c ?h ?t" and ?t' = "Suc ?t mod ?c"
  let ?q = "q\<lparr>mq_queue := ?xs[?t := m], mq_tail := ?t'\<rparr>"
  have w: "length ?xs = ?c" "?h < ?c" "?t < ?c" "0 < mq_over_threshold q"
    using assms by (auto simp: mq_wf_def)
  have n: "?n < ?c" "(?h + ?n) mod ?c = ?t"
    using w by (auto intro: ring_len_bound ring_len_tail)
  have snoc: "ring (?xs[?t := m]) ?h (Suc ?n) = mq_list q @ [m]"
    using ring_snoc [of ?h ?xs ?n m] w n by (simp add: mq_list_def)
  have put: "mq_put q m = (if ?h = ?t' then mq_expand_queue ?q else ?q)"
    by (simp add: mq_put_def Let_def wrap_index [OF w(3), symmetric])
  show ?thesis
  proof (cases "?h = ?t'")
    case False
    with w have len: "ring_len ?c ?h ?t' = Suc ?n" using ring_len_push by metis
    have "?t' < ?c" using w(2) by (intro mod_less_divisor) simp
    then have lt: "ring_len ?c ?h ?t' < ?c" using w by (intro ring_len_bound)
    from put False have "mq_put q m = ?q" by simp
    with snoc len lt w show ?thesis
      by (simp add: mq_list_def mq_wf_def mq_length_ring)
  next
    case True
    then have full: "Suc ?n = ?c" using w by (intro ring_len_full) auto
    have ring_full: "map (\<lambda>i. ?xs[?t := m] ! ((?h + i) mod ?c)) [0..<?c] = mq_list q @ [m]"
      using snoc full w(1) by (simp add: ring_def)
    from put True have put': "mq_put q m = mq_expand_queue ?q" by simp
    have len: "length (mq_list q @ [m]) = ?c" using full by (simp add: mq_list_def)
    have "mq_list (mq_put q m) = ring ((mq_list q @ [m]) @ replicate ?c no_message) 0 ?c"
      unfolding put' using ring_full
      by (simp add: mq_list_def mq_expand_queue_def ring_len_def)
    also have "\<dots> = mq_list q @ [m]"
      using ring_append_take [of ?c "mq_list q @ [m]"] len by simp
    finally show ?thesis
      unfolding put' using full w
      by (simp add: mq_wf_def mq_expand_queue_def mq_length_ring)
  qed
qed

lemma mq_put_list: "mq_wf q \<Longrightarrow> mq_list (mq_put q m) = mq_list q @ [m]"
  and mq_put_wf: "mq_wf q \<Longrightarrow> mq_wf (mq_put q m)"
  and mq_put_cap: "mq_wf q \<Longrightarrow>
    mq_cap (mq_put q m) = (if Suc (mq_length q) = mq_cap q then 2 * mq_cap q else mq_cap q)"
  using mq_put_cases by blast+

lemma mq_put_frame [simp]:
  "mq_handle (mq_put q m) = mq_handle q" "mq_release (mq_put q m) = mq_release q"
  "mq_in_global (mq_put q m) = mq_in_global q" "mq_next (mq_put q m) = mq_next q"
  "mq_over (mq_put q m) = mq_over q" "mq_over_threshold (mq_put q m) = mq_over_threshold q"
  by (simp_all add: mq_put_def mq_expand_queue_def Let_def)

subsection \<open>The overload loop terminates\<close>

text \<open>What the loop returns: the threshold doubled until it is at least the length.\<close>

definition overload_result :: "nat \<Rightarrow> message_queue \<Rightarrow> message_queue \<Rightarrow> bool" where
  "overload_result len q q' \<longleftrightarrow> len \<le> mq_over_threshold q'
     \<and> (if len \<le> mq_over_threshold q then q' = q
        else mq_over q' = len \<and> mq_over_threshold q' < 2 * len
          \<and> (\<exists>k. mq_over_threshold q' = mq_over_threshold q * 2 ^ k)
          \<and> q' = q\<lparr>mq_over := len, mq_over_threshold := mq_over_threshold q'\<rparr>)"

lemma overload_loop_ex:
  "0 < mq_over_threshold q \<Longrightarrow> \<exists>q'. overload_loop len q = Some q' \<and> overload_result len q q'"
proof (induction "len - mq_over_threshold q" arbitrary: q rule: less_induct)
  case less
  show ?case
  proof (cases "mq_over_threshold q < len")
    case False
    then show ?thesis
      by (simp add: overload_loop_def while_option_unfold [of _ _ q] overload_result_def)
  next
    case True
    let ?q = "q\<lparr>mq_over := len, mq_over_threshold := mq_over_threshold q * 2\<rparr>"
    have step: "overload_loop len q = overload_loop len ?q"
      using True by (simp add: overload_loop_def while_option_unfold [of _ _ q])
    have "len - mq_over_threshold ?q < len - mq_over_threshold q"
      using True less.prems by simp
    with less.hyps [of ?q] less.prems obtain q' where
      q': "overload_loop len ?q = Some q'" "overload_result len ?q q'" by auto
    have "overload_result len q q'"
    proof (cases "len \<le> mq_over_threshold ?q")
      case le: True
      with q'(2) have "q' = ?q" by (simp add: overload_result_def)
      moreover have "\<exists>k. mq_over_threshold q * 2 = mq_over_threshold q * 2 ^ k"
        by (rule exI [of _ 1]) simp
      ultimately show ?thesis using True le by (auto simp: overload_result_def)
    next
      case gt: False
      with q'(2) obtain k where "mq_over_threshold q' = mq_over_threshold q * 2 * 2 ^ k"
        by (auto simp: overload_result_def)
      then have "\<exists>k. mq_over_threshold q' = mq_over_threshold q * 2 ^ k"
        by (intro exI [of _ "Suc k"]) simp
      with gt q'(2) True show ?thesis by (auto simp: overload_result_def)
    qed
    with q'(1) step show ?thesis by auto
  qed
qed

lemma overload_result_frame:
  assumes "overload_result len q q'"
  shows "mq_handle q' = mq_handle q" "mq_release q' = mq_release q"
    "mq_in_global q' = mq_in_global q" "mq_next q' = mq_next q"
    "mq_head q' = mq_head q" "mq_tail q' = mq_tail q" "mq_cap q' = mq_cap q"
    "mq_queue q' = mq_queue q"
proof -
  have "\<exists>a b. q' = q\<lparr>mq_over := a, mq_over_threshold := b\<rparr>"
  proof (cases "len \<le> mq_over_threshold q")
    case True
    then have "q' = q\<lparr>mq_over := mq_over q, mq_over_threshold := mq_over_threshold q\<rparr>"
      using assms by (simp add: overload_result_def)
    then show ?thesis by blast
  next
    case False
    then show ?thesis using assms unfolding overload_result_def by auto
  qed
  then show "mq_handle q' = mq_handle q" "mq_release q' = mq_release q"
    "mq_in_global q' = mq_in_global q" "mq_next q' = mq_next q"
    "mq_head q' = mq_head q" "mq_tail q' = mq_tail q" "mq_cap q' = mq_cap q"
    "mq_queue q' = mq_queue q"
    by auto
qed

lemma overload_result_threshold:
  "overload_result len q q' \<Longrightarrow> 0 < mq_over_threshold q \<Longrightarrow> 0 < mq_over_threshold q'"
  by (auto simp: overload_result_def split: if_splits)

lemma mq_pop_empty:
  assumes "mq_wf q" "mq_list q = []"
  shows "mq_pop q = Some (None, q\<lparr>mq_over_threshold := MQ_OVERLOAD, mq_in_global := 0\<rparr>)"
proof -
  have "ring_len (mq_cap q) (mq_head q) (mq_tail q) = 0"
    using assms(2) by (metis mq_length_list mq_length_ring list.size(3))
  then show ?thesis using assms(1) by (simp add: mq_pop_def mq_wf_def)
qed

lemma mq_pop_Cons:
  assumes wf: "mq_wf q" and xs: "mq_list q = m # ms"
  shows "\<exists>q'. mq_pop q = Some (Some m, q') \<and> mq_wf q' \<and> mq_list q' = ms
    \<and> overload_result (length ms) (q\<lparr>mq_head := mq_head q'\<rparr>) q'"
proof -
  let ?h = "mq_head q" and ?t = "mq_tail q" and ?c = "mq_cap q"
  let ?h' = "Suc ?h mod ?c"
  let ?q = "q\<lparr>mq_head := ?h'\<rparr>"
  have w: "length (mq_queue q) = ?c" "?h < ?c" "?t < ?c" "0 < mq_over_threshold q"
    using wf by (auto simp: mq_wf_def)
  have "ring_len ?c ?h ?t \<noteq> 0"
    using xs by (metis mq_length_list mq_length_ring list.size(3) length_0_conv list.simps(3))
  then have ne: "?h \<noteq> ?t" using w by simp
  have len: "ring_len ?c ?h ?t = Suc (ring_len ?c ?h' ?t)"
    using ring_len_pop w ne by blast
  have h': "?h' < ?c" using w(2) by (intro mod_less_divisor) simp
  have hd: "mq_queue q ! ?h = m" and tl: "mq_list ?q = ms"
    using xs ring_Cons [of ?h "mq_queue q" "ring_len ?c ?h' ?t"] w len
    by (auto simp: mq_list_def)
  have "length ms = ring_len ?c ?h' ?t"
    using tl by (simp add: mq_list_def flip: tl)
  then have nlen: "nat (if int ?t - int ?h' < 0 then int ?t - int ?h' + int ?c
      else int ?t - int ?h') = length ms"
    by (auto simp: ring_len_def)
  obtain q' where q': "overload_loop (length ms) ?q = Some q'" "overload_result (length ms) ?q q'"
    using overload_loop_ex [of ?q "length ms"] w by auto
  note frame = overload_result_frame [OF q'(2)]
  have "mq_pop q = map_option (\<lambda>q'. (Some (mq_queue q ! ?h), q')) (overload_loop (nat
      (if int ?t - int ?h' < 0 then int ?t - int ?h' + int ?c else int ?t - int ?h')) ?q)"
    using ne by (simp add: mq_pop_def Let_def wrap_index [OF w(2), symmetric])
  then have "mq_pop q = Some (Some m, q')"
    using hd frame(8) by (simp only: nlen q'(1)) simp
  moreover have "mq_list q' = ms" using frame tl by (simp add: mq_list_def)
  moreover have "mq_wf q'" using frame w h' overload_result_threshold [OF q'(2)]
    by (simp add: mq_wf_def)
  moreover have "q\<lparr>mq_head := mq_head q'\<rparr> = ?q" using frame by simp
  ultimately show ?thesis using q'(2) by auto
qed

interpretation mqf: fifo "\<lambda>q m. Some (mq_put q m)" mq_pop mq_wf mq_list
proof (unfold_locales)
  fix q x assume "mq_wf q"
  then show "\<exists>q'. Some (mq_put q x) = Some q' \<and> mq_wf q' \<and> mq_list q' = mq_list q @ [x]"
    by (simp add: mq_put_list mq_put_wf)
next
  fix q assume "mq_wf q" "mq_list q = []"
  then show "\<exists>q'. mq_pop q = Some (None, q') \<and> mq_wf q' \<and> mq_list q' = []"
    by (simp add: mq_pop_empty) (auto simp: mq_wf_def mq_list_def MQ_OVERLOAD_def)
next
  fix q x xs assume "mq_wf q" "mq_list q = x # xs"
  then show "\<exists>q'. mq_pop q = Some (Some x, q') \<and> mq_wf q' \<and> mq_list q' = xs"
    using mq_pop_Cons by blast
qed

section \<open>Properties\<close>

text \<open>C22: a message queue is first in, first out. Any sequence of pushes and pops on a fresh queue,
  through any number of doublings of the ring buffer and resets of the overload threshold, returns
  and answers exactly like an unbounded list.\<close>

theorem mq_is_fifo:
  "\<exists>q. fifo_run (\<lambda>q m. Some (mq_put q m)) mq_pop ops (mq_create h)
        = Some (fst (fifo_spec ops []), q)
    \<and> mq_list q = snd (fifo_spec ops []) \<and> mq_length q = length (snd (fifo_spec ops []))"
  using mqf.run_refines [OF mq_create_wf [of h], of ops]
  by (auto simp: mq_create_list mq_length_list)

text \<open>C23: the overload detector. A pop that leaves \<open>n\<close> messages returns with the threshold at
  least \<open>n\<close>; it records an overload of exactly \<open>n\<close> when the backlog passed the threshold and
  leaves the record alone otherwise, and the threshold never falls.\<close>

theorem mq_pop_overload:
  assumes "mq_wf q" and "mq_list q = m # ms"
  shows "\<exists>q'. mq_pop q = Some (Some m, q') \<and> mq_list q' = ms
    \<and> length ms \<le> mq_over_threshold q'
    \<and> mq_over q' = (if mq_over_threshold q < length ms then length ms else mq_over q)
    \<and> mq_over_threshold q \<le> mq_over_threshold q'"
proof -
  obtain q' where q': "mq_pop q = Some (Some m, q')" "mq_list q' = ms"
    and res: "overload_result (length ms) (q\<lparr>mq_head := mq_head q'\<rparr>) q'"
    using mq_pop_Cons [OF assms] by blast
  have "mq_over q' = (if mq_over_threshold q < length ms then length ms else mq_over q)"
    "length ms \<le> mq_over_threshold q'" "mq_over_threshold q \<le> mq_over_threshold q'"
    using res by (cases "mq_over_threshold q < length ms";
      auto simp: overload_result_def dest: arg_cong [of _ _ mq_over] arg_cong [of _ _ mq_over_threshold])+
  with q' show ?thesis by auto
qed

theorem mq_pop_overload_witness:
  "\<exists>q'. mq_pop (mq_put (mq_create 1) no_message) = Some (Some no_message, q')
    \<and> length ([] :: skynet_message list) \<le> mq_over_threshold q'"
  using mq_pop_overload [OF mq_put_wf [OF mq_create_wf [of 1]], of no_message no_message "[]"]
  by (auto simp: mq_put_list [OF mq_create_wf] mq_create_list)

end
