(* ===== verification/MqScheduler.thy ===== *)
theory MqScheduler
  imports MessageQueue
begin

text \<open>
  The scheduling protocol of \<open>skynet-src/skynet_mq.c\<close> as \<open>skynet_server.c\<close> and
  \<open>skynet_start.c\<close> use it. Senders, worker threads and the destruction of services interleave in
  any order, one locked function at a time. The protocol keeps every message queue that has work in
  exactly one place: in the global queue, or in the hands of one thread (a worker that took it from
  the global queue, or the thread that creates the service). The theorems say that no assertion of
  the source fails on any interleaving and that no queue with a pending message is forgotten.
\<close>

section \<open>The global queue represents a list of addresses\<close>

primrec gpath :: "(addr \<Rightarrow> message_queue option) \<Rightarrow> addr option \<Rightarrow> addr list \<Rightarrow> bool" where
  "gpath m p [] = (p = None)"
| "gpath m p (x # xs) = (p = Some x \<and> (\<exists>q. m x = Some q \<and> gpath m (mq_next q) xs))"

definition gq_rep :: "mq_state \<Rightarrow> addr list \<Rightarrow> bool" where
  "gq_rep st xs \<longleftrightarrow> gpath (mqs st) (gq_head st) xs
     \<and> gq_tail st = (if xs = [] then None else Some (last xs))
     \<and> distinct xs
     \<and> (\<forall>a q. mqs st a = Some q \<longrightarrow> a \<notin> set xs \<longrightarrow> mq_next q = None)"

text \<open>What the other threads see of the queues: everything but the link.\<close>

definition unlinked :: "mq_state \<Rightarrow> addr \<Rightarrow> message_queue option" where
  "unlinked st a = map_option (\<lambda>q. q\<lparr>mq_next := None\<rparr>) (mqs st a)"

lemma set_mq_simps [simp]:
  "mqs (set_mq st a q) = (mqs st)(a := Some q)" "gq_head (set_mq st a q) = gq_head st"
  "gq_tail (set_mq st a q) = gq_tail st"
  by (simp_all add: set_mq_def)

lemma gpath_dom: "gpath m p xs \<Longrightarrow> x \<in> set xs \<Longrightarrow> \<exists>q. m x = Some q"
  by (induction xs arbitrary: p) auto

lemma gpath_outside [simp]: "a \<notin> set xs \<Longrightarrow> gpath (m(a := v)) p xs = gpath m p xs"
  by (induction xs arbitrary: p) auto

lemma gpath_same_next:
  "m a = Some q \<Longrightarrow> mq_next q' = mq_next q \<Longrightarrow> gpath m p xs \<Longrightarrow> gpath (m(a := Some q')) p xs"
  by (induction xs arbitrary: p) auto

lemma gpath_snoc:
  assumes "gpath m p xs" "xs \<noteq> []" "distinct xs" "a \<notin> set xs"
    "m (last xs) = Some tq" "m a = Some q" "mq_next q = None"
  shows "gpath (m(last xs := Some (tq\<lparr>mq_next := Some a\<rparr>))) p (xs @ [a])"
  using assms
proof (induction xs arbitrary: p)
  case Nil
  then show ?case by simp
next
  case (Cons x xs)
  show ?case
  proof (cases "xs = []")
    case True
    with Cons.prems show ?thesis by auto
  next
    case False
    then have "last (x # xs) = last xs" "last xs \<noteq> x" using Cons.prems(3) by auto
    with Cons False show ?thesis by auto
  qed
qed

lemma gpath_last_next: "gpath m p xs \<Longrightarrow> xs \<noteq> [] \<Longrightarrow> m (last xs) = Some q \<Longrightarrow> mq_next q = None"
proof (induction xs arbitrary: p)
  case (Cons x xs)
  then show ?case by (cases "xs = []") auto
qed simp

lemma globalmq_push_ok:
  assumes rep: "gq_rep st xs" and a: "mqs st a = Some q" "a \<notin> set xs"
  shows "\<exists>st'. skynet_globalmq_push st a = Some st' \<and> gq_rep st' (xs @ [a])
    \<and> unlinked st' = unlinked st"
proof -
  have next_a: "mq_next q = None" and path: "gpath (mqs st) (gq_head st) xs"
    and dist: "distinct xs" using rep a by (auto simp: gq_rep_def)
  show ?thesis
  proof (cases "xs = []")
    case True
    with rep a next_a show ?thesis
      by (simp add: skynet_globalmq_push_def gq_rep_def unlinked_def fun_eq_iff)
  next
    case False
    then obtain tq where tq: "mqs st (last xs) = Some tq"
      using gpath_dom [OF path] by fastforce
    have ne: "last xs \<noteq> a" using False a by auto
    let ?st = "(set_mq st (last xs) (tq\<lparr>mq_next := Some a\<rparr>))\<lparr>gq_tail := Some a\<rparr>"
    have push: "skynet_globalmq_push st a = Some ?st"
      using rep a next_a tq False by (simp add: skynet_globalmq_push_def gq_rep_def)
    have "gq_rep ?st (xs @ [a])"
      unfolding gq_rep_def
      using gpath_snoc [OF path False dist a(2) tq a(1) next_a] dist a(2) rep False
      by (auto simp: gq_rep_def)
    moreover have "unlinked ?st = unlinked st"
      using tq by (auto simp: unlinked_def fun_eq_iff)
    ultimately show ?thesis using push by blast
  qed
qed

lemma globalmq_pop_nil: "gq_rep st [] \<Longrightarrow> skynet_globalmq_pop st = Some (None, st)"
  by (simp add: skynet_globalmq_pop_def gq_rep_def)

lemma globalmq_pop_Cons:
  assumes rep: "gq_rep st (x # xs)"
  shows "\<exists>st'. skynet_globalmq_pop st = Some (Some x, st') \<and> gq_rep st' xs
    \<and> unlinked st' = unlinked st"
proof -
  obtain q where q: "mqs st x = Some q" "gpath (mqs st) (mq_next q) xs" "x \<notin> set xs"
    "gq_head st = Some x" "distinct xs"
    using rep by (auto simp: gq_rep_def)
  show ?thesis
  proof (cases "xs = []")
    case True
    with rep q show ?thesis
      by (auto simp: skynet_globalmq_pop_def gq_rep_def unlinked_def fun_eq_iff Let_def)
  next
    case False
    then have ne: "mq_next q \<noteq> None" using q(2) by (cases xs) auto
    have pop: "skynet_globalmq_pop st
        = Some (Some x, set_mq (st\<lparr>gq_head := mq_next q\<rparr>) x (q\<lparr>mq_next := None\<rparr>))"
      using q(1,4) ne by (auto simp: skynet_globalmq_pop_def Let_def)
    have "gq_rep (set_mq (st\<lparr>gq_head := mq_next q\<rparr>) x (q\<lparr>mq_next := None\<rparr>)) xs"
      using rep q False by (auto simp: gq_rep_def)
    with pop q(1) show ?thesis
      by (auto simp: unlinked_def fun_eq_iff)
  qed
qed

lemma gq_rep_same_next:
  assumes "gq_rep st xs" "mqs st a = Some q" "mq_next q' = mq_next q"
  shows "gq_rep (set_mq st a q') xs"
  using assms gpath_same_next [of "mqs st" a q q'] by (auto simp: gq_rep_def)

section \<open>The protocol\<close>

text \<open>
  A configuration is the store and the set of queues that some thread has in hand.

  \<^item> \<open>create\<close>: \<open>skynet_context_new\<close> makes the queue of a new service and keeps it.
  \<^item> \<open>schedule\<close>: a queue in hand is put into the global queue (\<open>skynet_context_new\<close> after the
    service is initialised, \<open>skynet_context_message_dispatch\<close> when other queues wait,
    \<open>skynet_mq_release\<close> when the service is not yet destroyed).
  \<^item> \<open>take\<close>: a worker takes a queue.
  \<^item> \<open>send\<close>: \<open>skynet_mq_push\<close>; a sender holds a reference to the service, so the queue is
    not marked for release.
  \<^item> \<open>receive\<close>: a worker pops a message, to dispatch it or, for a released queue, to drop it.
  \<^item> \<open>idle\<close>: a worker finds the queue empty and lets it go.
  \<^item> \<open>overload\<close>: a worker reads the overload mark.
  \<^item> \<open>mark\<close>: \<open>delete_context\<close> marks the queue of a destroyed service.
  \<^item> \<open>free\<close>: a worker finds a released queue empty and frees it.
\<close>

type_synonym config = "mq_state \<times> addr set"

inductive mq_step :: "config \<Rightarrow> config \<Rightarrow> bool" where
  create: "mqs st a = None \<Longrightarrow> mq_step (st, H) (skynet_mq_create st a h, insert a H)"
| schedule: "a \<in> H \<Longrightarrow> skynet_globalmq_push st a = Some st' \<Longrightarrow> mq_step (st, H) (st', H - {a})"
| take: "skynet_globalmq_pop st = Some (Some a, st') \<Longrightarrow> mq_step (st, H) (st', insert a H)"
| send: "mqs st a = Some q \<Longrightarrow> mq_release q = 0 \<Longrightarrow> skynet_mq_push st a m = Some st' \<Longrightarrow>
    mq_step (st, H) (st', H)"
| receive: "a \<in> H \<Longrightarrow> skynet_mq_pop st a = Some (Some m, st') \<Longrightarrow> mq_step (st, H) (st', H)"
| idle: "a \<in> H \<Longrightarrow> mqs st a = Some q \<Longrightarrow> mq_release q = 0 \<Longrightarrow>
    skynet_mq_pop st a = Some (None, st') \<Longrightarrow> mq_step (st, H) (st', H - {a})"
| overload: "a \<in> H \<Longrightarrow> mqs st a = Some q \<Longrightarrow>
    mq_step (st, H) (set_mq st a (snd (mq_overload q)), H)"
| mark: "mqs st a = Some q \<Longrightarrow> mq_release q = 0 \<Longrightarrow> skynet_mq_mark_release st a = Some st' \<Longrightarrow>
    mq_step (st, H) (st', H)"
| free: "a \<in> H \<Longrightarrow> mqs st a = Some q \<Longrightarrow> mq_release q \<noteq> 0 \<Longrightarrow>
    skynet_mq_pop st a = Some (None, st') \<Longrightarrow> release_queue st' a = Some st'' \<Longrightarrow>
    mq_step (st, H) (st'', H - {a})"

inductive mq_reachable :: "config \<Rightarrow> bool" where
  init: "mq_reachable (skynet_mq_init, {})"
| step: "mq_reachable c \<Longrightarrow> mq_step c c' \<Longrightarrow> mq_reachable c'"

subsection \<open>The invariant\<close>

text \<open>What holds of a queue that is (\<open>s\<close>) or is not in the global queue or in hand.\<close>

definition queue_ok :: "bool \<Rightarrow> message_queue \<Rightarrow> bool" where
  "queue_ok s q \<longleftrightarrow> mq_wf q \<and> mq_in_global q \<in> {0, 1}
     \<and> s = (mq_in_global q = 1 \<or> mq_release q \<noteq> 0)
     \<and> (mq_in_global q = 0 \<and> mq_release q = 0 \<longrightarrow> mq_list q = [])"

lemma queue_ok_next [simp]: "queue_ok s (q\<lparr>mq_next := n\<rparr>) = queue_ok s q"
  by (simp add: queue_ok_def mq_wf_def mq_list_def)

definition sched_inv :: "mq_state \<Rightarrow> addr set \<Rightarrow> addr list \<Rightarrow> bool" where
  "sched_inv st H xs \<longleftrightarrow> gq_rep st xs \<and> H \<inter> set xs = {} \<and> H \<subseteq> dom (mqs st)
     \<and> (\<forall>a q. mqs st a = Some q \<longrightarrow> queue_ok (a \<in> H \<union> set xs) q)"

lemma unlinked_Some:
  assumes eq: "unlinked st' = unlinked st" and q': "mqs st' a = Some q'"
  shows "\<exists>q n. mqs st a = Some q \<and> q' = q\<lparr>mq_next := n\<rparr>"
proof -
  from fun_cong [OF eq, of a] q' obtain q where
    q: "mqs st a = Some q" "q'\<lparr>mq_next := None\<rparr> = q\<lparr>mq_next := None\<rparr>"
    by (cases "mqs st a") (auto simp: unlinked_def)
  have "q' = (q'\<lparr>mq_next := None\<rparr>)\<lparr>mq_next := mq_next q'\<rparr>" by simp
  also have "\<dots> = q\<lparr>mq_next := mq_next q'\<rparr>" unfolding q(2) by simp
  finally show ?thesis using q(1) by blast
qed

lemma unlinked_dom: "unlinked st' = unlinked st \<Longrightarrow> dom (mqs st') = dom (mqs st)"
proof -
  assume *: "unlinked st' = unlinked st"
  have "(mqs st' a = None) = (mqs st a = None)" for a
    using fun_cong [OF *, of a] by (auto simp: unlinked_def)
  then show ?thesis by (auto simp: dom_def)
qed

lemma sched_inv_relink:
  assumes inv: "sched_inv st H xs" and rep: "gq_rep st' ys" and eq: "unlinked st' = unlinked st"
    and sets: "H' \<union> set ys = H \<union> set xs" "H' \<inter> set ys = {}" "H' \<subseteq> dom (mqs st)"
  shows "sched_inv st' H' ys"
  unfolding sched_inv_def
proof (intro conjI allI impI)
  show "H' \<subseteq> dom (mqs st')" using sets(3) unlinked_dom [OF eq] by simp
next
  fix a q' assume "mqs st' a = Some q'"
  then obtain q n where "mqs st a = Some q" "q' = q\<lparr>mq_next := n\<rparr>"
    using unlinked_Some [OF eq] by blast
  then show "queue_ok (a \<in> H' \<union> set ys) q'" using inv sets(1) by (auto simp: sched_inv_def)
qed (use rep sets in auto)

lemma sched_inv_update:
  assumes "sched_inv st H xs" "mqs st a = Some q" "mq_next q' = mq_next q"
    "queue_ok (a \<in> H \<union> set xs) q'"
  shows "sched_inv (set_mq st a q') H xs"
  using assms gq_rep_same_next [of st xs a q q'] by (auto simp: sched_inv_def)

lemma sched_inv_ok: "sched_inv st H xs \<Longrightarrow> mqs st a = Some q \<Longrightarrow> queue_ok (a \<in> H \<union> set xs) q"
  by (simp add: sched_inv_def)

lemma sched_schedule:
  assumes inv: "sched_inv st H xs" and a: "a \<in> H"
  shows "\<exists>st'. skynet_globalmq_push st a = Some st' \<and> sched_inv st' (H - {a}) (xs @ [a])"
proof -
  obtain q where q: "mqs st a = Some q" "a \<notin> set xs"
    using inv a unfolding sched_inv_def by blast
  obtain st' where "skynet_globalmq_push st a = Some st'" "gq_rep st' (xs @ [a])"
    "unlinked st' = unlinked st"
    using globalmq_push_ok [OF _ q] inv by (auto simp: sched_inv_def)
  moreover from this have "sched_inv st' (H - {a}) (xs @ [a])"
    by (intro sched_inv_relink [OF inv]) (use inv a in \<open>auto simp: sched_inv_def\<close>)
  ultimately show ?thesis by blast
qed

lemma sched_take:
  assumes inv: "sched_inv st H (x # xs)"
  shows "\<exists>st'. skynet_globalmq_pop st = Some (Some x, st') \<and> sched_inv st' (insert x H) xs"
proof -
  have rep: "gq_rep st (x # xs)" using inv by (simp add: sched_inv_def)
  then obtain st' where "skynet_globalmq_pop st = Some (Some x, st')" "gq_rep st' xs"
    "unlinked st' = unlinked st"
    using globalmq_pop_Cons by blast
  moreover from this have "sched_inv st' (insert x H) xs"
    by (intro sched_inv_relink [OF inv]) (use inv rep in \<open>auto simp: sched_inv_def gq_rep_def\<close>)
  ultimately show ?thesis by blast
qed

text \<open>A queue that is nowhere is put into the global queue by a thread that changed it to \<open>q'\<close>.\<close>

lemma sched_wake:
  assumes inv: "sched_inv st H xs" and a: "mqs st a = Some q" "a \<notin> H \<union> set xs"
    and q': "mq_next q' = mq_next q" "queue_ok True q'"
  shows "\<exists>st'. skynet_globalmq_push (set_mq st a q') a = Some st' \<and> sched_inv st' H (xs @ [a])"
proof -
  have "gq_rep (set_mq st a q') xs"
    using inv a q' by (intro gq_rep_same_next) (auto simp: sched_inv_def)
  then have "sched_inv (set_mq st a q') (insert a H) xs"
    using inv a q' by (auto simp: sched_inv_def)
  from sched_schedule [OF this, of a] a(2) show ?thesis
    by (metis Diff_insert_absorb UnCI insertI1)
qed

lemma sched_create:
  assumes inv: "sched_inv st H xs" and a: "mqs st a = None"
  shows "sched_inv (skynet_mq_create st a h) (insert a H) xs"
proof -
  have path: "gpath (mqs st) (gq_head st) xs" using inv by (simp add: sched_inv_def gq_rep_def)
  then have nin: "a \<notin> set xs" using gpath_dom a by fastforce
  then have "gq_rep (skynet_mq_create st a h) xs"
    using inv by (auto simp: sched_inv_def gq_rep_def skynet_mq_create_def mq_create_def)
  moreover have "queue_ok True (mq_create h)"
    using mq_create_wf [of h] by (simp add: queue_ok_def) (simp add: mq_create_def MQ_IN_GLOBAL_def)
  ultimately show ?thesis
    using inv nin by (auto simp: sched_inv_def skynet_mq_create_def)
qed

lemma sched_send:
  assumes inv: "sched_inv st H xs" and a: "mqs st a = Some q" and rel: "mq_release q = 0"
  shows "\<exists>st' ys. skynet_mq_push st a m = Some st' \<and> sched_inv st' H ys"
proof -
  note ok = sched_inv_ok [OF inv a]
  then have wf: "mq_wf q" by (simp add: queue_ok_def)
  show ?thesis
  proof (cases "mq_in_global q = 0")
    case True
    let ?q = "(mq_put q m)\<lparr>mq_in_global := MQ_IN_GLOBAL\<rparr>"
    have out: "a \<notin> H \<union> set xs" using ok True rel by (auto simp: queue_ok_def)
    have "queue_ok True ?q"
      using mq_put_wf [OF wf, of m] by (auto simp: queue_ok_def MQ_IN_GLOBAL_def mq_wf_def)
    from sched_wake [OF inv a out _ this] obtain st' where
      "skynet_globalmq_push (set_mq st a ?q) a = Some st'" "sched_inv st' H (xs @ [a])" by auto
    then show ?thesis using a True by (auto simp: skynet_mq_push_def Let_def)
  next
    case False
    then have "queue_ok (a \<in> H \<union> set xs) (mq_put q m)"
      using ok mq_put_wf [OF wf, of m] by (auto simp: queue_ok_def)
    from sched_inv_update [OF inv a _ this] show ?thesis
      using a False by (auto simp: skynet_mq_push_def Let_def)
  qed
qed

lemma sched_pop:
  assumes inv: "sched_inv st H xs" and a: "a \<in> H" "mqs st a = Some q"
  shows "case mq_list q of
      m # ms \<Rightarrow> \<exists>q'. mq_pop q = Some (Some m, q') \<and> mq_list q' = ms
        \<and> skynet_mq_pop st a = Some (Some m, set_mq st a q') \<and> sched_inv (set_mq st a q') H xs
    | [] \<Rightarrow> \<exists>q'. skynet_mq_pop st a = Some (None, set_mq st a q') \<and> mq_next q' = None
        \<and> mq_release q' = mq_release q \<and> mq_list q' = [] \<and> mq_wf q' \<and> mq_in_global q' = 0"
proof (cases "mq_list q")
  case Nil
  have wf: "mq_wf q" and nx: "mq_next q = None"
    using inv a by (auto simp: sched_inv_def queue_ok_def gq_rep_def)
  with Nil mq_pop_empty [OF wf Nil] a show ?thesis
    by (auto simp: skynet_mq_pop_def mq_wf_def mq_list_def MQ_OVERLOAD_def)
next
  case (Cons m ms)
  note ok = sched_inv_ok [OF inv a(2)]
  then have wf: "mq_wf q" by (simp add: queue_ok_def)
  from mq_pop_Cons [OF wf Cons] obtain q' where
    q': "mq_pop q = Some (Some m, q')" "mq_wf q'" "mq_list q' = ms"
    and res: "overload_result (length ms) (q\<lparr>mq_head := mq_head q'\<rparr>) q'" by blast
  note frame = overload_result_frame [OF res]
  have "queue_ok (a \<in> H \<union> set xs) q'"
    using ok q' frame a(1) by (auto simp: queue_ok_def)
  from sched_inv_update [OF inv a(2) _ this] frame q' a(2) Cons show ?thesis
    by (auto simp: skynet_mq_pop_def)
qed

lemma sched_overload:
  assumes inv: "sched_inv st H xs" and a: "mqs st a = Some q"
  shows "sched_inv (set_mq st a (snd (mq_overload q))) H xs"
  using sched_inv_ok [OF inv a]
  by (intro sched_inv_update [OF inv a])
    (auto simp: mq_overload_def queue_ok_def mq_wf_def mq_list_def)

lemma sched_idle:
  assumes inv: "sched_inv st H xs" and a: "a \<in> H" "mqs st a = Some q" and rel: "mq_release q = 0"
    and pop: "skynet_mq_pop st a = Some (None, st')"
  shows "sched_inv st' (H - {a}) xs"
proof -
  have "mq_list q = []"
    using sched_pop [OF inv a] pop by (cases "mq_list q") auto
  with sched_pop [OF inv a] pop obtain q' where st': "st' = set_mq st a q'"
    and q': "mq_next q' = None" "mq_release q' = mq_release q" "mq_list q' = []" "mq_wf q'"
      "mq_in_global q' = 0" by auto
  have nx: "mq_next q = None" using inv a by (auto simp: sched_inv_def gq_rep_def)
  have "gq_rep st' xs"
    unfolding st' using inv a q' nx by (intro gq_rep_same_next) (auto simp: sched_inv_def)
  then show ?thesis
    using inv a q' rel unfolding st' by (auto simp: sched_inv_def queue_ok_def)
qed

lemma sched_mark:
  assumes inv: "sched_inv st H xs" and a: "mqs st a = Some q" and rel: "mq_release q = 0"
  shows "\<exists>st' ys. skynet_mq_mark_release st a = Some st' \<and> sched_inv st' H ys"
proof -
  note ok = sched_inv_ok [OF inv a]
  let ?q = "q\<lparr>mq_release := 1\<rparr>"
  show ?thesis
  proof (cases "mq_in_global q = MQ_IN_GLOBAL")
    case True
    then have "queue_ok (a \<in> H \<union> set xs) ?q"
      using ok rel by (auto simp: queue_ok_def mq_wf_def MQ_IN_GLOBAL_def)
    from sched_inv_update [OF inv a _ this] show ?thesis
      using a rel True by (auto simp: skynet_mq_mark_release_def Let_def)
  next
    case False
    then have out: "a \<notin> H \<union> set xs" using ok rel by (auto simp: queue_ok_def MQ_IN_GLOBAL_def)
    have "queue_ok True ?q"
      using ok False by (auto simp: queue_ok_def mq_wf_def MQ_IN_GLOBAL_def)
    from sched_wake [OF inv a out _ this] show ?thesis
      using a rel False by (auto simp: skynet_mq_mark_release_def Let_def)
  qed
qed

lemma sched_free:
  assumes inv: "sched_inv st H xs" and a: "a \<in> H" "mqs st a = Some q"
    and pop: "skynet_mq_pop st a = Some (None, st')"
  shows "\<exists>st''. release_queue st' a = Some st'' \<and> sched_inv st'' (H - {a}) xs"
proof -
  have "mq_list q = []"
    using sched_pop [OF inv a] pop by (cases "mq_list q") auto
  with sched_pop [OF inv a] pop obtain q' where st': "st' = set_mq st a q'"
    and q': "mq_next q' = None" by auto
  have "a \<notin> set xs" using inv a by (auto simp: sched_inv_def)
  then have "sched_inv (st'\<lparr>mqs := (mqs st')(a := None)\<rparr>) (H - {a}) xs"
    using inv a by (auto simp: sched_inv_def gq_rep_def st')
  moreover have "release_queue st' a = Some (st'\<lparr>mqs := (mqs st')(a := None)\<rparr>)"
    using q' by (simp add: st' release_queue_def)
  ultimately show ?thesis by blast
qed

lemma sched_step:
  assumes "mq_step c c'" "sched_inv (fst c) (snd c) xs"
  shows "\<exists>ys. sched_inv (fst c') (snd c') ys"
  using assms
proof (induction rule: mq_step.induct)
  case (take st a st' H)
  then obtain ys where "xs = a # ys"
    using globalmq_pop_nil [of st] globalmq_pop_Cons [of st]
    by (cases xs) (fastforce simp: sched_inv_def)+
  with take sched_take [of st H a ys] show ?case by auto
next
  case (receive a H st m st')
  then obtain q where q: "mqs st a = Some q" by (auto simp: sched_inv_def)
  with receive sched_pop [of st H xs a q] show ?case by (cases "mq_list q") auto
next
  case (send st a q m st' H)
  then show ?case using sched_send [of st H xs a q m] by auto
next
  case (mark st a q st' H)
  then show ?case using sched_mark [of st H xs a q] by auto
next
  case (free a H st q st' st'')
  then show ?case using sched_free [of st H xs a q st'] by auto
next
  case (create st a H h)
  then show ?case using sched_create [of st H xs a h] by auto
next
  case (schedule a H st st')
  then show ?case using sched_schedule [of st H xs a] by auto
next
  case (idle a H st q st')
  then show ?case using sched_idle [of st H xs a q st'] by auto
next
  case (overload a H st q)
  then show ?case using sched_overload [of st H xs a q] by auto
qed

lemma sched_init: "sched_inv skynet_mq_init {} []"
  by (simp add: sched_inv_def gq_rep_def skynet_mq_init_def)

lemma reachable_sched_inv: "mq_reachable c \<Longrightarrow> \<exists>xs. sched_inv (fst c) (snd c) xs"
proof (induction rule: mq_reachable.induct)
  case init
  then show ?case using sched_init by auto
next
  case (step c c')
  then show ?case using sched_step by blast
qed

section \<open>Dropping a released queue ends\<close>

text \<open>
  What \<open>_drop_queue\<close> needs of the drop function: it returns, and it leaves the queue that is being
  dropped alone (nobody can send to a service that is destroyed).
\<close>

definition drop_keeps :: "(skynet_message \<Rightarrow> mq_state \<Rightarrow> mq_state option) \<Rightarrow> addr \<Rightarrow> bool" where
  "drop_keeps drop_func a \<longleftrightarrow>
     (\<forall>m st. \<exists>st'. drop_func m st = Some st' \<and> mqs st' a = mqs st a)"

lemma drop_queue_ends:
  assumes keeps: "drop_keeps drop_func a"
  shows "mqs st a = Some q \<Longrightarrow> mq_wf q \<Longrightarrow> mq_next q = None \<Longrightarrow>
    \<exists>st'. drop_queue drop_func st a = Some st' \<and> mqs st' a = None"
proof (induction "mq_list q" arbitrary: st q)
  case Nil
  then show ?case
    using mq_pop_empty [of q]
    by (subst drop_queue.simps) (simp add: skynet_mq_pop_def release_queue_def)
next
  case (Cons m ms)
  then obtain q' where q': "mq_pop q = Some (Some m, q')" "mq_wf q'" "mq_list q' = ms"
    and res: "overload_result (length ms) (q\<lparr>mq_head := mq_head q'\<rparr>) q'"
    using mq_pop_Cons [of q m ms] by metis
  obtain st' where st': "drop_func m (set_mq st a q') = Some st'" "mqs st' a = Some q'"
    using keeps by (fastforce simp: drop_keeps_def)
  have "mq_next q' = None" using overload_result_frame(4) [OF res] Cons.prems by simp
  from Cons.hyps(1) [OF q'(3) [symmetric] st'(2) q'(2) this] q' st' Cons.prems(1)
  show ?case by (subst drop_queue.simps) (simp add: skynet_mq_pop_def)
qed

section \<open>Properties\<close>

text \<open>C1: no queue with a pending message is forgotten. In every state that any interleaving of
  senders, workers and service destructions can reach, a queue that holds a message is in exactly
  one place: in the global queue or in the hands of one thread.\<close>

theorem mq_no_lost_queue:
  assumes "mq_reachable (st, H)" and "mqs st a = Some q" and "mq_list q \<noteq> []"
  shows "\<exists>xs. gpath (mqs st) (gq_head st) xs \<and> distinct xs \<and> (a \<in> H) \<noteq> (a \<in> set xs)"
proof -
  obtain xs where inv: "sched_inv st H xs" using reachable_sched_inv [OF assms(1)] by auto
  have "a \<in> H \<union> set xs"
    using sched_inv_ok [OF inv assms(2)] assms(3) by (auto simp: queue_ok_def)
  with inv show ?thesis by (auto simp: sched_inv_def gq_rep_def)
qed

theorem mq_no_lost_queue_witness:
  "let st = set_mq (skynet_mq_create skynet_mq_init 0 1) 0 (mq_put (mq_create 1) no_message)
   in \<exists>xs. gpath (mqs st) (gq_head st) xs \<and> distinct xs \<and> ((0::nat) \<in> {0}) \<noteq> (0 \<in> set xs)"
proof -
  let ?st1 = "skynet_mq_create skynet_mq_init 0 1"
  let ?q = "mq_put (mq_create 1) no_message"
  have "mq_step (skynet_mq_init, {}) (?st1, insert 0 {})"
    by (rule mq_step.create) (simp add: skynet_mq_init_def)
  then have r1: "mq_reachable (?st1, {0})" by (rule mq_reachable.step [OF mq_reachable.init])
  have push: "skynet_mq_push ?st1 0 no_message = Some (set_mq ?st1 0 ?q)"
    by (simp add: skynet_mq_push_def skynet_mq_create_def Let_def)
      (simp add: mq_create_def MQ_IN_GLOBAL_def)
  have "mq_step (?st1, {0}) (set_mq ?st1 0 ?q, {0})"
    by (rule mq_step.send [of _ _ "mq_create 1" no_message, OF _ _ push])
      (simp_all add: skynet_mq_create_def, simp add: mq_create_def)
  with r1 have r: "mq_reachable (set_mq ?st1 0 ?q, {0})" by (rule mq_reachable.step)
  have "mq_list ?q \<noteq> []" by (simp add: mq_put_list [OF mq_create_wf])
  from mq_no_lost_queue [OF r _ this, of 0] show ?thesis by (simp add: Let_def)
qed

text \<open>C8: no assertion of \<open>skynet_mq.c\<close> fails and no freed queue is touched, on any interleaving:
  in every reachable state, putting back or popping a queue in hand, taking from the global queue,
  sending to a live service, marking it for release, and freeing a queue found empty all succeed.\<close>

theorem mq_protocol_never_aborts:
  assumes "mq_reachable (st, H)"
  shows "skynet_globalmq_pop st \<noteq> None
    \<and> (\<forall>a \<in> H. skynet_globalmq_push st a \<noteq> None \<and> skynet_mq_pop st a \<noteq> None
        \<and> (\<forall>st'. skynet_mq_pop st a = Some (None, st') \<longrightarrow> release_queue st' a \<noteq> None))
    \<and> (\<forall>a q m. mqs st a = Some q \<and> mq_release q = 0 \<longrightarrow>
        skynet_mq_push st a m \<noteq> None \<and> skynet_mq_mark_release st a \<noteq> None)"
proof -
  obtain xs where inv: "sched_inv st H xs" using reachable_sched_inv [OF assms] by auto
  have "skynet_globalmq_pop st \<noteq> None"
  proof (cases xs)
    case Nil
    then show ?thesis using inv globalmq_pop_nil [of st] by (simp add: sched_inv_def)
  next
    case (Cons x ys)
    then show ?thesis using sched_take [of st H x ys] inv by auto
  qed
  moreover have "skynet_globalmq_push st a \<noteq> None \<and> skynet_mq_pop st a \<noteq> None
      \<and> (\<forall>st'. skynet_mq_pop st a = Some (None, st') \<longrightarrow> release_queue st' a \<noteq> None)"
    if a: "a \<in> H" for a
  proof -
    obtain q where q: "mqs st a = Some q" using inv a unfolding sched_inv_def by blast
    show ?thesis
      using sched_schedule [OF inv a] sched_pop [OF inv a q] sched_free [OF inv a q]
      by (cases "mq_list q") fastforce+
  qed
  moreover have "skynet_mq_push st a m \<noteq> None \<and> skynet_mq_mark_release st a \<noteq> None"
    if "mqs st a = Some q" "mq_release q = 0" for a q m
    using sched_send [OF inv that] sched_mark [OF inv that] by fastforce
  ultimately show ?thesis by blast
qed

theorem mq_protocol_never_aborts_witness:
  "skynet_globalmq_push (skynet_mq_create skynet_mq_init 0 1) 0 \<noteq> None"
proof -
  have "mq_step (skynet_mq_init, {}) (skynet_mq_create skynet_mq_init 0 1, insert 0 {})"
    by (rule mq_step.create) (simp add: skynet_mq_init_def)
  then have "mq_reachable (skynet_mq_create skynet_mq_init 0 1, {0})"
    by (rule mq_reachable.step [OF mq_reachable.init])
  from mq_protocol_never_aborts [OF this] show ?thesis by blast
qed



end
