(* ===== verification/Skynet_H.thy ===== *)
theory Skynet_H
  imports Skynet_Prelude
begin

text \<open>
  \<open>skynet-src/skynet.h\<close> and \<open>skynet_socket.h\<close>: the types of messages between services and of events
  from the socket layer.
\<close>

section \<open>Types of messages\<close>

definition PTYPE_TEXT :: u32 where "PTYPE_TEXT = 0"
definition PTYPE_RESPONSE :: u32 where "PTYPE_RESPONSE = 1"
definition PTYPE_CLIENT :: u32 where "PTYPE_CLIENT = 3"
definition PTYPE_SYSTEM :: u32 where "PTYPE_SYSTEM = 4"
definition PTYPE_HARBOR :: u32 where "PTYPE_HARBOR = 5"
definition PTYPE_SOCKET :: u32 where "PTYPE_SOCKET = 6"
definition PTYPE_ERROR :: u32 where "PTYPE_ERROR = 7"
definition PTYPE_TAG_DONTCOPY :: u32 where "PTYPE_TAG_DONTCOPY = 0x10000"
definition PTYPE_TAG_ALLOCSESSION :: u32 where "PTYPE_TAG_ALLOCSESSION = 0x20000"

section \<open>Events of the socket layer\<close>

definition SOCKET_DATA :: int where "SOCKET_DATA = 1"
definition SOCKET_CONNECT :: int where "SOCKET_CONNECT = 2"
definition SOCKET_CLOSE :: int where "SOCKET_CLOSE = 3"
definition SOCKET_ACCEPT :: int where "SOCKET_ACCEPT = 4"
definition SOCKET_ERROR :: int where "SOCKET_ERROR = 5"
definition SOCKET_UDP :: int where "SOCKET_UDP = 6"
definition SOCKET_WARNING :: int where "SOCKET_WARNING = 7"

text \<open>\<open>sm_buffer\<close> is what the pointer \<open>buffer\<close> points to: \<open>ud\<close> bytes of data.\<close>

record socket_message =
  sm_type :: int
  sm_id :: int
  sm_ud :: int
  sm_buffer :: bytes

lemmas socket_types = SOCKET_DATA_def SOCKET_CONNECT_def SOCKET_CLOSE_def SOCKET_ACCEPT_def SOCKET_ERROR_def
  SOCKET_UDP_def SOCKET_WARNING_def

text \<open>The data that a history of events brings to one connection.\<close>

definition data_of :: "int \<Rightarrow> (socket_message \<times> string) list \<Rightarrow> bytes" where
  "data_of i evs = concat (map (\<lambda>e. sm_buffer (fst e)) (filter (\<lambda>e. sm_id (fst e) = i) evs))"

definition all_data :: "(socket_message \<times> string) list \<Rightarrow> bool" where
  "all_data evs = list_all (\<lambda>e. sm_type (fst e) = SOCKET_DATA) evs"

section \<open>C strings and integers\<close>

text \<open>The C string at an index of a buffer, and an \<open>int\<close> that a \<open>long\<close> is converted to.\<close>

definition cstr :: "string \<Rightarrow> nat \<Rightarrow> string" where
  "cstr buf p = takeWhile (\<lambda>c. c \<noteq> CHR 0x00) (drop p buf)"

definition string_bytes :: "string \<Rightarrow> bytes" where
  "string_bytes s = map of_char s"

definition to_int32 :: "int \<Rightarrow> int" where
  "to_int32 i = sint (of_int i :: u32)"

text \<open>
  \<open>memcmp (word, lit, length word) == 0\<close> for a string literal, which ends with a zero character.
  \<open>None\<close> when the comparison would read beyond the literal.
\<close>

definition word_is :: "string \<Rightarrow> string \<Rightarrow> bool option" where
  "word_is w lit =
     (if length w \<le> Suc (length lit) then Some (w = take (length w) (lit @ [CHR 0x00]))
      else if take (Suc (length lit)) w \<noteq> lit @ [CHR 0x00] then Some False else None)"

text \<open>
  \<open>strsep (&p, " ")\<close>: the buffer with the first space from \<open>p\<close> on replaced by a zero character, and
  the index behind it.
\<close>

definition strsep_space :: "string \<Rightarrow> nat \<Rightarrow> string \<times> nat option" where
  "strsep_space buf p =
     (let e = p + length (takeWhile (\<lambda>c. c \<noteq> CHR 0x00 \<and> c \<noteq> CHR '' '') (drop p buf))
      in if e < length buf \<and> buf ! e = CHR '' '' then (buf[e := CHR 0x00], Some (Suc e)) else (buf, None))"

lemma cstr_append: "CHR 0x00 \<notin> set s \<Longrightarrow> cstr (s @ CHR 0x00 # t) 0 = s"
  by (induction s) (auto simp: cstr_def)

lemma word_is_Some: "CHR 0x00 \<notin> set w \<Longrightarrow> \<exists>b. word_is w lit = Some b"
proof -
  assume w: "CHR 0x00 \<notin> set w"
  have "take (Suc (length lit)) w \<noteq> lit @ [CHR 0x00]"
    by (metis in_set_takeD last_in_set last_snoc snoc_eq_iff_butlast w)
  then show ?thesis by (auto simp: word_is_def)
qed

lemma to_int32_small: "- (2 ^ 31) \<le> i \<Longrightarrow> i < 2 ^ 31 \<Longrightarrow> to_int32 i = i"
  by (simp add: to_int32_def signed_of_int signed_take_bit_int_eq_self)

end
