(* ===== verification/CText.thy ===== *)
theory CText
  imports Skynet_H
begin

text \<open>
  Numbers as text, as the sources print them with \<open>sprintf\<close> (\<open>%x\<close>, \<open>%08x\<close>, \<open>%u\<close>, \<open>%d\<close>) and read
  them with \<open>strtol\<close> and \<open>strtoul\<close> of the C library. A string is the characters before the
  terminating zero. The lemmas show that a printed number is read back.
\<close>

section \<open>Printing\<close>

definition lower_digit :: "nat \<Rightarrow> char" where
  "lower_digit n = ''0123456789abcdef'' ! n"

fun radix :: "nat \<Rightarrow> nat \<Rightarrow> string" where
  "radix b n = (if b < 2 \<or> n < b then [lower_digit n] else radix b (n div b) @ [lower_digit (n mod b)])"

declare radix.simps [simp del]

definition fmt_x :: "32 word \<Rightarrow> string" where
  "fmt_x w = radix 16 (unat w)"

definition fmt_u :: "nat \<Rightarrow> string" where
  "fmt_u n = radix 10 n"

definition fmt_d :: "int \<Rightarrow> string" where
  "fmt_d i = (if i < 0 then CHR ''-'' # radix 10 (nat (- i)) else radix 10 (nat i))"

definition fmt_08x :: "32 word \<Rightarrow> string" where
  "fmt_08x w = (let s = fmt_x w in replicate (8 - length s) CHR ''0'' @ s)"

section \<open>Reading\<close>

definition is_space :: "char \<Rightarrow> bool" where
  "is_space c = (of_char c = (32 :: nat) \<or> (9 \<le> (of_char c :: nat) \<and> (of_char c :: nat) \<le> 13))"

definition scan_sign :: "string \<Rightarrow> bool \<times> string" where
  "scan_sign s = (case dropWhile is_space s of [] \<Rightarrow> (False, [])
     | c # t \<Rightarrow> if c = CHR ''-'' then (True, t) else if c = CHR ''+'' then (False, t) else (False, c # t))"

definition hex_value :: "char \<Rightarrow> nat option" where
  "hex_value c = (let n = of_char c in
     if 48 \<le> n \<and> n \<le> 57 then Some (n - 48)
     else if 65 \<le> n \<and> n \<le> 70 then Some (n - 55)
     else if 97 \<le> n \<and> n \<le> 102 then Some (n - 87)
     else None)"

text \<open>The value of the longest prefix of digits of a base.\<close>

fun scan_digits :: "nat \<Rightarrow> string \<Rightarrow> nat \<Rightarrow> nat" where
  "scan_digits b [] acc = acc"
| "scan_digits b (c # s) acc = (case hex_value c of None \<Rightarrow> acc
     | Some v \<Rightarrow> if v < b then scan_digits b s (acc * b + v) else acc)"

definition has_0x :: "string \<Rightarrow> bool" where
  "has_0x s = (3 \<le> length s \<and> s ! 0 = CHR ''0'' \<and> (s ! 1 = CHR ''x'' \<or> s ! 1 = CHR ''X'')
     \<and> hex_value (s ! 2) \<noteq> None)"

definition clamp64 :: "int \<Rightarrow> int" where
  "clamp64 i = max (- (2 ^ 63)) (min i (2 ^ 63 - 1))"

text \<open>\<open>strtol (s, NULL, 10)\<close>, \<open>strtol (s, NULL, 0)\<close> and \<open>strtoul (s, NULL, 16)\<close>.\<close>

definition strtol10 :: "string \<Rightarrow> int" where
  "strtol10 s = (let (neg, t) = scan_sign s; n = int (scan_digits 10 t 0) in clamp64 (if neg then - n else n))"

definition strtol0 :: "string \<Rightarrow> int" where
  "strtol0 s =
     (let (neg, t) = scan_sign s;
          n = int (if has_0x t then scan_digits 16 (drop 2 t) 0
                   else if t \<noteq> [] \<and> hd t = CHR ''0'' then scan_digits 8 t 0
                   else scan_digits 10 t 0)
      in clamp64 (if neg then - n else n))"

definition strtoul16 :: "string \<Rightarrow> nat" where
  "strtoul16 s =
     (let (neg, t) = scan_sign s;
          n = scan_digits 16 (if has_0x t then drop 2 t else t) 0
      in if 2 ^ 64 \<le> n then 2 ^ 64 - 1 else if neg then (2 ^ 64 - n) mod 2 ^ 64 else n)"

text \<open>The conversions \<open>%d\<close> and \<open>%u\<close> of \<open>sscanf\<close>: what is read and what follows.\<close>

definition is_digit10 :: "char \<Rightarrow> bool" where
  "is_digit10 c = (case hex_value c of None \<Rightarrow> False | Some v \<Rightarrow> v < 10)"

definition scan_int :: "string \<Rightarrow> (int \<times> string) option" where
  "scan_int s =
     (let (neg, t) = scan_sign s
      in if t = [] \<or> \<not> is_digit10 (hd t) then None
         else Some (to_int32 (strtol10 s), dropWhile is_digit10 t))"

definition scan_uint :: "string \<Rightarrow> (u32 \<times> string) option" where
  "scan_uint s =
     (let (neg, t) = scan_sign s
      in if t = [] \<or> \<not> is_digit10 (hd t) then None
         else let n = scan_digits 10 t 0
           in Some (if 2 ^ 64 \<le> n then -1 else of_int (if neg then - int n else int n), dropWhile is_digit10 t))"

section \<open>Reading back what was printed\<close>

lemma digit_table:
  "\<forall>n < 16. hex_value (lower_digit n) = Some n" "\<forall>n < 16. \<not> is_space (lower_digit n)"
  "\<forall>n < 16. lower_digit n \<notin> {CHR ''-'', CHR ''+'', CHR ''x'', CHR ''X''}"
proof -
  have "list_all (\<lambda>n. hex_value (lower_digit n) = Some n \<and> \<not> is_space (lower_digit n) \<and>
      lower_digit n \<notin> {CHR ''-'', CHR ''+'', CHR ''x'', CHR ''X''}) [0..<16]" by code_simp
  then show "\<forall>n < 16. hex_value (lower_digit n) = Some n" "\<forall>n < 16. \<not> is_space (lower_digit n)"
    "\<forall>n < 16. lower_digit n \<notin> {CHR ''-'', CHR ''+'', CHR ''x'', CHR ''X''}"
    unfolding list_all_iff by (auto simp only: set_upt atLeastLessThan_iff simp_thms le0)
qed

text \<open>A string of digits that \<open>scan_sign\<close> and \<open>has_0x\<close> leave alone.\<close>

definition plain :: "string \<Rightarrow> bool" where
  "plain s = (\<forall>c \<in> set s. \<not> is_space c \<and> c \<notin> {CHR ''-'', CHR ''+'', CHR ''x'', CHR ''X''})"

lemma plain_scan: "plain s \<Longrightarrow> scan_sign s = (False, s)" "plain s \<Longrightarrow> \<not> has_0x s"
  by (cases s; auto simp: plain_def scan_sign_def) (auto simp: plain_def has_0x_def dest: nth_mem)

lemma scan_append:
  "(\<forall>c \<in> set s. \<exists>v. hex_value c = Some v \<and> v < b) \<Longrightarrow> scan_digits b (s @ t) acc = scan_digits b t (scan_digits b s acc)"
  by (induction s arbitrary: acc) auto

lemma radix_digits:
  "2 \<le> b \<Longrightarrow> b \<le> 16 \<Longrightarrow> \<forall>c \<in> set (radix b n). \<exists>v < b. c = lower_digit v"
proof (induction b n rule: radix.induct)
  case (1 b n)
  show ?case
  proof (cases "n < b")
    case True
    then show ?thesis by (auto simp: radix.simps [of b n])
  next
    case False
    with 1 have "n mod b < b" by simp
    then have "\<exists>v < b. lower_digit (n mod b) = lower_digit v" by blast
    then show ?thesis using 1 False by (auto simp: radix.simps [of b n])
  qed
qed

lemma radix_plain: "2 \<le> b \<Longrightarrow> b \<le> 16 \<Longrightarrow> plain (radix b n)"
  using radix_digits [of b n] digit_table(2,3) unfolding plain_def by (metis order_less_le_trans)

lemma scan_radix:
  "2 \<le> b \<Longrightarrow> b \<le> 16 \<Longrightarrow> scan_digits b (radix b n) 0 = n"
proof (induction b n rule: radix.induct)
  case (1 b n)
  show ?case
  proof (cases "n < b")
    case True
    then show ?thesis using 1(2,3) digit_table(1) by (simp add: radix.simps [of b n])
  next
    case False
    have d: "\<exists>v. hex_value c = Some v \<and> v < b" if "c \<in> set (radix b (n div b))" for c
      using radix_digits [of b "n div b"] that 1(2,3) digit_table(1) by (metis order_less_le_trans)
    have m: "n mod b < b" using 1(2) by simp
    then have h: "hex_value (lower_digit (n mod b)) = Some (n mod b)"
      using digit_table(1) 1(3) by simp
    have "scan_digits b (radix b n) 0 = scan_digits b [lower_digit (n mod b)] (n div b)"
      using 1 False d by (simp add: radix.simps [of b n] scan_append)
    then show ?thesis using h m by simp
  qed
qed

lemma strtoul16_plain:
  "plain s \<Longrightarrow> scan_digits 16 s 0 < 2 ^ 64 \<Longrightarrow> strtoul16 s = scan_digits 16 s 0"
  by (simp add: strtoul16_def plain_scan Let_def)

lemma strtoul16_fmt_x: "strtoul16 (fmt_x w) = unat w"
proof -
  have "unat w < 2 ^ 64" using unsigned_less [of w, where ?'a = nat] by simp
  then show ?thesis using strtoul16_plain [OF radix_plain [of 16 "unat w"]]
    by (simp add: fmt_x_def scan_radix)
qed

lemma plain_append: "plain (s @ t) \<longleftrightarrow> plain s \<and> plain t"
  by (auto simp: plain_def)

lemma plain_replicate: "plain [c] \<Longrightarrow> plain (replicate n c)"
  by (simp add: plain_def)

lemma fmt_08x_plain: "plain (fmt_08x w)"
proof -
  have "plain [CHR ''0'']" by code_simp
  then show ?thesis using radix_plain [of 16 "unat w"]
    by (simp add: fmt_08x_def fmt_x_def Let_def plain_append plain_replicate)
qed

lemma scan_zeros: "scan_digits 16 (replicate n (CHR ''0'') @ s) 0 = scan_digits 16 s 0"
proof -
  have "hex_value (CHR ''0'') = Some 0" by code_simp
  then show ?thesis by (induction n) simp_all
qed

lemma strtoul16_fmt_08x: "strtoul16 (fmt_08x w) = unat w"
proof -
  have "scan_digits 16 (fmt_08x w) 0 = unat w"
    by (simp add: fmt_08x_def Let_def scan_zeros fmt_x_def scan_radix)
  moreover have "unat w < 2 ^ 64" using unsigned_less [of w, where ?'a = nat] by simp
  ultimately show ?thesis using strtoul16_plain [OF fmt_08x_plain [of w]] by simp
qed

lemma strtol10_fmt_d:
  assumes "- (2 ^ 63) \<le> i" "i < 2 ^ 63"
  shows "strtol10 (fmt_d i) = i"
proof (cases "i < 0")
  case True
  have "\<not> is_space (CHR ''-'')" by code_simp
  then have "scan_sign (fmt_d i) = (True, radix 10 (nat (- i)))"
    using True by (simp add: scan_sign_def fmt_d_def)
  then show ?thesis using assms True by (simp add: strtol10_def scan_radix clamp64_def)
next
  case False
  then have "scan_sign (fmt_d i) = (False, radix 10 (nat i))"
    using plain_scan(1) [OF radix_plain [of 10 "nat i"]] by (simp add: fmt_d_def)
  then show ?thesis using assms False by (simp add: strtol10_def scan_radix clamp64_def)
qed

end
