(* ===== verification/Context.thy ===== *)
theory Context
  imports CText
begin

text \<open>
  The service context of \<open>skynet-src/skynet_server.c\<close>: its record, the session counter, the
  reference count, and the textual form of a handle (\<open>id_to_hex\<close>, read back by \<open>strtoul\<close> in
  \<open>tohandle\<close>, \<open>cmd_name\<close>, \<open>skynet_queryname\<close> and \<open>skynet_sendname\<close>).

  Contexts live in a store, a map from addresses; a freed context is not in the store.
\<close>

unbundle bit_operations_syntax

section \<open>Data\<close>

record skynet_context =
  instance_ptr :: u64
  mod_ptr :: u64
  cb_ud :: u64
  cb :: u64
  ctx_queue :: addr
  logfile :: u64
  ctx_result :: string
  ctx_handle :: u32
  session_id :: u32
  ctx_ref :: int
  ctx_init :: bool
  endless :: bool

type_synonym ctx_store = "addr \<Rightarrow> skynet_context option"

section \<open>Sessions\<close>

text \<open>
  \<open>skynet_context_newsession\<close>: the C \<open>int\<close> is incremented and compared as a signed number. The
  increment of the largest \<open>int\<close> is taken to wrap around, as the source's test intends (the C
  standard leaves it undefined).
\<close>

definition skynet_context_newsession :: "skynet_context \<Rightarrow> u32 \<times> skynet_context" where
  "skynet_context_newsession ctx =
     (let session = session_id ctx + 1
      in if sint session \<le> 0 then (1, ctx\<lparr>session_id := 1\<rparr>)
         else (session, ctx\<lparr>session_id := session\<rparr>))"

text \<open>The \<open>n\<close> sessions that a context hands out next.\<close>

fun new_sessions :: "nat \<Rightarrow> skynet_context \<Rightarrow> u32 list" where
  "new_sessions 0 ctx = []"
| "new_sessions (Suc n) ctx =
     (let (session, ctx') = skynet_context_newsession ctx in session # new_sessions n ctx')"

section \<open>Reference counts\<close>

definition skynet_context_grab :: "ctx_store \<Rightarrow> addr \<Rightarrow> ctx_store option" where
  "skynet_context_grab cs c =
     (case cs c of None \<Rightarrow> None | Some ctx \<Rightarrow> Some (cs(c := Some (ctx\<lparr>ctx_ref := ctx_ref ctx + 1\<rparr>))))"

text \<open>
  \<open>skynet_context_release\<close>: the new store and, when the last reference went, the deleted context,
  whose queue \<open>delete_context\<close> then marks for release.
\<close>

definition skynet_context_release :: "ctx_store \<Rightarrow> addr \<Rightarrow> (skynet_context option \<times> ctx_store) option" where
  "skynet_context_release cs c =
     (case cs c of None \<Rightarrow> None | Some ctx \<Rightarrow>
        (if ctx_ref ctx - 1 = 0 then Some (Some ctx, cs(c := None))
         else Some (None, cs(c := Some (ctx\<lparr>ctx_ref := ctx_ref ctx - 1\<rparr>)))))"

lemma context_grab_release:
  assumes "cs c = Some ctx" "0 < ctx_ref ctx"
  shows "\<exists>cs'. skynet_context_grab cs c = Some cs' \<and> skynet_context_release cs' c = Some (None, cs)"
proof (intro exI conjI)
  show "skynet_context_grab cs c = Some (cs(c := Some (ctx\<lparr>ctx_ref := ctx_ref ctx + 1\<rparr>)))"
    using assms by (simp add: skynet_context_grab_def)
  show "skynet_context_release (cs(c := Some (ctx\<lparr>ctx_ref := ctx_ref ctx + 1\<rparr>))) c = Some (None, cs)"
    using assms by (simp add: skynet_context_release_def fun_upd_idem)
qed

section \<open>Handles as text\<close>

text \<open>The digits are \<open>0\<close> to \<open>9\<close> and \<open>A\<close> to \<open>F\<close>.\<close>

definition hex_digit :: "nat \<Rightarrow> char" where
  "hex_digit n = ''0123456789ABCDEF'' ! n"

text \<open>\<open>id_to_hex\<close>: a colon and the eight digits, most significant first.\<close>

definition id_to_hex :: "u32 \<Rightarrow> string" where
  "id_to_hex i = CHR '':'' # map (\<lambda>k. hex_digit (unat (drop_bit ((7 - k) * 4) i AND 0xf))) [0..<8]"

text \<open>The branch of \<open>tohandle\<close> and \<open>skynet_queryname\<close> for \<open>:hex\<close> addresses.\<close>

definition hex_handle :: "string \<Rightarrow> u32" where
  "hex_handle s = word_of_nat (strtoul16 s)"

lemma hex_digit_table:
  "\<forall>n < 16. hex_value (hex_digit n) = Some n"
  "\<forall>n < 16. \<not> is_space (hex_digit n) \<and> hex_digit n \<notin> {CHR ''-'', CHR ''+'', CHR ''x'', CHR ''X''}"
proof -
  have "list_all (\<lambda>n. hex_value (hex_digit n) = Some n \<and> \<not> is_space (hex_digit n) \<and>
      hex_digit n \<notin> {CHR ''-'', CHR ''+'', CHR ''x'', CHR ''X''}) [0..<16]" by code_simp
  then show "\<forall>n < 16. hex_value (hex_digit n) = Some n"
    "\<forall>n < 16. \<not> is_space (hex_digit n) \<and> hex_digit n \<notin> {CHR ''-'', CHR ''+'', CHR ''x'', CHR ''X''}"
    unfolding list_all_iff by (auto simp only: set_upt atLeastLessThan_iff simp_thms le0)
qed

lemma and_0xf: "unat ((w::u32) AND 0xf) = unat w mod 16"
  using unat_and_pred_power [of w 4] by simp

lemma scan_hex_digits:
  "scan_digits 16 (map (\<lambda>k. hex_digit (f k)) ks @ s) acc
    = scan_digits 16 s (foldl (\<lambda>a k. a * 16 + f k) acc ks)" if "\<forall>k \<in> set ks. f k < 16"
  using that by (induction ks arbitrary: acc) (auto simp: hex_digit_table)

lemma nat_hex_prefix:
  fixes n :: nat
  assumes "n < 2 ^ 32"
  shows "m \<le> 8 \<Longrightarrow>
    foldl (\<lambda>a k. a * 16 + n div 2 ^ ((7 - k) * 4) mod 16) 0 [0..<m] = n div 2 ^ ((8 - m) * 4)"
proof (induction m)
  case 0
  then show ?case using assms by simp
next
  case (Suc m)
  have "(8 - m) * 4 = (7 - m) * 4 + 4" using Suc.prems by simp
  then have "n div 2 ^ ((8 - m) * 4) = n div 2 ^ ((7 - m) * 4) div 16"
    by (simp only: power_add div_mult2_eq) simp
  with Suc show ?case by simp
qed

lemma newsession_sint:
  "sint (fst (skynet_context_newsession ctx)) > 0
    \<and> session_id (snd (skynet_context_newsession ctx)) = fst (skynet_context_newsession ctx)"
  by (simp add: skynet_context_newsession_def Let_def)

text \<open>The counter as a number between 0 and \<open>2 ^ 31 - 1\<close>.\<close>

lemma newsession_unat:
  assumes "unat (session_id ctx) < 2 ^ 31"
  shows "unat (fst (skynet_context_newsession ctx)) = unat (session_id ctx) mod (2 ^ 31 - 1) + 1"
proof -
  let ?s = "session_id ctx"
  have u: "unat (?s + 1) = unat ?s + 1"
    using assms by (simp add: unat_word_ariths)
  have sgn: "sint (?s + 1) \<le> 0 \<longleftrightarrow> unat ?s = 2 ^ 31 - 1"
  proof -
    have "(if a + 1 < 2 ^ 31 then int (a + 1) else int (a + 1) - 2 ^ 32) \<le> 0 \<longleftrightarrow> a = 2 ^ 31 - 1"
      if "a < 2 ^ 31" for a :: nat using that by auto
    from this [OF assms] show ?thesis unfolding sint_u32 u .
  qed
  show ?thesis
    using assms u sgn
    by (cases "unat ?s = 2 ^ 31 - 1") (simp_all add: skynet_context_newsession_def Let_def)
qed

section \<open>Properties\<close>

text \<open>The session allocator never hands out zero or a negative number, and the sessions of a
  context cycle through all of 1 to \<open>2 ^ 31 - 1\<close>: the \<open>k\<close>-th of the next sessions is \<open>k\<close> steps
  further on this cycle, so a session comes back only after \<open>2 ^ 31 - 1\<close> calls.\<close>

lemma sessions_cycle:
  assumes "unat (session_id ctx) < 2 ^ 31" and "k < n"
  shows "unat (new_sessions n ctx ! k) = (unat (session_id ctx) + k) mod (2 ^ 31 - 1) + 1
    \<and> 0 < sint (new_sessions n ctx ! k)"
  using assms
proof (induction n arbitrary: ctx k)
  case 0
  then show ?case by simp
next
  case (Suc n)
  let ?r = "skynet_context_newsession ctx"
  have first: "unat (fst ?r) = unat (session_id ctx) mod (2 ^ 31 - 1) + 1" "0 < sint (fst ?r)"
    "session_id (snd ?r) = fst ?r"
    using newsession_unat [OF Suc.prems(1)] newsession_sint [of ctx] by auto
  have split: "new_sessions (Suc n) ctx = fst ?r # new_sessions n (snd ?r)"
    by (simp add: split_beta)
  show ?case
  proof (cases k)
    case 0
    then show ?thesis using first split by simp
  next
    case (Suc j)
    have "unat (session_id ctx) mod (2 ^ 31 - 1) < 2 ^ 31 - 1" by simp
    then have "unat (session_id (snd ?r)) < 2 ^ 31" unfolding first(3) first(1) by linarith
    from Suc.IH [OF this, of j] Suc.prems(2) Suc
    have "unat (new_sessions n (snd ?r) ! j)
        = ((unat (session_id ctx) mod (2 ^ 31 - 1) + 1) + j) mod (2 ^ 31 - 1) + 1
      \<and> 0 < sint (new_sessions n (snd ?r) ! j)"
      by (simp only: first(3) first(1))
    moreover have "((unat (session_id ctx) mod (2 ^ 31 - 1) + 1) + j) mod (2 ^ 31 - 1)
        = (unat (session_id ctx) + k) mod (2 ^ 31 - 1)"
      unfolding Suc by (simp only: mod_add_left_eq add.assoc) simp
    ultimately show ?thesis using split Suc by simp
  qed
qed

lemma sessions_cycle_witness:
  "let ctx = \<lparr>instance_ptr = 0, mod_ptr = 0, cb_ud = 0, cb = 0, ctx_queue = 0, logfile = 0,
       ctx_result = [], ctx_handle = 1, session_id = 0x7FFFFFFE, ctx_ref = 1, ctx_init = True,
       endless = False\<rparr>
   in unat (new_sessions 2 ctx ! 1) = (0x7FFFFFFE + 1) mod (2 ^ 31 - 1) + 1"
  using sessions_cycle [of "\<lparr>instance_ptr = 0, mod_ptr = 0, cb_ud = 0, cb = 0, ctx_queue = 0,
    logfile = 0, ctx_result = [], ctx_handle = 1, session_id = 0x7FFFFFFE, ctx_ref = 1,
    ctx_init = True, endless = False\<rparr>" 1 2]
  by (simp add: Let_def)

text \<open>The textual form of a handle is faithful: \<open>strtoul\<close> in \<open>tohandle\<close>, \<open>cmd_name\<close> and
  \<open>skynet_sendname\<close> reads back from \<open>id_to_hex\<close> (after the colon) the handle it was made from,
  for all 32 bit handles.\<close>

lemma id_to_hex_roundtrip:
  "hd (id_to_hex h) = CHR '':'' \<and> length (id_to_hex h) = 9 \<and> hex_handle (tl (id_to_hex h)) = h"
proof -
  have lt: "unat h < 2 ^ 32" using unsigned_less [of h, where ?'a = nat] by simp
  let ?s = "map (\<lambda>k. hex_digit (unat h div 2 ^ ((7 - k) * 4) mod 16)) [0..<8]"
  have s: "tl (id_to_hex h) = ?s" by (simp add: id_to_hex_def and_0xf unat_drop_bit_div)
  have "scan_digits 16 ?s 0 = foldl (\<lambda>a k. a * 16 + unat h div 2 ^ ((7 - k) * 4) mod 16) 0 [0..<8]"
    using scan_hex_digits [of "[0..<8]" "\<lambda>k. unat h div 2 ^ ((7 - k) * 4) mod 16" "[]" 0] by simp
  also have "\<dots> = unat h" using nat_hex_prefix [OF lt, of 8] by simp
  finally have v: "scan_digits 16 ?s 0 = unat h" .
  have "plain ?s" using hex_digit_table(2) by (auto simp: plain_def simp del: upt_Suc)
  moreover have "unat h < 2 ^ 64" using lt by simp
  ultimately have "strtoul16 ?s = unat h" using strtoul16_plain [of ?s] unfolding v by blast
  then have "hex_handle (tl (id_to_hex h)) = h" unfolding s by (simp add: hex_handle_def)
  then show ?thesis by (simp add: id_to_hex_def)
qed

end
