(* ===== verification/HandleStorage.thy ===== *)
theory HandleStorage
  imports Context "HOL-Library.List_Lexorder" "HOL-Library.Char_ord"
begin

text \<open>
  \<open>skynet-src/skynet_handle.c\<close>: the table of the live services. A handle is a 32 bit number
  whose high byte is the harbor of the node; the slot of a handle is its low bits, in an open table
  whose size is a power of two. A sorted array maps names to handles.

  The functions run under the write (or read) lock of the table. The contexts are in a store
  (theory \<open>Context\<close>); \<open>skynet_context_handle\<close> reads the handle of a context there.
\<close>

section \<open>Data\<close>

definition DEFAULT_SLOT_SIZE :: nat where "DEFAULT_SLOT_SIZE = 4"
definition MAX_SLOT_SIZE :: nat where "MAX_SLOT_SIZE = 0x40000000"
definition HANDLE_MASK :: u32 where "HANDLE_MASK = 0xffffff"
definition HANDLE_REMOTE_SHIFT :: nat where "HANDLE_REMOTE_SHIFT = 24"

record handle_name =
  hn_name :: string
  hn_handle :: u32

record handle_storage =
  harbor :: u32
  handle_index :: u32
  slot_size :: nat
  slot :: "addr option list"
  name_cap :: nat
  name_count :: nat
  names :: "handle_name list"

text \<open>Memory from \<open>skynet_malloc\<close> is not initialised; the filler is never read.\<close>

definition no_name :: handle_name where
  "no_name = \<lparr>hn_name = [], hn_handle = 0\<rparr>"

definition skynet_context_handle :: "ctx_store \<Rightarrow> addr \<Rightarrow> u32 option" where
  "skynet_context_handle cs c = map_option ctx_handle (cs c)"

definition skynet_handle_init :: "u32 \<Rightarrow> handle_storage" where
  "skynet_handle_init h = \<lparr>harbor = push_bit HANDLE_REMOTE_SHIFT (h AND 0xff), handle_index = 1,
     slot_size = DEFAULT_SLOT_SIZE, slot = replicate DEFAULT_SLOT_SIZE None,
     name_cap = 2, name_count = 0, names = replicate 2 no_name\<rparr>"

section \<open>Registration\<close>

text \<open>\<open>handle & (s->slot_size-1)\<close>.\<close>

definition slot_hash :: "u32 \<Rightarrow> nat \<Rightarrow> nat" where
  "slot_hash h sz = unat (h AND (word_of_nat sz - 1))"

text \<open>The inner loop of \<open>skynet_handle_register\<close>: the first free handle from the index on.\<close>

function register_scan :: "handle_storage \<Rightarrow> nat \<Rightarrow> u32 option" where
  "register_scan s i =
     (if i < slot_size s then
        (let h = (word_of_nat i + handle_index s) AND HANDLE_MASK
         in if slot s ! slot_hash h (slot_size s) = None then Some h else register_scan s (Suc i))
      else None)"
  by pat_completeness auto
termination
  by (relation "measure (\<lambda>(s, i). slot_size s - i)") auto

declare register_scan.simps [simp del]

text \<open>
  The rehash loop: every slot is read (it must hold a live context) and stored at its place in the
  doubled table, which must be free.
\<close>

fun rehash :: "ctx_store \<Rightarrow> nat \<Rightarrow> addr option list \<Rightarrow> addr option list \<Rightarrow> addr option list option" where
  "rehash cs sz [] new_slot = Some new_slot"
| "rehash cs sz (None # old) new_slot = None"
| "rehash cs sz (Some c # old) new_slot =
     (case skynet_context_handle cs c of None \<Rightarrow> None | Some h \<Rightarrow>
        (let hash = slot_hash h sz
         in if new_slot ! hash \<noteq> None then None
            else rehash cs sz old (new_slot[hash := Some c])))"

text \<open>The outer loop. The result is the new handle and the new table.\<close>

partial_function (option) skynet_handle_register ::
  "ctx_store \<Rightarrow> handle_storage \<Rightarrow> addr \<Rightarrow> (u32 \<times> handle_storage) option" where
  "skynet_handle_register cs s ctx =
     (case register_scan s 0 of
        Some h \<Rightarrow>
          Some (h OR harbor s,
            s\<lparr>slot := (slot s)[slot_hash h (slot_size s) := Some ctx], handle_index := h + 1\<rparr>)
      | None \<Rightarrow>
          if \<not> (int (slot_size s) * 2 - 1 \<le> uint HANDLE_MASK) then None
          else (case rehash cs (slot_size s * 2) (slot s) (replicate (slot_size s * 2) None) of
                  None \<Rightarrow> None
                | Some new_slot \<Rightarrow>
                    skynet_handle_register cs (s\<lparr>slot := new_slot, slot_size := slot_size s * 2\<rparr>) ctx))"

section \<open>Retirement and lookup\<close>

text \<open>The lookup that \<open>skynet_handle_grab\<close> and \<open>skynet_handle_retire\<close> share.\<close>

definition slot_lookup :: "ctx_store \<Rightarrow> handle_storage \<Rightarrow> u32 \<Rightarrow> addr option" where
  "slot_lookup cs s h =
     (case slot s ! slot_hash h (slot_size s) of None \<Rightarrow> None
      | Some c \<Rightarrow> if skynet_context_handle cs c = Some h then Some c else None)"

text \<open>
  The loop that drops the names of a retired handle: \<open>i\<close> runs over the names, \<open>j\<close> is the place
  of the next name kept.
\<close>

function compact_names :: "u32 \<Rightarrow> nat \<Rightarrow> nat \<Rightarrow> nat \<Rightarrow> handle_name list \<Rightarrow> handle_name list \<times> nat" where
  "compact_names h n i j ns =
     (if i < n then
        (if hn_handle (ns ! i) = h then compact_names h n (Suc i) j ns
         else compact_names h n (Suc i) (Suc j) (if i \<noteq> j then ns[j := ns ! i] else ns))
      else (ns, j))"
  by pat_completeness auto
termination
  by (relation "measure (\<lambda>(h, n, i, j, ns). n - i)") auto

declare compact_names.simps [simp del]

text \<open>
  \<open>skynet_handle_retire\<close> up to the unlock: the context to release, if the handle was live (the
  function then returns 1), and the new table.
\<close>

definition skynet_handle_retire :: "ctx_store \<Rightarrow> handle_storage \<Rightarrow> u32 \<Rightarrow> addr option \<times> handle_storage" where
  "skynet_handle_retire cs s h =
     (case slot_lookup cs s h of None \<Rightarrow> (None, s)
      | Some c \<Rightarrow>
          (let (ns, j) = compact_names h (name_count s) 0 0 (names s)
           in (Some c, s\<lparr>slot := (slot s)[slot_hash h (slot_size s) := None],
                          name_count := j, names := ns\<rparr>)))"

text \<open>\<open>skynet_handle_grab\<close> also takes a reference.\<close>

definition skynet_handle_grab :: "ctx_store \<Rightarrow> handle_storage \<Rightarrow> u32 \<Rightarrow> (addr option \<times> ctx_store) option" where
  "skynet_handle_grab cs s h =
     (case slot_lookup cs s h of None \<Rightarrow> Some (None, cs)
      | Some c \<Rightarrow> map_option (\<lambda>cs'. (Some c, cs')) (skynet_context_grab cs c))"

section \<open>Names\<close>

text \<open>
  The binary search that \<open>skynet_handle_findname\<close> and \<open>_insert_name\<close> each write out:
  \<open>Inl\<close> the index of the name, or \<open>Inr\<close> the place where it belongs.
\<close>

function name_search :: "handle_name list \<Rightarrow> string \<Rightarrow> int \<Rightarrow> int \<Rightarrow> nat + nat" where
  "name_search ns nm b e =
     (if b \<le> e then
        (let mid = (b + e) div 2; n = ns ! nat mid
         in if hn_name n = nm then Inl (nat mid)
            else if hn_name n < nm then name_search ns nm (mid + 1) e
            else name_search ns nm b (mid - 1))
      else Inr (nat b))"
  by pat_completeness auto
termination
  by (relation "measure (\<lambda>(ns, nm, b, e). nat (e - b + 1))") auto

declare name_search.simps [simp del]

definition skynet_handle_findname :: "handle_storage \<Rightarrow> string \<Rightarrow> u32" where
  "skynet_handle_findname s nm =
     (case name_search (names s) nm 0 (int (name_count s) - 1) of
        Inl i \<Rightarrow> hn_handle (names s ! i) | Inr _ \<Rightarrow> 0)"

text \<open>The copy loops of \<open>_insert_name_before\<close>: \<open>n[i] = s[i]\<close>, \<open>n[i+1] = s[i]\<close> and
  \<open>s[i] = s[i-1]\<close> for \<open>i\<close> from the count down.\<close>

definition copy_prefix :: "handle_name list \<Rightarrow> handle_name list \<Rightarrow> nat \<Rightarrow> handle_name list" where
  "copy_prefix old new before = foldl (\<lambda>n i. n[i := old ! i]) new [0..<before]"

definition copy_suffix :: "handle_name list \<Rightarrow> handle_name list \<Rightarrow> nat \<Rightarrow> nat \<Rightarrow> handle_name list" where
  "copy_suffix old new before cnt = foldl (\<lambda>n i. n[i + 1 := old ! i]) new [before..<cnt]"

definition shift_names :: "handle_name list \<Rightarrow> nat \<Rightarrow> nat \<Rightarrow> handle_name list" where
  "shift_names ns before cnt = foldl (\<lambda>n i. n[i := n ! (i - 1)]) ns (rev [Suc before..<Suc cnt])"

definition insert_name_before :: "handle_storage \<Rightarrow> string \<Rightarrow> u32 \<Rightarrow> nat \<Rightarrow> handle_storage option" where
  "insert_name_before s nm h before =
     (if name_count s \<ge> name_cap s then
        (let cap = name_cap s * 2
         in if \<not> cap \<le> MAX_SLOT_SIZE then None
            else (let n = replicate cap no_name;
                      n = copy_prefix (names s) n before;
                      n = copy_suffix (names s) n before (name_count s)
                  in Some (s\<lparr>name_cap := cap, names := n[before := \<lparr>hn_name = nm, hn_handle = h\<rparr>],
                             name_count := name_count s + 1\<rparr>)))
      else (let n = shift_names (names s) before (name_count s)
            in Some (s\<lparr>names := n[before := \<lparr>hn_name = nm, hn_handle = h\<rparr>],
                       name_count := name_count s + 1\<rparr>)))"

text \<open>\<open>_insert_name\<close>, which \<open>skynet_handle_namehandle\<close> calls: the name, or \<open>NULL\<close> when it is
  taken.\<close>

definition skynet_handle_namehandle ::
  "handle_storage \<Rightarrow> u32 \<Rightarrow> string \<Rightarrow> (string option \<times> handle_storage) option" where
  "skynet_handle_namehandle s h nm =
     (case name_search (names s) nm 0 (int (name_count s) - 1) of
        Inl _ \<Rightarrow> Some (None, s)
      | Inr b \<Rightarrow> map_option (\<lambda>s'. (Some nm, s')) (insert_name_before s nm h b))"

section \<open>The invariant of the slots\<close>

definition slots_wf :: "ctx_store \<Rightarrow> handle_storage \<Rightarrow> bool" where
  "slots_wf cs s \<longleftrightarrow> (\<exists>k. 2 \<le> k \<and> k \<le> 24 \<and> slot_size s = 2 ^ k)
     \<and> length (slot s) = slot_size s
     \<and> harbor s AND HANDLE_MASK = 0
     \<and> (\<forall>i < slot_size s. \<forall>c. slot s ! i = Some c \<longrightarrow>
          (\<exists>h. skynet_context_handle cs c = Some h \<and> slot_hash h (slot_size s) = i))"

lemma slot_hash_pow2: "k \<le> 32 \<Longrightarrow> slot_hash h (2 ^ k) = unat h mod 2 ^ k"
  using unat_and_pred_power [of h k] by (simp add: slot_hash_def)

lemma slot_hash_mod: "slots_wf cs s \<Longrightarrow> slot_hash h (slot_size s) = unat h mod slot_size s"
  by (auto simp: slots_wf_def slot_hash_pow2)

lemma slots_wf_pos: "slots_wf cs s \<Longrightarrow> 0 < slot_size s"
  by (auto simp: slots_wf_def)

lemma slot_hash_less: "slots_wf cs s \<Longrightarrow> slot_hash h (slot_size s) < slot_size s"
  using slots_wf_pos by (simp add: slot_hash_mod)

lemma slots_wf_entry:
  "slots_wf cs s \<Longrightarrow> i < slot_size s \<Longrightarrow> slot s ! i = Some c \<Longrightarrow>
    \<exists>h. skynet_context_handle cs c = Some h \<and> unat h mod slot_size s = i"
  using slot_hash_mod unfolding slots_wf_def by metis

lemma slot_lookup_iff:
  assumes "slots_wf cs s"
  shows "slot_lookup cs s h = Some c \<longleftrightarrow>
    (\<exists>i < slot_size s. slot s ! i = Some c) \<and> skynet_context_handle cs c = Some h"
proof
  assume "slot_lookup cs s h = Some c"
  then show "(\<exists>i < slot_size s. slot s ! i = Some c) \<and> skynet_context_handle cs c = Some h"
    using slot_hash_less [OF assms, of h] by (auto simp: slot_lookup_def split: option.splits if_splits)
next
  assume r: "(\<exists>i < slot_size s. slot s ! i = Some c) \<and> skynet_context_handle cs c = Some h"
  then obtain i where i: "i < slot_size s" "slot s ! i = Some c" by blast
  with slots_wf_entry [OF assms i] r have "unat h mod slot_size s = i" by simp
  with i r show "slot_lookup cs s h = Some c"
    by (simp add: slot_lookup_def slot_hash_mod [OF assms])
qed

section \<open>Registration always finds a fresh handle\<close>

lemma register_scan_Some:
  "register_scan s i = Some h \<Longrightarrow>
    \<exists>j. h = (word_of_nat j + handle_index s) AND HANDLE_MASK
      \<and> slot s ! slot_hash h (slot_size s) = None"
proof (induction s i rule: register_scan.induct)
  case (1 s i)
  note eq = register_scan.simps [of s i]
  from 1 show ?case by (auto simp: eq Let_def split: if_splits)
qed

lemma register_scan_None:
  "register_scan s i = None \<Longrightarrow> i \<le> j \<Longrightarrow> j < slot_size s \<Longrightarrow>
    slot s ! slot_hash ((word_of_nat j + handle_index s) AND HANDLE_MASK) (slot_size s) \<noteq> None"
proof (induction s i rule: register_scan.induct)
  case (1 s i)
  note eq = register_scan.simps [of s i] register_scan.simps [of s j]
  from 1 show ?case by (cases "i = j") (auto simp: eq Let_def split: if_splits)
qed

lemma masked_mod:
  assumes "k \<le> 24"
  shows "unat ((w::u32) AND HANDLE_MASK) mod 2 ^ k = unat w mod 2 ^ k"
proof -
  have "(2::nat) ^ k dvd 2 ^ 24" using assms by (rule le_imp_power_dvd)
  moreover have "unat (w AND HANDLE_MASK) = unat w mod 2 ^ 24"
    using unat_and_pred_power [of w 24] by (simp add: HANDLE_MASK_def)
  ultimately show ?thesis by (simp only: mod_mod_cancel)
qed

lemma scan_reaches:
  assumes wf: "slots_wf cs s" and e: "e < slot_size s"
  shows "\<exists>j < slot_size s.
    slot_hash ((word_of_nat j + handle_index s) AND HANDLE_MASK) (slot_size s) = e"
proof -
  obtain k where k: "k \<le> 24" "slot_size s = 2 ^ k" using wf by (auto simp: slots_wf_def)
  let ?c = "(2::nat) ^ k" and ?x = "unat (handle_index s)"
  let ?j = "(e + (?c - ?x mod ?c)) mod ?c"
  have dvd: "?c dvd 2 ^ 32" using k(1) by (intro le_imp_power_dvd) simp
  have jlt: "?j < ?c" by simp
  have "(2::nat) ^ k \<le> 2 ^ 24" using k(1) by (rule power_increasing) simp
  with jlt have "?j < 2 ^ 24" by (rule less_le_trans)
  also have "(2::nat) ^ 24 < 2 ^ 32" by simp
  finally have "?j < 2 ^ 32" .
  then have uj: "unat (word_of_nat ?j :: u32) = ?j" by (simp add: unsigned_of_nat take_bit_nat_eq_self)
  have "slot_hash ((word_of_nat ?j + handle_index s) AND HANDLE_MASK) (slot_size s)
      = unat (word_of_nat ?j + handle_index s) mod ?c"
    using slot_hash_mod [OF wf] k masked_mod [of k] by simp
  also have "\<dots> = (?j + ?x) mod ?c"
    using mod_mod_cancel [OF dvd, of "?j + ?x"] uj by (simp add: unat_word_ariths)
  also have "\<dots> = (e + (?c - ?x mod ?c) + ?x mod ?c) mod ?c"
    by (simp only: mod_add_left_eq mod_add_right_eq)
  also have "e + (?c - ?x mod ?c) + ?x mod ?c = e + ?c"
  proof -
    have "?x mod ?c \<le> ?c" by (rule less_imp_le, rule mod_less_divisor) simp
    then show ?thesis by linarith
  qed
  also have "(e + ?c) mod ?c = e" using e k(2) by simp
  finally show ?thesis using jlt unfolding k(2) by blast
qed

lemma register_scan_finds:
  assumes wf: "slots_wf cs s" and free: "e < slot_size s" "slot s ! e = None"
  shows "register_scan s 0 \<noteq> None"
  using scan_reaches [OF wf free(1)] register_scan_None [of s 0] free(2) by blast

text \<open>The handle of the context in a slot.\<close>

definition entry_hash :: "ctx_store \<Rightarrow> nat \<Rightarrow> addr option \<Rightarrow> nat" where
  "entry_hash cs sz e = slot_hash (the (skynet_context_handle cs (the e))) sz"

lemma rehash_ok:
  assumes "\<forall>e \<in> set old. \<exists>c h. e = Some c \<and> skynet_context_handle cs c = Some h"
    and "distinct (map (entry_hash cs sz) old)"
    and "\<forall>e \<in> set old. entry_hash cs sz e < length new \<and> new ! entry_hash cs sz e = None"
  shows "\<exists>new'. rehash cs sz old new = Some new' \<and> length new' = length new
    \<and> (\<forall>i < length new. \<forall>c. new' ! i = Some c \<longleftrightarrow>
          new ! i = Some c \<or> (Some c \<in> set old \<and> entry_hash cs sz (Some c) = i))"
  using assms
proof (induction old arbitrary: new)
  case Nil
  then show ?case by simp
next
  case (Cons e old)
  obtain c h where e: "e = Some c" "skynet_context_handle cs c = Some h" using Cons.prems(1) by auto
  let ?i = "entry_hash cs sz e"
  have i: "?i = slot_hash h sz" "?i < length new" "new ! ?i = None"
    using e Cons.prems(3) by (auto simp: entry_hash_def)
  let ?new = "new[?i := Some c]"
  have "\<exists>new'. rehash cs sz old ?new = Some new' \<and> length new' = length ?new
    \<and> (\<forall>i < length ?new. \<forall>c. new' ! i = Some c \<longleftrightarrow>
          ?new ! i = Some c \<or> (Some c \<in> set old \<and> entry_hash cs sz (Some c) = i))"
    by (rule Cons.IH) (use Cons.prems in \<open>auto simp: nth_list_update\<close>)
  then obtain new' where new': "rehash cs sz old ?new = Some new'" "length new' = length new"
    "\<forall>i < length new. \<forall>c. new' ! i = Some c \<longleftrightarrow>
       ?new ! i = Some c \<or> (Some c \<in> set old \<and> entry_hash cs sz (Some c) = i)" by auto
  have "rehash cs sz (e # old) new = Some new'"
    using e i new'(1) by (simp add: Let_def)
  moreover have "\<forall>j < length new. \<forall>d. new' ! j = Some d \<longleftrightarrow>
      new ! j = Some d \<or> (Some d \<in> set (e # old) \<and> entry_hash cs sz (Some d) = j)"
    using new'(3) i e(1) by (auto simp: nth_list_update)
  ultimately show ?case using new'(2) by blast
qed

definition doubled :: "handle_storage \<Rightarrow> addr option list \<Rightarrow> handle_storage" where
  "doubled s new_slot = s\<lparr>slot := new_slot, slot_size := slot_size s * 2\<rparr>"

lemma expand_ok:
  assumes wf: "slots_wf cs s" and full: "\<forall>i < slot_size s. slot s ! i \<noteq> None"
    and small: "slot_size s < 2 ^ 24"
  shows "\<exists>new. rehash cs (slot_size s * 2) (slot s) (replicate (slot_size s * 2) None) = Some new
    \<and> slots_wf cs (doubled s new)
    \<and> (\<forall>h. slot_lookup cs (doubled s new) h = slot_lookup cs s h)
    \<and> (\<exists>e < slot_size s * 2. new ! e = None)
    \<and> (\<forall>c. (\<exists>i < slot_size s * 2. new ! i = Some c) \<longleftrightarrow> (\<exists>i < slot_size s. slot s ! i = Some c))"
proof -
  let ?n = "slot_size s" and ?m = "slot_size s * 2"
  obtain k where k: "2 \<le> k" "k \<le> 24" "?n = 2 ^ k" using wf by (auto simp: slots_wf_def)
  have "k \<noteq> 24" using small k(3) by auto
  with k have k': "2 \<le> Suc k" "Suc k \<le> 24" "?m = 2 ^ Suc k" by auto
  have len: "length (slot s) = ?n" using wf by (simp add: slots_wf_def)
  have entry: "\<exists>c h. slot s ! i = Some c \<and> skynet_context_handle cs c = Some h \<and> unat h mod ?n = i"
    if "i < ?n" for i using slots_wf_entry [OF wf that] full that by blast
  have hash2: "slot_hash h ?m = unat h mod ?m" for h
    using slot_hash_pow2 [of "Suc k" h] k' by (simp only: k'(3))
  have hash_low: "entry_hash cs ?m (slot s ! i) mod ?n = i" if "i < ?n" for i
    using entry [OF that] by (auto simp: entry_hash_def hash2 mod_mod_cancel)
  have A: "\<forall>e \<in> set (slot s). \<exists>c h. e = Some c \<and> skynet_context_handle cs c = Some h"
    using entry len by (metis in_set_conv_nth)
  have B: "distinct (map (entry_hash cs ?m) (slot s))"
    unfolding distinct_conv_nth using hash_low len by (auto simp: nth_map) metis
  have C: "\<forall>e \<in> set (slot s). entry_hash cs ?m e < length (replicate ?m (None :: addr option))
      \<and> replicate ?m (None :: addr option) ! entry_hash cs ?m e = None"
  proof -
    have "entry_hash cs ?m e < ?m" for e
      using slots_wf_pos [OF wf] unfolding entry_hash_def hash2 by simp
    then show ?thesis by simp
  qed
  from rehash_ok [OF A B C] obtain new where
    new: "rehash cs ?m (slot s) (replicate ?m None) = Some new" "length new = ?m"
      "\<forall>i < ?m. \<forall>c. new ! i = Some c \<longleftrightarrow> Some c \<in> set (slot s) \<and> entry_hash cs ?m (Some c) = i"
    by auto
  have occ: "(\<exists>i < ?m. new ! i = Some c) \<longleftrightarrow> (\<exists>i < ?n. slot s ! i = Some c)" for c
  proof -
    have "(\<exists>i < ?m. new ! i = Some c) \<longleftrightarrow> Some c \<in> set (slot s)"
      using new(3) C by (auto simp: length_replicate)
    then show ?thesis using len by (metis in_set_conv_nth)
  qed
  have "slots_wf cs (doubled s new)"
    unfolding slots_wf_def
  proof (intro conjI allI impI)
    show "\<exists>k. 2 \<le> k \<and> k \<le> 24 \<and> slot_size (doubled s new) = 2 ^ k"
      using k' unfolding doubled_def by (intro exI [of _ "Suc k"]) simp
  next
    fix i c assume ic: "i < slot_size (doubled s new)" "slot (doubled s new) ! i = Some c"
    then have "Some c \<in> set (slot s)" "entry_hash cs ?m (Some c) = i"
      using new(3) by (auto simp: doubled_def)
    with A show "\<exists>h. skynet_context_handle cs c = Some h
        \<and> slot_hash h (slot_size (doubled s new)) = i"
      by (fastforce simp: entry_hash_def doubled_def)
  qed (use new(2) wf in \<open>auto simp: doubled_def slots_wf_def\<close>)
  moreover have "slot_lookup cs (doubled s new) h = slot_lookup cs s h" for h
  proof (rule option_ext)
    show "slot_lookup cs (doubled s new) h = Some c \<longleftrightarrow> slot_lookup cs s h = Some c" for c
      using slot_lookup_iff [OF \<open>slots_wf cs (doubled s new)\<close>] slot_lookup_iff [OF wf] occ
      by (auto simp: doubled_def)
  qed
  moreover have "\<exists>e < ?m. new ! e = None"
  proof (rule ccontr)
    assume "\<not> ?thesis"
    then have "{..<?m} \<subseteq> entry_hash cs ?m ` set (slot s)"
      using new(3) by (force simp: image_iff)
    then have "?m \<le> card (entry_hash cs ?m ` set (slot s))"
      using card_mono [of "entry_hash cs ?m ` set (slot s)" "{..<?m}"] by simp
    also have "\<dots> \<le> ?n" using card_image_le [of "set (slot s)" "entry_hash cs ?m"]
        card_length [of "slot s"] len by simp
    finally show False using slots_wf_pos [OF wf] by simp
  qed
  ultimately show ?thesis using new(1) occ by blast
qed

lemma or_harbor_hash:
  assumes wf: "slots_wf cs s"
  shows "slot_hash (h OR harbor s) (slot_size s) = slot_hash h (slot_size s)"
proof -
  obtain k where k: "k \<le> 24" "slot_size s = 2 ^ k" and hb: "harbor s AND HANDLE_MASK = 0"
    using wf by (auto simp: slots_wf_def)
  have "(h OR harbor s) AND HANDLE_MASK = h AND HANDLE_MASK"
    using hb by (simp add: bit.conj_disj_distrib2)
  then have "unat (h OR harbor s) mod 2 ^ k = unat h mod 2 ^ k"
    using masked_mod [OF k(1)] by metis
  then show ?thesis by (simp only: slot_hash_mod [OF wf]) (simp only: k(2))
qed

text \<open>\<open>skynet_context_new\<close> stores the handle that the registration returns in the context.\<close>

definition set_handle :: "ctx_store \<Rightarrow> addr \<Rightarrow> u32 \<Rightarrow> ctx_store" where
  "set_handle cs c h = (case cs c of None \<Rightarrow> cs | Some ctx \<Rightarrow> cs(c := Some (ctx\<lparr>ctx_handle := h\<rparr>)))"

lemma set_handle_get:
  "skynet_context_handle (set_handle cs c h) d =
    (if d = c \<and> cs c \<noteq> None then Some h else skynet_context_handle cs d)"
  by (auto simp: set_handle_def skynet_context_handle_def split: option.splits)

definition in_slots :: "handle_storage \<Rightarrow> addr \<Rightarrow> bool" where
  "in_slots s c \<longleftrightarrow> (\<exists>i < slot_size s. slot s ! i = Some c)"

text \<open>What a registration of \<open>ctx\<close> in \<open>s\<close> that returns \<open>h\<close> and \<open>s'\<close> achieves.\<close>

definition registered :: "ctx_store \<Rightarrow> handle_storage \<Rightarrow> addr \<Rightarrow> u32 \<Rightarrow> handle_storage \<Rightarrow> bool" where
  "registered cs s ctx h s' \<longleftrightarrow>
     slots_wf (set_handle cs ctx h) s'
     \<and> slot_lookup cs s h = None
     \<and> (\<forall>g. slot_lookup (set_handle cs ctx h) s' g = (if g = h then Some ctx else slot_lookup cs s g))
     \<and> h AND NOT HANDLE_MASK = harbor s
     \<and> names s' = names s \<and> name_count s' = name_count s \<and> name_cap s' = name_cap s
     \<and> harbor s' = harbor s"

lemma register_found:
  assumes wf: "slots_wf cs s" and ctx: "cs ctx \<noteq> None" "\<not> in_slots s ctx"
    and scan: "register_scan s 0 = Some h0"
  shows "registered cs s ctx (h0 OR harbor s)
    (s\<lparr>slot := (slot s)[slot_hash h0 (slot_size s) := Some ctx], handle_index := h0 + 1\<rparr>)"
    (is "registered cs s ctx ?h ?s")
proof -
  let ?i = "slot_hash h0 (slot_size s)" and ?cs = "set_handle cs ctx ?h"
  obtain j where h0: "h0 = (word_of_nat j + handle_index s) AND HANDLE_MASK"
    and free: "slot s ! ?i = None" using register_scan_Some [OF scan] by blast
  have i: "?i < slot_size s" "slot_hash ?h (slot_size s) = ?i"
    using slot_hash_less [OF wf] or_harbor_hash [OF wf] by auto
  have len: "length (slot s) = slot_size s" using wf by (simp add: slots_wf_def)
  have new: "slot ?s ! e = Some c \<longleftrightarrow> (if e = ?i then c = ctx else slot s ! e = Some c)"
    if "e < slot_size s" for e c
    using that len by (auto simp: nth_list_update)
  have other: "skynet_context_handle ?cs c = skynet_context_handle cs c" if "in_slots s c" for c
    using that ctx by (auto simp: set_handle_get)
  have hctx: "skynet_context_handle ?cs ctx = Some ?h" using ctx by (simp add: set_handle_get)
  have wf': "slots_wf ?cs ?s"
    unfolding slots_wf_def
  proof (intro conjI allI impI)
    fix e c assume e: "e < slot_size ?s" "slot ?s ! e = Some c"
    show "\<exists>h. skynet_context_handle ?cs c = Some h \<and> slot_hash h (slot_size ?s) = e"
    proof (cases "e = ?i")
      case True
      with e new [of e c] hctx i show ?thesis by auto
    next
      case False
      with e new [of e c] have old: "slot s ! e = Some c" "e < slot_size s" by auto
      then obtain h where "skynet_context_handle cs c = Some h" "slot_hash h (slot_size s) = e"
        using wf unfolding slots_wf_def by blast
      moreover have "in_slots s c" using old by (auto simp: in_slots_def)
      ultimately show ?thesis using other [of c] by simp
    qed
  qed (use wf in \<open>auto simp: slots_wf_def\<close>)
  have fresh: "slot_lookup cs s ?h = None" using free i by (simp add: slot_lookup_def)
  have look: "slot_lookup ?cs ?s g = Some c \<longleftrightarrow>
      (if g = ?h then c = ctx else slot_lookup cs s g = Some c)" for g c
  proof -
    have "in_slots ?s c \<longleftrightarrow>
        (\<exists>e < slot_size s. if e = ?i then c = ctx else slot s ! e = Some c)"
      using new by (simp add: in_slots_def cong: conj_cong)
    also have "\<dots> \<longleftrightarrow> c = ctx \<or> in_slots s c"
      using i(1) free unfolding in_slots_def by (metis option.distinct(1))
    finally have "in_slots ?s c \<longleftrightarrow> c = ctx \<or> in_slots s c" .
    then have "slot_lookup ?cs ?s g = Some c \<longleftrightarrow>
        (c = ctx \<or> in_slots s c) \<and> skynet_context_handle ?cs c = Some g"
      using slot_lookup_iff [OF wf', of g c] by (simp add: in_slots_def)
    moreover have "slot_lookup cs s g = Some c \<longleftrightarrow> in_slots s c \<and> skynet_context_handle cs c = Some g"
      using slot_lookup_iff [OF wf] by (simp add: in_slots_def)
    moreover have "\<not> (in_slots s c \<and> skynet_context_handle cs c = Some ?h)"
      using fresh slot_lookup_iff [OF wf, of ?h c] by (simp add: in_slots_def)
    ultimately show ?thesis
    proof (cases "c = ctx")
      case False
      then show ?thesis
        using \<open>slot_lookup ?cs ?s g = Some c \<longleftrightarrow> _\<close> \<open>slot_lookup cs s g = Some c \<longleftrightarrow> _\<close>
          \<open>\<not> (in_slots s c \<and> _)\<close> other [of c]
        by (cases "in_slots s c") auto
    qed (use hctx ctx(2) in auto)
  qed
  have "slot_lookup ?cs ?s g = (if g = ?h then Some ctx else slot_lookup cs s g)" for g
    using look by (intro option_ext) auto
  moreover have "?h AND NOT HANDLE_MASK = harbor s"
  proof -
    have "harbor s = harbor s AND HANDLE_MASK OR harbor s AND NOT HANDLE_MASK"
      by (simp add: bit.conj_disj_distrib [symmetric])
    then have "harbor s AND NOT HANDLE_MASK = harbor s"
      using wf by (simp add: slots_wf_def)
    then show ?thesis unfolding h0 by (simp add: bit.conj_disj_distrib2 and.assoc)
  qed
  ultimately show ?thesis using wf' fresh by (simp add: registered_def)
qed

lemma register_ok:
  assumes wf: "slots_wf cs s" and ctx: "cs ctx \<noteq> None" "\<not> in_slots s ctx"
    and room: "slot_size s < 2 ^ 24 \<or> (\<exists>i < slot_size s. slot s ! i = None)"
  shows "\<exists>h s'. skynet_handle_register cs s ctx = Some (h, s') \<and> registered cs s ctx h s'"
proof (cases "register_scan s 0")
  case (Some h0)
  then show ?thesis
    using register_found [OF wf ctx Some] by (subst skynet_handle_register.simps) simp
next
  case None
  then have full: "\<forall>i < slot_size s. slot s ! i \<noteq> None" using register_scan_finds [OF wf] by blast
  then have small: "slot_size s < 2 ^ 24" using room by blast
  obtain new where new: "rehash cs (slot_size s * 2) (slot s) (replicate (slot_size s * 2) None) = Some new"
    "slots_wf cs (doubled s new)" "\<forall>h. slot_lookup cs (doubled s new) h = slot_lookup cs s h"
    "\<exists>e < slot_size s * 2. new ! e = None"
    "\<forall>c. (\<exists>i < slot_size s * 2. new ! i = Some c) \<longleftrightarrow> (\<exists>i < slot_size s. slot s ! i = Some c)"
    using expand_ok [OF wf full small] by blast
  have "register_scan (doubled s new) 0 \<noteq> None"
    using new(4) register_scan_finds [OF new(2)] by (auto simp: doubled_def)
  then obtain h0 where scan: "register_scan (doubled s new) 0 = Some h0" by blast
  have "\<not> in_slots (doubled s new) ctx" using ctx(2) new(5) by (simp add: in_slots_def doubled_def)
  note reg = register_found [OF new(2) ctx(1) this scan]
  have le: "int (slot_size s) * 2 - 1 \<le> uint HANDLE_MASK"
  proof -
    obtain k where k: "k \<le> 24" "slot_size s = 2 ^ k" using wf by (auto simp: slots_wf_def)
    with small have "k \<le> 23" by (cases "k = 24") auto
    then have "(2::nat) ^ k \<le> 2 ^ 23" by (rule power_increasing) simp
    then have "slot_size s \<le> 2 ^ 23" using k(2) by simp
    then show ?thesis by (simp add: HANDLE_MASK_def)
  qed
  have "skynet_handle_register cs s ctx = skynet_handle_register cs (doubled s new) ctx"
    using None le new(1) by (subst skynet_handle_register.simps) (simp add: doubled_def)
  then show ?thesis
    using reg scan new(3) by (subst (asm) (2) skynet_handle_register.simps)
      (auto simp: registered_def doubled_def)
qed

text \<open>A new table.\<close>

lemma handle_init_wf: "slots_wf cs (skynet_handle_init h)"
proof -
  have "push_bit 24 (h AND 0xff) AND HANDLE_MASK = (0 :: u32)"
  proof (rule bit_word_eqI)
    have m: "HANDLE_MASK = mask 24" by (simp add: HANDLE_MASK_def mask_eq_exp_minus_1)
    fix n assume "n < LENGTH(32)"
    then show "bit (push_bit 24 (h AND 0xff) AND HANDLE_MASK :: u32) n \<longleftrightarrow> bit (0 :: u32) n"
      unfolding m by (simp add: bit_simps)
  qed
  then show ?thesis
    by (auto simp: slots_wf_def skynet_handle_init_def DEFAULT_SLOT_SIZE_def HANDLE_REMOTE_SHIFT_def
        intro: exI [of _ 2])
qed

section \<open>Retirement\<close>

lemma compact_names_ok:
  "j \<le> i \<Longrightarrow> i \<le> n \<Longrightarrow> n \<le> length ns \<Longrightarrow>
    (case compact_names h n i j ns of (ns', j') \<Rightarrow>
       length ns' = length ns \<and> j' \<le> n
       \<and> take j' ns' = take j ns @ filter (\<lambda>e. hn_handle e \<noteq> h) (drop i (take n ns)))"
proof (induction h n i j ns rule: compact_names.induct)
  case (1 h n i j ns)
  note eq = compact_names.simps [of h n i j ns]
  show ?case
  proof (cases "i < n")
    case False
    with "1.prems" have "i = n" by simp
    with "1.prems" eq show ?thesis by simp
  next
    case True
    then have dr: "drop i (take n ns) = ns ! i # drop (Suc i) (take n ns)"
      using "1.prems" by (metis Cons_nth_drop_Suc length_take min.absorb2 nth_take)
    show ?thesis
    proof (cases "hn_handle (ns ! i) = h")
      case drop: True
      with True "1.IH"(1) "1.prems" dr show ?thesis by (simp add: eq)
    next
      case keep: False
      let ?ns = "if i \<noteq> j then ns[j := ns ! i] else ns"
      have ns: "?ns = ns[j := ns ! i]" by auto
      have tk: "take (Suc j) ?ns = take j ns @ [ns ! i]"
        unfolding ns using "1.prems" True by (simp add: take_Suc_conv_app_nth)
      have "drop (Suc i) (take n ?ns) = drop (Suc i) (take n ns)"
        unfolding ns using "1.prems" by (simp add: take_update_swap)
      moreover have "compact_names h n i j ns = compact_names h n (Suc i) (Suc j) ?ns"
        using True keep eq by simp
      moreover have "length ?ns = length ns" by simp
      ultimately show ?thesis
        using "1.IH"(2) [OF True keep] "1.prems" True keep dr tk by (simp only:) (simp split: prod.splits)
    qed
  qed
qed

lemma retire_lookup:
  assumes wf: "slots_wf cs s"
  shows "fst (skynet_handle_retire cs s h) = slot_lookup cs s h
    \<and> slots_wf cs (snd (skynet_handle_retire cs s h))
    \<and> (\<forall>g. slot_lookup cs (snd (skynet_handle_retire cs s h)) g
          = (if g = h then None else slot_lookup cs s g))"
proof (cases "slot_lookup cs s h")
  case None
  then show ?thesis using wf by (auto simp: skynet_handle_retire_def)
next
  case (Some c)
  let ?i = "slot_hash h (slot_size s)" and ?s = "snd (skynet_handle_retire cs s h)"
  have i: "?i < slot_size s" using slot_hash_less [OF wf] .
  have at: "slot s ! ?i = Some c" "skynet_context_handle cs c = Some h"
    using Some by (auto simp: slot_lookup_def split: option.splits if_splits)
  have s': "slot ?s = (slot s)[?i := None]" "slot_size ?s = slot_size s" "harbor ?s = harbor s"
    using Some by (simp_all add: skynet_handle_retire_def split: prod.split)
  have wf': "slots_wf cs ?s"
    using wf s' i unfolding slots_wf_def by (auto simp: nth_list_update split: if_splits)
  moreover have "slot_lookup cs ?s g = (if g = h then None else slot_lookup cs s g)" for g
  proof (cases "slot_hash g (slot_size s) = ?i")
    case True
    then show ?thesis
      using at i s' wf by (auto simp: slot_lookup_def slots_wf_def)
  next
    case False
    then show ?thesis using i s' by (auto simp: slot_lookup_def)
  qed
  moreover have "fst (skynet_handle_retire cs s h) = Some c"
    using Some by (simp add: skynet_handle_retire_def split: prod.split)
  ultimately show ?thesis using Some by simp
qed

section \<open>The name table\<close>

definition live_names :: "handle_storage \<Rightarrow> handle_name list" where
  "live_names s = take (name_count s) (names s)"

definition names_wf :: "handle_storage \<Rightarrow> bool" where
  "names_wf s \<longleftrightarrow> length (names s) = name_cap s \<and> 0 < name_cap s \<and> name_count s \<le> name_cap s
     \<and> sorted_wrt (\<lambda>a b. hn_name a < hn_name b) (live_names s)"

definition name_map :: "handle_storage \<Rightarrow> string \<Rightarrow> u32 option" where
  "name_map s = map_of (map (\<lambda>n. (hn_name n, hn_handle n)) (live_names s))"

lemma map_of_sorted_nth:
  assumes "sorted_wrt (\<lambda>a b. hn_name a < hn_name b) xs" "i < length xs"
  shows "map_of (map (\<lambda>n. (hn_name n, hn_handle n)) xs) (hn_name (xs ! i)) = Some (hn_handle (xs ! i))"
  using assms
proof (induction xs arbitrary: i)
  case (Cons x xs)
  show ?case
  proof (cases i)
    case (Suc j)
    with Cons.prems have "hn_name x < hn_name (xs ! j)" by auto
    then have "hn_name (xs ! j) \<noteq> hn_name x" by (rule less_imp_neq [symmetric])
    with Suc Cons show ?thesis by auto
  qed simp
qed simp

lemma map_of_names_None:
  "(\<forall>n \<in> set xs. hn_name n \<noteq> nm) \<Longrightarrow> map_of (map (\<lambda>n. (hn_name n, hn_handle n)) xs) nm = None"
  by (induction xs) auto

text \<open>What the binary search finds in a sorted prefix \<open>xs\<close> of the array.\<close>

definition search_result :: "handle_name list \<Rightarrow> string \<Rightarrow> nat + nat \<Rightarrow> bool" where
  "search_result xs nm r \<longleftrightarrow> (case r of
      Inl i \<Rightarrow> i < length xs \<and> hn_name (xs ! i) = nm
    | Inr p \<Rightarrow> p \<le> length xs \<and> (\<forall>i < p. hn_name (xs ! i) < nm)
        \<and> (\<forall>i. p \<le> i \<longrightarrow> i < length xs \<longrightarrow> nm < hn_name (xs ! i)))"

lemma name_search_ok:
  assumes sorted: "sorted_wrt (\<lambda>a b. hn_name a < hn_name b) (take cnt ns)" and len: "cnt \<le> length ns"
  shows "0 \<le> b \<Longrightarrow> b \<le> e + 1 \<Longrightarrow> e < int cnt \<Longrightarrow> \<forall>i < nat b. hn_name (ns ! i) < nm \<Longrightarrow>
    \<forall>i. e < int i \<longrightarrow> i < cnt \<longrightarrow> nm < hn_name (ns ! i) \<Longrightarrow>
    search_result (take cnt ns) nm (name_search ns nm b e)"
  using sorted len
proof (induction ns nm b e rule: name_search.induct)
  case (1 ns nm b e)
  let ?mid = "(b + e) div 2" and ?name = "\<lambda>i. hn_name (ns ! i)"
  note eq = name_search.simps [of ns nm b e]
  have less: "?name i < ?name j" if "i < j" "j < cnt" for i j
    using sorted_wrt_nth_less [OF "1.prems"(6), of i j] that "1.prems"(7) by simp
  show ?case
  proof (cases "b \<le> e")
    case False
    with "1.prems" have "e = b - 1" by simp
    with "1.prems" False eq show ?thesis by (auto simp: search_result_def)
  next
    case True
    then have mid: "b \<le> ?mid" "?mid \<le> e" by auto
    then have m: "0 \<le> ?mid" "nat ?mid < cnt" using "1.prems"(1,3) by auto
    consider (eq) "?name (nat ?mid) = nm" | (lt) "?name (nat ?mid) < nm" | (gt) "nm < ?name (nat ?mid)"
      using linorder_less_linear by blast
    then show ?thesis
    proof cases
      case eq
      with True m "1.prems"(7) show ?thesis by (simp add: name_search.simps [of ns nm b e] search_result_def Let_def)
    next
      case lt
      have "\<forall>i < nat (?mid + 1). ?name i < nm"
      proof (intro allI impI)
        fix i assume "i < nat (?mid + 1)"
        then have "i < nat ?mid \<or> i = nat ?mid" using m by auto
        with less [of i "nat ?mid"] lt m show "?name i < nm" by (auto dest: less_trans)
      qed
      moreover have "name_search ns nm b e = name_search ns nm (?mid + 1) e"
        using True lt less_imp_neq [OF lt] by (simp add: name_search.simps [of ns nm b e] Let_def)
      ultimately show ?thesis
        using "1.IH"(1) [OF True refl refl less_imp_neq [OF lt] lt] mid m "1.prems" by simp
    next
      case gt
      have "\<forall>i. ?mid - 1 < int i \<longrightarrow> i < cnt \<longrightarrow> nm < ?name i"
      proof (intro allI impI)
        fix i assume i: "?mid - 1 < int i" "i < cnt"
        then have "nat ?mid < i \<or> i = nat ?mid" using m by auto
        with less [of "nat ?mid" i] gt i show "nm < ?name i" by (auto dest: less_trans)
      qed
      moreover have ne: "?name (nat ?mid) \<noteq> nm" "\<not> ?name (nat ?mid) < nm"
        using gt less_imp_neq [OF gt] less_not_sym [OF gt] by auto
      moreover have "name_search ns nm b e = name_search ns nm b (?mid - 1)"
        using True ne by (simp add: name_search.simps [of ns nm b e] Let_def)
      ultimately show ?thesis
        using "1.IH"(2) [OF True refl refl ne] mid m "1.prems" by simp
    qed
  qed
qed

lemma search_live:
  assumes "names_wf s"
  shows "search_result (live_names s) nm (name_search (names s) nm 0 (int (name_count s) - 1))"
  using name_search_ok [of "name_count s" "names s" 0 "int (name_count s) - 1" nm] assms
  by (simp add: names_wf_def live_names_def)

lemma names_sorted: "names_wf s \<Longrightarrow> sorted_wrt (\<lambda>a b. hn_name a < hn_name b) (live_names s)"
  by (simp add: names_wf_def)

lemma live_length [simp]: "names_wf s \<Longrightarrow> length (live_names s) = name_count s"
  by (simp add: names_wf_def live_names_def)

lemma live_nth: "names_wf s \<Longrightarrow> i < name_count s \<Longrightarrow> live_names s ! i = names s ! i"
  by (simp add: live_names_def)

lemma search_found:
  assumes wf: "names_wf s"
    and found: "name_search (names s) nm 0 (int (name_count s) - 1) = Inl i"
  shows "name_map s nm = Some (hn_handle (names s ! i))"
proof -
  have "i < name_count s" "hn_name (live_names s ! i) = nm"
    using search_live [OF wf, of nm] wf by (auto simp: found search_result_def)
  then show ?thesis
    using map_of_sorted_nth [OF names_sorted [OF wf], of i] wf by (auto simp: name_map_def live_nth)
qed

lemma search_not_found:
  assumes wf: "names_wf s"
    and "name_search (names s) nm 0 (int (name_count s) - 1) = Inr p"
  shows "p \<le> name_count s \<and> name_map s nm = None
    \<and> (\<forall>e \<in> set (take p (live_names s)). hn_name e < nm)
    \<and> (\<forall>e \<in> set (drop p (live_names s)). nm < hn_name e)"
proof -
  have r: "p \<le> name_count s" "\<forall>i < p. hn_name (live_names s ! i) < nm"
    "\<forall>i. p \<le> i \<longrightarrow> i < name_count s \<longrightarrow> nm < hn_name (live_names s ! i)"
    using search_live [OF wf, of nm] wf assms(2) by (auto simp: search_result_def)
  have t: "\<forall>e \<in> set (take p (live_names s)). hn_name e < nm"
    using r wf by (auto simp: in_set_conv_nth)
  have d: "\<forall>e \<in> set (drop p (live_names s)). nm < hn_name e"
    using r wf by (auto simp: in_set_conv_nth)
  have "set (live_names s) = set (take p (live_names s)) \<union> set (drop p (live_names s))"
    by (metis append_take_drop_id set_append)
  with t d have "\<forall>e \<in> set (live_names s). hn_name e \<noteq> nm" by auto
  then have "name_map s nm = None" unfolding name_map_def by (rule map_of_names_None)
  with r(1) t d show ?thesis by blast
qed

subsection \<open>The insertion loops\<close>

lemma copy_prefix_eq:
  "b \<le> length old \<Longrightarrow> b \<le> length new \<Longrightarrow> copy_prefix old new b = take b old @ drop b new"
proof (induction b)
  case 0
  then show ?case by (simp add: copy_prefix_def)
next
  case (Suc b)
  have "copy_prefix old new (Suc b) = (copy_prefix old new b)[b := old ! b]"
    by (simp add: copy_prefix_def)
  also have "\<dots> = (take b old @ drop b new)[b := old ! b]" using Suc by simp
  also have "\<dots> = take (Suc b) old @ drop (Suc b) new"
    using Suc.prems by (simp add: list_update_append take_Suc_conv_app_nth)
      (metis Cons_nth_drop_Suc Suc_le_lessD list_update_code(2))
  finally show ?case .
qed

lemma copy_suffix_eq:
  "b \<le> c \<Longrightarrow> c \<le> length old \<Longrightarrow> c < length new \<Longrightarrow>
    copy_suffix old new b c = take (Suc b) new @ drop b (take c old) @ drop (Suc c) new"
proof (induction c)
  case 0
  then show ?case by (simp add: copy_suffix_def)
next
  case (Suc c)
  show ?case
  proof (cases "b \<le> c")
    case False
    with Suc.prems have "b = Suc c" by simp
    with Suc.prems show ?thesis by (simp add: copy_suffix_def)
  next
    case True
    have "copy_suffix old new b (Suc c) = (copy_suffix old new b c)[Suc c := old ! c]"
      using True by (simp add: copy_suffix_def)
    also have "\<dots> = (take (Suc b) new @ drop b (take c old) @ drop (Suc c) new)[Suc c := old ! c]"
      using Suc True by simp
    also have "\<dots> = take (Suc b) new @ drop b (take c old) @ (drop (Suc c) new)[0 := old ! c]"
      using Suc.prems True by (simp add: list_update_append)
    also have "(drop (Suc c) new)[0 := old ! c] = old ! c # drop (Suc (Suc c)) new"
      using Suc.prems by (metis Cons_nth_drop_Suc list_update_code(2))
    also have "take (Suc b) new @ drop b (take c old) @ old ! c # drop (Suc (Suc c)) new
        = take (Suc b) new @ drop b (take (Suc c) old) @ drop (Suc (Suc c)) new"
      using Suc.prems True by (simp add: take_Suc_conv_app_nth)
    finally show ?thesis .
  qed
qed

lemma shift_names_eq:
  "b \<le> c \<Longrightarrow> c < length ns \<Longrightarrow>
    shift_names ns b c = take (Suc b) ns @ drop b (take c ns) @ drop (Suc c) ns"
proof (induction c arbitrary: ns)
  case 0
  then show ?case by (simp add: shift_names_def)
next
  case (Suc c)
  show ?case
  proof (cases "b \<le> c")
    case False
    with Suc.prems have "b = Suc c" by simp
    with Suc.prems show ?thesis by (simp add: shift_names_def)
  next
    case True
    let ?ns = "ns[Suc c := ns ! c]"
    have "shift_names ns b (Suc c) = shift_names ?ns b c"
      using True by (simp add: shift_names_def)
    also have "\<dots> = take (Suc b) ?ns @ drop b (take c ?ns) @ drop (Suc c) ?ns"
      using Suc True by simp
    also have "take (Suc b) ?ns = take (Suc b) ns" using True by simp
    also have "take c ?ns = take c ns" by simp
    also have "drop (Suc c) ?ns = ns ! c # drop (Suc (Suc c)) ns"
      using Suc.prems by (simp add: drop_update_swap) (metis Cons_nth_drop_Suc list_update_code(2))
    also have "take (Suc b) ns @ drop b (take c ns) @ ns ! c # drop (Suc (Suc c)) ns
        = take (Suc b) ns @ drop b (take (Suc c) ns) @ drop (Suc (Suc c)) ns"
      using Suc.prems True by (simp add: take_Suc_conv_app_nth)
    finally show ?thesis .
  qed
qed

text \<open>Both branches insert the new name before position \<open>before\<close>.\<close>

lemma insert_name_before_ok:
  assumes wf: "names_wf s" and p: "p \<le> name_count s" and ins: "insert_name_before s nm h p = Some s'"
  shows "live_names s' = take p (live_names s) @ \<lparr>hn_name = nm, hn_handle = h\<rparr> # drop p (live_names s)
    \<and> length (names s') = name_cap s' \<and> 0 < name_cap s' \<and> name_count s' \<le> name_cap s'
    \<and> slot s' = slot s \<and> slot_size s' = slot_size s \<and> harbor s' = harbor s"
proof -
  let ?e = "\<lparr>hn_name = nm, hn_handle = h\<rparr>" and ?c = "name_count s" and ?ns = "names s"
  have w: "length ?ns = name_cap s" "0 < name_cap s" "?c \<le> name_cap s" using wf by (auto simp: names_wf_def)
  have upd: "(take (Suc p) xs @ rest)[p := ?e] = take p xs @ ?e # rest" if "p < length xs" for xs rest
    using that by (simp add: take_Suc_conv_app_nth list_update_append)
  show ?thesis
  proof (cases "?c \<ge> name_cap s")
    case True
    with w have c: "?c = name_cap s" by simp
    let ?n = "copy_suffix ?ns (copy_prefix ?ns (replicate (name_cap s * 2) no_name) p) p ?c"
    have s': "s' = s\<lparr>name_cap := name_cap s * 2, names := ?n[p := ?e], name_count := ?c + 1\<rparr>"
      using ins True by (auto simp: insert_name_before_def Let_def split: if_splits)
    let ?m = "take p ?ns @ drop p (replicate (name_cap s * 2) no_name)"
    have m: "copy_prefix ?ns (replicate (name_cap s * 2) no_name) p = ?m"
      using p w by (intro copy_prefix_eq) simp_all
    have "length ?m = name_cap s * 2" using p w by simp
    then have n: "?n = take (Suc p) ?m @ drop p (take ?c ?ns) @ drop (Suc ?c) ?m" "p < length ?m"
      unfolding m using copy_suffix_eq [of p ?c ?ns ?m] p w c by linarith+
    have "?n[p := ?e] = take p ?ns @ ?e # drop p ?ns @ drop (Suc ?c) ?m"
      unfolding n(1) upd [OF n(2)] using p w c by simp
    then show ?thesis using s' p w c by (simp add: live_names_def Suc_diff_le)
  next
    case False
    then have c: "?c < length ?ns" using w by simp
    have s': "s' = s\<lparr>names := (shift_names ?ns p ?c)[p := ?e], name_count := ?c + 1\<rparr>"
      using ins False by (auto simp: insert_name_before_def Let_def)
    have "(shift_names ?ns p ?c)[p := ?e] = take p ?ns @ ?e # drop p (take ?c ?ns) @ drop (Suc ?c) ?ns"
      using shift_names_eq [OF p c] upd [of ?ns] p c by simp
    then show ?thesis using s' p w c by (simp add: live_names_def Suc_diff_le)
  qed
qed

lemma namehandle_bound:
  assumes wf: "names_wf s" and "name_map s nm = Some w"
  shows "skynet_handle_namehandle s h nm = Some (None, s)"
  using assms search_not_found [OF wf, of nm]
  by (auto simp: skynet_handle_namehandle_def split: sum.split)

lemma namehandle_new:
  assumes wf: "names_wf s" and new: "name_map s nm = None"
    and res: "skynet_handle_namehandle s h nm = Some (r, s')"
  shows "r = Some nm \<and> names_wf s' \<and> name_map s' = (name_map s)(nm := Some h)
    \<and> slot s' = slot s \<and> slot_size s' = slot_size s \<and> harbor s' = harbor s"
proof -
  obtain p where p: "name_search (names s) nm 0 (int (name_count s) - 1) = Inr p"
    using new search_found [OF wf, of nm]
    by (cases "name_search (names s) nm 0 (int (name_count s) - 1)") auto
  note nf = search_not_found [OF wf p]
  have ins: "insert_name_before s nm h p = Some s'" and r: "r = Some nm"
    using res p by (auto simp: skynet_handle_namehandle_def)
  note ok = insert_name_before_ok [OF wf conjunct1 [OF nf] ins]
  let ?xs = "take p (live_names s)" and ?ys = "drop p (live_names s)"
    and ?e = "\<lparr>hn_name = nm, hn_handle = h\<rparr>"
  have "sorted_wrt (\<lambda>a b. hn_name a < hn_name b) (?xs @ ?ys)"
    using names_sorted [OF wf] by simp
  then have "sorted_wrt (\<lambda>a b. hn_name a < hn_name b) (?xs @ ?e # ?ys)"
    using nf by (auto simp: sorted_wrt_append simp del: append_take_drop_id)
  then have "names_wf s'" using ok by (simp add: names_wf_def)
  moreover have "name_map s' = (name_map s)(nm := Some h)"
  proof -
    let ?m = "\<lambda>l. map_of (map (\<lambda>n. (hn_name n, hn_handle n)) l)"
    have "?m ?xs nm = None" using nf by (intro map_of_names_None) auto
    then have "?m (?xs @ ?e # ?ys) = (?m (?xs @ ?ys))(nm := Some h)"
      by (auto simp: fun_eq_iff map_add_def simp del: append_take_drop_id split: option.split)
    then show ?thesis using ok by (simp add: name_map_def)
  qed
  ultimately show ?thesis using r ok by blast
qed

lemma findname_map:
  assumes "names_wf s"
  shows "skynet_handle_findname s nm = (case name_map s nm of Some h \<Rightarrow> h | None \<Rightarrow> 0)"
  using search_found [OF assms, of nm] search_not_found [OF assms, of nm]
  by (auto simp: skynet_handle_findname_def split: sum.split)

interpretation name_table: write_once name_map
  "\<lambda>s nm h. map_option snd (skynet_handle_namehandle s h nm)" names_wf
proof (unfold_locales)
  fix s k v s'
  assume wf: "names_wf s" and put: "map_option snd (skynet_handle_namehandle s v k) = Some s'"
  obtain r where res: "skynet_handle_namehandle s v k = Some (r, s')" using put by auto
  show "names_wf s'"
  proof (cases "name_map s k")
    case None
    then show ?thesis using namehandle_new [OF wf None res] by blast
  next
    case (Some w)
    then show ?thesis using res namehandle_bound [OF wf Some, of v] wf by simp
  qed
  show "name_map s' = (name_map s)(k := Some v)" if "name_map s k = None"
    using namehandle_new [OF wf that res] by blast
  show "name_map s' = name_map s" if "name_map s k = Some w" for w
    using res namehandle_bound [OF wf that, of v] by simp
qed

lemma init_names_wf: "names_wf (skynet_handle_init h)"
  and init_name_map: "name_map (skynet_handle_init h) = Map.empty"
  by (simp_all add: names_wf_def name_map_def live_names_def skynet_handle_init_def fun_eq_iff)

text \<open>The array stays within a factor of two of the names it holds, so its limit is far.\<close>

lemma namehandle_returns:
  assumes wf: "names_wf s" and cap: "name_cap s \<le> 2 + 2 * name_count s" and n: "name_count s < 2 ^ 28"
  shows "\<exists>r s'. skynet_handle_namehandle s h nm = Some (r, s')
    \<and> name_cap s' \<le> 2 + 2 * name_count s' \<and> name_count s' \<le> Suc (name_count s)"
proof (cases "name_map s nm")
  case (Some w)
  then show ?thesis using namehandle_bound [OF wf Some] cap by simp
next
  case None
  then obtain p where p: "name_search (names s) nm 0 (int (name_count s) - 1) = Inr p"
    using search_found [OF wf, of nm]
    by (cases "name_search (names s) nm 0 (int (name_count s) - 1)") auto
  have "name_cap s * 2 \<le> MAX_SLOT_SIZE" using cap n by (simp add: MAX_SLOT_SIZE_def)
  then show ?thesis
    using p cap by (auto simp: skynet_handle_namehandle_def insert_name_before_def Let_def)
qed

lemma names_run_returns:
  "names_wf s \<Longrightarrow> name_cap s \<le> 2 + 2 * name_count s \<Longrightarrow> name_count s + length kvs < 2 ^ 28 \<Longrightarrow>
    \<exists>s'. wo_run (\<lambda>s nm h. map_option snd (skynet_handle_namehandle s h nm)) kvs s = Some s'"
proof (induction kvs arbitrary: s)
  case Nil
  then show ?case by simp
next
  case (Cons kv kvs)
  obtain nm h where kv: "kv = (nm, h)" by (cases kv)
  obtain r t where t: "skynet_handle_namehandle s h nm = Some (r, t)"
    "name_cap t \<le> 2 + 2 * name_count t" "name_count t \<le> Suc (name_count s)"
    using namehandle_returns [OF Cons.prems(1,2), of h nm] Cons.prems(3) by auto
  have "names_wf t" by (rule name_table.put_wf [OF Cons.prems(1), of h nm]) (simp add: t(1))
  with Cons.IH [of t] t Cons.prems(3) show ?case by (simp add: kv)
qed

subsection \<open>The names of a retired handle go\<close>

lemma map_of_filter_names:
  assumes "sorted_wrt (\<lambda>a b. hn_name a < hn_name b) xs"
  shows "map_of (map (\<lambda>n. (hn_name n, hn_handle n)) (filter (\<lambda>e. hn_handle e \<noteq> h) xs)) nm
    = (case map_of (map (\<lambda>n. (hn_name n, hn_handle n)) xs) nm of
         Some g \<Rightarrow> if g = h then None else Some g | None \<Rightarrow> None)"
  using assms
proof (induction xs)
  case (Cons x xs)
  have "\<forall>n \<in> set xs. hn_name n \<noteq> hn_name x" using Cons.prems by (auto dest: less_imp_neq)
  then have "map_of (map (\<lambda>n. (hn_name n, hn_handle n)) xs) (hn_name x) = None"
    by (rule map_of_names_None)
  with Cons show ?case by auto
qed simp

lemma retire_names:
  assumes wf: "names_wf s" and live: "slot_lookup cs s h = Some c"
  shows "names_wf (snd (skynet_handle_retire cs s h))
    \<and> name_map (snd (skynet_handle_retire cs s h)) nm
       = (case name_map s nm of Some g \<Rightarrow> if g = h then None else Some g | None \<Rightarrow> None)"
proof -
  let ?s = "snd (skynet_handle_retire cs s h)"
  obtain ns j where cn: "compact_names h (name_count s) 0 0 (names s) = (ns, j)"
    by (cases "compact_names h (name_count s) 0 0 (names s)")
  have w: "length (names s) = name_cap s" "0 < name_cap s" "name_count s \<le> name_cap s"
    using wf by (auto simp: names_wf_def)
  with compact_names_ok [of 0 0 "name_count s" "names s" h] cn
  have ns: "length ns = name_cap s" "j \<le> name_count s"
    "take j ns = filter (\<lambda>e. hn_handle e \<noteq> h) (live_names s)"
    by (auto simp: live_names_def)
  have s: "names ?s = ns" "name_count ?s = j" "name_cap ?s = name_cap s"
    using live cn by (simp_all add: skynet_handle_retire_def)
  have live': "live_names ?s = filter (\<lambda>e. hn_handle e \<noteq> h) (live_names s)"
    using s ns by (simp add: live_names_def)
  then have "names_wf ?s"
    using names_sorted [OF wf] s ns w by (simp add: names_wf_def sorted_wrt_filter)
  then show ?thesis
    using map_of_filter_names [OF names_sorted [OF wf], of h nm] live' by (simp add: name_map_def)
qed

section \<open>Retiring every service\<close>

text \<open>
  One pass of \<open>skynet_handle_retireall\<close> over the slots (\<open>n\<close> counts the retired services), and
  the loop that ends after a pass that retires nothing. The release of a context deletes it when no
  other reference is left.
\<close>

fun retire_pass :: "nat list \<Rightarrow> ctx_store \<Rightarrow> handle_storage \<Rightarrow> nat \<Rightarrow>
    (nat \<times> ctx_store \<times> handle_storage) option" where
  "retire_pass [] cs s n = Some (n, cs, s)"
| "retire_pass (i # is) cs s n =
     (case (case slot s ! i of None \<Rightarrow> Some 0 | Some c \<Rightarrow> skynet_context_handle cs c) of
        None \<Rightarrow> None
      | Some h \<Rightarrow>
          if h \<noteq> 0 then
            (case skynet_handle_retire cs s h of
               (None, s') \<Rightarrow> retire_pass is cs s' n
             | (Some c, s') \<Rightarrow>
                 (case skynet_context_release cs c of None \<Rightarrow> None
                  | Some (_, cs') \<Rightarrow> retire_pass is cs' s' (n + 1)))
          else retire_pass is cs s n)"

partial_function (option) skynet_handle_retireall ::
  "ctx_store \<Rightarrow> handle_storage \<Rightarrow> (ctx_store \<times> handle_storage) option" where
  "skynet_handle_retireall cs s =
     (case retire_pass [0..<slot_size s] cs s 0 of None \<Rightarrow> None
      | Some (n, cs', s') \<Rightarrow> if n = 0 then Some (cs', s') else skynet_handle_retireall cs' s')"

definition zero_slot :: "ctx_store \<Rightarrow> handle_storage \<Rightarrow> nat \<Rightarrow> bool" where
  "zero_slot cs s i \<longleftrightarrow> (\<forall>c. slot s ! i = Some c \<longrightarrow> skynet_context_handle cs c = Some 0)"

lemma release_handles:
  assumes "skynet_context_release cs c = Some (d, cs')"
  shows "e \<noteq> c \<Longrightarrow> skynet_context_handle cs' e = skynet_context_handle cs e"
  using assms by (auto simp: skynet_context_release_def skynet_context_handle_def
      split: option.splits if_splits)

lemma retire_one:
  assumes wf: "slots_wf cs s" and i: "i < slot_size s" "slot s ! i = Some c"
    and h: "skynet_context_handle cs c = Some h"
  shows "\<exists>s' d cs'. skynet_handle_retire cs s h = (Some c, s')
    \<and> skynet_context_release cs c = Some (d, cs')
    \<and> slot s' = (slot s)[i := None] \<and> slot_size s' = slot_size s \<and> slots_wf cs' s'
    \<and> (\<forall>e. e \<noteq> c \<longrightarrow> skynet_context_handle cs' e = skynet_context_handle cs e)"
proof -
  have look: "slot_lookup cs s h = Some c" using slot_lookup_iff [OF wf] i h by blast
  obtain s' where s': "skynet_handle_retire cs s h = (Some c, s')" "slots_wf cs s'"
    using retire_lookup [OF wf, of h] look by (metis prod.collapse)
  have hash: "slot_hash h (slot_size s) = i" using wf i h by (auto simp: slots_wf_def)
  have fields: "slot s' = (slot s)[i := None]" "slot_size s' = slot_size s"
    using s'(1) look hash by (auto simp: skynet_handle_retire_def split: prod.splits)
  obtain ctx where "cs c = Some ctx" using h by (auto simp: skynet_context_handle_def)
  then obtain d cs' where rel: "skynet_context_release cs c = Some (d, cs')"
    by (simp add: skynet_context_release_def) (metis surj_pair)
  have gone: "slot s' ! j \<noteq> Some c" if "j < slot_size s" for j
  proof
    assume *: "slot s' ! j = Some c"
    then have "slot s ! j = Some c" "j \<noteq> i"
      using that fields wf i(1) by (auto simp: nth_list_update slots_wf_def split: if_splits)
    then show False using wf that hash h by (auto simp: slots_wf_def)
  qed
  have "slots_wf cs' s'"
    using s'(2) release_handles [OF rel] gone unfolding slots_wf_def fields(2) by metis
  then show ?thesis using s'(1) rel fields release_handles [OF rel] by blast
qed

lemma retire_pass_ok:
  "slots_wf cs s \<Longrightarrow> set is \<subseteq> {..<slot_size s} \<Longrightarrow>
    \<exists>n' cs' s'. retire_pass is cs s n = Some (n', cs', s') \<and> slots_wf cs' s'
      \<and> slot_size s' = slot_size s
      \<and> (\<forall>i < slot_size s. zero_slot cs s i \<or> i \<in> set is \<longrightarrow> zero_slot cs' s' i)"
proof (induction "is" arbitrary: cs s n)
  case Nil
  then show ?case by simp
next
  case (Cons i "is")
  have i: "i < slot_size s" using Cons.prems by simp
  show ?case
  proof (cases "zero_slot cs s i")
    case True
    then have "retire_pass (i # is) cs s n = retire_pass is cs s n"
      by (auto simp: zero_slot_def split: option.split)
    moreover obtain n' cs' s' where "retire_pass is cs s n = Some (n', cs', s')" "slots_wf cs' s'"
      "slot_size s' = slot_size s"
      "\<forall>i < slot_size s. zero_slot cs s i \<or> i \<in> set is \<longrightarrow> zero_slot cs' s' i"
      using Cons.IH [OF Cons.prems(1), of n] Cons.prems(2) by auto
    ultimately show ?thesis using True by auto
  next
    case False
    then obtain c where c: "slot s ! i = Some c" "skynet_context_handle cs c \<noteq> Some 0"
      by (auto simp: zero_slot_def)
    then obtain h where h: "skynet_context_handle cs c = Some h" "h \<noteq> 0"
      using slots_wf_entry [OF Cons.prems(1) i] by auto
    obtain s1 d cs1 where one: "skynet_handle_retire cs s h = (Some c, s1)"
      "skynet_context_release cs c = Some (d, cs1)" "slot s1 = (slot s)[i := None]"
      "slot_size s1 = slot_size s" "slots_wf cs1 s1"
      "\<forall>e. e \<noteq> c \<longrightarrow> skynet_context_handle cs1 e = skynet_context_handle cs e"
      using retire_one [OF Cons.prems(1) i c(1) h(1)] by blast
    have "retire_pass (i # is) cs s n = retire_pass is cs1 s1 (n + 1)"
      using c h one by simp
    moreover obtain n' cs' s' where rest: "retire_pass is cs1 s1 (n + 1) = Some (n', cs', s')"
      "slots_wf cs' s'" "slot_size s' = slot_size s1"
      "\<forall>i < slot_size s1. zero_slot cs1 s1 i \<or> i \<in> set is \<longrightarrow> zero_slot cs' s' i"
      using Cons.IH [OF one(5), of "n + 1"] Cons.prems(2) one(4) by auto
    moreover have "zero_slot cs1 s1 j" if "j < slot_size s" "zero_slot cs s j \<or> j = i" for j
    proof (cases "j = i")
      case True
      then show ?thesis using one(3) i Cons.prems(1) by (simp add: zero_slot_def slots_wf_def)
    next
      case False
      with that have z: "zero_slot cs s j" by blast
      have "slot s ! j \<noteq> Some c"
        using z c(2) by (auto simp: zero_slot_def)
      then show ?thesis using z one(3,6) False by (auto simp: zero_slot_def)
    qed
    ultimately show ?thesis using one(4) by auto
  qed
qed

lemma retire_pass_zero:
  "slots_wf cs s \<Longrightarrow> \<forall>i \<in> set is. zero_slot cs s i \<Longrightarrow> retire_pass is cs s n = Some (n, cs, s)"
  by (induction "is") (auto simp: zero_slot_def split: option.split)

section \<open>Properties\<close>

text \<open>C31: registration. While the node has fewer than \<open>2 ^ 24\<close> services (or a free slot), registering
  a context returns, with or without doubling the table; no assertion of the rehash loop fails; the
  handle is one that no live service has and carries the node's harbor; afterwards it finds exactly
  this context and every other handle finds what it found before.\<close>

theorem register_fresh_handle:
  assumes "slots_wf cs s" and "cs ctx \<noteq> None" and "\<not> in_slots s ctx"
    and "slot_size s < 2 ^ 24 \<or> (\<exists>i < slot_size s. slot s ! i = None)"
  shows "\<exists>h s'. skynet_handle_register cs s ctx = Some (h, s')
    \<and> slots_wf (set_handle cs ctx h) s' \<and> slot_lookup cs s h = None
    \<and> (\<forall>g. slot_lookup (set_handle cs ctx h) s' g = (if g = h then Some ctx else slot_lookup cs s g))
    \<and> h AND NOT HANDLE_MASK = harbor s"
  using register_ok [OF assms] by (auto simp: registered_def)

definition sample_ctx :: "u32 \<Rightarrow> skynet_context" where
  "sample_ctx h = \<lparr>instance_ptr = 0, mod_ptr = 0, cb_ud = 0, cb = 0, ctx_queue = 0, logfile = 0,
     ctx_result = [], ctx_handle = h, session_id = 0, ctx_ref = 2, ctx_init = False, endless = False\<rparr>"

theorem register_fresh_handle_witness:
  "\<exists>h s'. skynet_handle_register [7 \<mapsto> sample_ctx 0] (skynet_handle_init 1) 7 = Some (h, s')
    \<and> slot_lookup (set_handle [7 \<mapsto> sample_ctx 0] 7 h) s' h = Some 7"
proof -
  have "\<not> in_slots (skynet_handle_init 1) 7"
    by (auto simp: in_slots_def skynet_handle_init_def DEFAULT_SLOT_SIZE_def)
  moreover have "slot_size (skynet_handle_init 1) < 2 ^ 24"
    by (simp add: skynet_handle_init_def DEFAULT_SLOT_SIZE_def)
  ultimately obtain h s' where
    "skynet_handle_register [7 \<mapsto> sample_ctx 0] (skynet_handle_init 1) 7 = Some (h, s')"
    "\<forall>g. slot_lookup (set_handle [7 \<mapsto> sample_ctx 0] 7 h) s' g = (if g = h then Some 7
       else slot_lookup [7 \<mapsto> sample_ctx 0] (skynet_handle_init 1) g)"
    using register_fresh_handle [OF handle_init_wf, of "[7 \<mapsto> sample_ctx 0]" 7 1] by fastforce
  then show ?thesis by auto
qed

text \<open>C32: retirement. \<open>skynet_handle_retire\<close> reports exactly the context that the handle denoted,
  keeps the invariant of the table, removes this handle and no other, and removes exactly the names
  of this handle.\<close>

theorem retire_removes_exactly:
  assumes "slots_wf cs s" and "names_wf s" and "slot_lookup cs s h = Some c"
  shows "\<exists>s'. skynet_handle_retire cs s h = (Some c, s') \<and> slots_wf cs s' \<and> names_wf s'
    \<and> (\<forall>g. slot_lookup cs s' g = (if g = h then None else slot_lookup cs s g))
    \<and> (\<forall>nm. name_map s' nm = (case name_map s nm of
          Some g \<Rightarrow> if g = h then None else Some g | None \<Rightarrow> None))"
  using retire_lookup [OF assms(1), of h] retire_names [OF assms(2,3)] assms(3)
  by (metis prod.collapse)

theorem retire_removes_exactly_witness:
  "let s = (skynet_handle_init 0)\<lparr>slot := [None, Some 7, None, None], name_count := 1,
       names := [\<lparr>hn_name = ''log'', hn_handle = 1\<rparr>, no_name]\<rparr>
   in \<exists>s'. skynet_handle_retire [7 \<mapsto> sample_ctx 1] s 1 = (Some 7, s')
     \<and> slot_lookup [7 \<mapsto> sample_ctx 1] s' 1 = None"
proof -
  let ?s = "(skynet_handle_init 0)\<lparr>slot := [None, Some 7, None, None], name_count := 1,
       names := [\<lparr>hn_name = ''log'', hn_handle = 1\<rparr>, no_name]\<rparr>"
  let ?cs = "[7 \<mapsto> sample_ctx 1]"
  have "slots_wf ?cs ?s"
    by (auto simp: slots_wf_def skynet_handle_init_def DEFAULT_SLOT_SIZE_def slot_hash_def
        skynet_context_handle_def sample_ctx_def less_Suc_eq numeral_eq_Suc intro: exI [of _ 2])
  moreover have "names_wf ?s" by (simp add: names_wf_def live_names_def skynet_handle_init_def)
  moreover have "slot_lookup ?cs ?s 1 = Some 7"
    by (simp add: slot_lookup_def slot_hash_def skynet_handle_init_def DEFAULT_SLOT_SIZE_def
        skynet_context_handle_def sample_ctx_def)
  ultimately show ?thesis using retire_removes_exactly [of ?cs ?s 1 7] by (auto simp: Let_def)
qed

text \<open>The name table is a map whose bindings never change. Any sequence of fewer than \<open>2 ^ 28\<close>
  registrations of names returns, through any number of growths of the array, and afterwards the
  binary search of \<open>skynet_handle_findname\<close> finds for each name the handle it was first registered
  with, and 0 for a name that was never registered; the array is sorted.\<close>

theorem names_first_binding:
  assumes "length kvs < 2 ^ 28"
  shows "\<exists>s. wo_run (\<lambda>s nm h. map_option snd (skynet_handle_namehandle s h nm)) kvs
      (skynet_handle_init hb) = Some s
    \<and> (\<forall>nm. skynet_handle_findname s nm = (case map_of kvs nm of Some h \<Rightarrow> h | None \<Rightarrow> 0))
    \<and> sorted_wrt (\<lambda>a b. hn_name a < hn_name b) (live_names s)"
proof -
  obtain s where s: "wo_run (\<lambda>s nm h. map_option snd (skynet_handle_namehandle s h nm)) kvs
      (skynet_handle_init hb) = Some s"
    using names_run_returns [OF init_names_wf, of hb kvs] assms
    by (auto simp: skynet_handle_init_def)
  have "names_wf s \<and> name_map s = map_of kvs ++ name_map (skynet_handle_init hb)"
    by (rule name_table.run_first [OF init_names_wf s])
  then show ?thesis using s findname_map [of s] names_sorted [of s] by (auto simp: init_name_map)
qed

theorem names_first_binding_witness:
  "\<exists>s. skynet_handle_findname s ''b'' = 2 \<and> skynet_handle_findname s ''a'' = 3
    \<and> skynet_handle_findname s ''zz'' = 0"
proof -
  have "length [(''b'', 2 :: u32), (''a'', 3), (''c'', 4), (''b'', 5)] < 2 ^ 28" by simp
  from names_first_binding [OF this, of 0] obtain s where
    "\<forall>nm. skynet_handle_findname s nm
       = (case map_of [(''b'', 2 :: u32), (''a'', 3), (''c'', 4), (''b'', 5)] nm of
            Some h \<Rightarrow> h | None \<Rightarrow> 0)" by blast
  then show ?thesis by (intro exI [of _ s]) simp
qed

text \<open>Shutting a node down ends. \<open>skynet_handle_retireall\<close> returns, whatever the reference counts,
  and afterwards no slot holds a context with a handle other than zero.\<close>

theorem retireall_ends:
  assumes "slots_wf cs s"
  shows "\<exists>cs' s'. skynet_handle_retireall cs s = Some (cs', s') \<and> slots_wf cs' s'
    \<and> (\<forall>h. h \<noteq> 0 \<longrightarrow> slot_lookup cs' s' h = None)"
proof -
  obtain n cs1 s1 where p1: "retire_pass [0..<slot_size s] cs s 0 = Some (n, cs1, s1)"
    "slots_wf cs1 s1" "slot_size s1 = slot_size s" "\<forall>i < slot_size s. zero_slot cs1 s1 i"
    using retire_pass_ok [OF assms, of "[0..<slot_size s]" 0] by (auto simp: atLeast0LessThan)
  have "retire_pass [0..<slot_size s1] cs1 s1 0 = Some (0, cs1, s1)"
    using retire_pass_zero [OF p1(2)] p1(3,4) by simp
  then have "skynet_handle_retireall cs1 s1 = Some (cs1, s1)"
    by (subst skynet_handle_retireall.simps) simp
  with p1(1) have "skynet_handle_retireall cs s = Some (cs1, s1)"
    by (subst skynet_handle_retireall.simps)
      (use retire_pass_zero in \<open>auto split: if_splits\<close>)
  moreover have "slot_lookup cs1 s1 h = None" if "h \<noteq> 0" for h
  proof (cases "slot_lookup cs1 s1 h")
    case (Some c)
    then obtain i where "i < slot_size s" "slot s1 ! i = Some c" "skynet_context_handle cs1 c = Some h"
      using slot_lookup_iff [OF p1(2), of h c] p1(3) by auto
    with p1(4) that show ?thesis by (auto simp: zero_slot_def)
  qed
  ultimately show ?thesis using p1(2) by blast
qed

theorem retireall_ends_witness:
  "\<exists>cs' s'. skynet_handle_retireall Map.empty (skynet_handle_init 3) = Some (cs', s')
    \<and> slots_wf cs' s'"
  using retireall_ends [OF handle_init_wf] by blast

text \<open>The handle that is reserved for the system is handed out after the counter wraps: when the
  next index is a multiple of \<open>2 ^ 24\<close> and slot 0 is free, the handle is the harbor alone, which on
  a node with harbor 0 is the handle 0.\<close>

lemma register_wraps_to_zero:
  assumes "slots_wf cs s" and "handle_index s AND HANDLE_MASK = 0" and "slot s ! 0 = None"
  shows "\<exists>s'. skynet_handle_register cs s ctx = Some (harbor s, s')"
proof -
  have "slot_hash 0 (slot_size s) = 0" by (simp add: slot_hash_def)
  moreover have "0 < slot_size s" using slots_wf_pos [OF assms(1)] .
  ultimately have "register_scan s 0 = Some 0"
    using assms(2,3) by (simp add: register_scan.simps [of s 0] Let_def)
  then show ?thesis by (subst skynet_handle_register.simps) simp
qed

lemma register_wraps_to_zero_witness:
  "\<exists>s'. skynet_handle_register [7 \<mapsto> sample_ctx 0]
      ((skynet_handle_init 0)\<lparr>handle_index := 0x1000000\<rparr>) 7 = Some (0, s')"
proof -
  let ?s = "(skynet_handle_init 0)\<lparr>handle_index := 0x1000000\<rparr>"
  have "slots_wf [7 \<mapsto> sample_ctx 0] ?s"
    using handle_init_wf [of "[7 \<mapsto> sample_ctx 0]" 0] by (simp add: slots_wf_def)
  from register_wraps_to_zero [OF this, of 7] show ?thesis
    by (simp add: skynet_handle_init_def HANDLE_MASK_def DEFAULT_SLOT_SIZE_def)
qed

end
