(* ===== verification/Timer.thy ===== *)
theory Timer
  imports MessageQueue
begin

text \<open>
  \<open>skynet-src/skynet_timer.c\<close>: the hierarchical timing wheel. A node that expires in the current
  block of 256 ticks is in \<open>near\<close>, indexed by the low 8 bits of its expiry; a later one is in one
  of four levels of 64 lists, by the highest 6-bit digit in which its expiry differs from the
  current time. A tick that crosses a block boundary moves one list down.

  The arrays are functions of their index (all indices are masked, so they are in range) and the
  linked lists are lists, in link order. The clock counts modulo \<open>2 ^ 32\<close>.
\<close>

unbundle bit_operations_syntax

section \<open>Data\<close>

definition TIME_NEAR_SHIFT :: nat where "TIME_NEAR_SHIFT = 8"
definition TIME_NEAR :: u32 where "TIME_NEAR = push_bit TIME_NEAR_SHIFT 1"
definition TIME_LEVEL_SHIFT :: nat where "TIME_LEVEL_SHIFT = 6"
definition TIME_LEVEL :: u32 where "TIME_LEVEL = push_bit TIME_LEVEL_SHIFT 1"
definition TIME_NEAR_MASK :: u32 where "TIME_NEAR_MASK = TIME_NEAR - 1"
definition TIME_LEVEL_MASK :: u32 where "TIME_LEVEL_MASK = TIME_LEVEL - 1"

record timer_event =
  te_handle :: u32
  te_session :: u32

record timer_node =
  tn_expire :: u32
  tn_event :: timer_event

record timer =
  near :: "nat \<Rightarrow> timer_node list"
  wheel :: "nat \<Rightarrow> nat \<Rightarrow> timer_node list"
  now :: u32
  starttime :: u32
  current :: u64
  current_point :: u64

definition timer_create_timer :: timer where
  "timer_create_timer = \<lparr>near = (\<lambda>i. []), wheel = (\<lambda>i j. []), now = 0, starttime = 0,
     current = 0, current_point = 0\<rparr>"

section \<open>Operations\<close>

text \<open>\<open>link\<close> appends to a list of \<open>near\<close> or of a level; \<open>link_clear\<close> empties one.\<close>

definition link_near :: "timer \<Rightarrow> nat \<Rightarrow> timer_node \<Rightarrow> timer" where
  "link_near T i node = T\<lparr>near := (near T)(i := near T i @ [node])\<rparr>"

definition link_wheel :: "timer \<Rightarrow> nat \<Rightarrow> nat \<Rightarrow> timer_node \<Rightarrow> timer" where
  "link_wheel T l i node = T\<lparr>wheel := (wheel T)(l := (wheel T l)(i := wheel T l i @ [node]))\<rparr>"

definition link_clear_near :: "timer \<Rightarrow> nat \<Rightarrow> timer_node list \<times> timer" where
  "link_clear_near T i = (near T i, T\<lparr>near := (near T)(i := [])\<rparr>)"

definition link_clear_wheel :: "timer \<Rightarrow> nat \<Rightarrow> nat \<Rightarrow> timer_node list \<times> timer" where
  "link_clear_wheel T l i = (wheel T l i, T\<lparr>wheel := (wheel T)(l := (wheel T l)(i := []))\<rparr>)"

text \<open>The loop of \<open>add_node\<close> that finds the level; \<open>i\<close> counts the levels tried.\<close>

function find_level :: "u32 \<Rightarrow> u32 \<Rightarrow> nat \<Rightarrow> u32 \<Rightarrow> nat" where
  "find_level time current_time i msk =
     (if i < 3 then
        (if time OR (msk - 1) = current_time OR (msk - 1) then i
         else find_level time current_time (i + 1) (push_bit TIME_LEVEL_SHIFT msk))
      else i)"
  by pat_completeness auto
termination
  by (relation "measure (\<lambda>(time, ct, i, msk). 3 - i)") auto

declare find_level.simps [simp del]

definition add_node :: "timer \<Rightarrow> timer_node \<Rightarrow> timer" where
  "add_node T node =
     (let time = tn_expire node; current_time = now T
      in if time OR TIME_NEAR_MASK = current_time OR TIME_NEAR_MASK
         then link_near T (unat (time AND TIME_NEAR_MASK)) node
         else (let i = find_level time current_time 0 (push_bit TIME_LEVEL_SHIFT TIME_NEAR)
               in link_wheel T i
                    (unat (drop_bit (TIME_NEAR_SHIFT + i * TIME_LEVEL_SHIFT) time AND TIME_LEVEL_MASK))
                    node))"

definition timer_add :: "timer \<Rightarrow> timer_event \<Rightarrow> u32 \<Rightarrow> timer" where
  "timer_add T event time = add_node T \<lparr>tn_expire = time + now T, tn_event = event\<rparr>"

definition move_list :: "timer \<Rightarrow> nat \<Rightarrow> nat \<Rightarrow> timer" where
  "move_list T level idx =
     (let (current, T) = link_clear_wheel T level idx in foldl add_node T current)"

text \<open>The loop of \<open>timer_shift\<close> for a clock \<open>ct\<close> that is not 0.\<close>

partial_function (option) shift_loop ::
  "timer \<Rightarrow> u32 \<Rightarrow> u32 \<Rightarrow> u32 \<Rightarrow> nat \<Rightarrow> timer option" where
  "shift_loop T ct msk time i =
     (if ct AND (msk - 1) = 0 then
        (let idx = unat (time AND TIME_LEVEL_MASK)
         in if idx \<noteq> 0 then Some (move_list T i idx)
            else shift_loop T ct (push_bit TIME_LEVEL_SHIFT msk) (drop_bit TIME_LEVEL_SHIFT time) (i + 1))
      else Some T)"

definition timer_shift :: "timer \<Rightarrow> timer option" where
  "timer_shift T =
     (let ct = now T + 1; T = T\<lparr>now := ct\<rparr>
      in if ct = 0 then Some (move_list T 3 0)
         else shift_loop T ct TIME_NEAR (drop_bit TIME_NEAR_SHIFT ct) 0)"

text \<open>
  \<open>timer_execute\<close> collects the nodes that it hands to \<open>dispatch_list\<close>, in order. The lock is free
  while they are dispatched; a concurrent \<open>timer_add\<close> is a step of its own.
\<close>

partial_function (option) timer_execute ::
  "timer \<Rightarrow> timer_node list \<Rightarrow> (timer_node list \<times> timer) option" where
  "timer_execute T out =
     (let idx = unat (now T AND TIME_NEAR_MASK)
      in if near T idx \<noteq> [] then
           (let (current, T) = link_clear_near T idx in timer_execute T (out @ current))
         else Some (out, T))"

definition timer_update :: "timer \<Rightarrow> (timer_node list \<times> timer) option" where
  "timer_update T =
     (case timer_execute T [] of None \<Rightarrow> None | Some (out1, T1) \<Rightarrow>
        (case timer_shift T1 of None \<Rightarrow> None | Some T2 \<Rightarrow>
           (case timer_execute T2 [] of None \<Rightarrow> None | Some (out2, T3) \<Rightarrow>
              Some (out1 @ out2, T3))))"

text \<open>The message that \<open>dispatch_list\<close> and \<open>skynet_timeout\<close> send for an event.\<close>

definition PTYPE_RESPONSE :: u64 where "PTYPE_RESPONSE = 1"
definition MESSAGE_TYPE_SHIFT :: nat where "MESSAGE_TYPE_SHIFT = (8 - 1) * 8"

definition timeout_message :: "u32 \<Rightarrow> skynet_message" where
  "timeout_message session = \<lparr>msg_source = 0, msg_session = session, msg_data = 0,
     msg_sz = push_bit MESSAGE_TYPE_SHIFT PTYPE_RESPONSE\<rparr>"

definition dispatch_list :: "timer_node list \<Rightarrow> (u32 \<times> skynet_message) list" where
  "dispatch_list nodes =
     map (\<lambda>n. (te_handle (tn_event n), timeout_message (te_session (tn_event n)))) nodes"

text \<open>
  \<open>skynet_timeout\<close>: the message to push at once, if the time is not positive, and the new timer.
  (The result is the session, or -1 when the push of the message fails.)
\<close>

definition skynet_timeout ::
  "timer \<Rightarrow> u32 \<Rightarrow> u32 \<Rightarrow> u32 \<Rightarrow> (u32 \<times> skynet_message) option \<times> timer" where
  "skynet_timeout T handle time session =
     (if sint time \<le> 0 then (Some (handle, timeout_message session), T)
      else (None, timer_add T \<lparr>te_handle = handle, te_session = session\<rparr> time))"

text \<open>
  \<open>skynet_updatetime\<close> with the reading \<open>cp\<close> of the monotonic clock (in centiseconds): the wheel
  is advanced by the difference, one tick at a time.
\<close>

fun timer_updates :: "nat \<Rightarrow> timer \<Rightarrow> (timer_node list \<times> timer) option" where
  "timer_updates 0 T = Some ([], T)"
| "timer_updates (Suc n) T =
     (case timer_update T of None \<Rightarrow> None | Some (out, T') \<Rightarrow>
        map_option (\<lambda>(outs, T''). (out @ outs, T'')) (timer_updates n T'))"

definition skynet_updatetime :: "timer \<Rightarrow> u64 \<Rightarrow> (timer_node list \<times> timer) option" where
  "skynet_updatetime T cp =
     (if cp < current_point T then Some ([], T\<lparr>current_point := cp\<rparr>)
      else if cp \<noteq> current_point T then
        (let diff = ucast (cp - current_point T) :: u32;
             T = T\<lparr>current_point := cp, current := current T + ucast diff\<rparr>
         in timer_updates (unat diff) T)
      else Some ([], T))"

definition skynet_now :: "timer \<Rightarrow> u64" where "skynet_now T = current T"
definition skynet_starttime :: "timer \<Rightarrow> u32" where "skynet_starttime T = starttime T"

text \<open>\<open>skynet_timer_init\<close> with the clock readings \<open>sec\<close>, \<open>cs\<close> (real time) and \<open>cp\<close>.\<close>

definition skynet_timer_init :: "u32 \<Rightarrow> u32 \<Rightarrow> u64 \<Rightarrow> timer" where
  "skynet_timer_init sec cs cp =
     timer_create_timer\<lparr>starttime := sec, current := ucast cs, current_point := cp\<rparr>"

section \<open>Where a node is\<close>

text \<open>
  The lists as one family: level 0 is \<open>near\<close>, level \<open>l + 1\<close> is the wheel's level \<open>l\<close>. A digit
  of level \<open>l\<close> starts at bit \<open>sh l\<close>.
\<close>

definition tslot :: "timer \<Rightarrow> nat \<Rightarrow> nat \<Rightarrow> timer_node list" where
  "tslot T l i = (if l = 0 then near T i else wheel T (l - 1) i)"

definition sh :: "nat \<Rightarrow> nat" where
  "sh l = (if l = 0 then 0 else 8 + (l - 1) * 6)"

definition digit :: "nat \<Rightarrow> nat \<Rightarrow> nat" where
  "digit e l = e div 2 ^ sh l mod 2 ^ (sh (l + 1) - sh l)"

text \<open>The level of the highest digit in which two times differ (0 also when none does).\<close>

definition lev :: "nat \<Rightarrow> nat \<Rightarrow> nat" where
  "lev e t = (if e div 2 ^ 8 = t div 2 ^ 8 then 0
     else if e div 2 ^ 14 = t div 2 ^ 14 then 1
     else if e div 2 ^ 20 = t div 2 ^ 20 then 2
     else if e div 2 ^ 26 = t div 2 ^ 26 then 3 else 4)"

lemma or_mask_eq_iff:
  fixes a b :: "'a::len word"
  shows "a OR mask k = b OR mask k \<longleftrightarrow> unat a div 2 ^ k = unat b div 2 ^ k"
proof -
  have "a OR mask k = b OR mask k \<longleftrightarrow> drop_bit k a = drop_bit k b"
  proof
    assume eq: "a OR mask k = b OR mask k"
    show "drop_bit k a = drop_bit k b"
    proof (rule bit_word_eqI)
      fix n assume "n < LENGTH('a)"
      from arg_cong [OF eq, of "\<lambda>w. bit w (k + n)"]
      show "bit (drop_bit k a) n = bit (drop_bit k b) n"
        by (auto simp: bit_simps)
    qed
  next
    assume eq: "drop_bit k a = drop_bit k b"
    show "a OR mask k = b OR mask k"
    proof (rule bit_word_eqI)
      fix n assume n: "n < LENGTH('a)"
      have "bit a n = bit b n" if "k \<le> n"
        using arg_cong [OF eq, of "\<lambda>w. bit w (n - k)"] that by (simp add: bit_simps)
      then show "bit (a OR mask k) n = bit (b OR mask k) n" using n
        by (auto simp: bit_simps)
    qed
  qed
  also have "\<dots> \<longleftrightarrow> unat (drop_bit k a) = unat (drop_bit k b)"
    by (rule word_eq_iff_unsigned)
  finally show ?thesis by (simp only: unat_drop_bit_div)
qed

lemma masks: "TIME_NEAR_MASK = mask 8" "TIME_LEVEL_MASK = mask 6" "TIME_NEAR = 2 ^ 8"
  by (simp_all add: TIME_NEAR_MASK_def TIME_LEVEL_MASK_def TIME_NEAR_def TIME_LEVEL_def
      TIME_NEAR_SHIFT_def TIME_LEVEL_SHIFT_def mask_eq_exp_minus_1)

lemma find_level_step:
  "find_level e t i (2 ^ k) =
    (if i < 3 then if unat e div 2 ^ k = unat t div 2 ^ k then i
       else find_level e t (Suc i) (2 ^ (k + 6)) else i)"
proof -
  have "push_bit TIME_LEVEL_SHIFT (2 ^ k) = (2 ^ (k + 6) :: u32)"
    by (simp only: TIME_LEVEL_SHIFT_def push_bit_eq_mult power_add)
  then show ?thesis
    by (simp only: find_level.simps [of e t i] mask_eq_exp_minus_1 [symmetric] or_mask_eq_iff
        Suc_eq_plus1)
qed

lemma find_level_lev:
  assumes "unat e div 2 ^ 8 \<noteq> unat t div 2 ^ 8"
  shows "find_level e t 0 (push_bit TIME_LEVEL_SHIFT TIME_NEAR) + 1 = lev (unat e) (unat t)"
proof -
  have p: "push_bit TIME_LEVEL_SHIFT TIME_NEAR = 2 ^ 14"
    by (simp add: masks TIME_LEVEL_SHIFT_def push_bit_eq_mult)
  have c: "find_level e t 3 (2 ^ 32) = 3" by (simp add: find_level.simps [of e t 3])
  have k: "14 + 6 = (20::nat)" "20 + 6 = (26::nat)" "26 + 6 = (32::nat)" "Suc 0 = 1" "Suc 1 = 2" "Suc 2 = 3"
    "(0::nat) < 3" "(1::nat) < 3" "(2::nat) < 3" by simp_all
  have "find_level e t 0 (2 ^ 14) = (if unat e div 2 ^ 14 = unat t div 2 ^ 14 then 0
      else if unat e div 2 ^ 20 = unat t div 2 ^ 20 then 1
      else if unat e div 2 ^ 26 = unat t div 2 ^ 26 then 2 else 3)"
    by (simp only: find_level_step [of e t 0 14] find_level_step [of e t 1 20]
        find_level_step [of e t 2 26] c k if_True)
  then show ?thesis unfolding p using assms
    by (simp only: lev_def if_False if_distrib [where f = "\<lambda>x. x + 1"]) (simp only: add_0 one_add_one numeral_plus_one add_num_simps)
qed

text \<open>\<open>add_node\<close> links the node into the list of its level and digit.\<close>

lemma add_node_slot:
  "tslot (add_node T n) l i =
    (if l = lev (unat (tn_expire n)) (unat (now T)) \<and> i = digit (unat (tn_expire n)) l
     then tslot T l i @ [n] else tslot T l i)"
  "now (add_node T n) = now T"
proof -
  let ?e = "unat (tn_expire n)" and ?t = "unat (now T)"
  have near_case: "tn_expire n OR TIME_NEAR_MASK = now T OR TIME_NEAR_MASK \<longleftrightarrow> lev ?e ?t = 0"
    by (simp only: masks or_mask_eq_iff) (simp add: lev_def)
  show "now (add_node T n) = now T"
    by (simp add: add_node_def Let_def link_near_def link_wheel_def)
  show "tslot (add_node T n) l i =
    (if l = lev ?e ?t \<and> i = digit ?e l then tslot T l i @ [n] else tslot T l i)"
  proof (cases "lev ?e ?t = 0")
    case True
    have "unat (tn_expire n AND TIME_NEAR_MASK) = digit ?e 0"
      by (simp only: masks unat_and_mask) (simp add: digit_def sh_def)
    then have "add_node T n = link_near T (digit ?e 0) n"
      using True near_case by (simp only: add_node_def Let_def simp_thms if_True)
    then show ?thesis using True by (auto simp: link_near_def tslot_def)
  next
    case False
    let ?f = "find_level (tn_expire n) (now T) 0 (push_bit TIME_LEVEL_SHIFT TIME_NEAR)"
    have f: "?f + 1 = lev ?e ?t"
      using find_level_lev [of "tn_expire n" "now T"] False by (simp add: lev_def split: if_splits)
    have "unat (drop_bit (TIME_NEAR_SHIFT + ?f * TIME_LEVEL_SHIFT) (tn_expire n) AND TIME_LEVEL_MASK)
        = digit ?e (?f + 1)"
      by (simp only: masks unat_and_mask unat_drop_bit_div)
        (simp add: digit_def sh_def TIME_NEAR_SHIFT_def TIME_LEVEL_SHIFT_def)
    then have "add_node T n = link_wheel T ?f (digit ?e (?f + 1)) n"
      using False near_case by (simp only: add_node_def Let_def simp_thms if_False)
    then show ?thesis unfolding f [symmetric] by (auto simp: link_wheel_def tslot_def)
  qed
qed

section \<open>Places and the list that a tick moves\<close>

definition place :: "nat \<Rightarrow> nat \<Rightarrow> nat \<times> nat" where
  "place e t = (lev e t, digit e (lev e t))"

text \<open>The list that \<open>timer_shift\<close> moves when the clock becomes \<open>t\<close>.\<close>

definition moved :: "nat \<Rightarrow> (nat \<times> nat) option" where
  "moved t = (if t = 0 then Some (4, 0)
     else if t mod 256 \<noteq> 0 then None
     else if digit t 1 \<noteq> 0 then Some (1, digit t 1)
     else if digit t 2 \<noteq> 0 then Some (2, digit t 2)
     else if digit t 3 \<noteq> 0 then Some (3, digit t 3)
     else Some (4, digit t 4))"

text \<open>The time from \<open>t\<close> to \<open>e\<close> on the clock.\<close>

definition dist :: "nat \<Rightarrow> nat \<Rightarrow> nat" where
  "dist e t = (if t \<le> e then e - t else 4294967296 + e - t)"

lemma digit_values: "digit e 0 = e mod 256" "digit e 1 = e div 256 mod 64" "digit e (Suc 0) = e div 256 mod 64"
  "digit e 2 = e div 16384 mod 64" "digit e 3 = e div 1048576 mod 64" "digit e 4 = e div 67108864 mod 64"
  by (simp_all add: digit_def sh_def)

lemma lev_values: "lev e t = (if e div 256 = t div 256 then 0
     else if e div 16384 = t div 16384 then 1
     else if e div 1048576 = t div 1048576 then 2
     else if e div 67108864 = t div 67108864 then 3 else 4)"
  by (simp add: lev_def)

lemma block_stays:
  "t < e \<Longrightarrow> e div m = t div m \<Longrightarrow> Suc t div m = (t::nat) div m"
  by (metis Suc_leI div_le_mono le_SucI le_antisym le_refl)

lemma block_crossed:
  "e div k \<noteq> t div k \<Longrightarrow> e div k = Suc t div k \<Longrightarrow> Suc t mod k = 0"
  by (auto simp: div_Suc split: if_splits)

lemma crossed_digit:
  "Suc t mod k = 0 \<Longrightarrow> Suc t div (k * b) = t div (k * b) \<Longrightarrow> 0 < k \<Longrightarrow> 0 < b \<Longrightarrow> Suc t div k mod b \<noteq> 0"
  by (auto simp: div_mult2_eq div_Suc mod_Suc split: if_splits)

lemma digits_below: "(t::nat) mod (a * b) = 0 \<Longrightarrow> 0 < a \<Longrightarrow> t div a mod b = 0 \<and> t mod a = 0"
  by (simp add: mod_mult2_eq)

lemma coarser:
  "(e::nat) div 256 = x div 256 \<Longrightarrow> e div 16384 = x div 16384"
  "(e::nat) div 16384 = x div 16384 \<Longrightarrow> e div 1048576 = x div 1048576"
  "(e::nat) div 1048576 = x div 1048576 \<Longrightarrow> e div 67108864 = x div 67108864"
  using div_mult2_eq [of e 256 64] div_mult2_eq [of x 256 64] div_mult2_eq [of e 16384 64]
    div_mult2_eq [of x 16384 64] div_mult2_eq [of e 1048576 64] div_mult2_eq [of x 1048576 64]
  by simp_all

lemma lev_at:
  "e div 256 = x div 256 \<Longrightarrow> lev e x = 0"
  "e div 256 \<noteq> x div 256 \<Longrightarrow> e div 16384 = x div 16384 \<Longrightarrow> lev e x = 1"
  "e div 16384 \<noteq> x div 16384 \<Longrightarrow> e div 1048576 = x div 1048576 \<Longrightarrow> lev e x = 2"
  "e div 1048576 \<noteq> x div 1048576 \<Longrightarrow> e div 67108864 = x div 67108864 \<Longrightarrow> lev e x = 3"
  "e div 67108864 \<noteq> x div 67108864 \<Longrightarrow> lev e x = 4"
  using coarser [of e x] by (simp_all only: lev_values simp_thms if_True if_False) metis+

lemmas lev_4 = lev_at(5)

lemma place_changes_up:
  assumes "e < 4294967296" "t < e" and ch: "lev e (Suc t) \<noteq> lev e t"
  shows "moved (Suc t) = Some (place e t)"
proof -
  note stay = block_stays [OF assms(2)]
  have z: "e div (67108864 * 64) = t div (67108864 * 64)" using assms by simp
  have main: "moved (Suc t) = Some (place e t)"
    if "e div k \<noteq> t div k" "e div k = Suc t div k" "e div (k * 64) = t div (k * 64)"
      "k = 256 \<or> k = 16384 \<or> k = 1048576 \<or> k = 67108864" for k
  proof -
    note m = block_crossed [OF that(1,2)]
    have d: "Suc t div k mod 64 \<noteq> 0"
      by (rule crossed_digit [OF m]) (use stay [OF that(3)] that(4) in auto)
    from that(4) show ?thesis
    proof (elim disjE)
      assume k: "k = 256"
      from that(1-3) m d show ?thesis unfolding k
        by (simp add: moved_def place_def lev_values digit_values)
    next
      assume k: "k = 16384"
      have "Suc t div 256 mod 64 = 0 \<and> Suc t mod 256 = 0"
        using digits_below [of "Suc t" 256 64] m unfolding k by simp
      then have "moved (Suc t) = Some (2, digit (Suc t) 2)"
        using d unfolding k by (simp only: moved_def digit_values simp_thms if_True if_False nat.distinct)
      moreover have "lev e t = 2" using that(1,3) unfolding k by (intro lev_at(3)) simp_all
      ultimately show ?thesis using that(2) unfolding k
        by (simp only: place_def digit_values)
    next
      assume k: "k = 1048576"
      have z1: "Suc t div 16384 mod 64 = 0 \<and> Suc t mod 16384 = 0"
        using digits_below [of "Suc t" 16384 64] m unfolding k by simp
      then have "Suc t div 256 mod 64 = 0 \<and> Suc t mod 256 = 0"
        using digits_below [of "Suc t" 256 64] by simp
      then have "moved (Suc t) = Some (3, digit (Suc t) 3)"
        using z1 d unfolding k by (simp only: moved_def digit_values simp_thms if_True if_False nat.distinct)
      moreover have "lev e t = 3" using that(1,3) unfolding k by (intro lev_at(4)) simp_all
      ultimately show ?thesis using that(2) unfolding k
        by (simp only: place_def digit_values)
    next
      assume k: "k = 67108864"
      have z2: "Suc t div 1048576 mod 64 = 0 \<and> Suc t mod 1048576 = 0"
        using digits_below [of "Suc t" 1048576 64] m unfolding k by simp
      then have z1: "Suc t div 16384 mod 64 = 0 \<and> Suc t mod 16384 = 0"
        using digits_below [of "Suc t" 16384 64] by simp
      then have "Suc t div 256 mod 64 = 0 \<and> Suc t mod 256 = 0"
        using digits_below [of "Suc t" 256 64] by simp
      then have "moved (Suc t) = Some (4, digit (Suc t) 4)"
        using z1 z2 by (simp only: moved_def digit_values simp_thms if_True if_False nat.distinct)
      moreover have "lev e t = 4" using that(1) unfolding k by (rule lev_at(5))
      ultimately show ?thesis using that(2) unfolding k
        by (simp only: place_def digit_values)
    qed
  qed
  have "\<exists>k. e div k \<noteq> t div k \<and> e div k = Suc t div k \<and> e div (k * 64) = t div (k * 64) \<and>
      (k = 256 \<or> k = 16384 \<or> k = 1048576 \<or> k = 67108864)"
  proof (cases "e div 256 = t div 256")
    case True
    then show ?thesis using lev_at(1) stay [OF True] ch by metis
  next
    case 1: False
    show ?thesis
    proof (cases "e div 16384 = t div 16384")
      case True
      then have "e div 256 = Suc t div 256" using 1 stay [OF True] ch lev_at(2) by metis
      with 1 True show ?thesis by (intro exI [of _ 256]) simp
    next
      case 2: False
      show ?thesis
      proof (cases "e div 1048576 = t div 1048576")
        case True
        then have "e div 16384 = Suc t div 16384" using 2 stay [OF True] ch lev_at(3) by metis
        with 2 True show ?thesis by (intro exI [of _ 16384]) simp
      next
        case 3: False
        show ?thesis
        proof (cases "e div 67108864 = t div 67108864")
          case True
          then have "e div 1048576 = Suc t div 1048576" using 3 stay [OF True] ch lev_at(4) by metis
          with 3 True show ?thesis by (intro exI [of _ 1048576]) simp
        next
          case 4: False
          then have "e div 67108864 = Suc t div 67108864" using ch lev_at(5) by metis
          then show ?thesis using 4 z by (intro exI [of _ 67108864]) simp
        qed
      qed
    qed
  qed
  then show ?thesis using main by blast
qed

text \<open>A node whose place changes with the clock is in the list that is moved.\<close>

lemma place_changes:
  assumes "e < 4294967296" "t < 4294967296" "1 \<le> dist e t" "dist e t < 2147483648"
    and t': "t' = (if t = 4294967295 then 0 else Suc t)"
    and ch: "place e t' \<noteq> place e t"
  shows "moved t' = Some (place e t)"
proof (cases "t < e")
  case True
  with assms have "t' = Suc t" by auto
  with place_changes_up [OF assms(1) True] ch show ?thesis by (auto simp: place_def)
next
  case False
  with assms(3,4) have lt: "e < t" "4294967296 + e - t < 2147483648" by (auto simp: dist_def split: if_splits)
  have ne: "e div 67108864 < t div 67108864"
    using lt assms(1,2) by linarith
  then have l4: "lev e t = 4" by (intro lev_4) simp
  show ?thesis
  proof (cases "t' = 0")
    case True
    with ch l4 have "lev e 0 \<noteq> 4" by (auto simp: place_def)
    then have "e div 67108864 = 0" using lev_4 [of e 0] by (metis div_0)
    with True l4 show ?thesis by (simp add: moved_def place_def digit_values)
  next
    case f: False
    with t' have s: "t' = Suc t" by (auto split: if_splits)
    have "t div 67108864 \<le> t' div 67108864" unfolding s by (rule div_le_mono) simp
    with ne have "lev e t' = 4" by (intro lev_4) linarith
    with l4 ch show ?thesis by (simp add: place_def)
  qed
qed

section \<open>The moving loop\<close>

lemma mask_test: "ct AND ((2 ^ k :: u32) - 1) = 0 \<longleftrightarrow> unat ct mod 2 ^ k = 0"
  using unat_and_pred_power [of ct k] by (metis unat_eq_zero)

lemma shift_loop_step:
  assumes "K = 2 ^ k" "k' = k + 6" "i' = i + 1"
  shows "shift_loop T ct (2 ^ k) (drop_bit k ct) i =
    (if unat ct mod K = 0 then
       if unat ct div K mod 64 \<noteq> 0 then Some (move_list T i (unat ct div K mod 64))
       else shift_loop T ct (2 ^ k') (drop_bit k' ct) i'
     else Some T)"
proof -
  have p: "push_bit TIME_LEVEL_SHIFT (2 ^ k) = (2 ^ (k + 6) :: u32)"
    by (simp only: TIME_LEVEL_SHIFT_def push_bit_eq_mult power_add)
  have d: "drop_bit TIME_LEVEL_SHIFT (drop_bit k ct) = drop_bit (k + 6) ct"
    by (simp add: TIME_LEVEL_SHIFT_def add.commute)
  have "unat (drop_bit k ct AND TIME_LEVEL_MASK) = unat ct div 2 ^ k mod 2 ^ 6"
    by (simp only: masks unat_and_mask unat_drop_bit_div)
  then have x: "unat (drop_bit k ct AND TIME_LEVEL_MASK) = unat ct div 2 ^ k mod 64" by simp
  show ?thesis unfolding assms
    by (subst shift_loop.simps) (simp only: Let_def mask_test p d x)
qed

lemma next_block: "c = a * b \<Longrightarrow> n mod a = 0 \<Longrightarrow> n div a mod b = 0 \<Longrightarrow> (n::nat) mod c = 0"
  by (simp add: mod_mult2_eq)

lemma timer_shift_eq:
  "timer_shift T =
    (let T' = T\<lparr>now := now T + 1\<rparr>
     in Some (case moved (unat (now T + 1)) of None \<Rightarrow> T' | Some (l, i) \<Rightarrow> move_list T' (l - 1) i))"
proof -
  let ?ct = "now T + 1" and ?T = "T\<lparr>now := now T + 1\<rparr>"
  let ?n = "unat ?ct"
  have b: "?n < 4294967296" using unsigned_less [of ?ct, where ?'a = nat] by simp
  show ?thesis
  proof (cases "?ct = 0")
    case True
    then show ?thesis by (simp add: timer_shift_def moved_def Let_def)
  next
    case False
    then have pos: "?n \<noteq> 0" by (simp add: unat_eq_zero)
    have start: "timer_shift T = shift_loop ?T ?ct (2 ^ 8) (drop_bit 8 ?ct) 0"
      using False by (simp add: timer_shift_def Let_def masks TIME_NEAR_SHIFT_def)
    have s: "256 = (2::nat) ^ 8" "16384 = (2::nat) ^ 14" "1048576 = (2::nat) ^ 20" "67108864 = (2::nat) ^ 26"
      "14 = 8 + (6::nat)" "20 = 14 + (6::nat)" "26 = 20 + (6::nat)" "32 = 26 + (6::nat)"
      "1 = 0 + (1::nat)" "2 = 1 + (1::nat)" "3 = 2 + (1::nat)" "4 = 3 + (1::nat)" by simp_all
    note s1 = shift_loop_step [OF s(1,5,9), of ?T ?ct] and s2 = shift_loop_step [OF s(2,6,10), of ?T ?ct]
      and s3 = shift_loop_step [OF s(3,7,11), of ?T ?ct] and s4 = shift_loop_step [OF s(4,8,12), of ?T ?ct]
    have one_diff: "(1::nat) - 1 = 0" "(2::nat) - 1 = 1" "(3::nat) - 1 = 2" "(4::nat) - 1 = 3" by simp_all
    have m64: "16384 = 256 * (64::nat)" "1048576 = 16384 * (64::nat)" "67108864 = 1048576 * (64::nat)"
      "4294967296 = 67108864 * (64::nat)" by simp_all
    note z = m64 [THEN next_block, of ?n]
    have last: "?n mod 67108864 = 0 \<Longrightarrow> ?n div 67108864 mod 64 \<noteq> 0"
      using z(4) b pos by (metis mod_less)
    note ev = start moved_def digit_values Let_def simp_thms if_True if_False option.case prod.case
      diff_add_inverse2 diff_self_eq_0 one_diff
    show ?thesis
    proof (cases "?n mod 256 = 0")
      case c0: True
      show ?thesis
      proof (cases "?n div 256 mod 64 = 0")
        case c1: True
        note m1 = z(1) [OF c0 c1]
        show ?thesis
        proof (cases "?n div 16384 mod 64 = 0")
          case c2: True
          note m2 = z(2) [OF m1 c2]
          show ?thesis
          proof (cases "?n div 1048576 mod 64 = 0")
            case c3: True
            note m3 = z(3) [OF m2 c3]
            show ?thesis using s1 s2 s3 s4 c0 c1 m1 c2 m2 c3 m3 last [OF m3] pos
              by (simp only: ev)
          qed (use s1 s2 s3 c0 c1 m1 c2 m2 pos in \<open>simp only: ev\<close>)
        qed (use s1 s2 c0 c1 m1 pos in \<open>simp only: ev\<close>)
      qed (use s1 c0 pos in \<open>simp only: ev\<close>)
    qed (use s1 pos in \<open>simp only: ev\<close>)
  qed
qed

section \<open>Pending nodes\<close>

abbreviation exp_nat :: "timer_node \<Rightarrow> nat" where
  "exp_nat n \<equiv> unat (tn_expire n)"

lemma exp_nat_less: "unat (w::u32) < 4294967296"
  using unsigned_less [of w, where ?'a = nat] by simp

lemma dist_word: "dist (unat a) (unat b) = unat (a - b :: u32)"
  using exp_nat_less [of a] exp_nat_less [of b]
  by (auto simp: dist_def unat_sub_if_size word_le_nat_alt unat_word_ariths word_size)

definition wheel_inv :: "timer \<Rightarrow> bool" where
  "wheel_inv T \<longleftrightarrow> (\<forall>l i. \<forall>n \<in> set (tslot T l i).
     place (exp_nat n) (unat (now T)) = (l, i) \<and>
     1 \<le> dist (exp_nat n) (unat (now T)) \<and> dist (exp_nat n) (unat (now T)) < 2147483648)"

text \<open>The nodes that expire at \<open>e\<close>, in the order in which they were added.\<close>

definition pending :: "timer \<Rightarrow> u32 \<Rightarrow> timer_node list" where
  "pending T e = filter (\<lambda>n. tn_expire n = e)
     (case place (unat e) (unat (now T)) of (l, i) \<Rightarrow> tslot T l i)"

lemma foldl_add_node:
  "tslot (foldl add_node T ns) l i =
     tslot T l i @ filter (\<lambda>n. place (exp_nat n) (unat (now T)) = (l, i)) ns"
  "now (foldl add_node T ns) = now T"
proof (induction ns arbitrary: T)
  case Nil
  { case 1 then show ?case by simp }
  { case 2 then show ?case by simp }
next
  case (Cons n ns)
  { case 1 show ?case using Cons.IH(1) [of "add_node T n"]
      by (auto simp: add_node_slot place_def) }
  { case 2 show ?case using Cons.IH(2) [of "add_node T n"] by (simp add: add_node_slot) }
qed

lemma move_list_slot:
  assumes "1 \<le> l" 
  shows "tslot (move_list T (l - 1) i) l' i' =
     (if (l', i') = (l, i) then [] else tslot T l' i') @
     filter (\<lambda>n. place (exp_nat n) (unat (now T)) = (l', i')) (tslot T l i)"
  "now (move_list T (l - 1) i) = now T"
proof -
  let ?C = "snd (link_clear_wheel T (l - 1) i)"
  have c: "move_list T (l - 1) i = foldl add_node ?C (tslot T l i)" "now ?C = now T"
    "tslot ?C l' i' = (if (l', i') = (l, i) then [] else tslot T l' i')"
    using assms by (auto simp: move_list_def link_clear_wheel_def tslot_def)
  show "tslot (move_list T (l - 1) i) l' i' =
     (if (l', i') = (l, i) then [] else tslot T l' i') @
     filter (\<lambda>n. place (exp_nat n) (unat (now T)) = (l', i')) (tslot T l i)"
    "now (move_list T (l - 1) i) = now T"
    using c by (simp_all add: foldl_add_node)
qed

lemma moved_level: "moved t = Some (l, i) \<Longrightarrow> 1 \<le> l"
  by (auto simp: moved_def split: if_splits)

lemma tick_nat: "unat (t + 1 :: u32) = (if unat t = 4294967295 then 0 else Suc (unat t))"
  using exp_nat_less [of t] by (auto simp: unat_word_ariths mod_Suc)

text \<open>After the shift every node is in its place for the new time, in order.\<close>

lemma shift_ok:
  assumes inv: "wheel_inv T" and "timer_shift T = Some T'"
  shows "now T' = now T + 1"
    "\<And>l i n. n \<in> set (tslot T' l i) \<Longrightarrow> place (exp_nat n) (unat (now T')) = (l, i)
       \<and> 1 \<le> dist (exp_nat n) (unat (now T)) \<and> dist (exp_nat n) (unat (now T)) < 2147483648"
    "\<And>e. pending T' e = pending T e"
proof -
  let ?t = "unat (now T)" and ?t' = "unat (now T + 1)" and ?N = "T\<lparr>now := now T + 1\<rparr>"
  have slotN [simp]: "tslot ?N l i = tslot T l i" for l i by (simp add: tslot_def)
  have inv: "n \<in> set (tslot T l i) \<Longrightarrow> place (exp_nat n) ?t = (l, i)
       \<and> 1 \<le> dist (exp_nat n) ?t \<and> dist (exp_nat n) ?t < 2147483648" for n l i
    using inv unfolding wheel_inv_def by blast
  have stay: "place (exp_nat n) ?t' = (l, i)" if "n \<in> set (tslot T l i)" "moved ?t' \<noteq> Some (l, i)" for n l i
    using place_changes [OF exp_nat_less exp_nat_less _ _ tick_nat, of "tn_expire n" "now T"] inv [OF that(1)] that(2)
    by metis
  have T': "T' = (case moved ?t' of None \<Rightarrow> ?N | Some (l, i) \<Rightarrow> move_list ?N (l - 1) i)"
    using assms(2) by (simp add: timer_shift_eq Let_def)
  have mv: "now (move_list ?N (l - Suc 0) i) = now T + 1"
    "tslot (move_list ?N (l - Suc 0) i) l' i' = (if (l', i') = (l, i) then [] else tslot T l' i') @
      filter (\<lambda>n. place (exp_nat n) ?t' = (l', i')) (tslot T l i)"
    if "moved ?t' = Some (l, i)" for l i l' i'
    using move_list_slot [OF moved_level [OF that], of ?N i] by simp_all
  show nowT': "now T' = now T + 1"
    unfolding T' by (auto simp: mv split: option.split)
  have slot': "tslot T' l' i' = (case moved ?t' of None \<Rightarrow> tslot T l' i' | Some s \<Rightarrow>
      (if (l', i') = s then [] else tslot T l' i') @
       filter (\<lambda>n. place (exp_nat n) ?t' = (l', i')) (tslot T (fst s) (snd s)))" for l' i'
    unfolding T' by (auto simp: mv split: option.split)
  show "place (exp_nat n) (unat (now T')) = (l, i)
       \<and> 1 \<le> dist (exp_nat n) ?t \<and> dist (exp_nat n) ?t < 2147483648"
    if "n \<in> set (tslot T' l i)" for l i n
  proof (cases "moved ?t'")
    case None
    with that stay [of n l i] inv [of n l i] show ?thesis by (auto simp: slot' nowT')
  next
    case (Some s)
    with that have "(n \<in> set (tslot T l i) \<and> (l, i) \<noteq> s) \<or>
        (n \<in> set (tslot T (fst s) (snd s)) \<and> place (exp_nat n) ?t' = (l, i))"
      by (auto simp: slot' split: if_splits)
    with stay [of n l i] inv [of n] Some show ?thesis unfolding nowT' by auto
  qed
  show "pending T' e = pending T e" for e
  proof -
    obtain l i where p: "place (unat e) ?t = (l, i)" by force
    obtain l' i' where p': "place (unat e) ?t' = (l', i')" by force
    have only: "filter (\<lambda>n. tn_expire n = e) (tslot T a b) = []" if "(a, b) \<noteq> (l, i)" for a b
      using inv [of _ a b] p that by (auto simp: filter_empty_conv)
    have sel: "filter (\<lambda>n. place (exp_nat n) ?t' = (l', i') \<and> tn_expire n = e) xs
        = filter (\<lambda>n. tn_expire n = e) xs" for xs
      using p' by (intro filter_cong) auto
    show ?thesis
    proof (cases "filter (\<lambda>n. tn_expire n = e) (tslot T l i) = []")
      case True
      then have "filter (\<lambda>n. tn_expire n = e) (tslot T a b) = []" for a b
        using only by (cases "(a, b) = (l, i)") auto
      then show ?thesis
        by (auto simp: pending_def nowT' p p' slot' sel split: option.split)
    next
      case False
      then obtain n where n: "n \<in> set (tslot T l i)" "tn_expire n = e"
        by (auto simp: filter_empty_conv)
      have "(l', i') = (l, i) \<or> moved ?t' = Some (l, i)"
        using stay [OF n(1)] n(2) p' by auto
      then show ?thesis using only
        by (auto simp: pending_def nowT' p p' slot' sel split: option.split)
    qed
  qed
qed


section \<open>A tick\<close>

lemma execute_empty:
  "near T (unat (now T AND TIME_NEAR_MASK)) = [] \<Longrightarrow> timer_execute T out = Some (out, T)"
  by (subst timer_execute.simps) simp

lemma execute_eq:
  "timer_execute T out = Some (out @ tslot T 0 (digit (unat (now T)) 0),
     T\<lparr>near := (near T)(digit (unat (now T)) 0 := [])\<rparr>)"
proof -
  have i: "unat (now T AND TIME_NEAR_MASK) = digit (unat (now T)) 0"
    by (simp only: masks unat_and_mask digit_def sh_def) simp
  show ?thesis
  proof (cases "near T (digit (unat (now T)) 0) = []")
    case True
    then have "(near T)(digit (unat (now T)) 0 := []) = near T" by auto
    then show ?thesis using True execute_empty [of T out] by (simp add: i tslot_def)
  next
    case False
    let ?T = "T\<lparr>near := (near T)(digit (unat (now T)) 0 := [])\<rparr>"
    have "timer_execute T out = timer_execute ?T (out @ near T (digit (unat (now T)) 0))"
      by (subst timer_execute.simps) (simp add: i False link_clear_near_def Let_def)
    then show ?thesis using execute_empty [of ?T] by (simp add: i tslot_def)
  qed
qed

lemma digit_0_lev_0: "lev e t = 0 \<Longrightarrow> digit e 0 = digit t 0 \<Longrightarrow> e = t"
proof -
  assume "lev e t = 0" "digit e 0 = digit t 0"
  then have "e div 256 = t div 256" "e mod 256 = t mod 256"
    by (simp_all only: lev_values digit_values split: if_splits)
  then show "e = t" by (metis div_mult_mod_eq)
qed

lemma update_ok:
  assumes inv: "wheel_inv T"
  obtains T' where "timer_update T = Some (pending T (now T + 1), T')" "now T' = now T + 1" "wheel_inv T'"
    "\<And>e. e \<noteq> now T + 1 \<Longrightarrow> pending T' e = pending T e"
    "pending T' (now T + 1) = []"
proof -
  let ?i = "digit (unat (now T)) 0"
  have "tslot T 0 ?i = []"
  proof (rule ccontr)
    assume "tslot T 0 ?i \<noteq> []"
    then obtain n where n: "n \<in> set (tslot T 0 ?i)" by (meson hd_in_set)
    then have "place (exp_nat n) (unat (now T)) = (0, ?i)" "1 \<le> dist (exp_nat n) (unat (now T))"
      using inv unfolding wheel_inv_def by blast+
    then show False using digit_0_lev_0 [of "exp_nat n" "unat (now T)"] by (auto simp: place_def dist_def)
  qed
  then have e1: "timer_execute T [] = Some ([], T)"
    using execute_eq [of T "[]"] by (simp add: tslot_def fun_upd_idem)
  obtain T2 where T2: "timer_shift T = Some T2"
    by (simp add: timer_shift_eq Let_def)
  note shift = shift_ok [OF inv T2]
  let ?t = "unat (now T2)"
  let ?j = "digit ?t 0"
  let ?T3 = "T2\<lparr>near := (near T2)(?j := [])\<rparr>"
  have here: "place e ?t = (0, ?j) \<longleftrightarrow> e = ?t" for e
    using digit_0_lev_0 [of e ?t] by (auto simp: place_def lev_values)
  have out: "tslot T2 0 ?j = pending T (now T + 1)"
  proof -
    have "pending T2 (now T2) = filter (\<lambda>n. tn_expire n = now T2) (tslot T2 0 ?j)"
      using here [of ?t] by (simp add: pending_def split: prod.splits)
    also have "\<dots> = tslot T2 0 ?j"
    proof -
      have "tn_expire n = now T2" if "n \<in> set (tslot T2 0 ?j)" for n
        using shift(2) [OF that] here [of "exp_nat n"]
        by (metis word_eq_iff_unsigned)
      then show ?thesis by simp
    qed
    finally have "tslot T2 0 ?j = pending T2 (now T2)" by (rule sym)
    then show ?thesis by (simp add: shift)
  qed
  have slot3: "tslot ?T3 l i = (if (l, i) = (0, ?j) then [] else tslot T2 l i)" for l i
    by (auto simp: tslot_def)
  have "timer_update T = Some (pending T (now T + 1), ?T3)"
    by (simp add: timer_update_def e1 T2 execute_eq [of T2] out)
  moreover have "now ?T3 = now T + 1" by (simp add: shift)
  moreover have "wheel_inv ?T3"
    unfolding wheel_inv_def
  proof (intro allI ballI)
    fix l i n assume n: "n \<in> set (tslot ?T3 l i)"
    then have ne: "(l, i) \<noteq> (0, ?j)" "n \<in> set (tslot T2 l i)" by (auto simp: slot3 split: if_splits)
    note p = shift(2) [OF ne(2)]
    have "exp_nat n \<noteq> ?t" using p ne(1) here [of ?t] by auto
    then have ne_w: "tn_expire n - now T2 \<noteq> 0" by auto
    have "tn_expire n - now T2 = (tn_expire n - now T) - 1" by (simp add: shift)
    moreover have "tn_expire n - now T \<noteq> 0" using p by (auto simp: dist_word)
    ultimately have "unat (tn_expire n - now T2) = unat (tn_expire n - now T) - 1"
      using unat_minus_one [of "tn_expire n - now T"] by (simp only: simp_thms)
    moreover have "unat (tn_expire n - now T2) \<noteq> 0" using ne_w by (simp add: unat_eq_zero)
    ultimately show "place (exp_nat n) (unat (now ?T3)) = (l, i) \<and>
      1 \<le> dist (exp_nat n) (unat (now ?T3)) \<and> dist (exp_nat n) (unat (now ?T3)) < 2147483648"
      using p by (auto simp: dist_word)
  qed
  moreover have "pending ?T3 e = pending T e" if "e \<noteq> now T + 1" for e
  proof -
    have "place (unat e) ?t \<noteq> (0, ?j)" using that here [of "unat e"] unfolding shift(1) by (metis word_eq_iff_unsigned)
    then show ?thesis using shift(3) [of e] by (auto simp: pending_def slot3 split: prod.splits)
  qed
  moreover have "pending ?T3 (now T + 1) = []"
  proof -
    have "pending ?T3 (now T2) = []"
      using here [of ?t] by (simp add: pending_def slot3 split: prod.splits)
    then show ?thesis using shift(1) by metis
  qed
  ultimately show thesis by (rule that)
qed


lemma add_ok:
  assumes inv: "wheel_inv T" and d: "1 \<le> unat d" "unat d < 2147483648"
  shows "wheel_inv (timer_add T x d)" "now (timer_add T x d) = now T"
    "pending (timer_add T x d) e =
       pending T e @ (if e = now T + d then [\<lparr>tn_expire = now T + d, tn_event = x\<rparr>] else [])"
proof -
  let ?n = "\<lparr>tn_expire = d + now T, tn_event = x\<rparr>"
  show now: "now (timer_add T x d) = now T" by (simp add: timer_add_def add_node_slot)
  have slot: "tslot (timer_add T x d) l i = (if place (unat (d + now T)) (unat (now T)) = (l, i)
      then tslot T l i @ [?n] else tslot T l i)" for l i
    by (auto simp: timer_add_def add_node_slot place_def)
  show "wheel_inv (timer_add T x d)"
    unfolding wheel_inv_def now
  proof (intro allI ballI)
    fix l i n assume "n \<in> set (tslot (timer_add T x d) l i)"
    then have "n \<in> set (tslot T l i) \<or> n = ?n \<and> place (unat (d + now T)) (unat (now T)) = (l, i)"
      by (auto simp: slot split: if_splits)
    then show "place (exp_nat n) (unat (now T)) = (l, i) \<and> 1 \<le> dist (exp_nat n) (unat (now T)) \<and>
        dist (exp_nat n) (unat (now T)) < 2147483648"
      using inv d unfolding wheel_inv_def by (auto simp: dist_word)
  qed
  show "pending (timer_add T x d) e =
       pending T e @ (if e = now T + d then [\<lparr>tn_expire = now T + d, tn_event = x\<rparr>] else [])"
    unfolding pending_def now by (auto simp: slot add.commute split: prod.split)
qed

lemma create_inv: "wheel_inv timer_create_timer" "pending timer_create_timer e = []"
  by (auto simp: wheel_inv_def timer_create_timer_def tslot_def pending_def split: prod.split)

lemma pending_far: "wheel_inv T \<Longrightarrow> \<not> (1 \<le> unat (e - now T) \<and> unat (e - now T) < 2147483648) \<Longrightarrow> pending T e = []"
  unfolding pending_def filter_empty_conv wheel_inv_def by (auto simp: dist_word split: prod.split)

section \<open>The interface of a deadline queue\<close>

text \<open>
  An event is added with a delay; a tick returns the events whose delay is over. The reference is a
  list of countdowns in the order of the additions.
\<close>

datatype 'a dop = Add nat 'a | Tick

fun countdown :: "'a dop list \<Rightarrow> (nat \<times> 'a) list \<Rightarrow> 'a list list" where
  "countdown [] cs = []"
| "countdown (Add d x # ops) cs = countdown ops (cs @ [(d, x)])"
| "countdown (Tick # ops) cs =
     map snd (filter (\<lambda>c. fst c = 1) cs)
     # countdown ops (map (\<lambda>c. (fst c - 1, snd c)) (filter (\<lambda>c. fst c \<noteq> 1) cs))"

fun dq_run :: "('q \<Rightarrow> nat \<Rightarrow> 'a \<Rightarrow> 'q) \<Rightarrow> ('q \<Rightarrow> ('a list \<times> 'q) option) \<Rightarrow> 'a dop list \<Rightarrow> 'q
    \<Rightarrow> 'a list list option" where
  "dq_run add tick [] q = Some []"
| "dq_run add tick (Add d x # ops) q = dq_run add tick ops (add q d x)"
| "dq_run add tick (Tick # ops) q = (case tick q of None \<Rightarrow> None
     | Some (out, q') \<Rightarrow> map_option (\<lambda>outs. out # outs) (dq_run add tick ops q'))"

locale deadline_queue =
  fixes add :: "'q \<Rightarrow> nat \<Rightarrow> 'a \<Rightarrow> 'q"
    and tick :: "'q \<Rightarrow> ('a list \<times> 'q) option"
    and inv :: "'q \<Rightarrow> bool"
    and due :: "'q \<Rightarrow> nat \<Rightarrow> 'a list"
    and bound :: nat
  assumes add_inv: "inv q \<Longrightarrow> 1 \<le> d \<Longrightarrow> d < bound \<Longrightarrow> inv (add q d x)"
    and add_due: "inv q \<Longrightarrow> 1 \<le> d \<Longrightarrow> d < bound \<Longrightarrow> 1 \<le> k \<Longrightarrow>
      due (add q d x) k = due q k @ (if k = d then [x] else [])"
    and tick_law: "inv q \<Longrightarrow> \<exists>q'. tick q = Some (due q 1, q') \<and> inv q' \<and>
      (\<forall>k \<ge> 1. due q' k = due q (Suc k))"
begin

lemma run_countdown:
  assumes "inv q" "\<And>k. 1 \<le> k \<Longrightarrow> due q k = map snd (filter (\<lambda>c. fst c = k) cs)"
    "\<forall>c \<in> set cs. 1 \<le> fst c" "\<forall>d x. Add d x \<in> set ops \<longrightarrow> 1 \<le> d \<and> d < bound"
  shows "dq_run add tick ops q = Some (countdown ops cs)"
  using assms
proof (induction ops arbitrary: q cs)
  case Nil
  then show ?case by simp
next
  case (Cons op ops)
  show ?case
  proof (cases op)
    case (Add d x)
    with Cons.prems(4) have d: "1 \<le> d" "d < bound" by auto
    have "dq_run add tick ops (add q d x) = Some (countdown ops (cs @ [(d, x)]))"
    proof (rule Cons.IH)
      show "inv (add q d x)" using Cons.prems(1) d by (rule add_inv)
      show "due (add q d x) k = map snd (filter (\<lambda>c. fst c = k) (cs @ [(d, x)]))" if "1 \<le> k" for k
        using add_due [OF Cons.prems(1) d that] Cons.prems(2) [OF that] by auto
    qed (use Cons.prems d in auto)
    then show ?thesis by (simp add: Add)
  next
    case Tick
    obtain q' where q': "tick q = Some (due q 1, q')" "inv q'" "\<forall>k \<ge> 1. due q' k = due q (Suc k)"
      using tick_law [OF Cons.prems(1)] by blast
    let ?cs = "map (\<lambda>c. (fst c - 1, snd c)) (filter (\<lambda>c. fst c \<noteq> 1) cs)"
    have "dq_run add tick ops q' = Some (countdown ops ?cs)"
    proof (rule Cons.IH [OF q'(2)])
      show "due q' k = map snd (filter (\<lambda>c. fst c = k) ?cs)" if k: "1 \<le> k" for k
      proof -
        have "filter (\<lambda>c. fst c \<noteq> 1 \<and> fst c - 1 = k) cs = filter (\<lambda>c. fst c = Suc k) cs"
          using Cons.prems(3) k by (intro filter_cong) auto
        then show ?thesis using q'(3) k Cons.prems(2) [of "Suc k"]
          by (simp add: filter_map o_def)
      qed
      show "\<forall>c \<in> set ?cs. 1 \<le> fst c"
        using Cons.prems(3) by (auto simp: le_Suc_eq le_neq_implies_less Suc_le_eq)
    qed (use Cons.prems in auto)
    then show ?thesis using q' Cons.prems(2) [of 1] by (simp add: Tick)
  qed
qed

end

text \<open>The events that are due in \<open>k\<close> ticks.\<close>

definition timer_due :: "timer \<Rightarrow> nat \<Rightarrow> timer_event list" where
  "timer_due T k = (if k < 2147483648 then map tn_event (pending T (now T + of_nat k)) else [])"

definition wheel_add :: "timer \<Rightarrow> nat \<Rightarrow> timer_event \<Rightarrow> timer" where
  "wheel_add T d x = timer_add T x (of_nat d)"

definition wheel_tick :: "timer \<Rightarrow> (timer_event list \<times> timer) option" where
  "wheel_tick T = map_option (\<lambda>(out, T'). (map tn_event out, T')) (timer_update T)"

lemma unat_small: "k < 4294967296 \<Longrightarrow> unat (of_nat k :: u32) = k"
  by (simp add: unsigned_of_nat take_bit_nat_eq_self)

interpretation wheel: deadline_queue wheel_add wheel_tick wheel_inv timer_due 2147483648
proof
  fix T :: timer and d k :: nat and x :: timer_event
  assume inv: "wheel_inv T" and d: "1 \<le> d" "d < 2147483648"
  then have u: "unat (of_nat d :: u32) = d" by (simp add: unat_small)
  note add = add_ok [OF inv, of "of_nat d" x] 
  show "wheel_inv (wheel_add T d x)" using add(1) d u by (simp add: wheel_add_def)
  assume k: "1 \<le> k"
  have "now T + of_nat k = now T + of_nat d \<longleftrightarrow> k = d" if "k < 2147483648"
    using u unat_small [of k] that by auto
  then show "timer_due (wheel_add T d x) k = timer_due T k @ (if k = d then [x] else [])"
    using add(2,3) d u by (auto simp: wheel_add_def timer_due_def)
next
  fix T assume inv: "wheel_inv T"
  from update_ok [OF inv] obtain T' where T': "timer_update T = Some (pending T (now T + 1), T')"
    "now T' = now T + 1" "wheel_inv T'" "\<And>e. e \<noteq> now T + 1 \<Longrightarrow> pending T' e = pending T e"
    "pending T' (now T + 1) = []" by blast
  have "timer_due T' k = timer_due T (Suc k)" if k: "1 \<le> k" for k
  proof (cases "Suc k < 2147483648")
    case True
    have "now T + 1 + of_nat k \<noteq> now T + 1"
      using unat_small [of k] True k by (auto simp: unat_eq_zero)
    then show ?thesis using True T' by (simp add: timer_due_def algebra_simps)
  next
    case False
    have "pending T' (now T' + of_nat k) = []" if "k < 2147483648"
    proof -
      have "k = 2147483647" using False that by simp
      then have "pending T (now T + 2147483648) = []" 
        by (intro pending_far [OF inv]) simp
      moreover have "unat (2147483648 :: u32) \<noteq> unat (1 :: u32)" by simp
      then have "now T + 2147483648 \<noteq> now T + 1" by (metis add_left_cancel)
      ultimately have "pending T' (now T + 2147483648) = []" using T'(4) by simp
      moreover have "now T' + of_nat k = now T + 2147483648"
        using \<open>k = _\<close> T'(2) by (simp add: algebra_simps)
      ultimately show ?thesis by simp
    qed
    then show ?thesis using False by (auto simp: timer_due_def)
  qed
  with T' show "\<exists>T'. wheel_tick T = Some (timer_due T 1, T') \<and> wheel_inv T' \<and>
      (\<forall>k\<ge>1. timer_due T' k = timer_due T (Suc k))"
    by (intro exI [of _ T']) (simp add: wheel_tick_def timer_due_def)
qed


section \<open>Advancing the clock\<close>

lemma updates_ok:
  assumes "wheel_inv T" "n < 4294967296"
  shows "\<exists>T'. timer_updates n T = Some (concat (map (\<lambda>k. pending T (now T + of_nat (Suc k))) [0..<n]), T')
    \<and> wheel_inv T' \<and> now T' = now T + of_nat n \<and>
    (\<forall>e. pending T' e = (if unat (e - now T) \<in> {1..n} then [] else pending T e))"
  using assms
proof (induction n arbitrary: T)
  case 0
  then show ?case by auto
next
  case (Suc n)
  from update_ok [OF Suc.prems(1)] obtain U where U: "timer_update T = Some (pending T (now T + 1), U)"
    "now U = now T + 1" "wheel_inv U" "\<And>e. e \<noteq> now T + 1 \<Longrightarrow> pending U e = pending T e"
    "pending U (now T + 1) = []" by blast
  from Suc.IH [OF U(3)] Suc.prems(2) obtain T' where T':
    "timer_updates n U = Some (concat (map (\<lambda>k. pending U (now U + of_nat (Suc k))) [0..<n]), T')"
    "wheel_inv T'" "now T' = now U + of_nat n"
    "\<And>e. pending T' e = (if unat (e - now U) \<in> {1..n} then [] else pending U e)" by auto
  have shift: "pending U (now U + of_nat (Suc k)) = pending T (now T + of_nat (Suc (Suc k)))" if "k < n" for k
  proof -
    have "unat (of_nat (Suc k) :: u32) = Suc k" using that Suc.prems(2) by (intro unat_small) simp
    then have "(of_nat (Suc k) :: u32) \<noteq> 0" by auto
    then have "now U + of_nat (Suc k) \<noteq> now T + 1" unfolding U(2) by simp
    then show ?thesis using U(4) by (simp add: U(2) algebra_simps)
  qed
  have "[0..<Suc n] = 0 # map Suc [0..<n]" by (simp add: upt_conv_Cons map_Suc_upt)
  then have "concat (map (\<lambda>k. pending T (now T + of_nat (Suc k))) [0..<Suc n])
      = pending T (now T + 1) @ concat (map (\<lambda>k. pending T (now T + of_nat (Suc (Suc k)))) [0..<n])"
    by (simp add: o_def)
  also have "concat (map (\<lambda>k. pending T (now T + of_nat (Suc (Suc k)))) [0..<n])
      = concat (map (\<lambda>k. pending U (now U + of_nat (Suc k))) [0..<n])"
    using shift by (intro arg_cong [where f = concat] map_cong) auto
  finally have out: "timer_updates (Suc n) T =
      Some (concat (map (\<lambda>k. pending T (now T + of_nat (Suc k))) [0..<Suc n]), T')"
    using U(1) T'(1) by simp
  have "pending T' e = (if unat (e - now T) \<in> {1..Suc n} then [] else pending T e)" for e
  proof (cases "e = now T + 1")
    case True
    then show ?thesis using T'(4) [of e] U(2,5) by auto
  next
    case False
    show ?thesis
    proof (cases "e = now T")
      case True
      then show ?thesis using T'(4) [of e] U(4) [OF False] pending_far [OF Suc.prems(1), of e] by auto
    next
      case ne: False
      have "unat (e - now U) = unat (e - now T) - 1"
        using unat_minus_one [of "e - now T"] ne by (simp add: U(2) algebra_simps)
      moreover have "unat (e - now T) \<noteq> 0" using ne by (simp add: unat_eq_zero)
      moreover have "unat (e - now T) \<noteq> 1"
      proof
        assume "unat (e - now T) = 1"
        then have "e - now T = 1" by (metis unsigned_1 word_eq_iff_unsigned)
        then show False using False by (simp add: algebra_simps)
      qed
      ultimately show ?thesis using T'(4) [of e] U(4) [OF False] by auto
    qed
  qed
  then show ?case using out T'(2,3) U(2) by (intro exI [of _ T']) (simp add: algebra_simps)
qed

lemma pending_ignores [simp]:
  "pending (T\<lparr>current_point := a, current := b\<rparr>) e = pending T e"
  "wheel_inv (T\<lparr>current_point := a, current := b\<rparr>) = wheel_inv T"
  by (auto simp: pending_def wheel_inv_def tslot_def split: prod.split)

definition clocks :: "timer \<Rightarrow> u64 \<times> u64 \<times> u32" where
  "clocks T = (current T, current_point T, starttime T)"

lemma add_node_clocks: "clocks (add_node T n) = clocks T"
  by (simp add: add_node_def Let_def link_near_def link_wheel_def clocks_def)

lemma move_list_clocks: "clocks (move_list T l i) = clocks T"
proof -
  have "clocks (foldl add_node U ns) = clocks U" for U ns
    by (induction ns arbitrary: U) (simp_all add: add_node_clocks)
  then show ?thesis by (simp add: move_list_def link_clear_wheel_def clocks_def)
qed

lemma clocks_set: "clocks (T\<lparr>near := f\<rparr>) = clocks T" "clocks (T\<lparr>now := t\<rparr>) = clocks T"
  by (simp_all add: clocks_def)

lemma update_clocks: "timer_update T = Some (out, T') \<Longrightarrow> clocks T' = clocks T"
  by (auto simp: timer_update_def execute_eq timer_shift_eq Let_def clocks_set
      move_list_clocks split: option.splits)

lemma updates_clocks: "timer_updates n T = Some (out, T') \<Longrightarrow> clocks T' = clocks T"
  by (induction n arbitrary: T out) (auto simp: update_clocks split: option.splits)

text \<open>C25: the timing wheel is a deadline queue. On a new timer, any sequence of \<open>timer_add\<close>s with
  delays from 1 to \<open>2 ^ 31 - 1\<close> (every positive \<open>int\<close>) and \<open>timer_update\<close>s returns, and each
  \<open>timer_update\<close> dispatches exactly the events whose delay ends at that tick, in the order in which
  they were added: the cascade through the levels loses, duplicates, reorders and delays nothing,
  and neither does the wrap of the 32-bit clock.\<close>

theorem wheel_is_deadline_queue:
  assumes "\<forall>d x. Add d x \<in> set ops \<longrightarrow> 1 \<le> d \<and> d < 2147483648"
  shows "dq_run wheel_add wheel_tick ops (timer_create_timer\<lparr>now := t\<rparr>) = Some (countdown ops [])"
proof (rule wheel.run_countdown)
  show "wheel_inv (timer_create_timer\<lparr>now := t\<rparr>)"
    by (auto simp: wheel_inv_def timer_create_timer_def tslot_def)
  show "timer_due (timer_create_timer\<lparr>now := t\<rparr>) k = map snd (filter (\<lambda>c. fst c = k) [])" for k
    by (auto simp: timer_due_def timer_create_timer_def tslot_def pending_def split: prod.split)
qed (use assms in simp_all)

theorem wheel_is_deadline_queue_witness:
  "dq_run wheel_add wheel_tick
     [Add 2 \<lparr>te_handle = 1, te_session = 7\<rparr>, Tick, Add 1 \<lparr>te_handle = 1, te_session = 8\<rparr>, Tick]
     (timer_create_timer\<lparr>now := 4294967294\<rparr>) =
   Some [[], [\<lparr>te_handle = 1, te_session = 7\<rparr>, \<lparr>te_handle = 1, te_session = 8\<rparr>]]"
  by (subst wheel_is_deadline_queue) auto

text \<open>The function \<open>skynet_updatetime\<close>. When the monotonic clock moved forward by \<open>n < 2 ^ 32\<close> hundredths of a
  second, the call returns after \<open>n\<close> ticks: it dispatches exactly the nodes that expire at one of
  these ticks, tick by tick, keeps the others, and moves the wheel's clock and \<open>skynet_now\<close> by
  \<open>n\<close>.\<close>

theorem updatetime_dispatches:
  assumes "wheel_inv T" "current_point T < cp" "unat (cp - current_point T) = n" "n < 2 ^ 32"
  shows "\<exists>T'. skynet_updatetime T cp =
      Some (concat (map (\<lambda>k. pending T (now T + of_nat (Suc k))) [0..<n]), T')
    \<and> wheel_inv T' \<and> now T' = now T + of_nat n \<and> skynet_now T' = skynet_now T + of_nat n
    \<and> current_point T' = cp \<and> skynet_starttime T' = skynet_starttime T
    \<and> (\<forall>e. pending T' e = (if unat (e - now T) \<in> {1..n} then [] else pending T e))"
proof -
  have n: "n < 4294967296" using assms(4) by simp
  let ?diff = "ucast (cp - current_point T) :: u32"
  let ?T = "T\<lparr>current_point := cp, current := current T + ucast ?diff\<rparr>"
  have diff: "unat ?diff = n" using assms(3) n
    by (simp add: unsigned_ucast_eq take_bit_nat_eq_self)
  then have d: "(ucast ?diff :: u64) = of_nat n"
    by (metis of_nat_unat)
  have "skynet_updatetime T cp = timer_updates n ?T"
    using assms(2) diff by (auto simp: skynet_updatetime_def Let_def)
  moreover obtain T' where T': "timer_updates n ?T =
      Some (concat (map (\<lambda>k. pending T (now T + of_nat (Suc k))) [0..<n]), T')"
    "wheel_inv T'" "now T' = now T + of_nat n"
    "\<forall>e. pending T' e = (if unat (e - now T) \<in> {1..n} then [] else pending T e)"
    using updates_ok [of ?T n] assms(1) n by auto
  ultimately show ?thesis using updates_clocks [OF T'(1)] d
    by (intro exI [of _ T']) (simp add: clocks_def skynet_now_def skynet_starttime_def)
qed

theorem updatetime_dispatches_witness:
  "\<exists>T'. skynet_updatetime (timer_add timer_create_timer \<lparr>te_handle = 1, te_session = 7\<rparr> 2) 3 =
     Some ([\<lparr>tn_expire = 2, tn_event = \<lparr>te_handle = 1, te_session = 7\<rparr>\<rparr>], T')"
proof -
  let ?T = "timer_add timer_create_timer \<lparr>te_handle = 1, te_session = 7\<rparr> 2"
  note a = add_ok [OF create_inv(1), of 2 "\<lparr>te_handle = 1, te_session = 7\<rparr>"]
  have inv: "wheel_inv ?T" using a by simp
  have z: "now timer_create_timer = 0" "now ?T = 0" using a by (simp_all add: timer_create_timer_def)
  have p: "current_point ?T = 0"
    by (simp add: timer_add_def add_node_def Let_def link_near_def link_wheel_def timer_create_timer_def)
  have q: "pending ?T e = (if e = 2 then [\<lparr>tn_expire = 2, tn_event = \<lparr>te_handle = 1, te_session = 7\<rparr>\<rparr>] else [])" for e
    using a(3) [of e] by (simp add: create_inv z)
  have l: "[0..<3] = [0, 1, 2 :: nat]" by (simp add: upt_rec)
  show ?thesis using updatetime_dispatches [OF inv, of 3 3] by (auto simp: p q l z)
qed

lemma timeout_adds:
  assumes "wheel_inv T"
  shows "fst (skynet_timeout T h time session) =
      (if 0 < sint time then None else Some (h, timeout_message session)) \<and>
    wheel_inv (snd (skynet_timeout T h time session)) \<and>
    pending (snd (skynet_timeout T h time session)) = (\<lambda>e. pending T e @
       (if 0 < sint time \<and> e = now T + time
        then [\<lparr>tn_expire = e, tn_event = \<lparr>te_handle = h, te_session = session\<rparr>\<rparr>] else []))"
proof (cases "0 < sint time")
  case True
  have "1 \<le> unat time \<and> unat time < 2147483648"
  proof (cases "unat time < 2 ^ 31")
    case t: True
    then have "sint time = int (unat time)" by (simp only: sint_u32 if_True)
    with True have "0 < unat time" by linarith
    with t show ?thesis by simp
  next
    case f: False
    then have "sint time = int (unat time) - 2 ^ 32" by (simp only: sint_u32 if_False)
    moreover have "(2::int) ^ 32 = 4294967296" by simp
    ultimately have False using True exp_nat_less [of time] by linarith
    then show ?thesis ..
  qed
  then have "1 \<le> unat time" "unat time < 2147483648" by simp_all
  note a = add_ok [OF assms this, of "\<lparr>te_handle = h, te_session = session\<rparr>"]
  show ?thesis using True a by (auto simp: skynet_timeout_def fun_eq_iff)
next
  case False
  then show ?thesis using assms by (simp add: skynet_timeout_def)
qed

text \<open>\<open>skynet_timeout\<close>. A timeout that is not positive is answered at once and leaves the timer as
  it is; a positive one is pending exactly at its expiry, after every node that was already pending
  there, and at no other time.\<close>

theorem timeout_pending:
  assumes "wheel_inv T"
  shows "fst (skynet_timeout T h time session) =
      (if 0 < sint time then None else Some (h, timeout_message session)) \<and>
    wheel_inv (snd (skynet_timeout T h time session)) \<and>
    pending (snd (skynet_timeout T h time session)) = (\<lambda>e. pending T e @
       (if 0 < sint time \<and> e = now T + time
        then [\<lparr>tn_expire = e, tn_event = \<lparr>te_handle = h, te_session = session\<rparr>\<rparr>] else []))"
  using assms by (rule timeout_adds)

theorem timeout_pending_witness:
  "pending (snd (skynet_timeout timer_create_timer 9 5 1)) 5 =
     [\<lparr>tn_expire = 5, tn_event = \<lparr>te_handle = 9, te_session = 1\<rparr>\<rparr>]"
  using timeout_pending [OF create_inv(1), of 9 5 1] create_inv(2) [of 5]
  by (simp add: timer_create_timer_def)

end
