(* ===== verification/Monitor.thy ===== *)
theory Monitor
  imports Skynet_Prelude
begin

text \<open>
  Two small components of \<open>skynet-src\<close>: the environment (\<open>skynet_env.c\<close>), a write-once table that
  the source keeps in the globals of a Lua state, and the endless-loop detector
  (\<open>skynet_monitor.c\<close>), which the monitor thread runs against every worker thread.
\<close>

section \<open>The environment\<close>

type_synonym skynet_env = "string \<Rightarrow> string option"

definition skynet_env_init :: skynet_env where
  "skynet_env_init = (\<lambda>_. None)"

definition skynet_getenv :: "skynet_env \<Rightarrow> string \<Rightarrow> string option" where
  "skynet_getenv E key = E key"

text \<open>The assertion of \<open>skynet_setenv\<close> fails for a key that is bound.\<close>

definition skynet_setenv :: "skynet_env \<Rightarrow> string \<Rightarrow> string \<Rightarrow> skynet_env option" where
  "skynet_setenv E key value = (if E key = None then Some (E(key := Some value)) else None)"

interpretation env: write_once skynet_getenv skynet_setenv "\<lambda>_. True"
  by unfold_locales (auto simp: skynet_getenv_def skynet_setenv_def split: if_splits)

section \<open>The monitor of a worker thread\<close>

record skynet_monitor =
  sm_version :: u32
  sm_check_version :: u32
  sm_source :: u32
  sm_destination :: u32

definition skynet_monitor_new :: skynet_monitor where
  "skynet_monitor_new = \<lparr>sm_version = 0, sm_check_version = 0, sm_source = 0, sm_destination = 0\<rparr>"

definition skynet_monitor_trigger :: "skynet_monitor \<Rightarrow> u32 \<Rightarrow> u32 \<Rightarrow> skynet_monitor" where
  "skynet_monitor_trigger sm source destination =
     sm\<lparr>sm_source := source, sm_destination := destination, sm_version := sm_version sm + 1\<rparr>"

text \<open>
  \<open>skynet_monitor_check\<close>: the service that is reported as being in an endless loop (and is passed
  to \<open>skynet_context_endless\<close>), if any.
\<close>

definition skynet_monitor_check :: "skynet_monitor \<Rightarrow> u32 option \<times> skynet_monitor" where
  "skynet_monitor_check sm =
     (if sm_version sm = sm_check_version sm then
        (if sm_destination sm \<noteq> 0 then Some (sm_destination sm) else None, sm)
      else (None, sm\<lparr>sm_check_version := sm_version sm\<rparr>))"

text \<open>
  What the two threads do to a monitor: the worker starts a message (from a source, to a service)
  or ends it, the monitor thread checks. The run returns what each check reports.
\<close>

datatype mon_event = Begin u32 u32 | End | Check

fun mon_run :: "mon_event list \<Rightarrow> skynet_monitor \<Rightarrow> u32 option list \<times> skynet_monitor" where
  "mon_run [] sm = ([], sm)"
| "mon_run (Begin s d # es) sm = mon_run es (skynet_monitor_trigger sm s d)"
| "mon_run (End # es) sm = mon_run es (skynet_monitor_trigger sm 0 0)"
| "mon_run (Check # es) sm =
     (let (r, sm') = skynet_monitor_check sm; (rs, sm'') = mon_run es sm' in (r # rs, sm''))"

text \<open>The number of triggers since the last check, and the service that runs.\<close>

fun quiet :: "mon_event list \<Rightarrow> nat \<Rightarrow> u32 \<Rightarrow> u32 option list" where
  "quiet [] n d = []"
| "quiet (Begin s d' # es) n d = quiet es (n + 1) d'"
| "quiet (End # es) n d = quiet es (n + 1) 0"
| "quiet (Check # es) n d = (if n = 0 \<and> d \<noteq> 0 then Some d else None) # quiet es 0 d"

text \<open>The versions tell whether something was triggered since the last check.\<close>

lemma mon_run_quiet:
  assumes "sm_version sm = sm_check_version sm + of_nat n" "sm_destination sm = d"
    "n + length es < 2 ^ 32"
  shows "fst (mon_run es sm) = quiet es n d"
  using assms
proof (induction es arbitrary: sm n d)
  case Nil
  then show ?case by simp
next
  case (Cons e es)
  show ?case
  proof (cases e)
    case (Begin s d')
    have "fst (mon_run es (skynet_monitor_trigger sm s d')) = quiet es (n + 1) d'"
      by (rule Cons.IH) (use Cons.prems in \<open>auto simp: skynet_monitor_trigger_def\<close>)
    then show ?thesis by (simp add: Begin)
  next
    case End
    have "fst (mon_run es (skynet_monitor_trigger sm 0 0)) = quiet es (n + 1) 0"
      by (rule Cons.IH) (use Cons.prems in \<open>auto simp: skynet_monitor_trigger_def\<close>)
    then show ?thesis by (simp add: End)
  next
    case Check
    have "unat (of_nat n :: u32) = n"
      using Cons.prems(3) by (simp add: unsigned_of_nat take_bit_nat_eq_self)
    then have same: "sm_version sm = sm_check_version sm \<longleftrightarrow> n = 0"
      using Cons.prems(1) by auto
    let ?sm = "snd (skynet_monitor_check sm)"
    have "fst (mon_run es ?sm) = quiet es 0 d"
      by (rule Cons.IH) (use Cons.prems same in \<open>auto simp: skynet_monitor_check_def\<close>)
    moreover have "fst (skynet_monitor_check sm) = (if n = 0 \<and> d \<noteq> 0 then Some d else None)"
      using same Cons.prems(2) by (auto simp: skynet_monitor_check_def)
    ultimately show ?thesis by (simp add: Check split_beta)
  qed
qed



text \<open>The environment keeps the first value of every key. A sequence of \<open>skynet_setenv\<close>s that
  does not abort leaves every key with the value it was given, a key that was already set with its
  old one; it aborts exactly when a key is set twice or is already bound.\<close>

lemma env_first_value:
  "wo_run skynet_setenv kvs E =
     (if distinct (map fst kvs) \<and> (\<forall>k \<in> fst ` set kvs. skynet_getenv E k = None)
      then Some (map_of kvs ++ E) else None)"
proof (induction kvs arbitrary: E)
  case Nil
  then show ?case by simp
next
  case (Cons kv kvs)
  obtain k v where kv: "kv = (k, v)" by (cases kv)
  show ?case
  proof (cases "E k")
    case None
    then have e: "map_of kvs ++ E(k \<mapsto> v) = map_of ((k, v) # kvs) ++ E" if "k \<notin> fst ` set kvs"
      using that by (auto simp: fun_eq_iff map_add_def dom_map_of_conv_image_fst
          map_of_eq_None_iff split: option.splits)
    have "wo_run skynet_setenv (kv # kvs) E = wo_run skynet_setenv kvs (E(k \<mapsto> v))"
      using None by (simp add: kv skynet_setenv_def)
    then have "wo_run skynet_setenv (kv # kvs) E =
        (if distinct (map fst kvs) \<and> (\<forall>j \<in> fst ` set kvs. j \<noteq> k \<and> skynet_getenv E j = None)
         then Some (map_of kvs ++ E(k \<mapsto> v)) else None)"
      by (auto simp: Cons.IH skynet_getenv_def)
    then show ?thesis using e None
      by (cases "k \<in> fst ` set kvs") (auto simp: kv skynet_getenv_def fun_upd_def simp del: wo_run.simps)
  next
    case (Some w)
    then show ?thesis by (simp add: kv skynet_setenv_def skynet_getenv_def)
  qed
qed

text \<open>The two outcomes, on a key that is set once and on one that is set twice.\<close>

lemma env_first_value_witness:
  "wo_run skynet_setenv [(''a'', ''1''), (''b'', ''2'')] skynet_env_init =
     Some (map_of [(''a'', ''1''), (''b'', ''2'')] ++ skynet_env_init) \<and>
   wo_run skynet_setenv [(''a'', ''1''), (''a'', ''2'')] skynet_env_init = None"
  by (simp add: env_first_value skynet_getenv_def skynet_env_init_def del: wo_run.simps)

end
