(* ===== verification/Server.thy ===== *)
theory Server
  imports Skynet_H MqScheduler HandleStorage Timer Monitor
begin

text \<open>
  The node: \<open>skynet-src/skynet_server.c\<close>, \<open>skynet_harbor.c\<close>, \<open>skynet_error.c\<close> and the opening and
  closing of log files in \<open>skynet_log.c\<close>. The state of a node is the record \<open>node\<close>: the service
  contexts, the handle table, the message queues, the timer, the environment, the heap objects that
  messages point to, and the globals of the three files.

  Every operation returns an \<open>option\<close>: \<open>None\<close> is an abort, a null pointer that is followed, a double
  free or a read outside an object. What a node calls but the repository does not define (memory
  allocation, the entry points of the service modules, files) is the record \<open>ext\<close>, an argument
  of the operations.
\<close>

unbundle bit_operations_syntax

section \<open>Data\<close>

definition GLOBALNAME_LENGTH :: nat where "GLOBALNAME_LENGTH = 16"

definition MESSAGE_TYPE_MASK :: u64 where "MESSAGE_TYPE_MASK = drop_bit 8 (- 1)"

text \<open>A message to another node: a handle, or a name if the handle is 0.\<close>

record remote_message =
  rm_name :: string
  rm_handle :: u32
  rm_message :: u64
  rm_sz :: u64

text \<open>What a data pointer of a message points to.\<close>

datatype heap_obj = Data bytes | Remote remote_message

type_synonym heap = "u64 \<Rightarrow> heap_obj option"

record node =
  nd_ctxs :: ctx_store
  nd_handles :: handle_storage
  nd_mq :: mq_state
  nd_timer :: timer
  nd_env :: skynet_env
  nd_heap :: heap
  nd_total :: int
  nd_monitor_exit :: u32
  nd_remote :: "addr option"
  nd_harbor :: u32
  nd_logger :: u32

text \<open>
  \<open>x_query\<close> is \<open>skynet_module_query\<close>, the next four are the entry points of a module,
  \<open>x_callback\<close> calls a message callback (the result is whether it keeps the message), \<open>x_fopen\<close>
  opens a log file (0 when it fails).
\<close>

record ext =
  x_malloc :: "heap \<Rightarrow> u64"
  x_new_ctx :: "ctx_store \<Rightarrow> addr"
  x_new_mq :: "mq_state \<Rightarrow> addr"
  x_query :: "string \<Rightarrow> u64 option"
  x_create :: "u64 \<Rightarrow> u64 option"
  x_init :: "u64 \<Rightarrow> u64 \<Rightarrow> addr \<Rightarrow> string option \<Rightarrow> node \<Rightarrow> (bool \<times> node) option"
  x_release :: "u64 \<Rightarrow> u64 \<Rightarrow> node \<Rightarrow> node option"
  x_signal :: "u64 \<Rightarrow> u64 \<Rightarrow> u32 \<Rightarrow> node \<Rightarrow> node option"
  x_callback :: "u64 \<Rightarrow> addr \<Rightarrow> u64 \<Rightarrow> u32 \<Rightarrow> u32 \<Rightarrow> u32 \<Rightarrow> u64 \<Rightarrow> u64 \<Rightarrow> node \<Rightarrow> (bool \<times> node) option"
  x_fopen :: "string \<Rightarrow> u64"

section \<open>Memory\<close>

definition skynet_malloc :: "ext \<Rightarrow> node \<Rightarrow> heap_obj \<Rightarrow> u64 \<times> node" where
  "skynet_malloc x nd obj = (let p = x_malloc x (nd_heap nd)
     in (p, nd\<lparr>nd_heap := (nd_heap nd)(p := Some obj)\<rparr>))"

definition skynet_free :: "node \<Rightarrow> u64 \<Rightarrow> node option" where
  "skynet_free nd p = (if p = 0 then Some nd
     else if nd_heap nd p = None then None
     else Some (nd\<lparr>nd_heap := (nd_heap nd)(p := None)\<rparr>))"

section \<open>References and pushes\<close>

text \<open>\<open>skynet_context_total\<close>, \<open>context_inc\<close> and \<open>context_dec\<close>.\<close>

definition skynet_context_total :: "node \<Rightarrow> int" where
  "skynet_context_total nd = nd_total nd"

definition context_inc :: "node \<Rightarrow> node" where
  "context_inc nd = nd\<lparr>nd_total := nd_total nd + 1\<rparr>"

definition context_dec :: "node \<Rightarrow> node" where
  "context_dec nd = nd\<lparr>nd_total := nd_total nd - 1\<rparr>"

text \<open>\<open>delete_context\<close> for the context \<open>ctx\<close> that has left the store.\<close>

definition delete_context :: "ext \<Rightarrow> node \<Rightarrow> skynet_context \<Rightarrow> node option" where
  "delete_context x nd ctx =
     do {
       nd \<leftarrow> x_release x (mod_ptr ctx) (instance_ptr ctx) nd;
       mq \<leftarrow> skynet_mq_mark_release (nd_mq nd) (ctx_queue ctx);
       Some (context_dec (nd\<lparr>nd_mq := mq\<rparr>))
     }"

text \<open>\<open>skynet_context_release\<close>: whether the context is still there, and the new state.\<close>

definition node_release :: "ext \<Rightarrow> node \<Rightarrow> addr \<Rightarrow> (bool \<times> node) option" where
  "node_release x nd c =
     (case skynet_context_release (nd_ctxs nd) c of
        None \<Rightarrow> None
      | Some (None, cs) \<Rightarrow> Some (True, nd\<lparr>nd_ctxs := cs\<rparr>)
      | Some (Some ctx, cs) \<Rightarrow> map_option (\<lambda>nd. (False, nd)) (delete_context x (nd\<lparr>nd_ctxs := cs\<rparr>) ctx))"

definition node_grab :: "node \<Rightarrow> u32 \<Rightarrow> (addr option \<times> node) option" where
  "node_grab nd handle =
     map_option (\<lambda>(c, cs). (c, nd\<lparr>nd_ctxs := cs\<rparr>)) (skynet_handle_grab (nd_ctxs nd) (nd_handles nd) handle)"

definition node_mq_push :: "node \<Rightarrow> addr \<Rightarrow> skynet_message \<Rightarrow> node option" where
  "node_mq_push nd q m = map_option (\<lambda>mq. nd\<lparr>nd_mq := mq\<rparr>) (skynet_mq_push (nd_mq nd) q m)"

text \<open>\<open>skynet_context_push\<close>: \<open>True\<close> where the C function returns 0.\<close>

definition skynet_context_push :: "ext \<Rightarrow> node \<Rightarrow> u32 \<Rightarrow> skynet_message \<Rightarrow> (bool \<times> node) option" where
  "skynet_context_push x nd handle message =
     do {
       (c, nd) \<leftarrow> node_grab nd handle;
       (case c of None \<Rightarrow> Some (False, nd) | Some c \<Rightarrow>
          do {
            ctx \<leftarrow> nd_ctxs nd c;
            nd \<leftarrow> node_mq_push nd (ctx_queue ctx) message;
            (_, nd) \<leftarrow> node_release x nd c;
            Some (True, nd)
          })
     }"

definition skynet_context_endless :: "ext \<Rightarrow> node \<Rightarrow> u32 \<Rightarrow> node option" where
  "skynet_context_endless x nd handle =
     do {
       (c, nd) \<leftarrow> node_grab nd handle;
       (case c of None \<Rightarrow> Some nd | Some c \<Rightarrow>
          do {
            ctx \<leftarrow> nd_ctxs nd c;
            (_, nd) \<leftarrow> node_release x (nd\<lparr>nd_ctxs := (nd_ctxs nd)(c := Some (ctx\<lparr>endless := True\<rparr>))\<rparr>) c;
            Some nd
          })
     }"

definition skynet_context_reserve :: "node \<Rightarrow> addr \<Rightarrow> node option" where
  "skynet_context_reserve nd c =
     map_option (\<lambda>cs. context_dec (nd\<lparr>nd_ctxs := cs\<rparr>)) (skynet_context_grab (nd_ctxs nd) c)"

text \<open>\<open>skynet_context_send\<close>: straight into the queue of a context.\<close>

definition skynet_context_send :: "node \<Rightarrow> addr \<Rightarrow> u64 \<Rightarrow> u64 \<Rightarrow> u32 \<Rightarrow> u32 \<Rightarrow> u32 \<Rightarrow> node option" where
  "skynet_context_send nd c msg sz source type session =
     do {
       ctx \<leftarrow> nd_ctxs nd c;
       node_mq_push nd (ctx_queue ctx) \<lparr>msg_source = source, msg_session = session, msg_data = msg,
         msg_sz = sz OR push_bit MESSAGE_TYPE_SHIFT (scast type)\<rparr>
     }"

section \<open>Error messages\<close>

text \<open>
  \<open>skynet_error\<close> with the formatted text: it goes to the service named \<open>logger\<close>, whose handle
  is kept once it is found. A message that cannot be pushed is not freed.
\<close>

definition skynet_error :: "ext \<Rightarrow> node \<Rightarrow> addr option \<Rightarrow> string \<Rightarrow> node option" where
  "skynet_error x nd context text =
     (let nd = (if nd_logger nd = 0
                then nd\<lparr>nd_logger := skynet_handle_findname (nd_handles nd) ''logger''\<rparr> else nd)
      in if nd_logger nd = 0 then Some nd
         else
           (let (data, nd) = skynet_malloc x nd (Data (string_bytes text @ [0]))
            in do {
                 source \<leftarrow> (case context of None \<Rightarrow> Some 0 | Some c \<Rightarrow> skynet_context_handle (nd_ctxs nd) c);
                 (_, nd) \<leftarrow> skynet_context_push x nd (nd_logger nd)
                   \<lparr>msg_source = source, msg_session = 0, msg_data = data,
                    msg_sz = of_nat (length text) OR push_bit MESSAGE_TYPE_SHIFT (ucast PTYPE_TEXT)\<rparr>;
                 Some nd
               }))"

section \<open>The harbor\<close>

definition skynet_harbor_init :: "node \<Rightarrow> u32 \<Rightarrow> node" where
  "skynet_harbor_init nd h = nd\<lparr>nd_harbor := push_bit HANDLE_REMOTE_SHIFT h\<rparr>"

text \<open>\<open>skynet_harbor_message_isremote\<close>; it aborts before \<open>skynet_harbor_init\<close>.\<close>

definition skynet_harbor_message_isremote :: "node \<Rightarrow> u32 \<Rightarrow> bool option" where
  "skynet_harbor_message_isremote nd handle =
     (if nd_harbor nd = NOT 0 then None
      else (let h = handle AND NOT HANDLE_MASK in Some (h \<noteq> nd_harbor nd \<and> h \<noteq> 0)))"

text \<open>\<open>skynet_harbor_send\<close> for the remote message at \<open>p\<close>; its record takes 40 bytes.\<close>

definition skynet_harbor_send :: "node \<Rightarrow> u64 \<Rightarrow> u32 \<Rightarrow> u32 \<Rightarrow> node option" where
  "skynet_harbor_send nd p source session =
     (case nd_heap nd p of
        Some (Remote rmsg) \<Rightarrow>
          (let type = ucast (drop_bit MESSAGE_TYPE_SHIFT (rm_sz rmsg)) :: u32;
               rmsg = rmsg\<lparr>rm_sz := rm_sz rmsg AND MESSAGE_TYPE_MASK\<rparr>;
               nd = nd\<lparr>nd_heap := (nd_heap nd)(p := Some (Remote rmsg))\<rparr>
           in if type = PTYPE_SYSTEM \<or> type = PTYPE_HARBOR then None
              else (case nd_remote nd of None \<Rightarrow> None
                    | Some c \<Rightarrow> skynet_context_send nd c p 40 source type session))
      | _ \<Rightarrow> None)"

definition skynet_harbor_start :: "node \<Rightarrow> addr \<Rightarrow> node option" where
  "skynet_harbor_start nd c =
     map_option (\<lambda>nd. nd\<lparr>nd_remote := Some c\<rparr>) (skynet_context_reserve nd c)"

definition skynet_harbor_exit :: "ext \<Rightarrow> node \<Rightarrow> node option" where
  "skynet_harbor_exit x nd =
     (let c = nd_remote nd; nd = nd\<lparr>nd_remote := None\<rparr>
      in case c of None \<Rightarrow> Some nd | Some c \<Rightarrow> map_option snd (node_release x nd c))"

definition skynet_isremote :: "node \<Rightarrow> u32 \<Rightarrow> (bool \<times> u32) option" where
  "skynet_isremote nd handle =
     map_option (\<lambda>r. (r, drop_bit HANDLE_REMOTE_SHIFT handle)) (skynet_harbor_message_isremote nd handle)"

section \<open>Sending\<close>

text \<open>\<open>memcpy\<close> of the first \<open>sz\<close> bytes of the object at \<open>p\<close>.\<close>

definition read_data :: "node \<Rightarrow> u64 \<Rightarrow> nat \<Rightarrow> bytes option" where
  "read_data nd p sz =
     (case nd_heap nd p of Some (Data bs) \<Rightarrow> if sz \<le> length bs then Some (take sz bs) else None
      | _ \<Rightarrow> None)"

definition node_newsession :: "node \<Rightarrow> addr \<Rightarrow> (u32 \<times> node) option" where
  "node_newsession nd c =
     map_option (\<lambda>ctx. let (session, ctx) = skynet_context_newsession ctx
       in (session, nd\<lparr>nd_ctxs := (nd_ctxs nd)(c := Some ctx)\<rparr>)) (nd_ctxs nd c)"

text \<open>\<open>_filter_args\<close>: the session, the data and the size with the type in its high byte.\<close>

definition filter_args :: "ext \<Rightarrow> node \<Rightarrow> addr option \<Rightarrow> u32 \<Rightarrow> u32 \<Rightarrow> u64 \<Rightarrow> u64
    \<Rightarrow> (u32 \<times> u64 \<times> u64 \<times> node) option" where
  "filter_args x nd context type session data sz =
     (let needcopy = (type AND PTYPE_TAG_DONTCOPY = 0);
          allocsession = (type AND PTYPE_TAG_ALLOCSESSION \<noteq> 0);
          type = type AND 0xff
      in do {
           (session, nd) \<leftarrow> (if allocsession then
              (if session = 0 then (case context of None \<Rightarrow> None | Some c \<Rightarrow> node_newsession nd c) else None)
              else Some (session, nd));
           (data, nd) \<leftarrow> (if needcopy \<and> data \<noteq> 0 then
              do { bs \<leftarrow> read_data nd data (unat sz); Some (skynet_malloc x nd (Data (bs @ [0]))) }
              else Some (data, nd));
           Some (session, data, sz OR push_bit MESSAGE_TYPE_SHIFT (ucast type), nd)
         })"

text \<open>
  \<open>skynet_send\<close>: the session, or \<open>None\<close> where it returns -1, and the new state.
\<close>

definition skynet_send :: "ext \<Rightarrow> node \<Rightarrow> addr option \<Rightarrow> u32 \<Rightarrow> u32 \<Rightarrow> u32 \<Rightarrow> u32 \<Rightarrow> u64 \<Rightarrow> u64
    \<Rightarrow> (u32 option \<times> node) option" where
  "skynet_send x nd context source destination type session data sz =
     (if sz AND MESSAGE_TYPE_MASK \<noteq> sz then
        do {
          nd \<leftarrow> skynet_error x nd context (''The message to '' @ fmt_x destination @ '' is too large'');
          nd \<leftarrow> (if type AND PTYPE_TAG_DONTCOPY \<noteq> 0 then skynet_free nd data else Some nd);
          Some (None, nd)
        }
      else
        do {
          (session, data, sz, nd) \<leftarrow> filter_args x nd context type session data sz;
          source \<leftarrow> (if source = 0 then Option.bind context (skynet_context_handle (nd_ctxs nd)) else Some source);
          if destination = 0 then Some (Some session, nd)
          else do {
            remote \<leftarrow> skynet_harbor_message_isremote nd destination;
            if remote then
              (let (p, nd) = skynet_malloc x nd (Remote \<lparr>rm_name = [], rm_handle = destination,
                     rm_message = data, rm_sz = sz\<rparr>)
               in do { nd \<leftarrow> skynet_harbor_send nd p source session; Some (Some session, nd) })
            else do {
              (ok, nd) \<leftarrow> skynet_context_push x nd destination
                \<lparr>msg_source = source, msg_session = session, msg_data = data, msg_sz = sz\<rparr>;
              if ok then Some (Some session, nd)
              else do { nd \<leftarrow> skynet_free nd data; Some (None, nd) }
            }
          }
        })"

text \<open>\<open>copy_name\<close>: the name cut or padded with zero characters to 16.\<close>

definition copy_name :: "string \<Rightarrow> string" where
  "copy_name addr = (let s = take GLOBALNAME_LENGTH addr in s @ replicate (GLOBALNAME_LENGTH - length s) (CHR 0x00))"

text \<open>A C string: \<open>s\<close> is the characters before the terminating zero; \<open>s[0]\<close> may be that zero.\<close>

definition first_char :: "string \<Rightarrow> char" where
  "first_char s = (case s of [] \<Rightarrow> CHR 0x00 | c # _ \<Rightarrow> c)"

definition skynet_sendname :: "ext \<Rightarrow> node \<Rightarrow> addr option \<Rightarrow> u32 \<Rightarrow> string \<Rightarrow> u32 \<Rightarrow> u32 \<Rightarrow> u64 \<Rightarrow> u64
    \<Rightarrow> (u32 option \<times> node) option" where
  "skynet_sendname x nd context source name type session data sz =
     do {
       source \<leftarrow> (if source = 0 then Option.bind context (skynet_context_handle (nd_ctxs nd)) else Some source);
       if first_char name = CHR '':'' then
         skynet_send x nd context source (hex_handle (tl name)) type session data sz
       else if first_char name = CHR ''.'' then
         (let des = skynet_handle_findname (nd_handles nd) (tl name)
          in if des = 0 then
               do {
                 nd \<leftarrow> (if type AND PTYPE_TAG_DONTCOPY \<noteq> 0 then skynet_free nd data else Some nd);
                 Some (None, nd)
               }
             else skynet_send x nd context source des type session data sz)
       else
         do {
           (session, data, sz, nd) \<leftarrow> filter_args x nd context type session data sz;
           (let (p, nd) = skynet_malloc x nd (Remote \<lparr>rm_name = copy_name name, rm_handle = 0,
                  rm_message = data, rm_sz = sz\<rparr>)
            in do { nd \<leftarrow> skynet_harbor_send nd p source session; Some (Some session, nd) })
         }
     }"

section \<open>Dropping queues, new services\<close>

text \<open>\<open>drop_message\<close> for a service with handle \<open>handle\<close>: an error goes back to the sender.\<close>

definition drop_message :: "ext \<Rightarrow> u32 \<Rightarrow> node \<Rightarrow> skynet_message \<Rightarrow> node option" where
  "drop_message x handle nd m =
     do {
       nd \<leftarrow> skynet_free nd (msg_data m);
       (if handle = 0 then None
        else map_option snd (skynet_send x nd None handle (msg_source m) PTYPE_ERROR 0 0 0))
     }"

text \<open>\<open>_drop_queue\<close> and \<open>skynet_mq_release\<close> of \<open>skynet_mq.c\<close> with \<open>drop_message\<close> as their
  callback, on the whole node.\<close>

partial_function (option) node_drop_queue :: "ext \<Rightarrow> u32 \<Rightarrow> node \<Rightarrow> addr \<Rightarrow> node option" where
  "node_drop_queue x handle nd q =
     (case skynet_mq_pop (nd_mq nd) q of
        None \<Rightarrow> None
      | Some (r, mq) \<Rightarrow>
          (case r of
             None \<Rightarrow> map_option (\<lambda>mq. nd\<lparr>nd_mq := mq\<rparr>) (release_queue mq q)
           | Some m \<Rightarrow>
               (case drop_message x handle (nd\<lparr>nd_mq := mq\<rparr>) m of
                  None \<Rightarrow> None
                | Some nd \<Rightarrow> node_drop_queue x handle nd q)))"

definition node_mq_release :: "ext \<Rightarrow> u32 \<Rightarrow> node \<Rightarrow> addr \<Rightarrow> node option" where
  "node_mq_release x handle nd a =
     (case mqs (nd_mq nd) a of None \<Rightarrow> None | Some q \<Rightarrow>
        if mq_release q \<noteq> 0 then node_drop_queue x handle nd a
        else map_option (\<lambda>mq. nd\<lparr>nd_mq := mq\<rparr>) (skynet_globalmq_push (nd_mq nd) a))"

text \<open>\<open>skynet_handle_retire\<close> with the release after the unlock.\<close>

definition node_retire :: "ext \<Rightarrow> node \<Rightarrow> u32 \<Rightarrow> (bool \<times> node) option" where
  "node_retire x nd handle =
     (case skynet_handle_retire (nd_ctxs nd) (nd_handles nd) handle of
        (None, hs) \<Rightarrow> Some (False, nd\<lparr>nd_handles := hs\<rparr>)
      | (Some c, hs) \<Rightarrow> map_option (\<lambda>(_, nd). (True, nd)) (node_release x (nd\<lparr>nd_handles := hs\<rparr>) c))"

definition new_context :: "u64 \<Rightarrow> u64 \<Rightarrow> skynet_context" where
  "new_context md inst = \<lparr>instance_ptr = inst, mod_ptr = md, cb_ud = 0, cb = 0, ctx_queue = 0,
     logfile = 0, ctx_result = [], ctx_handle = 0, session_id = 0, ctx_ref = 2, ctx_init = False,
     endless = False\<rparr>"

text \<open>\<open>skynet_context_new\<close>: the address of the new context, if the service could be started.\<close>

definition skynet_context_new :: "ext \<Rightarrow> node \<Rightarrow> string \<Rightarrow> string option \<Rightarrow> (addr option \<times> node) option" where
  "skynet_context_new x nd name param =
     (case x_query x name of None \<Rightarrow> Some (None, nd) | Some md \<Rightarrow>
       (case x_create x md of None \<Rightarrow> Some (None, nd) | Some inst \<Rightarrow>
          (let c = x_new_ctx x (nd_ctxs nd);
               nd = nd\<lparr>nd_ctxs := (nd_ctxs nd)(c := Some (new_context md inst))\<rparr>
           in do {
                (handle, hs) \<leftarrow> skynet_handle_register (nd_ctxs nd) (nd_handles nd) c;
                (let q = x_new_mq x (nd_mq nd);
                     ctx = (new_context md inst)\<lparr>ctx_handle := handle, ctx_queue := q\<rparr>;
                     nd = context_inc (nd\<lparr>nd_handles := hs, nd_mq := skynet_mq_create (nd_mq nd) q handle,
                            nd_ctxs := (nd_ctxs nd)(c := Some ctx)\<rparr>)
                 in do {
                      (ok, nd) \<leftarrow> x_init x md inst c param nd;
                      if ok then
                        do {
                          (ret, nd) \<leftarrow> node_release x nd c;
                          nd \<leftarrow> (if ret then map_option (\<lambda>ctx. nd\<lparr>nd_ctxs := (nd_ctxs nd)(c := Some (ctx\<lparr>ctx_init := True\<rparr>))\<rparr>)
                                   (nd_ctxs nd c) else Some nd);
                          mq \<leftarrow> skynet_globalmq_push (nd_mq nd) q;
                          nd \<leftarrow> Some (nd\<lparr>nd_mq := mq\<rparr>);
                          nd \<leftarrow> (if ret then skynet_error x nd (Some c)
                                   (''LAUNCH '' @ name @ '' '' @ (case param of None \<Rightarrow> [] | Some p \<Rightarrow> p))
                                 else Some nd);
                          Some (if ret then Some c else None, nd)
                        }
                      else
                        do {
                          nd \<leftarrow> skynet_error x nd (Some c) (''FAILED launch '' @ name);
                          handle \<leftarrow> skynet_context_handle (nd_ctxs nd) c;
                          (_, nd) \<leftarrow> node_release x nd c;
                          (_, nd) \<leftarrow> node_retire x nd handle;
                          nd \<leftarrow> node_mq_release x handle nd q;
                          Some (None, nd)
                        }
                    })
              })))"

section \<open>Dispatching\<close>

definition skynet_callback :: "node \<Rightarrow> addr \<Rightarrow> u64 \<Rightarrow> u64 \<Rightarrow> node option" where
  "skynet_callback nd c ud f =
     map_option (\<lambda>ctx. nd\<lparr>nd_ctxs := (nd_ctxs nd)(c := Some (ctx\<lparr>cb := f, cb_ud := ud\<rparr>))\<rparr>) (nd_ctxs nd c)"

text \<open>
  \<open>dispatch_message\<close>: the callback gets the type, the session, the source, the data and the size;
  the data is freed unless it keeps it. (The handle in thread-local storage and the lines that
  \<open>skynet_log_output\<close> prints are not part of the state.)
\<close>

definition dispatch_message :: "ext \<Rightarrow> node \<Rightarrow> addr \<Rightarrow> skynet_message \<Rightarrow> node option" where
  "dispatch_message x nd c msg =
     do {
       ctx \<leftarrow> nd_ctxs nd c;
       if \<not> ctx_init ctx then None
       else
         (let type = ucast (drop_bit MESSAGE_TYPE_SHIFT (msg_sz msg)) :: u32;
              sz = msg_sz msg AND MESSAGE_TYPE_MASK
          in do {
               (keep, nd) \<leftarrow> x_callback x (cb ctx) c (cb_ud ctx) type (msg_session msg) (msg_source msg)
                 (msg_data msg) sz nd;
               if keep then Some nd else skynet_free nd (msg_data msg)
             })
     }"

text \<open>\<open>skynet_context_dispatchall\<close>: until the queue is empty.\<close>

partial_function (option) skynet_context_dispatchall :: "ext \<Rightarrow> node \<Rightarrow> addr \<Rightarrow> addr \<Rightarrow> node option" where
  "skynet_context_dispatchall x nd c q =
     (case skynet_mq_pop (nd_mq nd) q of
        None \<Rightarrow> None
      | Some (r, mq) \<Rightarrow>
          (case r of None \<Rightarrow> Some (nd\<lparr>nd_mq := mq\<rparr>)
           | Some m \<Rightarrow>
               (case dispatch_message x (nd\<lparr>nd_mq := mq\<rparr>) c m of
                  None \<Rightarrow> None
                | Some nd \<Rightarrow> skynet_context_dispatchall x nd c q)))"

definition global_pop :: "node \<Rightarrow> (addr option \<times> node) option" where
  "global_pop nd = map_option (\<lambda>(q, mq). (q, nd\<lparr>nd_mq := mq\<rparr>)) (skynet_globalmq_pop (nd_mq nd))"

text \<open>The body of the loop of \<open>skynet_context_message_dispatch\<close> for one message.\<close>

definition handle_one :: "ext \<Rightarrow> node \<Rightarrow> skynet_monitor \<Rightarrow> addr \<Rightarrow> addr \<Rightarrow> u32 \<Rightarrow> skynet_message
    \<Rightarrow> (skynet_monitor \<times> node) option" where
  "handle_one x nd sm q c handle msg =
     do {
       mq \<leftarrow> mqs (nd_mq nd) q;
       (let (over, mq) = mq_overload mq;
            nd = nd\<lparr>nd_mq := set_mq (nd_mq nd) q mq\<rparr>
        in do {
             nd \<leftarrow> (if over \<noteq> 0 then
                skynet_error x nd (Some c) (''May overload, message queue length = '' @ fmt_u over)
                else Some nd);
             (let sm = skynet_monitor_trigger sm (msg_source msg) handle
              in do {
                   ctx \<leftarrow> nd_ctxs nd c;
                   nd \<leftarrow> (if cb ctx = 0 then skynet_free nd (msg_data msg) else dispatch_message x nd c msg);
                   Some (skynet_monitor_trigger sm 0 0, nd)
                 })
           })
     }"

text \<open>
  The loop itself: \<open>i\<close> messages are done, \<open>n\<close> are to be done; the first one sets \<open>n\<close> from the
  length of the queue. The result is whether the loop ran to its end; if not, the queue was empty.
\<close>

function batch_loop :: "ext \<Rightarrow> node \<Rightarrow> skynet_monitor \<Rightarrow> addr \<Rightarrow> addr \<Rightarrow> u32 \<Rightarrow> int \<Rightarrow> nat \<Rightarrow> nat
    \<Rightarrow> (bool \<times> skynet_monitor \<times> node) option" where
  "batch_loop x nd sm q c handle weight i n =
     (if i < n then
        (case skynet_mq_pop (nd_mq nd) q of
           None \<Rightarrow> None
         | Some (None, mq) \<Rightarrow> Some (False, sm, nd\<lparr>nd_mq := mq\<rparr>)
         | Some (Some msg, mq) \<Rightarrow>
             (let nd = nd\<lparr>nd_mq := mq\<rparr>;
                  n = (if i = 0 \<and> 0 \<le> weight
                       then (case mqs (nd_mq nd) q of None \<Rightarrow> 0 | Some mq \<Rightarrow> drop_bit (nat weight) (mq_length mq))
                       else n)
              in (case handle_one x nd sm q c handle msg of
                    None \<Rightarrow> None
                  | Some (sm, nd) \<Rightarrow> batch_loop x nd sm q c handle weight (i + 1) n)))
      else Some (True, sm, nd))"
  by pat_completeness auto
termination
  by (relation "measures [\<lambda>(x, nd, sm, q, c, handle, weight, i, n). if i = 0 then 1 else 0,
       \<lambda>(x, nd, sm, q, c, handle, weight, i, n). n - i]") auto

declare batch_loop.simps [simp del]

text \<open>\<open>skynet_context_message_dispatch\<close>: the queue to go on with.\<close>

definition dispatch_queue :: "ext \<Rightarrow> node \<Rightarrow> skynet_monitor \<Rightarrow> addr \<Rightarrow> int
    \<Rightarrow> (addr option \<times> skynet_monitor \<times> node) option" where
  "dispatch_queue x nd sm q weight =
     do {
       mq \<leftarrow> mqs (nd_mq nd) q;
       (let handle = mq_handle mq
        in do {
             (c, nd) \<leftarrow> node_grab nd handle;
             (case c of
                None \<Rightarrow>
                  do {
                    nd \<leftarrow> node_mq_release x handle nd q;
                    (nq, nd) \<leftarrow> global_pop nd;
                    Some (nq, sm, nd)
                  }
              | Some c \<Rightarrow>
                  do {
                    (done_all, sm, nd) \<leftarrow> batch_loop x nd sm q c handle weight 0 1;
                    if \<not> done_all then
                      do {
                        (_, nd) \<leftarrow> node_release x nd c;
                        (nq, nd) \<leftarrow> global_pop nd;
                        Some (nq, sm, nd)
                      }
                    else
                      do {
                        ctx \<leftarrow> nd_ctxs nd c;
                        if q \<noteq> ctx_queue ctx then None
                        else
                          do {
                            (nq, nd) \<leftarrow> global_pop nd;
                            (q, nd) \<leftarrow> (case nq of None \<Rightarrow> Some (q, nd)
                               | Some nq \<Rightarrow> map_option (\<lambda>mq. (nq, nd\<lparr>nd_mq := mq\<rparr>)) (skynet_globalmq_push (nd_mq nd) q));
                            (_, nd) \<leftarrow> node_release x nd c;
                            Some (Some q, sm, nd)
                          }
                      }
                  })
           })
     }"

definition skynet_context_message_dispatch :: "ext \<Rightarrow> node \<Rightarrow> skynet_monitor \<Rightarrow> addr option \<Rightarrow> int
    \<Rightarrow> (addr option \<times> skynet_monitor \<times> node) option" where
  "skynet_context_message_dispatch x nd sm q weight =
     (case q of
        Some q \<Rightarrow> dispatch_queue x nd sm q weight
      | None \<Rightarrow>
          do {
            (q, nd) \<leftarrow> global_pop nd;
            (case q of None \<Rightarrow> Some (None, sm, nd) | Some q \<Rightarrow> dispatch_queue x nd sm q weight)
          })"

section \<open>Commands\<close>

definition set_result :: "node \<Rightarrow> addr \<Rightarrow> string \<Rightarrow> (string option \<times> node) option" where
  "set_result nd c r =
     map_option (\<lambda>ctx. (Some r, nd\<lparr>nd_ctxs := (nd_ctxs nd)(c := Some (ctx\<lparr>ctx_result := r\<rparr>))\<rparr>)) (nd_ctxs nd c)"

definition skynet_queryname :: "ext \<Rightarrow> node \<Rightarrow> addr option \<Rightarrow> string \<Rightarrow> (u32 \<times> node) option" where
  "skynet_queryname x nd context name =
     (if first_char name = CHR '':'' then Some (hex_handle (tl name), nd)
      else if first_char name = CHR ''.'' then Some (skynet_handle_findname (nd_handles nd) (tl name), nd)
      else map_option (\<lambda>nd. (0, nd)) (skynet_error x nd context (''Don't support query global name '' @ name)))"

definition tohandle :: "ext \<Rightarrow> node \<Rightarrow> addr \<Rightarrow> string \<Rightarrow> (u32 \<times> node) option" where
  "tohandle x nd c param =
     (if first_char param = CHR '':'' then Some (hex_handle (tl param), nd)
      else if first_char param = CHR ''.'' then Some (skynet_handle_findname (nd_handles nd) (tl param), nd)
      else map_option (\<lambda>nd. (0, nd)) (skynet_error x nd (Some c) (''Can't convert '' @ param @ '' to handle'')))"

definition handle_exit :: "ext \<Rightarrow> node \<Rightarrow> addr \<Rightarrow> u32 \<Rightarrow> node option" where
  "handle_exit x nd c handle =
     do {
       self \<leftarrow> skynet_context_handle (nd_ctxs nd) c;
       nd \<leftarrow> skynet_error x nd (Some c) (if handle = 0 then ''KILL self'' else ''KILL :'' @ fmt_x handle);
       (let handle = (if handle = 0 then self else handle)
        in do {
             nd \<leftarrow> (if nd_monitor_exit nd \<noteq> 0 then
                map_option snd (skynet_send x nd (Some c) handle (nd_monitor_exit nd) PTYPE_CLIENT 0 0 0)
                else Some nd);
             (_, nd) \<leftarrow> node_retire x nd handle;
             Some nd
           })
     }"

text \<open>Every command gets the context and the parameter, which may be \<open>NULL\<close>.\<close>

definition cmd_timeout :: "ext \<Rightarrow> node \<Rightarrow> addr \<Rightarrow> string option \<Rightarrow> (string option \<times> node) option" where
  "cmd_timeout x nd c param =
     do {
       param \<leftarrow> param;
       (let ti = word_of_int (strtol10 param) :: u32
        in do {
             (session, nd) \<leftarrow> node_newsession nd c;
             handle \<leftarrow> skynet_context_handle (nd_ctxs nd) c;
             (let (now, t) = skynet_timeout (nd_timer nd) handle ti session
              in do {
                   nd \<leftarrow> (case now of
                      None \<Rightarrow> Some (nd\<lparr>nd_timer := t\<rparr>)
                    | Some (h, m) \<Rightarrow> map_option snd (skynet_context_push x (nd\<lparr>nd_timer := t\<rparr>) h m));
                   set_result nd c (fmt_d (sint session))
                 })
           })
     }"

definition cmd_reg :: "ext \<Rightarrow> node \<Rightarrow> addr \<Rightarrow> string option \<Rightarrow> (string option \<times> node) option" where
  "cmd_reg x nd c param =
     do {
       handle \<leftarrow> skynet_context_handle (nd_ctxs nd) c;
       (if param = None \<or> param = Some [] then set_result nd c (CHR '':'' # fmt_x handle)
        else if first_char (the param) = CHR ''.'' then
          map_option (\<lambda>(r, hs). (r, nd\<lparr>nd_handles := hs\<rparr>))
            (skynet_handle_namehandle (nd_handles nd) handle (tl (the param)))
        else map_option (\<lambda>nd. (None, nd))
          (skynet_error x nd (Some c) (''Can't register global name '' @ the param @ '' in C'')))
     }"

definition cmd_query :: "ext \<Rightarrow> node \<Rightarrow> addr \<Rightarrow> string option \<Rightarrow> (string option \<times> node) option" where
  "cmd_query x nd c param =
     do {
       param \<leftarrow> param;
       (if first_char param = CHR ''.'' then
          (let handle = skynet_handle_findname (nd_handles nd) (tl param)
           in if handle \<noteq> 0 then set_result nd c (CHR '':'' # fmt_x handle) else Some (None, nd))
        else Some (None, nd))
     }"

text \<open>\<open>sscanf (param, "%s %s", name, handle)\<close>: the first two words. With fewer than two, \<open>handle\<close>
  is not initialised and the result \<open>None\<close>.\<close>

definition two_words :: "string \<Rightarrow> (string \<times> string) option" where
  "two_words s =
     (let s = dropWhile is_space s;
          a = takeWhile (\<lambda>c. \<not> is_space c) s;
          s = dropWhile is_space (dropWhile (\<lambda>c. \<not> is_space c) s);
          b = takeWhile (\<lambda>c. \<not> is_space c) s
      in if a = [] \<or> b = [] then None else Some (a, b))"

definition cmd_name :: "ext \<Rightarrow> node \<Rightarrow> addr \<Rightarrow> string option \<Rightarrow> (string option \<times> node) option" where
  "cmd_name x nd c param =
     do {
       param \<leftarrow> param;
       (name, handle) \<leftarrow> two_words param;
       (if first_char handle \<noteq> CHR '':'' then Some (None, nd)
        else
          (let handle_id = hex_handle (tl handle)
           in if handle_id = 0 then Some (None, nd)
              else if first_char name = CHR ''.'' then
                map_option (\<lambda>(r, hs). (r, nd\<lparr>nd_handles := hs\<rparr>))
                  (skynet_handle_namehandle (nd_handles nd) handle_id (tl name))
              else map_option (\<lambda>nd. (None, nd))
                (skynet_error x nd (Some c) (''Can't set global name '' @ name @ '' in C''))))
     }"

definition cmd_exit :: "ext \<Rightarrow> node \<Rightarrow> addr \<Rightarrow> string option \<Rightarrow> (string option \<times> node) option" where
  "cmd_exit x nd c param = map_option (\<lambda>nd. (None, nd)) (handle_exit x nd c 0)"

definition cmd_kill :: "ext \<Rightarrow> node \<Rightarrow> addr \<Rightarrow> string option \<Rightarrow> (string option \<times> node) option" where
  "cmd_kill x nd c param =
     do {
       param \<leftarrow> param;
       (handle, nd) \<leftarrow> tohandle x nd c param;
       (if handle \<noteq> 0 then map_option (\<lambda>nd. (None, nd)) (handle_exit x nd c handle) else Some (None, nd))
     }"

text \<open>\<open>strsep\<close>: the text before the first separator and, if there was one, the text after it.\<close>

definition strsep :: "string \<Rightarrow> string \<Rightarrow> string \<times> string option" where
  "strsep delim s =
     (takeWhile (\<lambda>c. c \<notin> set delim) s,
      (case dropWhile (\<lambda>c. c \<notin> set delim) s of [] \<Rightarrow> None | _ # t \<Rightarrow> Some t))"

definition cmd_launch :: "ext \<Rightarrow> node \<Rightarrow> addr \<Rightarrow> string option \<Rightarrow> (string option \<times> node) option" where
  "cmd_launch x nd c param =
     do {
       param \<leftarrow> param;
       (let (md, rest) = strsep [CHR '' '', CHR 0x09, CHR 0x0D, CHR 0x0A] param;
            args = map_option (\<lambda>s. fst (strsep [CHR 0x0D, CHR 0x0A] s)) rest
        in do {
             (inst, nd) \<leftarrow> skynet_context_new x nd md args;
             (case inst of None \<Rightarrow> Some (None, nd)
              | Some i \<Rightarrow> do { h \<leftarrow> skynet_context_handle (nd_ctxs nd) i; set_result nd c (id_to_hex h) })
           })
     }"

definition cmd_getenv :: "ext \<Rightarrow> node \<Rightarrow> addr \<Rightarrow> string option \<Rightarrow> (string option \<times> node) option" where
  "cmd_getenv x nd c param = map_option (\<lambda>key. (skynet_getenv (nd_env nd) key, nd)) param"

definition cmd_setenv :: "ext \<Rightarrow> node \<Rightarrow> addr \<Rightarrow> string option \<Rightarrow> (string option \<times> node) option" where
  "cmd_setenv x nd c param =
     do {
       param \<leftarrow> param;
       (case dropWhile (\<lambda>ch. ch \<noteq> CHR '' '') param of
          [] \<Rightarrow> Some (None, nd)
        | _ # value \<Rightarrow>
            map_option (\<lambda>e. (None, nd\<lparr>nd_env := e\<rparr>))
              (skynet_setenv (nd_env nd) (takeWhile (\<lambda>ch. ch \<noteq> CHR '' '') param) value))
     }"

definition cmd_starttime :: "ext \<Rightarrow> node \<Rightarrow> addr \<Rightarrow> string option \<Rightarrow> (string option \<times> node) option" where
  "cmd_starttime x nd c param = set_result nd c (fmt_u (unat (skynet_starttime (nd_timer nd))))"

definition cmd_endless :: "ext \<Rightarrow> node \<Rightarrow> addr \<Rightarrow> string option \<Rightarrow> (string option \<times> node) option" where
  "cmd_endless x nd c param =
     do {
       ctx \<leftarrow> nd_ctxs nd c;
       (if endless ctx then
          Some (Some ''1'', nd\<lparr>nd_ctxs := (nd_ctxs nd)(c := Some (ctx\<lparr>ctx_result := ''1'', endless := False\<rparr>))\<rparr>)
        else Some (None, nd))
     }"

text \<open>\<open>skynet_handle_retireall\<close> with the releases, as \<open>cmd_abort\<close> calls it.\<close>

partial_function (option) node_retire_pass :: "ext \<Rightarrow> nat \<Rightarrow> node \<Rightarrow> nat \<Rightarrow> (nat \<times> node) option" where
  "node_retire_pass x i nd n =
     (if i < slot_size (nd_handles nd) then
        (case (case slot (nd_handles nd) ! i of None \<Rightarrow> Some 0 | Some c \<Rightarrow> skynet_context_handle (nd_ctxs nd) c) of
           None \<Rightarrow> None
         | Some h \<Rightarrow>
             (if h \<noteq> 0 then
                (case node_retire x nd h of
                   None \<Rightarrow> None
                 | Some (r, nd) \<Rightarrow> node_retire_pass x (i + 1) nd (if r then n + 1 else n))
              else node_retire_pass x (i + 1) nd n))
      else Some (n, nd))"

partial_function (option) node_retireall :: "ext \<Rightarrow> node \<Rightarrow> node option" where
  "node_retireall x nd =
     (case node_retire_pass x 0 nd 0 of
        None \<Rightarrow> None
      | Some (n, nd) \<Rightarrow> if n = 0 then Some nd else node_retireall x nd)"

definition cmd_abort :: "ext \<Rightarrow> node \<Rightarrow> addr \<Rightarrow> string option \<Rightarrow> (string option \<times> node) option" where
  "cmd_abort x nd c param = map_option (\<lambda>nd. (None, nd)) (node_retireall x nd)"

definition cmd_monitor :: "ext \<Rightarrow> node \<Rightarrow> addr \<Rightarrow> string option \<Rightarrow> (string option \<times> node) option" where
  "cmd_monitor x nd c param =
     (if param = None \<or> param = Some [] then
        (if nd_monitor_exit nd \<noteq> 0 then set_result nd c (CHR '':'' # fmt_x (nd_monitor_exit nd))
         else Some (None, nd))
      else map_option (\<lambda>(h, nd). (None, nd\<lparr>nd_monitor_exit := h\<rparr>)) (tohandle x nd c (the param)))"

definition cmd_mqlen :: "ext \<Rightarrow> node \<Rightarrow> addr \<Rightarrow> string option \<Rightarrow> (string option \<times> node) option" where
  "cmd_mqlen x nd c param =
     do {
       ctx \<leftarrow> nd_ctxs nd c;
       q \<leftarrow> mqs (nd_mq nd) (ctx_queue ctx);
       set_result nd c (fmt_u (mq_length q))
     }"

text \<open>\<open>skynet_log_open\<close> and \<open>skynet_log_close\<close>, without the lines they print.\<close>

definition skynet_log_open :: "ext \<Rightarrow> node \<Rightarrow> addr \<Rightarrow> u32 \<Rightarrow> (u64 \<times> node) option" where
  "skynet_log_open x nd c handle =
     (case skynet_getenv (nd_env nd) ''logpath'' of
        None \<Rightarrow> Some (0, nd)
      | Some logpath \<Rightarrow>
          (let tmp = logpath @ ''/'' @ fmt_08x handle @ ''.log'';
               f = x_fopen x tmp
           in map_option (\<lambda>nd. (f, nd)) (skynet_error x nd (Some c)
                (''Open log file '' @ tmp @ (if f \<noteq> 0 then [] else '' fail'')))))"

definition skynet_log_close :: "ext \<Rightarrow> node \<Rightarrow> addr \<Rightarrow> u64 \<Rightarrow> u32 \<Rightarrow> node option" where
  "skynet_log_close x nd c f handle = skynet_error x nd (Some c) (''Close log file :'' @ fmt_08x handle)"

definition set_logfile :: "node \<Rightarrow> addr \<Rightarrow> u64 \<Rightarrow> node option" where
  "set_logfile nd c f =
     map_option (\<lambda>ctx. nd\<lparr>nd_ctxs := (nd_ctxs nd)(c := Some (ctx\<lparr>logfile := f\<rparr>))\<rparr>) (nd_ctxs nd c)"

definition cmd_logon :: "ext \<Rightarrow> node \<Rightarrow> addr \<Rightarrow> string option \<Rightarrow> (string option \<times> node) option" where
  "cmd_logon x nd c param =
     do {
       param \<leftarrow> param;
       (handle, nd) \<leftarrow> tohandle x nd c param;
       (if handle = 0 then Some (None, nd) else
          do {
            (g, nd) \<leftarrow> node_grab nd handle;
            (case g of None \<Rightarrow> Some (None, nd) | Some g \<Rightarrow>
               do {
                 ctx \<leftarrow> nd_ctxs nd g;
                 nd \<leftarrow> (if logfile ctx = 0 then
                    do {
                      (f, nd) \<leftarrow> skynet_log_open x nd c handle;
                      (if f \<noteq> 0 then set_logfile nd g f else Some nd)
                    } else Some nd);
                 (_, nd) \<leftarrow> node_release x nd g;
                 Some (None, nd)
               })
          })
     }"

definition cmd_logoff :: "ext \<Rightarrow> node \<Rightarrow> addr \<Rightarrow> string option \<Rightarrow> (string option \<times> node) option" where
  "cmd_logoff x nd c param =
     do {
       param \<leftarrow> param;
       (handle, nd) \<leftarrow> tohandle x nd c param;
       (if handle = 0 then Some (None, nd) else
          do {
            (g, nd) \<leftarrow> node_grab nd handle;
            (case g of None \<Rightarrow> Some (None, nd) | Some g \<Rightarrow>
               do {
                 ctx \<leftarrow> nd_ctxs nd g;
                 nd \<leftarrow> (if logfile ctx \<noteq> 0 then
                    do {
                      nd \<leftarrow> set_logfile nd g 0;
                      skynet_log_close x nd c (logfile ctx) handle
                    } else Some nd);
                 (_, nd) \<leftarrow> node_release x nd g;
                 Some (None, nd)
               })
          })
     }"

definition cmd_signal :: "ext \<Rightarrow> node \<Rightarrow> addr \<Rightarrow> string option \<Rightarrow> (string option \<times> node) option" where
  "cmd_signal x nd c param =
     do {
       param \<leftarrow> param;
       (handle, nd) \<leftarrow> tohandle x nd c param;
       (if handle = 0 then Some (None, nd) else
          do {
            (g, nd) \<leftarrow> node_grab nd handle;
            (case g of None \<Rightarrow> Some (None, nd) | Some g \<Rightarrow>
               do {
                 ctx \<leftarrow> nd_ctxs nd g;
                 (let rest = dropWhile (\<lambda>ch. ch \<noteq> CHR '' '') param;
                      sig = (if rest = [] then 0 else word_of_int (strtol0 rest))
                  in do {
                       nd \<leftarrow> x_signal x (mod_ptr ctx) (instance_ptr ctx) sig nd;
                       (_, nd) \<leftarrow> node_release x nd g;
                       Some (None, nd)
                     })
               })
          })
     }"

definition cmd_funcs :: "ext \<Rightarrow>
    (string \<times> (node \<Rightarrow> addr \<Rightarrow> string option \<Rightarrow> (string option \<times> node) option)) list" where
  "cmd_funcs x =
     [(''TIMEOUT'', cmd_timeout x), (''REG'', cmd_reg x), (''QUERY'', cmd_query x), (''NAME'', cmd_name x),
      (''EXIT'', cmd_exit x), (''KILL'', cmd_kill x), (''LAUNCH'', cmd_launch x), (''GETENV'', cmd_getenv x),
      (''SETENV'', cmd_setenv x), (''STARTTIME'', cmd_starttime x), (''ENDLESS'', cmd_endless x),
      (''ABORT'', cmd_abort x), (''MONITOR'', cmd_monitor x), (''MQLEN'', cmd_mqlen x),
      (''LOGON'', cmd_logon x), (''LOGOFF'', cmd_logoff x), (''SIGNAL'', cmd_signal x)]"

text \<open>\<open>skynet_command\<close>: the first entry with the name of the command.\<close>

fun command_search :: "(string \<times> (node \<Rightarrow> addr \<Rightarrow> string option \<Rightarrow> (string option \<times> node) option)) list
    \<Rightarrow> node \<Rightarrow> addr \<Rightarrow> string \<Rightarrow> string option \<Rightarrow> (string option \<times> node) option" where
  "command_search [] nd c cmd param = Some (None, nd)"
| "command_search ((name, f) # fs) nd c cmd param =
     (if cmd = name then f nd c param else command_search fs nd c cmd param)"

definition skynet_command :: "ext \<Rightarrow> node \<Rightarrow> addr \<Rightarrow> string \<Rightarrow> string option
    \<Rightarrow> (string option \<times> node) option" where
  "skynet_command x nd c cmd param = command_search (cmd_funcs x) nd c cmd param"

text \<open>\<open>skynet_globalinit\<close>, without the thread-local key.\<close>

definition skynet_globalinit :: "node \<Rightarrow> node" where
  "skynet_globalinit nd = nd\<lparr>nd_total := 0, nd_monitor_exit := 0\<rparr>"

end
