(* ===== verification/ServerProps.thy ===== *)
theory ServerProps
  imports Server
begin

text \<open>
  What the node promises: pushing and sending keep the node well-formed and give every payload one
  owner, a batch of \<open>skynet_context_message_dispatch\<close> takes the number of messages that the weight
  of the worker asks for, and the commands that register, look up and set things agree.
\<close>

unbundle bit_operations_syntax


section \<open>Pushing keeps the node well-formed\<close>

text \<open>What a queue holds: its messages, its handle and its release mark.\<close>

definition mq_view :: "mq_state \<Rightarrow> addr \<Rightarrow> (skynet_message list \<times> u32 \<times> nat) option" where
  "mq_view st a = map_option (\<lambda>q. (mq_list q, mq_handle q, mq_release q)) (mqs st a)"

lemma unlinked_view:
  assumes "unlinked st' = unlinked st"
  shows "mq_view st' = mq_view st"
proof
  fix a
  have eq: "unlinked st' a = unlinked st a" by (rule fun_cong [OF assms])
  have "mq_view s a = map_option (\<lambda>q. (mq_list q, mq_handle q, mq_release q)) (unlinked s a)" for s
    by (simp add: mq_view_def unlinked_def option.map_comp o_def mq_list_def)
  then show "mq_view st' a = mq_view st a" using eq by simp
qed

lemma push_view:
  assumes inv: "sched_inv st H xs" and a: "mqs st a = Some q" and rel: "mq_release q = 0"
  obtains st' ys where "skynet_mq_push st a m = Some st'" "sched_inv st' H ys"
    "mq_view st' = (mq_view st)(a := Some (mq_list q @ [m], mq_handle q, 0))"
proof -
  obtain st' ys where st': "skynet_mq_push st a m = Some st'" "sched_inv st' H ys"
    using sched_send [OF inv a rel] by blast
  note ok = sched_inv_ok [OF inv a]
  then have wf: "mq_wf q" by (simp add: queue_ok_def)
  have frame: "mq_handle (mq_put q m) = mq_handle q" "mq_release (mq_put q m) = mq_release q"
    by (simp_all add: mq_put_def mq_expand_queue_def Let_def)
  have "mq_view st' = (mq_view st)(a := Some (mq_list q @ [m], mq_handle q, 0))"
  proof (cases "mq_in_global (mq_put q m) = 0")
    case True
    let ?q = "(mq_put q m)\<lparr>mq_in_global := MQ_IN_GLOBAL\<rparr>"
    have push: "skynet_globalmq_push (set_mq st a ?q) a = Some st'"
      using st'(1) a True by (simp add: skynet_mq_push_def Let_def)
    have g0: "mq_in_global q = 0" using True by simp
    then have out: "a \<notin> set xs" using ok rel by (auto simp: queue_ok_def)
    have "gq_rep (set_mq st a ?q) xs"
      using inv a by (intro gq_rep_same_next) (auto simp: sched_inv_def)
    from globalmq_push_ok [OF this _ out, of ?q] push
    have "unlinked st' = unlinked (set_mq st a ?q)" by auto
    from unlinked_view [OF this] show ?thesis
      using mq_put_list [OF wf, of m] frame rel
      by (auto simp: mq_view_def fun_eq_iff) (auto simp: mq_list_def)
  next
    case False
    then have "st' = set_mq st a (mq_put q m)"
      using st'(1) a by (simp add: skynet_mq_push_def Let_def)
    then show ?thesis using mq_put_list [OF wf, of m] frame rel
      by (auto simp: mq_view_def fun_eq_iff)
  qed
  with st' that show thesis by blast
qed

text \<open>
  A node at rest: the queues follow the scheduling protocol (\<open>H\<close> are the queues in the hands of
  workers, \<open>xs\<close> the global queue), the handle table is consistent, and every context has references
  and a queue of its own that is not marked for release.
\<close>

definition node_ok :: "node \<Rightarrow> addr set \<Rightarrow> addr list \<Rightarrow> bool" where
  "node_ok nd H xs \<longleftrightarrow> sched_inv (nd_mq nd) H xs \<and> slots_wf (nd_ctxs nd) (nd_handles nd)
     \<and> (\<forall>c ctx. nd_ctxs nd c = Some ctx \<longrightarrow> 0 < ctx_ref ctx
          \<and> (\<exists>ms. mq_view (nd_mq nd) (ctx_queue ctx) = Some (ms, ctx_handle ctx, 0)))
     \<and> (\<forall>c c' ctx ctx'. nd_ctxs nd c = Some ctx \<longrightarrow> nd_ctxs nd c' = Some ctx' \<longrightarrow>
          ctx_queue ctx = ctx_queue ctx' \<longrightarrow> c = c')"

definition node_lookup :: "node \<Rightarrow> u32 \<Rightarrow> addr option" where
  "node_lookup nd h = slot_lookup (nd_ctxs nd) (nd_handles nd) h"

definition inbox :: "node \<Rightarrow> addr \<Rightarrow> skynet_message list" where
  "inbox nd a = (case mq_view (nd_mq nd) a of None \<Rightarrow> [] | Some (ms, _) \<Rightarrow> ms)"

lemma lookup_ctx: "node_lookup nd h = Some c \<Longrightarrow> \<exists>ctx. nd_ctxs nd c = Some ctx \<and> ctx_handle ctx = h"
  by (auto simp: node_lookup_def slot_lookup_def skynet_context_handle_def split: option.splits if_splits)

lemma push_delivers:
  assumes ok: "node_ok nd H xs" and c: "node_lookup nd h = Some c" "nd_ctxs nd c = Some ctx"
  obtains mq ys where "skynet_context_push x nd h m = Some (True, nd\<lparr>nd_mq := mq\<rparr>)"
    "node_ok (nd\<lparr>nd_mq := mq\<rparr>) H ys"
    "mq_view mq = (mq_view (nd_mq nd))(ctx_queue ctx := Some (inbox nd (ctx_queue ctx) @ [m], h, 0))"
proof -
  have h: "ctx_handle ctx = h" using lookup_ctx [OF c(1)] c(2) by simp
  have pos: "0 < ctx_ref ctx" using ok c(2) by (auto simp: node_ok_def)
  obtain q where q: "mqs (nd_mq nd) (ctx_queue ctx) = Some q" "mq_handle q = h" "mq_release q = 0"
    using ok c(2) h by (fastforce simp: node_ok_def mq_view_def)
  obtain cs where cs: "skynet_context_grab (nd_ctxs nd) c = Some cs"
    "skynet_context_release cs c = Some (None, nd_ctxs nd)"
    using context_grab_release [of "nd_ctxs nd" c ctx] c(2) pos by blast
  have csc: "\<exists>ctx'. cs c = Some ctx' \<and> ctx_queue ctx' = ctx_queue ctx"
    using cs(1) c(2) by (auto simp: skynet_context_grab_def)
  obtain mq ys where mq: "skynet_mq_push (nd_mq nd) (ctx_queue ctx) m = Some mq"
    "sched_inv mq H ys"
    "mq_view mq = (mq_view (nd_mq nd))(ctx_queue ctx := Some (mq_list q @ [m], mq_handle q, 0))"
    using push_view [OF _ q(1,3), of H xs m] ok by (auto simp: node_ok_def)
  have "skynet_context_push x nd h m = Some (True, nd\<lparr>nd_mq := mq\<rparr>)"
    using c cs csc mq(1)
    by (auto simp: skynet_context_push_def node_grab_def skynet_handle_grab_def node_lookup_def
        node_mq_push_def node_release_def)
  moreover have v: "mq_view mq = (mq_view (nd_mq nd))(ctx_queue ctx := Some (inbox nd (ctx_queue ctx) @ [m], h, 0))"
    using mq(3) q by (simp add: inbox_def mq_view_def)
  moreover have "ctxa = ctx" if "nd_ctxs nd ca = Some ctxa" "ctx_queue ctxa = ctx_queue ctx" for ca ctxa
    using ok c(2) that unfolding node_ok_def by (metis option.inject)
  then have "node_ok (nd\<lparr>nd_mq := mq\<rparr>) H ys"
    using ok mq(2) c(2) h unfolding node_ok_def by (auto simp: v)
  ultimately show thesis using that by blast
qed

lemma push_fails: "node_lookup nd h = None \<Longrightarrow> skynet_context_push x nd h m = Some (False, nd)"
  by (simp add: skynet_context_push_def node_grab_def skynet_handle_grab_def node_lookup_def)


section \<open>Who owns the payload\<close>

text \<open>The heap after \<open>_filter_args\<close>, and the data pointer that is sent.\<close>

definition sent_data :: "ext \<Rightarrow> node \<Rightarrow> u32 \<Rightarrow> u64 \<Rightarrow> u64" where
  "sent_data x nd type data = (if type AND PTYPE_TAG_DONTCOPY = 0 \<and> data \<noteq> 0 then x_malloc x (nd_heap nd) else data)"

definition sent_heap :: "ext \<Rightarrow> node \<Rightarrow> u32 \<Rightarrow> u64 \<Rightarrow> bytes \<Rightarrow> heap" where
  "sent_heap x nd type data bs =
     (if type AND PTYPE_TAG_DONTCOPY = 0 \<and> data \<noteq> 0
      then (nd_heap nd)(x_malloc x (nd_heap nd) := Some (Data (bs @ [0]))) else nd_heap nd)"

text \<open>The context that sends, with its next session if one is asked for.\<close>

definition sent_session :: "u32 \<Rightarrow> u32 \<Rightarrow> skynet_context \<Rightarrow> u32 \<times> skynet_context" where
  "sent_session type session ctx =
     (if type AND PTYPE_TAG_ALLOCSESSION \<noteq> 0 then skynet_context_newsession ctx else (session, ctx))"

lemma filter_args_ok:
  assumes s: "nd_ctxs nd s = Some ctx"
    and alloc: "type AND PTYPE_TAG_ALLOCSESSION \<noteq> 0 \<Longrightarrow> session = 0"
    and copy: "type AND PTYPE_TAG_DONTCOPY = 0 \<Longrightarrow> data \<noteq> 0 \<Longrightarrow> read_data nd data (unat sz) = Some bs"
  shows "filter_args x nd (Some s) type session data sz =
    Some (fst (sent_session type session ctx), sent_data x nd type data,
      sz OR push_bit MESSAGE_TYPE_SHIFT (ucast (type AND 0xff)),
      nd\<lparr>nd_ctxs := (nd_ctxs nd)(s := Some (snd (sent_session type session ctx))),
         nd_heap := sent_heap x nd type data bs\<rparr>)"
proof -
  let ?nd = "nd\<lparr>nd_ctxs := (nd_ctxs nd)(s := Some (snd (sent_session type session ctx)))\<rparr>"
  have ses: "(if type AND PTYPE_TAG_ALLOCSESSION \<noteq> 0 then
      (if session = 0 then (case Some s of None \<Rightarrow> None | Some c \<Rightarrow> node_newsession nd c) else None)
      else Some (session, nd)) = Some (fst (sent_session type session ctx), ?nd)"
    using s alloc by (auto simp: node_newsession_def sent_session_def split_beta fun_upd_idem)
  have "read_data ?nd data (unat sz) = read_data nd data (unat sz)" by (simp add: read_data_def)
  then show ?thesis unfolding filter_args_def Let_def ses using copy
    by (auto simp: sent_data_def sent_heap_def skynet_malloc_def Let_def)
qed

lemma sent_session_frame:
  "ctx_handle (snd (sent_session type session ctx)) = ctx_handle ctx"
  "ctx_queue (snd (sent_session type session ctx)) = ctx_queue ctx"
  "ctx_ref (snd (sent_session type session ctx)) = ctx_ref ctx"
  by (auto simp: sent_session_def skynet_context_newsession_def Let_def)

text \<open>Changes of a context that the invariant does not see.\<close>

definition same_links :: "skynet_context \<Rightarrow> skynet_context \<Rightarrow> bool" where
  "same_links a b \<longleftrightarrow> ctx_handle a = ctx_handle b \<and> ctx_queue a = ctx_queue b \<and> ctx_ref a = ctx_ref b"

lemma handle_same_links:
  "cs s = Some ctx \<Longrightarrow> same_links ctx' ctx \<Longrightarrow>
     skynet_context_handle (cs(s := Some ctx')) = skynet_context_handle cs"
  by (auto simp: fun_eq_iff skynet_context_handle_def same_links_def)

lemma node_ok_same_links:
  assumes "node_ok nd H xs" "nd_ctxs nd s = Some ctx" "same_links ctx' ctx"
  shows "node_ok (nd\<lparr>nd_ctxs := (nd_ctxs nd)(s := Some ctx'), nd_heap := hp\<rparr>) H xs"
    "node_lookup (nd\<lparr>nd_ctxs := (nd_ctxs nd)(s := Some ctx'), nd_heap := hp\<rparr>) h = node_lookup nd h"
proof -
  note hs = handle_same_links [of "nd_ctxs nd" s ctx ctx', OF assms(2,3)]
  show "node_lookup (nd\<lparr>nd_ctxs := (nd_ctxs nd)(s := Some ctx'), nd_heap := hp\<rparr>) h = node_lookup nd h"
    by (simp add: node_lookup_def slot_lookup_def hs cong: option.case_cong)
  show "node_ok (nd\<lparr>nd_ctxs := (nd_ctxs nd)(s := Some ctx'), nd_heap := hp\<rparr>) H xs"
    using assms unfolding node_ok_def slots_wf_def by (auto simp: hs same_links_def)
qed

text \<open>C26: \<open>skynet_send\<close> to a service of the same node. The call returns, and whoever the destination
  is, the payload has exactly one owner afterwards. If the destination is alive, the message (with
  the sender's handle if no source is given, the session and the type in the high byte of the size)
  is appended to its queue, no other queue changes, and the queue owns the payload: the caller's
  own object, or a fresh copy of it followed by a zero byte. If the destination is not there, the
  call fails, and the copy or the caller's object is freed.\<close>

theorem send_owns_payload:
  assumes ok: "node_ok nd H xs" and s: "nd_ctxs nd s = Some ctx"
    and alloc: "type AND PTYPE_TAG_ALLOCSESSION \<noteq> 0 \<Longrightarrow> session = 0"
    and copy: "type AND PTYPE_TAG_DONTCOPY = 0 \<Longrightarrow> data \<noteq> 0 \<Longrightarrow> read_data nd data (unat sz) = Some bs"
    and given: "type AND PTYPE_TAG_DONTCOPY \<noteq> 0 \<Longrightarrow> data \<noteq> 0 \<Longrightarrow> nd_heap nd data \<noteq> None"
    and fresh: "x_malloc x (nd_heap nd) \<noteq> 0" "nd_heap nd (x_malloc x (nd_heap nd)) = None"
    and sz: "sz AND MESSAGE_TYPE_MASK = sz"
    and dst: "dst \<noteq> 0" "skynet_harbor_message_isremote nd dst = Some False"
  shows "\<exists>r nd' ys. skynet_send x nd (Some s) src dst type session data sz = Some (r, nd') \<and>
    node_ok nd' H ys \<and>
    (case node_lookup nd dst of
       Some c \<Rightarrow>
         r = Some (fst (sent_session type session ctx)) \<and>
         nd_heap nd' = sent_heap x nd type data bs \<and>
         mq_view (nd_mq nd') = (mq_view (nd_mq nd))(ctx_queue (the (nd_ctxs nd c)) :=
           Some (inbox nd (ctx_queue (the (nd_ctxs nd c))) @
             [\<lparr>msg_source = (if src = 0 then ctx_handle ctx else src),
               msg_session = fst (sent_session type session ctx),
               msg_data = sent_data x nd type data,
               msg_sz = sz OR push_bit MESSAGE_TYPE_SHIFT (ucast (type AND 0xff))\<rparr>], dst, 0))
     | None \<Rightarrow>
         r = None \<and> mq_view (nd_mq nd') = mq_view (nd_mq nd) \<and>
         nd_heap nd' = (if type AND PTYPE_TAG_DONTCOPY \<noteq> 0 \<and> data \<noteq> 0
           then (nd_heap nd)(data := None) else nd_heap nd))"
proof -
  let ?ctx = "snd (sent_session type session ctx)"
  let ?nd = "nd\<lparr>nd_ctxs := (nd_ctxs nd)(s := Some ?ctx), nd_heap := sent_heap x nd type data bs\<rparr>"
  let ?src = "if src = 0 then ctx_handle ctx else src"
  let ?m = "\<lparr>msg_source = ?src, msg_session = fst (sent_session type session ctx),
    msg_data = sent_data x nd type data, msg_sz = sz OR push_bit MESSAGE_TYPE_SHIFT (ucast (type AND 0xff))\<rparr>"
  have links: "same_links ?ctx ctx" by (simp add: same_links_def sent_session_frame)
  note frame = node_ok_same_links [OF ok s links, of "sent_heap x nd type data bs"]
  have src: "(if src = 0 then Option.bind (Some s) (skynet_context_handle (nd_ctxs ?nd)) else Some src) = Some ?src"
    by (simp add: skynet_context_handle_def sent_session_frame)
  have remote: "skynet_harbor_message_isremote ?nd dst = Some False"
    using dst(2) by (simp add: skynet_harbor_message_isremote_def Let_def split: if_splits)
  have fa: "filter_args x nd (Some s) type session data sz = Some (fst (sent_session type session ctx),
      sent_data x nd type data, sz OR push_bit MESSAGE_TYPE_SHIFT (ucast (type AND 0xff)), ?nd)"
    by (rule filter_args_ok) (use s alloc copy in auto)
  have run: "skynet_send x nd (Some s) src dst type session data sz =
     do {
       (ok, nd') \<leftarrow> skynet_context_push x ?nd dst ?m;
       if ok then Some (Some (fst (sent_session type session ctx)), nd')
       else do { nd'' \<leftarrow> skynet_free nd' (sent_data x nd type data); Some (None, nd'') }
     }"
    unfolding skynet_send_def fa using sz dst(1) src remote by (cases "src = 0") (simp_all cong: if_cong)
  show ?thesis
  proof (cases "node_lookup nd dst")
    case None
    then have "skynet_context_push x ?nd dst ?m = Some (False, ?nd)"
      using frame(2) by (intro push_fails) simp
    let ?h = "if type AND PTYPE_TAG_DONTCOPY \<noteq> 0 \<and> data \<noteq> 0 then (nd_heap nd)(data := None) else nd_heap nd"
    have "skynet_free ?nd (sent_data x nd type data) = Some (?nd\<lparr>nd_heap := ?h\<rparr>)"
      using fresh given by (cases "data = 0") (auto simp: skynet_free_def sent_data_def sent_heap_def fun_upd_idem)
    with \<open>skynet_context_push x ?nd dst ?m = _\<close>
    have "skynet_send x nd (Some s) src dst type session data sz = Some (None, ?nd\<lparr>nd_heap := ?h\<rparr>)"
      unfolding run by simp
    moreover have "node_ok (?nd\<lparr>nd_heap := ?h\<rparr>) H xs"
      using node_ok_same_links(1) [OF ok s links, of ?h] by simp
    ultimately show ?thesis using None by auto
  next
    case (Some c)
    then obtain cc where cc: "nd_ctxs nd c = Some cc" using lookup_ctx by blast
    then obtain cc' where cc': "nd_ctxs ?nd c = Some cc'" "ctx_queue cc' = ctx_queue cc"
      using s by (cases "c = s") (auto simp: sent_session_frame)
    have "node_lookup ?nd dst = Some c" using Some frame(2) by simp
    from push_delivers [OF frame(1) this cc'(1)] obtain mq ys where
      "skynet_context_push x ?nd dst ?m = Some (True, ?nd\<lparr>nd_mq := mq\<rparr>)" "node_ok (?nd\<lparr>nd_mq := mq\<rparr>) H ys"
      "mq_view mq = (mq_view (nd_mq ?nd))(ctx_queue cc' := Some (inbox ?nd (ctx_queue cc') @ [?m], dst, 0))"
      by blast
    then show ?thesis unfolding run using Some cc cc'(2)
      by (intro exI [of _ "Some (fst (sent_session type session ctx))"] exI [of _ "?nd\<lparr>nd_mq := mq\<rparr>"] exI [of _ ys])
        (simp add: inbox_def)
  qed
qed

text \<open>A node with one service, whose handle is 1, and a heap with one object.\<close>

definition sample_service :: skynet_context where
  "sample_service = (new_context 1 1)\<lparr>ctx_handle := 1, ctx_queue := 7, ctx_ref := 1, ctx_init := True, cb := 1\<rparr>"

definition sample_ext :: ext where
  "sample_ext = \<lparr>x_malloc = (\<lambda>_. 100), x_new_ctx = (\<lambda>_. 0), x_new_mq = (\<lambda>_. 0), x_query = (\<lambda>_. None),
     x_create = (\<lambda>_. None), x_init = (\<lambda>_ _ _ _ nd. Some (True, nd)), x_release = (\<lambda>_ _. Some),
     x_signal = (\<lambda>_ _ _. Some), x_callback = (\<lambda>_ _ _ _ _ _ _ _ nd. Some (True, nd)), x_fopen = (\<lambda>_. 0)\<rparr>"

definition sample_node :: node where
  "sample_node = \<lparr>nd_ctxs = (\<lambda>_. None)(3 := Some sample_service),
     nd_handles = (skynet_handle_init 0)\<lparr>slot := [None, Some 3, None, None], handle_index := 2\<rparr>,
     nd_mq = skynet_mq_create skynet_mq_init 7 1, nd_timer = timer_create_timer, nd_env = skynet_env_init,
     nd_heap = (\<lambda>_. None)(5 := Some (Data [8, 9])), nd_total = 1, nd_monitor_exit = 0, nd_remote = None,
     nd_harbor = 0, nd_logger = 0\<rparr>"

lemma sample_handle: "skynet_context_handle (nd_ctxs sample_node) = (\<lambda>c. if c = 3 then Some 1 else None)"
  by (auto simp: sample_node_def sample_service_def skynet_context_handle_def fun_eq_iff)

lemma sample_lookup: "node_lookup sample_node h = (if h = 1 then Some 3 else None)"
proof -
  have s: "slot_hash h 4 < 4" "slot_hash 1 4 = 1"
    using slot_hash_pow2 [of 2 h] slot_hash_pow2 [of 2 1] by simp_all
  have "slot_hash h 4 \<in> {0, 1, 2, 3}" using s(1) by auto
  moreover have "nd_handles sample_node = (skynet_handle_init 0)\<lparr>slot := [None, Some 3, None, None], handle_index := 2\<rparr>"
    by (simp add: sample_node_def)
  ultimately show ?thesis using s(2)
    by (auto simp: node_lookup_def slot_lookup_def sample_handle skynet_handle_init_def DEFAULT_SLOT_SIZE_def)
qed

lemma sample_slots: "slots_wf (nd_ctxs sample_node) (nd_handles sample_node)"
proof -
  have h: "nd_handles sample_node = (skynet_handle_init 0)\<lparr>slot := [None, Some 3, None, None], handle_index := 2\<rparr>"
    by (simp add: sample_node_def)
  have s1: "slot_hash 1 4 = 1" using slot_hash_pow2 [of 2 1] by simp
  have four: "(4::nat) = 2 ^ 2" by simp
  show ?thesis
    unfolding slots_wf_def sample_handle h
  proof (intro conjI allI impI)
    show "\<exists>k. 2 \<le> k \<and> k \<le> 24 \<and>
       slot_size ((skynet_handle_init 0)\<lparr>slot := [None, Some 3, None, None], handle_index := 2\<rparr>) = 2 ^ k"
      by (rule exI [of _ 2]) (simp add: skynet_handle_init_def DEFAULT_SLOT_SIZE_def)
    fix i c assume "i < slot_size ((skynet_handle_init 0)\<lparr>slot := [None, Some 3, None, None], handle_index := 2\<rparr>)"
      "slot ((skynet_handle_init 0)\<lparr>slot := [None, Some 3, None, None], handle_index := 2\<rparr>) ! i = Some c"
    then have "i = 1 \<and> c = 3"
      by (auto simp: skynet_handle_init_def DEFAULT_SLOT_SIZE_def nth_Cons numeral_eq_Suc less_Suc_eq split: nat.splits)
    then show "\<exists>h. (if c = 3 then Some 1 else None) = Some h \<and>
       slot_hash h (slot_size ((skynet_handle_init 0)\<lparr>slot := [None, Some 3, None, None], handle_index := 2\<rparr>)) = i"
      using s1 by (simp add: skynet_handle_init_def DEFAULT_SLOT_SIZE_def)
  qed (simp_all add: skynet_handle_init_def DEFAULT_SLOT_SIZE_def)
qed

lemma sample_ok: "node_ok sample_node {7} []"
proof -
  have "sched_inv (nd_mq sample_node) {7} []"
    using sched_create [OF sched_init, of 7 1] by (simp add: sample_node_def skynet_mq_init_def)
  moreover have "mq_view (nd_mq sample_node) 7 = Some ([], 1, 0)"
    by (simp add: sample_node_def mq_view_def skynet_mq_create_def mq_create_list) (simp add: mq_create_def)
  ultimately show ?thesis
    unfolding node_ok_def using sample_slots
    by (auto simp: sample_node_def sample_service_def split: if_splits)
qed

theorem send_owns_payload_witness:
  "\<exists>r nd'. skynet_send sample_ext sample_node (Some 3) 0 1 0 9 5 2 = Some (r, nd') \<and> r = Some 9 \<and>
     nd_heap nd' = (nd_heap sample_node)(100 := Some (Data [8, 9, 0])) \<and>
     mq_view (nd_mq nd') 7 = Some ([\<lparr>msg_source = 1, msg_session = 9, msg_data = 100, msg_sz = 2\<rparr>], 1, 0)"
proof -
  have hp: "nd_heap sample_node = (\<lambda>_. None)(5 := Some (Data [8, 9]))" by (simp add: sample_node_def)
  have rd: "read_data sample_node 5 2 = Some [8, 9]" by (simp add: read_data_def hp)
  have cx: "nd_ctxs sample_node 3 = Some sample_service" by (simp add: sample_node_def)
  have ib: "inbox sample_node 7 = []"
    by (simp add: inbox_def sample_node_def mq_view_def skynet_mq_create_def mq_create_list)
  have q: "ctx_queue sample_service = 7" "ctx_handle sample_service = 1" by (simp_all add: sample_service_def)
  have m: "x_malloc sample_ext h = 100" for h by (simp add: sample_ext_def)
  have m2: "(2::u64) AND MESSAGE_TYPE_MASK = 2"
    using take_bit_eq_mask [of 56 "2::u64"] by (simp add: MESSAGE_TYPE_MASK_def)
  have rm: "skynet_harbor_message_isremote sample_node 1 = Some False"
    by (simp add: skynet_harbor_message_isremote_def sample_node_def HANDLE_MASK_def)
  obtain r nd' ys where r: "skynet_send sample_ext sample_node (Some 3) 0 1 0 9 5 2 = Some (r, nd')"
    "r = Some (fst (sent_session 0 9 sample_service))" "nd_heap nd' = sent_heap sample_ext sample_node 0 5 [8, 9]"
    "mq_view (nd_mq nd') = (mq_view (nd_mq sample_node))(7 :=
           Some ([\<lparr>msg_source = 1, msg_session = fst (sent_session 0 9 sample_service),
               msg_data = sent_data sample_ext sample_node 0 5,
               msg_sz = 2 OR push_bit MESSAGE_TYPE_SHIFT (ucast ((0::u32) AND 0xff))\<rparr>], 1, 0))"
    using send_owns_payload [OF sample_ok cx, of 0 9 5 2 "[8, 9]" sample_ext 1 0]
    by (auto simp: rd m hp rm m2 sample_lookup cx q ib)
  show ?thesis
    using r(1-3) fun_cong [OF r(4), of 7]
    by (intro exI conjI) (simp_all add: sent_session_def sent_heap_def sent_data_def m)
qed

section \<open>Batches\<close>

text \<open>The number of messages that a worker takes: one, or the rest of the queue divided by a power of two.\<close>

definition batch_size :: "int \<Rightarrow> nat \<Rightarrow> nat" where
  "batch_size weight rest = (if weight < 0 then 1 else max 1 (rest div 2 ^ nat weight))"

text \<open>
  A service that takes its messages and leaves the node alone, on a node without a logger (a logger
  is sent the overload warnings).
\<close>

definition calm :: "ext \<Rightarrow> node \<Rightarrow> addr \<Rightarrow> skynet_context \<Rightarrow> bool" where
  "calm x nd c ctx \<longleftrightarrow> nd_logger nd = 0 \<and> skynet_handle_findname (nd_handles nd) ''logger'' = 0
     \<and> cb ctx \<noteq> 0 \<and> ctx_init ctx
     \<and> (\<forall>ud type ses src data sz nd. x_callback x (cb ctx) c ud type ses src data sz nd = Some (True, nd))"

lemma handle_one_calm:
  assumes "calm x nd c ctx" "nd_ctxs nd c = Some ctx" "mqs (nd_mq nd) q = Some mq"
  shows "\<exists>sm'. handle_one x nd sm q c h m =
    Some (sm', nd\<lparr>nd_mq := set_mq (nd_mq nd) q (snd (mq_overload mq))\<rparr>)"
proof -
  have e: "skynet_error x (nd\<lparr>nd_mq := st\<rparr>) (Some c) s = Some (nd\<lparr>nd_mq := st\<rparr>)" for st s
    using assms(1) by (cases nd) (simp add: skynet_error_def calm_def)
  show ?thesis
    using assms e by (auto simp: handle_one_def split_beta dispatch_message_def calm_def Let_def)
qed

lemma overload_view:
  "mqs st q = Some mq \<Longrightarrow> mq_view (set_mq st q (snd (mq_overload mq))) = mq_view st"
  by (auto simp: mq_view_def fun_eq_iff mq_overload_def mq_list_def)

text \<open>One round of the loop.\<close>

lemma batch_round:
  assumes "calm x nd c ctx" "nd_ctxs nd c = Some ctx" "sched_inv (nd_mq nd) H xs" "q \<in> H"
    "mq_view (nd_mq nd) q = Some (m # ms, h, r)" "i < n"
  shows "\<exists>sm' st.
    batch_loop x nd sm q c h weight i n = batch_loop x (nd\<lparr>nd_mq := st\<rparr>) sm' q c h weight (Suc i)
       (if i = 0 \<and> 0 \<le> weight then length ms div 2 ^ nat weight else n) \<and>
    sched_inv st H xs \<and> mq_view st = (mq_view (nd_mq nd))(q := Some (ms, h, r))"
proof -
  obtain mq where mq: "mqs (nd_mq nd) q = Some mq" "mq_list mq = m # ms" "mq_handle mq = h" "mq_release mq = r"
    using assms(5) by (auto simp: mq_view_def)
  from sched_pop [OF assms(3,4) mq(1)] mq(2) obtain mq' where
    mq': "mq_pop mq = Some (Some m, mq')" "mq_list mq' = ms" 
      "skynet_mq_pop (nd_mq nd) q = Some (Some m, set_mq (nd_mq nd) q mq')"
      "sched_inv (set_mq (nd_mq nd) q mq') H xs" by auto
  have wf: "mq_wf mq" using sched_inv_ok [OF assms(3) mq(1)] by (simp add: queue_ok_def)
  from mq_pop_Cons [OF wf mq(2)] mq'(1)
  have res: "overload_result (length ms) (mq\<lparr>mq_head := mq_head mq'\<rparr>) mq'" by auto
  have frame: "mq_handle mq' = h" "mq_release mq' = r"
    using overload_result_frame(1,2) [OF res] mq(3,4) by simp_all
  let ?nd = "nd\<lparr>nd_mq := set_mq (nd_mq nd) q mq'\<rparr>"
  let ?st = "set_mq (nd_mq ?nd) q (snd (mq_overload mq'))"
  have "calm x ?nd c ctx" using assms(1) by (simp add: calm_def)
  from handle_one_calm [OF this, of q mq' sm h m] assms(2) obtain sm' where
    one: "handle_one x ?nd sm q c h m = Some (sm', ?nd\<lparr>nd_mq := ?st\<rparr>)" by auto
  have len: "drop_bit (nat weight) (mq_length mq') = length ms div 2 ^ nat weight"
    using mq'(2) by (simp add: mq_length_list drop_bit_eq_div)
  have "batch_loop x nd sm q c h weight i n = batch_loop x (nd\<lparr>nd_mq := ?st\<rparr>) sm' q c h weight (Suc i)
       (if i = 0 \<and> 0 \<le> weight then length ms div 2 ^ nat weight else n)"
    unfolding batch_loop.simps [of x nd sm q c h weight i n]
    using assms(6) by (simp add: mq'(3) one len Let_def)
  moreover have "sched_inv ?st H xs"
    using sched_overload [OF mq'(4), of q mq'] by simp
  moreover have "mq_view ?st = (mq_view (nd_mq nd))(q := Some (ms, h, r))"
    using overload_view [of "set_mq (nd_mq nd) q mq'" q mq'] mq'(2) frame
    by (auto simp: mq_view_def fun_eq_iff)
  ultimately show ?thesis by blast
qed

lemma batch_rest:
  assumes "calm x nd c ctx" "nd_ctxs nd c = Some ctx" "sched_inv (nd_mq nd) H xs" "q \<in> H"
    "mq_view (nd_mq nd) q = Some (ms, h, r)" "1 \<le> i" "i \<le> n" "n - i \<le> length ms"
  shows "\<exists>sm' st. batch_loop x nd sm q c h weight i n = Some (True, sm', nd\<lparr>nd_mq := st\<rparr>) \<and>
    sched_inv st H xs \<and> mq_view st = (mq_view (nd_mq nd))(q := Some (drop (n - i) ms, h, r))"
  using assms
proof (induction "n - i" arbitrary: i nd ms sm)
  case 0
  then have "batch_loop x nd sm q c h weight i n = Some (True, sm, nd\<lparr>nd_mq := nd_mq nd\<rparr>)"
    by (subst batch_loop.simps) simp
  moreover have "mq_view (nd_mq nd) = (mq_view (nd_mq nd))(q := Some (drop (n - i) ms, h, r))"
    using 0 by (simp add: fun_upd_idem)
  ultimately show ?case using 0 by blast
next
  case (Suc k)
  then obtain m ms' where ms: "ms = m # ms'" by (cases ms) auto
  from Suc have "i < n" by simp
  from batch_round [OF Suc.prems(1-4) Suc.prems(5) [unfolded ms] this, of sm weight] Suc.prems(6)
  obtain sm' st where r: "batch_loop x nd sm q c h weight i n = batch_loop x (nd\<lparr>nd_mq := st\<rparr>) sm' q c h weight (Suc i) n"
    "sched_inv st H xs" "mq_view st = (mq_view (nd_mq nd))(q := Some (ms', h, r))" by auto
  have "\<exists>sm'' st'. batch_loop x (nd\<lparr>nd_mq := st\<rparr>) sm' q c h weight (Suc i) n
      = Some (True, sm'', nd\<lparr>nd_mq := st\<rparr>\<lparr>nd_mq := st'\<rparr>) \<and>
    sched_inv st' H xs \<and> mq_view st' = (mq_view st)(q := Some (drop (n - Suc i) ms', h, r))"
    using Suc.hyps(1) [of "Suc i" "nd\<lparr>nd_mq := st\<rparr>" ms' sm'] Suc.hyps(2) Suc.prems r ms
    by (simp add: calm_def)
  moreover have "n - i = Suc (n - Suc i)" using \<open>i < n\<close> by simp
  ultimately show ?case using r ms by auto
qed

lemma batch_ok:
  assumes "calm x nd c ctx" "nd_ctxs nd c = Some ctx" "sched_inv (nd_mq nd) H xs" "q \<in> H"
    "mq_view (nd_mq nd) q = Some (m # ms, h, r)"
  shows "\<exists>sm' st. batch_loop x nd sm q c h weight 0 1 = Some (True, sm', nd\<lparr>nd_mq := st\<rparr>) \<and>
    sched_inv st H xs \<and>
    mq_view st = (mq_view (nd_mq nd))(q := Some (drop (batch_size weight (length ms)) (m # ms), h, r))"
proof -
  from batch_round [OF assms, of 0 1 sm weight] obtain sm' st where
    r: "batch_loop x nd sm q c h weight 0 1 = batch_loop x (nd\<lparr>nd_mq := st\<rparr>) sm' q c h weight 1
       (if 0 \<le> weight then length ms div 2 ^ nat weight else 1)"
    "sched_inv st H xs" "mq_view st = (mq_view (nd_mq nd))(q := Some (ms, h, r))" by auto
  let ?n = "if 0 \<le> weight then length ms div 2 ^ nat weight else 1"
  have b: "batch_size weight (length ms) = (if 1 \<le> ?n then ?n else 1)" by (auto simp: batch_size_def)
  show ?thesis
  proof (cases "1 \<le> ?n")
    case True
    have "length ms div 2 ^ nat weight \<le> length ms" by (rule div_le_dividend)
    then have "?n - 1 \<le> length ms" by (auto intro: le_trans [OF diff_le_self])
    from batch_rest [of x "nd\<lparr>nd_mq := st\<rparr>" c ctx H xs q ms h r 1 ?n sm' weight] True this assms r
    obtain sm'' st' where "batch_loop x (nd\<lparr>nd_mq := st\<rparr>) sm' q c h weight 1 ?n
        = Some (True, sm'', nd\<lparr>nd_mq := st'\<rparr>)" "sched_inv st' H xs"
      "mq_view st' = (mq_view st)(q := Some (drop (?n - 1) ms, h, r))"
      by (auto simp: calm_def)
    moreover have "drop (batch_size weight (length ms)) (m # ms) = drop (?n - 1) ms"
      using True b by (cases ?n) auto
    ultimately show ?thesis using r by auto
  next
    case False
    then have "batch_loop x (nd\<lparr>nd_mq := st\<rparr>) sm' q c h weight 1 ?n = Some (True, sm', nd\<lparr>nd_mq := st\<rparr>)"
      by (subst batch_loop.simps) simp
    moreover have "drop (batch_size weight (length ms)) (m # ms) = ms" using False b by simp
    ultimately show ?thesis using r by auto
  qed
qed


text \<open>Three messages wait for the sample service and no other queue does.\<close>

definition sample_messages :: "skynet_message list" where
  "sample_messages = map (\<lambda>i. \<lparr>msg_source = 1, msg_session = i, msg_data = 0, msg_sz = 0\<rparr>) [1, 2, 3]"

lemma sample_pushed:
  "\<exists>mq ys. node_ok (sample_node\<lparr>nd_mq := mq\<rparr>) {7} ys \<and> mq_view mq 7 = Some (ms, 1, 0)"
proof (induction ms rule: rev_induct)
  case Nil
  have "mq_view (nd_mq sample_node) 7 = Some ([], 1, 0)"
    by (simp add: sample_node_def mq_view_def skynet_mq_create_def mq_create_list) (simp add: mq_create_def)
  then show ?case using sample_ok by (intro exI [of _ "nd_mq sample_node"]) auto
next
  case (snoc m ms)
  then obtain mq ys where mq: "node_ok (sample_node\<lparr>nd_mq := mq\<rparr>) {7} ys" "mq_view mq 7 = Some (ms, 1, 0)" by blast
  have l: "node_lookup (sample_node\<lparr>nd_mq := mq\<rparr>) 1 = Some 3"
    using sample_lookup [of 1] by (simp add: node_lookup_def)
  have cx: "nd_ctxs (sample_node\<lparr>nd_mq := mq\<rparr>) 3 = Some sample_service" "ctx_queue sample_service = 7"
    by (simp_all add: sample_node_def sample_service_def)
  from push_delivers [OF mq(1) l cx(1), of sample_ext m] obtain mq' ys' where
    "node_ok (sample_node\<lparr>nd_mq := mq\<rparr>\<lparr>nd_mq := mq'\<rparr>) {7} ys'"
    "mq_view mq' = (mq_view (nd_mq (sample_node\<lparr>nd_mq := mq\<rparr>)))(ctx_queue sample_service :=
       Some (inbox (sample_node\<lparr>nd_mq := mq\<rparr>) (ctx_queue sample_service) @ [m], 1, 0))" by blast
  then show ?case using mq(2) cx(2) by (intro exI [of _ mq'] exI [of _ ys']) (simp add: inbox_def)
qed

section \<open>Commands\<close>

text \<open>Names: when a service gives itself a name that is free (command \<open>REG\<close>), the command answers
  the name; from then on every service that asks for the name (command \<open>QUERY\<close>) gets the text of
  the handle, which \<open>tohandle\<close>, the reader of all commands, turns back into the handle, and no
  service can take the name over.\<close>

theorem reg_then_query:
  assumes "names_wf (nd_handles nd)" "name_cap (nd_handles nd) \<le> 2 + 2 * name_count (nd_handles nd)"
    "name_count (nd_handles nd) < 2 ^ 28" "name_map (nd_handles nd) nm = None"
    "nd_ctxs nd c = Some ctx" "ctx_handle ctx \<noteq> 0" "nd_ctxs nd d = Some dtx"
  shows "\<exists>nd1 nd2. skynet_command x nd c ''REG'' (Some (CHR ''.'' # nm)) = Some (Some nm, nd1) \<and>
    skynet_command x nd1 d ''QUERY'' (Some (CHR ''.'' # nm)) = Some (Some (CHR '':'' # fmt_x (ctx_handle ctx)), nd2) \<and>
    tohandle x nd2 d (CHR '':'' # fmt_x (ctx_handle ctx)) = Some (ctx_handle ctx, nd2) \<and>
    skynet_command x nd1 d ''REG'' (Some (CHR ''.'' # nm)) = Some (None, nd1)"
proof -
  let ?h = "ctx_handle ctx"
  obtain r hs where hs: "skynet_handle_namehandle (nd_handles nd) ?h nm = Some (r, hs)"
    using namehandle_returns [OF assms(1,2,3), of ?h nm] by blast
  note new = namehandle_new [OF assms(1,4) hs]
  let ?nd = "nd\<lparr>nd_handles := hs\<rparr>"
  have reg: "skynet_command x nd c ''REG'' (Some (CHR ''.'' # nm)) = Some (Some nm, ?nd)"
    using assms(5) hs new
    by (simp add: skynet_command_def cmd_funcs_def cmd_reg_def skynet_context_handle_def first_char_def)
  have find: "skynet_handle_findname hs nm = ?h"
    using findname_map [of hs nm] new by simp
  let ?nd2 = "?nd\<lparr>nd_ctxs := (nd_ctxs nd)(d := Some (dtx\<lparr>ctx_result := CHR '':'' # fmt_x ?h\<rparr>))\<rparr>"
  have query: "skynet_command x ?nd d ''QUERY'' (Some (CHR ''.'' # nm)) = Some (Some (CHR '':'' # fmt_x ?h), ?nd2)"
    using assms(6,7) find
    by (simp add: skynet_command_def cmd_funcs_def cmd_query_def first_char_def set_result_def Let_def)
  have rd: "tohandle x ?nd2 d (CHR '':'' # fmt_x ?h) = Some (?h, ?nd2)"
    by (simp add: tohandle_def first_char_def hex_handle_def strtoul16_fmt_x)
  have again: "skynet_command x ?nd d ''REG'' (Some (CHR ''.'' # nm)) = Some (None, ?nd)"
    using assms(7) namehandle_bound [of hs nm ?h] new
    by (simp add: skynet_command_def cmd_funcs_def cmd_reg_def skynet_context_handle_def first_char_def)
  show ?thesis by (intro exI conjI) (rule reg query rd again)+
qed

lemma sample_names: "names_wf (nd_handles sample_node)" "name_map (nd_handles sample_node) n = None"
  "name_cap (nd_handles sample_node) = 2" "name_count (nd_handles sample_node) = 0"
  by (simp_all add: sample_node_def skynet_handle_init_def names_wf_def name_map_def live_names_def)

theorem reg_then_query_witness:
  "\<exists>nd1 nd2. skynet_command sample_ext sample_node 3 ''REG'' (Some ''.gate'') = Some (Some ''gate'', nd1) \<and>
     skynet_command sample_ext nd1 3 ''QUERY'' (Some ''.gate'') = Some (Some '':1'', nd2)"
proof -
  have cx: "nd_ctxs sample_node 3 = Some sample_service" "ctx_handle sample_service = 1"
    by (simp_all add: sample_node_def sample_service_def)
  have f: "fmt_x 1 = ''1''" by (simp add: fmt_x_def radix.simps lower_digit_def)
  show ?thesis
    using reg_then_query [of sample_node "''gate''" 3 sample_service 3 sample_service sample_ext] cx
    by (simp add: sample_names f del: One_nat_def) blast
qed

text \<open>Timeouts. The command \<open>TIMEOUT\<close> with a positive number of ticks answers the decimal text
  of a fresh session of the caller, which reads back as that session, and arms the timer with one
  more node: for the caller, with that session, due after exactly that many ticks.\<close>

theorem timeout_command:
  assumes "nd_ctxs nd c = Some ctx" "wheel_inv (nd_timer nd)" "0 < t" "t < 2 ^ 31"
  shows "let (session, ctx') = skynet_context_newsession ctx;
             (_, T) = skynet_timeout (nd_timer nd) (ctx_handle ctx) (word_of_int t) session
         in skynet_command x nd c ''TIMEOUT'' (Some (fmt_d t)) =
              Some (Some (fmt_d (sint session)), nd\<lparr>nd_timer := T,
                nd_ctxs := (nd_ctxs nd)(c := Some (ctx'\<lparr>ctx_result := fmt_d (sint session)\<rparr>))\<rparr>)
            \<and> strtol10 (fmt_d (sint session)) = sint session
            \<and> pending T = (\<lambda>e. pending (nd_timer nd) e @ (if e = now (nd_timer nd) + word_of_int t
                then [\<lparr>tn_expire = e, tn_event = \<lparr>te_handle = ctx_handle ctx, te_session = session\<rparr>\<rparr>] else []))"
proof -
  obtain session ctx' where ses: "skynet_context_newsession ctx = (session, ctx')" by force
  then have frame: "ctx_handle ctx' = ctx_handle ctx"
    by (auto simp: skynet_context_newsession_def Let_def split: if_splits)
  have st: "strtol10 (fmt_d t) = t" using assms(3,4) by (intro strtol10_fmt_d) simp_all
  have "sint (word_of_int t :: u32) = t"
    using assms(3,4) by (simp add: signed_take_bit_int_eq_self sint_sbintrunc')
  then have pos: "0 < sint (word_of_int t :: u32)" using assms(3) by simp
  let ?T = "skynet_timeout (nd_timer nd) (ctx_handle ctx) (word_of_int t) session"
  obtain m where T: "?T = (None, m)"
    using pos by (simp add: skynet_timeout_def)
  note tp = timeout_adds [OF assms(2), of "ctx_handle ctx" "word_of_int t" session, unfolded T]
  have "skynet_command x nd c ''TIMEOUT'' (Some (fmt_d t)) =
      Some (Some (fmt_d (sint session)), nd\<lparr>nd_timer := m,
        nd_ctxs := (nd_ctxs nd)(c := Some (ctx'\<lparr>ctx_result := fmt_d (sint session)\<rparr>))\<rparr>)"
    using assms(1) ses T frame
    by (simp add: skynet_command_def cmd_funcs_def cmd_timeout_def node_newsession_def st
        skynet_context_handle_def set_result_def)
  moreover have "strtol10 (fmt_d (sint session)) = sint session"
    using sint_range_size [of session] by (intro strtol10_fmt_d) (simp_all add: word_size)
  ultimately show ?thesis using tp pos by (simp add: ses T)
qed

theorem timeout_command_witness:
  "\<exists>nd. skynet_command sample_ext sample_node 3 ''TIMEOUT'' (Some ''25'') = Some (Some ''1'', nd)"
proof -
  have cx: "nd_ctxs sample_node 3 = Some sample_service" by (simp add: sample_node_def)
  have w: "wheel_inv (nd_timer sample_node)" by (simp add: sample_node_def create_inv)
  have f: "fmt_d 25 = ''25''" "fmt_d 1 = ''1''"
    by (simp_all add: fmt_d_def radix.simps lower_digit_def)
  have n: "fst (skynet_context_newsession sample_service) = 1"
    by (simp add: skynet_context_newsession_def sample_service_def new_context_def Let_def)
  show ?thesis
    using timeout_command [OF cx w, of 25 sample_ext] n f
    by (auto simp: Let_def split: prod.splits)
qed
section \<open>Messages to nobody\<close>

text \<open>Destination 0. \<open>skynet_send\<close> with destination 0 answers the session without sending
  anything, as the services that only want a session expect; but a payload that comes with it is
  lost: the copy that \<open>_filter_args\<close> made stays on the heap, and no queue refers to it.\<close>

theorem send_to_zero_leaks:
  assumes "nd_ctxs nd s = Some ctx" "type AND PTYPE_TAG_DONTCOPY = 0" "type AND PTYPE_TAG_ALLOCSESSION = 0"
    "data \<noteq> 0" "read_data nd data (unat sz) = Some bs" "sz AND MESSAGE_TYPE_MASK = sz"
    "nd_heap nd (x_malloc x (nd_heap nd)) = None"
  shows "\<exists>nd'. skynet_send x nd (Some s) src 0 type session data sz = Some (Some session, nd') \<and>
    nd_mq nd' = nd_mq nd \<and> nd_heap nd' = (nd_heap nd)(x_malloc x (nd_heap nd) := Some (Data (bs @ [0])))"
proof -
  have fa: "filter_args x nd (Some s) type session data sz = Some (fst (sent_session type session ctx),
      sent_data x nd type data, sz OR push_bit MESSAGE_TYPE_SHIFT (ucast (type AND 0xff)),
      nd\<lparr>nd_ctxs := (nd_ctxs nd)(s := Some (snd (sent_session type session ctx))),
         nd_heap := sent_heap x nd type data bs\<rparr>)"
    by (rule filter_args_ok) (use assms in auto)
  show ?thesis
    using assms by (cases "src = 0")
      (auto simp: skynet_send_def fa sent_session_def sent_heap_def skynet_context_handle_def)
qed

theorem send_to_zero_leaks_witness:
  "\<exists>nd'. skynet_send sample_ext sample_node (Some 3) 0 0 0 9 5 2 = Some (Some 9, nd') \<and>
     nd_mq nd' = nd_mq sample_node \<and> nd_heap nd' 100 = Some (Data [8, 9, 0])"
proof -
  have cx: "nd_ctxs sample_node 3 = Some sample_service" by (simp add: sample_node_def)
  have rd: "read_data sample_node 5 (unat (2::u64)) = Some [8, 9]" by (simp add: read_data_def sample_node_def)
  have m2: "(2::u64) AND MESSAGE_TYPE_MASK = 2"
    using take_bit_eq_mask [of 56 "2::u64"] by (simp add: MESSAGE_TYPE_MASK_def)
  have m: "x_malloc sample_ext h = 100" for h by (simp add: sample_ext_def)
  have free: "nd_heap sample_node 100 = None" by (simp add: sample_node_def)
  show ?thesis
    using send_to_zero_leaks [OF cx _ _ _ rd m2, of 0 sample_ext 0 9] by (auto simp: m free)
qed

end
