(* ===== verification/Bytes.thy ===== *)
theory Bytes
  imports Skynet_Prelude
begin

text \<open>
  Shared by the components that handle streams of bytes: big-endian numbers, linked lists in an
  array of nodes, and the interface of a byte stream.
\<close>

unbundle bit_operations_syntax

section \<open>Big-endian numbers\<close>

definition be_nat :: "bytes \<Rightarrow> nat" where
  "be_nat bs = foldl (\<lambda>a b. a * 256 + unat b) 0 bs"

fun be_bytes :: "nat \<Rightarrow> nat \<Rightarrow> bytes" where
  "be_bytes 0 n = []"
| "be_bytes (Suc k) n = be_bytes k (n div 256) @ [of_nat n]"

lemma length_be_bytes [simp]: "length (be_bytes k n) = k"
  by (induction k arbitrary: n) auto

lemma be_nat_Nil [simp]: "be_nat [] = 0"
  by (simp add: be_nat_def)

lemma be_nat_snoc [simp]: "be_nat (bs @ [b]) = be_nat bs * 256 + unat b"
  by (simp add: be_nat_def)

lemma unat_byte: "unat (of_nat n :: u8) = n mod 256"
  by (simp add: unsigned_of_nat take_bit_eq_mod)

lemma byte_less: "unat (b::u8) < 256"
  using unsigned_less [of b, where ?'a = nat] by simp

lemma be_nat_bytes: "be_nat (be_bytes k n) = n mod 256 ^ k"
proof (induction k arbitrary: n)
  case 0
  then show ?case by simp
next
  case (Suc k)
  have "n mod (256 * 256 ^ k) = 256 * (n div 256 mod 256 ^ k) + n mod 256" by (rule mod_mult2_eq)
  then show ?case by (simp only: be_bytes.simps be_nat_snoc Suc unat_byte power_Suc mult.commute)
qed

lemma be_nat_less: "be_nat bs < 256 ^ length bs"
proof (induction bs rule: rev_induct)
  case Nil
  then show ?case by simp
next
  case (snoc b bs)
  then have "Suc (be_nat bs) * 256 \<le> 256 ^ length bs * 256" by (intro mult_le_mono1) simp
  then show ?case using byte_less [of b] by simp
qed

lemma be_bytes_be_nat [simp]: "be_bytes (length bs) (be_nat bs) = bs"
proof (induction bs rule: rev_induct)
  case Nil
  then show ?case by simp
next
  case (snoc b bs)
  have "unat (of_nat (be_nat bs * 256 + unat b) :: u8) = (be_nat bs * 256 + unat b) mod 256" by (rule unat_byte)
  also have "\<dots> = unat b" using byte_less [of b] by (simp only: mod_mult_self3 mod_less)
  finally have "(of_nat (be_nat bs * 256 + unat b) :: u8) = b" by (rule unsigned_word_eqI)
  then show ?case using snoc byte_less [of b] by simp
qed

lemma be_bytes_small: "n < 256 ^ k \<Longrightarrow> be_nat (be_bytes k n) = n"
  by (simp add: be_nat_bytes)

lemma be_bytes_4: "be_bytes 4 n = [of_nat (n div 2 ^ 24), of_nat (n div 2 ^ 16), of_nat (n div 2 ^ 8), of_nat n]"
proof -
  have "be_bytes 4 n = be_bytes (Suc (Suc (Suc (Suc 0)))) n" by (simp only: numeral_eq_Suc pred_numeral_simps BitM.simps)
  also have "\<dots> = [of_nat (n div 256 div 256 div 256), of_nat (n div 256 div 256), of_nat (n div 256), of_nat n]"
    by (simp only: be_bytes.simps append.simps)
  finally show ?thesis by (simp flip: div_mult2_eq)
qed

text \<open>The bytes of a number in memory (little endian).\<close>

definition le_bytes :: "nat \<Rightarrow> nat \<Rightarrow> bytes" where
  "le_bytes k n = rev (be_bytes k n)"

definition le_nat :: "bytes \<Rightarrow> nat" where
  "le_nat bs = be_nat (rev bs)"

lemma length_le_bytes [simp]: "length (le_bytes k n) = k"
  by (simp add: le_bytes_def)

lemma le_nat_bytes: "le_nat (le_bytes k n) = n mod 256 ^ k"
  by (simp add: le_nat_def le_bytes_def be_nat_bytes)

text \<open>\<open>p[0] << 8 | p[1]\<close> and \<open>p[0] << 24 | p[1] << 16 | p[2] << 8 | p[3]\<close> on \<open>int\<close>s.\<close>

lemma byte_bit: "bit (ucast (b::u8) :: 'a::len word) n \<Longrightarrow> n < 8"
  by (simp add: bit_simps) (use bit_imp_le_length in fastforce)

lemma byte_ends: "bit (b::u8) n \<Longrightarrow> n < 8"
  using bit_imp_le_length [of b n] by simp

lemma unat_ucast_byte: "8 \<le> LENGTH('a::len) \<Longrightarrow> unat (ucast (b::u8) :: 'a word) = unat b"
proof -
  assume "8 \<le> LENGTH('a)"
  then have "(256::nat) \<le> 2 ^ LENGTH('a)" using power_increasing [of 8 "LENGTH('a)" "2::nat"] by simp
  then have "unat b < 2 ^ LENGTH('a)" using byte_less [of b] by linarith
  then show ?thesis by (simp add: unsigned_ucast_eq take_bit_nat_eq_self)
qed

lemma be_or:
  assumes "8 \<le> LENGTH('a::len)"
  shows "push_bit 8 a OR ucast (b::u8) = (a * 256 + ucast b :: 'a word)"
proof -
  have "push_bit 8 a AND (ucast b :: 'a word) = 0"
    by (rule bit_word_eqI) (auto simp: bit_push_bit_iff bit_and_iff dest: byte_bit)
  from disjunctive_add_eq_or [OF this] show ?thesis by (simp add: push_bit_eq_mult)
qed

lemma unat_of_nat_small: "n < 2 ^ 32 \<Longrightarrow> unat (of_nat n :: u32) = n"
  by (simp add: unsigned_of_nat take_bit_nat_eq_self)

text \<open>The number of two or four bytes, as the sources compute it on 32 bits.\<close>

definition be16 :: "u8 \<Rightarrow> u8 \<Rightarrow> u32" where
  "be16 a b = push_bit 8 (ucast a) OR ucast b"

definition be32 :: "u8 \<Rightarrow> u8 \<Rightarrow> u8 \<Rightarrow> u8 \<Rightarrow> u32" where
  "be32 a b c d = push_bit 24 (ucast a) OR push_bit 16 (ucast b) OR push_bit 8 (ucast c) OR ucast d"

lemma unat_be16: "unat (be16 a b) = be_nat [a, b]"
proof -
  have "be16 a b = ucast a * 256 + ucast b" unfolding be16_def by (rule be_or) simp
  also have "\<dots> = of_nat (unat a * 256 + unat b)"
    by (simp add: word_eq_iff_unsigned)
  finally have e: "be16 a b = of_nat (unat a * 256 + unat b)" .
  have "unat a * 256 + unat b < 2 ^ 32" using byte_less [of a] byte_less [of b] by simp
  then show ?thesis unfolding e by (simp only: be_nat_def foldl.simps unat_of_nat_small) simp
qed

lemma unat_be32: "unat (be32 a b c d) = be_nat [a, b, c, d]"
proof -
  have "be32 a b c d = push_bit 8 (push_bit 8 (push_bit 8 (ucast a) OR ucast b) OR ucast c) OR ucast d"
    by (simp add: be32_def push_bit_or ac_simps)
  also have "\<dots> = ((ucast a * 256 + ucast b) * 256 + ucast c) * 256 + ucast d"
    by (simp add: be_or)
  also have "\<dots> = of_nat (((unat a * 256 + unat b) * 256 + unat c) * 256 + unat d)"
    by (simp only: of_nat_add of_nat_mult of_nat_numeral of_nat_unat)
  finally have e: "be32 a b c d = of_nat (((unat a * 256 + unat b) * 256 + unat c) * 256 + unat d)" .
  have "((unat a * 256 + unat b) * 256 + unat c) * 256 + unat d < 2 ^ 32"
    using byte_less [of a] byte_less [of b] byte_less [of c] byte_less [of d] by simp
  then show ?thesis unfolding e by (simp only: be_nat_def foldl.simps unat_of_nat_small) simp
qed

section \<open>Linked lists in an array\<close>

text \<open>The nodes from \<open>p\<close> on, where \<open>nx\<close> is the link of a node.\<close>

primrec chain :: "('a \<Rightarrow> nat option) \<Rightarrow> 'a list \<Rightarrow> nat option \<Rightarrow> nat list \<Rightarrow> bool" where
  "chain nx ns p [] = (p = None)"
| "chain nx ns p (x # xs) = (p = Some x \<and> x < length ns \<and> chain nx ns (nx (ns ! x)) xs)"

fun walk :: "('a \<Rightarrow> nat option) \<Rightarrow> nat \<Rightarrow> 'a list \<Rightarrow> nat option \<Rightarrow> nat list" where
  "walk nx 0 ns p = []"
| "walk nx (Suc k) ns p = (case p of None \<Rightarrow> [] | Some x \<Rightarrow> x # walk nx k ns (nx (ns ! x)))"

lemma chain_walk: "chain nx ns p xs \<Longrightarrow> length xs \<le> k \<Longrightarrow> walk nx k ns p = xs"
proof (induction xs arbitrary: p k)
  case Nil
  then show ?case by (cases k) auto
next
  case (Cons x xs)
  then show ?case by (cases k) auto
qed

lemma chain_bound: "chain nx ns p xs \<Longrightarrow> x \<in> set xs \<Longrightarrow> x < length ns"
  by (induction xs arbitrary: p) auto

lemma chain_head: "chain nx ns p xs \<Longrightarrow> xs \<noteq> [] \<Longrightarrow> p \<noteq> None"
  by (cases xs) auto

lemma chain_fits: "chain nx ns p xs \<Longrightarrow> distinct xs \<Longrightarrow> length xs \<le> length ns"
proof -
  assume c: "chain nx ns p xs" "distinct xs"
  then have "set xs \<subseteq> {..<length ns}" using chain_bound by fastforce
  then show ?thesis using c(2) card_mono [of "{..<length ns}" "set xs"] by (simp add: distinct_card)
qed

lemma chain_outside [simp]: "x \<notin> set xs \<Longrightarrow> chain nx (ns[x := n]) p xs = chain nx ns p xs"
  by (induction xs arbitrary: p) auto

lemma chain_grow: "chain nx ns p xs \<Longrightarrow> chain nx (ns @ ms) p xs"
  by (induction xs arbitrary: p) (auto simp: nth_append)

text \<open>A chain without its last node's link: the link of the last node may change.\<close>

lemma chain_snoc:
  assumes "chain nx ns p (xs @ [y])" "distinct (xs @ [y])" "z < length ns" "z \<notin> set (xs @ [y])" "nx (ns ! z) = None"
    "nx n = Some z"
  shows "chain nx (ns[y := n]) p (xs @ [y, z])"
  using assms by (induction xs arbitrary: p) auto

lemma chain_unlink:
  assumes "chain nx ns p (ys @ a # x # zs)" "distinct (ys @ a # x # zs)" "nx a' = nx (ns ! x)"
  shows "chain nx (ns[a := a', x := f]) p (ys @ a # zs)"
  using assms by (induction ys arbitrary: p) auto

section \<open>The interface of a byte stream\<close>

datatype sop = Push bytes | Read nat

text \<open>The reads of a history, on the bytes themselves; a read of more than there is is skipped.\<close>

fun stream_spec :: "sop list \<Rightarrow> bytes \<Rightarrow> bytes list \<times> bytes" where
  "stream_spec [] s = ([], s)"
| "stream_spec (Push bs # ops) s = stream_spec ops (s @ bs)"
| "stream_spec (Read n # ops) s =
     (if 0 < n \<and> n \<le> length s then
        (let (rs, s') = stream_spec ops (drop n s) in (take n s # rs, s'))
      else stream_spec ops s)"

fun stream_run :: "('s \<Rightarrow> bytes \<Rightarrow> 's option) \<Rightarrow> ('s \<Rightarrow> nat \<Rightarrow> (bytes \<times> 's) option) \<Rightarrow> ('s \<Rightarrow> nat)
    \<Rightarrow> sop list \<Rightarrow> 's \<Rightarrow> (bytes list \<times> 's) option" where
  "stream_run push read avail [] s = Some ([], s)"
| "stream_run push read avail (Push bs # ops) s =
     (case push s bs of None \<Rightarrow> None | Some s' \<Rightarrow> stream_run push read avail ops s')"
| "stream_run push read avail (Read n # ops) s =
     (if 0 < n \<and> n \<le> avail s then
        (case read s n of None \<Rightarrow> None
         | Some (r, s') \<Rightarrow> map_option (\<lambda>(rs, s''). (r # rs, s'')) (stream_run push read avail ops s'))
      else stream_run push read avail ops s)"

locale byte_stream =
  fixes push :: "'s \<Rightarrow> bytes \<Rightarrow> 's option"
    and read :: "'s \<Rightarrow> nat \<Rightarrow> (bytes \<times> 's) option"
    and avail :: "'s \<Rightarrow> nat"
    and inv :: "'s \<Rightarrow> bool"
    and contents :: "'s \<Rightarrow> bytes"
  assumes push_law: "inv s \<Longrightarrow> \<exists>s'. push s bs = Some s' \<and> inv s' \<and> contents s' = contents s @ bs"
    and read_law: "inv s \<Longrightarrow> 0 < n \<Longrightarrow> n \<le> length (contents s) \<Longrightarrow>
      \<exists>s'. read s n = Some (take n (contents s), s') \<and> inv s' \<and> contents s' = drop n (contents s)"
    and avail_law: "inv s \<Longrightarrow> avail s = length (contents s)"
begin

lemma run_stream:
  "inv s \<Longrightarrow> \<exists>s'. stream_run push read avail ops s = Some (fst (stream_spec ops (contents s)), s')
    \<and> inv s' \<and> contents s' = snd (stream_spec ops (contents s))"
proof (induction ops arbitrary: s)
  case Nil
  then show ?case by simp
next
  case (Cons op ops)
  show ?case
  proof (cases op)
    case (Push bs)
    obtain s' where "push s bs = Some s'" "inv s'" "contents s' = contents s @ bs"
      using push_law [OF Cons.prems] by blast
    then show ?thesis using Push Cons.IH [of s'] by simp
  next
    case (Read n)
    show ?thesis
    proof (cases "0 < n \<and> n \<le> length (contents s)")
      case True
      then obtain s' where "read s n = Some (take n (contents s), s')" "inv s'" "contents s' = drop n (contents s)"
        using read_law [OF Cons.prems] by blast
      then show ?thesis using Read True Cons.IH [of s'] avail_law [OF Cons.prems]
        by (auto simp: split_beta)
    next
      case False
      then have "stream_run push read avail (op # ops) s = stream_run push read avail ops s"
        "stream_spec (op # ops) (contents s) = stream_spec ops (contents s)"
        using Read avail_law [OF Cons.prems] by auto
      then show ?thesis using Cons.IH [OF Cons.prems] by simp
    qed
  qed
qed

end

end
