(* ===== verification/DataBuffer.thy ===== *)
theory DataBuffer
  imports Bytes
begin

text \<open>
  \<open>service-src/databuffer.h\<close>: the buffer in which the gate collects what a socket receives, a list
  of blocks of bytes from which packages with a 2 or 4 byte header are read. The nodes of the list
  come from a pool that grows by 1023 nodes and keeps the unused ones on a free list.

  All nodes that the pool ever allocated are one array; a pointer is an index into it. Sizes are
  C \<open>int\<close>s that are never negative here (\<open>nat\<close>); the header is a 32 bit \<open>int\<close> (\<open>u32\<close>, read with
  \<open>sint\<close>). \<open>None\<close> is a failed assertion, a null pointer or a copy beyond the end of a block.
\<close>

unbundle bit_operations_syntax

section \<open>Data\<close>

definition MESSAGEPOOL :: nat where "MESSAGEPOOL = 1023"

record message =
  m_buffer :: bytes
  m_size :: nat
  m_next :: "nat option"

record databuffer =
  db_header :: u32
  db_offset :: nat
  db_size :: nat
  db_head :: "nat option"
  db_tail :: "nat option"

record messagepool =
  mp_nodes :: "message list"
  mp_freelist :: "nat option"

text \<open>A new buffer and a new pool are cleared memory.\<close>

definition databuffer_zero :: databuffer where
  "databuffer_zero = \<lparr>db_header = 0, db_offset = 0, db_size = 0, db_head = None, db_tail = None\<rparr>"

definition messagepool_zero :: messagepool where
  "messagepool_zero = \<lparr>mp_nodes = [], mp_freelist = None\<rparr>"

section \<open>Operations\<close>

definition messagepool_free :: "messagepool \<Rightarrow> messagepool" where
  "messagepool_free mp = mp\<lparr>mp_nodes := [], mp_freelist := None\<rparr>"

definition return_message :: "databuffer \<Rightarrow> messagepool \<Rightarrow> (databuffer \<times> messagepool) option" where
  "return_message db mp =
     (case db_head db of None \<Rightarrow> None | Some h \<Rightarrow>
        (let m = mp_nodes mp ! h
         in map_option (\<lambda>db. (db, mp\<lparr>mp_nodes := (mp_nodes mp)[h := \<lparr>m_buffer = [], m_size = 0,
               m_next = mp_freelist mp\<rparr>], mp_freelist := Some h\<rparr>))
              (case m_next m of
                 None \<Rightarrow> if db_tail db \<noteq> Some h then None else Some (db\<lparr>db_head := None, db_tail := None\<rparr>)
               | Some n \<Rightarrow> Some (db\<lparr>db_head := Some n\<rparr>))))"

text \<open>\<open>memcpy\<close> of \<open>n\<close> bytes at an offset.\<close>

definition copy_bytes :: "bytes \<Rightarrow> nat \<Rightarrow> nat \<Rightarrow> bytes option" where
  "copy_bytes bs offset n = (if offset + n \<le> length bs then Some (take n (drop offset bs)) else None)"

text \<open>The loop of \<open>databuffer_read\<close>; \<open>acc\<close> is what was copied to the destination.\<close>

partial_function (option) read_loop ::
  "databuffer \<Rightarrow> messagepool \<Rightarrow> bytes \<Rightarrow> nat \<Rightarrow> (bytes \<times> databuffer \<times> messagepool) option" where
  "read_loop db mp acc sz =
     (case db_head db of None \<Rightarrow> None | Some h \<Rightarrow>
        (let current = mp_nodes mp ! h
         in if m_size current > db_offset db + sz then
              (case copy_bytes (m_buffer current) (db_offset db) sz of None \<Rightarrow> None
               | Some bs \<Rightarrow> Some (acc @ bs, db\<lparr>db_offset := db_offset db + sz\<rparr>, mp))
            else if m_size current = db_offset db + sz then
              (case copy_bytes (m_buffer current) (db_offset db) sz of None \<Rightarrow> None
               | Some bs \<Rightarrow>
                   (case return_message (db\<lparr>db_offset := 0\<rparr>) mp of None \<Rightarrow> None
                    | Some (db, mp) \<Rightarrow> Some (acc @ bs, db, mp)))
            else
              (case copy_bytes (m_buffer current) (db_offset db) (m_size current - db_offset db) of None \<Rightarrow> None
               | Some bs \<Rightarrow>
                   (case return_message db mp of None \<Rightarrow> None
                    | Some (db', mp) \<Rightarrow>
                        read_loop (db'\<lparr>db_offset := 0\<rparr>) mp (acc @ bs) (sz - (m_size current - db_offset db))))))"

definition databuffer_read ::
  "databuffer \<Rightarrow> messagepool \<Rightarrow> nat \<Rightarrow> (bytes \<times> databuffer \<times> messagepool) option" where
  "databuffer_read db mp sz =
     (if db_size db < sz then None else read_loop (db\<lparr>db_size := db_size db - sz\<rparr>) mp [] sz)"

text \<open>The first two branches of \<open>databuffer_push\<close>: a node from the free list or from a new chunk.\<close>

definition new_chunk :: "nat \<Rightarrow> message list" where
  "new_chunk base = map (\<lambda>i. \<lparr>m_buffer = [], m_size = 0,
     m_next = (if i = MESSAGEPOOL - 1 then None else Some (base + i + 1))\<rparr>) [0..<MESSAGEPOOL]"

definition get_message :: "messagepool \<Rightarrow> nat \<times> messagepool" where
  "get_message mp =
     (case mp_freelist mp of
        Some m \<Rightarrow> (m, mp\<lparr>mp_freelist := m_next (mp_nodes mp ! m)\<rparr>)
      | None \<Rightarrow>
          (let base = length (mp_nodes mp)
           in (base, mp\<lparr>mp_nodes := mp_nodes mp @ new_chunk base, mp_freelist := Some (base + 1)\<rparr>)))"

definition databuffer_push ::
  "databuffer \<Rightarrow> messagepool \<Rightarrow> bytes \<Rightarrow> (databuffer \<times> messagepool) option" where
  "databuffer_push db mp data =
     (let (m, mp) = get_message mp;
          ns = (mp_nodes mp)[m := \<lparr>m_buffer = data, m_size = length data, m_next = None\<rparr>];
          db = db\<lparr>db_size := db_size db + length data\<rparr>
      in case db_head db of
           None \<Rightarrow>
             if db_tail db \<noteq> None then None
             else Some (db\<lparr>db_head := Some m, db_tail := Some m\<rparr>, mp\<lparr>mp_nodes := ns\<rparr>)
         | Some _ \<Rightarrow>
             (case db_tail db of None \<Rightarrow> None
              | Some t \<Rightarrow> Some (db\<lparr>db_tail := Some m\<rparr>,
                  mp\<lparr>mp_nodes := ns[t := (ns ! t)\<lparr>m_next := Some m\<rparr>]\<rparr>)))"

text \<open>\<open>databuffer_readheader\<close>: the size of the package if all of it is there (\<open>None\<close> for -1).\<close>

definition header_value :: "nat \<Rightarrow> bytes \<Rightarrow> u32" where
  "header_value header_size plen =
     (if header_size = 2 then be16 (plen ! 0) (plen ! 1)
      else be32 (plen ! 0) (plen ! 1) (plen ! 2) (plen ! 3))"

definition databuffer_readheader ::
  "databuffer \<Rightarrow> messagepool \<Rightarrow> nat \<Rightarrow> (int option \<times> databuffer \<times> messagepool) option" where
  "databuffer_readheader db mp header_size =
     (if db_header db = 0 then
        (if db_size db < header_size then Some (None, db, mp)
         else
           (case databuffer_read db mp header_size of None \<Rightarrow> None
            | Some (plen, db, mp) \<Rightarrow>
                (let db = db\<lparr>db_header := header_value header_size plen\<rparr>
                 in Some (if int (db_size db) < sint (db_header db) then None else Some (sint (db_header db)), db, mp))))
      else Some (if int (db_size db) < sint (db_header db) then None else Some (sint (db_header db)), db, mp))"

definition databuffer_reset :: "databuffer \<Rightarrow> databuffer" where
  "databuffer_reset db = db\<lparr>db_header := 0\<rparr>"

partial_function (option) clear_loop :: "databuffer \<Rightarrow> messagepool \<Rightarrow> messagepool option" where
  "clear_loop db mp =
     (if db_head db \<noteq> None then
        (case return_message db mp of None \<Rightarrow> None | Some (db, mp) \<Rightarrow> clear_loop db mp)
      else Some mp)"

definition databuffer_clear :: "databuffer \<Rightarrow> messagepool \<Rightarrow> (databuffer \<times> messagepool) option" where
  "databuffer_clear db mp = map_option (\<lambda>mp. (databuffer_zero, mp)) (clear_loop db mp)"

section \<open>The list of blocks is a byte stream\<close>

text \<open>\<open>xs\<close> are the nodes of the buffer and \<open>fs\<close> the free ones.\<close>

definition db_rep :: "databuffer \<Rightarrow> messagepool \<Rightarrow> nat list \<Rightarrow> nat list \<Rightarrow> bool" where
  "db_rep db mp xs fs \<longleftrightarrow>
     chain m_next (mp_nodes mp) (db_head db) xs \<and> chain m_next (mp_nodes mp) (mp_freelist mp) fs
     \<and> distinct (xs @ fs)
     \<and> db_tail db = (if xs = [] then None else Some (last xs))
     \<and> (\<forall>x \<in> set xs. m_size (mp_nodes mp ! x) = length (m_buffer (mp_nodes mp ! x)))"

definition blocks :: "messagepool \<Rightarrow> nat list \<Rightarrow> bytes" where
  "blocks mp xs = concat (map (\<lambda>x. m_buffer (mp_nodes mp ! x)) xs)"

definition db_list :: "databuffer \<times> messagepool \<Rightarrow> nat list" where
  "db_list = (\<lambda>(db, mp). walk m_next (length (mp_nodes mp)) (mp_nodes mp) (db_head db))"

definition db_contents :: "databuffer \<times> messagepool \<Rightarrow> bytes" where
  "db_contents = (\<lambda>(db, mp). drop (db_offset db) (blocks mp (db_list (db, mp))))"

definition db_inv :: "databuffer \<times> messagepool \<Rightarrow> bool" where
  "db_inv = (\<lambda>(db, mp). \<exists>xs fs. db_rep db mp xs fs \<and> db_offset db \<le> length (blocks mp xs)
     \<and> db_size db = length (blocks mp xs) - db_offset db
     \<and> (xs \<noteq> [] \<longrightarrow> db_offset db \<le> m_size (mp_nodes mp ! hd xs)))"

text \<open>
  Several buffers share a pool. \<open>own\<close> are the nodes that an operation on one of them may change, and
  \<open>frame\<close> says that it changes no others.
\<close>

definition own :: "databuffer \<times> messagepool \<Rightarrow> nat set" where
  "own = (\<lambda>(db, mp). set (db_list (db, mp)) \<union> set (walk m_next (length (mp_nodes mp)) (mp_nodes mp) (mp_freelist mp)))"

definition frame :: "databuffer \<times> messagepool \<Rightarrow> databuffer \<times> messagepool \<Rightarrow> bool" where
  "frame s s' \<longleftrightarrow> length (mp_nodes (snd s)) \<le> length (mp_nodes (snd s'))
     \<and> (\<forall>y < length (mp_nodes (snd s)). y \<notin> own s \<longrightarrow> mp_nodes (snd s') ! y = mp_nodes (snd s) ! y)
     \<and> own s' \<subseteq> own s \<union> {length (mp_nodes (snd s))..<length (mp_nodes (snd s'))}"

lemma frame_refl [simp]: "frame s s"
  by (simp add: frame_def)

lemma frame_trans:
  assumes a: "frame s s'" and b: "frame s' s''"
  shows "frame s s''"
  unfolding frame_def
proof (intro conjI allI impI)
  show "length (mp_nodes (snd s)) \<le> length (mp_nodes (snd s''))" using a b by (simp add: frame_def)
  fix y assume y: "y < length (mp_nodes (snd s))" "y \<notin> own s"
  then have "y \<notin> own s'" "y < length (mp_nodes (snd s'))" using a by (auto simp: frame_def)
  then show "mp_nodes (snd s'') ! y = mp_nodes (snd s) ! y" using a b y by (simp add: frame_def)
next
  have "own s'' \<subseteq> own s' \<union> {length (mp_nodes (snd s'))..<length (mp_nodes (snd s''))}"
    "own s' \<subseteq> own s \<union> {length (mp_nodes (snd s))..<length (mp_nodes (snd s'))}"
    "length (mp_nodes (snd s)) \<le> length (mp_nodes (snd s'))"
    "length (mp_nodes (snd s')) \<le> length (mp_nodes (snd s''))" using a b by (auto simp: frame_def)
  then show "own s'' \<subseteq> own s \<union> {length (mp_nodes (snd s))..<length (mp_nodes (snd s''))}" by fastforce
qed

lemma db_rep_list: "db_rep db mp xs fs \<Longrightarrow> db_list (db, mp) = xs"
  using chain_walk [of m_next "mp_nodes mp" "db_head db" xs] chain_fits [of m_next "mp_nodes mp" "db_head db" xs]
  by (auto simp: db_rep_def db_list_def)

lemma db_contents_rep: "db_rep db mp xs fs \<Longrightarrow> db_contents (db, mp) = drop (db_offset db) (blocks mp xs)"
  by (simp add: db_contents_def db_rep_list)

lemma own_rep: "db_rep db mp xs fs \<Longrightarrow> own (db, mp) = set xs \<union> set fs"
  using chain_walk [of m_next "mp_nodes mp" "mp_freelist mp" fs] chain_fits [of m_next "mp_nodes mp" "mp_freelist mp" fs]
  by (auto simp: own_def db_rep_list) (auto simp: db_rep_def)

lemma db_invI:
  "db_rep db mp xs fs \<Longrightarrow> db_offset db \<le> length (blocks mp xs) \<Longrightarrow>
    db_size db = length (blocks mp xs) - db_offset db \<Longrightarrow>
    (xs \<noteq> [] \<Longrightarrow> db_offset db \<le> m_size (mp_nodes mp ! hd xs)) \<Longrightarrow> db_inv (db, mp)"
  unfolding db_inv_def by auto

lemma blocks_outside [simp]: "h \<notin> set xs \<Longrightarrow> blocks (mp\<lparr>mp_nodes := (mp_nodes mp)[h := n], mp_freelist := f\<rparr>) xs = blocks mp xs"
  by (simp add: blocks_def cong: map_cong) (metis (no_types, lifting) map_eq_conv nth_list_update_neq)

text \<open>A node goes back to the free list.\<close>

lemma return_message_ok:
  assumes rep: "db_rep db mp (h # xs) fs"
  shows "\<exists>db' mp'. return_message db mp = Some (db', mp') \<and> db_rep db' mp' xs (h # fs)
    \<and> blocks mp' xs = blocks mp xs \<and> db_size db' = db_size db \<and> db_offset db' = db_offset db
    \<and> db_header db' = db_header db
    \<and> length (mp_nodes mp') = length (mp_nodes mp) \<and> (\<forall>y. y \<noteq> h \<longrightarrow> mp_nodes mp' ! y = mp_nodes mp ! y)"
proof -
  let ?ns = "(mp_nodes mp)[h := \<lparr>m_buffer = [], m_size = 0, m_next = mp_freelist mp\<rparr>]"
  let ?mp = "mp\<lparr>mp_nodes := ?ns, mp_freelist := Some h\<rparr>"
  have c: "db_head db = Some h" "h < length (mp_nodes mp)" "chain m_next (mp_nodes mp) (m_next (mp_nodes mp ! h)) xs"
    "chain m_next (mp_nodes mp) (mp_freelist mp) fs" "h \<notin> set xs" "h \<notin> set fs" "distinct (xs @ fs)"
    using rep by (auto simp: db_rep_def)
  show ?thesis
  proof (cases "m_next (mp_nodes mp ! h)")
    case None
    then have "xs = []" using c(3) by (cases xs) auto
    then show ?thesis using rep c None
      by (auto simp: return_message_def db_rep_def blocks_def)
  next
    case (Some n)
    then have ne: "xs \<noteq> []" using c(3) by auto
    have "return_message db mp = Some (db\<lparr>db_head := Some n\<rparr>, ?mp)"
      using c(1) Some by (simp add: return_message_def Let_def)
    moreover have nn: "\<forall>x \<in> set xs. ?ns ! x = mp_nodes mp ! x" using c(5) by (metis nth_list_update_neq)
    moreover have "db_rep (db\<lparr>db_head := Some n\<rparr>) ?mp xs (h # fs)"
      using rep c Some ne nn by (auto simp: db_rep_def)
    ultimately show ?thesis using c(5) by auto
  qed
qed

lemma read_loop_ok:
  assumes "db_rep db mp xs fs" "xs \<noteq> []" "db_offset db \<le> m_size (mp_nodes mp ! hd xs)"
    "0 < sz" "sz \<le> length (blocks mp xs) - db_offset db"
  shows "\<exists>db' mp' ys gs. read_loop db mp acc sz = Some (acc @ take sz (drop (db_offset db) (blocks mp xs)), db', mp')
    \<and> db_rep db' mp' ys gs \<and> drop (db_offset db') (blocks mp' ys) = drop (db_offset db + sz) (blocks mp xs)
    \<and> db_offset db' \<le> length (blocks mp' ys)
    \<and> (ys \<noteq> [] \<longrightarrow> db_offset db' \<le> m_size (mp_nodes mp' ! hd ys)) \<and> db_size db' = db_size db
    \<and> db_header db' = db_header db \<and> length (mp_nodes mp') = length (mp_nodes mp)
    \<and> set ys \<union> set gs \<subseteq> set xs \<union> set fs \<and> (\<forall>y. y \<notin> set xs \<union> set fs \<longrightarrow> mp_nodes mp' ! y = mp_nodes mp ! y)"
  using assms
proof (induction xs arbitrary: db mp fs acc sz)
  case Nil
  then show ?case by simp
next
  case (Cons h xs)
  let ?m = "mp_nodes mp ! h" and ?o = "db_offset db"
  have hd: "db_head db = Some h" "m_size ?m = length (m_buffer ?m)" and o: "?o \<le> m_size ?m"
    using Cons.prems by (auto simp: db_rep_def)
  have bl: "blocks mp (h # xs) = m_buffer ?m @ blocks mp xs" by (simp add: blocks_def)
  consider "m_size ?m > ?o + sz" | "m_size ?m = ?o + sz" | "m_size ?m < ?o + sz" by linarith
  then show ?case
  proof cases
    case 1
    then have "read_loop db mp acc sz = Some (acc @ take sz (drop ?o (m_buffer ?m)), db\<lparr>db_offset := ?o + sz\<rparr>, mp)"
      using hd by (subst read_loop.simps) (simp add: copy_bytes_def Let_def)
    moreover have "db_rep (db\<lparr>db_offset := ?o + sz\<rparr>) mp (h # xs) fs" using Cons.prems(1) by (simp add: db_rep_def)
    ultimately show ?thesis using 1 hd bl by (intro exI conjI) (assumption | simp)+
  next
    case 2
    have "db_rep (db\<lparr>db_offset := 0\<rparr>) mp (h # xs) fs" using Cons.prems(1) by (simp add: db_rep_def)
    from return_message_ok [OF this] obtain db' mp' where r:
      "return_message (db\<lparr>db_offset := 0\<rparr>) mp = Some (db', mp')" "db_rep db' mp' xs (h # fs)"
      "blocks mp' xs = blocks mp xs" "db_size db' = db_size db" "db_offset db' = 0" "db_header db' = db_header db"
      "length (mp_nodes mp') = length (mp_nodes mp)" "\<forall>y. y \<noteq> h \<longrightarrow> mp_nodes mp' ! y = mp_nodes mp ! y" by auto
    have "read_loop db mp acc sz = Some (acc @ take sz (drop ?o (m_buffer ?m)), db', mp')"
      using 2 hd r(1) by (subst read_loop.simps) (simp add: copy_bytes_def Let_def)
    then show ?thesis using 2 hd bl r by (intro exI [of _ db'] exI [of _ mp'] exI [of _ xs] exI [of _ "h # fs"]) simp
  next
    case 3
    let ?k = "m_size ?m - ?o"
    from return_message_ok [OF Cons.prems(1)] obtain db' mp' where r:
      "return_message db mp = Some (db', mp')" "db_rep db' mp' xs (h # fs)"
      "blocks mp' xs = blocks mp xs" "db_size db' = db_size db" "db_header db' = db_header db"
      "length (mp_nodes mp') = length (mp_nodes mp)" "\<forall>y. y \<noteq> h \<longrightarrow> mp_nodes mp' ! y = mp_nodes mp ! y" by auto
    have step: "read_loop db mp acc sz = read_loop (db'\<lparr>db_offset := 0\<rparr>) mp' (acc @ drop ?o (m_buffer ?m)) (sz - ?k)"
      using 3 hd r(1) o by (subst read_loop.simps) (simp add: copy_bytes_def Let_def)
    have ne: "xs \<noteq> []" using 3 Cons.prems(5) bl hd o by (auto simp: blocks_def)
    have rep': "db_rep (db'\<lparr>db_offset := 0\<rparr>) mp' xs (h # fs)" using r(2) by (simp add: db_rep_def)
    have sz: "0 < sz - ?k" "sz - ?k \<le> length (blocks mp' xs) - db_offset (db'\<lparr>db_offset := 0\<rparr>)"
      using 3 Cons.prems(5) bl hd r(3) o by auto
    from Cons.IH [OF rep' ne _ sz, of "acc @ drop ?o (m_buffer ?m)"] obtain db'' mp'' ys gs where q:
      "read_loop (db'\<lparr>db_offset := 0\<rparr>) mp' (acc @ drop ?o (m_buffer ?m)) (sz - ?k)
        = Some ((acc @ drop ?o (m_buffer ?m)) @ take (sz - ?k) (blocks mp xs), db'', mp'')"
      "db_rep db'' mp'' ys gs" "drop (db_offset db'') (blocks mp'' ys) = drop (sz - ?k) (blocks mp xs)"
      "db_offset db'' \<le> length (blocks mp'' ys)"
      "ys \<noteq> [] \<longrightarrow> db_offset db'' \<le> m_size (mp_nodes mp'' ! hd ys)" "db_size db'' = db_size db"
      "db_header db'' = db_header db" "length (mp_nodes mp'') = length (mp_nodes mp)"
      "set ys \<union> set gs \<subseteq> set xs \<union> set (h # fs)"
      "\<forall>y. y \<notin> set xs \<union> set (h # fs) \<longrightarrow> mp_nodes mp'' ! y = mp_nodes mp' ! y" using r by auto
    have e: "take sz (drop ?o (blocks mp (h # xs))) = drop ?o (m_buffer ?m) @ take (sz - ?k) (blocks mp xs)"
      "drop (?o + sz) (blocks mp (h # xs)) = drop (sz - ?k) (blocks mp xs)"
      using 3 o hd bl by (simp_all add: add.commute)
    have f: "\<forall>y. y \<notin> set (h # xs) \<union> set fs \<longrightarrow> mp_nodes mp'' ! y = mp_nodes mp ! y"
      "set ys \<union> set gs \<subseteq> set (h # xs) \<union> set fs" using q(9,10) r(7) by auto
    show ?thesis unfolding step q(1) e using q(2-8) f by (intro exI conjI) (rule refl | assumption | simp)+
  qed
qed


lemma chunk_chain:
  "length ns = base \<Longrightarrow> 1 \<le> k \<Longrightarrow> k \<le> MESSAGEPOOL - 1 \<Longrightarrow>
    chain m_next (ns @ new_chunk base) (Some (base + (MESSAGEPOOL - k))) [base + (MESSAGEPOOL - k)..<base + MESSAGEPOOL]"
proof (induction k)
  case 0
  then show ?case by simp
next
  case (Suc k)
  let ?i = "MESSAGEPOOL - Suc k"
  have i: "?i < MESSAGEPOOL" "Suc ?i = MESSAGEPOOL - k" using Suc.prems by (auto simp: MESSAGEPOOL_def)
  have nx: "m_next ((ns @ new_chunk base) ! (base + ?i)) = (if ?i = MESSAGEPOOL - 1 then None else Some (base + Suc ?i))"
    using i(1) Suc.prems(1) by (simp add: nth_append new_chunk_def)
  have l: "base + ?i < length (ns @ new_chunk base)" using i(1) Suc.prems(1) by (simp add: new_chunk_def)
  have u: "[base + ?i..<base + MESSAGEPOOL] = (base + ?i) # [base + Suc ?i..<base + MESSAGEPOOL]"
    using i(1) by (simp add: upt_conv_Cons)
  show ?case
  proof (cases "k = 0")
    case True
    then have "[base + Suc ?i..<base + MESSAGEPOOL] = []" using i(2) by simp
    then show ?thesis unfolding u using nx l True by simp
  next
    case False
    then have "?i \<noteq> MESSAGEPOOL - 1" using i Suc.prems by (auto simp: MESSAGEPOOL_def)
    then show ?thesis unfolding u using nx l Suc False i(2) by simp
  qed
qed

lemma get_message_ok:
  assumes "db_rep db mp xs fs"
  obtains m mp' gs where "get_message mp = (m, mp')" "db_rep db mp' xs gs" "m < length (mp_nodes mp')"
    "m \<notin> set xs" "m \<notin> set gs" "blocks mp' xs = blocks mp xs"
    "\<forall>x \<in> set xs. mp_nodes mp' ! x = mp_nodes mp ! x" "length (mp_nodes mp) \<le> length (mp_nodes mp')"
    "\<forall>x < length (mp_nodes mp). mp_nodes mp' ! x = mp_nodes mp ! x"
    "insert m (set gs) \<subseteq> set fs \<union> {length (mp_nodes mp)..<length (mp_nodes mp')}"
proof (cases "mp_freelist mp")
  case (Some m)
  then obtain gs where fs: "fs = m # gs" using assms by (cases fs) (auto simp: db_rep_def)
  let ?mp = "mp\<lparr>mp_freelist := m_next (mp_nodes mp ! m)\<rparr>"
  have "db_rep db ?mp xs gs" "m < length (mp_nodes ?mp)" "m \<notin> set xs" "m \<notin> set gs"
    using assms Some fs by (auto simp: db_rep_def)
  then show thesis using that [of m ?mp gs] Some fs by (simp add: get_message_def blocks_def)
next
  case None
  let ?b = "length (mp_nodes mp)"
  let ?mp = "mp\<lparr>mp_nodes := mp_nodes mp @ new_chunk ?b, mp_freelist := Some (?b + 1)\<rparr>"
  let ?gs = "[?b + 1..<?b + MESSAGEPOOL]"
  have xs: "\<forall>x \<in> set xs. x < ?b" using assms by (auto simp: db_rep_def dest: chain_bound)
  have same: "\<forall>x \<in> set xs. mp_nodes ?mp ! x = mp_nodes mp ! x" using xs by (simp add: nth_append)
  have "chain m_next (mp_nodes ?mp) (mp_freelist ?mp) ?gs"
    using chunk_chain [of "mp_nodes mp" ?b "MESSAGEPOOL - 1"] by (simp add: MESSAGEPOOL_def)
  then have "db_rep db ?mp xs ?gs"
    using assms xs same by (auto simp: db_rep_def chain_grow simp del: nth_append)
  moreover have "?b < length (mp_nodes ?mp)" by (simp add: new_chunk_def MESSAGEPOOL_def)
  moreover have "blocks ?mp xs = blocks mp xs"
    unfolding blocks_def using same by (intro arg_cong [where f = concat] map_cong) auto
  moreover have "insert ?b (set ?gs) \<subseteq> set fs \<union> {?b..<length (mp_nodes ?mp)}"
    by (auto simp: new_chunk_def MESSAGEPOOL_def)
  moreover have "get_message mp = (?b, ?mp)" using None by (simp add: get_message_def Let_def)
  ultimately show thesis using that [of ?b ?mp ?gs] xs same by (auto simp: nth_append)
qed

lemma databuffer_push_ok:
  assumes "db_inv (db, mp)"
  shows "\<exists>s'. databuffer_push db mp bs = Some s' \<and> db_inv s' \<and> db_contents s' = db_contents (db, mp) @ bs
    \<and> db_header (fst s') = db_header db \<and> db_size (fst s') = db_size db + length bs \<and> frame (db, mp) s'"
proof -
  obtain xs fs where rep: "db_rep db mp xs fs" and o: "db_offset db \<le> length (blocks mp xs)"
    "db_size db = length (blocks mp xs) - db_offset db"
    "xs \<noteq> [] \<longrightarrow> db_offset db \<le> m_size (mp_nodes mp ! hd xs)"
    using assms by (auto simp: db_inv_def)
  obtain m mp' gs where m: "get_message mp = (m, mp')" "db_rep db mp' xs gs" "m < length (mp_nodes mp')"
    "m \<notin> set xs" "m \<notin> set gs" "blocks mp' xs = blocks mp xs"
    "\<forall>x \<in> set xs. mp_nodes mp' ! x = mp_nodes mp ! x"
    and fr: "length (mp_nodes mp) \<le> length (mp_nodes mp')"
    "\<forall>x < length (mp_nodes mp). mp_nodes mp' ! x = mp_nodes mp ! x"
    "insert m (set gs) \<subseteq> set fs \<union> {length (mp_nodes mp)..<length (mp_nodes mp')}"
    by (rule get_message_ok [OF rep])
  have lm: "m \<in> set fs \<or> length (mp_nodes mp) \<le> m" using fr(3) by auto
  let ?new = "\<lparr>m_buffer = bs, m_size = length bs, m_next = None\<rparr>"
  let ?ns = "(mp_nodes mp')[m := ?new]"
  show ?thesis
  proof (cases "xs = []")
    case True
    then have z: "db_head db = None" "db_tail db = None" "db_offset db = 0" "db_size db = 0"
      using rep o by (auto simp: db_rep_def blocks_def)
    let ?db = "db\<lparr>db_size := length bs, db_head := Some m, db_tail := Some m\<rparr>" and ?mp = "mp'\<lparr>mp_nodes := ?ns\<rparr>"
    have p: "databuffer_push db mp bs = Some (?db, ?mp)"
      using z m(1) by (simp add: databuffer_push_def)
    have rep': "db_rep ?db ?mp [m] gs" using m by (auto simp: db_rep_def)
    have b: "blocks ?mp [m] = bs" using m(3) by (simp add: blocks_def)
    have "db_inv (?db, ?mp)" by (rule db_invI [OF rep']) (use b z(3) m(3) in auto)
    moreover have "db_contents (?db, ?mp) = db_contents (db, mp) @ bs"
      using db_contents_rep [OF rep'] db_contents_rep [OF rep] b z(3) True by (simp add: blocks_def)
    moreover have "frame (db, mp) (?db, ?mp)"
      unfolding frame_def own_rep [OF rep] own_rep [OF rep'] using fr lm True m(3) by (auto simp: nth_list_update)
    ultimately show ?thesis using p z by simp
  next
    case False
    then obtain ys t where xs: "xs = ys @ [t]" by (meson rev_exhaust)
    have ht: "db_head db \<noteq> None" "db_tail db = Some t"
      using rep False xs chain_head [of m_next "mp_nodes mp" "db_head db" xs] by (simp_all add: db_rep_def)
    have t: "t < length (mp_nodes mp')" "t \<noteq> m" "t \<notin> set ys" "t \<notin> set gs"
      using m(2,4) xs chain_bound [of m_next "mp_nodes mp'" "db_head db" xs t] by (auto simp: db_rep_def)
    let ?t = "(mp_nodes mp' ! t)\<lparr>m_next := Some m\<rparr>"
    let ?db = "db\<lparr>db_size := db_size db + length bs, db_tail := Some m\<rparr>" and ?mp = "mp'\<lparr>mp_nodes := ?ns[t := ?t]\<rparr>"
    have p: "databuffer_push db mp bs = Some (?db, ?mp)"
      using ht m(1) t(2) by (auto simp: databuffer_push_def)
    have "chain m_next ?ns (db_head db) xs" using m(2,4) by (simp add: db_rep_def)
    then have "chain m_next (?ns[t := ?t]) (db_head db) (ys @ [t, m])"
      using m(2,3,4) t xs by (intro chain_snoc) (auto simp: db_rep_def)
    moreover have nm: "?ns ! x = mp_nodes mp' ! x" if "x \<in> set xs" for x
      using m(4) that by (metis nth_list_update_neq)
    have nodes: "\<forall>x \<in> set xs. m_buffer (?ns[t := ?t] ! x) = m_buffer (mp_nodes mp' ! x) \<and>
        m_size (?ns[t := ?t] ! x) = m_size (mp_nodes mp' ! x)"
      using t by (auto simp: nth_list_update nm)
    moreover have new: "?ns[t := ?t] ! m = ?new" using m(3) t(2) by simp
    ultimately have rep': "db_rep ?db ?mp (xs @ [m]) gs"
      using m(2,4,5) t xs by (auto simp: db_rep_def)
    have "blocks ?mp xs = blocks mp' xs"
      unfolding blocks_def using nodes by (intro arg_cong [where f = concat] map_cong) auto
    then have b: "blocks ?mp (xs @ [m]) = blocks mp xs @ bs" using new m(6) by (simp add: blocks_def)
    have hd: "hd (xs @ [m]) = hd xs" "hd xs \<in> set xs" using False by simp_all
    have "db_inv (?db, ?mp)"
      by (rule db_invI [OF rep']) (use b o nodes hd m(7) False in auto)
    moreover have "db_contents (?db, ?mp) = db_contents (db, mp) @ bs"
      using db_contents_rep [OF rep'] db_contents_rep [OF rep] b o(1) by simp
    moreover have "frame (db, mp) (?db, ?mp)"
      unfolding frame_def own_rep [OF rep] own_rep [OF rep'] using fr lm xs m(3) by (auto simp: nth_list_update)
    ultimately show ?thesis using p by simp
  qed
qed

lemma databuffer_read_ok:
  assumes "db_inv (db, mp)" "0 < n" "n \<le> length (db_contents (db, mp))"
  shows "\<exists>s'. databuffer_read db mp n = Some (take n (db_contents (db, mp)), s') \<and> db_inv s'
    \<and> db_contents s' = drop n (db_contents (db, mp)) \<and> db_header (fst s') = db_header db
    \<and> db_size (fst s') = db_size db - n \<and> frame (db, mp) s'"
proof -
  obtain xs fs where rep: "db_rep db mp xs fs" and o: "db_offset db \<le> length (blocks mp xs)"
    "db_size db = length (blocks mp xs) - db_offset db"
    "xs \<noteq> [] \<longrightarrow> db_offset db \<le> m_size (mp_nodes mp ! hd xs)"
    using assms(1) by (auto simp: db_inv_def)
  have c: "db_contents (db, mp) = drop (db_offset db) (blocks mp xs)" by (rule db_contents_rep [OF rep])
  have ne: "xs \<noteq> []" using assms(2,3) c by (auto simp: blocks_def)
  let ?db = "db\<lparr>db_size := db_size db - n\<rparr>"
  have rep0: "db_rep ?db mp xs fs" using rep by (simp add: db_rep_def)
  have le: "n \<le> length (blocks mp xs) - db_offset db" using assms(3) c by simp
  from read_loop_ok [OF rep0 ne _ assms(2), of "[]"] o(3) ne le obtain db' mp' ys gs where q:
    "read_loop ?db mp [] n = Some (take n (drop (db_offset db) (blocks mp xs)), db', mp')"
    "db_rep db' mp' ys gs" "drop (db_offset db') (blocks mp' ys) = drop (db_offset db + n) (blocks mp xs)"
    "db_offset db' \<le> length (blocks mp' ys)"
    "ys \<noteq> [] \<longrightarrow> db_offset db' \<le> m_size (mp_nodes mp' ! hd ys)" "db_size db' = db_size db - n"
    "db_header db' = db_header db" and fr: "length (mp_nodes mp') = length (mp_nodes mp)"
    "set ys \<union> set gs \<subseteq> set xs \<union> set fs" "\<forall>y. y \<notin> set xs \<union> set fs \<longrightarrow> mp_nodes mp' ! y = mp_nodes mp ! y" by auto
  have len: "length (blocks mp' ys) - db_offset db' = db_size db'"
    using arg_cong [OF q(3), of length] q(6) o(2) by simp
  have "databuffer_read db mp n = Some (take n (db_contents (db, mp)), db', mp')"
    using q(1) le o(2) c by (simp add: databuffer_read_def)
  moreover have "db_inv (db', mp')" unfolding db_inv_def using q(2,4,5) len by auto
  moreover have "db_contents (db', mp') = drop n (db_contents (db, mp))"
    using db_contents_rep [OF q(2)] q(3) c by (simp add: add.commute)
  moreover have "frame (db, mp) (db', mp')"
    unfolding frame_def own_rep [OF rep] own_rep [OF q(2)] using fr by auto
  ultimately show ?thesis using q(6,7) by auto
qed

lemma clear_loop_ok:
  "db_rep db mp xs fs \<Longrightarrow> \<exists>mp' gs. clear_loop db mp = Some mp' \<and> chain m_next (mp_nodes mp') (mp_freelist mp') gs
    \<and> distinct gs \<and> set gs = set xs \<union> set fs \<and> length (mp_nodes mp') = length (mp_nodes mp)
    \<and> (\<forall>y. y \<notin> set xs \<union> set fs \<longrightarrow> mp_nodes mp' ! y = mp_nodes mp ! y)"
proof (induction xs arbitrary: db mp fs)
  case Nil
  then show ?case
    by (intro exI [of _ mp] exI [of _ fs]) (subst clear_loop.simps, simp add: db_rep_def)
next
  case (Cons h xs)
  from return_message_ok [OF Cons.prems] obtain db' mp' where r:
    "return_message db mp = Some (db', mp')" "db_rep db' mp' xs (h # fs)"
    "length (mp_nodes mp') = length (mp_nodes mp)" "\<forall>y. y \<noteq> h \<longrightarrow> mp_nodes mp' ! y = mp_nodes mp ! y" by auto
  have hd: "db_head db = Some h" using Cons.prems by (simp add: db_rep_def)
  from Cons.IH [OF r(2)] obtain mp'' gs where q: "clear_loop db' mp' = Some mp''"
    "chain m_next (mp_nodes mp'') (mp_freelist mp'') gs" "distinct gs" "set gs = set xs \<union> set (h # fs)"
    "length (mp_nodes mp'') = length (mp_nodes mp')"
    "\<forall>y. y \<notin> set xs \<union> set (h # fs) \<longrightarrow> mp_nodes mp'' ! y = mp_nodes mp' ! y" by auto
  have "clear_loop db mp = Some mp''" using hd r(1) q(1) by (subst clear_loop.simps) simp
  then show ?case using q r(3,4) by (intro exI [of _ mp''] exI [of _ gs]) auto
qed

lemma zero_rep:
  "chain m_next (mp_nodes mp) (mp_freelist mp) fs \<Longrightarrow> distinct fs \<Longrightarrow> db_rep databuffer_zero mp [] fs"
  by (simp add: db_rep_def databuffer_zero_def)

lemma databuffer_clear_ok:
  assumes "db_inv (db, mp)"
  shows "\<exists>mp'. databuffer_clear db mp = Some (databuffer_zero, mp') \<and> db_inv (databuffer_zero, mp')
    \<and> db_contents (databuffer_zero, mp') = [] \<and> frame (db, mp) (databuffer_zero, mp')"
proof -
  obtain xs fs where rep: "db_rep db mp xs fs" using assms by (auto simp: db_inv_def)
  from clear_loop_ok [OF rep] obtain mp' gs where q: "clear_loop db mp = Some mp'"
    "chain m_next (mp_nodes mp') (mp_freelist mp') gs" "distinct gs" "set gs = set xs \<union> set fs"
    "length (mp_nodes mp') = length (mp_nodes mp)"
    "\<forall>y. y \<notin> set xs \<union> set fs \<longrightarrow> mp_nodes mp' ! y = mp_nodes mp ! y" by auto
  have rep': "db_rep databuffer_zero mp' [] gs" by (rule zero_rep [OF q(2,3)])
  have "db_inv (databuffer_zero, mp')"
    by (rule db_invI [OF rep']) (simp_all add: databuffer_zero_def blocks_def)
  moreover have "db_contents (databuffer_zero, mp') = []"
    by (simp add: db_contents_rep [OF rep'] blocks_def)
  moreover have "frame (db, mp) (databuffer_zero, mp')"
    unfolding frame_def own_rep [OF rep] own_rep [OF rep'] using q by auto
  ultimately show ?thesis using q(1) by (simp add: databuffer_clear_def)
qed

text \<open>An operation on one buffer leaves another one that shares the pool as it is.\<close>

lemma db_inv_frame:
  assumes inv: "db_inv (db, mp)" "db_inv (db', mp')" and other: "db_inv (da, mp)"
    and fr: "frame (db, mp) (db', mp')" and disj: "set (db_list (da, mp)) \<inter> set (db_list (db, mp)) = {}"
  shows "db_inv (da, mp')" "db_contents (da, mp') = db_contents (da, mp)"
    "db_list (da, mp') = db_list (da, mp)" "set (db_list (da, mp)) \<inter> set (db_list (db', mp')) = {}"
proof -
  obtain xs fs where rep: "db_rep db mp xs fs" using inv(1) by (auto simp: db_inv_def)
  obtain ys gs where rep': "db_rep db' mp' ys gs" using inv(2) by (auto simp: db_inv_def)
  obtain zs hs where repa: "db_rep da mp zs hs" and o: "db_offset da \<le> length (blocks mp zs)"
    "db_size da = length (blocks mp zs) - db_offset da"
    "zs \<noteq> [] \<longrightarrow> db_offset da \<le> m_size (mp_nodes mp ! hd zs)"
    using other by (auto simp: db_inv_def)
  have "chain m_next (mp_nodes mp) (mp_freelist mp) fs" "chain m_next (mp_nodes mp) (mp_freelist mp) hs"
    "distinct fs" "distinct hs" using rep repa by (auto simp: db_rep_def)
  then have hs: "hs = fs" by (metis chain_fits chain_walk)
  have out: "\<forall>y \<in> set zs. y < length (mp_nodes mp) \<and> y \<notin> set xs \<union> set fs"
    using disj repa rep hs unfolding db_rep_list [OF rep] db_rep_list [OF repa]
    by (auto simp: db_rep_def dest: chain_bound)
  have same: "\<forall>y \<in> set zs. mp_nodes mp' ! y = mp_nodes mp ! y"
    and len: "length (mp_nodes mp) \<le> length (mp_nodes mp')" and sub: "set ys \<union> set gs \<subseteq> set xs \<union> set fs \<union> {length (mp_nodes mp)..<length (mp_nodes mp')}"
    using fr out unfolding frame_def own_rep [OF rep] own_rep [OF rep'] by auto
  have ch: "chain m_next (mp_nodes mp') p ls" if "chain m_next (mp_nodes mp) p ls" "set ls \<subseteq> set zs" for p ls
    using that same len by (induction ls arbitrary: p) auto
  have dis: "set zs \<inter> (set ys \<union> set gs) = {}" using out sub by fastforce
  have repa': "db_rep da mp' zs gs"
    using repa rep' ch [of "db_head da" zs] same dis by (auto simp: db_rep_def)
  have bl: "blocks mp' zs = blocks mp zs"
    unfolding blocks_def using same by (intro arg_cong [where f = concat] map_cong) auto
  show "db_inv (da, mp')" by (rule db_invI [OF repa']) (use o same in \<open>auto simp: bl\<close>)
  show "db_contents (da, mp') = db_contents (da, mp)"
    by (simp add: db_contents_rep [OF repa'] db_contents_rep [OF repa] bl)
  show "db_list (da, mp') = db_list (da, mp)" by (simp add: db_rep_list [OF repa'] db_rep_list [OF repa])
  show "set (db_list (da, mp)) \<inter> set (db_list (db', mp')) = {}"
    using dis by (auto simp: db_rep_list [OF repa] db_rep_list [OF rep'])
qed

lemma db_size_contents: "db_inv (db, mp) \<Longrightarrow> db_size db = length (db_contents (db, mp))"
  by (auto simp: db_inv_def db_contents_rep)

interpretation db: byte_stream "\<lambda>s bs. databuffer_push (fst s) (snd s) bs"
  "\<lambda>s n. databuffer_read (fst s) (snd s) n" "\<lambda>s. db_size (fst s)" db_inv db_contents
proof
  fix s :: "databuffer \<times> messagepool" and bs :: bytes and n :: nat
  assume inv: "db_inv s"
  show "\<exists>s'. databuffer_push (fst s) (snd s) bs = Some s' \<and> db_inv s' \<and> db_contents s' = db_contents s @ bs"
    using databuffer_push_ok [of "fst s" "snd s" bs] inv by auto
  show "db_size (fst s) = length (db_contents s)"
    using db_size_contents [of "fst s" "snd s"] inv by simp
  assume "0 < n" "n \<le> length (db_contents s)"
  then show "\<exists>s'. databuffer_read (fst s) (snd s) n = Some (take n (db_contents s), s') \<and> db_inv s' \<and>
      db_contents s' = drop n (db_contents s)"
    using databuffer_read_ok [of "fst s" "snd s" n] inv by auto
qed

end
