(* ===== verification/HashId.thy ===== *)
theory HashId
  imports Bytes
begin

text \<open>
  \<open>service-src/hashid.h\<close>: the table by which the gate finds the connection of a socket. The
  \<open>cap\<close> slots are nodes of an array; a slot in use is linked into the bucket of its id. A pointer to
  a node is its index. Ids are C \<open>int\<close>s (\<open>int\<close> here), -1 marks a free slot.

  \<open>None\<close> is a failed assertion or a signed overflow; a result \<open>Some None\<close> is the -1 of the source.
\<close>

unbundle bit_operations_syntax

section \<open>Data and operations\<close>

record hashid_node =
  hn_id :: int
  hn_link :: "nat option"

record hashid =
  hi_hashmod :: nat
  hi_cap :: nat
  hi_count :: nat
  hi_id :: "hashid_node list"
  hi_hash :: "nat option list"

definition free_node :: hashid_node where
  "free_node = \<lparr>hn_id = -1, hn_link = None\<rparr>"

function hash_cap :: "nat \<Rightarrow> nat \<Rightarrow> nat" where
  "hash_cap c limit = (if 0 < c \<and> c < limit then hash_cap (c * 2) limit else c)"
  by pat_completeness auto
termination by (relation "measure (\<lambda>(c, limit). limit - c)") auto

declare hash_cap.simps [simp del]

definition hashid_init :: "nat \<Rightarrow> hashid" where
  "hashid_init limit = (let hashcap = hash_cap 16 limit in
     \<lparr>hi_hashmod = hashcap - 1, hi_cap = limit, hi_count = 0, hi_id = replicate limit free_node,
      hi_hash = replicate hashcap None\<rparr>)"

definition hashid_clear :: "hashid \<Rightarrow> hashid" where
  "hashid_clear hi = hi\<lparr>hi_id := [], hi_hash := [], hi_hashmod := 1, hi_cap := 0, hi_count := 0\<rparr>"

definition bucket :: "hashid \<Rightarrow> int \<Rightarrow> nat" where
  "bucket hi i = nat (i AND int (hi_hashmod hi))"

partial_function (option) lookup_loop :: "hashid_node list \<Rightarrow> nat option \<Rightarrow> int \<Rightarrow> nat option option" where
  "lookup_loop ns c i =
     (case c of None \<Rightarrow> Some None
      | Some x \<Rightarrow> if hn_id (ns ! x) = i then Some (Some x) else lookup_loop ns (hn_link (ns ! x)) i)"

definition hashid_lookup :: "hashid \<Rightarrow> int \<Rightarrow> nat option option" where
  "hashid_lookup hi i = lookup_loop (hi_id hi) (hi_hash hi ! bucket hi i) i"

text \<open>The loop \<open>while (c->next)\<close> of \<open>hashid_remove\<close>: the node and its predecessor.\<close>

partial_function (option) remove_loop :: "hashid_node list \<Rightarrow> nat \<Rightarrow> int \<Rightarrow> (nat \<times> nat) option option" where
  "remove_loop ns c i =
     (case hn_link (ns ! c) of None \<Rightarrow> Some None
      | Some x \<Rightarrow> if hn_id (ns ! x) = i then Some (Some (c, x)) else remove_loop ns x i)"

definition hashid_remove :: "hashid \<Rightarrow> int \<Rightarrow> (nat option \<times> hashid) option" where
  "hashid_remove hi i =
     (let h = bucket hi i; ns = hi_id hi
      in case hi_hash hi ! h of
           None \<Rightarrow> Some (None, hi)
         | Some c \<Rightarrow>
             if hn_id (ns ! c) = i then
               Some (Some c, hi\<lparr>hi_hash := (hi_hash hi)[h := hn_link (ns ! c)],
                 hi_id := ns[c := free_node], hi_count := hi_count hi - 1\<rparr>)
             else
               (case remove_loop ns c i of
                  None \<Rightarrow> None
                | Some None \<Rightarrow> Some (None, hi)
                | Some (Some (p, x)) \<Rightarrow>
                    Some (Some x, hi\<lparr>hi_id := (ns[p := (ns ! p)\<lparr>hn_link := hn_link (ns ! x)\<rparr>])[x := free_node],
                      hi_count := hi_count hi - 1\<rparr>)))"

text \<open>The loop of \<open>hashid_insert\<close> that looks for a free slot from \<open>id % cap\<close> on.\<close>

definition insert_slot :: "hashid \<Rightarrow> int \<Rightarrow> nat option" where
  "insert_slot hi i =
     map_option (\<lambda>k. nat ((int k + i) mod int (hi_cap hi)))
       (List.find (\<lambda>k. hn_id (hi_id hi ! nat ((int k + i) mod int (hi_cap hi))) = -1) [0..<hi_cap hi])"

definition hashid_insert :: "hashid \<Rightarrow> int \<Rightarrow> (nat \<times> hashid) option" where
  "hashid_insert hi i =
     (if i < 0 \<or> 2 ^ 31 \<le> i + int (hi_cap hi) then None
      else (case insert_slot hi i of None \<Rightarrow> None | Some c \<Rightarrow>
        if hn_link (hi_id hi ! c) \<noteq> None then None
        else (let h = bucket hi i
              in Some (c, hi\<lparr>hi_count := hi_count hi + 1,
                   hi_id := (hi_id hi)[c := \<lparr>hn_id = i, hn_link = hi_hash hi ! h\<rparr>],
                   hi_hash := (hi_hash hi)[h := Some c]\<rparr>))))"

definition hashid_full :: "hashid \<Rightarrow> bool" where
  "hashid_full hi = (hi_count hi = hi_cap hi)"

section \<open>The invariant\<close>

abbreviation node_id :: "hashid \<Rightarrow> nat \<Rightarrow> int" where
  "node_id hi x \<equiv> hn_id (hi_id hi ! x)"

definition used :: "hashid \<Rightarrow> nat set" where
  "used hi = {x. x < hi_cap hi \<and> node_id hi x \<noteq> -1}"

definition hash_rep :: "hashid \<Rightarrow> (nat \<Rightarrow> nat list) \<Rightarrow> bool" where
  "hash_rep hi bs \<longleftrightarrow> (\<exists>k. Suc (hi_hashmod hi) = 2 ^ k) \<and> length (hi_id hi) = hi_cap hi
     \<and> length (hi_hash hi) = Suc (hi_hashmod hi) \<and> hi_count hi = card (used hi)
     \<and> (\<forall>j \<le> hi_hashmod hi. chain hn_link (hi_id hi) (hi_hash hi ! j) (bs j) \<and> distinct (bs j)
          \<and> set (bs j) = {x \<in> used hi. bucket hi (node_id hi x) = j})
     \<and> (\<forall>x < hi_cap hi. node_id hi x = -1 \<longrightarrow> hn_link (hi_id hi ! x) = None)
     \<and> (\<forall>x \<in> used hi. 0 \<le> node_id hi x) \<and> inj_on (node_id hi) (used hi)"

definition hash_inv :: "hashid \<Rightarrow> bool" where
  "hash_inv hi \<longleftrightarrow> (\<exists>bs. hash_rep hi bs)"

text \<open>The slot of an id.\<close>

definition slot_of :: "hashid \<Rightarrow> int \<Rightarrow> nat option" where
  "slot_of hi i = (if i < 0 then None else List.find (\<lambda>x. node_id hi x = i) [0..<hi_cap hi])"

lemma find_Some_upt: "List.find P [0..<n] = Some x \<Longrightarrow> x < n \<and> P x"
  by (auto simp: find_Some_iff)

lemma find_None_upt: "List.find P [0..<n] = None \<longleftrightarrow> (\<forall>x < n. \<not> P x)"
  by (auto simp: find_None_iff)

lemma used_finite [simp]: "finite (used hi)"
  by (simp add: used_def)

lemma slot_of_iff:
  assumes "hash_rep hi bs"
  shows "slot_of hi i = Some x \<longleftrightarrow> x \<in> used hi \<and> node_id hi x = i"
proof
  assume "slot_of hi i = Some x"
  then show "x \<in> used hi \<and> node_id hi x = i"
    by (auto simp: slot_of_def used_def split: if_splits dest: find_Some_upt)
next
  assume x: "x \<in> used hi \<and> node_id hi x = i"
  then have "0 \<le> i" using assms by (auto simp: hash_rep_def)
  moreover obtain y where y: "List.find (\<lambda>x. node_id hi x = i) [0..<hi_cap hi] = Some y"
    using x find_None_upt [of "\<lambda>x. node_id hi x = i" "hi_cap hi"]
    by (cases "List.find (\<lambda>x. node_id hi x = i) [0..<hi_cap hi]") (auto simp: used_def)
  moreover have "y = x"
  proof -
    have "y \<in> used hi" "node_id hi y = i" using find_Some_upt [OF y] x by (auto simp: used_def)
    then show ?thesis using assms x unfolding hash_rep_def by (metis inj_onD)
  qed
  ultimately show "slot_of hi i = Some x" by (simp add: slot_of_def)
qed

lemma bucket_less:
  assumes "hash_rep hi bs"
  shows "bucket hi i \<le> hi_hashmod hi"
proof -
  obtain k where k: "Suc (hi_hashmod hi) = 2 ^ k" using assms by (auto simp: hash_rep_def)
  then have m: "int (hi_hashmod hi) = mask k"
    by (metis add_diff_cancel_left' mask_eq_exp_minus_1 of_nat_Suc of_nat_numeral of_nat_power plus_1_eq_Suc add.commute)
  have "i AND int (hi_hashmod hi) = i mod 2 ^ k" unfolding m by (simp flip: take_bit_eq_mask take_bit_eq_mod)
  moreover have "i mod 2 ^ k < 2 ^ k" by simp
  ultimately have "i AND int (hi_hashmod hi) < int (Suc (hi_hashmod hi))" using k by (metis of_nat_numeral of_nat_power)
  then show ?thesis by (simp add: bucket_def nat_le_iff)
qed

lemma lookup_loop_chain:
  "chain hn_link ns p xs \<Longrightarrow> lookup_loop ns p i = Some (List.find (\<lambda>x. hn_id (ns ! x) = i) xs)"
proof (induction xs arbitrary: p)
  case Nil
  then show ?case by (subst lookup_loop.simps) simp
next
  case (Cons x xs)
  then show ?case by (subst lookup_loop.simps) auto
qed

lemma lookup_ok:
  assumes rep: "hash_rep hi bs"
  shows "hashid_lookup hi i = Some (slot_of hi i)"
proof -
  let ?j = "bucket hi i"
  have c: "chain hn_link (hi_id hi) (hi_hash hi ! ?j) (bs ?j)"
    "set (bs ?j) = {x \<in> used hi. bucket hi (node_id hi x) = ?j}"
    using rep bucket_less [OF rep, of i] by (auto simp: hash_rep_def)
  have "List.find (\<lambda>x. node_id hi x = i) (bs ?j) = slot_of hi i"
  proof (cases "slot_of hi i")
    case None
    have "node_id hi x \<noteq> i" if "x \<in> set (bs ?j)" for x
      using None slot_of_iff [OF rep, of i x] that c(2) by auto
    then show ?thesis using None by (auto simp: find_None_iff)
  next
    case (Some x)
    then have x: "x \<in> set (bs ?j)" "node_id hi x = i" using slot_of_iff [OF rep] c(2) by auto
    then obtain y where y: "List.find (\<lambda>x. node_id hi x = i) (bs ?j) = Some y"
      by (cases "List.find (\<lambda>x. node_id hi x = i) (bs ?j)") (auto simp: find_None_iff)
    then have "y \<in> set (bs ?j)" "node_id hi y = i" by (auto simp: find_Some_iff)
    then have "slot_of hi i = Some y" using slot_of_iff [OF rep] c(2) by auto
    then show ?thesis using y by simp
  qed
  then show ?thesis using lookup_loop_chain [OF c(1), of i] by (simp add: hashid_lookup_def)
qed

section \<open>Insertion\<close>

lemma insert_slot_ok:
  assumes rep: "hash_rep hi bs" and room: "hi_count hi < hi_cap hi"
  obtains c where "insert_slot hi i = Some c" "c < hi_cap hi" "node_id hi c = -1"
proof -
  let ?n = "int (hi_cap hi)"
  have pos: "0 < ?n" using room by simp
  have "\<exists>x < hi_cap hi. node_id hi x = -1"
  proof (rule ccontr)
    assume "\<not> ?thesis"
    then have "used hi = {..<hi_cap hi}" by (auto simp: used_def)
    then show False using rep room by (simp add: hash_rep_def)
  qed
  then obtain x where x: "x < hi_cap hi" "node_id hi x = -1" by blast
  let ?f = "\<lambda>k. nat ((int k + i) mod ?n)"
  have "?f (nat ((int x - i) mod ?n)) = x"
  proof -
    have "(int (nat ((int x - i) mod ?n)) + i) mod ?n = ((int x - i) mod ?n + i) mod ?n" using pos by simp
    also have "\<dots> = int x" using x(1) by (simp add: mod_add_left_eq)
    finally show ?thesis by simp
  qed
  moreover have "nat ((int x - i) mod ?n) < hi_cap hi" using pos by (simp add: nat_less_iff)
  ultimately have "List.find (\<lambda>k. node_id hi (?f k) = -1) [0..<hi_cap hi] \<noteq> None"
    using x(2) by (auto simp: find_None_upt)
  then obtain k where k: "List.find (\<lambda>k. node_id hi (?f k) = -1) [0..<hi_cap hi] = Some k" by blast
  have "?f k < hi_cap hi" using pos by (simp add: nat_less_iff)
  with find_Some_upt [OF k] k that show thesis by (simp add: insert_slot_def)
qed

lemma insert_ok:
  assumes rep: "hash_rep hi bs" and i: "0 \<le> i" "i + int (hi_cap hi) < 2 ^ 31" "slot_of hi i = None"
    and room: "hi_count hi < hi_cap hi"
  shows "\<exists>c hi'. hashid_insert hi i = Some (c, hi') \<and> hash_inv hi' \<and> slot_of hi' = (slot_of hi)(i := Some c)
    \<and> c < hi_cap hi \<and> hi_cap hi' = hi_cap hi \<and> hi_count hi' = Suc (hi_count hi)"
proof -
  obtain c where c: "insert_slot hi i = Some c" "c < hi_cap hi" "node_id hi c = -1"
    by (rule insert_slot_ok [OF rep room])
  let ?h = "bucket hi i"
  have h: "?h \<le> hi_hashmod hi" by (rule bucket_less [OF rep])
  let ?n = "\<lparr>hn_id = i, hn_link = hi_hash hi ! ?h\<rparr>"
  have free: "hn_link (hi_id hi ! c) = None" using rep c by (simp add: hash_rep_def)
  define hi' where "hi' = hi\<lparr>hi_count := hi_count hi + 1, hi_id := (hi_id hi)[c := ?n],
    hi_hash := (hi_hash hi)[?h := Some c]\<rparr>"
  have ins: "hashid_insert hi i = Some (c, hi')"
    using c(1) free i(1,2) by (simp add: hashid_insert_def hi'_def Let_def)
  have f: "hi_hashmod hi' = hi_hashmod hi" "hi_cap hi' = hi_cap hi" "hi_count hi' = Suc (hi_count hi)"
    "hi_id hi' = (hi_id hi)[c := ?n]" "hi_hash hi' = (hi_hash hi)[?h := Some c]"
    by (simp_all add: hi'_def)
  have len: "c < length (hi_id hi)" using rep c(2) by (simp add: hash_rep_def)
  have ids: "node_id hi' x = (if x = c then i else node_id hi x)" for x
    using len by (simp add: nth_list_update f)
  have cu: "c \<notin> used hi" using c by (simp add: used_def)
  have used': "used hi' = insert c (used hi)" using c i(1) unfolding used_def ids f(2) by auto
  have bk: "bucket hi' j = bucket hi j" for j by (simp add: bucket_def f)
  have new: "node_id hi x \<noteq> i" if "x \<in> used hi" for x using slot_of_iff [OF rep, of i x] i(3) that by auto
  have rep': "hash_rep hi' (bs(?h := c # bs ?h))"
    unfolding hash_rep_def
  proof (intro conjI)
    show "\<forall>j \<le> hi_hashmod hi'. chain hn_link (hi_id hi') (hi_hash hi' ! j) ((bs(?h := c # bs ?h)) j)
      \<and> distinct ((bs(?h := c # bs ?h)) j)
      \<and> set ((bs(?h := c # bs ?h)) j) = {x \<in> used hi'. bucket hi' (node_id hi' x) = j}"
    proof (intro allI impI)
      fix j assume "j \<le> hi_hashmod hi'"
      then have j: "j \<le> hi_hashmod hi" by (simp add: f)
      then have b: "chain hn_link (hi_id hi) (hi_hash hi ! j) (bs j)" "distinct (bs j)"
        "set (bs j) = {x \<in> used hi. bucket hi (node_id hi x) = j}"
        using rep by (auto simp: hash_rep_def)
      have nin: "c \<notin> set (bs j)" using b(3) cu by simp
      have jl: "j < length (hi_hash hi)" using rep j by (simp add: hash_rep_def)
      have st: "{x \<in> used hi'. bucket hi' (node_id hi' x) = j} =
          (if j = ?h then insert c (set (bs j)) else set (bs j))"
        unfolding used' bk using b(3) cu by (auto simp: ids)
      show "chain hn_link (hi_id hi') (hi_hash hi' ! j) ((bs(?h := c # bs ?h)) j)
        \<and> distinct ((bs(?h := c # bs ?h)) j)
        \<and> set ((bs(?h := c # bs ?h)) j) = {x \<in> used hi'. bucket hi' (node_id hi' x) = j}"
        unfolding st unfolding f using b(1,2) nin jl len by (cases "j = ?h") auto
    qed
    have "inj_on (node_id hi) (used hi)" using rep by (simp add: hash_rep_def)
    then show "inj_on (node_id hi') (used hi')"
      unfolding used' using new cu by (auto simp: inj_on_def ids)
    show "\<forall>x < hi_cap hi'. node_id hi' x = -1 \<longrightarrow> hn_link (hi_id hi' ! x) = None"
      using rep i(1) len by (auto simp: hash_rep_def nth_list_update f)
    show "\<forall>x \<in> used hi'. 0 \<le> node_id hi' x" unfolding used' using rep i(1) by (auto simp: ids hash_rep_def)
    show "hi_count hi' = card (used hi')" unfolding used' using rep cu by (simp add: hash_rep_def f)
  qed (use rep in \<open>auto simp: hash_rep_def f\<close>)
  have "slot_of hi' = (slot_of hi)(i := Some c)"
  proof
    fix k
    show "slot_of hi' k = ((slot_of hi)(i := Some c)) k"
      by (rule option_ext) (use slot_of_iff [OF rep'] slot_of_iff [OF rep] new cu in \<open>auto simp: used' ids\<close>)
  qed
  then show ?thesis using ins rep' c(2) f unfolding hash_inv_def by auto
qed

section \<open>Removal\<close>

lemma remove_loop_None:
  "chain hn_link ns (Some c) (c # xs) \<Longrightarrow> \<forall>x \<in> set xs. hn_id (ns ! x) \<noteq> i \<Longrightarrow> remove_loop ns c i = Some None"
proof (induction xs arbitrary: c)
  case Nil
  then show ?case by (subst remove_loop.simps) simp
next
  case (Cons x xs)
  then show ?case by (subst remove_loop.simps) auto
qed

lemma remove_loop_Some:
  "chain hn_link ns (Some c) (c # ys @ x # zs) \<Longrightarrow> \<forall>y \<in> set ys. hn_id (ns ! y) \<noteq> i \<Longrightarrow> hn_id (ns ! x) = i \<Longrightarrow>
     remove_loop ns c i = Some (Some (last (c # ys), x))"
proof (induction ys arbitrary: c)
  case Nil
  then show ?case by (subst remove_loop.simps) simp
next
  case (Cons y ys)
  then show ?case by (subst remove_loop.simps) auto
qed

text \<open>Both branches of \<open>hashid_remove\<close> unlink the slot from its bucket.\<close>

definition unlinked_rep :: "hashid \<Rightarrow> nat \<Rightarrow> nat \<Rightarrow> nat list \<Rightarrow> hashid \<Rightarrow> bool" where
  "unlinked_rep hi h x xs hi' \<longleftrightarrow> hi_hashmod hi' = hi_hashmod hi \<and> hi_cap hi' = hi_cap hi
     \<and> hi_count hi' = hi_count hi - 1 \<and> length (hi_id hi') = length (hi_id hi)
     \<and> length (hi_hash hi') = length (hi_hash hi) \<and> hi_id hi' ! x = free_node
     \<and> chain hn_link (hi_id hi') (hi_hash hi' ! h) xs
     \<and> (\<forall>j. j \<noteq> h \<longrightarrow> hi_hash hi' ! j = hi_hash hi ! j)
     \<and> (\<forall>y. y \<noteq> x \<longrightarrow> hn_id (hi_id hi' ! y) = hn_id (hi_id hi ! y))
     \<and> (\<forall>y. y \<noteq> x \<longrightarrow> y \<notin> set xs \<longrightarrow> hi_id hi' ! y = hi_id hi ! y)"

lemma remove_unlinks:
  assumes rep: "hash_rep hi bs" and x: "slot_of hi i = Some x"
  shows "\<exists>hi' ys zs. hashid_remove hi i = Some (Some x, hi') \<and> bs (bucket hi i) = ys @ x # zs
    \<and> unlinked_rep hi (bucket hi i) x (ys @ zs) hi'"
proof -
  let ?h = "bucket hi i" and ?ns = "hi_id hi"
  have h: "?h \<le> hi_hashmod hi" by (rule bucket_less [OF rep])
  have xi: "x \<in> used hi" "node_id hi x = i" using slot_of_iff [OF rep] x by auto
  have c: "chain hn_link ?ns (hi_hash hi ! ?h) (bs ?h)" "distinct (bs ?h)"
    "set (bs ?h) = {x \<in> used hi. bucket hi (node_id hi x) = ?h}"
    using rep h by (auto simp: hash_rep_def)
  have xl: "x < length ?ns" using rep xi by (auto simp: hash_rep_def used_def)
  have hl: "?h < length (hi_hash hi)" using rep h by (simp add: hash_rep_def)
  obtain ys zs where bs: "bs ?h = ys @ x # zs" using xi c(3) by (metis (mono_tags, lifting) mem_Collect_eq split_list)
  have ys: "\<forall>y \<in> set ys. node_id hi y \<noteq> i"
  proof
    fix y assume "y \<in> set ys"
    then have "y \<in> used hi" "y \<noteq> x" using c(2,3) bs by auto
    then show "node_id hi y \<noteq> i" using rep xi unfolding hash_rep_def by (metis inj_onD)
  qed
  show ?thesis
  proof (cases ys)
    case Nil
    let ?hi = "hi\<lparr>hi_hash := (hi_hash hi)[?h := hn_link (?ns ! x)], hi_id := ?ns[x := free_node], hi_count := hi_count hi - 1\<rparr>"
    have "hashid_remove hi i = Some (Some x, ?hi)"
      using c(1) bs Nil xi by (simp add: hashid_remove_def Let_def)
    moreover have "unlinked_rep hi ?h x zs ?hi"
      using c bs Nil xl hl by (auto simp: unlinked_rep_def)
    ultimately show ?thesis using bs Nil by (intro exI [of _ ?hi] exI [of _ "[]"] exI [of _ zs]) simp
  next
    case (Cons a as)
    let ?p = "last (a # as)"
    let ?hi = "hi\<lparr>hi_id := (?ns[?p := (?ns ! ?p)\<lparr>hn_link := hn_link (?ns ! x)\<rparr>])[x := free_node], hi_count := hi_count hi - 1\<rparr>"
    have p: "a # as = butlast (a # as) @ [?p]" by simp
    have ch: "chain hn_link ?ns (Some a) (a # as @ x # zs)" "hi_hash hi ! ?h = Some a"
      using c(1) bs Cons by auto
    have "remove_loop ?ns a i = Some (Some (?p, x))"
      using remove_loop_Some [OF ch(1)] ys Cons xi by simp
    then have rm: "hashid_remove hi i = Some (Some x, ?hi)"
      using ch(2) ys Cons by (simp add: hashid_remove_def Let_def)
    have d: "distinct (butlast (a # as) @ ?p # x # zs)" using c(2) bs Cons p by (metis append.assoc append_Cons append_Nil)
    have "chain hn_link ?ns (hi_hash hi ! ?h) (butlast (a # as) @ ?p # x # zs)"
      using c(1) bs Cons p by (metis append.assoc append_Cons append_Nil)
    from chain_unlink [OF this d, of "(?ns ! ?p)\<lparr>hn_link := hn_link (?ns ! x)\<rparr>" free_node]
    have "chain hn_link (hi_id ?hi) (hi_hash ?hi ! ?h) (butlast (a # as) @ ?p # zs)" by simp
    then have "chain hn_link (hi_id ?hi) (hi_hash ?hi ! ?h) (ys @ zs)"
      using p Cons by (metis append.assoc append_Cons append_Nil)
    moreover have "?p \<in> set (ys @ zs)" using Cons last_in_set [of "a # as"] by (metis Un_iff list.distinct(1) set_append)
    moreover have "?p \<noteq> x" using d by auto
    moreover have "?p < length ?ns" using chain_bound [OF ch(1), of ?p] by (simp del: last.simps) (metis last_ConsL last_ConsR last_in_set)
    ultimately have "unlinked_rep hi ?h x (ys @ zs) ?hi"
      using xl by (auto simp: unlinked_rep_def nth_list_update simp del: last.simps)
    then show ?thesis using rm bs by blast
  qed
qed

lemma remove_ok:
  assumes rep: "hash_rep hi bs" and x: "slot_of hi i = Some x"
  shows "\<exists>hi'. hashid_remove hi i = Some (Some x, hi') \<and> hash_inv hi' \<and> slot_of hi' = (slot_of hi)(i := None)
    \<and> hi_cap hi' = hi_cap hi \<and> Suc (hi_count hi') = hi_count hi"
proof -
  let ?h = "bucket hi i"
  obtain hi' ys zs where rm: "hashid_remove hi i = Some (Some x, hi')" "bs ?h = ys @ x # zs"
    and u: "unlinked_rep hi ?h x (ys @ zs) hi'"
    using remove_unlinks [OF rep x] by blast
  have h: "?h \<le> hi_hashmod hi" by (rule bucket_less [OF rep])
  have xi: "x \<in> used hi" "node_id hi x = i" using slot_of_iff [OF rep] x by auto
  have ids: "node_id hi' y = (if y = x then -1 else node_id hi y)" for y
    using u by (auto simp: unlinked_rep_def free_node_def)
  have cap: "hi_cap hi' = hi_cap hi" "hi_hashmod hi' = hi_hashmod hi" using u by (auto simp: unlinked_rep_def)
  have used': "used hi' = used hi - {x}" unfolding used_def cap by (auto simp: ids)
  have bk: "bucket hi' j = bucket hi j" for j by (simp add: bucket_def cap)
  have cnt: "0 < hi_count hi" using rep xi(1) card_gt_0_iff [of "used hi"] by (auto simp: hash_rep_def)
  have "hash_rep hi' (bs(?h := ys @ zs))"
    unfolding hash_rep_def
  proof (intro conjI)
    show "\<forall>j \<le> hi_hashmod hi'. chain hn_link (hi_id hi') (hi_hash hi' ! j) ((bs(?h := ys @ zs)) j)
      \<and> distinct ((bs(?h := ys @ zs)) j)
      \<and> set ((bs(?h := ys @ zs)) j) = {x \<in> used hi'. bucket hi' (node_id hi' x) = j}"
    proof (intro allI impI)
      fix j assume "j \<le> hi_hashmod hi'"
      then have b: "chain hn_link (hi_id hi) (hi_hash hi ! j) (bs j)" "distinct (bs j)"
        "set (bs j) = {x \<in> used hi. bucket hi (node_id hi x) = j}"
        using rep cap by (auto simp: hash_rep_def)
      have st: "{x \<in> used hi'. bucket hi' (node_id hi' x) = j} = set (bs j) - {x}"
        unfolding used' bk b(3) by (auto simp: ids)
      show "chain hn_link (hi_id hi') (hi_hash hi' ! j) ((bs(?h := ys @ zs)) j)
        \<and> distinct ((bs(?h := ys @ zs)) j)
        \<and> set ((bs(?h := ys @ zs)) j) = {x \<in> used hi'. bucket hi' (node_id hi' x) = j}"
      proof (cases "j = ?h")
        case True
        then show ?thesis unfolding st using u b(2) rm(2) by (auto simp: unlinked_rep_def)
      next
        case False
        then have out: "x \<notin> set (bs j)" using b(3) xi by auto
        have "set (bs j) \<inter> set (bs ?h) = {}"
          using b(3) rep h False by (auto simp: hash_rep_def)
        then have same: "\<forall>y \<in> set (bs j). hi_id hi' ! y = hi_id hi ! y"
          using u out rm(2) by (auto simp: unlinked_rep_def)
        have len: "length (hi_id hi') = length (hi_id hi)" "hi_hash hi' ! j = hi_hash hi ! j"
          using u False by (auto simp: unlinked_rep_def)
        have "chain hn_link (hi_id hi') p ls" if "chain hn_link (hi_id hi) p ls" "\<forall>y \<in> set ls. hi_id hi' ! y = hi_id hi ! y" for p ls
          using that len(1) by (induction ls arbitrary: p) auto
        then show ?thesis unfolding st using b same out False len(2) by auto
      qed
    qed
    show "inj_on (node_id hi') (used hi')"
      unfolding used' using rep by (auto simp: inj_on_def ids hash_rep_def)
    show "\<forall>y < hi_cap hi'. node_id hi' y = -1 \<longrightarrow> hn_link (hi_id hi' ! y) = None"
    proof (intro allI impI)
      fix y assume y: "y < hi_cap hi'" "node_id hi' y = -1"
      show "hn_link (hi_id hi' ! y) = None"
      proof (cases "y = x")
        case True
        then show ?thesis using u by (simp add: unlinked_rep_def free_node_def)
      next
        case False
        then have f: "node_id hi y = -1" "y < hi_cap hi" using y ids cap by auto
        then have "y \<notin> set (bs ?h)" using rep h by (auto simp: hash_rep_def used_def)
        then have "hi_id hi' ! y = hi_id hi ! y" using u False rm(2) by (auto simp: unlinked_rep_def)
        then show ?thesis using f rep by (simp add: hash_rep_def)
      qed
    qed
    show "\<forall>y \<in> used hi'. 0 \<le> node_id hi' y" unfolding used' using rep by (auto simp: ids hash_rep_def)
    show "hi_count hi' = card (used hi')"
      unfolding used' using rep u xi(1) by (simp add: hash_rep_def unlinked_rep_def)
  qed (use rep u in \<open>auto simp: hash_rep_def unlinked_rep_def\<close>)
  note rep' = this
  have "slot_of hi' = (slot_of hi)(i := None)"
  proof
    fix k
    show "slot_of hi' k = ((slot_of hi)(i := None)) k"
    proof (rule option_ext)
      fix y
      show "slot_of hi' k = Some y \<longleftrightarrow> ((slot_of hi)(i := None)) k = Some y"
        using slot_of_iff [OF rep', of k y] slot_of_iff [OF rep, of k y] xi rep
        unfolding used' ids hash_rep_def by (auto dest: inj_onD)
    qed
  qed
  then show ?thesis using rm(1) rep' cap cnt u unfolding hash_inv_def by (auto simp: unlinked_rep_def)
qed

lemma remove_absent:
  assumes rep: "hash_rep hi bs" and x: "slot_of hi i = None"
  shows "hashid_remove hi i = Some (None, hi)"
proof -
  let ?h = "bucket hi i"
  have c: "chain hn_link (hi_id hi) (hi_hash hi ! ?h) (bs ?h)"
    "set (bs ?h) = {x \<in> used hi. bucket hi (node_id hi x) = ?h}"
    using rep bucket_less [OF rep, of i] by (auto simp: hash_rep_def)
  have no: "\<forall>y \<in> set (bs ?h). node_id hi y \<noteq> i" using c(2) slot_of_iff [OF rep, of i] x by auto
  show ?thesis
  proof (cases "bs ?h")
    case Nil
    then show ?thesis using c(1) by (simp add: hashid_remove_def Let_def)
  next
    case (Cons y ys)
    then show ?thesis using c(1) no remove_loop_None [of "hi_id hi" y ys i] by (simp add: hashid_remove_def Let_def)
  qed
qed

section \<open>The interface of a table of slots\<close>

datatype hop = Ins int | Del int

fun hop_good :: "(int \<Rightarrow> bool) \<Rightarrow> hop \<Rightarrow> bool" where
  "hop_good good (Ins i) = good i"
| "hop_good good (Del i) = True"

text \<open>
  A client inserts an id only when it is new and the table has room (the gate asks \<open>hashid_full\<close>);
  \<open>live_ids\<close> is the set of ids that such a history leaves.
\<close>

fun live_ids :: "nat \<Rightarrow> hop list \<Rightarrow> int set \<Rightarrow> int set" where
  "live_ids cap [] L = L"
| "live_ids cap (Ins i # ops) L = live_ids cap ops (if i \<in> L \<or> card L = cap then L else insert i L)"
| "live_ids cap (Del i # ops) L = live_ids cap ops (L - {i})"

fun slot_run :: "('s \<Rightarrow> int \<Rightarrow> nat option option) \<Rightarrow> ('s \<Rightarrow> int \<Rightarrow> (nat \<times> 's) option)
    \<Rightarrow> ('s \<Rightarrow> int \<Rightarrow> (nat option \<times> 's) option) \<Rightarrow> ('s \<Rightarrow> bool) \<Rightarrow> hop list \<Rightarrow> 's \<Rightarrow> 's option" where
  "slot_run look ins rem full [] s = Some s"
| "slot_run look ins rem full (Ins i # ops) s =
     (case look s i of None \<Rightarrow> None
      | Some r \<Rightarrow> if r \<noteq> None \<or> full s then slot_run look ins rem full ops s
          else (case ins s i of None \<Rightarrow> None | Some (c, s') \<Rightarrow> slot_run look ins rem full ops s'))"
| "slot_run look ins rem full (Del i # ops) s =
     (case rem s i of None \<Rightarrow> None | Some (c, s') \<Rightarrow> slot_run look ins rem full ops s')"

locale slot_table =
  fixes look :: "'s \<Rightarrow> int \<Rightarrow> nat option option"
    and ins :: "'s \<Rightarrow> int \<Rightarrow> (nat \<times> 's) option"
    and rem :: "'s \<Rightarrow> int \<Rightarrow> (nat option \<times> 's) option"
    and full :: "'s \<Rightarrow> bool"
    and capacity :: "'s \<Rightarrow> nat"
    and inv :: "'s \<Rightarrow> bool"
    and slots :: "'s \<Rightarrow> int \<Rightarrow> nat option"
    and good :: "nat \<Rightarrow> int \<Rightarrow> bool"
  assumes look_law: "inv s \<Longrightarrow> look s i = Some (slots s i)"
    and ins_law: "inv s \<Longrightarrow> good (capacity s) i \<Longrightarrow> slots s i = None \<Longrightarrow> \<not> full s \<Longrightarrow>
      \<exists>c s'. ins s i = Some (c, s') \<and> inv s' \<and> capacity s' = capacity s \<and> slots s' = (slots s)(i := Some c)"
    and rem_law: "inv s \<Longrightarrow>
      \<exists>s'. rem s i = Some (slots s i, s') \<and> inv s' \<and> capacity s' = capacity s \<and> slots s' = (slots s)(i := None)"
    and slots_law: "inv s \<Longrightarrow> finite (dom (slots s)) \<and> inj_on (slots s) (dom (slots s))
      \<and> ran (slots s) \<subseteq> {..<capacity s}"
    and full_law: "inv s \<Longrightarrow> full s \<longleftrightarrow> card (dom (slots s)) = capacity s"
begin

lemma run_live:
  "inv s \<Longrightarrow> \<forall>op \<in> set ops. hop_good (good (capacity s)) op \<Longrightarrow>
   \<exists>s'. slot_run look ins rem full ops s = Some s' \<and> inv s' \<and> capacity s' = capacity s
     \<and> dom (slots s') = live_ids (capacity s) ops (dom (slots s))"
proof (induction ops arbitrary: s)
  case Nil
  then show ?case by simp
next
  case (Cons op ops)
  show ?case
  proof (cases op)
    case (Ins i)
    have g: "good (capacity s) i" using Cons.prems Ins by simp
    note l = look_law [OF Cons.prems(1)] full_law [OF Cons.prems(1)]
    show ?thesis
    proof (cases "slots s i \<noteq> None \<or> full s")
      case True
      then have "slot_run look ins rem full (op # ops) s = slot_run look ins rem full ops s"
        "live_ids (capacity s) (op # ops) (dom (slots s)) = live_ids (capacity s) ops (dom (slots s))"
        using Ins l by (auto simp: domIff)
      then show ?thesis using Cons.IH [of s] Cons.prems by simp
    next
      case False
      then obtain c s' where s': "ins s i = Some (c, s')" "inv s'" "capacity s' = capacity s"
        "slots s' = (slots s)(i := Some c)"
        using ins_law [OF Cons.prems(1) g] by auto
      have "slot_run look ins rem full (op # ops) s = slot_run look ins rem full ops s'"
        using Ins l False s' by simp
      moreover have "live_ids (capacity s) (op # ops) (dom (slots s)) = live_ids (capacity s) ops (dom (slots s'))"
        using Ins l False s'(4) by (auto simp: domIff)
      ultimately show ?thesis using Cons.IH [of s'] Cons.prems s'(2,3) by simp
    qed
  next
    case (Del i)
    obtain s' where s': "rem s i = Some (slots s i, s')" "inv s'" "capacity s' = capacity s"
      "slots s' = (slots s)(i := None)"
      using rem_law [OF Cons.prems(1)] by auto
    have "slot_run look ins rem full (op # ops) s = slot_run look ins rem full ops s'"
      using Del s' by simp
    moreover have "live_ids (capacity s) (op # ops) (dom (slots s)) = live_ids (capacity s) ops (dom (slots s'))"
      using Del s'(4) by simp
    ultimately show ?thesis using Cons.IH [of s'] Cons.prems s'(2,3) by simp
  qed
qed

end

text \<open>An id that the table can take: \<open>hashid_insert\<close> computes \<open>i + id\<close> on \<open>int\<close>s.\<close>

definition good_id :: "nat \<Rightarrow> int \<Rightarrow> bool" where
  "good_id cap i \<longleftrightarrow> 0 \<le> i \<and> i + int cap < 2 ^ 31"

lemma slots_ok:
  assumes "hash_inv hi"
  shows "dom (slot_of hi) = node_id hi ` used hi" "inj_on (slot_of hi) (dom (slot_of hi))"
    "ran (slot_of hi) = used hi" "card (dom (slot_of hi)) = hi_count hi"
proof -
  obtain bs where rep: "hash_rep hi bs" using assms by (auto simp: hash_inv_def)
  note iff = slot_of_iff [OF rep]
  show d: "dom (slot_of hi) = node_id hi ` used hi" using iff by (force simp: dom_def)
  show "inj_on (slot_of hi) (dom (slot_of hi))"
  proof (rule inj_onI)
    fix i j assume "i \<in> dom (slot_of hi)" "slot_of hi i = slot_of hi j"
    then show "i = j" using iff by (metis domD)
  qed
  show "ran (slot_of hi) = used hi" using iff by (auto simp: ran_def)
  have "inj_on (node_id hi) (used hi)" "hi_count hi = card (used hi)" using rep by (auto simp: hash_rep_def)
  then show "card (dom (slot_of hi)) = hi_count hi" unfolding d by (simp add: card_image)
qed

lemma count_room:
  assumes "hash_inv hi" "\<not> hashid_full hi"
  shows "hi_count hi < hi_cap hi"
proof -
  have "used hi \<subseteq> {..<hi_cap hi}" by (auto simp: used_def)
  then have "card (used hi) \<le> hi_cap hi" by (metis card_lessThan card_mono finite_lessThan)
  then show ?thesis using assms by (auto simp: hash_inv_def hash_rep_def hashid_full_def)
qed

interpretation hid: slot_table hashid_lookup hashid_insert hashid_remove hashid_full hi_cap hash_inv slot_of good_id
proof
  fix hi i assume hi: "hash_inv hi"
  then obtain bs where rep: "hash_rep hi bs" by (auto simp: hash_inv_def)
  show "hashid_lookup hi i = Some (slot_of hi i)" by (rule lookup_ok [OF rep])
  show "\<exists>hi'. hashid_remove hi i = Some (slot_of hi i, hi') \<and> hash_inv hi' \<and> hi_cap hi' = hi_cap hi
      \<and> slot_of hi' = (slot_of hi)(i := None)"
  proof (cases "slot_of hi i")
    case None
    then have "(slot_of hi)(i := None) = slot_of hi" by auto
    then show ?thesis using remove_absent [OF rep None] hi None by simp
  next
    case (Some x)
    then show ?thesis using remove_ok [OF rep Some] by auto
  qed
  assume "good_id (hi_cap hi) i" "slot_of hi i = None" "\<not> hashid_full hi"
  then show "\<exists>c hi'. hashid_insert hi i = Some (c, hi') \<and> hash_inv hi' \<and> hi_cap hi' = hi_cap hi
      \<and> slot_of hi' = (slot_of hi)(i := Some c)"
    using insert_ok [OF rep, of i] count_room [OF hi] by (auto simp: good_id_def)
next
  fix hi assume hi: "hash_inv hi"
  show "finite (dom (slot_of hi)) \<and> inj_on (slot_of hi) (dom (slot_of hi)) \<and> ran (slot_of hi) \<subseteq> {..<hi_cap hi}"
    using slots_ok [OF hi] by (auto simp: used_def)
  show "hashid_full hi \<longleftrightarrow> card (dom (slot_of hi)) = hi_cap hi" by (simp add: hashid_full_def slots_ok(4) [OF hi])
qed

lemma hash_cap_power: "\<exists>k. hash_cap (2 ^ j) limit = 2 ^ k"
proof (induction "limit - 2 ^ j" arbitrary: j rule: less_induct)
  case less
  show ?case
  proof (cases "2 ^ j < limit")
    case True
    have "limit - 2 ^ Suc j < limit - 2 ^ j" using True by (intro diff_less_mono2) auto
    from less [OF this] show ?thesis using True by (subst hash_cap.simps) (simp add: mult.commute)
  next
    case False
    then show ?thesis by (subst hash_cap.simps) auto
  qed
qed

lemma hash_inv_init:
  shows "hash_inv (hashid_init n)" "hi_cap (hashid_init n) = n" "dom (slot_of (hashid_init n)) = {}"
proof -
  obtain k where k: "hash_cap 16 n = 2 ^ k" using hash_cap_power [of 4 n] by auto
  have i: "node_id (hashid_init n) x = -1" if "x < n" for x
    using that by (simp add: hashid_init_def Let_def free_node_def)
  have c: "hi_cap (hashid_init n) = n" by (simp add: hashid_init_def Let_def)
  have u: "used (hashid_init n) = {}" using i c by (auto simp: used_def)
  have b: "j < 2 ^ k" if "j \<le> 2 ^ k - Suc 0" for j :: nat
    using that zero_less_power [of "2::nat" k] by linarith
  have "hash_rep (hashid_init n) (\<lambda>j. [])"
    unfolding hash_rep_def u by (auto simp: hashid_init_def Let_def free_node_def k b)
  then show h: "hash_inv (hashid_init n)" by (auto simp: hash_inv_def)
  show "hi_cap (hashid_init n) = n" by (rule c)
  show "dom (slot_of (hashid_init n)) = {}" using slots_ok(1) [OF h] u by simp
qed



end
