(* ===== verification/Gate.thy ===== *)
theory Gate
  imports Skynet_H CText DataBuffer HashId
begin

text \<open>
  \<open>service-src/service_gate.c\<close>: the gate accepts connections, cuts what they receive into packages
  and passes each to the broker, to the agent of the connection or to the watchdog.

  What the gate asks the framework to do (\<open>skynet_socket_close\<close>, \<open>skynet_send\<close>, ...) is a list of
  \<open>gate_call\<close>s in the order of the calls. The results of \<open>skynet_queryname\<close> and
  \<open>skynet_socket_listen\<close> are arguments. The fields of \<open>struct gate\<close> that only \<open>gate_init\<close> and the
  text commands write are the record \<open>gate_head\<close>, which \<open>gate\<close> extends. \<open>None\<close> is a failed
  assertion or a read outside an object.
\<close>

section \<open>Data\<close>

datatype gate_call =
  Socket_close int
| Socket_start int
| Socket_send int bytes
| Send_to u32 u32 u32 bytes
| Error_text string

record connection =
  c_id :: int
  c_agent :: u32
  c_client :: u32
  c_remote_name :: string
  c_buffer :: databuffer

record gate_head =
  gt_listen_id :: int
  gt_watchdog :: u32
  gt_broker :: u32
  gt_client_tag :: u32
  gt_header_size :: nat
  gt_max :: nat

record gate = gate_head +
  gt_hash :: hashid
  gt_conn :: "connection list"
  gt_mp :: messagepool

definition gate_create :: gate where
  "gate_create = \<lparr>gt_listen_id = -1, gt_watchdog = 0, gt_broker = 0, gt_client_tag = 0, gt_header_size = 0,
     gt_max = 0, gt_hash = \<lparr>hi_hashmod = 0, hi_cap = 0, hi_count = 0, hi_id = [], hi_hash = []\<rparr>,
     gt_conn = [], gt_mp = messagepool_zero\<rparr>"

definition zero_connection :: connection where
  "zero_connection = \<lparr>c_id = -1, c_agent = 0, c_client = 0, c_remote_name = [], c_buffer = databuffer_zero\<rparr>"

text \<open>\<open>gate_release\<close>: the sockets it closes; the memory of the gate is freed.\<close>

definition gate_release :: "gate \<Rightarrow> gate_call list" where
  "gate_release g =
     map (\<lambda>i. Socket_close (c_id (gt_conn g ! i))) (filter (\<lambda>i. 0 \<le> c_id (gt_conn g ! i)) [0..<gt_max g])
     @ (if 0 \<le> gt_listen_id g then [Socket_close (gt_listen_id g)] else [])"

section \<open>Text commands\<close>

text \<open>\<open>_parm\<close> on the buffer \<open>msg\<close> of \<open>sz + 1\<close> characters: what follows the command and spaces moves to the front.\<close>

definition parm :: "string \<Rightarrow> nat \<Rightarrow> nat \<Rightarrow> string" where
  "parm msg sz command_sz =
     (let k = command_sz + length (takeWhile (\<lambda>c. c = CHR '' '') (drop command_sz (take sz msg)))
      in drop k (take sz msg) @ CHR 0x00 # drop (Suc (sz - k)) msg)"

definition forward_agent :: "gate \<Rightarrow> int \<Rightarrow> u32 \<Rightarrow> u32 \<Rightarrow> gate option" where
  "forward_agent g fd agentaddr clientaddr =
     (case hashid_lookup (gt_hash g) fd of None \<Rightarrow> None
      | Some None \<Rightarrow> Some g
      | Some (Some x) \<Rightarrow> Some (g\<lparr>gt_conn := (gt_conn g)[x := (gt_conn g ! x)\<lparr>c_agent := agentaddr, c_client := clientaddr\<rparr>]\<rparr>))"

definition ctrl_kick :: "gate \<Rightarrow> string \<Rightarrow> (gate \<times> gate_call list) option" where
  "ctrl_kick g buf =
     (let uid = to_int32 (strtol10 (cstr buf 0))
      in map_option (\<lambda>r. (g, if r = None then [] else [Socket_close uid])) (hashid_lookup (gt_hash g) uid))"

definition ctrl_forward :: "gate \<Rightarrow> string \<Rightarrow> (gate \<times> gate_call list) option" where
  "ctrl_forward g buf =
     (case strsep_space buf 0 of
        (buf, None) \<Rightarrow> Some (g, [])
      | (buf, Some agent) \<Rightarrow>
          (let id = to_int32 (strtol10 (cstr buf 0))
           in case strsep_space buf agent of
                (buf, None) \<Rightarrow> Some (g, [])
              | (buf, Some client) \<Rightarrow>
                  map_option (\<lambda>g. (g, []))
                    (forward_agent g id (of_nat (strtoul16 (cstr buf (agent + 1))))
                       (of_nat (strtoul16 (cstr buf (client + 1)))))))"

definition ctrl_start :: "gate \<Rightarrow> string \<Rightarrow> (gate \<times> gate_call list) option" where
  "ctrl_start g buf =
     (let uid = to_int32 (strtol10 (cstr buf 0))
      in map_option (\<lambda>r. (g, if r = None then [] else [Socket_start uid])) (hashid_lookup (gt_hash g) uid))"

definition ctrl_close :: "gate \<Rightarrow> gate \<times> gate_call list" where
  "ctrl_close g =
     (if 0 \<le> gt_listen_id g then (g\<lparr>gt_listen_id := -1\<rparr>, [Socket_close (gt_listen_id g)]) else (g, []))"

text \<open>\<open>_ctrl\<close>; \<open>query\<close> is \<open>skynet_queryname\<close>.\<close>

definition ctrl :: "(string \<Rightarrow> u32) \<Rightarrow> gate \<Rightarrow> string \<Rightarrow> (gate \<times> gate_call list) option" where
  "ctrl query g msg =
     (let sz = length msg; tmp = msg @ [CHR 0x00];
          i = length (takeWhile (\<lambda>c. c \<noteq> CHR '' '') msg); word = take i msg
      in if sz = 0 then Some (g, [])
         else do {
           kick \<leftarrow> word_is word ''kick'';
           if kick then ctrl_kick g (parm tmp sz i)
           else do {
             forward \<leftarrow> word_is word ''forward'';
             if forward then ctrl_forward g (parm tmp sz i)
             else do {
               broker \<leftarrow> word_is word ''broker'';
               if broker then Some (g\<lparr>gt_broker := query (cstr (parm tmp sz i) 0)\<rparr>, [])
               else do {
                 start \<leftarrow> word_is word ''start'';
                 if start then ctrl_start g (parm tmp sz i)
                 else do {
                   close \<leftarrow> word_is word ''close'';
                   if close then Some (ctrl_close g)
                   else Some (g, [Error_text (''[gate] Unkown command : '' @ cstr tmp 0)])
                 }
               }
             }
           }
         })"

section \<open>Packages\<close>

text \<open>\<open>_report\<close> with the formatted text, which is shorter than its buffer of 1024.\<close>

definition report :: "'a gate_head_scheme \<Rightarrow> string \<Rightarrow> gate_call list" where
  "report g text = (if gt_watchdog g = 0 then [] else [Send_to 0 (gt_watchdog g) PTYPE_TEXT (string_bytes text)])"

text \<open>\<open>_forward\<close>: without broker, agent and watchdog nothing is read.\<close>

definition forward_package ::
  "'a gate_head_scheme \<Rightarrow> connection \<Rightarrow> databuffer \<Rightarrow> messagepool \<Rightarrow> nat \<Rightarrow> (gate_call list \<times> databuffer \<times> messagepool) option" where
  "forward_package g c db mp sz =
     (if gt_broker g \<noteq> 0 then
        map_option (\<lambda>(temp, s). ([Send_to 0 (gt_broker g) (gt_client_tag g OR PTYPE_TAG_DONTCOPY) temp], s))
          (databuffer_read db mp sz)
      else if c_agent c \<noteq> 0 then
        map_option (\<lambda>(temp, s). ([Send_to (c_client c) (c_agent c) (gt_client_tag g OR PTYPE_TAG_DONTCOPY) temp], s))
          (databuffer_read db mp sz)
      else if gt_watchdog g \<noteq> 0 then
        map_option (\<lambda>(temp, s). ([Send_to 0 (gt_watchdog g) (PTYPE_TEXT OR PTYPE_TAG_DONTCOPY)
            (string_bytes (fmt_d (c_id c) @ '' data '') @ temp)], s))
          (databuffer_read db mp sz)
      else Some ([], db, mp))"

text \<open>The loop of \<open>dispatch_message\<close>; \<open>out\<close> are the calls so far.\<close>

partial_function (option) package_loop ::
  "'a gate_head_scheme \<Rightarrow> connection \<Rightarrow> int \<Rightarrow> databuffer \<Rightarrow> messagepool \<Rightarrow> gate_call list
    \<Rightarrow> (gate_call list \<times> databuffer \<times> messagepool) option" where
  "package_loop g c i db mp out =
     (case databuffer_readheader db mp (gt_header_size g) of
        None \<Rightarrow> None
      | Some (None, db, mp) \<Rightarrow> Some (out, db, mp)
      | Some (Some sz, db, mp) \<Rightarrow>
          if sz < 0 then Some (out, db, mp)
          else if sz > 0 then
            if sz \<ge> 0x1000000 then
              (case databuffer_clear db mp of None \<Rightarrow> None
               | Some (db, mp) \<Rightarrow> Some (out @ [Socket_close i, Error_text ''Recv socket message > 16M''], db, mp))
            else
              (case forward_package g c db mp (nat sz) of None \<Rightarrow> None
               | Some (calls, db, mp) \<Rightarrow> package_loop g c i (databuffer_reset db) mp (out @ calls))
          else package_loop g c i db mp out)"

definition gate_dispatch_message :: "gate \<Rightarrow> nat \<Rightarrow> int \<Rightarrow> bytes \<Rightarrow> (gate \<times> gate_call list) option" where
  "gate_dispatch_message g x i data =
     (let c = gt_conn g ! x
      in case databuffer_push (c_buffer c) (gt_mp g) data of None \<Rightarrow> None
         | Some (db, mp) \<Rightarrow>
             map_option (\<lambda>(calls, db, mp). (g\<lparr>gt_conn := (gt_conn g)[x := c\<lparr>c_buffer := db\<rparr>], gt_mp := mp\<rparr>, calls))
               (package_loop g c i db mp []))"

section \<open>Events of the socket layer\<close>

definition on_data :: "gate \<Rightarrow> socket_message \<Rightarrow> (gate \<times> gate_call list) option" where
  "on_data g m =
     (case hashid_lookup (gt_hash g) (sm_id m) of None \<Rightarrow> None
      | Some (Some x) \<Rightarrow> gate_dispatch_message g x (sm_id m) (sm_buffer m)
      | Some None \<Rightarrow> Some (g, [Error_text (''Drop unknown connection '' @ fmt_d (sm_id m) @ '' message''), Socket_close (sm_id m)]))"

definition on_connect :: "gate \<Rightarrow> socket_message \<Rightarrow> (gate \<times> gate_call list) option" where
  "on_connect g m =
     (if sm_id m = gt_listen_id g then Some (g, [])
      else (case hashid_lookup (gt_hash g) (sm_id m) of None \<Rightarrow> None
            | Some (Some x) \<Rightarrow> Some (g, [])
            | Some None \<Rightarrow> Some (g, [Error_text (''Close unknown connection '' @ fmt_d (sm_id m)), Socket_close (sm_id m)])))"

definition on_close :: "gate \<Rightarrow> socket_message \<Rightarrow> (gate \<times> gate_call list) option" where
  "on_close g m =
     (case hashid_remove (gt_hash g) (sm_id m) of None \<Rightarrow> None
      | Some (None, hi) \<Rightarrow> Some (g\<lparr>gt_hash := hi\<rparr>, [])
      | Some (Some x, hi) \<Rightarrow>
          (case databuffer_clear (c_buffer (gt_conn g ! x)) (gt_mp g) of None \<Rightarrow> None
           | Some (_, mp) \<Rightarrow>
               Some (g\<lparr>gt_hash := hi, gt_conn := (gt_conn g)[x := zero_connection], gt_mp := mp\<rparr>,
                 report g (fmt_d (sm_id m) @ '' close''))))"

text \<open>\<open>name\<close> is what follows the record of the message, \<open>sz\<close> characters.\<close>

definition on_accept :: "gate \<Rightarrow> socket_message \<Rightarrow> string \<Rightarrow> (gate \<times> gate_call list) option" where
  "on_accept g m name =
     (if gt_listen_id g \<noteq> sm_id m then None
      else if hashid_full (gt_hash g) then Some (g, [Socket_close (sm_ud m)])
      else
        (case hashid_insert (gt_hash g) (sm_ud m) of None \<Rightarrow> None
         | Some (x, hi) \<Rightarrow>
             (let remote_name = cstr (take 31 name) 0
              in Some (g\<lparr>gt_hash := hi, gt_conn := (gt_conn g)[x := (gt_conn g ! x)\<lparr>c_id := sm_ud m, c_remote_name := remote_name\<rparr>]\<rparr>,
                   report g (fmt_d (sm_ud m) @ '' open '' @ fmt_d (sm_ud m) @ '' '' @ remote_name @ '':0'')
                   @ [Error_text (''socket open: '' @ fmt_x (of_int (sm_ud m)))]))))"

definition dispatch_socket_message :: "gate \<Rightarrow> socket_message \<Rightarrow> string \<Rightarrow> (gate \<times> gate_call list) option" where
  "dispatch_socket_message g m name =
     (if sm_type m = SOCKET_DATA then on_data g m
      else if sm_type m = SOCKET_CONNECT then on_connect g m
      else if sm_type m = SOCKET_CLOSE \<or> sm_type m = SOCKET_ERROR then on_close g m
      else if sm_type m = SOCKET_ACCEPT then on_accept g m name
      else if sm_type m = SOCKET_WARNING then
        Some (g, [Error_text (''fd ('' @ fmt_d (sm_id m) @ '') send buffer ('' @ fmt_d (sm_ud m) @ '')K'')])
      else Some (g, []))"

section \<open>The callback\<close>

datatype gate_msg = Text_msg string | Client_msg bytes | Socket_msg socket_message string | Other_msg

text \<open>\<open>_cb\<close>: the first result says whether the gate keeps the message (returns 1).\<close>

definition gate_cb :: "(string \<Rightarrow> u32) \<Rightarrow> gate \<Rightarrow> u32 \<Rightarrow> gate_msg \<Rightarrow> (bool \<times> gate \<times> gate_call list) option" where
  "gate_cb query g source msg =
     (case msg of
        Text_msg s \<Rightarrow> map_option (\<lambda>r. (False, r)) (ctrl query g s)
      | Client_msg bs \<Rightarrow>
          (let sz = length bs
           in if sz \<le> 4 then Some (False, g, [Error_text (''Invalid client message from '' @ fmt_x source)])
              else (let b = drop (sz - 4) bs; uid = sint (be32 (b ! 3) (b ! 2) (b ! 1) (b ! 0))
                    in case hashid_lookup (gt_hash g) uid of None \<Rightarrow> None
                       | Some (Some x) \<Rightarrow> Some (True, g, [Socket_send uid (take (sz - 4) bs)])
                       | Some None \<Rightarrow> Some (False, g, [Error_text (''Invalid client id '' @ fmt_d uid @ '' from '' @ fmt_x source)])))
      | Socket_msg m name \<Rightarrow> map_option (\<lambda>r. (False, r)) (dispatch_socket_message g m name)
      | Other_msg \<Rightarrow> Some (False, g, []))"

section \<open>Starting the gate\<close>

text \<open>
  \<open>start_listen\<close>: \<open>True\<close> where it returns 0. \<open>listen\<close> is \<open>skynet_socket_listen\<close> with the backlog 32 on
  a host and a port.
\<close>

definition start_listen :: "(string \<Rightarrow> int \<Rightarrow> int) \<Rightarrow> gate \<Rightarrow> string \<Rightarrow> bool \<times> gate \<times> gate_call list" where
  "start_listen listen g listen_addr =
     (let pre = takeWhile (\<lambda>c. c \<noteq> CHR '':'') listen_addr;
          (host, port) =
            (if length pre = length listen_addr then ([], to_int32 (strtol10 listen_addr))
             else (pre, to_int32 (strtol10 (drop (Suc (length pre)) listen_addr))))
      in if port \<le> 0 then (False, g, [Error_text (''Invalid gate address '' @ listen_addr)])
         else
           (let g = g\<lparr>gt_listen_id := listen host port\<rparr>
            in if gt_listen_id g < 0 then (False, g, [])
               else (True, g, [Socket_start (gt_listen_id g)])))"

text \<open>The conversion \<open>%s\<close> of \<open>sscanf\<close>: what is read and what follows.\<close>

definition scan_word :: "string \<Rightarrow> (string \<times> string) option" where
  "scan_word s =
     (let t = dropWhile is_space s; w = takeWhile (\<lambda>c. \<not> is_space c) t
      in if w = [] then None else Some (w, dropWhile (\<lambda>c. \<not> is_space c) t))"

text \<open>\<open>sscanf (parm, "%c %s %s %d %d", ...)\<close> when it reads at least four items; \<open>max\<close> stays 0 otherwise.\<close>

definition scan_parm :: "string \<Rightarrow> (char \<times> string \<times> string \<times> int \<times> int) option" where
  "scan_parm s =
     (case s of [] \<Rightarrow> None
      | header # s \<Rightarrow> do {
          (watchdog, s) \<leftarrow> scan_word s;
          (binding, s) \<leftarrow> scan_word s;
          (client_tag, s) \<leftarrow> scan_int s;
          Some (header, watchdog, binding, client_tag, (case scan_int s of None \<Rightarrow> 0 | Some (max_conn, s) \<Rightarrow> max_conn))
        })"

definition gate_init :: "(string \<Rightarrow> u32) \<Rightarrow> (string \<Rightarrow> int \<Rightarrow> int) \<Rightarrow> gate \<Rightarrow> string option
    \<Rightarrow> bool \<times> gate \<times> gate_call list" where
  "gate_init query listen g p =
     (case p of None \<Rightarrow> (False, g, [])
      | Some p \<Rightarrow>
          (case scan_parm p of None \<Rightarrow> (False, g, [Error_text (''Invalid gate parm '' @ p)])
           | Some (header, watchdog, binding, client_tag, max_conn) \<Rightarrow>
               if max_conn \<le> 0 then (False, g, [Error_text ''Need max connection''])
               else if header \<noteq> CHR ''S'' \<and> header \<noteq> CHR ''L'' then (False, g, [Error_text ''Invalid data header style''])
               else
                 (let tag = (if client_tag = 0 then PTYPE_CLIENT else of_int client_tag);
                      w = (if hd watchdog = CHR ''!'' then 0 else query watchdog);
                      g = g\<lparr>gt_watchdog := w\<rparr>
                  in if hd watchdog \<noteq> CHR ''!'' \<and> w = 0 then (False, g, [Error_text (''Invalid watchdog '' @ watchdog)])
                     else
                       (let g = g\<lparr>gt_hash := hashid_init (nat max_conn),
                             gt_conn := replicate (nat max_conn) zero_connection, gt_max := nat max_conn,
                             gt_client_tag := tag, gt_header_size := (if header = CHR ''S'' then 2 else 4)\<rparr>
                        in start_listen listen g binding))))"

end
