(* ===== verification/GateFrames.thy ===== *)
theory GateFrames
  imports Gate
begin

text \<open>
  How the gate cuts the bytes of a connection into packages: \<open>unframe\<close> is the specification, on
  the bytes themselves, and \<open>package_loop_ok\<close> shows that the loop over the blocks of the buffer
  computes it.
\<close>

section \<open>The packages of a stream of bytes\<close>

text \<open>
  \<open>unframe fw hs s\<close> cuts the bytes \<open>s\<close> into packages with a header of \<open>hs\<close> bytes: the packages, the
  bytes that wait for more, and whether the connection is closed because of a package of 16 M or
  more. \<open>fw\<close> says whether somebody receives the packages: when nobody does, the gate does not
  read them. A header of \<open>2 ^ 31\<close> or more is a negative \<open>int\<close>, at which the gate stops.
\<close>

function unframe :: "bool \<Rightarrow> nat \<Rightarrow> bytes \<Rightarrow> bytes list \<times> bytes \<times> bool" where
  "unframe fw hs s =
     (if hs = 0 \<or> length s < hs then ([], s, False)
      else (let n = be_nat (take hs s); t = drop hs s
        in if n = 0 then unframe fw hs t
           else if 2 ^ 31 \<le> n \<or> length t < n then ([], s, False)
           else if 2 ^ 24 \<le> n then ([], [], True)
           else if fw then (let (ps, r, c) = unframe fw hs (drop n t) in (take n t # ps, r, c))
           else unframe fw hs t))"
  by pat_completeness auto
termination by (relation "measure (\<lambda>(fw, hs, s). length s)") auto

declare unframe.simps [simp del]

definition frame_bytes :: "nat \<Rightarrow> bytes \<Rightarrow> bytes" where
  "frame_bytes hs p = be_bytes hs (length p) @ p"

lemma unframe_append:
  "unframe fw hs s = (ps, r, c) \<Longrightarrow>
   unframe fw hs (s @ t) = (if c then (ps, [], True) else (let (qs, r', c') = unframe fw hs (r @ t) in (ps @ qs, r', c')))"
proof (induction fw hs s arbitrary: ps r c rule: unframe.induct)
  case (1 fw hs s)
  let ?n = "be_nat (take hs s)" and ?u = "drop hs s"
  show ?case
  proof (cases "hs = 0 \<or> length s < hs")
    case True
    then have "ps = []" "r = s" "\<not> c" using 1(4) by (auto simp: unframe.simps [of fw hs s])
    then show ?thesis by (simp add: split_beta)
  next
    case F: False
    have st: "take hs (s @ t) = take hs s" "drop hs (s @ t) = ?u @ t" "\<not> (hs = 0 \<or> length (s @ t) < hs)"
      using F by auto
    note U = unframe.simps [of fw hs s] and V = unframe.simps [of fw hs "s @ t"]
    consider "?n = 0" | "?n \<noteq> 0" "2 ^ 31 \<le> ?n \<or> length ?u < ?n" | "?n \<noteq> 0" "\<not> (2 ^ 31 \<le> ?n \<or> length ?u < ?n)" "2 ^ 24 \<le> ?n"
      | "?n \<noteq> 0" "\<not> (2 ^ 31 \<le> ?n \<or> length ?u < ?n)" "\<not> 2 ^ 24 \<le> ?n" "fw"
      | "?n \<noteq> 0" "\<not> (2 ^ 31 \<le> ?n \<or> length ?u < ?n)" "\<not> 2 ^ 24 \<le> ?n" "\<not> fw" by blast
    then show ?thesis
    proof cases
      case 1
      then show ?thesis using "1.IH"(1) [OF F refl refl] "1.prems" F unfolding U V st Let_def by simp
    next
      case 2
      then have "ps = []" "r = s" "\<not> c" using "1.prems" F unfolding U Let_def by auto
      then show ?thesis by (simp add: split_beta)
    next
      case 3
      then have "ps = []" "r = []" "c" using "1.prems" F unfolding U Let_def by auto
      moreover have "unframe fw hs (s @ t) = ([], [], True)"
        using 3 st(3) unfolding V st(1,2) Let_def by auto
      ultimately show ?thesis by simp
    next
      case 4
      obtain qs r' c' where q: "unframe fw hs (drop ?n ?u) = (qs, r', c')" by (cases "unframe fw hs (drop ?n ?u)")
      have p: "ps = take ?n ?u # qs" "r = r'" "c = c'" using 4 "1.prems" F q unfolding U Let_def by auto
      have d: "drop ?n (?u @ t) = drop ?n ?u @ t" "take ?n (?u @ t) = take ?n ?u" using 4(2) by auto
      have "unframe fw hs (s @ t) = (let (ps, r, c) = unframe fw hs (drop ?n ?u @ t) in (take ?n ?u # ps, r, c))"
        using 4 st(3) d unfolding V st(1,2) Let_def by auto
      moreover have "unframe fw hs (drop ?n ?u @ t) = (if c' then (qs, [], True) else (let (qs', r', c') = unframe fw hs (r' @ t) in (qs @ qs', r', c')))"
        using "1.IH"(2) [OF F refl refl 4(1,2,3,4)] q by simp
      ultimately show ?thesis unfolding p by (simp add: split_beta Let_def)
    next
      case 5
      have "unframe fw hs ?u = (ps, r, c)" using 5 "1.prems" F unfolding U Let_def by auto
      then have "unframe fw hs (?u @ t) = (if c then (ps, [], True) else (let (qs, r', c') = unframe fw hs (r @ t) in (ps @ qs, r', c')))"
        using "1.IH"(3) [OF F refl refl 5] by simp
      moreover have "unframe fw hs (s @ t) = unframe fw hs (?u @ t)" using 5 st(3) unfolding V st(1,2) Let_def by auto
      ultimately show ?thesis by simp
    qed
  qed
qed

lemma unframe_frame:
  assumes "0 < hs" "length p < 256 ^ hs" "length p < 2 ^ 24"
  shows "unframe True hs (frame_bytes hs p @ t) =
    (let (ps, r, c) = unframe True hs t in (if p = [] then ps else p # ps, r, c))"
proof -
  have "take hs (frame_bytes hs p @ t) = be_bytes hs (length p)" "drop hs (frame_bytes hs p @ t) = p @ t"
    "be_nat (be_bytes hs (length p)) = length p" "\<not> length (frame_bytes hs p @ t) < hs"
    using assms by (simp_all add: frame_bytes_def be_bytes_small)
  then show ?thesis using assms by (subst unframe.simps) (simp add: Let_def split_beta)
qed

lemma unframe_stream:
  assumes "0 < hs" "\<forall>p \<in> set ps. length p < 256 ^ hs \<and> length p < 2 ^ 24"
  shows "unframe True hs (concat (map (frame_bytes hs) ps)) = (filter (\<lambda>p. p \<noteq> []) ps, [], False)"
  using assms(2)
proof (induction ps)
  case Nil
  then show ?case using assms(1) by (simp add: unframe.simps)
next
  case (Cons p ps)
  then show ?case using unframe_frame [OF assms(1), of p "concat (map (frame_bytes hs) ps)"] by simp
qed

section \<open>A buffer and its header\<close>

text \<open>
  The bytes of a connection that wait: \<open>databuffer_readheader\<close> has taken the header out of the
  blocks when it is not 0.
\<close>

definition pend :: "nat \<Rightarrow> databuffer \<times> messagepool \<Rightarrow> bytes" where
  "pend hs s = (if db_header (fst s) = 0 then [] else be_bytes hs (unat (db_header (fst s)))) @ db_contents s"

definition conn_ok :: "nat \<Rightarrow> databuffer \<times> messagepool \<Rightarrow> bool" where
  "conn_ok hs s \<longleftrightarrow> db_inv s \<and> unat (db_header (fst s)) < 256 ^ hs"

lemma header_value_2: "header_value 2 [a, b] = be16 a b"
  by (simp add: header_value_def)

lemma header_value_4: "header_value 4 [a, b, c, d] = be32 a b c d"
  by (simp add: header_value_def)

lemma header_ok:
  assumes "length bs = hs" "hs = 2 \<or> hs = 4"
  shows "unat (header_value hs bs) = be_nat bs"
  using assms(2)
proof
  assume h: "hs = 2"
  then have "length bs = Suc (Suc 0)" using assms(1) by simp
  then obtain a b where "bs = [a, b]" by (auto simp: length_Suc_conv)
  then show ?thesis unfolding h by (simp only: header_value_2 unat_be16)
next
  assume h: "hs = 4"
  then have "length bs = Suc (Suc (Suc (Suc 0)))" using assms(1) by simp
  then obtain a b c d where "bs = [a, b, c, d]" by (auto simp: length_Suc_conv)
  then show ?thesis unfolding h by (simp only: header_value_4 unat_be32)
qed

lemma readheader_short:
  assumes "conn_ok hs (db, mp)" "hs = 2 \<or> hs = 4" "length (pend hs (db, mp)) < hs"
  shows "databuffer_readheader db mp hs = Some (None, db, mp)"
proof -
  have "db_header db = 0" using assms(2,3) by (cases "db_header db = 0") (auto simp: pend_def)
  moreover have "db_size db < hs"
    using assms db_size_contents [of db mp] calculation by (simp add: pend_def conn_ok_def)
  ultimately show ?thesis by (simp add: databuffer_readheader_def)
qed

text \<open>The value that \<open>databuffer_readheader\<close> returns when the header is there.\<close>

definition header_result :: "nat \<Rightarrow> nat \<Rightarrow> int option" where
  "header_result n l = (if n < 2 ^ 31 \<and> l < n then None else Some (if n < 2 ^ 31 then int n else int n - 2 ^ 32))"

lemma header_result_ok:
  "unat h = n \<Longrightarrow> (if int l < sint (h::u32) then None else Some (sint h)) = header_result n l"
  unfolding header_result_def sint_u32 using unsigned_less [of h, where ?'a = nat] by auto

lemma readheader_ok:
  assumes ok: "conn_ok hs (db, mp)" and hs: "hs = 2 \<or> hs = 4" and len: "\<not> length (pend hs (db, mp)) < hs"
    and n: "n = be_nat (take hs (pend hs (db, mp)))" and t: "t = drop hs (pend hs (db, mp))"
  shows "\<exists>db' mp'. databuffer_readheader db mp hs = Some (header_result n (length t), db', mp')
    \<and> db_inv (db', mp') \<and> unat (db_header db') = n \<and> db_contents (db', mp') = t \<and> frame (db, mp) (db', mp')"
proof (cases "db_header db = 0")
  case True
  let ?s = "db_contents (db, mp)"
  have inv: "db_inv (db, mp)" using ok by (simp add: conn_ok_def)
  have p: "pend hs (db, mp) = ?s" using True by (simp add: pend_def)
  have h: "0 < hs" "hs \<le> length ?s" using hs len p by auto
  from databuffer_read_ok [OF inv h] obtain db1 mp1 where r:
    "databuffer_read db mp hs = Some (take hs ?s, db1, mp1)" "db_inv (db1, mp1)" "db_contents (db1, mp1) = drop hs ?s"
    "frame (db, mp) (db1, mp1)" by auto
  let ?h = "header_value hs (take hs ?s)" and ?db = "db1\<lparr>db_header := header_value hs (take hs ?s)\<rparr>"
  have u: "unat ?h = n" using header_ok [of "take hs ?s" hs] h hs n p by simp
  have sz: "db_size db1 = length t" using db_size_contents [OF r(2)] r(3) t p by simp
  have "databuffer_readheader db mp hs = Some (header_result n (length t), ?db, mp1)"
    using True r(1) h(2) db_size_contents [OF inv] header_result_ok [OF u, of "length t"] sz
    by (simp add: databuffer_readheader_def Let_def split del: if_split cong: if_cong)
  moreover have "db_inv (?db, mp1)" "db_contents (?db, mp1) = db_contents (db1, mp1)" "frame (db, mp) (?db, mp1)"
    using r by (auto simp: db_inv_def db_rep_def db_contents_def db_list_def frame_def own_def)
  ultimately show ?thesis using u r(3) t p by (intro exI [of _ ?db] exI [of _ mp1]) simp
next
  case False
  have inv: "db_inv (db, mp)" and le: "unat (db_header db) < 256 ^ hs" using ok by (simp_all add: conn_ok_def)
  have e: "take hs (pend hs (db, mp)) = be_bytes hs (unat (db_header db))" "t = db_contents (db, mp)"
    using False t by (simp_all add: pend_def)
  then have u: "unat (db_header db) = n" using n le by (simp add: be_bytes_small)
  have "databuffer_readheader db mp hs = Some (header_result n (length t), db, mp)"
    using False header_result_ok [OF u, of "length t"] db_size_contents [OF inv] e(2)
    by (simp add: databuffer_readheader_def split del: if_split cong: if_cong)
  then show ?thesis using inv u e(2) by auto
qed

section \<open>The loop over packages\<close>

definition receiver :: "'a gate_head_scheme \<Rightarrow> u32 \<Rightarrow> bool" where
  "receiver g agent \<longleftrightarrow> gt_broker g \<noteq> 0 \<or> agent \<noteq> 0 \<or> gt_watchdog g \<noteq> 0"

text \<open>What the gate does with a package.\<close>

definition package_calls :: "'a gate_head_scheme \<Rightarrow> int \<Rightarrow> u32 \<Rightarrow> u32 \<Rightarrow> bytes \<Rightarrow> gate_call list" where
  "package_calls g i agent client p =
     (if gt_broker g \<noteq> 0 then [Send_to 0 (gt_broker g) (gt_client_tag g OR PTYPE_TAG_DONTCOPY) p]
      else if agent \<noteq> 0 then [Send_to (client) (agent) (gt_client_tag g OR PTYPE_TAG_DONTCOPY) p]
      else if gt_watchdog g \<noteq> 0 then
        [Send_to 0 (gt_watchdog g) (PTYPE_TEXT OR PTYPE_TAG_DONTCOPY) (string_bytes (fmt_d (i) @ '' data '') @ p)]
      else [])"

definition close_calls :: "int \<Rightarrow> bool \<Rightarrow> gate_call list" where
  "close_calls i c = (if c then [Socket_close i, Error_text ''Recv socket message > 16M''] else [])"

lemma forward_ok:
  assumes inv: "db_inv (db, mp)" and n: "0 < n" "n \<le> length (db_contents (db, mp))"
  shows "\<exists>db' mp'. forward_package g c db mp n =
      Some (if receiver g (c_agent c) then package_calls g (c_id c) (c_agent c) (c_client c) (take n (db_contents (db, mp))) else [], db', mp')
    \<and> db_inv (db', mp') \<and> frame (db, mp) (db', mp')
    \<and> db_contents (db', mp') = (if receiver g (c_agent c) then drop n (db_contents (db, mp)) else db_contents (db, mp))"
proof (cases "receiver g (c_agent c)")
  case True
  from databuffer_read_ok [OF inv n] obtain db' mp' where r:
    "databuffer_read db mp n = Some (take n (db_contents (db, mp)), db', mp')" "db_inv (db', mp')"
    "db_contents (db', mp') = drop n (db_contents (db, mp))" "frame (db, mp) (db', mp')" by auto
  then show ?thesis using True
    by (intro exI [of _ db'] exI [of _ mp']) (auto simp: forward_package_def package_calls_def receiver_def)
next
  case False
  then show ?thesis using inv
    by (intro exI [of _ db] exI [of _ mp]) (auto simp: forward_package_def receiver_def)
qed

lemma reset_ok:
  "db_inv (db, mp) \<Longrightarrow> conn_ok hs (databuffer_reset db, mp)"
  "pend hs (databuffer_reset db, mp) = db_contents (db, mp)"
  "frame s (databuffer_reset db, mp) = frame s (db, mp)"
  by (auto simp: databuffer_reset_def conn_ok_def pend_def db_inv_def db_rep_def db_contents_def db_list_def
      frame_def own_def)

lemma package_loop_ok:
  assumes "unframe (receiver g (c_agent c)) hs s = (ps, r, cl)" "s = pend hs (db, mp)" "conn_ok hs (db, mp)"
    "gt_header_size g = hs" "hs = 2 \<or> hs = 4"
  shows "\<exists>db' mp'. package_loop g c i db mp out = Some (out @ concat (map (package_calls g (c_id c) (c_agent c) (c_client c)) ps) @ close_calls i cl, db', mp')
    \<and> conn_ok hs (db', mp') \<and> pend hs (db', mp') = r \<and> frame (db, mp) (db', mp')"
  using assms
proof (induction "receiver g (c_agent c)" hs s arbitrary: db mp out ps r cl rule: unframe.induct)
  case (1 hs s)
  let ?fw = "receiver g (c_agent c)" and ?n = "be_nat (take hs s)" and ?t = "drop hs s"
  note hsz = "1.prems"(4) and pe = "1.prems"(2) and ok = "1.prems"(3)
  show ?case
  proof (cases "hs = 0 \<or> length s < hs")
    case True
    then have "ps = []" "r = s" "\<not> cl" using "1.prems"(1) by (auto simp: unframe.simps [of ?fw hs s])
    moreover have "package_loop g c i db mp out = Some (out, db, mp)"
      using readheader_short [OF ok "1.prems"(5)] True "1.prems"(5) pe hsz by (subst package_loop.simps) auto
    ultimately show ?thesis using ok pe by (simp add: close_calls_def)
  next
    case F: False
    then have L: "\<not> length (pend hs (db, mp)) < hs" using pe by simp
    from readheader_ok [OF ok "1.prems"(5) L refl refl, folded pe] obtain db1 mp1 where h:
      "databuffer_readheader db mp hs = Some (header_result ?n (length ?t), db1, mp1)" "db_inv (db1, mp1)"
      "unat (db_header db1) = ?n" "db_contents (db1, mp1) = ?t" "frame (db, mp) (db1, mp1)" by auto
    have len: "length (take hs s) = hs" using F by simp
    have nl: "?n < 256 ^ hs" using be_nat_less [of "take hs s"] unfolding len .
    then have ok1: "conn_ok hs (db1, mp1)" using h by (simp add: conn_ok_def)
    note U = unframe.simps [of ?fw hs s]
    consider "?n = 0" | "?n \<noteq> 0" "2 ^ 31 \<le> ?n \<or> length ?t < ?n"
      | "?n \<noteq> 0" "\<not> (2 ^ 31 \<le> ?n \<or> length ?t < ?n)" "2 ^ 24 \<le> ?n"
      | "?n \<noteq> 0" "\<not> (2 ^ 31 \<le> ?n \<or> length ?t < ?n)" "\<not> 2 ^ 24 \<le> ?n" by blast
    then show ?thesis
    proof cases
      case 1
      then have u: "unframe ?fw hs ?t = (ps, r, cl)" using "1.prems"(1) F unfolding U Let_def by auto
      have p1: "?t = pend hs (db1, mp1)" using 1 h by (simp add: pend_def unat_eq_zero)
      have "package_loop g c i db mp out = package_loop g c i db1 mp1 out"
        using h(1) hsz 1 by (subst package_loop.simps) (simp add: header_result_def)
      then show ?thesis
        using "1.hyps"(1) [OF F refl refl 1 u p1 ok1 hsz "1.prems"(5), of out] frame_trans [OF h(5)] by auto
    next
      case 2
      then have e: "ps = []" "r = s" "\<not> cl" using "1.prems"(1) F unfolding U Let_def by auto
      have "package_loop g c i db mp out = Some (out, db1, mp1)"
        using h(1) hsz 2(2) unsigned_less [of "db_header db1", where ?'a = nat]
        by (subst package_loop.simps) (auto simp: header_result_def h(3))
      moreover have "pend hs (db1, mp1) = s"
      proof -
        have "db_header db1 \<noteq> 0" using h(3) 2(1) by auto
        moreover have "be_bytes hs ?n = take hs s" using be_bytes_be_nat [of "take hs s"] unfolding len .
        ultimately show ?thesis using h(3,4) by (simp add: pend_def)
      qed
      ultimately show ?thesis using e ok1 h(5) by (simp add: close_calls_def)
    next
      case 3
      then have e: "ps = []" "r = []" "cl" using "1.prems"(1) F unfolding U Let_def by auto
      from databuffer_clear_ok [OF h(2)] obtain mp2 where k:
        "databuffer_clear db1 mp1 = Some (databuffer_zero, mp2)" "db_inv (databuffer_zero, mp2)"
        "db_contents (databuffer_zero, mp2) = []" "frame (db1, mp1) (databuffer_zero, mp2)" by auto
      have "package_loop g c i db mp out = Some (out @ close_calls i True, databuffer_zero, mp2)"
        using h(1) hsz 3 k(1) by (subst package_loop.simps) (simp add: header_result_def close_calls_def)
      moreover have "conn_ok hs (databuffer_zero, mp2)" "pend hs (databuffer_zero, mp2) = []"
        using k by (simp_all add: conn_ok_def pend_def databuffer_zero_def)
      ultimately show ?thesis using e frame_trans [OF h(5) k(4)] by simp
    next
      case 4
      have le: "0 < ?n" "?n \<le> length (db_contents (db1, mp1))" using 4 h(4) by auto
      from forward_ok [OF h(2) le, of g c] obtain db2 mp2 where f:
        "forward_package g c db1 mp1 ?n = Some (if ?fw then package_calls g (c_id c) (c_agent c) (c_client c) (take ?n ?t) else [], db2, mp2)"
        "db_inv (db2, mp2)" "frame (db1, mp1) (db2, mp2)"
        "db_contents (db2, mp2) = (if ?fw then drop ?n ?t else ?t)" using h(4) by auto
      have st: "package_loop g c i db mp out =
          package_loop g c i (databuffer_reset db2) mp2 (out @ (if ?fw then package_calls g (c_id c) (c_agent c) (c_client c) (take ?n ?t) else []))"
        using h(1) hsz 4 f(1) by (subst package_loop.simps) (simp add: header_result_def)
      have ok2: "conn_ok hs (databuffer_reset db2, mp2)" by (rule reset_ok(1) [OF f(2)])
      have fr: "frame (db, mp) (databuffer_reset db2, mp2)" using frame_trans [OF h(5) f(3)] by (simp add: reset_ok(3))
      show ?thesis
      proof (cases ?fw)
        case True
        obtain qs r' c' where q: "unframe ?fw hs (drop ?n ?t) = (qs, r', c')" by (cases "unframe ?fw hs (drop ?n ?t)")
        then have e: "ps = take ?n ?t # qs" "r = r'" "cl = c'" using 4 True "1.prems"(1) F unfolding U Let_def by auto
        have p2: "drop ?n ?t = pend hs (databuffer_reset db2, mp2)" using f(4) True by (simp add: reset_ok(2))
        show ?thesis
          using "1.hyps"(2) [OF F refl refl 4 True q p2 ok2 hsz "1.prems"(5), of "out @ package_calls g (c_id c) (c_agent c) (c_client c) (take ?n ?t)"]
            frame_trans [OF fr] True unfolding st e by auto
      next
        case False
        then have u: "unframe ?fw hs ?t = (ps, r, cl)" using 4 "1.prems"(1) F unfolding U Let_def by auto
        have p2: "?t = pend hs (databuffer_reset db2, mp2)" using f(4) False by (simp add: reset_ok(2))
        show ?thesis
          using "1.hyps"(3) [OF F refl refl 4 False u p2 ok2 hsz "1.prems"(5), of out] frame_trans [OF fr] False
          unfolding st by auto
      qed
    qed
  qed
qed

end
