(* ===== verification/GateSpec.thy ===== *)
theory GateSpec
  imports GateFrames
begin

text \<open>
  The specification of the gate: a map from the ids of the connections to their agents and the bytes
  that wait, on which the events of the socket layer act. \<open>gate_inv\<close> is the invariant of the
  gate, under which every event of the model follows the specification (\<open>event_ok\<close>, \<open>run_ok\<close>); the
  blocks that the connections take from their common pool never mix.
\<close>

section \<open>The gate as a map of connections\<close>

text \<open>
  What a client of the gate sees of a connection: who receives its packages and the bytes that wait
  for more. The buckets of the hash table, the slots and the pool of blocks are gone.
\<close>

record aconn =
  ac_agent :: u32
  ac_client :: u32
  ac_pending :: bytes

type_synonym aconns = "int \<Rightarrow> aconn option"

definition buf_of :: "gate \<Rightarrow> nat \<Rightarrow> databuffer \<times> messagepool" where
  "buf_of g x = (c_buffer (gt_conn g ! x), gt_mp g)"

definition aconn_of :: "gate \<Rightarrow> nat \<Rightarrow> aconn" where
  "aconn_of g x = \<lparr>ac_agent = c_agent (gt_conn g ! x), ac_client = c_client (gt_conn g ! x),
     ac_pending = pend (gt_header_size g) (buf_of g x)\<rparr>"

definition gate_view :: "gate \<Rightarrow> aconns" where
  "gate_view g i = map_option (aconn_of g) (slot_of (gt_hash g) i)"

definition gate_inv :: "gate \<Rightarrow> bool" where
  "gate_inv g \<longleftrightarrow> hash_inv (gt_hash g) \<and> hi_cap (gt_hash g) = gt_max g \<and> length (gt_conn g) = gt_max g
     \<and> (gt_header_size g = 2 \<or> gt_header_size g = 4)
     \<and> (\<forall>x < gt_max g. conn_ok (gt_header_size g) (buf_of g x))
     \<and> (\<forall>x < gt_max g. \<forall>y < gt_max g. x \<noteq> y \<longrightarrow> set (db_list (buf_of g x)) \<inter> set (db_list (buf_of g y)) = {})
     \<and> (\<forall>i x. slot_of (gt_hash g) i = Some x \<longrightarrow> c_id (gt_conn g ! x) = i)
     \<and> (\<forall>x < gt_max g. x \<notin> ran (slot_of (gt_hash g)) \<longrightarrow> gt_conn g ! x = zero_connection)"

section \<open>Events on the map\<close>

fun spec_data :: "gate_head \<Rightarrow> aconns \<Rightarrow> int \<Rightarrow> bytes \<Rightarrow> aconns \<times> gate_call list" where
  "spec_data h A i bs =
     (case A i of
        None \<Rightarrow> (A, [Error_text (''Drop unknown connection '' @ fmt_d i @ '' message''), Socket_close i])
      | Some a \<Rightarrow>
          (let (ps, r, cl) = unframe (receiver h (ac_agent a)) (gt_header_size h) (ac_pending a @ bs)
           in (A(i \<mapsto> a\<lparr>ac_pending := r\<rparr>), concat (map (package_calls h i (ac_agent a) (ac_client a)) ps) @ close_calls i cl)))"

definition spec_connect :: "gate_head \<Rightarrow> aconns \<Rightarrow> int \<Rightarrow> gate_call list" where
  "spec_connect h A i = (if i = gt_listen_id h \<or> A i \<noteq> None then []
     else [Error_text (''Close unknown connection '' @ fmt_d i), Socket_close i])"

definition spec_close :: "gate_head \<Rightarrow> aconns \<Rightarrow> int \<Rightarrow> aconns \<times> gate_call list" where
  "spec_close h A i = (A(i := None), if A i = None then [] else report h (fmt_d i @ '' close''))"

text \<open>
  The socket layer keeps a contract: it accepts only on the socket the gate listens on, and gives a
  new connection an id that is not in use. \<open>None\<close> is a breach of the contract.
\<close>

definition spec_accept :: "gate_head \<Rightarrow> aconns \<Rightarrow> socket_message \<Rightarrow> string \<Rightarrow> (aconns \<times> gate_call list) option" where
  "spec_accept h A m name =
     (if gt_listen_id h \<noteq> sm_id m then None
      else if card (dom A) = gt_max h then Some (A, [Socket_close (sm_ud m)])
      else if A (sm_ud m) \<noteq> None \<or> \<not> good_id (gt_max h) (sm_ud m) then None
      else Some (A(sm_ud m \<mapsto> \<lparr>ac_agent = 0, ac_client = 0, ac_pending = []\<rparr>),
        report h (fmt_d (sm_ud m) @ '' open '' @ fmt_d (sm_ud m) @ '' '' @ cstr (take 31 name) 0 @ '':0'')
        @ [Error_text (''socket open: '' @ fmt_x (of_int (sm_ud m)))]))"

definition spec_event :: "gate_head \<Rightarrow> aconns \<Rightarrow> socket_message \<Rightarrow> string \<Rightarrow> (aconns \<times> gate_call list) option" where
  "spec_event h A m name =
     (if sm_type m = SOCKET_DATA then Some (spec_data h A (sm_id m) (sm_buffer m))
      else if sm_type m = SOCKET_CONNECT then Some (A, spec_connect h A (sm_id m))
      else if sm_type m = SOCKET_CLOSE \<or> sm_type m = SOCKET_ERROR then Some (spec_close h A (sm_id m))
      else if sm_type m = SOCKET_ACCEPT then spec_accept h A m name
      else if sm_type m = SOCKET_WARNING then
        Some (A, [Error_text (''fd ('' @ fmt_d (sm_id m) @ '') send buffer ('' @ fmt_d (sm_ud m) @ '')K'')])
      else Some (A, []))"

section \<open>Consequences of the invariant\<close>

abbreviation head_of :: "gate \<Rightarrow> gate_head" where
  "head_of g \<equiv> gate_head.truncate g"

lemma head_sel [simp]:
  "gt_listen_id (head_of g) = gt_listen_id g" "gt_watchdog (head_of g) = gt_watchdog g"
  "gt_broker (head_of g) = gt_broker g" "gt_client_tag (head_of g) = gt_client_tag g"
  "gt_header_size (head_of g) = gt_header_size g" "gt_max (head_of g) = gt_max g"
  by (simp_all add: gate_head.truncate_def)

lemma head_calls [simp]:
  "receiver (head_of g) a = receiver g a" "package_calls (head_of g) i a c p = package_calls g i a c p"
  "report (head_of g) t = report g t"
  by (simp_all add: receiver_def package_calls_def report_def)

lemma slot_less: "gate_inv g \<Longrightarrow> slot_of (gt_hash g) i = Some x \<Longrightarrow> x < gt_max g"
  using hid.slots_law [of "gt_hash g"] by (auto simp: gate_inv_def ran_def)

lemma slot_inj: "gate_inv g \<Longrightarrow> slot_of (gt_hash g) i = Some x \<Longrightarrow> slot_of (gt_hash g) j = Some x \<Longrightarrow> i = j"
  unfolding gate_inv_def by metis

lemma lookup_view: "gate_inv g \<Longrightarrow> hashid_lookup (gt_hash g) i = Some (slot_of (gt_hash g) i)"
  by (simp add: gate_inv_def hid.look_law)

lemma view_None: "gate_view g i = None \<longleftrightarrow> slot_of (gt_hash g) i = None"
  by (simp add: gate_view_def)

lemma view_dom: "dom (gate_view g) = dom (slot_of (gt_hash g))"
  by (auto simp: gate_view_def)

text \<open>An operation on the buffer of one connection.\<close>

lemma buffer_step:
  assumes inv: "gate_inv g" and x: "x < gt_max g" and ok: "conn_ok (gt_header_size g) (db, mp)"
    and fr: "frame (buf_of g x) (db, mp)" and y: "y < gt_max g" "y \<noteq> x"
  shows "conn_ok (gt_header_size g) (c_buffer (gt_conn g ! y), mp)"
    "pend (gt_header_size g) (c_buffer (gt_conn g ! y), mp) = pend (gt_header_size g) (buf_of g y)"
    "db_list (c_buffer (gt_conn g ! y), mp) = db_list (buf_of g y)"
    "set (db_list (buf_of g y)) \<inter> set (db_list (db, mp)) = {}"
proof -
  have i: "conn_ok (gt_header_size g) (buf_of g x)" "conn_ok (gt_header_size g) (buf_of g y)"
    "set (db_list (buf_of g y)) \<inter> set (db_list (buf_of g x)) = {}"
    using inv x y by (auto simp: gate_inv_def)
  then have j: "db_inv (c_buffer (gt_conn g ! x), gt_mp g)" "db_inv (db, mp)" "db_inv (c_buffer (gt_conn g ! y), gt_mp g)"
    using ok by (auto simp: conn_ok_def buf_of_def)
  note r = db_inv_frame [OF j fr [unfolded buf_of_def] i(3) [unfolded buf_of_def]]
  show "conn_ok (gt_header_size g) (c_buffer (gt_conn g ! y), mp)" using r(1) i(2) by (simp add: conn_ok_def buf_of_def)
  show "pend (gt_header_size g) (c_buffer (gt_conn g ! y), mp) = pend (gt_header_size g) (buf_of g y)"
    using r(2) by (simp add: pend_def buf_of_def)
  show "db_list (c_buffer (gt_conn g ! y), mp) = db_list (buf_of g y)" using r(3) by (simp add: buf_of_def)
  show "set (db_list (buf_of g y)) \<inter> set (db_list (db, mp)) = {}" using r(4) by (simp add: buf_of_def)
qed

lemma gate_step:
  assumes inv: "gate_inv g" and x: "x < gt_max g" and ok: "conn_ok (gt_header_size g) (c_buffer c, mp)"
    and fr: "frame (buf_of g x) (c_buffer c, mp)"
    and g': "gt_conn g' = (gt_conn g)[x := c]" "gt_mp g' = mp" "head_of g' = head_of g"
    and hash: "hash_inv (gt_hash g')" "hi_cap (gt_hash g') = gt_max g"
      "\<And>i y. slot_of (gt_hash g') i = Some y \<Longrightarrow> c_id (gt_conn g' ! y) = i"
      "\<And>y. y < gt_max g \<Longrightarrow> y \<notin> ran (slot_of (gt_hash g')) \<Longrightarrow> gt_conn g' ! y = zero_connection"
  shows "gate_inv g'" "\<And>y. y < gt_max g \<Longrightarrow> y \<noteq> x \<Longrightarrow> aconn_of g' y = aconn_of g y"
    "aconn_of g' x = \<lparr>ac_agent = c_agent c, ac_client = c_client c, ac_pending = pend (gt_header_size g) (c_buffer c, mp)\<rparr>"
proof -
  have h: "gt_max g' = gt_max g" "gt_header_size g' = gt_header_size g"
    using g'(3) head_sel by metis+
  have l: "length (gt_conn g) = gt_max g" using inv by (simp add: gate_inv_def)
  have bx: "buf_of g' x = (c_buffer c, mp)" using g'(1,2) l x by (simp add: buf_of_def)
  have bo: "buf_of g' y = (c_buffer (gt_conn g ! y), mp)" if "y \<noteq> x" for y using g'(1,2) that by (simp add: buf_of_def)
  note st = buffer_step [OF inv x ok fr]
  show "aconn_of g' y = aconn_of g y" if "y < gt_max g" "y \<noteq> x" for y
    using st(2) [OF that] bo [OF that(2)] g'(1) that(2) by (simp add: aconn_of_def h)
  show "aconn_of g' x = \<lparr>ac_agent = c_agent c, ac_client = c_client c, ac_pending = pend (gt_header_size g) (c_buffer c, mp)\<rparr>"
    using bx g'(1) l x by (simp add: aconn_of_def h)
  have c: "conn_ok (gt_header_size g) (buf_of g' y)" if "y < gt_max g" for y
    using st(1) [OF that] bo [of y] bx ok by (cases "y = x") auto
  have d: "set (db_list (buf_of g' y)) \<inter> set (db_list (buf_of g' z)) = {}" if "y < gt_max g" "z < gt_max g" "y \<noteq> z" for y z
  proof -
    have old: "set (db_list (buf_of g y)) \<inter> set (db_list (buf_of g z)) = {}" using inv that by (auto simp: gate_inv_def)
    show ?thesis
      using st(3,4) [OF that(1)] st(3,4) [OF that(2)] bo [of y] bo [of z] bx that(3) old
      by (cases "y = x"; cases "z = x") (auto simp: Int_commute)
  qed
  show "gate_inv g'"
    unfolding gate_inv_def h using hash c d inv g'(1) by (auto simp: gate_inv_def)
qed

lemma view_step:
  assumes inv: "gate_inv g" and other: "\<And>y. y < gt_max g \<Longrightarrow> y \<noteq> x \<Longrightarrow> aconn_of g' y = aconn_of g y"
    and sl: "\<And>j. j \<noteq> i \<Longrightarrow> slot_of (gt_hash g') j = slot_of (gt_hash g) j"
    and x: "\<And>j. slot_of (gt_hash g) j = Some x \<Longrightarrow> j = i"
  shows "gate_view g' = (gate_view g)(i := map_option (aconn_of g') (slot_of (gt_hash g') i))"
proof
  fix j
  show "gate_view g' j = ((gate_view g)(i := map_option (aconn_of g') (slot_of (gt_hash g') i))) j"
  proof (cases "j = i")
    case True
    then show ?thesis by (simp add: gate_view_def)
  next
    case False
    show ?thesis
    proof (cases "slot_of (gt_hash g) j")
      case None
      then show ?thesis using sl [OF False] False by (simp add: gate_view_def)
    next
      case (Some y)
      then have "y \<noteq> x" using x False by blast
      then show ?thesis using other [OF slot_less [OF inv Some]] sl [OF False] Some False by (simp add: gate_view_def)
    qed
  qed
qed

section \<open>The events follow the specification\<close>

text \<open>\<open>simulates\<close>: the operation succeeds, makes the calls of the specification and ends in a state with its map.\<close>

definition simulates :: "gate \<Rightarrow> (gate \<times> gate_call list) option \<Rightarrow> aconns \<times> gate_call list \<Rightarrow> bool" where
  "simulates g r a \<longleftrightarrow> (\<exists>g'. r = Some (g', snd a) \<and> gate_inv g' \<and> gate_view g' = fst a \<and> head_of g' = head_of g)"

lemma simulates_refl [simp]: "gate_inv g \<Longrightarrow> simulates g (Some (g, out)) (gate_view g, out)"
  by (simp add: simulates_def)

lemma on_data_ok:
  assumes inv: "gate_inv g"
  shows "simulates g (on_data g m) (spec_data (head_of g) (gate_view g) (sm_id m) (sm_buffer m))"
proof (cases "slot_of (gt_hash g) (sm_id m)")
  case None
  then show ?thesis using inv lookup_view [OF inv] by (simp add: on_data_def gate_view_def simulates_def)
next
  case (Some x)
  let ?i = "sm_id m" and ?bs = "sm_buffer m" and ?c = "gt_conn g ! x" and ?hs = "gt_header_size g"
  have x: "x < gt_max g" "x < length (gt_conn g)" using slot_less [OF inv Some] inv by (auto simp: gate_inv_def)
  have ok: "conn_ok ?hs (c_buffer ?c, gt_mp g)" and hs: "?hs = 2 \<or> ?hs = 4" and ci: "c_id ?c = ?i"
    using inv x(1) Some by (auto simp: gate_inv_def buf_of_def)
  from databuffer_push_ok [of "c_buffer ?c" "gt_mp g" ?bs] ok obtain db mp where p:
    "databuffer_push (c_buffer ?c) (gt_mp g) ?bs = Some (db, mp)" "db_inv (db, mp)"
    "db_contents (db, mp) = db_contents (c_buffer ?c, gt_mp g) @ ?bs" "db_header db = db_header (c_buffer ?c)"
    "frame (c_buffer ?c, gt_mp g) (db, mp)" by (auto simp: conn_ok_def)
  have ok1: "conn_ok ?hs (db, mp)" using p ok by (simp add: conn_ok_def)
  have pe: "ac_pending (aconn_of g x) @ ?bs = pend ?hs (db, mp)" using p by (simp add: aconn_of_def pend_def buf_of_def)
  obtain ps r cl where u: "unframe (receiver g (c_agent ?c)) ?hs (ac_pending (aconn_of g x) @ ?bs) = (ps, r, cl)"
    by (metis prod_cases3)
  from package_loop_ok [OF u pe ok1 refl hs, of ?i "[]"] obtain db' mp' where q:
    "package_loop g ?c ?i db mp [] = Some (concat (map (package_calls g ?i (c_agent ?c) (c_client ?c)) ps) @ close_calls ?i cl, db', mp')"
    "conn_ok ?hs (db', mp')" "pend ?hs (db', mp') = r" "frame (db, mp) (db', mp')" by (auto simp: ci)
  let ?g = "g\<lparr>gt_conn := (gt_conn g)[x := ?c\<lparr>c_buffer := db'\<rparr>], gt_mp := mp'\<rparr>"
  have "on_data g m = Some (?g, concat (map (package_calls g ?i (c_agent ?c) (c_client ?c)) ps) @ close_calls ?i cl)"
    using lookup_view [OF inv, of ?i] Some p(1) q(1) by (simp add: on_data_def gate_dispatch_message_def Let_def)
  moreover have st: "gate_inv ?g" "\<And>y. y < gt_max g \<Longrightarrow> y \<noteq> x \<Longrightarrow> aconn_of ?g y = aconn_of g y"
    "aconn_of ?g x = (aconn_of g x)\<lparr>ac_pending := r\<rparr>"
  proof -
    have fr: "frame (buf_of g x) (c_buffer (?c\<lparr>c_buffer := db'\<rparr>), mp')"
      using frame_trans [OF p(5) q(4)] by (simp add: buf_of_def)
    have nr: "x \<in> ran (slot_of (gt_hash g))" using Some by (auto simp: ran_def)
    note s = gate_step [OF inv x(1) _ fr, of ?g]
    show "gate_inv ?g"
      by (rule s(1)) (use q(2) inv x Some ci nr in \<open>auto simp: gate_inv_def gate_head.truncate_def nth_list_update\<close>)
    show "aconn_of ?g y = aconn_of g y" if "y < gt_max g" "y \<noteq> x" for y
      by (rule s(2)) (use q(2) inv x Some ci nr that in \<open>auto simp: gate_inv_def gate_head.truncate_def nth_list_update\<close>)
    have "aconn_of ?g x = \<lparr>ac_agent = c_agent (?c\<lparr>c_buffer := db'\<rparr>), ac_client = c_client (?c\<lparr>c_buffer := db'\<rparr>),
        ac_pending = pend ?hs (c_buffer (?c\<lparr>c_buffer := db'\<rparr>), mp')\<rparr>"
      by (rule s(3)) (use q(2) inv x Some ci nr in \<open>auto simp: gate_inv_def gate_head.truncate_def nth_list_update\<close>)
    then show "aconn_of ?g x = (aconn_of g x)\<lparr>ac_pending := r\<rparr>" using q(3) by (simp add: aconn_of_def)
  qed
  moreover have "gate_view ?g = (gate_view g)(?i \<mapsto> (aconn_of g x)\<lparr>ac_pending := r\<rparr>)"
  proof -
    have "gate_view ?g = (gate_view g)(?i := map_option (aconn_of ?g) (slot_of (gt_hash ?g) ?i))"
      by (rule view_step [OF inv st(2)]) (use slot_inj [OF inv Some] in auto)
    moreover have "slot_of (gt_hash ?g) ?i = Some x" using Some by simp
    ultimately show ?thesis using st(3) by (simp only: option.map)
  qed
  moreover have "ac_agent (aconn_of g x) = c_agent ?c" "ac_client (aconn_of g x) = c_client ?c"
    by (simp_all add: aconn_of_def)
  moreover have "spec_data (head_of g) (gate_view g) ?i ?bs = ((gate_view g)(?i \<mapsto> (aconn_of g x)\<lparr>ac_pending := r\<rparr>),
      concat (map (package_calls g ?i (c_agent ?c) (c_client ?c)) ps) @ close_calls ?i cl)"
  proof -
    have "gate_view g ?i = Some (aconn_of g x)" using Some by (simp add: gate_view_def)
    moreover have "package_calls (head_of g) i a c = package_calls g i a c" for i a c by (rule ext) simp
    ultimately show ?thesis using u by (simp add: \<open>ac_agent (aconn_of g x) = c_agent ?c\<close> \<open>ac_client (aconn_of g x) = c_client ?c\<close>)
  qed
  moreover have "head_of ?g = head_of g" by (simp add: gate_head.truncate_def)
  ultimately show ?thesis unfolding simulates_def by (intro exI [of _ ?g]) (simp only: fst_conv snd_conv simp_thms)
qed

lemma on_connect_ok:
  "gate_inv g \<Longrightarrow> simulates g (on_connect g m) (gate_view g, spec_connect (head_of g) (gate_view g) (sm_id m))"
  using lookup_view [of g "sm_id m"] view_None [of g "sm_id m"]
  by (cases "slot_of (gt_hash g) (sm_id m)") (simp_all add: on_connect_def spec_connect_def)

lemma on_close_ok:
  assumes inv: "gate_inv g"
  shows "simulates g (on_close g m) (spec_close (head_of g) (gate_view g) (sm_id m))"
proof -
  let ?i = "sm_id m"
  have hinv: "hash_inv (gt_hash g)" using inv by (simp add: gate_inv_def)
  from hid.rem_law [OF hinv, of ?i] obtain hi where r:
    "hashid_remove (gt_hash g) ?i = Some (slot_of (gt_hash g) ?i, hi)" "hash_inv hi" "hi_cap hi = hi_cap (gt_hash g)"
    "slot_of hi = (slot_of (gt_hash g))(?i := None)" by auto
  show ?thesis
  proof (cases "slot_of (gt_hash g) ?i")
    case None
    let ?g = "g\<lparr>gt_hash := hi\<rparr>"
    have sl: "slot_of hi = slot_of (gt_hash g)" using r(4) None by auto
    have ao: "aconn_of ?g = aconn_of g" "buf_of ?g = buf_of g" by (rule ext, simp add: aconn_of_def buf_of_def)+
    have "gate_inv ?g" using inv r(2,3) by (simp add: gate_inv_def sl ao)
    moreover have vw: "gate_view ?g = gate_view g" by (rule ext) (simp add: gate_view_def sl ao)
    moreover have "(gate_view g)(?i := None) = gate_view g" using None by (auto simp: gate_view_def)
    ultimately show ?thesis using r(1) None
      by (simp add: simulates_def on_close_def spec_close_def view_None gate_head.truncate_def)
  next
    case (Some x)
    have x: "x < gt_max g" "x < length (gt_conn g)" using slot_less [OF inv Some] inv by (auto simp: gate_inv_def)
    have ok: "conn_ok (gt_header_size g) (c_buffer (gt_conn g ! x), gt_mp g)"
      using inv x(1) by (auto simp: gate_inv_def buf_of_def)
    from databuffer_clear_ok [of "c_buffer (gt_conn g ! x)" "gt_mp g"] ok obtain mp where k:
      "databuffer_clear (c_buffer (gt_conn g ! x)) (gt_mp g) = Some (databuffer_zero, mp)" "db_inv (databuffer_zero, mp)"
      "frame (c_buffer (gt_conn g ! x), gt_mp g) (databuffer_zero, mp)" by (auto simp: conn_ok_def)
    let ?g = "g\<lparr>gt_hash := hi, gt_conn := (gt_conn g)[x := zero_connection], gt_mp := mp\<rparr>"
    have z: "c_buffer zero_connection = databuffer_zero" by (simp add: zero_connection_def)
    have ok': "conn_ok (gt_header_size g) (c_buffer zero_connection, mp)"
      using k(2) by (simp add: conn_ok_def z) (simp add: databuffer_zero_def)
    have fr: "frame (buf_of g x) (c_buffer zero_connection, mp)" using k(3) by (simp add: z buf_of_def)
    note s = gate_step [OF inv x(1) ok' fr, of ?g]
    have id': "c_id (gt_conn ?g ! y) = j" if "slot_of (gt_hash ?g) j = Some y" for j y
    proof -
      have j: "slot_of (gt_hash g) j = Some y" "j \<noteq> ?i" using that r(4) by (auto split: if_splits)
      then have "y \<noteq> x" using slot_inj [OF inv Some] by metis
      then show ?thesis using j(1) inv by (simp add: gate_inv_def)
    qed
    have zr: "gt_conn ?g ! y = zero_connection" if "y < gt_max g" "y \<notin> ran (slot_of (gt_hash ?g))" for y
    proof (cases "y = x")
      case True
      then show ?thesis using x by simp
    next
      case False
      have "slot_of (gt_hash g) a \<noteq> Some y" for a
      proof
        assume "slot_of (gt_hash g) a = Some y"
        then have "slot_of (gt_hash ?g) a = Some y" using Some r(4) False by auto
        then show False using that(2) ranI by fast
      qed
      then have "y \<notin> ran (slot_of (gt_hash g))" by (auto simp: ran_def)
      then show ?thesis using inv that(1) False by (simp add: gate_inv_def)
    qed
    have hd: "head_of ?g = head_of g" by (simp add: gate_head.truncate_def)
    have cap: "hi_cap hi = gt_max g" using r(3) inv by (simp add: gate_inv_def)
    have gi: "gate_inv ?g" by (rule s(1)) (use r(2) cap hd id' zr in simp_all)
    have other: "aconn_of ?g y = aconn_of g y" if "y < gt_max g" "y \<noteq> x" for y
      by (rule s(2)) (use r(2) cap hd id' zr that in simp_all)
    have "gate_view ?g = (gate_view g)(?i := map_option (aconn_of ?g) (slot_of (gt_hash ?g) ?i))"
      by (rule view_step [OF inv other]) (use r(4) slot_inj [OF inv Some] in auto)
    then have "gate_view ?g = (gate_view g)(?i := None)" using r(4) by simp
    then show ?thesis using r(1) Some k(1) gi hd
      by (simp add: simulates_def on_close_def spec_close_def view_None)
  qed
qed

lemma on_accept_ok:
  assumes inv: "gate_inv g" and sp: "spec_accept (head_of g) (gate_view g) m name = Some a"
  shows "simulates g (on_accept g m name) a"
proof -
  let ?i = "sm_ud m"
  have hinv: "hash_inv (gt_hash g)" and cap: "hi_cap (gt_hash g) = gt_max g" using inv by (simp_all add: gate_inv_def)
  have full: "hashid_full (gt_hash g) \<longleftrightarrow> card (dom (gate_view g)) = gt_max g"
    using hid.full_law [OF hinv] cap by (simp add: view_dom)
  have li: "gt_listen_id g = sm_id m" using sp by (simp add: spec_accept_def split: if_splits)
  show ?thesis
  proof (cases "hashid_full (gt_hash g)")
    case True
    then show ?thesis using sp inv full li by (auto simp: on_accept_def spec_accept_def)
  next
    case False
    then have g: "good_id (hi_cap (gt_hash g)) ?i" "slot_of (gt_hash g) ?i = None"
      and a: "a = ((gate_view g)(?i \<mapsto> \<lparr>ac_agent = 0, ac_client = 0, ac_pending = []\<rparr>),
        report g (fmt_d ?i @ '' open '' @ fmt_d ?i @ '' '' @ cstr (take 31 name) 0 @ '':0'')
        @ [Error_text (''socket open: '' @ fmt_x (of_int ?i))])"
      using sp full li cap by (simp_all add: spec_accept_def view_None split: if_splits)
    from hid.ins_law [OF hinv g False] obtain x hi where r:
      "hashid_insert (gt_hash g) ?i = Some (x, hi)" "hash_inv hi" "hi_cap hi = gt_max g"
      "slot_of hi = (slot_of (gt_hash g))(?i := Some x)" using cap by auto
    have "x \<in> ran (slot_of hi)" using r(4) by (metis fun_upd_same ranI)
    then have x: "x < gt_max g" "x < length (gt_conn g)"
      using hid.slots_law [OF r(2)] r(3) inv by (auto simp: gate_inv_def)
    have new: "x \<notin> ran (slot_of (gt_hash g))"
    proof
      assume "x \<in> ran (slot_of (gt_hash g))"
      then obtain j where "slot_of (gt_hash g) j = Some x" by (auto simp: ran_def)
      then have "slot_of hi j = Some x" "slot_of hi ?i = Some x" "j \<noteq> ?i" using r(4) g(2) by auto
      then show False using hid.slots_law [OF r(2)] by (metis domI inj_onD)
    qed
    then have nx: "slot_of (gt_hash g) j \<noteq> Some x" for j using ranI by fast
    have z: "gt_conn g ! x = zero_connection" using new inv x(1) by (simp add: gate_inv_def)
    let ?c = "zero_connection\<lparr>c_id := ?i, c_remote_name := cstr (take 31 name) 0\<rparr>"
    let ?g = "g\<lparr>gt_hash := hi, gt_conn := (gt_conn g)[x := ?c]\<rparr>"
    have cb: "(c_buffer ?c, gt_mp g) = buf_of g x" using z by (simp add: buf_of_def)
    have ok: "conn_ok (gt_header_size g) (c_buffer ?c, gt_mp g)" using inv x(1) unfolding cb by (simp add: gate_inv_def)
    have fr: "frame (buf_of g x) (c_buffer ?c, gt_mp g)" unfolding cb by simp
    note s = gate_step [OF inv x(1) ok fr, of ?g]
    have id': "c_id (gt_conn ?g ! y) = j" if "slot_of (gt_hash ?g) j = Some y" for j y
    proof (cases "j = ?i")
      case True
      then show ?thesis using that r(4) x by simp
    next
      case False
      then have j: "slot_of (gt_hash g) j = Some y" using that r(4) by simp
      then have "y \<noteq> x" using new by (auto simp: ran_def)
      then show ?thesis using j inv by (simp add: gate_inv_def)
    qed
    have zr: "gt_conn ?g ! y = zero_connection" if "y < gt_max g" "y \<notin> ran (slot_of (gt_hash ?g))" for y
    proof -
      have "slot_of (gt_hash g) a \<noteq> Some y" for a
      proof
        assume "slot_of (gt_hash g) a = Some y"
        then have "slot_of (gt_hash ?g) a = Some y" using r(4) g(2) by auto
        then show False using that(2) ranI by fast
      qed
      moreover have "y \<noteq> x"
      proof
        assume "y = x"
        then have "slot_of (gt_hash ?g) ?i = Some y" using r(4) by simp
        then show False using that(2) ranI by fast
      qed
      ultimately have "y \<noteq> x" "y \<notin> ran (slot_of (gt_hash g))" by (auto simp: ran_def)
      then show ?thesis using inv that(1) by (simp add: gate_inv_def)
    qed
    have hd: "head_of ?g = head_of g" by (simp add: gate_head.truncate_def)
    have gi: "gate_inv ?g" by (rule s(1)) (use r(2,3) hd id' zr in simp_all)
    have other: "aconn_of ?g y = aconn_of g y" if "y < gt_max g" "y \<noteq> x" for y
      by (rule s(2)) (use r(2,3) hd id' zr that in simp_all)
    have own: "aconn_of ?g x = \<lparr>ac_agent = c_agent ?c, ac_client = c_client ?c, ac_pending = pend (gt_header_size g) (c_buffer ?c, gt_mp g)\<rparr>"
      by (rule s(3)) (use r(2,3) hd id' zr in simp_all)
    have "db_list (databuffer_zero, gt_mp g) = []"
      by (cases "length (mp_nodes (gt_mp g))") (simp_all add: db_list_def databuffer_zero_def)
    then have "pend (gt_header_size g) (databuffer_zero, gt_mp g) = []"
      by (simp add: pend_def db_contents_def blocks_def) (simp add: databuffer_zero_def)
    then have own': "aconn_of ?g x = \<lparr>ac_agent = 0, ac_client = 0, ac_pending = []\<rparr>"
      unfolding own by (simp add: zero_connection_def)
    have "gate_view ?g = (gate_view g)(?i := map_option (aconn_of ?g) (slot_of (gt_hash ?g) ?i))"
      by (rule view_step [OF inv, of x]) (erule (1) other, simp add: r(4), erule notE [OF nx])
    moreover have "slot_of (gt_hash ?g) ?i = Some x" using r(4) by simp
    ultimately have "gate_view ?g = (gate_view g)(?i \<mapsto> \<lparr>ac_agent = 0, ac_client = 0, ac_pending = []\<rparr>)"
      using own' by (simp only: option.map)
    moreover have "on_accept g m name = Some (?g, snd a)"
      using r(1) z li False a by (simp add: on_accept_def Let_def)
    ultimately show ?thesis using gi hd a unfolding simulates_def by auto
  qed
qed

lemma event_ok:
  assumes "gate_inv g" "spec_event (head_of g) (gate_view g) m name = Some a"
  shows "simulates g (dispatch_socket_message g m name) a"
  using assms on_data_ok [OF assms(1), of m] on_connect_ok [OF assms(1), of m] on_close_ok [OF assms(1), of m]
    on_accept_ok [OF assms(1), of m name a]
  by (auto simp: dispatch_socket_message_def spec_event_def simp del: spec_data.simps split: if_splits)

section \<open>Histories of events\<close>

text \<open>The calls of each event of a history, in order.\<close>

fun gate_run :: "gate \<Rightarrow> (socket_message \<times> string) list \<Rightarrow> (gate \<times> gate_call list list) option" where
  "gate_run g [] = Some (g, [])"
| "gate_run g ((m, name) # evs) =
     (case dispatch_socket_message g m name of None \<Rightarrow> None
      | Some (g', out) \<Rightarrow> map_option (\<lambda>(g'', outs). (g'', out # outs)) (gate_run g' evs))"

fun spec_run :: "gate_head \<Rightarrow> aconns \<Rightarrow> (socket_message \<times> string) list \<Rightarrow> (aconns \<times> gate_call list list) option" where
  "spec_run h A [] = Some (A, [])"
| "spec_run h A ((m, name) # evs) =
     (case spec_event h A m name of None \<Rightarrow> None
      | Some (A', out) \<Rightarrow> map_option (\<lambda>(A'', outs). (A'', out # outs)) (spec_run h A' evs))"

lemma run_ok:
  "gate_inv g \<Longrightarrow> spec_run (head_of g) (gate_view g) evs = Some (A, outs) \<Longrightarrow>
   \<exists>g'. gate_run g evs = Some (g', outs) \<and> gate_inv g' \<and> gate_view g' = A \<and> head_of g' = head_of g"
proof (induction evs arbitrary: g A outs)
  case Nil
  then show ?case by auto
next
  case (Cons ev evs)
  obtain m name where ev: "ev = (m, name)" by (cases ev)
  obtain A1 out A2 outs2 where sp: "spec_event (head_of g) (gate_view g) m name = Some (A1, out)"
    "spec_run (head_of g) A1 evs = Some (A2, outs2)" "A = A2" "outs = out # outs2"
    using Cons.prems(2) ev by (auto split: option.splits)
  obtain g1 where g1: "dispatch_socket_message g m name = Some (g1, out)" "gate_inv g1" "gate_view g1 = A1"
    "head_of g1 = head_of g"
    using event_ok [OF Cons.prems(1) sp(1)] by (auto simp: simulates_def)
  have "spec_run (head_of g1) (gate_view g1) evs = Some (A, outs2)" using sp(2,3) g1(3,4) by simp
  from Cons.IH [OF g1(2) this] obtain g2 where "gate_run g1 evs = Some (g2, outs2)" "gate_inv g2" "gate_view g2 = A"
    "head_of g2 = head_of g1" by blast
  then show ?case using g1(1,4) ev sp(4) by simp
qed

text \<open>What the gate does with the data of one connection in a history.\<close>

definition calls_of :: "int \<Rightarrow> (socket_message \<times> string) list \<Rightarrow> gate_call list list \<Rightarrow> gate_call list" where
  "calls_of i evs outs = concat (map snd (filter (\<lambda>p. sm_id (fst (fst p)) = i) (zip evs outs)))"

lemma spec_data_other: "i \<noteq> j \<Longrightarrow> fst (spec_data h A j bs) i = A i"
  by (cases "A j") (simp_all add: split_beta Let_def)

lemma spec_stream:
  "all_data evs \<Longrightarrow> A i = Some a \<Longrightarrow>
   unframe (receiver h (ac_agent a)) (gt_header_size h) (ac_pending a @ data_of i evs) = (ps, r, False) \<Longrightarrow>
   \<exists>A' outs. spec_run h A evs = Some (A', outs) \<and> A' i = Some (a\<lparr>ac_pending := r\<rparr>)
     \<and> calls_of i evs outs = concat (map (package_calls h i (ac_agent a) (ac_client a)) ps)"
  if "unframe (receiver h (ac_agent a)) (gt_header_size h) (ac_pending a) = ([], ac_pending a, False)"
  using that
proof (induction evs arbitrary: A a ps r)
  case Nil
  then show ?case by (auto simp: data_of_def calls_of_def)
next
  case (Cons ev evs)
  obtain m name where ev: "ev = (m, name)" by (cases ev)
  have d: "all_data evs" "sm_type m = SOCKET_DATA" using Cons.prems(1) ev by (simp_all add: all_data_def)
  let ?u = "unframe (receiver h (ac_agent a)) (gt_header_size h)"
  show ?case
  proof (cases "sm_id m = i")
    case False
    obtain A1 out where s: "spec_event h A m name = Some (A1, out)" "A1 i = A i"
      using spec_data_other [of i "sm_id m" h A "sm_buffer m"] False d(2)
      by (cases "spec_data h A (sm_id m) (sm_buffer m)") (simp add: spec_event_def)
    have "data_of i (ev # evs) = data_of i evs" using False ev by (simp add: data_of_def)
    from Cons.IH [OF d(1) _ _ Cons.prems(4), of A1 ps r] this Cons.prems(2,3) s(2) obtain A' outs where
      "spec_run h A1 evs = Some (A', outs)" "A' i = Some (a\<lparr>ac_pending := r\<rparr>)"
      "calls_of i evs outs = concat (map (package_calls h i (ac_agent a) (ac_client a)) ps)" by auto
    then show ?thesis using s(1) ev False by (simp add: calls_of_def)
  next
    case True
    let ?bs = "sm_buffer m"
    obtain ps1 r1 c1 where u1: "?u (ac_pending a @ ?bs) = (ps1, r1, c1)" by (metis prod_cases3)
    have dd: "data_of i (ev # evs) = ?bs @ data_of i evs" using True ev by (simp add: data_of_def)
    obtain ps2 r2 c2 where u2: "?u (r1 @ data_of i evs) = (ps2, r2, c2)" by (metis prod_cases3)
    have e: "\<not> c1" "ps = ps1 @ ps2" "r2 = r" "\<not> c2"
      using unframe_append [OF u1, of "data_of i evs"] Cons.prems(3) dd u2 by (auto split: if_splits)
    have fix1: "?u r1 = ([], r1, False)"
      using unframe_append [OF u1, of "[]"] u1 e(1) by (cases "?u r1") auto
    let ?a = "a\<lparr>ac_pending := r1\<rparr>"
    have s: "spec_event h A m name = Some (A(i \<mapsto> ?a), concat (map (package_calls h i (ac_agent a) (ac_client a)) ps1))"
      using d(2) Cons.prems(2) u1 e(1) True by (simp add: spec_event_def close_calls_def)
    have ai: "(A(i \<mapsto> ?a)) i = Some ?a" by simp
    have uu: "unframe (receiver h (ac_agent ?a)) (gt_header_size h) (ac_pending ?a @ data_of i evs) = (ps2, r, False)"
      using u2 e(3,4) by simp
    have ff: "unframe (receiver h (ac_agent ?a)) (gt_header_size h) (ac_pending ?a) = ([], ac_pending ?a, False)"
      using fix1 by simp
    from Cons.IH [of "A(i \<mapsto> ?a)" ?a, OF d(1) ai uu ff] obtain A' outs where
      "spec_run h (A(i \<mapsto> ?a)) evs = Some (A', outs)" "A' i = Some (a\<lparr>ac_pending := r\<rparr>)"
      "calls_of i evs outs = concat (map (package_calls h i (ac_agent a) (ac_client a)) ps2)"
      by (simp del: fun_upd_apply) blast
    then show ?thesis using s ev True e(2) by (simp add: calls_of_def)
  qed
qed

end
