(* ===== verification/GateProps.thy ===== *)
theory GateProps
  imports GateSpec
begin

text \<open>
  The properties of the gate: the connections do not disturb each other, packages arrive however
  the network cuts the stream, the gate starts in a good state and keeps it, and what happens to
  packages that nobody receives and to lengths beyond \<open>2 ^ 31\<close>.
\<close>

section \<open>Starting\<close>

lemma slot_of_init [simp]: "slot_of (hashid_init n) = Map.empty"
  using hash_inv_init(3) [of n] by (simp add: dom_eq_empty_conv)

lemma pend_zero: "pend hs (databuffer_zero, messagepool_zero) = []" "conn_ok hs (databuffer_zero, messagepool_zero)"
  "db_list (databuffer_zero, messagepool_zero) = []"
proof -
  have rep: "db_rep databuffer_zero messagepool_zero [] []"
    by (simp add: db_rep_def databuffer_zero_def messagepool_zero_def)
  show "pend hs (databuffer_zero, messagepool_zero) = []"
    by (simp add: pend_def db_contents_rep [OF rep] blocks_def) (simp add: databuffer_zero_def)
  have "db_inv (databuffer_zero, messagepool_zero)"
    by (rule db_invI [OF rep]) (simp_all add: databuffer_zero_def blocks_def)
  then show "conn_ok hs (databuffer_zero, messagepool_zero)" by (simp add: conn_ok_def) (simp add: databuffer_zero_def)
  show "db_list (databuffer_zero, messagepool_zero) = []" by (rule db_rep_list [OF rep])
qed

lemma fresh_gate:
  assumes "gt_hash g = hashid_init n" "gt_conn g = replicate n zero_connection" "gt_mp g = messagepool_zero"
    "gt_max g = n" "gt_header_size g = 2 \<or> gt_header_size g = 4"
  shows "gate_inv g" "gate_view g = Map.empty"
proof -
  have b: "buf_of g x = (databuffer_zero, messagepool_zero)" if "x < n" for x
    using assms that by (simp add: buf_of_def zero_connection_def)
  show "gate_inv g"
    unfolding gate_inv_def using assms b by (simp add: hash_inv_init pend_zero)
  show "gate_view g = Map.empty" by (rule ext) (simp add: gate_view_def assms(1))
qed

definition sample_gate :: "u32 \<Rightarrow> nat \<Rightarrow> gate" where
  "sample_gate w hs = gate_create\<lparr>gt_listen_id := 1, gt_watchdog := w, gt_client_tag := 3, gt_header_size := hs,
     gt_max := 2, gt_hash := hashid_init 2, gt_conn := replicate 2 zero_connection\<rparr>"

lemma sample_gate_ok:
  assumes "hs = 2 \<or> hs = 4"
  shows "gate_inv (sample_gate w hs)" "gate_view (sample_gate w hs) = Map.empty"
  by (rule fresh_gate [where n = 2]; use assms in \<open>simp add: sample_gate_def gate_create_def\<close>)+

lemma sample_head [simp]:
  "gt_listen_id (sample_gate w hs) = 1" "gt_watchdog (sample_gate w hs) = w" "gt_broker (sample_gate w hs) = 0"
  "gt_header_size (sample_gate w hs) = hs" "gt_max (sample_gate w hs) = 2" "gt_client_tag (sample_gate w hs) = 3"
  by (simp_all add: sample_gate_def gate_create_def)

definition accept_msg :: "int \<Rightarrow> socket_message" where
  "accept_msg i = \<lparr>sm_type = SOCKET_ACCEPT, sm_id = 1, sm_ud = i, sm_buffer = []\<rparr>"

definition data_msg :: "int \<Rightarrow> bytes \<Rightarrow> socket_message" where
  "data_msg i bs = \<lparr>sm_type = SOCKET_DATA, sm_id = i, sm_ud = int (length bs), sm_buffer = bs\<rparr>"

definition close_msg :: "int \<Rightarrow> socket_message" where
  "close_msg i = \<lparr>sm_type = SOCKET_CLOSE, sm_id = i, sm_ud = 0, sm_buffer = []\<rparr>"

lemma head_eq:
  assumes "head_of g = head_of g'"
  shows "gt_listen_id g = gt_listen_id g'" "gt_watchdog g = gt_watchdog g'" "gt_broker g = gt_broker g'"
    "gt_client_tag g = gt_client_tag g'" "gt_header_size g = gt_header_size g'" "gt_max g = gt_max g'"
  using assms by (simp_all add: gate_head.truncate_def)

lemma be_bytes_2: "be_bytes 2 n = [of_nat (n div 256), of_nat n]"
  by (simp add: numeral_2_eq_2)

text \<open>A gate with the connection 5.\<close>

lemma accepted:
  assumes "hs = 2 \<or> hs = 4"
  shows "\<exists>g outs. gate_run (sample_gate w hs) [(accept_msg 5, ''h'')] = Some (g, outs) \<and> gate_inv g
    \<and> gate_view g = [5 \<mapsto> \<lparr>ac_agent = 0, ac_client = 0, ac_pending = []\<rparr>] \<and> head_of g = head_of (sample_gate w hs)"
proof -
  obtain out where "spec_run (head_of (sample_gate w hs)) (gate_view (sample_gate w hs)) [(accept_msg 5, ''h'')]
      = Some ([5 \<mapsto> \<lparr>ac_agent = 0, ac_client = 0, ac_pending = []\<rparr>], [out])"
    using assms by (simp add: sample_gate_ok spec_event_def spec_accept_def accept_msg_def socket_types good_id_def)
  from run_ok [OF sample_gate_ok(1) [OF assms] this] show ?thesis by blast
qed

section \<open>Properties\<close>

text \<open>C2: The connections of the gate are independent byte streams. From any state that satisfies the
  invariant (the hash table is well formed, every slot of the connection array in use belongs to
  its id, and the buffers of the connections hold disjoint sets of the blocks of their common pool),
  every history of socket events in which the socket layer keeps its contract runs without a failed
  assertion or a bad access, and makes, event by event, exactly the calls of the specification: a
  map from ids to agents and pending bytes, on which data is cut by \<open>unframe\<close>, accepting adds and
  closing removes a connection. The invariant holds again afterwards.\<close>

theorem gate_refines_streams:
  assumes "gate_inv g" "spec_run (head_of g) (gate_view g) evs = Some (A, outs)"
  shows "\<exists>g'. gate_run g evs = Some (g', outs) \<and> gate_inv g' \<and> gate_view g' = A"
  using run_ok [OF assms] by blast

theorem gate_refines_streams_witness:
  "\<exists>g' A outs. spec_run (head_of (sample_gate 7 2)) (gate_view (sample_gate 7 2))
       [(accept_msg 5, ''h''), (data_msg 5 [0, 2, 65], []), (accept_msg 6, []), (data_msg 6 [0], []), (data_msg 5 [66, 0], []), (close_msg 5, [])]
       = Some (A, outs)
     \<and> gate_run (sample_gate 7 2)
       [(accept_msg 5, ''h''), (data_msg 5 [0, 2, 65], []), (accept_msg 6, []), (data_msg 6 [0], []), (data_msg 5 [66, 0], []), (close_msg 5, [])]
       = Some (g', outs) \<and> gate_inv g' \<and> gate_view g' = A"
proof -
  let ?g = "sample_gate 7 2" and ?evs = "[(accept_msg 5, ''h''), (data_msg 5 [0, 2, 65], []), (accept_msg 6, []), (data_msg 6 [0], []),
    (data_msg 5 [66, 0], []), (close_msg 5, [])] :: (socket_message \<times> string) list"
  have "\<exists>A outs. spec_run (head_of ?g) (gate_view ?g) ?evs = Some (A, outs)"
    by (simp add: sample_gate_ok spec_event_def spec_accept_def accept_msg_def data_msg_def close_msg_def socket_types good_id_def
        split_beta Let_def split: option.split)
  then obtain A outs where s: "spec_run (head_of ?g) (gate_view ?g) ?evs = Some (A, outs)" by blast
  show ?thesis using gate_refines_streams [OF _ s] s sample_gate_ok(1) [of 2 7] by blast
qed

text \<open>C9: Packages survive the network. A peer sends packages, each with a big-endian header of the
  size of the gate; the network cuts the stream into blocks anywhere, and data of other
  connections arrives in between. Then what the gate does for this connection is exactly to forward
  the packages that are not empty, each once, whole and in order, and no byte is left over.\<close>

theorem gate_delivers_packages:
  assumes "gate_inv g" "gate_view g i = Some a" "ac_pending a = []" "receiver g (ac_agent a)"
    "all_data evs" "data_of i evs = concat (map (frame_bytes (gt_header_size g)) ps)"
    "\<forall>p \<in> set ps. length p < 256 ^ gt_header_size g \<and> length p < 2 ^ 24"
  shows "\<exists>g' outs. gate_run g evs = Some (g', outs) \<and> gate_inv g' \<and> gate_view g' i = Some a
    \<and> calls_of i evs outs = concat (map (package_calls g i (ac_agent a) (ac_client a)) (filter (\<lambda>p. p \<noteq> []) ps))"
proof -
  have hs: "0 < gt_header_size g" using assms(1) by (auto simp: gate_inv_def)
  let ?u = "unframe (receiver (head_of g) (ac_agent a)) (gt_header_size (head_of g))"
  have "?u [] = ([], [], False)" using hs by (simp add: unframe.simps)
  moreover have "?u (ac_pending a @ data_of i evs) = (filter (\<lambda>p. p \<noteq> []) ps, [], False)"
    using unframe_stream [OF hs assms(7)] assms(3,4,6) by simp
  ultimately obtain A outs where s: "spec_run (head_of g) (gate_view g) evs = Some (A, outs)"
    "A i = Some (a\<lparr>ac_pending := []\<rparr>)"
    "calls_of i evs outs = concat (map (package_calls (head_of g) i (ac_agent a) (ac_client a)) (filter (\<lambda>p. p \<noteq> []) ps))"
    using spec_stream [of "head_of g" a evs "gate_view g" i "filter (\<lambda>p. p \<noteq> []) ps" "[]"] assms(2,3,5) by auto
  have "a\<lparr>ac_pending := []\<rparr> = a" using assms(3) by simp
  moreover have "package_calls (head_of g) i (ac_agent a) (ac_client a) = package_calls g i (ac_agent a) (ac_client a)"
    by (rule ext) simp
  ultimately show ?thesis using run_ok [OF assms(1) s(1)] s(2,3) by metis
qed

theorem gate_delivers_packages_witness:
  "\<exists>g g' outs. gate_run g [(data_msg 5 [0], []), (data_msg 8 [1], []), (data_msg 5 [2, 65, 66, 0, 0], [])] = Some (g', outs)
     \<and> calls_of 5 [(data_msg 5 [0], []), (data_msg 8 [1], []), (data_msg 5 [2, 65, 66, 0, 0], [])] outs =
       [Send_to 0 7 0x10000 (string_bytes ''5 data '' @ [65, 66])]"
proof -
  let ?evs = "[(data_msg 5 [0], []), (data_msg 8 [1], []), (data_msg 5 [2, 65, 66, 0, 0], [])] :: (socket_message \<times> string) list"
  obtain g where g: "gate_inv g" "gate_view g = [5 \<mapsto> \<lparr>ac_agent = 0, ac_client = 0, ac_pending = []\<rparr>]"
    "head_of g = head_of (sample_gate 7 2)" using accepted [of 2 7] by auto
  have h: "gt_header_size g = 2" "gt_watchdog g = 7" "gt_broker g = 0" "gt_client_tag g = 3"
    using head_eq [OF g(3)] by simp_all
  have p: "\<forall>p \<in> set [[65, 66], []]. length p < 256 ^ gt_header_size g \<and> length (p :: bytes) < 2 ^ 24" by (simp add: h)
  have f: "fmt_d 5 = ''5''" by code_simp
  have d: "data_of 5 ?evs = concat (map (frame_bytes (gt_header_size g)) [[65, 66], []])"
    by (simp add: h data_of_def data_msg_def frame_bytes_def be_bytes_2)
  have "\<exists>g' outs. gate_run g ?evs = Some (g', outs) \<and> gate_inv g' \<and> gate_view g' 5 = Some \<lparr>ac_agent = 0, ac_client = 0, ac_pending = []\<rparr>
    \<and> calls_of 5 ?evs outs = concat (map (package_calls g 5 0 0) (filter (\<lambda>p. p \<noteq> []) [[65, 66], []]))"
    using gate_delivers_packages [OF g(1) _ _ _ _ d p, of "\<lparr>ac_agent = 0, ac_client = 0, ac_pending = []\<rparr>"] g(2) h
    by (simp add: receiver_def all_data_def data_msg_def)
  then show ?thesis using h f by (auto simp: package_calls_def PTYPE_TEXT_def PTYPE_TAG_DONTCOPY_def)
qed

text \<open>C34: A package that nobody receives desynchronises its connection. When the gate has no broker
  and no watchdog and the connection no agent, the body of a package is not read from the buffer,
  only its header is dropped: a frame with the body \<open>p\<close> has exactly the effect of the bare bytes
  \<open>p\<close>, which are then taken for headers and packages.\<close>

theorem gate_unreceived_body_is_parsed:
  assumes "gate_inv g" "gate_view g i = Some a" "\<not> receiver g (ac_agent a)" "ac_pending a = []"
    "p \<noteq> []" "length p < 256 ^ gt_header_size g" "length p < 2 ^ 24"
  shows "\<exists>g1 g2 calls. on_data g (data_msg i (frame_bytes (gt_header_size g) p @ bs)) = Some (g1, calls)
    \<and> on_data g (data_msg i (p @ bs)) = Some (g2, calls) \<and> gate_view g1 = gate_view g2"
proof -
  let ?hs = "gt_header_size g"
  have hs: "0 < ?hs" using assms(1) by (auto simp: gate_inv_def)
  have t: "take ?hs (frame_bytes ?hs p @ bs) = be_bytes ?hs (length p)" "drop ?hs (frame_bytes ?hs p @ bs) = p @ bs"
    "\<not> (?hs = 0 \<or> length (frame_bytes ?hs p @ bs) < ?hs)"
    using hs by (simp_all add: frame_bytes_def)
  have n: "be_nat (be_bytes ?hs (length p)) = length p" by (rule be_bytes_small [OF assms(6)])
  have "unframe False ?hs (frame_bytes ?hs p @ bs) = unframe False ?hs (p @ bs)"
    using assms(5,7) t(3) by (subst unframe.simps) (simp add: t(1,2) n Let_def del: take_append drop_append)
  then have "spec_data (head_of g) (gate_view g) i (frame_bytes ?hs p @ bs) = spec_data (head_of g) (gate_view g) i (p @ bs)"
    using assms(2,3,4) by simp
  moreover have "simulates g (on_data g (data_msg i b)) (spec_data (head_of g) (gate_view g) i b)" for b
    using on_data_ok [OF assms(1), of "data_msg i b"] by (simp add: data_msg_def del: spec_data.simps)
  ultimately show ?thesis unfolding simulates_def by metis
qed

theorem gate_unreceived_body_is_parsed_witness:
  "\<exists>g g1 g2 calls. on_data g (data_msg 5 (frame_bytes 2 [0, 1, 65] @ [])) = Some (g1, calls)
    \<and> on_data g (data_msg 5 ([0, 1, 65] @ [])) = Some (g2, calls) \<and> gate_view g1 = gate_view g2"
proof -
  obtain g where g: "gate_inv g" "gate_view g = [5 \<mapsto> \<lparr>ac_agent = 0, ac_client = 0, ac_pending = []\<rparr>]"
    "head_of g = head_of (sample_gate 0 2)" using accepted [of 2 0] by auto
  show ?thesis
    using gate_unreceived_body_is_parsed [OF g(1), of 5 "\<lparr>ac_agent = 0, ac_client = 0, ac_pending = []\<rparr>" "[0, 1, 65]" "[]"]
      g(2) head_eq [OF g(3)] by (simp add: receiver_def) blast
qed

text \<open>C35: With 4 byte headers the limit of 16 M does not hold for lengths of \<open>2 ^ 31\<close> and more: the
  length is a negative \<open>int\<close>, so the gate takes it for an incomplete package. Whatever arrives is kept
  in the buffer, nothing is forwarded and the connection is never closed.\<close>

theorem gate_huge_length_stalls:
  assumes "gate_inv g" "gate_view g i = Some a" "gt_header_size g = 4"
    "4 \<le> length (ac_pending a)" "2 ^ 31 \<le> be_nat (take 4 (ac_pending a))"
  shows "\<exists>g'. on_data g (data_msg i bs) = Some (g', []) \<and> gate_inv g'
    \<and> gate_view g' = (gate_view g)(i \<mapsto> a\<lparr>ac_pending := ac_pending a @ bs\<rparr>)"
proof -
  have t: "take 4 (ac_pending a @ bs) = take 4 (ac_pending a)" using assms(4) by simp
  have "be_nat (take 4 (ac_pending a)) \<noteq> 0" using assms(5) by auto
  then have "unframe fw 4 (ac_pending a @ bs) = ([], ac_pending a @ bs, False)" for fw
    using assms(4,5) by (subst unframe.simps) (simp add: t)
  then have "spec_data (head_of g) (gate_view g) i bs = ((gate_view g)(i \<mapsto> a\<lparr>ac_pending := ac_pending a @ bs\<rparr>), [])"
    using assms(2,3) by (simp add: close_calls_def)
  then show ?thesis using on_data_ok [OF assms(1), of "data_msg i bs"]
    by (simp add: simulates_def data_msg_def del: spec_data.simps) blast
qed

theorem gate_huge_length_stalls_witness:
  "\<exists>g g'. be_nat [128, 0, 0, 0] = 2 ^ 31 \<and> on_data g (data_msg 5 [1, 2, 3]) = Some (g', [])
    \<and> gate_view g' = [5 \<mapsto> \<lparr>ac_agent = 0, ac_client = 0, ac_pending = [128, 0, 0, 0, 1, 2, 3]\<rparr>]"
proof -
  let ?a = "\<lparr>ac_agent = 0, ac_client = 0, ac_pending = [128, 0, 0, 0]\<rparr>"
  obtain g where g: "gate_inv g" "gate_view g = [5 \<mapsto> \<lparr>ac_agent = 0, ac_client = 0, ac_pending = []\<rparr>]"
    "head_of g = head_of (sample_gate 0 4)" using accepted [of 4 0] by auto
  have hs: "gt_header_size g = 4" using head_eq [OF g(3)] by simp
  have b: "be_nat [128, 0, 0, 0] = 2 ^ 31" by (simp add: be_nat_def)
  have "unframe fw 4 [128, 0, 0, 0] = ([], [128, 0, 0, 0], False)" for fw
    using b by (subst unframe.simps) simp
  then have "spec_data (head_of g) (gate_view g) 5 [128, 0, 0, 0] = ([5 \<mapsto> ?a], [])"
    using g(2) hs by (simp add: close_calls_def)
  then obtain g1 where g1: "gate_inv g1" "gate_view g1 = [5 \<mapsto> ?a]" "head_of g1 = head_of g"
    using on_data_ok [OF g(1), of "data_msg 5 [128, 0, 0, 0]"]
    by (auto simp: simulates_def data_msg_def simp del: spec_data.simps)
  have "gt_header_size g1 = 4" using head_eq [OF g1(3)] hs by simp
  then show ?thesis using gate_huge_length_stalls [OF g1(1), of 5 ?a "[1, 2, 3]"] g1(2) b by auto
qed

lemma start_listen_ok:
  "if fst (start_listen listen g b)
   then \<exists>l. fst (snd (start_listen listen g b)) = g\<lparr>gt_listen_id := l\<rparr> \<and> 0 \<le> l \<and> snd (snd (start_listen listen g b)) = [Socket_start l]
   else \<forall>i. Socket_start i \<notin> set (snd (snd (start_listen listen g b)))"
  by (auto simp: start_listen_def Let_def)

lemma gate_init_cases:
  "(\<not> fst (gate_init query listen g p) \<and> (\<forall>i. Socket_start i \<notin> set (snd (snd (gate_init query listen g p)))))
   \<or> (\<exists>w t hs n b. 0 < n \<and> (hs = 2 \<or> hs = 4) \<and> gate_init query listen g p =
        start_listen listen (g\<lparr>gt_watchdog := w, gt_hash := hashid_init n, gt_conn := replicate n zero_connection,
          gt_max := n, gt_client_tag := t, gt_header_size := hs\<rparr>) b)"
proof (cases "Option.bind p scan_parm")
  case None
  then show ?thesis by (cases p) (auto simp: gate_init_def)
next
  case (Some r)
  obtain header watchdog binding client_tag max_conn where r: "r = (header, watchdog, binding, client_tag, max_conn)"
    by (cases r)
  obtain q where q: "p = Some q" "scan_parm q = Some (header, watchdog, binding, client_tag, max_conn)"
    using Some r by (cases p) auto
  let ?w = "if hd watchdog = CHR ''!'' then 0 else query watchdog"
  show ?thesis
  proof (cases "max_conn \<le> 0 \<or> (header \<noteq> CHR ''S'' \<and> header \<noteq> CHR ''L'') \<or> (hd watchdog \<noteq> CHR ''!'' \<and> ?w = 0)")
    case True
    then show ?thesis using q by (auto simp: gate_init_def Let_def)
  next
    case False
    then have c: "0 < max_conn" "hd watchdog = CHR ''!'' \<or> query watchdog \<noteq> 0"
      and c2: "header = CHR ''S'' \<or> header = CHR ''L''" by auto
    have "gate_init query listen g p = start_listen listen (g\<lparr>gt_watchdog := ?w, gt_hash := hashid_init (nat max_conn),
        gt_conn := replicate (nat max_conn) zero_connection, gt_max := nat max_conn,
        gt_client_tag := (if client_tag = 0 then PTYPE_CLIENT else of_int client_tag),
        gt_header_size := (if header = CHR ''S'' then 2 else 4)\<rparr>) binding"
      using q c c2 by (cases "header = CHR ''S''"; cases "hd watchdog = CHR ''!''") (simp_all add: gate_init_def Let_def)
    moreover have "0 < nat max_conn" using c(1) by simp
    moreover have "(if header = CHR ''S'' then 2 else 4) = (2::nat) \<or> (if header = CHR ''S'' then 2 else 4) = (4::nat)" by simp
    ultimately show ?thesis by blast
  qed
qed

text \<open>Initialisation: \<open>gate_init\<close> on a new gate: when it returns 0 the gate satisfies its invariant, has no
  connection, room for as many as the parameter says, headers of 2 or 4 bytes and listens on the
  socket that it starts; the last call is that start. When it fails, it does not start a socket.\<close>

theorem gate_init_establishes:
  assumes "gate_init query listen gate_create p = (ok, g, calls)"
  shows "if ok then gate_inv g \<and> gate_view g = Map.empty \<and> 0 < gt_max g \<and> 0 \<le> gt_listen_id g
      \<and> calls = [Socket_start (gt_listen_id g)]
    else \<forall>i. Socket_start i \<notin> set calls"
proof (cases "fst (gate_init query listen gate_create p) \<or> (\<exists>i. Socket_start i \<in> set (snd (snd (gate_init query listen gate_create p))))")
  case False
  then show ?thesis using assms by simp
next
  case True
  then obtain w t hs n b where n: "0 < n" "hs = 2 \<or> hs = 4"
    and i: "gate_init query listen gate_create p = start_listen listen (gate_create\<lparr>gt_watchdog := w,
      gt_hash := hashid_init n, gt_conn := replicate n zero_connection, gt_max := n, gt_client_tag := t, gt_header_size := hs\<rparr>) b"
    using gate_init_cases [of query listen gate_create p] by metis
  let ?g = "gate_create\<lparr>gt_watchdog := w, gt_hash := hashid_init n, gt_conn := replicate n zero_connection,
    gt_max := n, gt_client_tag := t, gt_header_size := hs\<rparr>"
  have st: "start_listen listen ?g b = (ok, g, calls)" using i assms by simp
  show ?thesis
  proof (cases ok)
    case True
    then obtain l where l: "g = ?g\<lparr>gt_listen_id := l\<rparr>" "0 \<le> l" "calls = [Socket_start l]"
      using start_listen_ok [of listen ?g b] unfolding st by auto
    have f: "gate_inv (?g\<lparr>gt_listen_id := l\<rparr>)" "gate_view (?g\<lparr>gt_listen_id := l\<rparr>) = Map.empty"
      by (rule fresh_gate [where n = n]; use n(2) in \<open>simp add: gate_create_def\<close>)+
    show ?thesis unfolding l(1) using True f l(2,3) n(1) by simp
  next
    case False
    then show ?thesis using start_listen_ok [of listen ?g b] unfolding st by simp
  qed
qed

theorem gate_init_establishes_witness:
  "\<exists>g. gate_init (\<lambda>s. 0) (\<lambda>h p. 3) gate_create (Some ''S ! 127.0.0.1:8888 0 64'') = (True, g, [Socket_start 3])
     \<and> gate_inv g \<and> gt_listen_id g = 3"
proof -
  have sp: "scan_parm ''S ! 127.0.0.1:8888 0 64'' = Some (CHR ''S'', ''!'', ''127.0.0.1:8888'', 0, 64)" by code_simp
  have po: "to_int32 (strtol10 ''8888'') = 8888" by code_simp
  obtain g where g: "gate_init (\<lambda>s. 0) (\<lambda>h p. 3) gate_create (Some ''S ! 127.0.0.1:8888 0 64'') = (True, g, [Socket_start 3])"
    by (simp add: gate_init_def sp start_listen_def Let_def po)
  show ?thesis using gate_init_establishes [OF g] g by (auto simp del: gate_inv_def)
qed

section \<open>Text commands\<close>

lemma forward_agent_ok:
  assumes inv: "gate_inv g"
  shows "\<exists>g'. forward_agent g i a c = Some g' \<and> gate_inv g' \<and> head_of g' = head_of g
    \<and> gate_view g' = (gate_view g)(i := map_option (\<lambda>ac. ac\<lparr>ac_agent := a, ac_client := c\<rparr>) (gate_view g i))"
proof (cases "slot_of (gt_hash g) i")
  case None
  then have "gate_view g i = None" by (simp add: gate_view_def)
  then have "(gate_view g)(i := map_option (\<lambda>ac. ac\<lparr>ac_agent := a, ac_client := c\<rparr>) (gate_view g i)) = gate_view g"
    by auto
  then show ?thesis using inv None lookup_view [OF inv, of i] by (simp add: forward_agent_def)
next
  case (Some x)
  have x: "x < gt_max g" "x < length (gt_conn g)" using slot_less [OF inv Some] inv by (auto simp: gate_inv_def)
  let ?c = "(gt_conn g ! x)\<lparr>c_agent := a, c_client := c\<rparr>"
  let ?g = "g\<lparr>gt_conn := (gt_conn g)[x := ?c]\<rparr>"
  have cb: "(c_buffer ?c, gt_mp g) = buf_of g x" by (simp add: buf_of_def)
  have ok: "conn_ok (gt_header_size g) (c_buffer ?c, gt_mp g)" using inv x(1) unfolding cb by (simp add: gate_inv_def)
  have fr: "frame (buf_of g x) (c_buffer ?c, gt_mp g)" unfolding cb by simp
  have hd: "head_of ?g = head_of g" by (simp add: gate_head.truncate_def)
  have old: "hash_inv (gt_hash g)" "hi_cap (gt_hash g) = gt_max g"
    "\<And>j y. slot_of (gt_hash g) j = Some y \<Longrightarrow> c_id (gt_conn g ! y) = j"
    "\<And>y. y < gt_max g \<Longrightarrow> y \<notin> ran (slot_of (gt_hash g)) \<Longrightarrow> gt_conn g ! y = zero_connection"
    using inv by (auto simp: gate_inv_def)
  have id': "c_id (gt_conn ?g ! y) = j" if "slot_of (gt_hash ?g) j = Some y" for j y
    using that old(3) [of j y] old(3) [OF Some] x(2) by (cases "y = x") auto
  have xr: "x \<in> ran (slot_of (gt_hash g))" using Some by (rule ranI)
  have zr: "gt_conn ?g ! y = zero_connection" if "y < gt_max g" "y \<notin> ran (slot_of (gt_hash ?g))" for y
    using that old(4) [of y] xr by (cases "y = x") auto
  note s = gate_step [OF inv x(1) ok fr, of ?g]
  have gi: "gate_inv ?g" by (rule s(1)) (use old(1,2) hd id' zr in simp_all)
  have other: "aconn_of ?g y = aconn_of g y" if "y < gt_max g" "y \<noteq> x" for y
    by (rule s(2)) (use old(1,2) hd id' zr that in simp_all)
  have mine: "aconn_of ?g x = \<lparr>ac_agent = c_agent ?c, ac_client = c_client ?c, ac_pending = pend (gt_header_size g) (c_buffer ?c, gt_mp g)\<rparr>"
    by (rule s(3)) (use old(1,2) hd id' zr in simp_all)
  have "gate_view ?g = (gate_view g)(i := map_option (aconn_of ?g) (slot_of (gt_hash ?g) i))"
    by (rule view_step [OF inv, of x]) (erule (1) other, simp, rule slot_inj [OF inv _ Some])
  moreover have "aconn_of ?g x = (aconn_of g x)\<lparr>ac_agent := a, ac_client := c\<rparr>"
    unfolding mine unfolding cb by (simp add: aconn_of_def)
  ultimately have "gate_view ?g = (gate_view g)(i := map_option (\<lambda>ac. ac\<lparr>ac_agent := a, ac_client := c\<rparr>) (gate_view g i))"
    using Some by (simp add: gate_view_def)
  moreover have "forward_agent g i a c = Some ?g" using lookup_view [OF inv, of i] Some by (simp add: forward_agent_def)
  ultimately show ?thesis using gi hd by blast
qed

text \<open>A change of the head that leaves the sizes alone.\<close>

lemma head_change:
  assumes "gate_inv g"
  shows "gate_inv (g\<lparr>gt_broker := b\<rparr>)" "gate_view (g\<lparr>gt_broker := b\<rparr>) = gate_view g"
    "gate_inv (g\<lparr>gt_listen_id := l\<rparr>)" "gate_view (g\<lparr>gt_listen_id := l\<rparr>) = gate_view g"
proof -
  have b: "buf_of (g\<lparr>gt_broker := b\<rparr>) = buf_of g" "buf_of (g\<lparr>gt_listen_id := l\<rparr>) = buf_of g"
    by (rule ext, simp add: buf_of_def)+
  have a: "aconn_of (g\<lparr>gt_broker := b\<rparr>) = aconn_of g" "aconn_of (g\<lparr>gt_listen_id := l\<rparr>) = aconn_of g"
    by (rule ext, simp add: aconn_of_def b)+
  show "gate_inv (g\<lparr>gt_broker := b\<rparr>)" "gate_inv (g\<lparr>gt_listen_id := l\<rparr>)" using assms by (simp_all add: gate_inv_def b)
  show "gate_view (g\<lparr>gt_broker := b\<rparr>) = gate_view g" "gate_view (g\<lparr>gt_listen_id := l\<rparr>) = gate_view g"
    by (rule ext, simp add: gate_view_def a)+
qed

text \<open>\<open>keeps\<close>: the command succeeds, keeps the invariant and the bytes that wait on every connection.\<close>

definition keeps :: "gate \<Rightarrow> (gate \<times> gate_call list) option \<Rightarrow> bool" where
  "keeps g r \<longleftrightarrow> (\<exists>g' calls. r = Some (g', calls) \<and> gate_inv g'
     \<and> (\<forall>i. map_option ac_pending (gate_view g' i) = map_option ac_pending (gate_view g i)))"

lemma keeps_same: "gate_inv g \<Longrightarrow> keeps g (Some (g, calls))"
  by (simp add: keeps_def)

lemma ctrl_keeps:
  assumes inv: "gate_inv g" and z: "CHR 0x00 \<notin> set msg"
  shows "keeps g (ctrl query g msg)"
proof (cases "msg = []")
  case True
  then show ?thesis using inv by (simp add: ctrl_def keeps_same)
next
  case False
  let ?i = "length (takeWhile (\<lambda>c. c \<noteq> CHR '' '') msg)" and ?tmp = "msg @ [CHR 0x00]"
  have "CHR 0x00 \<notin> set (take ?i msg)" using z by (meson in_set_takeD)
  then have "\<And>lit. \<exists>b. word_is (take ?i msg) lit = Some b" by (rule word_is_Some)
  then obtain k f b s c where w: "word_is (take ?i msg) ''kick'' = Some k" "word_is (take ?i msg) ''forward'' = Some f"
    "word_is (take ?i msg) ''broker'' = Some b" "word_is (take ?i msg) ''start'' = Some s"
    "word_is (take ?i msg) ''close'' = Some c" by metis
  have kick: "keeps g (ctrl_kick g buf)" "keeps g (ctrl_start g buf)" for buf
    using inv by (simp_all add: ctrl_kick_def ctrl_start_def Let_def lookup_view keeps_same)
  have fa: "keeps g (map_option (\<lambda>g. (g, [])) (forward_agent g i a c))" for i a c
  proof -
    obtain g' where g': "forward_agent g i a c = Some g'" "gate_inv g'"
      "gate_view g' = (gate_view g)(i := map_option (\<lambda>ac. ac\<lparr>ac_agent := a, ac_client := c\<rparr>) (gate_view g i))"
      using forward_agent_ok [OF inv] by blast
    have "map_option ac_pending (gate_view g' j) = map_option ac_pending (gate_view g j)" for j
      unfolding g'(3) by (cases "gate_view g j") auto
    then show ?thesis using g'(1,2) by (simp add: keeps_def)
  qed
  have forward: "keeps g (ctrl_forward g buf)" for buf
    using inv by (auto simp: ctrl_forward_def Let_def keeps_same fa split: prod.split option.split)
  have close: "keeps g (Some (ctrl_close g))"
    using inv head_change [OF inv] by (auto simp: ctrl_close_def keeps_same) (auto simp: keeps_def)
  have broker: "keeps g (Some (g\<lparr>gt_broker := q\<rparr>, []))" for q
    using head_change [OF inv] by (auto simp: keeps_def)
  show ?thesis using False w kick forward close broker inv
    by (cases k; cases f; cases b; cases s; cases c) (simp_all add: ctrl_def Let_def keeps_same)
qed

fun msg_ok :: "gate \<Rightarrow> gate_msg \<Rightarrow> bool" where
  "msg_ok g (Text_msg s) = (CHR 0x00 \<notin> set s)"
| "msg_ok g (Socket_msg m name) = (spec_event (head_of g) (gate_view g) m name \<noteq> None)"
| "msg_ok g msg = True"



text \<open>The pieces that \<open>strsep\<close> and \<open>strtol\<close> see.\<close>

lemma strsep_at:
  assumes "CHR 0x00 \<notin> set w" "CHR '' '' \<notin> set w"
  shows "strsep_space (pre @ w @ CHR '' '' # rest) (length pre) =
    (pre @ w @ CHR 0x00 # rest, Some (length pre + length w + 1))"
proof -
  have "takeWhile (\<lambda>c. c \<noteq> CHR 0x00 \<and> c \<noteq> CHR '' '') (w @ CHR '' '' # rest) = w"
    using assms by (subst takeWhile_append2) auto
  moreover have "(pre @ w @ CHR '' '' # rest)[length pre + length w := CHR 0x00] = pre @ w @ CHR 0x00 # rest"
    by (simp add: list_update_append)
  moreover have "(pre @ w @ CHR '' '' # rest) ! (length pre + length w) = CHR '' ''" by (simp add: nth_append)
  ultimately show ?thesis by (simp add: strsep_space_def Let_def)
qed

lemma cstr_at:
  "CHR 0x00 \<notin> set w \<Longrightarrow> n = length pre \<Longrightarrow> cstr (pre @ w @ CHR 0x00 # rest) n = w"
  by (auto simp: cstr_def takeWhile_append)

lemma plain_chars: "plain s \<Longrightarrow> CHR '' '' \<notin> set s"
proof -
  have "is_space (CHR '' '')" by code_simp
  then show "plain s \<Longrightarrow> CHR '' '' \<notin> set s" unfolding plain_def by blast
qed

lemma digits_no_zero:
  assumes "2 \<le> b" "b \<le> 16"
  shows "CHR 0x00 \<notin> set (radix b n)"
proof
  assume "CHR 0x00 \<in> set (radix b n)"
  then obtain v where v: "v < b" "CHR 0x00 = lower_digit v" using radix_digits [OF assms] by blast
  have "list_all (\<lambda>n. lower_digit n \<noteq> CHR 0x00) [0..<16]" by code_simp
  then have "\<forall>n < 16. lower_digit n \<noteq> CHR 0x00" unfolding list_all_iff by (auto simp only: set_upt atLeastLessThan_iff simp_thms le0)
  then show False using v assms by (metis order_less_le_trans)
qed

lemma fmt_08x_text: "CHR 0x00 \<notin> set (fmt_08x w)" "CHR '' '' \<notin> set (fmt_08x w)"
proof -
  show "CHR 0x00 \<notin> set (fmt_08x w)" using digits_no_zero [of 16] by (auto simp: fmt_08x_def fmt_x_def Let_def)
  show "CHR '' '' \<notin> set (fmt_08x w)" by (rule plain_chars [OF fmt_08x_plain])
qed

lemma fmt_d_text:
  "0 \<le> i \<Longrightarrow> CHR 0x00 \<notin> set (fmt_d i)" "0 \<le> i \<Longrightarrow> CHR '' '' \<notin> set (fmt_d i)" "0 \<le> i \<Longrightarrow> fmt_d i \<noteq> []"
proof -
  assume i: "0 \<le> i"
  show "CHR 0x00 \<notin> set (fmt_d i)" using digits_no_zero [of 10] i by (simp add: fmt_d_def)
  show "CHR '' '' \<notin> set (fmt_d i)" using plain_chars [OF radix_plain [of 10]] i by (simp add: fmt_d_def)
  show "fmt_d i \<noteq> []" using i radix.simps [of 10 "nat i"] by (simp add: fmt_d_def)
qed

lemma parm_forward:
  assumes "d \<noteq> []" "hd d \<noteq> CHR '' ''"
  shows "\<exists>tail. parm ((''forward '' @ d) @ [CHR 0x00]) (length (''forward '' @ d)) 7 = d @ CHR 0x00 # tail"
proof -
  obtain x e where d: "d = x # e" "x \<noteq> CHR '' ''" using assms by (cases d) auto
  have t: "take (length (''forward '' @ d)) ((''forward '' @ d) @ [CHR 0x00]) = ''forward '' @ d" by simp
  have k: "takeWhile (\<lambda>c. c = CHR '' '') (drop 7 (''forward '' @ d)) = '' ''" using d by simp
  show ?thesis unfolding parm_def t k Let_def by simp
qed

lemma word_forward:
  assumes "msg = ''forward '' @ d"
  shows "take 7 msg = ''forward''"
    "length (takeWhile (\<lambda>c. c \<noteq> CHR '' '') msg) = 7"
    "word_is ''forward'' ''kick'' = Some False" "word_is ''forward'' ''forward'' = Some True"
  by (simp_all add: assms word_is_def)

text \<open>The command \<open>forward\<close> with the id of a connection and the two handles as the Lua services print
  them (\<open>forward 5 :0100000a :0100000b\<close>) is parsed back to exactly these values: the connection gets
  the agent and the client, no other connection changes, and an unknown id changes nothing.\<close>

theorem gate_forward_command:
  assumes "gate_inv g" "0 \<le> i" "i < 2 ^ 31"
  shows "\<exists>g'. ctrl query g (''forward '' @ fmt_d i @ '' :'' @ fmt_08x a @ '' :'' @ fmt_08x c) = Some (g', [])
    \<and> gate_inv g' \<and> gate_view g' = (gate_view g)(i := map_option (\<lambda>ac. ac\<lparr>ac_agent := a, ac_client := c\<rparr>) (gate_view g i))"
proof -
  note z = fmt_08x_text [of a] fmt_08x_text [of c] fmt_d_text [OF assms(2)]
  let ?A = "'':'' @ fmt_08x a" and ?C = "'':'' @ fmt_08x c" and ?D = "fmt_d i"
  let ?d = "?D @ CHR '' '' # ?A @ CHR '' '' # ?C" and ?msg = "''forward '' @ fmt_d i @ '' :'' @ fmt_08x a @ '' :'' @ fmt_08x c"
  have msg: "?msg = ''forward '' @ ?d" by simp
  have "?d \<noteq> []" "hd ?d \<noteq> CHR '' ''" using z by (simp_all, metis hd_append2 hd_in_set)
  from parm_forward [OF this] obtain tail where p:
    "parm (?msg @ [CHR 0x00]) (length ?msg) 7 = ?d @ CHR 0x00 # tail" unfolding msg by blast
  define buf where "buf = ?d @ CHR 0x00 # tail"
  let ?b1 = "?D @ CHR 0x00 # ?A @ CHR '' '' # ?C @ CHR 0x00 # tail"
  let ?b2 = "?D @ CHR 0x00 # ?A @ CHR 0x00 # ?C @ CHR 0x00 # tail"
  have s1: "strsep_space buf 0 = (?b1, Some (length ?D + 1))"
    using strsep_at [of ?D "[]" "?A @ CHR '' '' # ?C @ CHR 0x00 # tail"] z by (simp add: buf_def)
  have s2: "strsep_space ?b1 (length ?D + 1) = (?b2, Some (length ?D + 1 + length ?A + 1))"
    using strsep_at [of ?A "?D @ [CHR 0x00]" "?C @ CHR 0x00 # tail"] z by simp
  have c0: "cstr ?b1 0 = ?D" using cstr_at [of ?D 0 "[]" "?A @ CHR '' '' # ?C @ CHR 0x00 # tail"] z by simp
  have c1: "cstr ?b2 (length ?D + 1 + 1) = fmt_08x a"
    using cstr_at [of "fmt_08x a" "length ?D + 2" "?D @ CHR 0x00 # '':''" "?C @ CHR 0x00 # tail"] z by simp
  have c2: "cstr ?b2 (length ?D + 1 + length ?A + 1 + 1) = fmt_08x c"
    using cstr_at [of "fmt_08x c" "length ?D + 1 + length ?A + 1 + 1" "?D @ CHR 0x00 # ?A @ CHR 0x00 # '':''" tail] z by simp
  have i: "to_int32 (strtol10 ?D) = i" using assms(2,3) strtol10_fmt_d [of i] by (simp add: to_int32_small)
  have "ctrl_forward g buf = map_option (\<lambda>g. (g, [])) (forward_agent g i a c)"
    unfolding ctrl_forward_def s1 Let_def prod.case option.case s2 c0 c1 c2 i strtoul16_fmt_08x by simp
  moreover have "ctrl query g ?msg = ctrl_forward g buf"
  proof -
    have "?msg \<noteq> []" by simp
    then show ?thesis unfolding ctrl_def Let_def word_forward [OF msg] p buf_def [symmetric] by simp
  qed
  moreover obtain g' where "forward_agent g i a c = Some g'" "gate_inv g'"
    "gate_view g' = (gate_view g)(i := map_option (\<lambda>ac. ac\<lparr>ac_agent := a, ac_client := c\<rparr>) (gate_view g i))"
    using forward_agent_ok [OF assms(1)] by blast
  ultimately show ?thesis by simp
qed

theorem gate_forward_command_witness:
  "\<exists>g g'. ctrl (\<lambda>s. 0) g (''forward '' @ fmt_d 5 @ '' :'' @ fmt_08x 10 @ '' :'' @ fmt_08x 11) = Some (g', [])
    \<and> gate_view g' = [5 \<mapsto> \<lparr>ac_agent = 10, ac_client = 11, ac_pending = []\<rparr>]"
proof -
  obtain g where g: "gate_inv g" "gate_view g = [5 \<mapsto> \<lparr>ac_agent = 0, ac_client = 0, ac_pending = []\<rparr>]"
    using accepted [of 2 7] by auto
  then show ?thesis using gate_forward_command [OF g(1), of 5 "\<lambda>s. 0" 10 11] by auto
qed

end
