(* ===== verification/NetPack.thy ===== *)
theory NetPack
  imports Skynet_H Bytes
begin

text \<open>
  \<open>lualib-src/lua-netpack.c\<close>: the module with which Lua services cut the data of sockets into packages
  with a 2 byte header. The userdata on the Lua stack is an optional queue (\<open>None\<close> before the first
  use); what the functions push for the Lua caller is their result. A bucket of the hash table is
  the list of its unfinished packages; the buffer of one holds the bytes read so far. \<open>None\<close> is a
  failed assertion or an access outside a buffer.
\<close>

section \<open>Data\<close>

definition QUEUESIZE :: nat where "QUEUESIZE = 1024"
definition HASHSIZE :: nat where "HASHSIZE = 4096"

record netpack =
  np_id :: int
  np_size :: nat
  np_buffer :: bytes

record uncomplete =
  uc_id :: int
  uc_size :: nat
  uc_buffer :: bytes
  uc_read :: int
  uc_header :: nat

record nqueue =
  nq_cap :: nat
  nq_head :: nat
  nq_tail :: nat
  nq_hash :: "uncomplete list list"
  nq_queue :: "netpack list"

definition no_pack :: netpack where
  "no_pack = \<lparr>np_id = 0, np_size = 0, np_buffer = []\<rparr>"

text \<open>\<open>lclear\<close>: the buffers it frees, in order, and the queue.\<close>

definition lclear :: "nqueue option \<Rightarrow> bytes list \<times> nqueue option" where
  "lclear q =
     (case q of None \<Rightarrow> ([], None)
      | Some q \<Rightarrow>
          (let tail = (if nq_head q > nq_tail q then nq_tail q + nq_cap q else nq_tail q)
           in (concat (map (map uc_buffer) (nq_hash q))
               @ map (\<lambda>i. np_buffer (nq_queue q ! (i mod nq_cap q))) [nq_head q..<tail],
               Some (q\<lparr>nq_hash := replicate HASHSIZE [], nq_head := 0, nq_tail := 0\<rparr>))))"

text \<open>\<open>hash_fd\<close>: the shifts of a C \<open>int\<close> are arithmetic.\<close>

definition hash_fd :: "int \<Rightarrow> nat" where
  "hash_fd fd = nat ((drop_bit 24 fd + drop_bit 12 fd + fd) mod 2 ^ 32 mod int HASHSIZE)"

text \<open>Both branches of \<open>find_uncomplete\<close> unlink the first package of the socket from its bucket.\<close>

fun unlink :: "int \<Rightarrow> uncomplete list \<Rightarrow> uncomplete option \<times> uncomplete list" where
  "unlink fd [] = (None, [])"
| "unlink fd (uc # ucs) =
     (if uc_id uc = fd then (Some uc, ucs) else (let (r, us) = unlink fd ucs in (r, uc # us)))"

definition find_uncomplete :: "nqueue option \<Rightarrow> int \<Rightarrow> uncomplete option \<times> nqueue option" where
  "find_uncomplete q fd =
     (case q of None \<Rightarrow> (None, None)
      | Some q \<Rightarrow>
          (let h = hash_fd fd; (r, ucs) = unlink fd (nq_hash q ! h)
           in (r, Some (q\<lparr>nq_hash := (nq_hash q)[h := ucs]\<rparr>))))"

definition get_queue :: "nqueue option \<Rightarrow> nqueue" where
  "get_queue q =
     (case q of Some q \<Rightarrow> q
      | None \<Rightarrow> \<lparr>nq_cap = QUEUESIZE, nq_head = 0, nq_tail = 0, nq_hash = replicate HASHSIZE [],
          nq_queue = replicate QUEUESIZE no_pack\<rparr>)"

definition np_expand_queue :: "nqueue \<Rightarrow> nqueue" where
  "np_expand_queue q =
     \<lparr>nq_cap = nq_cap q + QUEUESIZE, nq_head = 0, nq_tail = nq_cap q, nq_hash = nq_hash q,
      nq_queue = map (\<lambda>i. nq_queue q ! ((nq_head q + i) mod nq_cap q)) [0..<nq_cap q] @ replicate QUEUESIZE no_pack\<rparr>"

text \<open>\<open>push_data\<close>; a copy and the original buffer are the same bytes.\<close>

definition push_data :: "nqueue option \<Rightarrow> int \<Rightarrow> bytes \<Rightarrow> nqueue" where
  "push_data q fd buffer =
     (let q = get_queue q;
          q = q\<lparr>nq_queue := (nq_queue q)[nq_tail q := \<lparr>np_id = fd, np_size = length buffer, np_buffer = buffer\<rparr>]\<rparr>;
          tail = nq_tail q + 1;
          q = q\<lparr>nq_tail := (if tail \<ge> nq_cap q then tail - nq_cap q else tail)\<rparr>
      in if nq_head q = nq_tail q then np_expand_queue q else q)"

text \<open>\<open>save_uncomplete\<close> and what its callers store into the new package.\<close>

definition save_uncomplete :: "nqueue option \<Rightarrow> uncomplete \<Rightarrow> nqueue" where
  "save_uncomplete q uc =
     (let q = get_queue q; h = hash_fd (uc_id uc)
      in q\<lparr>nq_hash := (nq_hash q)[h := uc # nq_hash q ! h]\<rparr>)"

definition save_header :: "nqueue option \<Rightarrow> int \<Rightarrow> u8 \<Rightarrow> nqueue" where
  "save_header q fd b =
     save_uncomplete q \<lparr>uc_id = fd, uc_size = 0, uc_buffer = [], uc_read = -1, uc_header = unat b\<rparr>"

definition save_part :: "nqueue option \<Rightarrow> int \<Rightarrow> nat \<Rightarrow> bytes \<Rightarrow> nqueue" where
  "save_part q fd pack_size buffer =
     save_uncomplete q \<lparr>uc_id = fd, uc_size = pack_size, uc_buffer = buffer, uc_read = int (length buffer), uc_header = 0\<rparr>"

definition read_size :: "bytes \<Rightarrow> nat" where
  "read_size buffer = unat (be16 (buffer ! 0) (buffer ! 1))"

function push_more :: "nqueue option \<Rightarrow> int \<Rightarrow> bytes \<Rightarrow> nqueue option" where
  "push_more q fd buffer =
     (if buffer = [] then None
      else if length buffer = 1 then Some (save_header q fd (hd buffer))
      else (let pack_size = read_size buffer; buffer' = drop 2 buffer
        in if length buffer' < pack_size then Some (save_part q fd pack_size buffer')
           else (let q = push_data q fd (take pack_size buffer'); rest = drop pack_size buffer'
             in if rest \<noteq> [] then push_more (Some q) fd rest else Some q)))"
  by pat_completeness auto
termination by (relation "measure (\<lambda>(q, fd, buffer). length buffer)") auto

declare push_more.simps [simp del]

definition close_uncomplete :: "nqueue option \<Rightarrow> int \<Rightarrow> nqueue option" where
  "close_uncomplete q fd = snd (find_uncomplete q fd)"

text \<open>What \<open>filter\<close> returns to Lua after the queue.\<close>

datatype filter_result =
  Nothing
| Data_pack int bytes
| More
| Error_event int string
| Open_event int string
| Close_event int
| Warning_event int int

text \<open>The bytes \<open>bs\<close> go into the buffer of an unfinished package at the offset \<open>read\<close>.\<close>

definition fill :: "uncomplete \<Rightarrow> bytes \<Rightarrow> uncomplete option" where
  "fill uc bs =
     (if uc_read uc = int (length (uc_buffer uc)) \<and> length (uc_buffer uc) + length bs \<le> uc_size uc
      then Some (uc\<lparr>uc_buffer := uc_buffer uc @ bs\<rparr>) else None)"

definition filter_fill :: "nqueue option \<Rightarrow> int \<Rightarrow> uncomplete \<Rightarrow> bytes \<Rightarrow> (filter_result \<times> nqueue option) option" where
  "filter_fill q fd uc buffer =
     (let need = uc_size uc - nat (uc_read uc)
      in if length buffer < need then
           (case (fill uc buffer, q) of
              (Some uc, Some q) \<Rightarrow>
                (let uc = uc\<lparr>uc_read := uc_read uc + int (length buffer)\<rparr>; h = hash_fd fd
                 in Some (Nothing, Some (q\<lparr>nq_hash := (nq_hash q)[h := uc # nq_hash q ! h]\<rparr>)))
            | _ \<Rightarrow> None)
         else
           (case fill uc (take need buffer) of None \<Rightarrow> None
            | Some uc \<Rightarrow>
                (let rest = drop need buffer
                 in if rest = [] then Some (Data_pack fd (take (uc_size uc) (uc_buffer uc)), q)
                    else map_option (\<lambda>q. (More, Some q)) (push_more (Some (push_data q fd (uc_buffer uc))) fd rest))))"

definition filter_new :: "nqueue option \<Rightarrow> int \<Rightarrow> bytes \<Rightarrow> (filter_result \<times> nqueue option) option" where
  "filter_new q fd buffer =
     (if buffer = [] then None
      else if length buffer = 1 then Some (Nothing, Some (save_header q fd (hd buffer)))
      else (let pack_size = read_size buffer; buffer = drop 2 buffer
        in if length buffer < pack_size then Some (Nothing, Some (save_part q fd pack_size buffer))
           else if length buffer = pack_size then Some (Data_pack fd buffer, q)
           else map_option (\<lambda>q. (More, Some q))
             (push_more (Some (push_data q fd (take pack_size buffer))) fd (drop pack_size buffer))))"

definition filter_data :: "nqueue option \<Rightarrow> int \<Rightarrow> bytes \<Rightarrow> (filter_result \<times> nqueue option) option" where
  "filter_data q fd buffer =
     (case find_uncomplete q fd of
        (Some uc, q) \<Rightarrow>
          if uc_read uc < 0 then
            (if uc_read uc \<noteq> -1 \<or> buffer = [] then None
             else filter_fill q fd (uc\<lparr>uc_size := unat (be16 (of_nat (uc_header uc)) (hd buffer)), uc_buffer := [],
                    uc_read := 0\<rparr>) (tl buffer))
          else filter_fill q fd uc buffer
      | (None, q) \<Rightarrow> filter_new q fd buffer)"

text \<open>\<open>lfilter\<close>; \<open>text\<close> is the string that follows the record of some messages.\<close>

definition lfilter :: "nqueue option \<Rightarrow> socket_message \<Rightarrow> string \<Rightarrow> (filter_result \<times> nqueue option) option" where
  "lfilter q m text =
     (if sm_type m = SOCKET_DATA then filter_data q (sm_id m) (sm_buffer m)
      else if sm_type m = SOCKET_CONNECT then Some (Nothing, q)
      else if sm_type m = SOCKET_CLOSE then Some (Close_event (sm_id m), close_uncomplete q (sm_id m))
      else if sm_type m = SOCKET_ACCEPT then Some (Open_event (sm_ud m) text, q)
      else if sm_type m = SOCKET_ERROR then Some (Error_event (sm_id m) text, close_uncomplete q (sm_id m))
      else if sm_type m = SOCKET_WARNING then Some (Warning_event (sm_id m) (sm_ud m), q)
      else Some (Nothing, q))"

definition lpop :: "nqueue option \<Rightarrow> (int \<times> bytes) option \<times> nqueue option" where
  "lpop q =
     (case q of None \<Rightarrow> (None, None)
      | Some q \<Rightarrow>
          if nq_head q = nq_tail q then (None, Some q)
          else (let np = nq_queue q ! nq_head q; head = nq_head q + 1
            in (Some (np_id np, take (np_size np) (np_buffer np)),
                Some (q\<lparr>nq_head := (if head \<ge> nq_cap q then 0 else head)\<rparr>))))"

definition write_size :: "nat \<Rightarrow> bytes" where
  "write_size len = [of_nat (len div 256 mod 256), of_nat (len mod 256)]"

definition lpack :: "bytes \<Rightarrow> bytes option" where
  "lpack ptr = (if length ptr \<ge> 0x10000 then None else Some (write_size (length ptr) @ ptr))"

section \<open>The ring of packages\<close>

definition nq_wf :: "nqueue \<Rightarrow> bool" where
  "nq_wf q \<longleftrightarrow> length (nq_queue q) = nq_cap q \<and> nq_head q < nq_cap q \<and> nq_tail q < nq_cap q
     \<and> (\<forall>np \<in> set (nq_queue q). np_size np = length (np_buffer np))"

definition nq_list :: "nqueue \<Rightarrow> (int \<times> bytes) list" where
  "nq_list q = map (\<lambda>np. (np_id np, np_buffer np)) (ring (nq_queue q) (nq_head q) (ring_len (nq_cap q) (nq_head q) (nq_tail q)))"

definition nq_inv :: "nqueue option \<Rightarrow> bool" where
  "nq_inv q \<longleftrightarrow> (\<forall>p. q = Some p \<longrightarrow> nq_wf p)"

definition nq_packs :: "nqueue option \<Rightarrow> (int \<times> bytes) list" where
  "nq_packs q = (case q of None \<Rightarrow> [] | Some q \<Rightarrow> nq_list q)"

lemma get_queue_wf: "nq_inv q \<Longrightarrow> nq_wf (get_queue q) \<and> nq_list (get_queue q) = nq_packs q"
  by (cases q) (auto simp: nq_inv_def get_queue_def nq_packs_def nq_wf_def nq_list_def QUEUESIZE_def no_pack_def)

lemma push_data_ok:
  assumes "nq_inv q"
  shows "nq_wf (push_data q fd bs) \<and> nq_list (push_data q fd bs) = nq_packs q @ [(fd, bs)]
    \<and> nq_hash (push_data q fd bs) = nq_hash (get_queue q)"
proof -
  let ?g = "get_queue q"
  let ?xs = "nq_queue ?g" and ?h = "nq_head ?g" and ?t = "nq_tail ?g" and ?c = "nq_cap ?g"
  let ?n = "ring_len ?c ?h ?t" and ?t' = "Suc ?t mod ?c" and ?p = "\<lparr>np_id = fd, np_size = length bs, np_buffer = bs\<rparr>"
  let ?q = "?g\<lparr>nq_queue := ?xs[?t := ?p], nq_tail := ?t'\<rparr>" and ?f = "map (\<lambda>np. (np_id np, np_buffer np))"
  have w: "length ?xs = ?c" "?h < ?c" "?t < ?c" and l: "?f (ring ?xs ?h ?n) = nq_packs q"
    and sz: "\<forall>np \<in> set ?xs. np_size np = length (np_buffer np)"
    using get_queue_wf [OF assms] by (auto simp: nq_wf_def nq_list_def)
  have n: "?n < ?c" "(?h + ?n) mod ?c = ?t" using w by (auto intro: ring_len_bound ring_len_tail)
  have snoc: "ring (?xs[?t := ?p]) ?h (Suc ?n) = ring ?xs ?h ?n @ [?p]"
    using ring_snoc [of ?h ?xs ?n ?p] w n by simp
  have sz': "\<forall>np \<in> set (?xs[?t := ?p]). np_size np = length (np_buffer np)"
    using sz by (auto dest!: set_update_subset_insert [THEN subsetD])
  have wrap: "(if Suc ?t \<ge> ?c then Suc ?t - ?c else Suc ?t) = ?t'" using w(3) by (auto simp: mod_Suc)
  have put: "push_data q fd bs = (if ?h = ?t' then np_expand_queue ?q else ?q)"
    by (simp add: push_data_def Let_def wrap [symmetric])
  show ?thesis
  proof (cases "?h = ?t'")
    case False
    have "?t' < ?c" using w(2) by (intro mod_less_divisor) simp
    moreover have "ring_len ?c ?h ?t' = Suc ?n" using w False ring_len_push by metis
    ultimately show ?thesis
      using put False snoc w sz' l by (simp add: nq_wf_def nq_list_def)
  next
    case True
    then have full: "Suc ?n = ?c" using w by (intro ring_len_full) auto
    have rf: "map (\<lambda>i. ?xs[?t := ?p] ! ((?h + i) mod ?c)) [0..<?c] = ring ?xs ?h ?n @ [?p]"
      using snoc full w(1) by (simp add: ring_def)
    have len: "length (ring ?xs ?h ?n @ [?p]) = ?c" using full by simp
    have e: "np_expand_queue ?q = ?g\<lparr>nq_cap := ?c + QUEUESIZE, nq_head := 0, nq_tail := ?c,
        nq_queue := (ring ?xs ?h ?n @ [?p]) @ replicate QUEUESIZE no_pack\<rparr>"
      using rf by (simp add: np_expand_queue_def)
    have sub: "set (ring ?xs ?h ?n) \<subseteq> set ?xs" using w by (auto simp: ring_def)
    have wf: "nq_wf (np_expand_queue ?q)"
      unfolding e nq_wf_def using len sub sz by (auto simp: QUEUESIZE_def no_pack_def)
    have "nq_list (np_expand_queue ?q) = ?f (ring ((ring ?xs ?h ?n @ [?p]) @ replicate QUEUESIZE no_pack) 0 ?c)"
      unfolding e by (simp add: nq_list_def ring_len_def)
    also have "\<dots> = ?f (ring ?xs ?h ?n @ [?p])"
      using ring_append_take [of ?c "ring ?xs ?h ?n @ [?p]"] len by simp
    finally show ?thesis using put True wf l by (simp add: e)
  qed
qed

lemma lpop_ok:
  assumes "nq_inv q"
  shows "nq_packs q = [] \<Longrightarrow> lpop q = (None, q)"
    "nq_packs q = x # xs \<Longrightarrow> \<exists>q'. lpop q = (Some x, Some q') \<and> nq_wf q' \<and> nq_list q' = xs
       \<and> nq_hash q' = nq_hash (get_queue q)"
proof -
  show "nq_packs q = [] \<Longrightarrow> lpop q = (None, q)"
    using assms by (cases q) (auto simp: lpop_def nq_packs_def nq_list_def nq_inv_def nq_wf_def dest: arg_cong [where f = length])
  assume x: "nq_packs q = x # xs"
  then obtain p where p: "q = Some p" by (cases q) (auto simp: nq_packs_def)
  let ?h = "nq_head p" and ?c = "nq_cap p" and ?f = "map (\<lambda>np. (np_id np, np_buffer np))"
  have w: "length (nq_queue p) = ?c" "?h < ?c" "nq_tail p < ?c"
    "\<forall>np \<in> set (nq_queue p). np_size np = length (np_buffer np)"
    using assms p by (auto simp: nq_inv_def nq_wf_def)
  have ne: "?h \<noteq> nq_tail p" using x p by (auto simp: nq_packs_def nq_list_def)
  have len: "ring_len ?c ?h (nq_tail p) = Suc (ring_len ?c (Suc ?h mod ?c) (nq_tail p))"
    using w ne by (intro ring_len_pop)
  have sp: "nq_queue p ! ?h \<in> set (nq_queue p)" using w by simp
  have e: "x = (np_id (nq_queue p ! ?h), np_buffer (nq_queue p ! ?h))"
    "xs = ?f (ring (nq_queue p) (Suc ?h mod ?c) (ring_len ?c (Suc ?h mod ?c) (nq_tail p)))"
    using x p w len by (simp_all add: nq_packs_def nq_list_def ring_Cons)
  show "\<exists>q'. lpop q = (Some x, Some q') \<and> nq_wf q' \<and> nq_list q' = xs \<and> nq_hash q' = nq_hash (get_queue q)"
    using p ne w sp e wrap_index [OF w(2)]
    by (auto simp: lpop_def Let_def nq_wf_def nq_list_def get_queue_def)
qed

text \<open>The ring of packages is a queue.\<close>

interpretation npf: fifo "\<lambda>q x. Some (Some (push_data q (fst x) (snd x)))" "\<lambda>q. Some (lpop q)" nq_inv nq_packs
proof
  fix q x xs assume inv: "nq_inv q"
  show "\<exists>q'. Some (Some (push_data q (fst x) (snd x))) = Some q' \<and> nq_inv q' \<and> nq_packs q' = nq_packs q @ [x]"
    using push_data_ok [OF inv, of "fst x" "snd x"] by (simp add: nq_inv_def nq_packs_def)
  show "nq_packs q = [] \<Longrightarrow> \<exists>q'. Some (lpop q) = Some (None, q') \<and> nq_inv q' \<and> nq_packs q' = []"
    using lpop_ok(1) [OF inv] inv by simp
  show "nq_packs q = x # xs \<Longrightarrow> \<exists>q'. Some (lpop q) = Some (Some x, q') \<and> nq_inv q' \<and> nq_packs q' = xs"
    using lpop_ok(2) [OF inv, of x xs] by (auto simp: nq_inv_def nq_packs_def)
qed

section \<open>The table of unfinished packages\<close>

text \<open>The bytes that an unfinished package stands for.\<close>

definition uc_bytes :: "uncomplete \<Rightarrow> bytes" where
  "uc_bytes uc = (if uc_read uc = -1 then [of_nat (uc_header uc)] else be_bytes 2 (uc_size uc) @ uc_buffer uc)"

definition uc_ok :: "uncomplete \<Rightarrow> bool" where
  "uc_ok uc \<longleftrightarrow> (if uc_read uc = -1 then uc_header uc < 256
     else uc_read uc = int (length (uc_buffer uc)) \<and> length (uc_buffer uc) < uc_size uc \<and> uc_size uc < 65536)"

definition parts :: "nqueue option \<Rightarrow> int \<Rightarrow> uncomplete option" where
  "parts q fd = (case q of None \<Rightarrow> None | Some q \<Rightarrow> List.find (\<lambda>uc. uc_id uc = fd) (nq_hash q ! hash_fd fd))"

definition waiting :: "nqueue option \<Rightarrow> int \<Rightarrow> bytes" where
  "waiting q fd = (case parts q fd of None \<Rightarrow> [] | Some uc \<Rightarrow> uc_bytes uc)"

definition bucket_ok :: "nat \<Rightarrow> uncomplete list \<Rightarrow> bool" where
  "bucket_ok h ucs \<longleftrightarrow> (\<forall>uc \<in> set ucs. uc_ok uc \<and> hash_fd (uc_id uc) = h) \<and> distinct (map uc_id ucs)"

definition np_inv :: "nqueue option \<Rightarrow> bool" where
  "np_inv q \<longleftrightarrow> nq_inv q \<and> (\<forall>p. q = Some p \<longrightarrow> length (nq_hash p) = HASHSIZE
     \<and> (\<forall>h < HASHSIZE. bucket_ok h (nq_hash p ! h)))"

lemma hash_fd_less: "hash_fd fd < HASHSIZE"
proof -
  have "(drop_bit 24 fd + drop_bit 12 fd + fd) mod 2 ^ 32 mod int HASHSIZE < int HASHSIZE"
    by (rule pos_mod_bound) (simp add: HASHSIZE_def)
  then show ?thesis by (simp add: hash_fd_def nat_less_iff HASHSIZE_def)
qed

lemma unlink_ok:
  "distinct (map uc_id ucs) \<Longrightarrow>
   unlink fd ucs = (List.find (\<lambda>uc. uc_id uc = fd) ucs, filter (\<lambda>uc. uc_id uc \<noteq> fd) ucs)"
proof (induction ucs)
  case Nil
  then show ?case by simp
next
  case (Cons uc ucs)
  have "filter (\<lambda>x. uc_id x \<noteq> uc_id uc) ucs = ucs" 
    by (rule filter_True) (use Cons.prems in \<open>auto simp: image_iff\<close>)
  with Cons show ?case by (auto simp: Let_def)
qed

lemma find_filter: "fd \<noteq> fd' \<Longrightarrow>
  List.find (\<lambda>uc. uc_id uc = fd) (filter (\<lambda>uc. uc_id uc \<noteq> fd') ucs) = List.find (\<lambda>uc. uc_id uc = fd) ucs"
  by (induction ucs) auto

lemma find_filter_self: "List.find (\<lambda>uc. uc_id uc = fd) (filter (\<lambda>uc. uc_id uc \<noteq> fd) ucs) = None"
  by (induction ucs) auto

lemma bucket_filter: "bucket_ok h ucs \<Longrightarrow> bucket_ok h (filter P ucs)"
  by (auto simp: bucket_ok_def distinct_map_filter)

text \<open>A bucket that changes for one socket only.\<close>

lemma bucket_step:
  assumes inv: "np_inv (Some p)" and p': "nq_hash p' = (nq_hash p)[hash_fd fd := ucs]" "nq_wf p'"
    and ok: "bucket_ok (hash_fd fd) ucs"
    and other: "\<And>fd'. fd' \<noteq> fd \<Longrightarrow> List.find (\<lambda>uc. uc_id uc = fd') ucs =
      List.find (\<lambda>uc. uc_id uc = fd') (nq_hash p ! hash_fd fd)"
  shows "np_inv (Some p')" "parts (Some p') = (parts (Some p))(fd := List.find (\<lambda>uc. uc_id uc = fd) ucs)"
proof -
  have l: "length (nq_hash p) = HASHSIZE" using inv by (simp add: np_inv_def)
  have n: "nq_hash p' ! h = (if h = hash_fd fd then ucs else nq_hash p ! h)" for h
    using p'(1) hash_fd_less [of fd] l by (simp add: nth_list_update)
  show "np_inv (Some p')" using inv p' ok n by (simp add: np_inv_def nq_inv_def)
  show "parts (Some p') = (parts (Some p))(fd := List.find (\<lambda>uc. uc_id uc = fd) ucs)"
    by (rule ext) (use n other in \<open>auto simp: parts_def\<close>)
qed

lemma find_uncomplete_ok:
  assumes inv: "np_inv q"
  shows "\<exists>q'. find_uncomplete q fd = (parts q fd, q') \<and> np_inv q' \<and> parts q' = (parts q)(fd := None)
    \<and> nq_packs q' = nq_packs q \<and> (q \<noteq> None \<longrightarrow> q' \<noteq> None)"
proof (cases q)
  case None
  then show ?thesis using inv by (auto simp: find_uncomplete_def parts_def fun_eq_iff)
next
  case (Some p)
  let ?h = "hash_fd fd" and ?ucs = "nq_hash p ! hash_fd fd"
  let ?p = "p\<lparr>nq_hash := (nq_hash p)[?h := filter (\<lambda>uc. uc_id uc \<noteq> fd) ?ucs]\<rparr>"
  have b: "bucket_ok ?h ?ucs" using inv Some hash_fd_less by (simp add: np_inv_def)
  then have "find_uncomplete q fd = (parts q fd, Some ?p)"
    using Some unlink_ok [of ?ucs fd] by (simp add: find_uncomplete_def parts_def bucket_ok_def Let_def)
  moreover have "nq_wf ?p" using inv Some by (simp add: np_inv_def nq_inv_def nq_wf_def)
  moreover have "nq_packs (Some ?p) = nq_packs q" using Some by (simp add: nq_packs_def nq_list_def)
  ultimately show ?thesis
    using bucket_step [of p ?p fd "filter (\<lambda>uc. uc_id uc \<noteq> fd) ?ucs"] inv Some bucket_filter [OF b]
    by (simp add: find_filter find_filter_self)
qed

lemma get_queue_inv:
  assumes "np_inv q"
  shows "np_inv (Some (get_queue q))" "parts (Some (get_queue q)) = parts q"
proof -
  show "np_inv (Some (get_queue q))"
    using assms get_queue_wf [of q] by (cases q) (auto simp: np_inv_def nq_inv_def get_queue_def bucket_ok_def)
  show "parts (Some (get_queue q)) = parts q"
    by (rule ext) (use hash_fd_less in \<open>auto simp: parts_def get_queue_def split: option.split\<close>)
qed

lemma push_part_ok:
  assumes inv: "np_inv (Some p)" and free: "parts (Some p) (uc_id uc) = None" and uc: "uc_ok uc"
    and h: "h = hash_fd (uc_id uc)"
  defines "p' \<equiv> p\<lparr>nq_hash := (nq_hash p)[h := uc # nq_hash p ! h]\<rparr>"
  shows "np_inv (Some p')" "parts (Some p') = (parts (Some p))(uc_id uc \<mapsto> uc)"
    "nq_packs (Some p') = nq_packs (Some p)"
proof -
  have b: "bucket_ok h (nq_hash p ! h)" using inv hash_fd_less h by (simp add: np_inv_def)
  have "uc_id uc \<notin> uc_id ` set (nq_hash p ! h)" using free h by (auto simp: parts_def find_None_iff)
  then have b': "bucket_ok h (uc # nq_hash p ! h)" using b uc h by (auto simp: bucket_ok_def)
  have wf: "nq_wf p'" using inv by (simp add: p'_def np_inv_def nq_inv_def nq_wf_def)
  have hp: "nq_hash p' = (nq_hash p)[hash_fd (uc_id uc) := uc # nq_hash p ! h]" by (simp add: p'_def h)
  have oth: "List.find (\<lambda>x. uc_id x = fd) (uc # nq_hash p ! h) = List.find (\<lambda>x. uc_id x = fd) (nq_hash p ! hash_fd (uc_id uc))"
    if "fd \<noteq> uc_id uc" for fd using that h by auto
  from bucket_step [OF inv hp wf _ oth] b' h
  show "np_inv (Some p')" "parts (Some p') = (parts (Some p))(uc_id uc \<mapsto> uc)" by simp_all
  show "nq_packs (Some p') = nq_packs (Some p)" by (simp add: p'_def nq_packs_def nq_list_def)
qed

lemma save_ok:
  assumes "np_inv q" "parts q (uc_id uc) = None" "uc_ok uc"
  shows "np_inv (Some (save_uncomplete q uc))" "parts (Some (save_uncomplete q uc)) = (parts q)(uc_id uc \<mapsto> uc)"
    "nq_packs (Some (save_uncomplete q uc)) = nq_packs q"
  using push_part_ok [OF get_queue_inv(1) [OF assms(1)], of uc] get_queue_inv(2) [OF assms(1)] assms
    get_queue_wf [of q]
  by (simp_all add: save_uncomplete_def Let_def np_inv_def nq_packs_def)

lemma push_inv:
  assumes "np_inv q"
  shows "np_inv (Some (push_data q fd bs))" "parts (Some (push_data q fd bs)) = parts q"
    "nq_packs (Some (push_data q fd bs)) = nq_packs q @ [(fd, bs)]"
proof -
  have p: "nq_wf (push_data q fd bs)" "nq_list (push_data q fd bs) = nq_packs q @ [(fd, bs)]"
    "nq_hash (push_data q fd bs) = nq_hash (get_queue q)"
    using push_data_ok [of q fd bs] assms by (auto simp: np_inv_def)
  show "np_inv (Some (push_data q fd bs))" using get_queue_inv(1) [OF assms] p by (simp add: np_inv_def nq_inv_def)
  show "parts (Some (push_data q fd bs)) = parts q"
    using get_queue_inv(2) [OF assms] p(3) by (simp add: parts_def fun_eq_iff)
  show "nq_packs (Some (push_data q fd bs)) = nq_packs q @ [(fd, bs)]" using p(2) by (simp add: nq_packs_def)
qed

section \<open>The packages of a stream\<close>

function packs :: "bytes \<Rightarrow> bytes list \<times> bytes" where
  "packs s =
     (if length s < 2 then ([], s)
      else (let n = be_nat (take 2 s); t = drop 2 s
        in if length t < n then ([], s) else (let (ps, r) = packs (drop n t) in (take n t # ps, r))))"
  by pat_completeness auto
termination by (relation "measure length") auto

declare packs.simps [simp del]

lemma packs_short: "length s < 2 \<Longrightarrow> packs s = ([], s)"
  by (simp add: packs.simps)

lemma packs_part: "2 \<le> length s \<Longrightarrow> length (drop 2 s) < be_nat (take 2 s) \<Longrightarrow> packs s = ([], s)"
  by (simp add: packs.simps [of s] Let_def)

lemma packs_whole:
  "2 \<le> length s \<Longrightarrow> n = be_nat (take 2 s) \<Longrightarrow> n \<le> length (drop 2 s) \<Longrightarrow>
    packs s = (take n (drop 2 s) # fst (packs (drop n (drop 2 s))), snd (packs (drop n (drop 2 s))))"
  by (simp add: packs.simps [of s] Let_def split_beta)

lemma packs_append:
  "packs (s @ t) = (fst (packs s) @ fst (packs (snd (packs s) @ t)), snd (packs (snd (packs s) @ t)))"
proof (induction s rule: packs.induct)
  case (1 s)
  let ?n = "be_nat (take 2 s)"
  consider "length s < 2" | "2 \<le> length s" "length (drop 2 s) < ?n" | "2 \<le> length s" "?n \<le> length (drop 2 s)"
    by linarith
  then show ?case
  proof cases
    case 1
    then show ?thesis by (simp add: packs_short)
  next
    case 2
    then show ?thesis by (simp add: packs_part)
  next
    case 3
    have w: "packs s = (take ?n (drop 2 s) # fst (packs (drop ?n (drop 2 s))), snd (packs (drop ?n (drop 2 s))))"
      using 3 by (intro packs_whole) auto
    have d: "take 2 (s @ t) = take 2 s" "drop 2 (s @ t) = drop 2 s @ t" using 3 by simp_all
    have w': "packs (s @ t) = (take ?n (drop 2 (s @ t)) # fst (packs (drop ?n (drop 2 (s @ t)))), snd (packs (drop ?n (drop 2 (s @ t)))))"
      using 3 d by (intro packs_whole) auto
    have e: "take ?n (drop 2 s @ t) = take ?n (drop 2 s)" "drop ?n (drop 2 s @ t) = drop ?n (drop 2 s) @ t"
      using 3 by simp_all
    have "packs (drop ?n (drop 2 s) @ t) = (fst (packs (drop ?n (drop 2 s))) @ fst (packs (snd (packs (drop ?n (drop 2 s))) @ t)),
        snd (packs (snd (packs (drop ?n (drop 2 s))) @ t)))"
      using "1.IH" [of ?n "drop 2 s"] 3 by simp
    then show ?thesis unfolding w' d(2) e w by simp
  qed
qed

lemma packs_rest: "packs (snd (packs s)) = ([], snd (packs s))"
proof (induction s rule: packs.induct)
  case (1 s)
  let ?n = "be_nat (take 2 s)"
  consider "length s < 2" | "2 \<le> length s" "length (drop 2 s) < ?n" | "2 \<le> length s" "?n \<le> length (drop 2 s)"
    by linarith
  then show ?case
  proof cases
    case 3
    then have "snd (packs s) = snd (packs (drop ?n (drop 2 s)))" using packs_whole [of s ?n] by simp
    then show ?thesis using "1.IH" [of ?n "drop 2 s"] 3 by simp
  qed (simp_all add: packs_short packs_part)
qed

section \<open>Filtering\<close>

lemma read_size_ok: "2 \<le> length bs \<Longrightarrow> read_size bs = be_nat (take 2 bs)"
proof -
  assume "2 \<le> length bs"
  then obtain a b cs where "bs = a # b # cs" by (metis Suc_le_length_iff numeral_2_eq_2)
  then show ?thesis by (simp add: read_size_def unat_be16)
qed

lemma two_bytes: "2 \<le> length bs \<Longrightarrow> be_nat (take 2 bs) < 65536 \<and> be_bytes 2 (be_nat (take 2 bs)) = take 2 bs"
proof -
  assume "2 \<le> length bs"
  then have l: "length (take 2 bs) = 2" by simp
  show ?thesis using be_nat_less [of "take 2 bs"] be_bytes_be_nat [of "take 2 bs"] unfolding l by simp
qed

definition part_of :: "int \<Rightarrow> bytes \<Rightarrow> uncomplete" where
  "part_of fd bs = \<lparr>uc_id = fd, uc_size = be_nat (take 2 bs), uc_buffer = drop 2 bs,
     uc_read = int (length (drop 2 bs)), uc_header = 0\<rparr>"

lemma part_ok:
  assumes "2 \<le> length bs" "length (drop 2 bs) < be_nat (take 2 bs)"
  shows "uc_ok (part_of fd bs)" "uc_bytes (part_of fd bs) = bs" "uc_id (part_of fd bs) = fd"
  using assms two_bytes [OF assms(1)] by (simp_all add: uc_ok_def uc_bytes_def part_of_def)

lemma header_part_ok:
  "uc_ok \<lparr>uc_id = fd, uc_size = 0, uc_buffer = [], uc_read = -1, uc_header = unat (b::u8)\<rparr>"
  "uc_bytes \<lparr>uc_id = fd, uc_size = 0, uc_buffer = [], uc_read = -1, uc_header = unat (b::u8)\<rparr> = [b]"
  using byte_less [of b] by (simp_all add: uc_ok_def uc_bytes_def)

text \<open>\<open>keeps_rest\<close>: a new state in which the socket \<open>fd\<close> waits with the bytes \<open>r\<close>.\<close>

definition now_waiting :: "nqueue option \<Rightarrow> int \<Rightarrow> bytes \<Rightarrow> nqueue option \<Rightarrow> bool" where
  "now_waiting q fd r q' \<longleftrightarrow> np_inv q' \<and> waiting q' = (waiting q)(fd := r)"

lemma waiting_parts: "parts q' = (parts q)(fd := u) \<Longrightarrow>
  waiting q' = (waiting q)(fd := (case u of None \<Rightarrow> [] | Some uc \<Rightarrow> uc_bytes uc))"
  by (rule ext) (simp add: waiting_def)

lemma save_waiting:
  assumes "np_inv q" "parts q fd = None" "uc_ok uc" "uc_id uc = fd"
  shows "now_waiting q fd (uc_bytes uc) (Some (save_uncomplete q uc))"
    "nq_packs (Some (save_uncomplete q uc)) = nq_packs q"
  using save_ok [of q uc] assms waiting_parts [of "Some (save_uncomplete q uc)" q fd "Some uc"]
  by (auto simp: now_waiting_def)

lemma push_more_ok:
  "np_inv q \<Longrightarrow> parts q fd = None \<Longrightarrow> bs \<noteq> [] \<Longrightarrow> \<exists>q'. push_more q fd bs = Some q'
    \<and> now_waiting q fd (snd (packs bs)) (Some q') \<and> nq_packs (Some q') = nq_packs q @ map (Pair fd) (fst (packs bs))"
proof (induction q fd bs rule: push_more.induct)
  case (1 q fd bs)
  note inv = "1.prems"(1) and free = "1.prems"(2)
  let ?n = "be_nat (take 2 bs)" and ?t = "drop 2 bs"
  have len: "1 \<le> length bs" using "1.prems"(3) by (cases bs) auto
  consider "length bs = 1" | "2 \<le> length bs" "length ?t < ?n" | "2 \<le> length bs" "?n \<le> length ?t"
    using len by linarith
  then show ?case
  proof cases
    case 1
    then obtain b where b: "bs = [b]" by (cases bs) auto
    show ?thesis
      using save_waiting [OF inv free header_part_ok(1) [of fd b]] header_part_ok(2) [of fd b]
      by (simp add: b push_more.simps save_header_def packs_short)
  next
    case 2
    have rs: "read_size bs = ?n" by (rule read_size_ok [OF 2(1)])
    have e: "push_more q fd bs = Some (save_part q fd ?n ?t)" using 2 rs "1.prems"(3) by (simp add: push_more.simps [of q fd bs] Let_def)
    show ?thesis unfolding e save_part_def part_of_def [symmetric]
      using save_waiting [OF inv free part_ok(1) [OF 2, of fd]] part_ok(2,3) [OF 2, of fd] packs_part [OF 2] by simp
  next
    case 3
    let ?q = "push_data q fd (take ?n ?t)" and ?rest = "drop ?n ?t"
    have rs: "read_size bs = ?n" by (rule read_size_ok [OF 3(1)])
    have p: "np_inv (Some ?q)" "parts (Some ?q) = parts q" "nq_packs (Some ?q) = nq_packs q @ [(fd, take ?n ?t)]"
      using push_inv [OF inv] by auto
    have w: "packs bs = (take ?n ?t # fst (packs ?rest), snd (packs ?rest))" by (rule packs_whole [OF 3(1) refl 3(2)])
    have wq: "waiting (Some ?q) = waiting q" by (rule ext) (simp add: waiting_def p(2))
    show ?thesis
    proof (cases "?rest = []")
      case True
      have "push_more q fd bs = Some ?q" using 3 rs True "1.prems"(3) by (simp add: push_more.simps [of q fd bs] Let_def)
      moreover have "waiting q fd = []" using free by (simp add: waiting_def)
      then have "(waiting q)(fd := []) = waiting q" by auto
      ultimately show ?thesis using p w True wq by (simp add: packs_short now_waiting_def)
    next
      case False
      have e: "push_more q fd bs = push_more (Some ?q) fd ?rest"
        using 3 rs False "1.prems"(3) by (simp add: push_more.simps [of q fd bs] Let_def)
      have "\<exists>q'. push_more (Some ?q) fd ?rest = Some q' \<and> now_waiting (Some ?q) fd (snd (packs ?rest)) (Some q')
          \<and> nq_packs (Some q') = nq_packs (Some ?q) @ map (Pair fd) (fst (packs ?rest))"
      proof -
        have l: "length bs \<noteq> 1" "\<not> length ?t < ?n" using 3 by simp_all
        note IH = "1.IH" [OF "1.prems"(3) l(1) refl refl, unfolded rs, OF l(2) refl refl False p(1)]
        show ?thesis by (rule IH) (use p(2) free False in simp_all)
      qed
      then show ?thesis unfolding e w using p(3) wq by (auto simp: now_waiting_def)
    qed
  qed
qed

text \<open>What a block of data does, on the bytes that wait and the queue.\<close>

definition filter_spec :: "int \<Rightarrow> bytes list \<Rightarrow> bytes \<Rightarrow> (int \<times> bytes) list \<Rightarrow> filter_result \<times> (int \<times> bytes) list" where
  "filter_spec fd ps r packed =
     (case ps of [] \<Rightarrow> (Nothing, packed)
      | p # ps' \<Rightarrow> if ps' = [] \<and> r = [] then (Data_pack fd p, packed) else (More, packed @ map (Pair fd) ps))"

lemma filter_new_ok:
  assumes inv: "np_inv q" and free: "parts q fd = None" and ne: "bs \<noteq> []"
  shows "\<exists>res q'. filter_new q fd bs = Some (res, q') \<and> now_waiting q fd (snd (packs bs)) q'
    \<and> (res, nq_packs q') = filter_spec fd (fst (packs bs)) (snd (packs bs)) (nq_packs q)"
proof -
  let ?n = "be_nat (take 2 bs)" and ?t = "drop 2 bs"
  have len: "1 \<le> length bs" using ne by (cases bs) auto
  consider "length bs = 1" | "2 \<le> length bs" "length ?t < ?n" | "2 \<le> length bs" "length ?t = ?n"
    | "2 \<le> length bs" "?n < length ?t"
    using len by linarith
  then show ?thesis
  proof cases
    case 1
    then obtain b where b: "bs = [b]" by (cases bs) auto
    show ?thesis
      using save_waiting [OF inv free header_part_ok(1) [of fd b]] header_part_ok(2) [of fd b]
      by (simp add: b filter_new_def save_header_def packs_short filter_spec_def)
  next
    case 2
    have rs: "read_size bs = ?n" by (rule read_size_ok [OF 2(1)])
    have e: "filter_new q fd bs = Some (Nothing, Some (save_part q fd ?n ?t))"
      using 2 rs ne by (simp add: filter_new_def Let_def)
    show ?thesis unfolding e save_part_def part_of_def [symmetric]
      using save_waiting [OF inv free part_ok(1) [OF 2, of fd]] part_ok(2,3) [OF 2, of fd] packs_part [OF 2]
      by (simp add: filter_spec_def)
  next
    case 3
    have rs: "read_size bs = ?n" by (rule read_size_ok [OF 3(1)])
    have "packs bs = ([?t], [])" using packs_whole [OF 3(1) refl] 3(2) by (simp add: packs_short)
    moreover have "filter_new q fd bs = Some (Data_pack fd ?t, q)"
      using 3 rs ne by (simp add: filter_new_def Let_def)
    moreover have "(waiting q)(fd := []) = waiting q" using free by (auto simp: waiting_def)
    ultimately show ?thesis using inv by (simp add: now_waiting_def filter_spec_def)
  next
    case 4
    let ?q = "push_data q fd (take ?n ?t)" and ?rest = "drop ?n ?t"
    have rs: "read_size bs = ?n" by (rule read_size_ok [OF 4(1)])
    have p: "np_inv (Some ?q)" "parts (Some ?q) = parts q" "nq_packs (Some ?q) = nq_packs q @ [(fd, take ?n ?t)]"
      using push_inv [OF inv] by auto
    have wq: "waiting (Some ?q) = waiting q" by (rule ext) (simp add: waiting_def p(2))
    have w: "packs bs = (take ?n ?t # fst (packs ?rest), snd (packs ?rest))"
      using 4 by (intro packs_whole) auto
    have ne': "?rest \<noteq> []" using 4(2) by simp
    obtain q' where q': "push_more (Some ?q) fd ?rest = Some q'" "now_waiting (Some ?q) fd (snd (packs ?rest)) (Some q')"
      "nq_packs (Some q') = nq_packs (Some ?q) @ map (Pair fd) (fst (packs ?rest))"
      using push_more_ok [OF p(1) _ ne', of fd] p(2) free by auto
    have "filter_new q fd bs = Some (More, Some q')" using 4 rs ne q'(1) by (simp add: filter_new_def Let_def)
    moreover have "fst (packs ?rest) \<noteq> [] \<or> snd (packs ?rest) \<noteq> []"
      using ne' packs_short [of ?rest] packs_part [of ?rest] packs_whole [of ?rest, OF _ refl] by (metis fst_conv linorder_not_less neq_Nil_conv snd_conv)
    ultimately show ?thesis using q'(2,3) wq p(3) unfolding w
      by (auto simp: now_waiting_def filter_spec_def)
  qed
qed

lemma packs_empty: "packs s = ([], []) \<Longrightarrow> s = []"
  using packs_short [of s] packs_part [of s] packs_whole [of s, OF _ refl]
  by (metis fst_conv linorder_not_less list.distinct(1) snd_conv)

lemma filter_spec_More:
  assumes "s \<noteq> []"
  shows "filter_spec fd (p # fst (packs s)) (snd (packs s)) packed =
    (More, packed @ (fd, p) # map (Pair fd) (fst (packs s)))"
proof -
  have "fst (packs s) \<noteq> [] \<or> snd (packs s) \<noteq> []" using packs_empty [of s] assms by (metis prod.collapse)
  then show ?thesis by (auto simp: filter_spec_def)
qed

lemma filter_fill_ok:
  assumes inv: "np_inv q" "q \<noteq> None" and free: "parts q fd = None"
    and uc: "uc_id uc = fd" "uc_read uc = int (length (uc_buffer uc))" "length (uc_buffer uc) \<le> uc_size uc" "uc_size uc < 65536"
    and s: "s = be_bytes 2 (uc_size uc) @ uc_buffer uc @ buffer"
  shows "\<exists>res q'. filter_fill q fd uc buffer = Some (res, q') \<and> now_waiting q fd (snd (packs s)) q'
    \<and> (res, nq_packs q') = filter_spec fd (fst (packs s)) (snd (packs s)) (nq_packs q)"
proof -
  obtain p where p: "q = Some p" using inv(2) by auto
  let ?need = "uc_size uc - length (uc_buffer uc)" and ?rest = "drop (uc_size uc - length (uc_buffer uc)) buffer"
  have s2: "2 \<le> length s" "take 2 s = be_bytes 2 (uc_size uc)" "drop 2 s = uc_buffer uc @ buffer"
    by (simp_all add: s)
  have n: "be_nat (take 2 s) = uc_size uc" using uc(4) s2(2) be_bytes_small [of "uc_size uc" 2] by simp
  consider "length buffer < ?need" | "?need \<le> length buffer" "?rest = []" | "?need \<le> length buffer" "?rest \<noteq> []" by linarith
  then show ?thesis
  proof cases
    case 1
    let ?uc = "uc\<lparr>uc_buffer := uc_buffer uc @ buffer, uc_read := int (length (uc_buffer uc @ buffer))\<rparr>"
    have u: "uc_ok ?uc" "uc_bytes ?uc = s" "uc_id ?uc = fd" using 1 uc by (simp_all add: uc_ok_def uc_bytes_def s)
    let ?p = "p\<lparr>nq_hash := (nq_hash p)[hash_fd fd := ?uc # nq_hash p ! hash_fd fd]\<rparr>"
    have e: "filter_fill q fd uc buffer = Some (Nothing, Some ?p)"
      using 1 uc p by (simp add: filter_fill_def fill_def Let_def)
    have st: "np_inv (Some ?p)" "parts (Some ?p) = (parts (Some p))(fd \<mapsto> ?uc)" "nq_packs (Some ?p) = nq_packs (Some p)"
      using push_part_ok [of p ?uc "hash_fd fd"] inv(1) free p u by auto
    have "packs s = ([], s)" using 1 s2 n by (intro packs_part) auto
    then show ?thesis unfolding e using st p waiting_parts [OF st(2)] u(2)
      by (simp add: now_waiting_def filter_spec_def)
  next
    case 2
    have fl: "fill uc (take ?need buffer) = Some (uc\<lparr>uc_buffer := uc_buffer uc @ take ?need buffer\<rparr>)"
      using uc(2,3) by (simp add: fill_def)
    have "filter_fill q fd uc buffer = Some (Data_pack fd (uc_buffer uc @ take ?need buffer), q)"
      using 2 uc fl by (simp add: filter_fill_def Let_def min_def)
    moreover have "packs s = ([uc_buffer uc @ take ?need buffer], [])"
      using packs_whole [OF s2(1) n [symmetric]] s2(3) 2 uc(3) by (simp add: packs_short)
    moreover have "(waiting q)(fd := []) = waiting q" using free by (auto simp: waiting_def)
    ultimately show ?thesis using inv by (simp add: now_waiting_def filter_spec_def)
  next
    case 3
    let ?pk = "uc_buffer uc @ take ?need buffer"
    let ?q = "push_data q fd ?pk"
    have fl: "fill uc (take ?need buffer) = Some (uc\<lparr>uc_buffer := ?pk\<rparr>)"
      using uc(2,3) by (simp add: fill_def)
    have w: "packs s = (?pk # fst (packs ?rest), snd (packs ?rest))"
      using packs_whole [OF s2(1) n [symmetric]] s2(3) 3 uc(3) by simp
    have pu: "np_inv (Some ?q)" "parts (Some ?q) = parts q" "nq_packs (Some ?q) = nq_packs q @ [(fd, ?pk)]"
      using push_inv [OF inv(1)] by auto
    have wq: "waiting (Some ?q) = waiting q" by (rule ext) (simp add: waiting_def pu(2))
    obtain q' where q': "push_more (Some ?q) fd ?rest = Some q'" "now_waiting (Some ?q) fd (snd (packs ?rest)) (Some q')"
      "nq_packs (Some q') = nq_packs (Some ?q) @ map (Pair fd) (fst (packs ?rest))"
      using push_more_ok [OF pu(1) _ 3(2), of fd] pu(2) free by auto
    have "filter_fill q fd uc buffer = Some (More, Some q')"
      using 3 uc fl q'(1) by (simp add: filter_fill_def Let_def)
    then show ?thesis using q'(2,3) wq pu(3) unfolding w fst_conv snd_conv filter_spec_More [OF 3(2)]
      by (simp add: now_waiting_def)
  qed
qed

lemma filter_data_ok:
  assumes inv: "np_inv q" and ne: "bs \<noteq> []" and sd: "s = waiting q fd @ bs"
  shows "\<exists>res q'. filter_data q fd bs = Some (res, q') \<and> now_waiting q fd (snd (packs s)) q'
    \<and> (res, nq_packs q') = filter_spec fd (fst (packs s)) (snd (packs s)) (nq_packs q)"
proof -
  obtain q1 where f: "find_uncomplete q fd = (parts q fd, q1)" "np_inv q1" "parts q1 = (parts q)(fd := None)"
    "nq_packs q1 = nq_packs q" "q \<noteq> None \<longrightarrow> q1 \<noteq> None"
    using find_uncomplete_ok [OF inv] by blast
  have free: "parts q1 fd = None" using f(3) by simp
  have nw: "now_waiting q1 fd r q' \<Longrightarrow> now_waiting q fd r q'" for r q'
    using waiting_parts [OF f(3)] by (simp add: now_waiting_def)
  show ?thesis
  proof (cases "parts q fd")
    case None
    then have "s = bs" by (simp add: sd waiting_def)
    then show ?thesis using filter_new_ok [OF f(2) free ne] f(1,4) None nw by (auto simp: filter_data_def)
  next
    case (Some uc)
    then have q0: "q1 \<noteq> None" using f(5) by (cases q) (auto simp: parts_def)
    obtain p where p: "q = Some p" using Some by (cases q) (auto simp: parts_def)
    then have mem: "uc \<in> set (nq_hash p ! hash_fd fd)" "uc_id uc = fd"
      using Some by (auto simp: parts_def find_Some_iff)
    then have ok: "uc_ok uc" using inv p hash_fd_less by (auto simp: np_inv_def bucket_ok_def)
    have s: "s = uc_bytes uc @ bs" using Some by (simp add: sd waiting_def)
    show ?thesis
    proof (cases "uc_read uc = -1")
      case True
      obtain b cs where bs: "bs = b # cs" using ne by (cases bs) auto
      let ?n = "unat (be16 (of_nat (uc_header uc)) b)"
      let ?uc = "uc\<lparr>uc_size := ?n, uc_buffer := [], uc_read := 0\<rparr>"
      have l: "length [of_nat (uc_header uc), b] = 2" by simp
      have n: "be_bytes 2 ?n = [of_nat (uc_header uc), b]" "?n < 65536"
        using be_bytes_be_nat [of "[of_nat (uc_header uc), b]"] be_nat_less [of "[of_nat (uc_header uc), b]"]
        unfolding l unat_be16 by simp_all
      have e: "filter_data q fd bs = filter_fill q1 fd ?uc cs" using f(1) Some True bs by (simp add: filter_data_def)
      have s': "be_bytes 2 (uc_size ?uc) @ uc_buffer ?uc @ cs = s" using True s bs n(1) by (simp add: uc_bytes_def)
      have "\<exists>res q'. filter_fill q1 fd ?uc cs = Some (res, q') \<and> now_waiting q1 fd (snd (packs s)) q'
        \<and> (res, nq_packs q') = filter_spec fd (fst (packs s)) (snd (packs s)) (nq_packs q1)"
        by (rule filter_fill_ok [OF f(2) q0 free]) (use mem n(2) s' in simp_all)
      then show ?thesis unfolding e f(4) using nw by blast
    next
      case False
      then have u: "uc_read uc = int (length (uc_buffer uc))" "length (uc_buffer uc) < uc_size uc" "uc_size uc < 65536"
        using ok by (auto simp: uc_ok_def split: if_splits)
      have e: "filter_data q fd bs = filter_fill q1 fd uc bs" using f(1) Some u(1) by (simp add: filter_data_def)
      have s': "be_bytes 2 (uc_size uc) @ uc_buffer uc @ bs = s" using False s by (simp add: uc_bytes_def)
      have "\<exists>res q'. filter_fill q1 fd uc bs = Some (res, q') \<and> now_waiting q1 fd (snd (packs s)) q'
        \<and> (res, nq_packs q') = filter_spec fd (fst (packs s)) (snd (packs s)) (nq_packs q1)"
        by (rule filter_fill_ok [OF f(2) q0 free]) (use mem u s' in simp_all)
      then show ?thesis unfolding e f(4) using nw by blast
    qed
  qed
qed

section \<open>A client\<close>

text \<open>
  The Lua client takes a package that \<open>filter\<close> returns, and after \<open>More\<close> calls \<open>pop\<close> until the
  queue is empty.
\<close>

partial_function (option) np_drain :: "(int \<times> bytes) list \<Rightarrow> nqueue option \<Rightarrow> ((int \<times> bytes) list \<times> nqueue option) option" where
  "np_drain acc q = (case lpop q of (None, q) \<Rightarrow> Some (acc, q) | (Some x, q) \<Rightarrow> np_drain (acc @ [x]) q)"

definition np_event :: "nqueue option \<Rightarrow> socket_message \<times> string \<Rightarrow> ((int \<times> bytes) list \<times> nqueue option) option" where
  "np_event q e =
     (case lfilter q (fst e) (snd e) of None \<Rightarrow> None
      | Some (res, q) \<Rightarrow>
          (case res of Data_pack fd p \<Rightarrow> Some ([(fd, p)], q) | More \<Rightarrow> np_drain [] q | _ \<Rightarrow> Some ([], q)))"

fun np_run :: "nqueue option \<Rightarrow> (socket_message \<times> string) list \<Rightarrow> ((int \<times> bytes) list \<times> nqueue option) option" where
  "np_run q [] = Some ([], q)"
| "np_run q (e # evs) =
     (case np_event q e of None \<Rightarrow> None
      | Some (out, q) \<Rightarrow> map_option (\<lambda>(outs, q). (out @ outs, q)) (np_run q evs))"

lemma np_drain_ok:
  "np_inv q \<Longrightarrow> \<exists>q'. np_drain acc q = Some (acc @ nq_packs q, q') \<and> np_inv q' \<and> nq_packs q' = []
    \<and> waiting q' = waiting q"
proof (induction "nq_packs q" arbitrary: q acc)
  case Nil
  then have "lpop q = (None, q)" using lpop_ok(1) [of q] by (simp add: np_inv_def)
  then show ?case using Nil by (subst np_drain.simps) simp
next
  case (Cons x xs)
  then obtain q' where q': "lpop q = (Some x, Some q')" "nq_wf q'" "nq_list q' = xs" "nq_hash q' = nq_hash (get_queue q)"
    using lpop_ok(2) [of q x xs] by (auto simp: np_inv_def)
  have inv: "np_inv (Some q')" using get_queue_inv(1) [OF Cons.prems] q'(2,4) by (simp add: np_inv_def nq_inv_def)
  have "parts (Some q') = parts (Some (get_queue q))" using q'(4) by (simp add: parts_def fun_eq_iff)
  then have w: "waiting (Some q') = waiting q" using get_queue_inv(2) [OF Cons.prems] by (simp add: waiting_def fun_eq_iff)
  have "xs = nq_packs (Some q')" using q'(3) by (simp add: nq_packs_def)
  from Cons.hyps(1) [OF this inv, of "acc @ [x]"] show ?case
    using q'(1) w \<open>xs = nq_packs (Some q')\<close> Cons.hyps(2) by (subst np_drain.simps) (auto simp flip: Cons.hyps(2))
qed

lemma np_event_ok:
  assumes inv: "np_inv q" "nq_packs q = []" and m: "sm_type m = SOCKET_DATA" "sm_buffer m \<noteq> []"
  defines "s \<equiv> waiting q (sm_id m) @ sm_buffer m"
  shows "\<exists>q'. np_event q (m, name) = Some (map (Pair (sm_id m)) (fst (packs s)), q') \<and> np_inv q' \<and> nq_packs q' = []
    \<and> waiting q' = (waiting q)(sm_id m := snd (packs s))"
proof -
  let ?fd = "sm_id m"
  obtain res q1 where f: "filter_data q ?fd (sm_buffer m) = Some (res, q1)" "now_waiting q ?fd (snd (packs s)) q1"
    "(res, nq_packs q1) = filter_spec ?fd (fst (packs s)) (snd (packs s)) (nq_packs q)"
    using filter_data_ok [OF inv(1) m(2), of s ?fd] by (auto simp: s_def)
  have lf: "lfilter q m name = Some (res, q1)" using m(1) f(1) by (simp add: lfilter_def)
  have i1: "np_inv q1" "waiting q1 = (waiting q)(?fd := snd (packs s))" using f(2) by (auto simp: now_waiting_def)
  show ?thesis
  proof (cases "fst (packs s)")
    case Nil
    then show ?thesis using lf f(3) i1 inv(2) by (simp add: np_event_def filter_spec_def)
  next
    case (Cons p ps)
    show ?thesis
    proof (cases "ps = [] \<and> snd (packs s) = []")
      case True
      then show ?thesis using lf f(3) i1 inv(2) Cons by (simp add: np_event_def filter_spec_def)
    next
      case False
      then have r: "res = More" "nq_packs q1 = map (Pair ?fd) (fst (packs s))"
        using f(3) inv(2) Cons by (auto simp: filter_spec_def)
      then show ?thesis using lf np_drain_ok [OF i1(1), of "[]"] i1(2) by (simp add: np_event_def)
    qed
  qed
qed

lemma np_run_ok:
  "np_inv q \<Longrightarrow> nq_packs q = [] \<Longrightarrow> all_data evs \<Longrightarrow> \<forall>e \<in> set evs. sm_buffer (fst e) \<noteq> [] \<Longrightarrow>
   \<exists>outs q'. np_run q evs = Some (outs, q') \<and> np_inv q' \<and> nq_packs q' = []
     \<and> (\<forall>fd. packs (waiting q fd) = ([], waiting q fd) \<longrightarrow>
          map snd (filter (\<lambda>x. fst x = fd) outs) = fst (packs (waiting q fd @ data_of fd evs)))"
proof (induction evs arbitrary: q)
  case Nil
  then show ?case by (simp add: data_of_def)
next
  case (Cons e evs)
  obtain m name where e: "e = (m, name)" by (cases e)
  let ?i = "sm_id m" and ?s = "waiting q (sm_id m) @ sm_buffer m"
  have m: "sm_type m = SOCKET_DATA" "sm_buffer m \<noteq> []" "all_data evs" "\<forall>e \<in> set evs. sm_buffer (fst e) \<noteq> []"
    using Cons.prems(3,4) e by (auto simp: all_data_def)
  obtain q1 where q1: "np_event q e = Some (map (Pair ?i) (fst (packs ?s)), q1)" "np_inv q1" "nq_packs q1 = []"
    "waiting q1 = (waiting q)(?i := snd (packs ?s))"
    using np_event_ok [OF Cons.prems(1,2) m(1,2)] e by blast
  obtain outs q2 where q2: "np_run q1 evs = Some (outs, q2)" "np_inv q2" "nq_packs q2 = []"
    "\<forall>fd. packs (waiting q1 fd) = ([], waiting q1 fd) \<longrightarrow>
      map snd (filter (\<lambda>x. fst x = fd) outs) = fst (packs (waiting q1 fd @ data_of fd evs))"
    using Cons.IH [OF q1(2,3) m(3,4)] by blast
  have "map snd (filter (\<lambda>x. fst x = fd) (map (Pair ?i) (fst (packs ?s)) @ outs)) = fst (packs (waiting q fd @ data_of fd (e # evs)))"
    if w: "packs (waiting q fd) = ([], waiting q fd)" for fd
  proof (cases "fd = ?i")
    case True
    have d: "data_of fd (e # evs) = sm_buffer m @ data_of fd evs" using True e by (simp add: data_of_def)
    have "packs (waiting q1 fd) = ([], waiting q1 fd)" using q1(4) True packs_rest [of ?s] by simp
    then have "map snd (filter (\<lambda>x. fst x = fd) outs) = fst (packs (snd (packs ?s) @ data_of fd evs))"
      using q2(4) q1(4) True by simp
    moreover have "fst (packs (?s @ data_of fd evs)) = fst (packs ?s) @ fst (packs (snd (packs ?s) @ data_of fd evs))"
      using packs_append [of ?s "data_of fd evs"] by simp
    moreover have "map snd (filter (\<lambda>x. fst x = fd) (map (Pair ?i) (fst (packs ?s)))) = fst (packs ?s)"
      using True by (simp add: filter_map comp_def)
    ultimately show ?thesis using True d by simp
  next
    case False
    have "data_of fd (e # evs) = data_of fd evs" using False e by (simp add: data_of_def)
    moreover have "waiting q1 fd = waiting q fd" using q1(4) False by simp
    moreover have "filter (\<lambda>x. fst x = fd) (map (Pair ?i) (fst (packs ?s))) = []" using False by (simp add: filter_map comp_def)
    ultimately show ?thesis using q2(4) w by simp
  qed
  then show ?case using q1(1) q2(1,2,3) by auto
qed

lemma byte_mod: "(of_nat (n mod 256) :: u8) = of_nat n"
proof -
  have "unat (of_nat (n mod 256) :: u8) = unat (of_nat n :: u8)" by (simp only: unat_byte mod_mod_trivial)
  then show ?thesis by (rule unsigned_word_eqI)
qed

lemma lpack_Some: "lpack p = Some f \<Longrightarrow> length p < 65536 \<and> f = be_bytes 2 (length p) @ p"
  by (auto simp: lpack_def write_size_def numeral_2_eq_2 byte_mod split: if_splits)

lemma packs_lpack:
  "map lpack ps = map Some fs \<Longrightarrow> packs (concat fs) = (ps, [])"
proof (induction ps arbitrary: fs)
  case Nil
  then show ?case by (simp add: packs_short)
next
  case (Cons p ps)
  then obtain f gs where f: "fs = f # gs" "lpack p = Some f" "map lpack ps = map Some gs" by (cases fs) auto
  let ?s = "be_bytes 2 (length p) @ p @ concat gs"
  have e: "concat fs = ?s" and l: "length p < 65536" using f lpack_Some by auto
  have n: "length p = be_nat (take 2 ?s)" using l be_bytes_small [of "length p" 2] by simp
  have "packs ?s = (take (length p) (drop 2 ?s) # fst (packs (drop (length p) (drop 2 ?s))), snd (packs (drop (length p) (drop 2 ?s))))"
    by (rule packs_whole [OF _ n]) simp_all
  then show ?case using Cons.IH [OF f(3)] e by simp
qed

lemma netpack_delivers:
  assumes "all_data evs" "\<forall>e \<in> set evs. sm_buffer (fst e) \<noteq> []"
  shows "\<exists>outs q. np_run None evs = Some (outs, q) \<and> nq_packs q = [] \<and> lpop q = (None, q)
    \<and> (\<forall>fd ps fs. map lpack ps = map Some fs \<longrightarrow> data_of fd evs = concat fs \<longrightarrow>
         map snd (filter (\<lambda>x. fst x = fd) outs) = ps)"
proof -
  have i: "np_inv None" "nq_packs None = []" "waiting None = (\<lambda>fd. [])"
    by (simp_all add: np_inv_def nq_inv_def nq_packs_def waiting_def parts_def fun_eq_iff)
  obtain outs q where q: "np_run None evs = Some (outs, q)" "np_inv q" "nq_packs q = []"
    "\<forall>fd. map snd (filter (\<lambda>x. fst x = fd) outs) = fst (packs (data_of fd evs))"
    using np_run_ok [OF i(1,2) assms] i(3) by (auto simp: packs_short)
  have "lpop q = (None, q)" using lpop_ok(1) q(2,3) by (simp add: np_inv_def)
  moreover have "map snd (filter (\<lambda>x. fst x = fd) outs) = ps"
    if "map lpack ps = map Some fs" "data_of fd evs = concat fs" for fd ps fs
    using q(4) packs_lpack [OF that(1)] that(2) by simp
  ultimately show ?thesis using q(1,3) by blast
qed

text \<open>C10: Packages that are built with \<open>pack\<close> come out of \<open>filter\<close> and \<open>pop\<close> as they went in. Starting
  without a queue, over every history of data of any number of sockets in non-empty blocks, no
  access leaves a buffer; for each socket whose bytes are the concatenation of packed packages,
  however they were cut into blocks and whatever arrived for other sockets in between, the client
  gets exactly these packages in order, empty ones included, and the queue is empty at the end.\<close>

theorem netpack_roundtrip:
  assumes "all_data evs" "\<forall>e \<in> set evs. sm_buffer (fst e) \<noteq> []"
  shows "\<exists>outs q. np_run None evs = Some (outs, q) \<and> nq_packs q = [] \<and> lpop q = (None, q)
    \<and> (\<forall>fd ps fs. map lpack ps = map Some fs \<longrightarrow> data_of fd evs = concat fs \<longrightarrow>
         map snd (filter (\<lambda>x. fst x = fd) outs) = ps)"
  using assms by (rule netpack_delivers)

theorem netpack_roundtrip_witness:
  "\<exists>outs q. np_run None [(\<lparr>sm_type = SOCKET_DATA, sm_id = 3, sm_ud = 1, sm_buffer = [0]\<rparr>, []),
       (\<lparr>sm_type = SOCKET_DATA, sm_id = 3, sm_ud = 4, sm_buffer = [1, 65, 0, 0]\<rparr>, [])] = Some (outs, q)
     \<and> map snd (filter (\<lambda>x. fst x = 3) outs) = [[65], []]"
proof -
  let ?evs = "[(\<lparr>sm_type = SOCKET_DATA, sm_id = 3, sm_ud = 1, sm_buffer = [0]\<rparr>, []),
       (\<lparr>sm_type = SOCKET_DATA, sm_id = 3, sm_ud = 4, sm_buffer = [1, 65, 0, 0]\<rparr>, [])] :: (socket_message \<times> string) list"
  have l: "map lpack [[65], []] = map Some [[0, 1, 65], [0, 0]]" by (simp add: lpack_def write_size_def)
  have d: "data_of 3 ?evs = concat [[0, 1, 65], [0, 0]]" by (simp add: data_of_def)
  have a: "all_data ?evs" "\<forall>e \<in> set ?evs. sm_buffer (fst e) \<noteq> []" by (simp_all add: all_data_def)
  obtain outs q where o: "np_run None ?evs = Some (outs, q)" "\<forall>fd ps fs. map lpack ps = map Some fs \<longrightarrow> data_of fd ?evs = concat fs \<longrightarrow>
      map snd (filter (\<lambda>x. fst x = fd) outs) = ps" using netpack_roundtrip [OF a] by blast
  show ?thesis by (rule exI [of _ outs], rule exI [of _ q], rule conjI [OF o(1) o(2) [rule_format, OF l d]])
qed

end
