(* ===== verification/Des.thy ===== *)
theory Des
  imports Bytes CText
begin

text \<open>
  The DES part of \<open>lualib-src/lua-crypt.c\<close>: the tables, the key schedule, the block cipher and the
  Lua functions \<open>desencode\<close> and \<open>desdecode\<close>. A block and a key are 8 bytes; the result of a Lua
  function is \<open>Inl\<close> the text of a Lua error or \<open>Inr\<close> what it returns. Sizes are below \<open>2 ^ 31\<close>.
\<close>

unbundle bit_operations_syntax

section \<open>Tables\<close>

definition SB1 :: "u32 list" where
  "SB1 = [
    0x01010400, 0x00000000, 0x00010000, 0x01010404, 0x01010004, 0x00010404, 0x00000004, 0x00010000,
    0x00000400, 0x01010400, 0x01010404, 0x00000400, 0x01000404, 0x01010004, 0x01000000, 0x00000004,
    0x00000404, 0x01000400, 0x01000400, 0x00010400, 0x00010400, 0x01010000, 0x01010000, 0x01000404,
    0x00010004, 0x01000004, 0x01000004, 0x00010004, 0x00000000, 0x00000404, 0x00010404, 0x01000000,
    0x00010000, 0x01010404, 0x00000004, 0x01010000, 0x01010400, 0x01000000, 0x01000000, 0x00000400,
    0x01010004, 0x00010000, 0x00010400, 0x01000004, 0x00000400, 0x00000004, 0x01000404, 0x00010404,
    0x01010404, 0x00010004, 0x01010000, 0x01000404, 0x01000004, 0x00000404, 0x00010404, 0x01010400,
    0x00000404, 0x01000400, 0x01000400, 0x00000000, 0x00010004, 0x00010400, 0x00000000, 0x01010004]"

definition SB2 :: "u32 list" where
  "SB2 = [
    0x80108020, 0x80008000, 0x00008000, 0x00108020, 0x00100000, 0x00000020, 0x80100020, 0x80008020,
    0x80000020, 0x80108020, 0x80108000, 0x80000000, 0x80008000, 0x00100000, 0x00000020, 0x80100020,
    0x00108000, 0x00100020, 0x80008020, 0x00000000, 0x80000000, 0x00008000, 0x00108020, 0x80100000,
    0x00100020, 0x80000020, 0x00000000, 0x00108000, 0x00008020, 0x80108000, 0x80100000, 0x00008020,
    0x00000000, 0x00108020, 0x80100020, 0x00100000, 0x80008020, 0x80100000, 0x80108000, 0x00008000,
    0x80100000, 0x80008000, 0x00000020, 0x80108020, 0x00108020, 0x00000020, 0x00008000, 0x80000000,
    0x00008020, 0x80108000, 0x00100000, 0x80000020, 0x00100020, 0x80008020, 0x80000020, 0x00100020,
    0x00108000, 0x00000000, 0x80008000, 0x00008020, 0x80000000, 0x80100020, 0x80108020, 0x00108000]"

definition SB3 :: "u32 list" where
  "SB3 = [
    0x00000208, 0x08020200, 0x00000000, 0x08020008, 0x08000200, 0x00000000, 0x00020208, 0x08000200,
    0x00020008, 0x08000008, 0x08000008, 0x00020000, 0x08020208, 0x00020008, 0x08020000, 0x00000208,
    0x08000000, 0x00000008, 0x08020200, 0x00000200, 0x00020200, 0x08020000, 0x08020008, 0x00020208,
    0x08000208, 0x00020200, 0x00020000, 0x08000208, 0x00000008, 0x08020208, 0x00000200, 0x08000000,
    0x08020200, 0x08000000, 0x00020008, 0x00000208, 0x00020000, 0x08020200, 0x08000200, 0x00000000,
    0x00000200, 0x00020008, 0x08020208, 0x08000200, 0x08000008, 0x00000200, 0x00000000, 0x08020008,
    0x08000208, 0x00020000, 0x08000000, 0x08020208, 0x00000008, 0x00020208, 0x00020200, 0x08000008,
    0x08020000, 0x08000208, 0x00000208, 0x08020000, 0x00020208, 0x00000008, 0x08020008, 0x00020200]"

definition SB4 :: "u32 list" where
  "SB4 = [
    0x00802001, 0x00002081, 0x00002081, 0x00000080, 0x00802080, 0x00800081, 0x00800001, 0x00002001,
    0x00000000, 0x00802000, 0x00802000, 0x00802081, 0x00000081, 0x00000000, 0x00800080, 0x00800001,
    0x00000001, 0x00002000, 0x00800000, 0x00802001, 0x00000080, 0x00800000, 0x00002001, 0x00002080,
    0x00800081, 0x00000001, 0x00002080, 0x00800080, 0x00002000, 0x00802080, 0x00802081, 0x00000081,
    0x00800080, 0x00800001, 0x00802000, 0x00802081, 0x00000081, 0x00000000, 0x00000000, 0x00802000,
    0x00002080, 0x00800080, 0x00800081, 0x00000001, 0x00802001, 0x00002081, 0x00002081, 0x00000080,
    0x00802081, 0x00000081, 0x00000001, 0x00002000, 0x00800001, 0x00002001, 0x00802080, 0x00800081,
    0x00002001, 0x00002080, 0x00800000, 0x00802001, 0x00000080, 0x00800000, 0x00002000, 0x00802080]"

definition SB5 :: "u32 list" where
  "SB5 = [
    0x00000100, 0x02080100, 0x02080000, 0x42000100, 0x00080000, 0x00000100, 0x40000000, 0x02080000,
    0x40080100, 0x00080000, 0x02000100, 0x40080100, 0x42000100, 0x42080000, 0x00080100, 0x40000000,
    0x02000000, 0x40080000, 0x40080000, 0x00000000, 0x40000100, 0x42080100, 0x42080100, 0x02000100,
    0x42080000, 0x40000100, 0x00000000, 0x42000000, 0x02080100, 0x02000000, 0x42000000, 0x00080100,
    0x00080000, 0x42000100, 0x00000100, 0x02000000, 0x40000000, 0x02080000, 0x42000100, 0x40080100,
    0x02000100, 0x40000000, 0x42080000, 0x02080100, 0x40080100, 0x00000100, 0x02000000, 0x42080000,
    0x42080100, 0x00080100, 0x42000000, 0x42080100, 0x02080000, 0x00000000, 0x40080000, 0x42000000,
    0x00080100, 0x02000100, 0x40000100, 0x00080000, 0x00000000, 0x40080000, 0x02080100, 0x40000100]"

definition SB6 :: "u32 list" where
  "SB6 = [
    0x20000010, 0x20400000, 0x00004000, 0x20404010, 0x20400000, 0x00000010, 0x20404010, 0x00400000,
    0x20004000, 0x00404010, 0x00400000, 0x20000010, 0x00400010, 0x20004000, 0x20000000, 0x00004010,
    0x00000000, 0x00400010, 0x20004010, 0x00004000, 0x00404000, 0x20004010, 0x00000010, 0x20400010,
    0x20400010, 0x00000000, 0x00404010, 0x20404000, 0x00004010, 0x00404000, 0x20404000, 0x20000000,
    0x20004000, 0x00000010, 0x20400010, 0x00404000, 0x20404010, 0x00400000, 0x00004010, 0x20000010,
    0x00400000, 0x20004000, 0x20000000, 0x00004010, 0x20000010, 0x20404010, 0x00404000, 0x20400000,
    0x00404010, 0x20404000, 0x00000000, 0x20400010, 0x00000010, 0x00004000, 0x20400000, 0x00404010,
    0x00004000, 0x00400010, 0x20004010, 0x00000000, 0x20404000, 0x20000000, 0x00400010, 0x20004010]"

definition SB7 :: "u32 list" where
  "SB7 = [
    0x00200000, 0x04200002, 0x04000802, 0x00000000, 0x00000800, 0x04000802, 0x00200802, 0x04200800,
    0x04200802, 0x00200000, 0x00000000, 0x04000002, 0x00000002, 0x04000000, 0x04200002, 0x00000802,
    0x04000800, 0x00200802, 0x00200002, 0x04000800, 0x04000002, 0x04200000, 0x04200800, 0x00200002,
    0x04200000, 0x00000800, 0x00000802, 0x04200802, 0x00200800, 0x00000002, 0x04000000, 0x00200800,
    0x04000000, 0x00200800, 0x00200000, 0x04000802, 0x04000802, 0x04200002, 0x04200002, 0x00000002,
    0x00200002, 0x04000000, 0x04000800, 0x00200000, 0x04200800, 0x00000802, 0x00200802, 0x04200800,
    0x00000802, 0x04000002, 0x04200802, 0x04200000, 0x00200800, 0x00000000, 0x00000002, 0x04200802,
    0x00000000, 0x00200802, 0x04200000, 0x00000800, 0x04000002, 0x04000800, 0x00000800, 0x00200002]"

definition SB8 :: "u32 list" where
  "SB8 = [
    0x10001040, 0x00001000, 0x00040000, 0x10041040, 0x10000000, 0x10001040, 0x00000040, 0x10000000,
    0x00040040, 0x10040000, 0x10041040, 0x00041000, 0x10041000, 0x00041040, 0x00001000, 0x00000040,
    0x10040000, 0x10000040, 0x10001000, 0x00001040, 0x00041000, 0x00040040, 0x10040040, 0x10041000,
    0x00001040, 0x00000000, 0x00000000, 0x10040040, 0x10000040, 0x10001000, 0x00041040, 0x00040000,
    0x00041040, 0x00040000, 0x10041000, 0x00001000, 0x00000040, 0x10040040, 0x00001000, 0x00041040,
    0x10001000, 0x00000040, 0x10000040, 0x10040000, 0x10040040, 0x10000000, 0x00040000, 0x10001040,
    0x00000000, 0x10041040, 0x00040040, 0x10000040, 0x10040000, 0x10001000, 0x10001040, 0x00000000,
    0x10041040, 0x00041000, 0x00041000, 0x00001040, 0x00001040, 0x00040040, 0x10000000, 0x10041000]"

definition LHs :: "u32 list" where
  "LHs = [
    0x00000000, 0x00000001, 0x00000100, 0x00000101, 0x00010000, 0x00010001, 0x00010100, 0x00010101,
    0x01000000, 0x01000001, 0x01000100, 0x01000101, 0x01010000, 0x01010001, 0x01010100, 0x01010101]"

definition RHs :: "u32 list" where
  "RHs = [
    0x00000000, 0x01000000, 0x00010000, 0x01010000, 0x00000100, 0x01000100, 0x00010100, 0x01010100,
    0x00000001, 0x01000001, 0x00010001, 0x01010001, 0x00000101, 0x01000101, 0x00010101, 0x01010101]"

section \<open>The key schedule\<close>

text \<open>\<open>GET_UINT32\<close> and \<open>PUT_UINT32\<close>.\<close>

definition GET_UINT32 :: "bytes \<Rightarrow> nat \<Rightarrow> u32" where
  "GET_UINT32 b i = be32 (b ! i) (b ! (i + 1)) (b ! (i + 2)) (b ! (i + 3))"

definition PUT_UINT32 :: "u32 \<Rightarrow> bytes" where
  "PUT_UINT32 n = [ucast (drop_bit 24 n), ucast (drop_bit 16 n), ucast (drop_bit 8 n), ucast n]"

definition at4 :: "u32 list \<Rightarrow> u32 \<Rightarrow> u32" where
  "at4 tab w = tab ! unat (w AND 0xF)"

definition permuted_choice_1 :: "bytes \<Rightarrow> u32 \<times> u32" where
  "permuted_choice_1 key =
     (let X = GET_UINT32 key 0; Y = GET_UINT32 key 4;
          T = (drop_bit 4 Y XOR X) AND 0x0F0F0F0F; X = X XOR T; Y = Y XOR push_bit 4 T;
          T = (Y XOR X) AND 0x10101010; X = X XOR T; Y = Y XOR T;
          X = push_bit 3 (at4 LHs X) OR push_bit 2 (at4 LHs (drop_bit 8 X))
              OR push_bit 1 (at4 LHs (drop_bit 16 X)) OR at4 LHs (drop_bit 24 X)
              OR push_bit 7 (at4 LHs (drop_bit 5 X)) OR push_bit 6 (at4 LHs (drop_bit 13 X))
              OR push_bit 5 (at4 LHs (drop_bit 21 X)) OR push_bit 4 (at4 LHs (drop_bit 29 X));
          Y = push_bit 3 (at4 RHs (drop_bit 1 Y)) OR push_bit 2 (at4 RHs (drop_bit 9 Y))
              OR push_bit 1 (at4 RHs (drop_bit 17 Y)) OR at4 RHs (drop_bit 25 Y)
              OR push_bit 7 (at4 RHs (drop_bit 4 Y)) OR push_bit 6 (at4 RHs (drop_bit 12 Y))
              OR push_bit 5 (at4 RHs (drop_bit 20 Y)) OR push_bit 4 (at4 RHs (drop_bit 28 Y))
      in (X AND 0x0FFFFFFF, Y AND 0x0FFFFFFF))"

definition subkeys :: "u32 \<Rightarrow> u32 \<Rightarrow> u32 list" where
  "subkeys X Y =
     [(push_bit 4 X AND 0x24000000) OR (push_bit 28 X AND 0x10000000)
      OR (push_bit 14 X AND 0x08000000) OR (push_bit 18 X AND 0x02080000)
      OR (push_bit 6 X AND 0x01000000) OR (push_bit 9 X AND 0x00200000)
      OR (drop_bit 1 X AND 0x00100000) OR (push_bit 10 X AND 0x00040000)
      OR (push_bit 2 X AND 0x00020000) OR (drop_bit 10 X AND 0x00010000)
      OR (drop_bit 13 Y AND 0x00002000) OR (drop_bit 4 Y AND 0x00001000)
      OR (push_bit 6 Y AND 0x00000800) OR (drop_bit 1 Y AND 0x00000400)
      OR (drop_bit 14 Y AND 0x00000200) OR (Y AND 0x00000100)
      OR (drop_bit 5 Y AND 0x00000020) OR (drop_bit 10 Y AND 0x00000010)
      OR (drop_bit 3 Y AND 0x00000008) OR (drop_bit 18 Y AND 0x00000004)
      OR (drop_bit 26 Y AND 0x00000002) OR (drop_bit 24 Y AND 0x00000001),
      (push_bit 15 X AND 0x20000000) OR (push_bit 17 X AND 0x10000000)
      OR (push_bit 10 X AND 0x08000000) OR (push_bit 22 X AND 0x04000000)
      OR (drop_bit 2 X AND 0x02000000) OR (push_bit 1 X AND 0x01000000)
      OR (push_bit 16 X AND 0x00200000) OR (push_bit 11 X AND 0x00100000)
      OR (push_bit 3 X AND 0x00080000) OR (drop_bit 6 X AND 0x00040000)
      OR (push_bit 15 X AND 0x00020000) OR (drop_bit 4 X AND 0x00010000)
      OR (drop_bit 2 Y AND 0x00002000) OR (push_bit 8 Y AND 0x00001000)
      OR (drop_bit 14 Y AND 0x00000808) OR (drop_bit 9 Y AND 0x00000400)
      OR (Y AND 0x00000200) OR (push_bit 7 Y AND 0x00000100)
      OR (drop_bit 7 Y AND 0x00000020) OR (drop_bit 3 Y AND 0x00000011)
      OR (push_bit 2 Y AND 0x00000004) OR (drop_bit 21 Y AND 0x00000002)]"

text \<open>The 16 iterations of the loop that computes the subkeys, from \<open>i\<close> on.\<close>

fun ks_loop :: "nat list \<Rightarrow> u32 \<Rightarrow> u32 \<Rightarrow> u32 list" where
  "ks_loop [] X Y = []"
| "ks_loop (i # is) X Y =
     (let n = (if i < 2 \<or> i = 8 \<or> i = 15 then 1 else 2);
          X = (push_bit n X OR drop_bit (28 - n) X) AND 0x0FFFFFFF;
          Y = (push_bit n Y OR drop_bit (28 - n) Y) AND 0x0FFFFFFF
      in subkeys X Y @ ks_loop is X Y)"

definition des_main_ks :: "bytes \<Rightarrow> u32 list" where
  "des_main_ks key = (let (X, Y) = permuted_choice_1 key in ks_loop [0..<16] X Y)"

section \<open>The block cipher\<close>

text \<open>The step \<open>T = ((X >> k) ^ Y) & m; Y ^= T; X ^= (T << k)\<close> of the permutations.\<close>

definition swap_step :: "nat \<Rightarrow> u32 \<Rightarrow> u32 \<times> u32 \<Rightarrow> u32 \<times> u32" where
  "swap_step k m = (\<lambda>(X, Y). let T = (drop_bit k X XOR Y) AND m in (X XOR push_bit k T, Y XOR T))"

definition DES_IP :: "u32 \<times> u32 \<Rightarrow> u32 \<times> u32" where
  "DES_IP s =
     (let (X, Y) = swap_step 4 0x0F0F0F0F s;
          (X, Y) = swap_step 16 0x0000FFFF (X, Y);
          (Y, X) = swap_step 2 0x33333333 (Y, X);
          (Y, X) = swap_step 8 0x00FF00FF (Y, X);
          Y = (push_bit 1 Y OR drop_bit 31 Y) AND 0xFFFFFFFF;
          T = (X XOR Y) AND 0xAAAAAAAA; Y = Y XOR T; X = X XOR T;
          X = (push_bit 1 X OR drop_bit 31 X) AND 0xFFFFFFFF
      in (X, Y))"

definition DES_FP :: "u32 \<times> u32 \<Rightarrow> u32 \<times> u32" where
  "DES_FP = (\<lambda>(X, Y).
     let X = (push_bit 31 X OR drop_bit 1 X) AND 0xFFFFFFFF;
         T = (X XOR Y) AND 0xAAAAAAAA; X = X XOR T; Y = Y XOR T;
         Y = (push_bit 31 Y OR drop_bit 1 Y) AND 0xFFFFFFFF;
         (Y, X) = swap_step 8 0x00FF00FF (Y, X);
         (Y, X) = swap_step 2 0x33333333 (Y, X);
         (X, Y) = swap_step 16 0x0000FFFF (X, Y)
     in swap_step 4 0x0F0F0F0F (X, Y))"

definition at6 :: "u32 list \<Rightarrow> u32 \<Rightarrow> u32" where
  "at6 tab w = tab ! unat (w AND 0x3F)"

text \<open>\<open>DES_ROUND\<close>: the new \<open>Y\<close>.\<close>

definition DES_ROUND :: "u32 \<Rightarrow> u32 \<Rightarrow> u32 \<Rightarrow> u32 \<Rightarrow> u32" where
  "DES_ROUND k1 k2 X Y =
     (let T = k1 XOR X;
          Y = Y XOR (at6 SB8 T XOR at6 SB6 (drop_bit 8 T) XOR at6 SB4 (drop_bit 16 T) XOR at6 SB2 (drop_bit 24 T));
          T = k2 XOR (push_bit 28 X OR drop_bit 4 X)
      in Y XOR (at6 SB7 T XOR at6 SB5 (drop_bit 8 T) XOR at6 SB3 (drop_bit 16 T) XOR at6 SB1 (drop_bit 24 T)))"

text \<open>The lines \<open>DES_ROUND( Y, X );  DES_ROUND( X, Y );\<close> of \<open>des_crypt\<close>.\<close>

fun des_rounds :: "u32 list \<Rightarrow> u32 \<times> u32 \<Rightarrow> u32 \<times> u32" where
  "des_rounds (k1 # k2 # k3 # k4 # ks) (X, Y) =
     (let X = DES_ROUND k1 k2 Y X; Y = DES_ROUND k3 k4 X Y in des_rounds ks (X, Y))"
| "des_rounds ks s = s"

definition des_crypt :: "u32 list \<Rightarrow> bytes \<Rightarrow> bytes" where
  "des_crypt SK input =
     (let (X, Y) = DES_IP (GET_UINT32 input 0, GET_UINT32 input 4);
          (X, Y) = des_rounds SK (X, Y);
          (Y, X) = DES_FP (Y, X)
      in PUT_UINT32 Y @ PUT_UINT32 X)"

section \<open>The Lua functions\<close>

definition des_key :: "bytes \<Rightarrow> string + u32 list" where
  "des_key key = (if length key \<noteq> 8 then Inl (''Invalid key size '' @ fmt_d (int (length key)) @ '', need 8 bytes'') else Inr (des_main_ks key))"

text \<open>The blocks of \<open>ldesencode\<close>; the last one is padded with 0x80 and zeros.\<close>

function encode_blocks :: "u32 list \<Rightarrow> bytes \<Rightarrow> bytes" where
  "encode_blocks SK text =
     (if 8 \<le> length text then des_crypt SK (take 8 text) @ encode_blocks SK (drop 8 text)
      else des_crypt SK (map (\<lambda>j. if j < length text then text ! j else if j = length text then 0x80 else 0) [0..<8]))"
  by pat_completeness auto
termination by (relation "measure (\<lambda>(SK, text). length text)") auto

declare encode_blocks.simps [simp del]

definition ldesencode :: "bytes \<Rightarrow> bytes \<Rightarrow> string + bytes" where
  "ldesencode key text = (case des_key key of Inl e \<Rightarrow> Inl e | Inr SK \<Rightarrow> Inr (encode_blocks SK text))"

definition decode_keys :: "u32 list \<Rightarrow> u32 list" where
  "decode_keys ESK = concat (map (\<lambda>j. [ESK ! (30 - 2 * j), ESK ! (31 - 2 * j)]) [0..<16])"

function decode_blocks :: "u32 list \<Rightarrow> bytes \<Rightarrow> bytes" where
  "decode_blocks SK text =
     (if text = [] then [] else des_crypt SK (take 8 text) @ decode_blocks SK (drop 8 text))"
  by pat_completeness auto
termination by (relation "measure (\<lambda>(SK, text). length text)") auto

declare decode_blocks.simps [simp del]

text \<open>
  The loop \<open>for (i=textsz-1;i>=textsz-8;i--)\<close> of \<open>ldesdecode\<close>. The comparison is between unsigned
  64 bit numbers, so a negative \<open>i\<close> is above every bound; \<open>None\<close> is a read outside the buffer.
\<close>

function padding_loop :: "bytes \<Rightarrow> int \<Rightarrow> nat \<Rightarrow> (string + nat) option" where
  "padding_loop buffer i padding =
     (if \<not> (i < 0 \<or> int (length buffer) - 8 \<le> i) then Some (Inr padding)
      else if i < 0 \<or> int (length buffer) \<le> i then None
      else if buffer ! nat i = 0 then padding_loop buffer (i - 1) (padding + 1)
      else if buffer ! nat i = 0x80 then Some (Inr padding)
      else Some (Inl ''Invalid des crypt text''))"
  by pat_completeness auto
termination by (relation "measure (\<lambda>(buffer, i, padding). nat (i + 1))") auto

declare padding_loop.simps [simp del]

definition ldesdecode :: "bytes \<Rightarrow> bytes \<Rightarrow> (string + bytes) option" where
  "ldesdecode key text =
     (case des_key key of Inl e \<Rightarrow> Some (Inl e)
      | Inr ESK \<Rightarrow>
          (let SK = decode_keys ESK; textsz = length text
           in if textsz mod 8 \<noteq> 0 \<or> textsz = 0 then Some (Inl (''Invalid des crypt text length '' @ fmt_d (int textsz)))
              else (let buffer = decode_blocks SK text
                in case padding_loop buffer (int textsz - 1) 1 of
                     None \<Rightarrow> None
                   | Some (Inl e) \<Rightarrow> Some (Inl e)
                   | Some (Inr padding) \<Rightarrow>
                       if padding > 8 then Some (Inl ''Invalid des crypt text'')
                       else Some (Inr (take (textsz - padding) buffer)))))"

section \<open>Decryption inverts encryption\<close>

subsection \<open>The permutations\<close>

lemma xor_cancel: "(a XOR b) XOR b = (a :: 'a::len word)"
  by (rule bit_word_eqI) (auto simp: bit_simps)

lemma swap_step_inv:
  assumes "drop_bit k (push_bit k m) = m"
  shows "swap_step k m (swap_step k m s) = s"
proof -
  obtain X Y where s: "s = (X, Y)" by (cases s)
  let ?T = "(drop_bit k X XOR Y) AND m"
  have k: "bit m n \<Longrightarrow> k + n < 32" for n
    using arg_cong [OF assms, of "\<lambda>w. bit w n"] by (simp add: bit_simps)
  have "drop_bit k (push_bit k ?T) = ?T"
  proof (rule bit_word_eqI)
    fix n
    show "bit (drop_bit k (push_bit k ?T)) n = bit ?T n"
      using k [of n] by (cases "bit m n") (simp_all add: bit_simps)
  qed
  then have "(drop_bit k (X XOR push_bit k ?T) XOR (Y XOR ?T)) AND m = ?T"
    by (intro bit_word_eqI) (auto simp: bit_simps)
  then show ?thesis unfolding s swap_step_def Let_def prod.case by (simp add: xor_cancel)
qed

lemma mask_fits:
  "drop_bit 4 (push_bit 4 0x0F0F0F0F) = (0x0F0F0F0F :: u32)" "drop_bit 16 (push_bit 16 0xFFFF) = (0xFFFF :: u32)"
  "drop_bit 2 (push_bit 2 0x33333333) = (0x33333333 :: u32)" "drop_bit 8 (push_bit 8 0x00FF00FF) = (0x00FF00FF :: u32)"
  by simp_all

lemma rotate_inv:
  assumes "a + b = 32"
  shows "push_bit b (push_bit a w OR drop_bit b w) OR drop_bit a (push_bit a w OR drop_bit b w) = (w :: u32)"
proof (rule bit_word_eqI)
  fix n assume "n < LENGTH(32)"
  then have n: "n < 32" by simp
  have out: "32 \<le> m \<Longrightarrow> \<not> bit w m" for m using bit_imp_le_length [of w m] by auto
  show "bit (push_bit b (push_bit a w OR drop_bit b w) OR drop_bit a (push_bit a w OR drop_bit b w)) n = bit w n"
  proof (cases "b \<le> n")
    case True
    then have "\<not> a \<le> n - b" "b + (n - b) = n" using assms n by auto
    moreover have "\<not> bit w (b + (a + n))" using assms by (intro out) simp
    ultimately show ?thesis using True n assms by (simp add: bit_simps)
  next
    case False
    moreover have "\<not> bit w (b + (a + n))" using assms by (intro out) simp
    ultimately show ?thesis using n assms by (simp add: bit_simps)
  qed
qed

lemma and_all: "w AND 0xFFFFFFFF = (w :: u32)"
proof -
  have "(0xFFFFFFFF :: u32) = -1" by simp
  then show ?thesis by (simp only: and.right_neutral)
qed

lemma exchange_inv:
  fixes X Y m :: u32
  defines "T \<equiv> (X XOR Y) AND m"
  shows "((X XOR T) XOR (Y XOR T)) AND m = T" "((Y XOR T) XOR (X XOR T)) AND m = T"
  unfolding T_def by (rule bit_word_eqI; auto simp: bit_simps)+

lemma FP_IP: "DES_FP (DES_IP s) = s"
proof -
  obtain X1 Y1 where a: "swap_step 4 0x0F0F0F0F s = (X1, Y1)" by force
  obtain X2 Y2 where b: "swap_step 16 0x0000FFFF (X1, Y1) = (X2, Y2)" by force
  obtain X3 Y3 where c: "swap_step 2 0x33333333 (Y2, X2) = (Y3, X3)" by force
  obtain X4 Y4 where d: "swap_step 8 0x00FF00FF (Y3, X3) = (Y4, X4)" by force
  define Y5 where "Y5 = push_bit 1 Y4 OR drop_bit 31 Y4"
  define T where "T = (X4 XOR Y5) AND 0xAAAAAAAA"
  define X7 where "X7 = push_bit 1 (X4 XOR T) OR drop_bit 31 (X4 XOR T)"
  have ip: "DES_IP s = (X7, Y5 XOR T)"
    unfolding DES_IP_def Let_def a b c d prod.case and_all Y5_def [symmetric] T_def [symmetric] X7_def by (rule refl)
  have i: "swap_step 4 0x0F0F0F0F (X1, Y1) = s" "swap_step 16 0x0000FFFF (X2, Y2) = (X1, Y1)"
    "swap_step 2 0x33333333 (Y3, X3) = (Y2, X2)" "swap_step 8 0x00FF00FF (Y4, X4) = (Y3, X3)"
    using swap_step_inv [OF mask_fits(1), of s] swap_step_inv [OF mask_fits(2), of "(X1, Y1)"]
      swap_step_inv [OF mask_fits(3), of "(Y2, X2)"] swap_step_inv [OF mask_fits(4), of "(Y3, X3)"]
    unfolding a b c d by simp_all
  have x: "push_bit 31 X7 OR drop_bit 1 X7 = X4 XOR T" unfolding X7_def by (rule rotate_inv) simp
  have y: "push_bit 31 Y5 OR drop_bit 1 Y5 = Y4" unfolding Y5_def by (rule rotate_inv) simp
  have t: "((X4 XOR T) XOR (Y5 XOR T)) AND 0xAAAAAAAA = T" unfolding T_def by (rule exchange_inv)
  show ?thesis unfolding ip DES_FP_def Let_def prod.case and_all x t xor_cancel y i by (rule refl)
qed

lemma IP_FP: "DES_IP (DES_FP s) = s"
proof -
  obtain X0 Y0 where s: "s = (X0, Y0)" by (cases s)
  define X1 where "X1 = push_bit 31 X0 OR drop_bit 1 X0"
  define T where "T = (X1 XOR Y0) AND 0xAAAAAAAA"
  define Y3 where "Y3 = push_bit 31 (Y0 XOR T) OR drop_bit 1 (Y0 XOR T)"
  obtain X4 Y4 where a: "swap_step 8 0x00FF00FF (Y3, X1 XOR T) = (Y4, X4)" by force
  obtain X5 Y5 where b: "swap_step 2 0x33333333 (Y4, X4) = (Y5, X5)" by force
  obtain X6 Y6 where c: "swap_step 16 0x0000FFFF (X5, Y5) = (X6, Y6)" by force
  obtain X7 Y7 where d: "swap_step 4 0x0F0F0F0F (X6, Y6) = (X7, Y7)" by force
  have fp: "DES_FP (X0, Y0) = (X7, Y7)"
    unfolding DES_FP_def Let_def prod.case and_all X1_def [symmetric] T_def [symmetric] Y3_def [symmetric] a b c d by (rule refl)
  have i: "swap_step 4 0x0F0F0F0F (X7, Y7) = (X6, Y6)" "swap_step 16 0x0000FFFF (X6, Y6) = (X5, Y5)"
    "swap_step 2 0x33333333 (Y5, X5) = (Y4, X4)" "swap_step 8 0x00FF00FF (Y4, X4) = (Y3, X1 XOR T)"
    using swap_step_inv [OF mask_fits(1), of "(X6, Y6)"] swap_step_inv [OF mask_fits(2), of "(X5, Y5)"]
      swap_step_inv [OF mask_fits(3), of "(Y4, X4)"] swap_step_inv [OF mask_fits(4), of "(Y3, X1 XOR T)"]
    unfolding a b c d by simp_all
  have y: "push_bit 1 Y3 OR drop_bit 31 Y3 = Y0 XOR T" unfolding Y3_def by (rule rotate_inv) simp
  have x: "push_bit 1 X1 OR drop_bit 31 X1 = X0" unfolding X1_def by (rule rotate_inv) simp
  have t: "((X1 XOR T) XOR (Y0 XOR T)) AND 0xAAAAAAAA = T" unfolding T_def by (rule exchange_inv)
  show ?thesis unfolding s fp DES_IP_def Let_def i prod.case and_all y t xor_cancel x by (rule refl)
qed

subsection \<open>The rounds\<close>

text \<open>A round as one step of a Feistel network, on the pairs of subkeys.\<close>

definition feistel :: "(u32 \<times> u32) \<Rightarrow> u32 \<times> u32 \<Rightarrow> u32 \<times> u32" where
  "feistel k s = (snd s, DES_ROUND (fst k) (snd k) (snd s) (fst s))"

fun key_pairs :: "u32 list \<Rightarrow> (u32 \<times> u32) list" where
  "key_pairs (a # b # ks) = (a, b) # key_pairs ks"
| "key_pairs ks = []"

lemma round_inv: "DES_ROUND k1 k2 X (DES_ROUND k1 k2 X Y) = Y"
proof -
  obtain f where f: "\<And>Y. DES_ROUND k1 k2 X Y = Y XOR f"
    unfolding DES_ROUND_def Let_def xor.assoc by blast
  show ?thesis unfolding f by (rule xor_cancel)
qed

lemma feistel_inv: "feistel k (prod.swap (feistel k s)) = prod.swap s"
  by (simp add: feistel_def round_inv prod.swap_def)

lemma feistels_inv:
  "foldl (\<lambda>s k. feistel k s) (prod.swap (foldl (\<lambda>s k. feistel k s) s ks)) (rev ks) = prod.swap s"
proof (induction ks rule: rev_induct)
  case Nil
  then show ?case by simp
next
  case (snoc k ks)
  then show ?case by (simp add: feistel_inv)
qed

lemma des_rounds_feistel:
  "4 dvd length ks \<Longrightarrow> des_rounds ks s = foldl (\<lambda>s k. feistel k s) s (key_pairs ks)"
proof (induction ks s rule: des_rounds.induct)
  case (1 k1 k2 k3 k4 ks X Y)
  have "4 dvd length ks" using 1(2) dvd_add_right_iff [of 4 4 "length ks"] by (simp add: eval_nat_numeral)
  then show ?case using 1(1) by (simp add: feistel_def Let_def)
qed (auto dest: dvd_imp_le)

lemma key_pairs_flat: "key_pairs (concat (map (\<lambda>j. [a j, b j]) js)) = map (\<lambda>j. (a j, b j)) js"
  by (induction js) auto

lemma key_pairs_nth: "even (length ks) \<Longrightarrow> key_pairs ks = map (\<lambda>j. (ks ! (2 * j), ks ! (2 * j + 1))) [0..<length ks div 2]"
proof (induction ks rule: key_pairs.induct)
  case (1 a b ks)
  have "[0..<length (a # b # ks) div 2] = 0 # map Suc [0..<length ks div 2]"
    by (simp add: map_Suc_upt upt_conv_Cons del: upt_Suc)
  then show ?case using 1 by (simp add: comp_def)
qed auto

lemma decode_keys_rev:
  assumes "length ks = 32"
  shows "key_pairs (decode_keys ks) = rev (key_pairs ks)"
proof -
  have u: "[0..<16] = [0, 1, 2, 3, 4, 5, 6, 7, 8, 9, 10, 11, 12, 13, 14, 15::nat]" by (simp add: upt_rec)
  have "key_pairs ks = map (\<lambda>j. (ks ! (2 * j), ks ! (2 * j + 1))) [0..<16]"
    using key_pairs_nth [of ks] assms by simp
  moreover have "key_pairs (decode_keys ks) = map (\<lambda>j. (ks ! (30 - 2 * j), ks ! (31 - 2 * j))) [0..<16]"
    by (simp only: decode_keys_def key_pairs_flat)
  ultimately show ?thesis unfolding u by simp
qed

lemma length_ks: "length (ks_loop is X Y) = 2 * length is"
  by (induction "is" X Y rule: ks_loop.induct) (simp_all add: Let_def subkeys_def)

lemma length_main_ks: "length (des_main_ks key) = 32"
  by (simp add: des_main_ks_def split_beta length_ks)

lemma length_decode_keys: "length (decode_keys ks) = 32"
  by (simp add: decode_keys_def length_concat comp_def sum_list_triv)

lemma rounds_inv:
  assumes "length ks = 32"
  shows "des_rounds (decode_keys ks) (prod.swap (des_rounds ks s)) = prod.swap s"
proof -
  have "4 dvd length ks" "4 dvd length (decode_keys ks)" using assms length_decode_keys [of ks] by simp_all
  then show ?thesis by (simp add: des_rounds_feistel decode_keys_rev [OF assms] feistels_inv)
qed

subsection \<open>Blocks\<close>

lemma length_PUT [simp]: "length (PUT_UINT32 n) = 4"
  by (simp add: PUT_UINT32_def)

lemma length_des_crypt [simp]: "length (des_crypt SK b) = 8"
  by (simp add: des_crypt_def split_beta Let_def)

lemma GET_PUT: "GET_UINT32 (PUT_UINT32 m @ PUT_UINT32 n) 0 = m" "GET_UINT32 (PUT_UINT32 m @ PUT_UINT32 n) 4 = n"
proof -
  have w: "be32 (ucast (drop_bit 24 n)) (ucast (drop_bit 16 n)) (ucast (drop_bit 8 n)) (ucast n) = n" for n :: u32
  proof (rule bit_word_eqI)
    fix i assume "i < LENGTH(32)"
    then have "i < 8 \<or> (8 \<le> i \<and> i < 16) \<or> (16 \<le> i \<and> i < 24) \<or> (24 \<le> i \<and> i < 32)" by auto
    then show "bit (be32 (ucast (drop_bit 24 n)) (ucast (drop_bit 16 n)) (ucast (drop_bit 8 n)) (ucast n)) i = bit n i"
      by (auto simp: be32_def bit_simps)
  qed
  show "GET_UINT32 (PUT_UINT32 m @ PUT_UINT32 n) 0 = m" "GET_UINT32 (PUT_UINT32 m @ PUT_UINT32 n) 4 = n"
    by (simp_all add: GET_UINT32_def PUT_UINT32_def w)
qed

lemma PUT_GET:
  assumes "length b = 8"
  shows "PUT_UINT32 (GET_UINT32 b 0) @ PUT_UINT32 (GET_UINT32 b 4) = b"
proof -
  have w: "PUT_UINT32 (be32 w x y z) = [w, x, y, z]" for w x y z
  proof -
    have "ucast (drop_bit 24 (be32 w x y z)) = w" "ucast (drop_bit 16 (be32 w x y z)) = x"
      "ucast (drop_bit 8 (be32 w x y z)) = y" "ucast (be32 w x y z) = z"
      by (rule bit_word_eqI; auto simp: be32_def bit_simps dest: bit_imp_le_length)+
    then show ?thesis by (simp add: PUT_UINT32_def)
  qed
  have "length b = Suc (Suc (Suc (Suc (Suc (Suc (Suc (Suc 0)))))))" using assms by simp
  then obtain b0 b1 b2 b3 b4 b5 b6 b7 where "b = [b0, b1, b2, b3, b4, b5, b6, b7]" by (auto simp: length_Suc_conv)
  then show ?thesis by (simp add: GET_UINT32_def w)
qed

lemma des_crypt_inv:
  assumes "length SK = 32" "length b = 8"
  shows "des_crypt (decode_keys SK) (des_crypt SK b) = b"
proof -
  define s0 where "s0 = DES_IP (GET_UINT32 b 0, GET_UINT32 b 4)"
  obtain X Y where r: "des_rounds SK s0 = (X, Y)" by force
  obtain Y' X' where fp: "DES_FP (Y, X) = (Y', X')" by force
  have c: "des_crypt SK b = PUT_UINT32 Y' @ PUT_UINT32 X'"
    by (simp add: des_crypt_def s0_def [symmetric] r fp)
  have ip: "DES_IP (Y', X') = (Y, X)" using IP_FP [of "(Y, X)"] by (simp add: fp)
  have "des_rounds (decode_keys SK) (Y, X) = prod.swap s0"
    using rounds_inv [OF assms(1), of s0] by (simp add: r prod.swap_def)
  then have d: "des_rounds (decode_keys SK) (Y, X) = (snd s0, fst s0)" by (simp add: prod.swap_def)
  have "DES_FP (fst s0, snd s0) = (GET_UINT32 b 0, GET_UINT32 b 4)" using FP_IP by (simp add: s0_def)
  then show ?thesis
    using PUT_GET [OF assms(2)] by (simp add: c des_crypt_def [of "decode_keys SK"] GET_PUT ip d)
qed


subsection \<open>The text\<close>

definition pad :: "bytes \<Rightarrow> bytes" where
  "pad text = text @ 0x80 # replicate (7 - length text mod 8) 0"

lemma last_block:
  assumes "length text < 8"
  shows "map (\<lambda>j. if j < length text then text ! j else if j = length text then 0x80 else 0) [0..<8] = pad text"
  using assms by (intro nth_equalityI) (auto simp: pad_def nth_append nth_Cons')

lemma pad_drop: "8 \<le> length text \<Longrightarrow> pad text = take 8 text @ pad (drop 8 text)"
  by (simp add: pad_def le_mod_geq [of 8 "length text"])

lemma decode_blocks_append:
  "decode_blocks SK (des_crypt K b @ bs) = des_crypt SK (des_crypt K b) @ decode_blocks SK bs"
proof -
  have "des_crypt K b \<noteq> []" using length_des_crypt [of K b] by (metis list.size(3) zero_neq_numeral)
  then show ?thesis by (subst decode_blocks.simps) simp
qed

lemma decode_blocks_single: "decode_blocks SK (des_crypt K b) = des_crypt SK (des_crypt K b)"
  using decode_blocks_append [of SK K b "[]"] by (simp add: decode_blocks.simps [of SK "[]"])

lemmas decode_blocks_cons = decode_blocks_append decode_blocks_single

lemma decode_encode:
  assumes "length SK = 32"
  shows "decode_blocks (decode_keys SK) (encode_blocks SK text) = pad text"
proof (induction "text" rule: length_induct)
  case (1 "text")
  show ?case
  proof (cases "8 \<le> length text")
    case True
    then have "length (drop 8 text) < length text" by simp
    then have "decode_blocks (decode_keys SK) (encode_blocks SK (drop 8 text)) = pad (drop 8 text)" using 1 by blast
    then show ?thesis using True
      by (simp add: encode_blocks.simps [of SK "text"] decode_blocks_cons des_crypt_inv [OF assms] pad_drop)
  next
    case False
    then have e: "encode_blocks SK text = des_crypt SK (pad text)"
      by (simp add: encode_blocks.simps [of SK "text"] last_block)
    have "length (pad text) = 8" using False by (simp add: pad_def)
    then show ?thesis by (simp add: e decode_blocks_cons des_crypt_inv [OF assms])
  qed
qed

lemma length_encode_blocks: "length (encode_blocks SK text) = length (pad text)"
proof (induction "text" rule: length_induct)
  case (1 "text")
  then show ?case
    by (cases "8 \<le> length text") (simp_all add: encode_blocks.simps [of SK "text"] pad_drop, simp add: pad_def)
qed

lemma length_pad: "length (pad text) = 8 * (length text div 8) + 8"
proof -
  define q r where "q = length text div 8" and "r = length text mod 8"
  have "length text = 8 * q + r" "r < 8" by (simp_all add: q_def r_def)
  then show ?thesis by (simp add: pad_def flip: q_def r_def)
qed

text \<open>The padding loop finds the 0x80 behind the zeros.\<close>

lemma padding_loop_pad:
  assumes "buffer = text @ 0x80 # replicate m 0" "k \<le> m" "m < 8"
  shows "padding_loop buffer (int (length text + k)) p = Some (Inr (p + k))"
  using assms(2)
proof (induction k arbitrary: p)
  case 0
  then show ?case using assms by (subst padding_loop.simps) (simp add: nth_append)
next
  case (Suc k)
  have n: "nat (int (length text + Suc k)) = length text + Suc k" by simp
  have "buffer ! (length text + Suc k) = 0" using Suc.prems by (simp add: assms(1) nth_append)
  moreover have "int (length buffer) - 8 \<le> int (length text + Suc k)" "\<not> int (length buffer) \<le> int (length text + Suc k)"
    "\<not> int (length text + Suc k) < 0"
    using Suc.prems assms by simp_all
  moreover have "padding_loop buffer (int (length text + k)) (p + 1) = Some (Inr (p + Suc k))"
    using Suc by simp
  moreover have "int (length text + Suc k) - 1 = int (length text + k)" by simp
  ultimately show ?case unfolding padding_loop.simps [of buffer "int (length text + Suc k)" p] n
    by (simp only: simp_thms if_False if_True)
qed

lemma ldesdecode_encode:
  assumes "length key = 8"
  shows "ldesdecode key (encode_blocks (des_main_ks key) text) = Some (Inr text)"
proof -
  let ?m = "7 - length text mod 8"
  let ?SK = "des_main_ks key"
  have "padding_loop (pad text) (int (length text + ?m)) 1 = Some (Inr (1 + ?m))"
    by (rule padding_loop_pad [where m = ?m]) (simp_all add: pad_def)
  moreover have "int (length (pad text)) - 1 = int (length text + ?m)" by (simp add: pad_def)
  ultimately have l: "padding_loop (pad text) (int (length (pad text)) - 1) 1 = Some (Inr (1 + ?m))" by (simp only:)
  have t: "take (length (pad text) - (1 + ?m)) (pad text) = text" by (simp add: pad_def)
  have m: "length (pad text) mod 8 = 0" "length (pad text) \<noteq> 0" using length_pad [of "text"] by simp_all
  show ?thesis
    using l t m
    by (simp add: ldesdecode_def des_key_def assms Let_def length_encode_blocks decode_encode [OF length_main_ks])
qed

section \<open>Properties\<close>

text \<open>C15: decoding with the same key what \<open>ldesencode\<close> made of a text gives the text back, for every
  text (empty, or with any last bytes) and every key of 8 bytes.\<close>

theorem des_roundtrip:
  assumes "ldesencode key text = Inr c"
  shows "ldesdecode key c = Some (Inr text)"
  using assms ldesdecode_encode [of key "text"] by (auto simp: ldesencode_def des_key_def split: if_splits)

theorem des_roundtrip_witness:
  "\<exists>c. ldesencode [1, 2, 3, 4, 5, 6, 7, 8] [72, 105] = Inr c \<and> ldesdecode [1, 2, 3, 4, 5, 6, 7, 8] c = Some (Inr [72, 105])"
proof -
  let ?k = "[1, 2, 3, 4, 5, 6, 7, 8] :: bytes"
  have "ldesencode ?k [72, 105] = Inr (encode_blocks (des_main_ks ?k) [72, 105])" by (simp add: ldesencode_def des_key_def)
  then show ?thesis using des_roundtrip by blast
qed

text \<open>\<open>ldesdecode\<close> does not reject every text that is no encryption: the 8 byte text that decrypts to
  zeros makes its padding loop, whose bound \<open>textsz-8\<close> is an unsigned 0, run past the start of the buffer.\<close>

theorem desdecode_reads_before_buffer:
  assumes "length key = 8"
  shows "ldesdecode key (des_crypt (des_main_ks key) (replicate 8 0)) = None"
proof -
  let ?b = "replicate 8 (0 :: u8)"
  have z: "padding_loop ?b (int k) p = padding_loop ?b (int k - 1) (p + 1)" if "k < 8" for k p
    using that by (subst padding_loop.simps) simp
  have e: "padding_loop ?b (- 1) p = None" for p by (subst padding_loop.simps) simp
  have "padding_loop ?b 7 1 = None"
    by (simp add: z [of 7, simplified] z [of 6, simplified] z [of 5, simplified] z [of 4, simplified] z [of 3, simplified]
        z [of 2, simplified] z [of 1, simplified] z [of 0, simplified] e)
  moreover have "decode_blocks (decode_keys (des_main_ks key)) (des_crypt (des_main_ks key) ?b) = ?b"
    by (simp add: decode_blocks_single des_crypt_inv [OF length_main_ks])
  moreover have "des_crypt (des_main_ks key) ?b \<noteq> []"
    using length_des_crypt [of "des_main_ks key" ?b] by (metis list.size(3) zero_neq_numeral)
  ultimately show ?thesis by (simp add: ldesdecode_def des_key_def assms Let_def)
qed

theorem desdecode_reads_before_buffer_witness:
  "ldesdecode (replicate 8 1) (des_crypt (des_main_ks (replicate 8 1)) (replicate 8 0)) = None"
  by (rule desdecode_reads_before_buffer) simp

end
