(* ===== verification/Crypt.thy ===== *)
theory Crypt
  imports Des Skynet_H
begin

text \<open>
  The rest of \<open>lualib-src/lua-crypt.c\<close>: hexadecimal and base64 text, the string hash, the 64 bit
  message authentication code and the Diffie-Hellman exchange over 64 bit words. A Lua string is
  its list of bytes, shorter than \<open>2 ^ 29\<close>; the result of a Lua function is \<open>Inl\<close> the text of a Lua
  error or \<open>Inr\<close> what it returns.
\<close>

unbundle bit_operations_syntax

section \<open>Hexadecimal text\<close>

definition hex :: bytes where "hex = string_bytes ''0123456789abcdef''"

definition ltohex :: "bytes \<Rightarrow> bytes" where
  "ltohex text = concat (map (\<lambda>b. [hex ! unat (drop_bit 4 b), hex ! unat (b AND 0xf)]) text)"

definition HEX :: "u8 \<Rightarrow> u8" where
  "HEX c = (if 48 \<le> c \<and> c \<le> 57 then c - 48 else c - 97 + 10)"

text \<open>The loop of \<open>lfromhex\<close>; the byte behind the last one of a Lua string is 0.\<close>

fun fromhex_loop :: "bytes \<Rightarrow> string + bytes" where
  "fromhex_loop [] = Inr []"
| "fromhex_loop (c # cs) =
     (let hi = HEX c; low = HEX (case cs of [] \<Rightarrow> 0 | d # ds \<Rightarrow> d)
      in if hi > 16 \<or> low > 16 then Inl ''Invalid hex text''
         else case fromhex_loop (tl cs) of Inl e \<Rightarrow> Inl e | Inr bs \<Rightarrow> Inr ((push_bit 4 hi OR low) # bs))"

definition lfromhex :: "bytes \<Rightarrow> string + bytes" where
  "lfromhex text =
     (if length text AND 2 \<noteq> 0 then Inl (''Invalid hex text size '' @ fmt_d (int (length text)))
      else fromhex_loop text)"

section \<open>Hash and message authentication\<close>

definition hmac_k :: "u32 list" where
  "hmac_k = [
    0xd76aa478, 0xe8c7b756, 0x242070db, 0xc1bdceee, 0xf57c0faf, 0x4787c62a, 0xa8304613, 0xfd469501,
    0x698098d8, 0x8b44f7af, 0xffff5bb1, 0x895cd7be, 0x6b901122, 0xfd987193, 0xa679438e, 0x49b40821,
    0xf61e2562, 0xc040b340, 0x265e5a51, 0xe9b6c7aa, 0xd62f105d, 0x02441453, 0xd8a1e681, 0xe7d3fbc8,
    0x21e1cde6, 0xc33707d6, 0xf4d50d87, 0x455a14ed, 0xa9e3e905, 0xfcefa3f8, 0x676f02d9, 0x8d2a4c8a,
    0xfffa3942, 0x8771f681, 0x6d9d6122, 0xfde5380c, 0xa4beea44, 0x4bdecfa9, 0xf6bb4b60, 0xbebfbc70,
    0x289b7ec6, 0xeaa127fa, 0xd4ef3085, 0x04881d05, 0xd9d4d039, 0xe6db99e5, 0x1fa27cf8, 0xc4ac5665,
    0xf4292244, 0x432aff97, 0xab9423a7, 0xfc93a039, 0x655b59c3, 0x8f0ccc92, 0xffeff47d, 0x85845dd1,
    0x6fa87e4f, 0xfe2ce6e0, 0xa3014314, 0x4e0811a1, 0xf7537e82, 0xbd3af235, 0x2ad7d2bb, 0xeb86d391]"

definition hmac_r :: "nat list" where
  "hmac_r = [
    7, 12, 17, 22, 7, 12, 17, 22, 7, 12, 17, 22, 7, 12, 17, 22,
    5, 9, 14, 20, 5, 9, 14, 20, 5, 9, 14, 20, 5, 9, 14, 20,
    4, 11, 16, 23, 4, 11, 16, 23, 4, 11, 16, 23, 4, 11, 16, 23,
    6, 10, 15, 21, 6, 10, 15, 21, 6, 10, 15, 21, 6, 10, 15, 21]"

definition LEFTROTATE :: "u32 \<Rightarrow> nat \<Rightarrow> u32" where
  "LEFTROTATE x c = push_bit c x OR drop_bit (32 - c) x"

definition hmac_step :: "u32 list \<Rightarrow> nat \<Rightarrow> u32 \<times> u32 \<times> u32 \<times> u32 \<Rightarrow> u32 \<times> u32 \<times> u32 \<times> u32" where
  "hmac_step w i = (\<lambda>(a, b, c, d).
     let (f, g) =
       (if i < 16 then ((b AND c) OR (NOT b AND d), i)
        else if i < 32 then ((d AND b) OR (NOT d AND c), (5 * i + 1) mod 16)
        else if i < 48 then (b XOR c XOR d, (3 * i + 5) mod 16)
        else (c XOR (b OR NOT d), (7 * i) mod 16))
     in (d, b + LEFTROTATE (a + f + hmac_k ! i + w ! g) (hmac_r ! i), b, c))"

definition hmac :: "u32 \<times> u32 \<Rightarrow> u32 \<times> u32 \<Rightarrow> u32 \<times> u32" where
  "hmac x y =
     (let w = concat (replicate 4 [snd x, fst x, snd y, fst y]);
          (a, b, c, d) = fold (hmac_step w) [0..<64] (0x67452301, 0xefcdab89, 0x98badcfe, 0x10325476)
      in (c XOR d, a XOR b))"

definition le32 :: "bytes \<Rightarrow> nat \<Rightarrow> u32" where
  "le32 x i = ucast (x ! i) OR push_bit 8 (ucast (x ! (i + 1))) OR push_bit 16 (ucast (x ! (i + 2)))
     OR push_bit 24 (ucast (x ! (i + 3)))"

definition le32_bytes :: "u32 \<Rightarrow> bytes" where
  "le32_bytes w = [ucast w, ucast (drop_bit 8 w), ucast (drop_bit 16 w), ucast (drop_bit 24 w)]"

definition read64 :: "bytes \<Rightarrow> bytes \<Rightarrow> string + (u32 \<times> u32) \<times> (u32 \<times> u32)" where
  "read64 x y =
     (if length x \<noteq> 8 then Inl ''Invalid uint64 x''
      else if length y \<noteq> 8 then Inl ''Invalid uint64 y''
      else Inr ((le32 x 0, le32 x 4), (le32 y 0, le32 y 4)))"

definition pushqword :: "u32 \<times> u32 \<Rightarrow> bytes" where
  "pushqword result = le32_bytes (fst result) @ le32_bytes (snd result)"

definition lhmac64 :: "bytes \<Rightarrow> bytes \<Rightarrow> string + bytes" where
  "lhmac64 x y = (case read64 x y of Inl e \<Rightarrow> Inl e | Inr (x, y) \<Rightarrow> Inr (pushqword (hmac x y)))"

definition Hash :: "bytes \<Rightarrow> bytes" where
  "Hash str =
     (let (djb_hash, js_hash) =
        fold (\<lambda>c (djb, js). (djb + (push_bit 5 djb + ucast c), js XOR (push_bit 5 js + ucast c + drop_bit 2 js)))
          str (5381, 1315423911)
      in le32_bytes djb_hash @ le32_bytes js_hash)"

definition lhashkey :: "bytes \<Rightarrow> bytes" where
  "lhashkey key = Hash key"

definition lhmac_hash :: "bytes \<Rightarrow> bytes \<Rightarrow> string + bytes" where
  "lhmac_hash x text =
     (if length x \<noteq> 8 then Inl ''Invalid uint64 key''
      else let key = (le32 x 0, le32 x 4); h = Hash text
           in Inr (pushqword (hmac (le32 h 0, le32 h 4) key)))"

text \<open>\<open>random i\<close> is the result of the \<open>i\<close>-th call of \<open>random()\<close>.\<close>

definition lrandomkey :: "(nat \<Rightarrow> u64) \<Rightarrow> bytes" where
  "lrandomkey random =
     (let tmp = map (\<lambda>i. ucast (random i AND 0xff)) [0..<8]; x = fold (\<lambda>t x. x XOR t) tmp 0
      in if x = 0 then tmp[0 := tmp ! 0 OR 1] else tmp)"

section \<open>Diffie-Hellman exchange\<close>

definition dh_P :: u64 where "dh_P = 0xffffffffffffffc5"

text \<open>The loop of \<open>mul_mod_p\<close>, on its variables \<open>m\<close>, \<open>a\<close> and \<open>b\<close>.\<close>

function mul_loop :: "u64 \<Rightarrow> u64 \<Rightarrow> u64 \<Rightarrow> u64" where
  "mul_loop m a b =
     (if b = 0 then m
      else let m = (if b AND 1 \<noteq> 0 then (let t = dh_P - a in if t \<le> m then m - t else m + a) else m);
               a = (if dh_P - a \<le> a then a * 2 - dh_P else a * 2)
           in mul_loop m a (drop_bit 1 b))"
  by pat_completeness auto
termination
proof (relation "measure (\<lambda>(m, a, b). unat b)")
  fix b :: u64
  assume "b \<noteq> 0"
  then have "0 < unat b" by (simp add: unat_gt_0)
  then show "\<And>m a x xa. ((x, xa, drop_bit 1 b), m, a, b) \<in> measure (\<lambda>(m, a, b). unat b)"
    by (simp add: drop_bit_eq_div unat_div)
qed auto

declare mul_loop.simps [simp del]

definition mul_mod_p :: "u64 \<Rightarrow> u64 \<Rightarrow> u64" where
  "mul_mod_p a b = mul_loop 0 a b"

text \<open>\<open>None\<close>: the recursion does not end.\<close>

partial_function (option) pow_mod_p :: "u64 \<Rightarrow> u64 \<Rightarrow> u64 option" where
  "pow_mod_p a b =
     (if b = 1 then Some a
      else Option.bind (pow_mod_p a (drop_bit 1 b))
             (\<lambda>t. let t = mul_mod_p t t in Some (if b mod 2 \<noteq> 0 then mul_mod_p t a else t)))"

definition powmodp :: "u64 \<Rightarrow> u64 \<Rightarrow> u64 option" where
  "powmodp a b = (let a = (if dh_P < a then a mod dh_P else a) in pow_mod_p a b)"

definition push64 :: "u64 \<Rightarrow> bytes" where
  "push64 r = [ucast r, ucast (drop_bit 8 r), ucast (drop_bit 16 r), ucast (drop_bit 24 r),
     ucast (drop_bit 32 r), ucast (drop_bit 40 r), ucast (drop_bit 48 r), ucast (drop_bit 56 r)]"

definition u64_of :: "u32 \<times> u32 \<Rightarrow> u64" where
  "u64_of x = ucast (fst x) OR push_bit 32 (ucast (snd x))"

definition ldhsecret :: "bytes \<Rightarrow> bytes \<Rightarrow> (string + bytes) option" where
  "ldhsecret x y =
     (case read64 x y of Inl e \<Rightarrow> Some (Inl e)
      | Inr (x, y) \<Rightarrow>
          if u64_of x = 0 \<or> u64_of y = 0 then Some (Inl ''Can't be 0'')
          else (case powmodp (u64_of x) (u64_of y) of None \<Rightarrow> None | Some r \<Rightarrow> Some (Inr (push64 r))))"

definition ldhexchange :: "bytes \<Rightarrow> (string + bytes) option" where
  "ldhexchange x =
     (if length x \<noteq> 8 then Some (Inl ''Invalid dh uint64 key'')
      else let x64 = u64_of (le32 x 0, le32 x 4)
           in if x64 = 0 then Some (Inl ''Can't be 0'')
              else (case powmodp 5 x64 of None \<Rightarrow> None | Some r \<Rightarrow> Some (Inr (push64 r))))"

section \<open>Base64 text\<close>

definition encoding :: bytes where
  "encoding = string_bytes ''ABCDEFGHIJKLMNOPQRSTUVWXYZabcdefghijklmnopqrstuvwxyz0123456789+/''"

abbreviation encoding_at :: "u32 \<Rightarrow> u8" where
  "encoding_at v \<equiv> encoding ! unat v"

fun lb64encode :: "bytes \<Rightarrow> bytes" where
  "lb64encode (a # b # c # rest) =
     (let v = push_bit 16 (ucast a) OR push_bit 8 (ucast b) OR ucast c
      in [encoding_at (drop_bit 18 v), encoding_at (drop_bit 12 v AND 0x3f), encoding_at (drop_bit 6 v AND 0x3f),
          encoding_at (v AND 0x3f)] @ lb64encode rest)"
| "lb64encode [a] = (let v = ucast a in [encoding_at (drop_bit 2 v), encoding_at (push_bit 4 (v AND 3)), 61, 61])"
| "lb64encode [a, b] =
     (let v = push_bit 8 (ucast a) OR ucast b
      in [encoding_at (drop_bit 10 v), encoding_at (drop_bit 4 v AND 0x3f), encoding_at (push_bit 2 (v AND 0xf)), 61])"
| "lb64encode [] = []"

definition decoding :: "int list" where
  "decoding = [62, -1, -1, -1, 63, 52, 53, 54, 55, 56, 57, 58, 59, 60, 61, -1, -1, -1, -2, -1, -1, -1, 0, 1, 2, 3,
    4, 5, 6, 7, 8, 9, 10, 11, 12, 13, 14, 15, 16, 17, 18, 19, 20, 21, 22, 23, 24, 25, -1, -1, -1, -1,
    -1, -1, 26, 27, 28, 29, 30, 31, 32, 33, 34, 35, 36, 37, 38, 39, 40, 41, 42, 43, 44, 45, 46, 47, 48, 49,
    50, 51]"

definition b64index :: "u8 \<Rightarrow> int" where
  "b64index c =
     (if c < 43 then - 1
      else let c = c - 43 in if length decoding \<le> unat c then - 1 else decoding ! unat c)"

text \<open>The inner loop of \<open>lb64decode\<close>: \<open>n\<close> more characters of a group; \<open>None\<close> when the text ends.\<close>

fun read_group :: "nat \<Rightarrow> bytes \<Rightarrow> (int list \<times> bytes) option" where
  "read_group 0 cs = Some ([], cs)"
| "read_group (Suc n) [] = None"
| "read_group (Suc n) (c # cs) =
     (if b64index c = - 1 then read_group (Suc n) cs
      else case read_group n cs of None \<Rightarrow> None | Some (is, rest) \<Rightarrow> Some (b64index c # is, rest))"

definition decode_group :: "int list \<Rightarrow> string + bytes" where
  "decode_group c =
     (let padding = length (filter (\<lambda>x. x = - 2) c)
      in if padding = 0 then
           (let v = push_bit 18 (word_of_int (c ! 0)) OR push_bit 12 (word_of_int (c ! 1))
              OR push_bit 6 (word_of_int (c ! 2)) OR word_of_int (c ! 3) :: u32
            in Inr [ucast (drop_bit 16 v), ucast (drop_bit 8 v AND 0xff), ucast (v AND 0xff)])
         else if padding = 1 then
           (if c ! 3 \<noteq> - 2 \<or> c ! 2 AND 3 \<noteq> 0 then Inl ''Invalid base64 text''
            else let v = push_bit 10 (word_of_int (c ! 0)) OR push_bit 4 (word_of_int (c ! 1))
                   OR word_of_int (drop_bit 2 (c ! 2)) :: u32
                 in Inr [ucast (drop_bit 8 v), ucast (v AND 0xff)])
         else if padding = 2 then
           (if c ! 3 \<noteq> - 2 \<or> c ! 2 \<noteq> - 2 \<or> c ! 1 AND 0xf \<noteq> 0 then Inl ''Invalid base64 text''
            else let v = push_bit 2 (word_of_int (c ! 0)) OR word_of_int (drop_bit 4 (c ! 1)) :: u32
                 in Inr [ucast v])
         else Inl ''Invalid base64 text'')"

lemma read_group_rest: "read_group n cs = Some (is, rest) \<Longrightarrow> length rest \<le> length cs \<and> (0 < n \<longrightarrow> length rest < length cs)"
  by (induction n cs arbitrary: "is" rest rule: read_group.induct) (auto split: if_splits option.splits)

function lb64decode :: "bytes \<Rightarrow> string + bytes" where
  "lb64decode text =
     (if text = [] then Inr []
      else case read_group 4 text of None \<Rightarrow> Inl ''Invalid base64 text''
        | Some (c, rest) \<Rightarrow>
            (case decode_group c of Inl e \<Rightarrow> Inl e
             | Inr bs \<Rightarrow> (case lb64decode rest of Inl e \<Rightarrow> Inl e | Inr cs \<Rightarrow> Inr (bs @ cs))))"
  by pat_completeness auto
termination by (relation "measure length") (auto dest: read_group_rest)

declare lb64decode.simps [simp del]

section \<open>Hexadecimal round trip\<close>

lemma HEX_hex: "n < 16 \<Longrightarrow> HEX (hex ! n) = of_nat n"
proof -
  have "map (\<lambda>n. HEX (hex ! n)) [0..<16] = map of_nat [0..<16]" by code_simp
  then show "n < 16 \<Longrightarrow> HEX (hex ! n) = of_nat n" by (auto simp: list_eq_iff_nth_eq)
qed

lemma nibbles:
  fixes b :: u8
  shows "unat (drop_bit 4 b) < 16" "unat (b AND 0xf) < 16" "push_bit 4 (drop_bit 4 b) OR (b AND 0xf) = b"
proof -
  show "unat (drop_bit 4 b) < 16" using byte_less [of b] by (simp add: drop_bit_eq_div unat_div)
  have m: "b AND 0xf = take_bit 4 b" by (simp only: take_bit_eq_mask) (simp add: mask_numeral)
  then have "unat (b AND 0xf) = take_bit 4 (unat b)" by (simp only: unsigned_take_bit_eq)
  then show "unat (b AND 0xf) < 16" by (simp add: take_bit_nat_def)
  have "push_bit n (drop_bit n w) OR take_bit n w = w" for n and w :: u8
    by (rule bit_word_eqI) (auto simp: bit_simps)
  from this [of 4 b] m show "push_bit 4 (drop_bit 4 b) OR (b AND 0xf) = b" by (simp only:)
qed

lemma HEX_nibbles [simp]:
  fixes b :: u8
  shows "HEX (hex ! unat (drop_bit 4 b)) = drop_bit 4 b" "HEX (hex ! unat (b AND 0xf)) = b AND 0xf"
  by (simp_all only: HEX_hex nibbles(1,2) of_nat_unat ucast_id)

lemma fromhex_ltohex: "fromhex_loop (ltohex t) = Inr t"
proof (induction t)
  case (Cons b t)
  have le: "\<not> 16 < (drop_bit 4 b)" "\<not> 16 < (b AND 0xf)"
    using nibbles(1,2) [of b] by (simp_all only: word_less_nat_alt not_less) (simp_all add: less_imp_le)
  have "ltohex (b # t) = hex ! unat (drop_bit 4 b) # hex ! unat (b AND 0xf) # ltohex t" by (simp add: ltohex_def)
  then show ?case by (simp only: fromhex_loop.simps Let_def list.case list.sel HEX_nibbles le Cons.IH nibbles(3) sum.case simp_thms if_False)
qed (simp add: ltohex_def)

lemma length_ltohex: "length (ltohex t) = 2 * length t"
  by (induction t) (simp_all add: ltohex_def)

lemma double_and_2: "(2 * n) AND 2 = (0 :: nat) \<longleftrightarrow> even n"
proof -
  have "(2 * n) AND 2 = 2 * (n AND 1)" by (simp add: and_nat_rec [of "2 * n" 2])
  then show ?thesis by (simp add: and_one_eq mod_2_eq_odd)
qed

section \<open>Diffie-Hellman\<close>

lemma even_unat: "even (unat w) \<longleftrightarrow> even (w :: 'a::len word)"
  by (metis even_of_nat mod_by_0 unat_mod_distrib word_arith_nat_mod)

lemma unat_P: "unat dh_P = 18446744073709551557" by (simp add: dh_P_def)

lemma P_minus: "a < dh_P \<Longrightarrow> unat (dh_P - a) = unat dh_P - unat a"
  by (simp add: unat_sub less_imp_le)

lemma nat_fold: "p - a \<le> m \<Longrightarrow> m < p \<Longrightarrow> a < p \<Longrightarrow> m - (p - a) = (m + a) mod (p::nat)"
  by (simp add: le_mod_geq)

lemma nat_no_fold: "m < p - a \<Longrightarrow> m + a < (p::nat)"
  by simp

lemma add_mod_step:
  assumes "m < dh_P" "a < dh_P"
  shows "unat (if dh_P - a \<le> m then m - (dh_P - a) else m + a) = (unat m + unat a) mod unat dh_P"
proof (cases "dh_P - a \<le> m")
  case True
  then have "unat (m - (dh_P - a)) = unat m - (unat dh_P - unat a)" "unat dh_P - unat a \<le> unat m"
    using P_minus [OF assms(2)] by (simp_all only: unat_sub word_le_nat_alt)
  then show ?thesis
    using nat_fold [of "unat dh_P" "unat a" "unat m"] assms True by (simp only: word_less_nat_alt if_True)
next
  case False
  then have "unat m < unat dh_P - unat a"
    using P_minus [OF assms(2)] by (simp only: word_le_nat_alt not_le)
  then have l: "unat m + unat a < unat dh_P" by (rule nat_no_fold)
  then have "unat m + unat a < 2 ^ LENGTH(64)" using unsigned_less [of dh_P, where ?'a = nat] by (rule less_trans)
  then have "unat (m + a) = unat m + unat a" by (rule unat_add_lem [THEN iffD1])
  then show ?thesis using False l by (simp only: if_False mod_less)
qed

lemma double_mod_step:
  assumes "a < dh_P"
  shows "unat (if dh_P - a \<le> a then a * 2 - dh_P else a * 2) = (2 * unat a) mod unat dh_P"
proof -
  have "a * 2 - dh_P = a - (dh_P - a)" "a * 2 = a + a" by simp_all
  then show ?thesis using add_mod_step [OF assms assms] by (simp only: mult_2)
qed

lemma mod_linear: "((x mod p) + (y mod p) * q) mod p = (x + y * q) mod (p::nat)"
  by (metis mod_add_eq mod_mod_trivial mod_mult_left_eq)

lemma mod_less_P: "unat w = n mod unat dh_P \<Longrightarrow> w < dh_P"
  by (simp add: word_less_nat_alt unat_P)

lemma mul_loop_correct:
  "m < dh_P \<Longrightarrow> a < dh_P \<Longrightarrow> unat (mul_loop m a b) = (unat m + unat a * unat b) mod unat dh_P"
proof (induction m a b rule: mul_loop.induct)
  case (1 m a b)
  show ?case
  proof (cases "b = 0")
    case True
    then show ?thesis using 1(2) by (simp add: mul_loop.simps word_less_nat_alt)
  next
    case False
    let ?p = "unat dh_P"
    define m' where "m' = (if b AND 1 \<noteq> 0 then (let t = dh_P - a in if t \<le> m then m - t else m + a) else m)"
    define a' where "a' = (if dh_P - a \<le> a then a * 2 - dh_P else a * 2)"
    define q where "q = unat b div 2"
    have odd: "b AND 1 \<noteq> 0 \<longleftrightarrow> odd (unat b)" by (simp add: and_one_eq mod_2_eq_odd even_unat)
    have b: "unat b = 2 * q + (if odd (unat b) then 1 else 0)" by (simp add: q_def)
    have m': "unat m' = (unat m + unat a * (if odd (unat b) then 1 else 0)) mod ?p"
      using add_mod_step [OF 1(2,3)] 1(2) by (simp add: m'_def odd Let_def word_less_nat_alt)
    have a': "unat a' = (2 * unat a) mod ?p" using double_mod_step [OF 1(3)] by (simp add: a'_def)
    have "unat (mul_loop m' a' (drop_bit 1 b)) = (unat m' + unat a' * unat (drop_bit 1 b)) mod ?p"
      using 1(1) [OF False m'_def a'_def mod_less_P [OF m'] mod_less_P [OF a']] .
    also have "unat (drop_bit 1 b) = q" by (simp add: q_def drop_bit_eq_div unat_div)
    also have "(unat m' + unat a' * q) mod ?p
        = (unat m + unat a * (if odd (unat b) then 1 else 0) + 2 * unat a * q) mod ?p"
      unfolding m' a' by (rule mod_linear)
    also have "\<dots> = (unat m + unat a * unat b) mod ?p"
      using arg_cong [OF b, of "\<lambda>n. unat a * n"] by (simp only: distrib_left ac_simps)
    finally show ?thesis
      using False by (simp add: mul_loop.simps [of m a b] m'_def a'_def)
  qed
qed

lemma mul_mod_p_correct: "a < dh_P \<Longrightarrow> unat (mul_mod_p a b) = unat a * unat b mod unat dh_P"
  using mul_loop_correct [of 0 a b] by (simp add: mul_mod_p_def dh_P_def)

lemma half_nat: "n \<noteq> 0 \<Longrightarrow> n \<noteq> 1 \<Longrightarrow> n div 2 \<noteq> 0" "n \<noteq> 0 \<Longrightarrow> n \<noteq> 1 \<Longrightarrow> n div 2 < (n::nat)"
  by simp_all

lemma pow_mod_p_correct:
  assumes "b \<noteq> 0" "a < dh_P"
  shows "\<exists>r. pow_mod_p a b = Some r \<and> unat r = unat a ^ unat b mod unat dh_P"
  using assms(1)
proof (induction "unat b" arbitrary: b rule: less_induct)
  case less
  let ?p = "unat dh_P"
  show ?case
  proof (cases "b = 1")
    case True
    then show ?thesis using assms(2) by (simp add: pow_mod_p.simps word_less_nat_alt)
  next
    case False
    define c where "c = drop_bit 1 b"
    have c: "unat c = unat b div 2" by (simp add: c_def drop_bit_eq_div unat_div)
    have "unat b \<noteq> 0" using less(2) by (simp only: unat_eq_zero simp_thms)
    moreover have "unat b \<noteq> 1" using False by (metis unsigned_1 word_eq_iff_unsigned)
    ultimately have "unat c \<noteq> 0" "unat c < unat b" unfolding c by (rule half_nat)+
    then have "c \<noteq> 0" "unat c < unat b" by (simp_all only: unat_eq_zero simp_thms)
    then obtain t where t: "pow_mod_p a c = Some t" "unat t = unat a ^ unat c mod ?p" using less(1) by blast
    define s where "s = mul_mod_p t t"
    have s: "unat s = unat a ^ (2 * unat c) mod ?p"
      using mul_mod_p_correct [OF mod_less_P [OF t(2)], of t]
      by (simp add: s_def t(2) mod_mult_eq power_add mult_2)
    define r where "r = (if b mod 2 \<noteq> 0 then mul_mod_p s a else s)"
    have "b mod 2 \<noteq> 0 \<longleftrightarrow> odd (unat b)" by (simp add: mod_2_eq_odd even_unat)
    moreover have "unat (mul_mod_p s a) = unat a ^ (2 * unat c + 1) mod ?p"
      using mul_mod_p_correct [OF mod_less_P [OF s], of a] by (simp add: s mod_mult_right_eq mult.commute)
    moreover have "unat b = 2 * unat c + (if odd (unat b) then 1 else 0)" by (simp add: c)
    ultimately have "unat r = unat a ^ unat b mod ?p" using s by (auto simp: r_def)
    moreover have "pow_mod_p a b = Some r" using False t(1) by (simp add: pow_mod_p.simps [of a b] c_def r_def s_def Let_def)
    ultimately show ?thesis by blast
  qed
qed

lemma powmodp_correct:
  assumes "b \<noteq> 0" "a \<noteq> dh_P"
  shows "\<exists>r. powmodp a b = Some r \<and> unat r = unat a ^ unat b mod unat dh_P"
proof (cases "dh_P < a")
  case True
  have u: "unat (a mod dh_P) = unat a mod unat dh_P" by (rule unat_mod_distrib)
  then show ?thesis
    using True pow_mod_p_correct [OF assms(1) mod_less_P [OF u]] by (simp add: powmodp_def u power_mod)
next
  case False
  then have "a < dh_P" using assms(2) by simp
  then show ?thesis using pow_mod_p_correct [OF assms(1)] False by (simp add: powmodp_def)
qed

lemma power_5_nonzero: "5 ^ n mod unat dh_P \<noteq> 0"
proof
  assume "5 ^ n mod unat dh_P = 0"
  then have d: "unat dh_P dvd 5 ^ n" by (simp only: mod_eq_0_iff_dvd)
  have "gcd 18446744073709551557 (5 :: nat) = gcd 5 2" by (subst gcd_red_nat) simp
  also have "\<dots> = 1" by (simp add: gcd_red_nat [of 5 2])
  finally have "coprime (5 :: nat) 18446744073709551557" by (simp only: coprime_iff_gcd_eq_1 gcd.commute)
  then have "coprime (5 ^ n) (unat dh_P)" unfolding unat_P by simp
  then have "unat dh_P dvd 1" using d by (metis coprime_common_divisor dvd_refl)
  then show False by (simp add: unat_P)
qed

text \<open>The 8 bytes of a 64 bit word.\<close>

lemma length_push64 [simp]: "length (push64 r) = 8"
  by (simp add: push64_def)

lemma u64_of_push64: "u64_of (le32 (push64 r) 0, le32 (push64 r) 4) = r"
proof (rule bit_word_eqI)
  fix i assume "i < LENGTH(64)"
  then have "i < 8 \<or> (8 \<le> i \<and> i < 16) \<or> (16 \<le> i \<and> i < 24) \<or> (24 \<le> i \<and> i < 32) \<or>
    (32 \<le> i \<and> i < 40) \<or> (40 \<le> i \<and> i < 48) \<or> (48 \<le> i \<and> i < 56) \<or> (56 \<le> i \<and> i < 64)" by auto
  then show "bit (u64_of (le32 (push64 r) 0, le32 (push64 r) 4)) i = bit r i"
    by (elim disjE) (auto simp: u64_of_def le32_def push64_def bit_simps)
qed

abbreviation key64 :: "bytes \<Rightarrow> u64" where
  "key64 x \<equiv> u64_of (le32 x 0, le32 x 4)"

lemma dhexchange_result:
  assumes "length a = 8" "key64 a \<noteq> 0"
  shows "\<exists>r. ldhexchange a = Some (Inr (push64 r)) \<and> unat r = 5 ^ unat (key64 a) mod unat dh_P"
proof -
  have "unat (5 :: u64) = 5" by simp
  moreover have "(5 :: u64) \<noteq> dh_P" by (simp add: dh_P_def)
  ultimately obtain r where "powmodp 5 (key64 a) = Some r" "unat r = 5 ^ unat (key64 a) mod unat dh_P"
    using powmodp_correct [OF assms(2), of 5] by metis
  then show ?thesis using assms by (intro exI [of _ r]) (simp add: ldhexchange_def Let_def)
qed

lemma dhsecret_result:
  assumes "length b = 8" "key64 b \<noteq> 0" "unat g = 5 ^ n mod unat dh_P"
  shows "\<exists>r. ldhsecret (push64 g) b = Some (Inr (push64 r)) \<and> unat r = 5 ^ (n * unat (key64 b)) mod unat dh_P"
proof -
  have g: "g \<noteq> 0" "g \<noteq> dh_P"
    using power_5_nonzero [of n] mod_less_P [OF assms(3)] assms(3) by (auto simp flip: unat_eq_zero)
  then obtain r where "powmodp g (key64 b) = Some r" "unat r = unat g ^ unat (key64 b) mod unat dh_P"
    using powmodp_correct [OF assms(2)] by blast
  then show ?thesis
    using assms(1,2) g(1)
    by (intro exI [of _ r]) (simp add: ldhsecret_def read64_def u64_of_push64 assms(3) power_mod power_mult)
qed

lemma key64_zero:
  assumes "length x = 8" "key64 x = 0"
  shows "x = replicate 8 0"
proof -
  have "length x = Suc (Suc (Suc (Suc (Suc (Suc (Suc (Suc 0)))))))" using assms by simp
  then obtain b0 b1 b2 b3 b4 b5 b6 b7 where x: "x = [b0, b1, b2, b3, b4, b5, b6, b7]" by (auto simp: length_Suc_conv)
  have b: "\<not> bit (key64 x) i" for i using assms(2) by simp
  have "\<not> bit b0 n" "\<not> bit b1 n" "\<not> bit b2 n" "\<not> bit b3 n" "\<not> bit b4 n" "\<not> bit b5 n" "\<not> bit b6 n" "\<not> bit b7 n"
    if "n < 8" for n
    using b [of n] b [of "n + 8"] b [of "n + 16"] b [of "n + 24"] b [of "n + 32"] b [of "n + 40"] b [of "n + 48"]
      b [of "n + 56"] that by (auto simp: x u64_of_def le32_def bit_simps)
  then have "b0 = 0" "b1 = 0" "b2 = 0" "b3 = 0" "b4 = 0" "b5 = 0" "b6 = 0" "b7 = 0"
    by (auto intro!: bit_word_eqI)
  then show ?thesis by (simp add: x numeral_eq_Suc)
qed

end
