(* ===== verification/CryptProps.thy ===== *)
theory CryptProps
  imports Crypt
begin

text \<open>
  The base64 round trip of \<open>lualib-src/lua-crypt.c\<close>, the keys of \<open>randomkey\<close>, and the properties of the
  functions of \<open>Crypt\<close>.
\<close>

unbundle bit_operations_syntax

section \<open>Base64 round trip\<close>

lemma encoding_index: "n < 64 \<Longrightarrow> b64index (encoding ! n) = int n"
proof -
  have "map (\<lambda>n. b64index (encoding ! n)) [0..<64] = map int [0..<64]" by code_simp
  then show "n < 64 \<Longrightarrow> b64index (encoding ! n) = int n" by (auto simp: list_eq_iff_nth_eq)
qed

lemma pad_index: "b64index 61 = - 2"
  by code_simp

lemma six_bits: "take_bit 6 w = w \<Longrightarrow> b64index (encoding_at w) = uint (w :: u32)"
proof -
  assume "take_bit 6 w = w"
  then have "unat w = take_bit 6 (unat w)" by (metis unsigned_take_bit_eq)
  also have "\<dots> < 2 ^ 6" by (rule take_bit_nat_less_exp)
  finally show ?thesis by (subst encoding_index) simp_all
qed

lemma and_masks:
  fixes w :: "'a::len word"
  shows "w AND 3 = take_bit 2 w" "w AND 0xf = take_bit 4 w" "w AND 0x3f = take_bit 6 w" "w AND 0xff = take_bit 8 w"
  by (simp_all only: take_bit_eq_mask) (simp_all add: mask_numeral)

lemma join_bits:
  fixes v :: u32
  assumes "j \<le> k"
  shows "push_bit k (drop_bit k v) OR push_bit j (take_bit (k - j) (drop_bit j v)) = push_bit j (drop_bit j v)"
proof (rule bit_word_eqI)
  fix n assume "n < LENGTH(32)"
  then have n: "n < 32" by simp
  consider "n < j" | "j \<le> n" "n < k" | "j \<le> n" "k \<le> n" by linarith
  then show "bit (push_bit k (drop_bit k v) OR push_bit j (take_bit (k - j) (drop_bit j v))) n = bit (push_bit j (drop_bit j v)) n"
    using n assms by cases (auto simp: bit_simps)
qed

lemma drop_push: "m + k \<le> 32 \<Longrightarrow> drop_bit k (push_bit k (take_bit m v)) = take_bit m (v :: u32)"
  by (rule bit_word_eqI) (auto simp: bit_simps)

lemma take_push: "m + k \<le> l \<Longrightarrow> take_bit l (push_bit k (take_bit m v)) = push_bit k (take_bit m (v :: u32))"
  by (rule bit_word_eqI) (auto simp: bit_simps)

lemma take_push_zero: "take_bit k (push_bit k v) = (0 :: u32)"
  by (rule bit_word_eqI) (auto simp: bit_simps)

lemma take_push_zero': "take_bit 2 (push_bit 2 v) = (0 :: u32)" "take_bit 4 (push_bit 4 v) = (0 :: u32)"
  by (rule take_push_zero)+

lemma take_small: "(\<And>n. bit v n \<Longrightarrow> n < k) \<Longrightarrow> take_bit k v = (v :: u32)"
  by (rule bit_word_eqI) (auto simp: bit_simps)

lemma three_bytes:
  fixes a b c :: u8
  defines "v \<equiv> push_bit 16 (ucast a) OR push_bit 8 (ucast b) OR ucast c :: u32"
  shows "take_bit 6 (drop_bit 18 v) = drop_bit 18 v"
    "push_bit 18 (drop_bit 18 v) OR push_bit 12 (take_bit 6 (drop_bit 12 v)) OR push_bit 6 (take_bit 6 (drop_bit 6 v))
      OR take_bit 6 v = v"
    "ucast (drop_bit 16 v) = a" "ucast (take_bit 8 (drop_bit 8 v)) = b" "ucast (take_bit 8 v) = c"
proof -
  show "take_bit 6 (drop_bit 18 v) = drop_bit 18 v"
    by (rule take_small) (auto simp: v_def bit_simps dest: byte_ends)
  show "push_bit 18 (drop_bit 18 v) OR push_bit 12 (take_bit 6 (drop_bit 12 v)) OR push_bit 6 (take_bit 6 (drop_bit 6 v))
      OR take_bit 6 v = v"
    using join_bits [of 12 18 v] join_bits [of 6 12 v] join_bits [of 0 6 v]
    by (simp add: or.assoc [symmetric] del: push_bit_numeral_minus_1)
  show "ucast (drop_bit 16 v) = a" "ucast (take_bit 8 (drop_bit 8 v)) = b" "ucast (take_bit 8 v) = c"
    by (rule bit_word_eqI; auto simp: v_def bit_simps dest: byte_ends)+
qed

lemma one_byte:
  fixes a :: u8
  defines "v \<equiv> ucast a :: u32"
  shows "take_bit 6 (drop_bit 2 v) = drop_bit 2 v"
    "push_bit 2 (drop_bit 2 v) OR drop_bit 4 (push_bit 4 (take_bit 2 v)) = v" "ucast v = a"
proof -
  show "take_bit 6 (drop_bit 2 v) = drop_bit 2 v"
    by (rule take_small) (auto simp: v_def bit_simps dest: byte_ends)
  show "push_bit 2 (drop_bit 2 v) OR drop_bit 4 (push_bit 4 (take_bit 2 v)) = v"
    using join_bits [of 0 2 v] drop_push [of 2 4 v] by simp
  show "ucast v = a" by (rule bit_word_eqI) (auto simp: v_def bit_simps)
qed

lemma two_bytes_bits:
  fixes a b :: u8
  defines "v \<equiv> push_bit 8 (ucast a) OR ucast b :: u32"
  shows "take_bit 6 (drop_bit 10 v) = drop_bit 10 v"
    "push_bit 10 (drop_bit 10 v) OR push_bit 4 (take_bit 6 (drop_bit 4 v)) OR drop_bit 2 (push_bit 2 (take_bit 4 v)) = v"
    "ucast (drop_bit 8 v) = a" "ucast (take_bit 8 v) = b"
proof -
  show "take_bit 6 (drop_bit 10 v) = drop_bit 10 v"
    by (rule take_small) (auto simp: v_def bit_simps dest: byte_ends)
  show "push_bit 10 (drop_bit 10 v) OR push_bit 4 (take_bit 6 (drop_bit 4 v)) OR drop_bit 2 (push_bit 2 (take_bit 4 v)) = v"
    using join_bits [of 4 10 v] join_bits [of 0 4 v] drop_push [of 4 2 v] by (simp add: or.assoc [symmetric])
  show "ucast (drop_bit 8 v) = a" "ucast (take_bit 8 v) = b"
    by (rule bit_word_eqI; auto simp: v_def bit_simps dest: byte_ends)+
qed

lemma drop_uint: "drop_bit n (uint w) = uint (drop_bit n (w :: u32))"
  by (rule bit_eqI) (auto simp: bit_simps dest: bit_imp_le_length)

lemma and_uint: "uint w AND 3 = uint (w AND 3)" "uint w AND 0xf = uint (w AND 0xf)" for w :: u32
  by (simp_all add: unsigned_and_eq)

subsection \<open>Reading groups\<close>

abbreviation b64chars :: "bytes \<Rightarrow> bytes" where
  "b64chars \<equiv> filter (\<lambda>c. b64index c \<noteq> - 1)"

definition ends_b64 :: "bytes \<Rightarrow> bool" where
  "ends_b64 s = (s = [] \<or> b64index (last s) \<noteq> - 1)"

lemma read_group_spec:
  "n \<le> length (b64chars cs) \<Longrightarrow> ends_b64 cs \<Longrightarrow>
     \<exists>rest. read_group n cs = Some (map b64index (take n (b64chars cs)), rest) \<and>
       b64chars rest = drop n (b64chars cs) \<and> ends_b64 rest"
proof (induction n cs rule: read_group.induct)
  case (3 n c cs)
  have "ends_b64 cs" using 3(4) by (auto simp: ends_b64_def split: if_splits)
  then show ?case using 3 by (cases "b64index c = - 1") force+
qed simp_all

lemma b64decode_group:
  assumes "b64chars s = e @ es" "length e = 4" "ends_b64 s" "decode_group (map b64index e) = Inr bs"
  shows "\<exists>rest. b64chars rest = es \<and> ends_b64 rest \<and>
    lb64decode s = (case lb64decode rest of Inl e \<Rightarrow> Inl e | Inr cs \<Rightarrow> Inr (bs @ cs))"
proof -
  have "4 \<le> length (b64chars s)" "s \<noteq> []" using assms(1,2) by auto
  then obtain rest where "read_group 4 s = Some (map b64index e, rest)" "b64chars rest = es" "ends_b64 rest"
    using read_group_spec [of 4 s] assms(1-3) by auto
  then show ?thesis using assms(4) \<open>s \<noteq> []\<close> by (intro exI [of _ rest]) (simp add: lb64decode.simps [of s])
qed

subsection \<open>The groups of the encoder\<close>

lemma uint_not_pad: "uint (w :: u32) \<noteq> - 2"
  using unsigned_greater_eq [of w, where ?'a = int] by linarith

lemma uint_not_skip: "(- 1 = uint (w :: u32)) = False"
proof -
  have "uint w \<noteq> - 1" using unsigned_greater_eq [of w, where ?'a = int] by linarith
  then show ?thesis by metis
qed

lemma word_uint: "word_of_int (uint w) = (w :: u32)"
  by simp

lemma decode_group_0:
  "decode_group [uint w0, uint w1, uint w2, uint w3] =
     (let v = push_bit 18 w0 OR push_bit 12 w1 OR push_bit 6 w2 OR w3 :: u32
      in Inr [ucast (drop_bit 16 v), ucast (take_bit 8 (drop_bit 8 v)), ucast (take_bit 8 v)])"
  by (simp add: decode_group_def uint_not_pad and_masks Let_def)

lemma decode_group_1:
  "take_bit 2 w2 = 0 \<Longrightarrow> decode_group [uint w0, uint w1, uint w2, - 2] =
     (let v = push_bit 10 w0 OR push_bit 4 w1 OR drop_bit 2 w2 :: u32
      in Inr [ucast (drop_bit 8 v), ucast (take_bit 8 v)])"
  by (simp add: decode_group_def uint_not_pad and_masks Let_def and_uint drop_uint)

lemma decode_group_2:
  "take_bit 4 w1 = 0 \<Longrightarrow> decode_group [uint w0, uint w1, - 2, - 2] = Inr [ucast (push_bit 2 w0 OR drop_bit 4 w1 :: u32)]"
  by (simp add: decode_group_def uint_not_pad and_masks Let_def and_uint drop_uint)

lemma six_bits': "b64index (encoding_at (take_bit 6 w)) = uint (take_bit 6 w)"
  by (rule six_bits) simp

lemma group_3:
  "\<exists>e. lb64encode (a # b # c # rest) = e @ lb64encode rest \<and> length e = 4 \<and> decode_group (map b64index e) = Inr [a, b, c] \<and>
     - 1 \<notin> set (map b64index e)"
proof -
  define v :: u32 where "v = push_bit 16 (ucast a) OR push_bit 8 (ucast b) OR ucast c"
  note v = three_bytes [of a b c, folded v_def]
  let ?e = "[encoding_at (drop_bit 18 v), encoding_at (take_bit 6 (drop_bit 12 v)), encoding_at (take_bit 6 (drop_bit 6 v)),
    encoding_at (take_bit 6 v)]"
  have "lb64encode (a # b # c # rest) = ?e @ lb64encode rest"
    unfolding lb64encode.simps Let_def v_def [symmetric] and_masks by (rule refl)
  moreover have m: "map b64index ?e = [uint (drop_bit 18 v), uint (take_bit 6 (drop_bit 12 v)), uint (take_bit 6 (drop_bit 6 v)),
      uint (take_bit 6 v)]"
    by (simp only: list.map six_bits [OF v(1)] six_bits')
  then have "decode_group (map b64index ?e) = Inr [a, b, c]"
    by (simp only: decode_group_0 Let_def v)
  moreover have "- 1 \<notin> set (map b64index ?e)"
    unfolding m by (simp only: list.set insert_iff empty_iff uint_not_skip) simp
  ultimately show ?thesis by (intro exI [of _ ?e]) simp
qed

lemma group_2:
  "\<exists>e. lb64encode [a, b] = e \<and> length e = 4 \<and> decode_group (map b64index e) = Inr [a, b] \<and>
     - 1 \<notin> set (map b64index e)"
proof -
  define v :: u32 where "v = push_bit 8 (ucast a) OR ucast b"
  note v = two_bytes_bits [of a b, folded v_def]
  have t: "take_bit 6 (push_bit 2 (take_bit 4 v)) = push_bit 2 (take_bit 4 v)" by (rule take_push) simp
  let ?e = "[encoding_at (drop_bit 10 v), encoding_at (take_bit 6 (drop_bit 4 v)), encoding_at (push_bit 2 (take_bit 4 v)), 61]"
  have "lb64encode [a, b] = ?e"
    unfolding lb64encode.simps Let_def v_def [symmetric] and_masks by (rule refl)
  moreover have m: "map b64index ?e = [uint (drop_bit 10 v), uint (take_bit 6 (drop_bit 4 v)), uint (push_bit 2 (take_bit 4 v)), - 2]"
    by (simp only: list.map six_bits [OF v(1)] six_bits' six_bits [OF t] pad_index)
  then have "decode_group (map b64index ?e) = Inr [a, b]"
    by (simp only: decode_group_1 [OF take_push_zero'(1)] Let_def v)
  moreover have "- 1 \<notin> set (map b64index ?e)"
    unfolding m by (simp only: list.set insert_iff empty_iff uint_not_skip) simp
  ultimately show ?thesis by (intro exI [of _ ?e]) simp
qed

lemma group_1:
  "\<exists>e. lb64encode [a] = e \<and> length e = 4 \<and> decode_group (map b64index e) = Inr [a] \<and>
     - 1 \<notin> set (map b64index e)"
proof -
  define v :: u32 where "v = ucast a"
  note v = one_byte [of a, folded v_def]
  have t: "take_bit 6 (push_bit 4 (take_bit 2 v)) = push_bit 4 (take_bit 2 v)" by (rule take_push) simp
  let ?e = "[encoding_at (drop_bit 2 v), encoding_at (push_bit 4 (take_bit 2 v)), 61, 61]"
  have "lb64encode [a] = ?e"
    unfolding lb64encode.simps Let_def v_def [symmetric] and_masks by (rule refl)
  moreover have m: "map b64index ?e = [uint (drop_bit 2 v), uint (push_bit 4 (take_bit 2 v)), - 2, - 2]"
    by (simp only: list.map six_bits [OF v(1)] six_bits [OF t] pad_index)
  then have "decode_group (map b64index ?e) = Inr [a]"
    by (simp only: decode_group_2 [OF take_push_zero'(2)] v)
  moreover have "- 1 \<notin> set (map b64index ?e)"
    unfolding m by (simp only: list.set insert_iff empty_iff uint_not_skip) simp
  ultimately show ?thesis by (intro exI [of _ ?e]) simp
qed

lemma b64decode_end: "b64chars s = [] \<Longrightarrow> ends_b64 s \<Longrightarrow> lb64decode s = Inr []"
proof -
  assume "b64chars s = []" "ends_b64 s"
  then have "s = []" by (metis (mono_tags, lifting) ends_b64_def filter_empty_conv last_in_set)
  then show ?thesis by (simp add: lb64decode.simps)
qed

lemma b64decode_last:
  assumes "b64chars s = e" "length e = 4" "ends_b64 s" "decode_group (map b64index e) = Inr bs"
  shows "lb64decode s = Inr bs"
  using b64decode_group [of s e "[]" bs] assms b64decode_end by fastforce

lemma b64_decode_encode: "b64chars s = lb64encode t \<Longrightarrow> ends_b64 s \<Longrightarrow> lb64decode s = Inr t"
proof (induction t arbitrary: s rule: lb64encode.induct)
  case (1 a b c rest)
  obtain e where e: "lb64encode (a # b # c # rest) = e @ lb64encode rest" "length e = 4" "decode_group (map b64index e) = Inr [a, b, c]"
    using group_3 by metis
  then obtain s' where s': "b64chars s' = lb64encode rest" "ends_b64 s'"
    "lb64decode s = (case lb64decode s' of Inl e \<Rightarrow> Inl e | Inr cs \<Rightarrow> Inr ([a, b, c] @ cs))"
    using b64decode_group [OF _ e(2) 1(3) e(3)] 1(2) by metis
  then show ?case using 1(1) by simp
next
  case (2 a)
  then show ?case using group_1 [of a] b64decode_last by metis
next
  case (3 a b)
  then show ?case using group_2 [of a b] b64decode_last by metis
next
  case 4
  then show ?case by (simp add: b64decode_end)
qed

text \<open>The encoder writes only characters the decoder takes.\<close>

lemma encode_significant: "- 1 \<notin> b64index ` set (lb64encode t)"
proof (induction t rule: lb64encode.induct)
  case (1 a b c rest)
  obtain e where "lb64encode (a # b # c # rest) = e @ lb64encode rest" "- 1 \<notin> set (map b64index e)"
    using group_3 by metis
  then show ?case using 1 by (simp only: set_append image_Un set_map Un_iff simp_thms)
next
  case (2 a)
  then show ?case using group_1 [of a] by (metis set_map)
next
  case (3 a b)
  then show ?case using group_2 [of a b] by (metis set_map)
qed simp

lemma encode_chars: "b64chars (lb64encode t) = lb64encode t" "ends_b64 (lb64encode t)"
proof -
  have e: "b64index c \<noteq> - 1" if "c \<in> set (lb64encode t)" for c
    using encode_significant [of t] that by (metis image_eqI)
  then show "b64chars (lb64encode t) = lb64encode t" by (simp add: filter_id_conv)
  show "ends_b64 (lb64encode t)" using e [of "last (lb64encode t)"] by (auto simp: ends_b64_def)
qed

lemma length_lb64encode: "length (lb64encode t) = (length t + 2) div 3 * 4"
proof (induction t rule: lb64encode.induct)
  case (1 a b c rest)
  have "(length rest + 5) div 3 = Suc ((length rest + 2) div 3)" by presburger
  then show ?case using 1 by (simp add: Let_def add.commute)
qed (simp_all add: Let_def)

section \<open>Random keys\<close>

lemma fold_xor: "fold (\<lambda>t x. x XOR t) ts x = x XOR fold (\<lambda>t x. x XOR t) ts (0 :: u8)"
proof (induction ts arbitrary: x)
  case (Cons t ts)
  from Cons [of "x XOR t"] Cons [of t] show ?case by (simp add: xor.assoc)
qed simp

lemma randomkey_usable: "length (lrandomkey random) = 8" "lrandomkey random \<noteq> replicate 8 0"
proof -
  define tmp :: bytes where "tmp = map (\<lambda>i. ucast (random i AND 0xff)) [0..<8]"
  have l: "length tmp = 8" by (simp add: tmp_def)
  have z: "fold (\<lambda>t x. x XOR t) (replicate n 0) (0 :: u8) = 0" for n by (induction n) simp_all
  have o: "t OR 1 \<noteq> (0 :: u8)" for t
  proof -
    have "bit (t OR 1) 0" by (simp add: bit_simps)
    then show ?thesis by (metis bit_0_eq bot_apply bot_bool_def)
  qed
  show "length (lrandomkey random) = 8" by (simp add: lrandomkey_def Let_def)
  have k: "lrandomkey random = (if fold (\<lambda>t x. x XOR t) tmp 0 = 0 then tmp[0 := tmp ! 0 OR 1] else tmp)"
    by (simp only: lrandomkey_def Let_def tmp_def)
  show "lrandomkey random \<noteq> replicate 8 0"
  proof
    assume e: "lrandomkey random = replicate 8 0"
    show False
    proof (cases "fold (\<lambda>t x. x XOR t) tmp 0 = 0")
      case True
      then have "tmp[0 := tmp ! 0 OR 1] ! 0 = (replicate 8 0 :: bytes) ! 0" using e k by simp
      then show False using l o by simp
    next
      case False
      then show False using e k z by simp
    qed
  qed
qed

section \<open>Properties\<close>

text \<open>C18: decoding a base64 text gives the bytes it was made of, also when characters outside the alphabet
  (line breaks, spaces) were put between its characters; only a text that ends in such a character is an error.\<close>

theorem base64_roundtrip:
  assumes "filter (\<lambda>c. b64index c \<noteq> - 1) s = lb64encode t" "s = [] \<or> b64index (last s) \<noteq> - 1"
  shows "lb64decode s = Inr t"
  using b64_decode_encode [OF assms(1)] assms(2) by (simp add: ends_b64_def)

theorem base64_roundtrip_witness: "lb64decode (lb64encode [0, 255, 16, 7]) = Inr [0, 255, 16, 7]"
  by (rule base64_roundtrip) (use encode_chars [of "[0, 255, 16, 7]"] in \<open>simp_all add: ends_b64_def\<close>)

text \<open>\<open>lfromhex\<close> gives back what \<open>ltohex\<close> wrote exactly when the text has an even number of bytes: its
  test \<open>sz & 2\<close> refuses every other one.\<close>

theorem hex_roundtrip_even:
  "lfromhex (ltohex t) = (if even (length t) then Inr t
     else Inl (''Invalid hex text size '' @ fmt_d (int (2 * length t))))"
  using fromhex_ltohex [of t] double_and_2 [of "length t"] by (simp add: lfromhex_def length_ltohex)

text \<open>The power: \<open>powmodp\<close> ends and computes the power modulo the prime for every exponent but 0 and every base but
  the prime itself, although no product fits into 64 bits.\<close>

theorem powmodp_is_power:
  assumes "b \<noteq> 0" "a \<noteq> dh_P"
  shows "\<exists>r. powmodp a b = Some r \<and> unat r = unat a ^ unat b mod unat dh_P"
  using assms by (rule powmodp_correct)

theorem powmodp_is_power_witness: "\<exists>r. powmodp 3 2 = Some r \<and> unat r = unat (3 :: u64) ^ unat (2 :: u64) mod unat dh_P"
  by (rule powmodp_is_power) (simp_all add: dh_P_def)

text \<open>C17: two sides that exchange what \<open>dhexchange\<close> makes of their keys get the same secret from \<open>dhsecret\<close>, and
  no call fails, for any two keys of 8 bytes that are not all zero (as the ones of \<open>randomkey\<close> are).\<close>

theorem dh_agreement:
  assumes "length a = 8" "length b = 8" "a \<noteq> replicate 8 0" "b \<noteq> replicate 8 0"
  shows "\<exists>ga gb s. ldhexchange a = Some (Inr ga) \<and> ldhexchange b = Some (Inr gb) \<and>
    ldhsecret gb a = Some (Inr s) \<and> ldhsecret ga b = Some (Inr s)"
proof -
  have nz: "key64 a \<noteq> 0" "key64 b \<noteq> 0" using key64_zero assms by blast+
  obtain ga gb where ga: "ldhexchange a = Some (Inr (push64 ga))" "unat ga = 5 ^ unat (key64 a) mod unat dh_P"
    and gb: "ldhexchange b = Some (Inr (push64 gb))" "unat gb = 5 ^ unat (key64 b) mod unat dh_P"
    using dhexchange_result assms nz by metis
  obtain s t where "ldhsecret (push64 gb) a = Some (Inr (push64 s))" "ldhsecret (push64 ga) b = Some (Inr (push64 t))"
    and "unat s = 5 ^ (unat (key64 b) * unat (key64 a)) mod unat dh_P"
    and "unat t = 5 ^ (unat (key64 a) * unat (key64 b)) mod unat dh_P"
    using dhsecret_result [OF assms(1) nz(1) gb(2)] dhsecret_result [OF assms(2) nz(2) ga(2)] by metis
  then show ?thesis using ga(1) gb(1) by (metis mult.commute word_eq_iff_unsigned)
qed

theorem dh_agreement_witness:
  "\<exists>ga gb s. ldhexchange (lrandomkey (\<lambda>i. 0)) = Some (Inr ga) \<and> ldhexchange (lrandomkey (\<lambda>i. of_nat i)) = Some (Inr gb) \<and>
    ldhsecret gb (lrandomkey (\<lambda>i. 0)) = Some (Inr s) \<and> ldhsecret ga (lrandomkey (\<lambda>i. of_nat i)) = Some (Inr s)"
  by (rule dh_agreement) (simp_all only: randomkey_usable not_False_eq_True)

end
