(* ===== verification/Sha1.thy ===== *)
theory Sha1
  imports Crypt
begin

text \<open>
  \<open>lualib-src/lsha1.c\<close>: SHA-1 over a context that takes its input in pieces, and HMAC-SHA1. The
  words of a block are read in the byte order of a little endian machine (\<open>WORDS_BIGENDIAN\<close> is not
  set). \<open>size_t\<close> has 64 bits; an input is shorter than \<open>2 ^ 61\<close> bytes. Clearing the context at the
  end of \<open>sat_SHA1_Final\<close> is left out, as it is not used again.
\<close>

unbundle bit_operations_syntax

record SHA1_CTX =
  sha_state :: "u32 list"
  sha_count0 :: u32
  sha_count1 :: u32
  sha_buffer :: bytes

definition rol :: "u32 \<Rightarrow> nat \<Rightarrow> u32" where
  "rol value bits = push_bit bits value OR drop_bit (32 - bits) value"

definition blk0 :: "u32 list \<Rightarrow> nat \<Rightarrow> u32" where
  "blk0 l i = (rol (l ! i) 24 AND 0xFF00FF00) OR (rol (l ! i) 8 AND 0x00FF00FF)"

definition blk :: "u32 list \<Rightarrow> nat \<Rightarrow> u32" where
  "blk l i = rol (l ! ((i + 13) mod 16) XOR l ! ((i + 8) mod 16) XOR l ! ((i + 2) mod 16) XOR l ! (i mod 16)) 1"

text \<open>The sums of \<open>R0\<close> to \<open>R4\<close>: what they add to \<open>z\<close> besides \<open>rol(v,5)\<close>.\<close>

definition sha_op :: "nat \<Rightarrow> u32 \<Rightarrow> u32 \<Rightarrow> u32 \<Rightarrow> u32 \<Rightarrow> u32" where
  "sha_op i w x y b =
     (if i < 20 then ((w AND (x XOR y)) XOR y) + b + 0x5A827999
      else if i < 40 then (w XOR x XOR y) + b + 0x6ED9EBA1
      else if i < 60 then (((w OR x) AND y) OR (w AND x)) + b + 0x8F1BBCDC
      else (w XOR x XOR y) + b + 0xCA62C1D6)"

text \<open>
  The call number \<open>i\<close> of one of the macros \<open>R0\<close> to \<open>R4\<close> on the variables \<open>(v, w, x, y, z)\<close> and the
  block; the next call has the variables in the order \<open>(z, v, w, x, y)\<close>.
\<close>

definition sha_R :: "nat \<Rightarrow> (u32 \<times> u32 \<times> u32 \<times> u32 \<times> u32) \<times> u32 list \<Rightarrow> (u32 \<times> u32 \<times> u32 \<times> u32 \<times> u32) \<times> u32 list" where
  "sha_R i = (\<lambda>((v, w, x, y, z), l).
     let b = (if i < 16 then blk0 l i else blk l i);
         l = l[i mod 16 := b];
         z = z + (sha_op i w x y b + rol v 5);
         w = rol w 30
     in ((z, v, w, x, y), l))"

definition SHA1_Transform :: "u32 list \<Rightarrow> bytes \<Rightarrow> u32 list" where
  "SHA1_Transform state buffer =
     (let block = map (\<lambda>i. le32 buffer (4 * i)) [0..<16];
          ((a, b, c, d, e), block) =
            fold sha_R [0..<80] ((state ! 0, state ! 1, state ! 2, state ! 3, state ! 4), block)
      in [state ! 0 + a, state ! 1 + b, state ! 2 + c, state ! 3 + d, state ! 4 + e])"

text \<open>The buffer and the counters of a fresh context: only the counters are set.\<close>

definition sat_SHA1_Init :: "bytes \<Rightarrow> SHA1_CTX" where
  "sat_SHA1_Init buffer =
     \<lparr>sha_state = [0x67452301, 0xEFCDAB89, 0x98BADCFE, 0x10325476, 0xC3D2E1F0], sha_count0 = 0, sha_count1 = 0,
      sha_buffer = buffer\<rparr>"

definition memcpy_at :: "bytes \<Rightarrow> nat \<Rightarrow> bytes \<Rightarrow> bytes" where
  "memcpy_at buffer j data = take j buffer @ data @ drop (j + length data) buffer"

text \<open>The loop over whole blocks of the data, from \<open>i\<close> on: the state and the last \<open>i\<close>.\<close>

function update_loop :: "u32 list \<Rightarrow> bytes \<Rightarrow> nat \<Rightarrow> u32 list \<times> nat" where
  "update_loop state data i =
     (if i + 63 < length data then update_loop (SHA1_Transform state (take 64 (drop i data))) data (i + 64)
      else (state, i))"
  by pat_completeness auto
termination by (relation "measure (\<lambda>(state, data, i). length data - i)") auto

declare update_loop.simps [simp del]

definition sat_SHA1_Update :: "SHA1_CTX \<Rightarrow> bytes \<Rightarrow> SHA1_CTX" where
  "sat_SHA1_Update ctx data =
     (let len = of_nat (length data) :: u64;
          j = unat (drop_bit 3 (sha_count0 ctx) AND 63);
          count0 = sha_count0 ctx + ucast (push_bit 3 len);
          count1 = (if ucast count0 < push_bit 3 len then sha_count1 ctx + 1 else sha_count1 ctx);
          count1 = count1 + ucast (drop_bit 29 len);
          (state, buffer, j, i) =
            (if 63 < j + length data
             then let buffer = memcpy_at (sha_buffer ctx) j (take (64 - j) data);
                      (state, i) = update_loop (SHA1_Transform (sha_state ctx) buffer) data (64 - j)
                  in (state, buffer, 0, i)
             else (sha_state ctx, sha_buffer ctx, j, 0))
      in \<lparr>sha_state = state, sha_count0 = count0, sha_count1 = count1,
          sha_buffer = memcpy_at buffer j (drop i data)\<rparr>)"

text \<open>The loop of \<open>sat_SHA1_Final\<close> that adds zeros.\<close>

lemma update_count0: "sha_count0 (sat_SHA1_Update ctx [b]) = sha_count0 ctx + 8"
  by (simp add: sat_SHA1_Update_def Let_def split_beta)

definition count_block :: "u32 \<Rightarrow> nat" where
  "count_block c = unat c div 8 mod 64"

lemma and_504: "unat (c AND 504) = 8 * count_block c"
proof -
  have "n AND (2 * m) = 2 * ((n div 2) AND m)" for n m :: nat
    by (subst and_nat_rec) simp
  from this [of _ 252] this [of _ 126] this [of _ 63] have n: "n AND 504 = 8 * ((n div 8) AND 63)" for n :: nat
    by (simp add: div_mult2_eq [symmetric])
  have "n AND 63 = take_bit 6 n" for n :: nat by (simp only: take_bit_eq_mask) (simp add: mask_numeral)
  then have m: "n AND 63 = n mod 64" for n :: nat by (simp add: take_bit_nat_def)
  show ?thesis by (simp add: unsigned_and_eq n m count_block_def)
qed

lemma word_448: "unat (448 :: u32) = 448"
  by simp

lemma count_block_step: "count_block (c + 8) = (count_block c + 1) mod 64"
proof -
  have "take_bit 6 (drop_bit 3 (take_bit 32 n)) = take_bit 6 (drop_bit 3 n)" for n :: nat
    by (rule bit_eqI) (auto simp: bit_simps)
  then have t: "n mod 4294967296 div 8 mod 64 = n div 8 mod 64" for n :: nat
    by (simp add: take_bit_eq_mod drop_bit_eq_div)
  have "unat (c + 8) = (unat c + 8) mod 4294967296" by (simp add: unat_word_ariths)
  then have "count_block (c + 8) = (unat c + 8) div 8 mod 64" by (simp only: count_block_def t)
  also have "(unat c + 8) div 8 = unat c div 8 + 1" by simp
  finally show ?thesis by (simp only: count_block_def mod_add_left_eq)
qed

lemma block_measure:
  assumes "q \<noteq> 56" "q < 64"
  shows "(120 - (q + 1) mod 64) mod 64 < (120 - q) mod (64 :: nat)"
proof -
  consider "q < 56" | "56 < q" "q < 63" | "q = 63" using assms by linarith
  then show ?thesis by cases (simp_all add: le_mod_geq)
qed

function zero_loop :: "SHA1_CTX \<Rightarrow> SHA1_CTX" where
  "zero_loop ctx = (if sha_count0 ctx AND 504 \<noteq> 448 then zero_loop (sat_SHA1_Update ctx [0]) else ctx)"
  by pat_completeness auto
termination
proof (relation "measure (\<lambda>ctx. (120 - count_block (sha_count0 ctx)) mod 64)")
  fix ctx :: SHA1_CTX
  let ?c = "sha_count0 ctx"
  assume "?c AND 504 \<noteq> 448"
  then have "8 * count_block ?c \<noteq> 448" using and_504 [of ?c] word_448 by (metis word_eq_iff_unsigned)
  then have "count_block ?c \<noteq> 56" "count_block ?c < 64" by (simp_all add: count_block_def)
  then have "(120 - count_block (?c + 8)) mod 64 < (120 - count_block ?c) mod 64"
    unfolding count_block_step by (rule block_measure)
  then show "(sat_SHA1_Update ctx [0], ctx) \<in> measure (\<lambda>ctx. (120 - count_block (sha_count0 ctx)) mod 64)"
    by (simp add: update_count0)
qed simp

declare zero_loop.simps [simp del]

definition finalcount :: "SHA1_CTX \<Rightarrow> bytes" where
  "finalcount ctx =
     map (\<lambda>i. ucast (drop_bit ((3 - i mod 4) * 8) (if i \<ge> 4 then sha_count0 ctx else sha_count1 ctx))) [0..<8]"

definition sat_SHA1_Final :: "SHA1_CTX \<Rightarrow> bytes" where
  "sat_SHA1_Final ctx =
     (let ctx' = sat_SHA1_Update ctx [0x80];
          ctx' = zero_loop ctx';
          ctx' = sat_SHA1_Update ctx' (finalcount ctx)
      in map (\<lambda>i. ucast (drop_bit ((3 - i mod 4) * 8) (sha_state ctx' ! (i div 4)))) [0..<20])"

text \<open>\<open>stack\<close> is what a buffer on the stack holds before it is written.\<close>

definition lsha1 :: "bytes \<Rightarrow> bytes \<Rightarrow> bytes" where
  "lsha1 stack buffer = sat_SHA1_Final (sat_SHA1_Update (sat_SHA1_Init stack) buffer)"

definition xor_key :: "bytes \<Rightarrow> u32 \<Rightarrow> bytes" where
  "xor_key key x = concat (map (\<lambda>i. le32_bytes (le32 key (4 * i) XOR x)) [0..<16])"

definition lhmac_sha1 :: "bytes \<Rightarrow> bytes \<Rightarrow> bytes \<Rightarrow> bytes \<Rightarrow> bytes \<Rightarrow> bytes" where
  "lhmac_sha1 stack stack1 stack2 key text =
     (let rkey = replicate 64 0;
          rkey = (if length key > 64 then memcpy_at rkey 0 (sat_SHA1_Final (sat_SHA1_Update (sat_SHA1_Init stack) key))
                  else memcpy_at rkey 0 key);
          rkey = xor_key rkey 0x5c5c5c5c;
          ctx1 = sat_SHA1_Update (sat_SHA1_Init stack1) rkey;
          rkey = xor_key rkey (0x5c5c5c5c XOR 0x36363636);
          ctx2 = sat_SHA1_Update (sat_SHA1_Init stack2) rkey;
          ctx2 = sat_SHA1_Update ctx2 text;
          digest2 = sat_SHA1_Final ctx2;
          ctx1 = sat_SHA1_Update ctx1 digest2
      in sat_SHA1_Final ctx1)"

end
