(* ===== verification/Sha1Props.thy ===== *)
theory Sha1Props
  imports Sha1
begin

text \<open>
  The contract of SHA-1 as FIPS 180 states it, on whole messages, and the proof that the context of
  \<open>Sha1\<close>, fed in any pieces, computes it; HMAC on top, over the interface of a hash context.
\<close>

unbundle bit_operations_syntax

section \<open>The standard\<close>

definition sha1_f :: "nat \<Rightarrow> u32 \<Rightarrow> u32 \<Rightarrow> u32 \<Rightarrow> u32" where
  "sha1_f t x y z =
     (if t < 20 then (x AND y) OR (NOT x AND z) else if t < 40 then x XOR y XOR z
      else if t < 60 then (x AND y) OR (x AND z) OR (y AND z) else x XOR y XOR z)"

definition sha1_K :: "nat \<Rightarrow> u32" where
  "sha1_K t = (if t < 20 then 0x5A827999 else if t < 40 then 0x6ED9EBA1 else if t < 60 then 0x8F1BBCDC else 0xCA62C1D6)"

text \<open>The message schedule of a block of 64 bytes.\<close>

fun sha1_W :: "bytes \<Rightarrow> nat \<Rightarrow> u32" where
  "sha1_W m t =
     (if t < 16 then be32 (m ! (4 * t)) (m ! (4 * t + 1)) (m ! (4 * t + 2)) (m ! (4 * t + 3))
      else rol (sha1_W m (t - 3) XOR sha1_W m (t - 8) XOR sha1_W m (t - 14) XOR sha1_W m (t - 16)) 1)"

declare sha1_W.simps [simp del]

definition sha1_step :: "bytes \<Rightarrow> nat \<Rightarrow> u32 \<times> u32 \<times> u32 \<times> u32 \<times> u32 \<Rightarrow> u32 \<times> u32 \<times> u32 \<times> u32 \<times> u32" where
  "sha1_step m t = (\<lambda>(a, b, c, d, e). (rol a 5 + sha1_f t b c d + e + sha1_K t + sha1_W m t, a, rol b 30, c, d))"

definition sha1_compress :: "u32 list \<Rightarrow> bytes \<Rightarrow> u32 list" where
  "sha1_compress h m =
     (let (a, b, c, d, e) = fold (sha1_step m) [0..<80] (h ! 0, h ! 1, h ! 2, h ! 3, h ! 4)
      in [h ! 0 + a, h ! 1 + b, h ! 2 + c, h ! 3 + d, h ! 4 + e])"

text \<open>The whole blocks of a message; what is left at its end is not looked at.\<close>

function sha1_blocks :: "u32 list \<Rightarrow> bytes \<Rightarrow> u32 list" where
  "sha1_blocks h m = (if length m < 64 then h else sha1_blocks (sha1_compress h (take 64 m)) (drop 64 m))"
  by pat_completeness auto
termination by (relation "measure (\<lambda>(h, m). length m)") auto

declare sha1_blocks.simps [simp del]

definition sha1_H0 :: "u32 list" where
  "sha1_H0 = [0x67452301, 0xEFCDAB89, 0x98BADCFE, 0x10325476, 0xC3D2E1F0]"

definition sha1_pad :: "bytes \<Rightarrow> bytes" where
  "sha1_pad m = m @ [0x80] @ replicate ((119 - length m mod 64) mod 64) 0 @ be_bytes 8 (8 * length m)"

definition sha1_spec :: "bytes \<Rightarrow> bytes" where
  "sha1_spec m = concat (map (\<lambda>w. be_bytes 4 (unat w)) (sha1_blocks sha1_H0 (sha1_pad m)))"

section \<open>One block\<close>

lemma byte_swap: "(rol w 24 AND 0xFF00FF00) OR (rol w 8 AND 0x00FF00FF)
    = be32 (ucast w) (ucast (drop_bit 8 w)) (ucast (drop_bit 16 w)) (ucast (drop_bit 24 w))"
proof -
  have m: "(0xFF00FF00 :: u32) = push_bit 24 (mask 8) OR push_bit 8 (mask 8)" "(0x00FF00FF :: u32) = push_bit 16 (mask 8) OR mask 8"
    by (simp_all add: mask_numeral)
  show ?thesis unfolding m
  proof (rule bit_word_eqI)
    fix n assume "n < LENGTH(32)"
    then consider "n < 8" | "8 \<le> n" "n < 16" | "16 \<le> n" "n < 24" | "24 \<le> n" "n < 32" by fastforce
    then show "bit ((rol w 24 AND (push_bit 24 (mask 8) OR push_bit 8 (mask 8))) OR (rol w 8 AND (push_bit 16 (mask 8) OR mask 8))) n
      = bit (be32 (ucast w) (ucast (drop_bit 8 w)) (ucast (drop_bit 16 w)) (ucast (drop_bit 24 w))) n"
      by cases (auto simp: rol_def be32_def bit_simps dest: bit_imp_le_length)
  qed
qed

lemma le32_be32:
  "be32 (ucast (le32 m i)) (ucast (drop_bit 8 (le32 m i))) (ucast (drop_bit 16 (le32 m i))) (ucast (drop_bit 24 (le32 m i)))
   = be32 (m ! i) (m ! (i + 1)) (m ! (i + 2)) (m ! (i + 3))"
proof -
  have "ucast (le32 m i) = m ! i" "ucast (drop_bit 8 (le32 m i)) = m ! (i + 1)"
    "ucast (drop_bit 16 (le32 m i)) = m ! (i + 2)" "ucast (drop_bit 24 (le32 m i)) = m ! (i + 3)"
    by (rule bit_word_eqI; auto simp: le32_def bit_simps dest: byte_ends)+
  then show ?thesis by simp
qed

definition sched_ok :: "bytes \<Rightarrow> nat \<Rightarrow> u32 list \<Rightarrow> bool" where
  "sched_ok m t l \<longleftrightarrow> length l = 16 \<and> (\<forall>s<t. t \<le> s + 16 \<longrightarrow> l ! (s mod 16) = sha1_W m s) \<and>
     (\<forall>s<16. t \<le> s \<longrightarrow> l ! s = le32 m (4 * s))"

lemma sched_window: "sched_ok m t l \<Longrightarrow> 16 \<le> t \<Longrightarrow> k + j = 16 \<Longrightarrow> 0 < k \<Longrightarrow> l ! ((t + j) mod 16) = sha1_W m (t - k)"
proof -
  assume a: "sched_ok m t l" "16 \<le> t" "k + j = 16" "0 < k"
  then have "t + j = (t - k) + 16" by simp
  then have "(t + j) mod 16 = (t - k) mod 16" by (simp only: mod_add_self2)
  then show ?thesis using a by (auto simp: sched_ok_def)
qed

lemma sched_word:
  assumes "sched_ok m t l"
  shows "(if t < 16 then blk0 l t else blk l t) = sha1_W m t"
proof (cases "t < 16")
  case True
  then have "l ! t = le32 m (4 * t)" using assms by (simp add: sched_ok_def)
  then show ?thesis using True by (simp add: blk0_def byte_swap le32_be32 sha1_W.simps [of m t])
next
  case False
  then have "16 \<le> t" by simp
  then show ?thesis
    using sched_window [OF assms, of 3 13] sched_window [OF assms, of 8 8] sched_window [OF assms, of 14 2]
      sched_window [OF assms, of 16 0]
    by (simp add: blk_def sha1_W.simps [of m t])
qed

lemma sched_next:
  assumes "sched_ok m t l"
  shows "sched_ok m (Suc t) (l[t mod 16 := sha1_W m t])"
proof -
  have l: "length l = 16" using assms by (simp add: sched_ok_def)
  have w: "l[t mod 16 := sha1_W m t] ! (s mod 16) = sha1_W m s" if "s < Suc t" "Suc t \<le> s + 16" for s
  proof (cases "s = t")
    case False
    then have "s < t" "t < s + 16" using that by simp_all
    then have "\<not> 16 dvd t - s" by (auto dest: dvd_imp_le)
    then have "s mod 16 \<noteq> t mod 16" using \<open>s < t\<close> by (metis less_imp_le mod_eq_dvd_iff_nat)
    then show ?thesis using assms that False by (simp add: sched_ok_def)
  qed (simp add: l)
  have "l[t mod 16 := sha1_W m t] ! s = le32 m (4 * s)" if "s < 16" "Suc t \<le> s" for s
    using assms that by (simp add: sched_ok_def)
  then show ?thesis using w l by (simp add: sched_ok_def)
qed

lemma sha_op_eq: "sha_op i w x y b = sha1_f i w x y + b + sha1_K i"
proof -
  have "(w AND (x XOR y)) XOR y = (w AND x) OR (NOT w AND y)"
    "((w OR x) AND y) OR (w AND x) = (w AND x) OR (w AND y) OR (x AND y)"
    by (rule bit_word_eqI; auto simp: bit_simps)+
  then show ?thesis by (simp add: sha_op_def sha1_f_def sha1_K_def)
qed

lemma rounds:
  "sched_ok m 0 l \<Longrightarrow> \<exists>l'. fold sha_R [0..<n] (s, l) = (fold (sha1_step m) [0..<n] s, l') \<and> sched_ok m n l'"
proof (induction n)
  case (Suc n)
  then obtain l' where f: "fold sha_R [0..<n] (s, l) = (fold (sha1_step m) [0..<n] s, l')" and ok: "sched_ok m n l'" by blast
  obtain a b c d e where s: "fold (sha1_step m) [0..<n] s = (a, b, c, d, e)" by (metis prod_cases5)
  have "sha_R n ((a, b, c, d, e), l') = (sha1_step m n (a, b, c, d, e), l'[n mod 16 := sha1_W m n])"
    using sched_word [OF ok] by (simp add: sha_R_def sha1_step_def Let_def sha_op_eq ac_simps)
  then show ?case using sched_next [OF ok] by (simp add: f s)
qed simp

lemma transform_compress: "SHA1_Transform h m = sha1_compress h m"
proof -
  have "sched_ok m 0 (map (\<lambda>i. le32 m (4 * i)) [0..<16])" by (simp add: sched_ok_def)
  from rounds [OF this, of 80 "(h ! 0, h ! 1, h ! 2, h ! 3, h ! 4)"] show ?thesis
    by (auto simp: SHA1_Transform_def sha1_compress_def Let_def simp del: upt_Suc split: prod.split)
qed

section \<open>Messages in pieces\<close>

definition rest :: "bytes \<Rightarrow> bytes" where
  "rest m = drop (64 * (length m div 64)) m"

lemma length_rest: "length (rest m) = length m mod 64"
  by (simp add: rest_def minus_mult_div_eq_mod)

lemma rest_short: "length m < 64 \<Longrightarrow> rest m = m"
  by (simp add: rest_def)

lemma rest_drop: "64 \<le> length m \<Longrightarrow> rest (drop 64 m) = rest m"
  by (simp add: rest_def le_div_geq [of 64 "length m"] add.commute)

lemma blocks_rest: "sha1_blocks h (m @ d) = sha1_blocks (sha1_blocks h m) (rest m @ d) \<and> rest (m @ d) = rest (rest m @ d)"
proof (induction h m rule: sha1_blocks.induct)
  case (1 h m)
  show ?case
  proof (cases "length m < 64")
    case True
    then show ?thesis by (simp add: rest_short sha1_blocks.simps [of h m])
  next
    case False
    then have "sha1_blocks h (m @ d) = sha1_blocks (sha1_compress h (take 64 m)) (drop 64 m @ d)"
      "rest (m @ d) = rest (drop 64 m @ d)"
      using rest_drop [of "m @ d"] by (simp_all add: sha1_blocks.simps [of h "m @ d"])
    then show ?thesis using 1 False by (simp add: sha1_blocks.simps [of h m] rest_drop)
  qed
qed

lemma update_loop_blocks:
  "i \<le> length data \<Longrightarrow> \<exists>k. update_loop h data i = (sha1_blocks h (drop i data), k) \<and> drop k data = rest (drop i data)"
proof (induction h data i rule: update_loop.induct)
  case (1 h data i)
  show ?case
  proof (cases "i + 63 < length data")
    case True
    then have l: "64 \<le> length (drop i data)" "i + 64 \<le> length data" by simp_all
    then have "drop 64 (drop i data) = drop (i + 64) data" "\<not> length (drop i data) < 64" by (simp_all add: add.commute)
    moreover from this have "rest (drop (i + 64) data) = rest (drop i data)" using rest_drop [OF l(1)] by simp
    ultimately show ?thesis using 1(1) [OF True l(2)] True
      by (simp add: update_loop.simps [of h data i] sha1_blocks.simps [of h "drop i data"] transform_compress)
  next
    case False
    then have "length (drop i data) < 64" by simp
    then show ?thesis using False
      by (simp add: update_loop.simps [of h data i] sha1_blocks.simps [of h "drop i data"] rest_short)
  qed
qed

text \<open>The context after the bytes of \<open>m\<close>.\<close>

definition sha1_repr :: "SHA1_CTX \<Rightarrow> bytes \<Rightarrow> bool" where
  "sha1_repr ctx m \<longleftrightarrow> length (sha_buffer ctx) = 64 \<and> sha_state ctx = sha1_blocks sha1_H0 m \<and>
     take (length m mod 64) (sha_buffer ctx) = rest m \<and>
     sha_count0 ctx = of_nat (8 * length m) \<and> sha_count1 ctx = of_nat (8 * length m div 2 ^ 32)"

lemma block_of_count: "count_block (of_nat (8 * n)) = n mod 64"
proof -
  have "take_bit 6 (drop_bit 3 (take_bit 32 k)) = take_bit 6 (drop_bit 3 k)" for k :: nat
    by (rule bit_eqI) (auto simp: bit_simps)
  then have "k mod 2 ^ 32 div 8 mod 64 = k div 8 mod 64" for k :: nat
    by (simp add: take_bit_eq_mod drop_bit_eq_div)
  from this [of "8 * n"] show ?thesis
    unfolding count_block_def unsigned_of_nat take_bit_nat_def by simp
qed

lemma index_of_count: "unat (drop_bit 3 c AND 63) = count_block c"
proof -
  have "unat (drop_bit 3 c AND mask 6) = unat (drop_bit 3 c) mod 2 ^ 6" by (rule unat_and_mask)
  then show ?thesis by (simp add: count_block_def mask_numeral unat_drop_bit_div)
qed

text \<open>The 64 bit counter in two words.\<close>

lemma counter:
  fixes c0 c1 :: u32
  assumes "c0 = of_nat x" "c1 = of_nat (x div 2 ^ 32)" "y < 2 ^ 32"
  shows "c0 + of_nat y = of_nat (x + y)"
    "(if unat (c0 + of_nat y) < y then c1 + 1 else c1) = of_nat ((x + y) div 2 ^ 32)"
proof -
  define z where "z = x mod 2 ^ 32 + y"
  have z: "z < 2 * 2 ^ 32" using assms(3) mod_less_divisor [of "2 ^ 32" x] by (simp add: z_def)
  have d: "(x + y) div 2 ^ 32 = x div 2 ^ 32 + z div 2 ^ 32"
    using assms(3) by (simp add: z_def div_add1_eq [of x y])
  show "c0 + of_nat y = of_nat (x + y)" by (simp add: assms(1))
  then have "unat (c0 + of_nat y) = (x + y) mod 2 ^ 32"
    by (simp only: unsigned_of_nat take_bit_nat_def) simp
  then have u: "unat (c0 + of_nat y) = z mod 2 ^ 32" by (simp only: z_def mod_add_left_eq)
  show "(if unat (c0 + of_nat y) < y then c1 + 1 else c1) = of_nat ((x + y) div 2 ^ 32)"
  proof (cases "z < 2 ^ 32")
    case True
    then have "\<not> unat (c0 + of_nat y) < y" "z div 2 ^ 32 = 0" using u by (simp_all add: z_def)
    then show ?thesis unfolding d assms(2) by simp
  next
    case False
    then have "z mod 2 ^ 32 = z - 2 ^ 32" "z div 2 ^ 32 = 1" using z by (simp_all add: le_mod_geq le_div_geq)
    moreover have "z - 2 ^ 32 < y" using False mod_less_divisor [of "2 ^ 32" x] assms(3) by (simp add: z_def)
    ultimately show ?thesis using u unfolding d assms(2) by simp
  qed
qed

lemma length_memcpy: "j + length d \<le> length b \<Longrightarrow> length (memcpy_at b j d) = length b"
  by (simp add: memcpy_at_def)

lemma memcpy_prefix: "take j b = r \<Longrightarrow> length r = j \<Longrightarrow> take (j + length d) (memcpy_at b j d) = r @ d"
  by (simp add: memcpy_at_def)

lemma absorb:
  assumes b: "length b = 64" "take j b = rest m" "j = length m mod 64"
    and s: "(if 63 < j + length d
      then let buffer = memcpy_at b j (take (64 - j) d);
               (state, i) = update_loop (SHA1_Transform (sha1_blocks h m) buffer) d (64 - j)
           in (state, buffer, 0, i)
      else (sha1_blocks h m, b, j, 0)) = (st', b', j', i')"
  shows "st' = sha1_blocks h (m @ d)" "length (memcpy_at b' j' (drop i' d)) = 64"
    "take (length (m @ d) mod 64) (memcpy_at b' j' (drop i' d)) = rest (m @ d)"
proof -
  let ?H = "sha1_blocks h m"
  have j: "j < 64" "length (rest m) = j" using b(3) by (simp_all add: length_rest)
  have md: "sha1_blocks h (m @ d) = sha1_blocks ?H (rest m @ d)" "rest (m @ d) = rest (rest m @ d)"
    using blocks_rest by blast+
  have *: "st' = sha1_blocks h (m @ d) \<and> length (memcpy_at b' j' (drop i' d)) = 64 \<and>
    take (length (rest (m @ d))) (memcpy_at b' j' (drop i' d)) = rest (m @ d)"
  proof (cases "63 < j + length d")
    case True
    define B where "B = memcpy_at b j (take (64 - j) d)"
    define D where "D = drop (64 - j) d"
    have B: "B = rest m @ take (64 - j) d" "length B = 64"
      using memcpy_prefix [OF b(2) j(2), of "take (64 - j) d"] length_memcpy [of j "take (64 - j) d" b] j True b(1)
      by (simp_all add: B_def)
    then have rd: "rest m @ d = B @ D" by (simp add: D_def)
    have bl: "sha1_blocks ?H (B @ D) = sha1_blocks (sha1_compress ?H B) D" "rest (B @ D) = rest D"
      using rest_drop [of "B @ D"] B(2) by (simp_all add: sha1_blocks.simps [of ?H "B @ D"])
    have "64 - j \<le> length d" using True by linarith
    then obtain k where k: "update_loop (SHA1_Transform ?H B) d (64 - j) = (sha1_blocks (sha1_compress ?H B) D, k)"
      "drop k d = rest D"
      using update_loop_blocks [of "64 - j" d "sha1_compress ?H B"] by (auto simp: D_def transform_compress)
    have s': "st' = sha1_blocks (sha1_compress ?H B) D" "b' = B" "j' = 0" "i' = k"
      using s True by (auto simp: k Let_def simp flip: B_def)
    have "length (rest D) < 64" by (simp add: length_rest)
    then show ?thesis using B(2) k(2) by (simp add: md rd bl s' length_memcpy memcpy_prefix [of 0 _ "[]", simplified])
  next
    case False
    then have sh: "length (rest m @ d) < 64" using j by simp
    have s': "st' = ?H" "b' = b" "j' = j" "i' = 0" using s False by simp_all
    show ?thesis using sh j memcpy_prefix [OF b(2) j(2), of d] b(1)
      by (simp add: md s' rest_short sha1_blocks.simps [of ?H "rest m @ d"] length_memcpy)
  qed
  then show "st' = sha1_blocks h (m @ d)" "length (memcpy_at b' j' (drop i' d)) = 64" by blast+
  show "take (length (m @ d) mod 64) (memcpy_at b' j' (drop i' d)) = rest (m @ d)"
    using * by (simp add: length_rest)
qed

lemma len_words:
  fixes n :: nat
  assumes "n < 2 ^ 29"
  defines "len \<equiv> of_nat n :: u64"
  shows "unat (push_bit 3 len) = 8 * n" "ucast (push_bit 3 len) = (of_nat (8 * n) :: u32)" "ucast (drop_bit 29 len) = (0 :: u32)"
proof -
  have n: "unat len = n" using assms(1) by (simp add: len_def unsigned_of_nat take_bit_nat_eq_self)
  then show u: "unat (push_bit 3 len) = 8 * n"
    using assms(1) by (simp add: push_bit_eq_mult unat_word_ariths)
  have "unat (drop_bit 29 len) = 0" using assms(1) n by (simp add: unat_drop_bit_div)
  then have "drop_bit 29 len = 0" by (simp only: unat_eq_zero)
  then show "ucast (drop_bit 29 len) = (0 :: u32)" by simp
  show "ucast (push_bit 3 len) = (of_nat (8 * n) :: u32)"
    by (rule unsigned_word_eqI [where ?'a = nat]) (simp only: unsigned_ucast_eq u unsigned_of_nat of_nat_id)
qed

lemma sha1_update:
  assumes r: "sha1_repr ctx m" and l: "length d < 2 ^ 29"
  shows "sha1_repr (sat_SHA1_Update ctx d) (m @ d)"
proof -
  let ?j = "length m mod 64"
  have b: "length (sha_buffer ctx) = 64" "take ?j (sha_buffer ctx) = rest m" and st: "sha_state ctx = sha1_blocks sha1_H0 m"
    and c: "sha_count0 ctx = of_nat (8 * length m)" "sha_count1 ctx = of_nat (8 * length m div 2 ^ 32)"
    using r by (simp_all only: sha1_repr_def simp_thms)
  have j: "unat (drop_bit 3 (sha_count0 ctx) AND 63) = ?j" by (simp only: index_of_count c(1) block_of_count)
  have l8: "8 * length d < 2 ^ 32" using l by simp
  note w = len_words [OF l]
  have cmp: "ucast c < push_bit 3 (of_nat (length d) :: u64) \<longleftrightarrow> unat c < 8 * length d" for c :: u32
  proof -
    have "unat c < 2 ^ 64" using unsigned_less [of c, where ?'a = nat] by simp
    then show ?thesis unfolding word_less_nat_alt w(1) by (simp add: unsigned_ucast_eq take_bit_nat_eq_self)
  qed
  obtain st' b' j' i' where s: "(if 63 < ?j + length d
      then let buffer = memcpy_at (sha_buffer ctx) ?j (take (64 - ?j) d);
               (state, i) = update_loop (SHA1_Transform (sha1_blocks sha1_H0 m) buffer) d (64 - ?j)
           in (state, buffer, 0, i)
      else (sha1_blocks sha1_H0 m, sha_buffer ctx, ?j, 0)) = (st', b', j', i')" by (metis prod_cases4)
  have u: "sat_SHA1_Update ctx d = \<lparr>sha_state = st', sha_count0 = of_nat (8 * length m + 8 * length d),
      sha_count1 = of_nat ((8 * length m + 8 * length d) div 2 ^ 32), sha_buffer = memcpy_at b' j' (drop i' d)\<rparr>"
    unfolding sat_SHA1_Update_def Let_def j st s [unfolded Let_def] w cmp
    unfolding counter(2) [OF c l8]
    unfolding counter(1) [OF c l8] by simp
  show ?thesis unfolding sha1_repr_def u using absorb [OF b refl s] by (simp add: distrib_left)
qed

lemma sha1_init: "length stack = 64 \<Longrightarrow> sha1_repr (sat_SHA1_Init stack) []"
  by (simp add: sha1_repr_def sat_SHA1_Init_def sha1_H0_def rest_def sha1_blocks.simps)

section \<open>The digest\<close>

text \<open>The zeros that fill the block up to 56 bytes when \<open>q\<close> of its bytes are used.\<close>

definition zeros :: "nat \<Rightarrow> nat" where
  "zeros q = (120 - q mod 64) mod 64"

lemma zeros_56: "n mod 64 = 56 \<Longrightarrow> zeros n = 0"
  by (simp add: zeros_def)

lemma zeros_step:
  assumes "n mod 64 \<noteq> 56"
  shows "zeros n = Suc (zeros (Suc n))"
proof -
  define q where "q = n mod 64"
  have q: "q < 64" "q \<noteq> 56" using assms by (simp_all add: q_def)
  have s: "Suc n mod 64 = (if q = 63 then 0 else Suc q)" by (simp add: q_def mod_Suc)
  consider "q < 56" | "56 < q" "q < 63" | "q = 63" using q by linarith
  then show ?thesis by cases (simp_all add: zeros_def s le_mod_geq flip: q_def)
qed

lemma zeros_after_80: "zeros (Suc n) = (119 - n mod 64) mod 64"
proof -
  have "n mod 64 < 64" by simp
  then show ?thesis by (auto simp: zeros_def mod_Suc)
qed

lemma count_is_448: "sha1_repr ctx m \<Longrightarrow> sha_count0 ctx AND 504 = 448 \<longleftrightarrow> length m mod 64 = 56"
proof -
  assume "sha1_repr ctx m"
  then have "count_block (sha_count0 ctx) = length m mod 64" by (simp only: sha1_repr_def block_of_count)
  then have "unat (sha_count0 ctx AND 504) = 8 * (length m mod 64)" by (simp only: and_504)
  then have "sha_count0 ctx AND 504 = 448 \<longleftrightarrow> 8 * (length m mod 64) = 448"
    using word_448 by (metis word_eq_iff_unsigned)
  then show ?thesis by simp
qed

lemma zero_loop_repr: "sha1_repr ctx m \<Longrightarrow> sha1_repr (zero_loop ctx) (m @ replicate (zeros (length m)) 0)"
proof (induction ctx arbitrary: m rule: zero_loop.induct)
  case (1 ctx)
  show ?case
  proof (cases "sha_count0 ctx AND 504 = 448")
    case True
    then show ?thesis using 1(2) count_is_448 [OF 1(2)] by (simp add: zero_loop.simps [of ctx] zeros_56)
  next
    case False
    then have z: "zeros (length m) = Suc (zeros (Suc (length m)))" using count_is_448 [OF 1(2)] by (intro zeros_step) simp
    have "sha1_repr (sat_SHA1_Update ctx [0]) (m @ [0])" by (rule sha1_update [OF 1(2)]) simp
    from 1(1) [OF False this] show ?thesis using False by (simp add: zero_loop.simps [of ctx] z)
  qed
qed

lemma word_byte: "k + 8 \<le> 32 \<Longrightarrow> ucast (drop_bit k (of_nat n :: u32)) = (of_nat (n div 2 ^ k) :: u8)"
proof -
  assume k: "k + 8 \<le> 32"
  have "take_bit 8 (drop_bit k (take_bit 32 n)) = take_bit 8 (drop_bit k n)"
    using k by (intro bit_eqI) (auto simp: bit_simps)
  also have "drop_bit k n = n div 2 ^ k" by (rule drop_bit_eq_div)
  finally have "unat (ucast (drop_bit k (of_nat n :: u32)) :: u8) = unat (of_nat (n div 2 ^ k) :: u8)"
    by (simp only: unsigned_ucast_eq unat_drop_bit_eq unsigned_of_nat of_nat_id len_num0 len_bit0 len_bit1 len_num1) simp
  then show ?thesis by (rule unsigned_word_eqI)
qed

lemma div_256: "n div 256 div 256 = n div (2 ^ 16 :: nat)" "n div 2 ^ 16 div 256 = n div (2 ^ 24 :: nat)"
  "n div 2 ^ 24 div 256 = n div (2 ^ 32 :: nat)"
  by (simp_all add: div_mult2_eq [symmetric])

lemma div_byte: "n div 256 = n div (2 ^ 8 :: nat)"
  by simp

lemma be_bytes_8: "be_bytes 8 n = be_bytes 4 (n div 2 ^ 32) @ be_bytes 4 n"
proof -
  have "be_bytes 8 n = be_bytes (Suc (Suc (Suc (Suc 4)))) n" by (rule arg_cong [where f = "\<lambda>k. be_bytes k n"]) simp
  also have "\<dots> = be_bytes 4 (n div 256 div 256 div 256 div 256) @
    [of_nat (n div 256 div 256 div 256), of_nat (n div 256 div 256), of_nat (n div 256), of_nat n]"
    by (simp only: be_bytes.simps append_assoc append.simps)
  finally show ?thesis unfolding be_bytes_4 [of n] div_256 unfolding div_byte .
qed

definition word_bytes :: "u32 \<Rightarrow> bytes" where
  "word_bytes w = [ucast (drop_bit 24 w), ucast (drop_bit 16 w), ucast (drop_bit 8 w), ucast (drop_bit 0 w)]"

lemma word_bytes_be: "word_bytes (of_nat n) = be_bytes 4 n"
  by (simp only: word_bytes_def be_bytes_4 word_byte) simp

lemma upto_8: "[0..<8] = [0, 1, 2, 3, 4, 5, 6, 7::nat]"
  by (simp add: upt_rec)

lemma finalcount_be:
  assumes "sha1_repr ctx m"
  shows "finalcount ctx = be_bytes 8 (8 * length m)"
proof -
  have "finalcount ctx = word_bytes (sha_count1 ctx) @ word_bytes (sha_count0 ctx)"
    by (simp add: finalcount_def upto_8 word_bytes_def)
  then show ?thesis using assms by (simp only: sha1_repr_def word_bytes_be be_bytes_8)
qed

lemma length_compress: "length h = 5 \<Longrightarrow> length (sha1_compress h m) = 5"
  by (simp add: sha1_compress_def split: prod.split)

lemma length_blocks: "length h = 5 \<Longrightarrow> length (sha1_blocks h m) = 5"
proof (induction h m rule: sha1_blocks.induct)
  case (1 h m)
  then show ?case by (cases "length m < 64") (simp_all add: sha1_blocks.simps [of h m] length_compress)
qed

lemma digest_bytes:
  fixes h :: "u32 list"
  assumes "length h = 5"
  shows "map (\<lambda>i. ucast (drop_bit ((3 - i mod 4) * 8) (h ! (i div 4)))) [0..<20]
    = concat (map (\<lambda>w. be_bytes 4 (unat w)) h)"
proof -
  have u: "[0..<20] = [0, 1, 2, 3, 4, 5, 6, 7, 8, 9, 10, 11, 12, 13, 14, 15, 16, 17, 18, 19::nat]" by (simp add: upt_rec)
  have "length h = Suc (Suc (Suc (Suc (Suc 0))))" using assms by simp
  then obtain a b c d e where h: "h = [a, b, c, d, e]" by (auto simp: length_Suc_conv)
  have b: "be_bytes 4 (unat w) = word_bytes w" for w using word_bytes_be [of "unat w"] by simp
  show ?thesis unfolding b u h by (simp add: word_bytes_def)
qed

lemma sha1_final:
  assumes "sha1_repr ctx m"
  shows "sat_SHA1_Final ctx = sha1_spec m"
proof -
  have "sha1_repr (sat_SHA1_Update ctx [0x80]) (m @ [0x80])" by (rule sha1_update [OF assms]) simp
  from zero_loop_repr [OF this]
  have z: "sha1_repr (zero_loop (sat_SHA1_Update ctx [0x80])) (m @ 0x80 # replicate ((119 - length m mod 64) mod 64) 0)"
    by (simp add: zeros_after_80)
  have "length (finalcount ctx) < 2 ^ 29" by (simp add: finalcount_def)
  from sha1_update [OF z this]
  have "sha1_repr (sat_SHA1_Update (zero_loop (sat_SHA1_Update ctx [0x80])) (finalcount ctx)) (sha1_pad m)"
    by (simp add: sha1_pad_def finalcount_be [OF assms])
  then have s: "sha_state (sat_SHA1_Update (zero_loop (sat_SHA1_Update ctx [0x80])) (finalcount ctx)) = sha1_blocks sha1_H0 (sha1_pad m)"
    by (simp only: sha1_repr_def)
  have "length (sha1_blocks sha1_H0 (sha1_pad m)) = 5" by (rule length_blocks) (simp add: sha1_H0_def)
  from digest_bytes [OF this] show ?thesis by (simp only: sat_SHA1_Final_def Let_def s sha1_spec_def)
qed

lemma length_sha1_spec: "length (sha1_spec m) = 20"
proof -
  have "length (sha1_blocks sha1_H0 (sha1_pad m)) = 5" by (rule length_blocks) (simp add: sha1_H0_def)
  then show ?thesis by (simp add: sha1_spec_def length_concat comp_def sum_list_triv)
qed

section \<open>Hash contexts\<close>

text \<open>What HMAC relies on: a context takes a message in pieces, and its digest is the hash of the whole.\<close>

locale hash_context =
  fixes init :: "'s \<Rightarrow> 'c" and update :: "'c \<Rightarrow> bytes \<Rightarrow> 'c" and final :: "'c \<Rightarrow> bytes"
    and H :: "bytes \<Rightarrow> bytes" and repr :: "'c \<Rightarrow> bytes \<Rightarrow> bool" and fresh :: "'s \<Rightarrow> bool" and small :: "bytes \<Rightarrow> bool"
  assumes repr_init: "fresh s \<Longrightarrow> repr (init s) []"
    and repr_update: "repr c m \<Longrightarrow> small d \<Longrightarrow> repr (update c d) (m @ d)"
    and repr_final: "repr c m \<Longrightarrow> final c = H m"
begin

lemma hash_pieces:
  assumes "fresh s" "\<forall>d \<in> set ds. small d"
  shows "final (foldl update (init s) ds) = H (concat ds)"
proof -
  have "repr c m \<Longrightarrow> repr (foldl update c ds) (m @ concat ds)" for c m
    using assms(2)
  proof (induction ds arbitrary: c m)
    case (Cons d ds)
    then have "repr (foldl update (update c d) ds) ((m @ d) @ concat ds)" by (intro Cons.IH repr_update) simp_all
    then show ?case by simp
  qed simp
  from this [OF repr_init [OF assms(1)]] show ?thesis using repr_final by simp
qed

lemma hash_one: "fresh s \<Longrightarrow> small d \<Longrightarrow> final (update (init s) d) = H d"
  using hash_pieces [of s "[d]"] by simp

lemma hash_two: "fresh s \<Longrightarrow> small d \<Longrightarrow> small e \<Longrightarrow> final (update (update (init s) d) e) = H (d @ e)"
  using hash_pieces [of s "[d, e]"] by simp

end

interpretation sha1: hash_context sat_SHA1_Init sat_SHA1_Update sat_SHA1_Final sha1_spec sha1_repr "\<lambda>s. length s = 64"
  "\<lambda>d. length d < 2 ^ 29"
  by unfold_locales (fact sha1_init sha1_update sha1_final)+

section \<open>HMAC\<close>

definition hmac_spec :: "bytes \<Rightarrow> bytes \<Rightarrow> bytes" where
  "hmac_spec key text =
     (let k = (if length key > 64 then sha1_spec key else key);
          K = k @ replicate (64 - length k) 0
      in sha1_spec (map (\<lambda>b. b XOR 0x5c) K @ sha1_spec (map (\<lambda>b. b XOR 0x36) K @ text)))"

lemma le32_bytes_xor:
  assumes "i + 4 \<le> length key"
  shows "le32_bytes (le32 key i XOR le32 [x, x, x, x] 0) = map (\<lambda>b. b XOR x) (take 4 (drop i key))"
proof -
  have "take 4 (drop i key) = [key ! i, key ! (i + 1), key ! (i + 2), key ! (i + 3)]"
    using assms by (intro nth_equalityI) (auto simp: less_Suc_eq numeral_eq_Suc)
  moreover have "ucast (le32 key i XOR le32 [x, x, x, x] 0) = key ! i XOR x"
    "ucast (drop_bit 8 (le32 key i XOR le32 [x, x, x, x] 0)) = key ! (i + 1) XOR x"
    "ucast (drop_bit 16 (le32 key i XOR le32 [x, x, x, x] 0)) = key ! (i + 2) XOR x"
    "ucast (drop_bit 24 (le32 key i XOR le32 [x, x, x, x] 0)) = key ! (i + 3) XOR x"
    by (rule bit_word_eqI; auto simp: le32_def bit_simps dest: byte_ends)+
  ultimately show ?thesis by (simp add: le32_bytes_def)
qed

lemma xor_key_map:
  assumes "length key = 64"
  shows "xor_key key (le32 [x, x, x, x] 0) = map (\<lambda>b. b XOR x) key"
proof -
  have "concat (map (\<lambda>i. take 4 (drop (4 * i) key)) [0..<n]) = take (4 * n) key" if "n \<le> 16" for n
    using that
  proof (induction n)
    case (Suc n)
    then show ?case by (simp add: take_add [of "4 * n" 4, simplified add.commute])
  qed simp
  then have c: "concat (map (\<lambda>i. take 4 (drop (4 * i) key)) [0..<16]) = key" using assms by simp
  have "xor_key key (le32 [x, x, x, x] 0) = concat (map (\<lambda>i. map (\<lambda>b. b XOR x) (take 4 (drop (4 * i) key))) [0..<16])"
    unfolding xor_key_def using assms by (intro arg_cong [where f = concat] map_cong refl le32_bytes_xor) auto
  also have "\<dots> = map (\<lambda>b. b XOR x) (concat (map (\<lambda>i. take 4 (drop (4 * i) key)) [0..<16]))"
    by (simp add: map_concat comp_def)
  finally show ?thesis by (simp only: c)
qed

lemma hmac_masks: "(0x5c5c5c5c :: u32) = le32 [0x5c, 0x5c, 0x5c, 0x5c] 0"
  "(0x5c5c5c5c XOR 0x36363636 :: u32) = le32 [0x6a, 0x6a, 0x6a, 0x6a] 0"
  by (simp_all add: le32_def)

lemma hmac_correct:
  assumes s: "length stack = 64" "length stack1 = 64" "length stack2 = 64" and l: "length key < 2 ^ 29" "length text < 2 ^ 29"
  shows "lhmac_sha1 stack stack1 stack2 key text = hmac_spec key text"
proof -
  define k where "k = (if length key > 64 then sha1_spec key else key)"
  define K where "K = k @ replicate (64 - length k) 0"
  have kl: "length k \<le> 64" by (simp add: k_def length_sha1_spec)
  then have K: "length K = 64" "memcpy_at (replicate 64 0) 0 k = K" by (simp_all add: K_def memcpy_at_def)
  have fin: "sat_SHA1_Final (sat_SHA1_Update (sat_SHA1_Init stack) key) = sha1_spec key"
    by (rule sha1.hash_one [OF s(1) l(1)])
  have rkey: "(if length key > 64 then memcpy_at (replicate 64 0) 0 (sat_SHA1_Final (sat_SHA1_Update (sat_SHA1_Init stack) key))
      else memcpy_at (replicate 64 0) 0 key) = K"
    using K(2) by (simp add: fin k_def split: if_splits)
  let ?o = "map (\<lambda>b. b XOR 0x5c) K"
  have o: "xor_key K 0x5c5c5c5c = ?o" unfolding hmac_masks(1) by (rule xor_key_map [OF K(1)])
  have x: "(b XOR 0x5c) XOR 0x6a = b XOR (0x36 :: u8)" for b by (simp add: xor.assoc)
  have i: "xor_key ?o (0x5c5c5c5c XOR 0x36363636) = map (\<lambda>b. b XOR 0x36) K"
    unfolding hmac_masks(2) using K(1) by (subst xor_key_map) (simp_all add: comp_def x)
  let ?i = "map (\<lambda>b. b XOR 0x36) K"
  have "sat_SHA1_Final (sat_SHA1_Update (sat_SHA1_Update (sat_SHA1_Init stack2) ?i) text) = sha1_spec (?i @ text)"
    by (rule sha1.hash_two) (use s l K(1) in simp_all)
  moreover have "sat_SHA1_Final (sat_SHA1_Update (sat_SHA1_Update (sat_SHA1_Init stack1) ?o) (sha1_spec (?i @ text)))
      = sha1_spec (?o @ sha1_spec (?i @ text))"
    by (rule sha1.hash_two) (simp_all add: s K(1) length_sha1_spec)
  ultimately show ?thesis
    unfolding lhmac_sha1_def hmac_spec_def Let_def rkey o i by (simp add: K_def k_def)
qed

section \<open>Properties\<close>

text \<open>C16: \<open>lsha1\<close> computes the SHA-1 digest as the standard defines it (padding to whole blocks, the 80 word
  message schedule, the round functions), although it keeps only 16 words of the schedule and takes the
  text, the padding and the length in separate updates; whatever the buffers on the stack held before.\<close>

theorem sha1_is_standard:
  assumes "length stack = 64" "length text < 2 ^ 29"
  shows "lsha1 stack text = sha1_spec text"
  unfolding lsha1_def by (rule sha1.hash_one) (use assms in simp_all)

theorem sha1_is_standard_witness: "lsha1 (replicate 64 7) [97, 98, 99] = sha1_spec [97, 98, 99]"
  by (rule sha1_is_standard) simp_all

text \<open>C40: \<open>lhmac_sha1\<close> computes HMAC over SHA-1: a key longer than a block is hashed first, the masks of the
  inner and the outer hash are the ones of the standard.\<close>

theorem hmac_sha1_is_standard:
  assumes "length stack = 64" "length stack1 = 64" "length stack2 = 64" "length key < 2 ^ 29" "length text < 2 ^ 29"
  shows "lhmac_sha1 stack stack1 stack2 key text = hmac_spec key text"
  using assms by (rule hmac_correct)

theorem hmac_sha1_is_standard_witness:
  "lhmac_sha1 (replicate 64 1) (replicate 64 2) (replicate 64 3) (replicate 70 107) [116] = hmac_spec (replicate 70 107) [116]"
  by (rule hmac_sha1_is_standard) simp_all

text \<open>An update of \<open>2 ^ 29\<close> bytes makes the length counter too big: the carry test compares the 32 bit
  counter with a 64 bit number of bits and so adds a carry that did not happen.\<close>

theorem sha1_count_carry:
  assumes "length data = 2 ^ 29" "sha_count0 ctx = 0"
  shows "sha_count1 (sat_SHA1_Update ctx data) = sha_count1 ctx + 2"
proof -
  have "unat (push_bit 3 (2 ^ 29 :: u64)) = 2 ^ 32" "ucast (push_bit 3 (2 ^ 29 :: u64)) = (0 :: u32)"
    "drop_bit 29 (2 ^ 29 :: u64) = 1" by simp_all
  then show ?thesis
    by (simp add: sat_SHA1_Update_def assms Let_def split_beta word_less_nat_alt)
qed

theorem sha1_count_carry_witness:
  "sha_count1 (sat_SHA1_Update (sat_SHA1_Init []) (replicate (2 ^ 29) 0)) = 2"
  using sha1_count_carry [of "replicate (2 ^ 29) 0" "sat_SHA1_Init []"] by (simp add: sat_SHA1_Init_def)

end
