(* ===== verification/Cluster.thy ===== *)
theory Cluster
  imports Crypt NetPack
begin

text \<open>
  \<open>lualib-src/lua-cluster.c\<close>: the requests and responses that nodes of a cluster exchange. A long
  message is sent in parts of \<open>MULTI_PART\<close> bytes. A Lua string is its list of bytes, the message at
  a pointer with its size is the list of its bytes. \<open>None\<close> is a failed assertion or a write beyond a
  buffer; \<open>Inl\<close> the text of a Lua error.
\<close>

unbundle bit_operations_syntax

definition TEMP_LENGTH :: nat where "TEMP_LENGTH = 0x8200"
definition MULTI_PART :: nat where "MULTI_PART = 0x8000"

definition fill_uint32 :: "u32 \<Rightarrow> bytes" where
  "fill_uint32 n = [ucast (n AND 0xff), ucast (drop_bit 8 n AND 0xff), ucast (drop_bit 16 n AND 0xff), ucast (drop_bit 24 n AND 0xff)]"

definition fill_header :: "nat \<Rightarrow> bytes option" where
  "fill_header sz = (if sz < 0x10000 then Some [of_nat (sz div 256 mod 256), of_nat (sz mod 256)] else None)"

text \<open>What is written to a buffer of \<open>TEMP_LENGTH\<close> bytes: the header and the body of a package.\<close>

definition package :: "nat \<Rightarrow> bytes \<Rightarrow> bytes option" where
  "package sz body =
     (case fill_header sz of None \<Rightarrow> None
      | Some h \<Rightarrow> if length (h @ body) \<le> TEMP_LENGTH then Some (h @ body) else None)"

section \<open>Requests\<close>

text \<open>The address: a Lua integer, a string, or a value of another type.\<close>

datatype cluster_addr = Addr_id u64 | Addr_name bytes | Addr_other

text \<open>The package and the number of parts that follow it.\<close>

definition packreq_number :: "u64 \<Rightarrow> int \<Rightarrow> bytes \<Rightarrow> (bytes \<times> nat) option" where
  "packreq_number addr session msg =
     (let addr = ucast addr :: u32; sz = length msg
      in if sz < MULTI_PART then
           map_option (\<lambda>p. (p, 0))
             (package (sz + 9) ([0] @ fill_uint32 addr @ fill_uint32 (of_int session) @ msg))
         else
           map_option (\<lambda>p. (p, (sz - 1) div MULTI_PART + 1))
             (package 13 ([1] @ fill_uint32 addr @ fill_uint32 (of_int session) @ fill_uint32 (of_nat sz))))"

definition packreq_string :: "bytes option \<Rightarrow> int \<Rightarrow> bytes \<Rightarrow> (string + bytes \<times> nat) option" where
  "packreq_string name session msg =
     (case name of
        None \<Rightarrow> Some (Inl ''name is too long (null)'')
      | Some name \<Rightarrow>
          (let namelen = length name; sz = length msg
           in if namelen < 1 \<or> namelen > 255 then Some (Inl (''name is too long '' @ map (\<lambda>b. char_of (unat b)) name))
              else if sz < MULTI_PART then
                map_option (\<lambda>p. Inr (p, 0))
                  (package (sz + 6 + namelen)
                    ([0x80, of_nat namelen] @ name @ fill_uint32 (of_int session) @ msg))
              else
                map_option (\<lambda>p. Inr (p, (sz - 1) div MULTI_PART + 1))
                  (package (10 + namelen)
                    ([0x81, of_nat namelen] @ name @ fill_uint32 (of_int session) @ fill_uint32 (of_nat sz)))))"

text \<open>The loop of \<open>packreq_multi\<close> for \<open>n\<close> more parts; \<open>msg\<close> are the bytes from \<open>ptr\<close> on.\<close>

primrec multi_loop :: "nat \<Rightarrow> int \<Rightarrow> bytes \<Rightarrow> bytes list option" where
  "multi_loop 0 session msg = Some []"
| "multi_loop (Suc n) session msg =
     (let sz = length msg;
          (s, tag) = (if sz > MULTI_PART then (MULTI_PART, 2) else (sz, 3))
      in case package (s + 5) ([tag] @ fill_uint32 (of_int session) @ take s msg) of
           None \<Rightarrow> None
         | Some p \<Rightarrow> map_option ((#) p) (multi_loop n session (drop s msg)))"

definition packreq_multi :: "int \<Rightarrow> bytes \<Rightarrow> bytes list option" where
  "packreq_multi session msg = multi_loop ((length msg - 1) div MULTI_PART + 1) session msg"

text \<open>
  \<open>packrequest\<close>: whether the message is freed, and the error or the results: the request, the next
  session and the parts. The session is the second argument as an \<open>int\<close>; the increment wraps.
\<close>

definition lpackrequest ::
  "cluster_addr \<Rightarrow> int \<Rightarrow> bytes option \<Rightarrow> (bool \<times> (string + bytes \<times> int \<times> bytes list option)) option" where
  "lpackrequest addr session msg =
     (case msg of None \<Rightarrow> Some (False, Inl ''Invalid request message'')
      | Some msg \<Rightarrow>
          (let session = to_int32 session
           in if session \<le> 0 then Some (True, Inl (''Invalid request session '' @ fmt_d session))
              else case (case addr of
                  Addr_id a \<Rightarrow> map_option Inr (packreq_number a session msg)
                | Addr_name s \<Rightarrow> packreq_string (Some s) session msg
                | Addr_other \<Rightarrow> packreq_string None session msg) of
                None \<Rightarrow> None
              | Some (Inl e) \<Rightarrow> Some (True, Inl e)
              | Some (Inr (p, multipak)) \<Rightarrow>
                  (let current_session = session;
                       session = to_int32 (session + 1);
                       session = (if session < 0 then 1 else session)
                   in if multipak \<noteq> 0 then
                        map_option (\<lambda>ps. (True, Inr (p, session, Some ps))) (packreq_multi current_session msg)
                      else Some (True, Inr (p, session, None)))))"

text \<open>The results of \<open>unpackrequest\<close>: a request, the head of one in parts, or a part of it.\<close>

datatype cluster_request =
  Request cluster_addr u32 bytes
| Multi_request cluster_addr u32 u32
| Request_part u32 bytes bool

definition unpack_uint32 :: "bytes \<Rightarrow> nat \<Rightarrow> u32" where
  "unpack_uint32 buf i =
     ucast (buf ! i) OR push_bit 8 (ucast (buf ! (i + 1))) OR push_bit 16 (ucast (buf ! (i + 2)))
       OR push_bit 24 (ucast (buf ! (i + 3)))"

definition invalid_size :: "nat \<Rightarrow> string" where
  "invalid_size sz = ''Invalid cluster message (size='' @ fmt_d (int sz) @ '')''"

definition unpackreq_number :: "bytes \<Rightarrow> string + cluster_request" where
  "unpackreq_number buf =
     (if length buf < 9 then Inl (invalid_size (length buf))
      else Inr (Request (Addr_id (ucast (unpack_uint32 buf 1))) (unpack_uint32 buf 5) (drop 9 buf)))"

definition unpackmreq_number :: "bytes \<Rightarrow> string + cluster_request" where
  "unpackmreq_number buf =
     (if length buf \<noteq> 13
      then Inl (''Invalid cluster message size '' @ fmt_d (int (length buf)) @ '' (multi req must be 13)'')
      else Inr (Multi_request (Addr_id (ucast (unpack_uint32 buf 1))) (unpack_uint32 buf 5) (unpack_uint32 buf 9)))"

definition unpackmreq_part :: "bytes \<Rightarrow> string + cluster_request" where
  "unpackmreq_part buf =
     (if length buf < 5 then Inl ''Invalid cluster multi part message''
      else Inr (Request_part (unpack_uint32 buf 1) (drop 5 buf) (buf ! 0 = 2)))"

definition unpackreq_string :: "bytes \<Rightarrow> string + cluster_request" where
  "unpackreq_string buf =
     (let sz = length buf
      in if sz < 2 then Inl (invalid_size sz)
         else let namesz = unat (buf ! 1)
              in if sz < namesz + 6 then Inl (invalid_size sz)
                 else Inr (Request (Addr_name (take namesz (drop 2 buf))) (unpack_uint32 buf (namesz + 2))
                   (drop (2 + namesz + 4) buf)))"

definition unpackmreq_string :: "bytes \<Rightarrow> string + cluster_request" where
  "unpackmreq_string buf =
     (let sz = length buf
      in if sz < 2 then Inl (invalid_size sz)
         else let namesz = unat (buf ! 1)
              in if sz < namesz + 10 then Inl (invalid_size sz)
                 else Inr (Multi_request (Addr_name (take namesz (drop 2 buf))) (unpack_uint32 buf (namesz + 2))
                   (unpack_uint32 buf (namesz + 6))))"

text \<open>The first character of an empty Lua string is the zero that ends it.\<close>

definition lunpackrequest :: "bytes \<Rightarrow> string + cluster_request" where
  "lunpackrequest msg =
     (let t = (if msg = [] then 0 else msg ! 0)
      in if t = 0 then unpackreq_number msg
         else if t = 1 then unpackmreq_number msg
         else if t = 2 \<or> t = 3 then unpackmreq_part msg
         else if t = 0x80 then unpackreq_string msg
         else if t = 0x81 then unpackmreq_string msg
         else Inl (''Invalid req package type '' @ fmt_d (sint t)))"

section \<open>Responses\<close>

text \<open>The loop over the parts of a long response.\<close>

primrec response_loop :: "nat \<Rightarrow> u32 \<Rightarrow> bytes \<Rightarrow> bytes list option" where
  "response_loop 0 session msg = Some []"
| "response_loop (Suc n) session msg =
     (let sz = length msg;
          (s, tag) = (if sz > MULTI_PART then (MULTI_PART, 3) else (sz, 4))
      in case package (s + 5) (fill_uint32 session @ [tag] @ take s msg) of
           None \<Rightarrow> None
         | Some p \<Rightarrow> map_option ((#) p) (response_loop n session (drop s msg)))"

text \<open>\<open>packresponse\<close>: one string, or a table of strings.\<close>

datatype packed_response = One bytes | Many "bytes list"

definition lpackresponse :: "u64 \<Rightarrow> bool \<Rightarrow> bytes \<Rightarrow> packed_response option" where
  "lpackresponse session ok msg =
     (let session = ucast session :: u32; sz = length msg
      in if ok \<and> sz > MULTI_PART then
           (let part = (sz - 1) div MULTI_PART + 1
            in case package 9 (fill_uint32 session @ [2] @ fill_uint32 (of_nat sz)) of
                 None \<Rightarrow> None
               | Some p \<Rightarrow> map_option (\<lambda>ps. Many (p # ps)) (response_loop part session msg))
         else
           (let msg = (if \<not> ok \<and> sz > MULTI_PART then take MULTI_PART msg else msg)
            in map_option One (package (length msg + 5) (fill_uint32 session @ [if ok then 1 else 0] @ msg))))"

text \<open>
  The results of \<open>unpackresponse\<close>: the session, whether the call succeeded, the text or the size,
  and whether more follows. It returns nothing for a malformed response, and only the session is
  left on the stack for the other ones.
\<close>

datatype response_content = Content bytes | Total u32

definition lunpackresponse :: "bytes \<Rightarrow> (u32 \<times> bool \<times> response_content \<times> bool) option" where
  "lunpackresponse buf =
     (let sz = length buf
      in if sz < 5 then None
         else let session = unpack_uint32 buf 0; t = buf ! 4
              in if t = 0 then Some (session, False, Content (drop 5 buf), False)
                 else if t = 1 \<or> t = 4 then Some (session, True, Content (drop 5 buf), False)
                 else if t = 2 then
                   (if sz \<noteq> 9 then None else Some (session, True, Total (unpack_uint32 buf 5), True))
                 else if t = 3 then Some (session, True, Content (drop 5 buf), True)
                 else None)"

text \<open>
  The loop of \<open>concat\<close> over the strings of the table; the comparison is between unsigned numbers.
  The buffer has \<open>sz\<close> bytes.
\<close>

fun concat_loop :: "nat \<Rightarrow> bytes \<Rightarrow> bytes list \<Rightarrow> bytes option" where
  "concat_loop sz buff [] = (if length buff \<noteq> sz then None else Some buff)"
| "concat_loop sz buff (str # strs) =
     (if length str + length buff > sz then None else concat_loop sz (buff @ str) strs)"

definition lconcat :: "nat \<Rightarrow> bytes list \<Rightarrow> bytes option" where
  "lconcat sz strs = concat_loop sz [] strs"

end
