(* ===== verification/ClusterProps.thy ===== *)
theory ClusterProps
  imports Cluster
begin

text \<open>
  Requests and responses of the cluster from end to end: what \<open>packrequest\<close> and \<open>packresponse\<close> make of a
  message, sent as packages over a socket, split again by \<open>lua-netpack\<close> and decoded, is the message.
\<close>

unbundle bit_operations_syntax

section \<open>What the receiver makes of the decoded packages\<close>

text \<open>The contents of the parts of a request: the last one, and only this one, has no padding.\<close>

fun request_parts :: "u32 \<Rightarrow> cluster_request list \<Rightarrow> bytes list option" where
  "request_parts s [Request_part s' c False] = (if s' = s then Some [c] else None)"
| "request_parts s (Request_part s' c True # us) = (if s' = s then map_option ((#) c) (request_parts s us) else None)"
| "request_parts s _ = None"

fun request_of :: "cluster_request list \<Rightarrow> (cluster_addr \<times> u32 \<times> bytes) option" where
  "request_of [Request a s m] = Some (a, s, m)"
| "request_of (Multi_request a s n # us) =
     Option.bind (request_parts s us) (\<lambda>cs. map_option (\<lambda>m. (a, s, m)) (lconcat (unat n) cs))"
| "request_of _ = None"

fun response_parts :: "u32 \<Rightarrow> (u32 \<times> bool \<times> response_content \<times> bool) list \<Rightarrow> bytes list option" where
  "response_parts s [(s', True, Content c, False)] = (if s' = s then Some [c] else None)"
| "response_parts s ((s', True, Content c, True) # us) = (if s' = s then map_option ((#) c) (response_parts s us) else None)"
| "response_parts s _ = None"

fun response_of :: "(u32 \<times> bool \<times> response_content \<times> bool) list \<Rightarrow> (u32 \<times> bool \<times> bytes) option" where
  "response_of [(s, ok, Content c, False)] = Some (s, ok, c)"
| "response_of ((s, True, Total n, True) # us) =
     Option.bind (response_parts s us) (\<lambda>cs. map_option (\<lambda>m. (s, True, m)) (lconcat (unat n) cs))"
| "response_of _ = None"

section \<open>Fields\<close>

lemma length_fill [simp]: "length (fill_uint32 n) = 4"
  by (simp add: fill_uint32_def)

lemma fill_masks: "fill_uint32 n = le32_bytes n"
proof -
  have m: "w AND 0xff = take_bit 8 w" for w :: u32 by (simp only: take_bit_eq_mask) (simp add: mask_numeral)
  have "ucast (take_bit 8 w) = (ucast w :: u8)" for w :: u32
    by (rule bit_word_eqI) (auto simp: bit_simps)
  then show ?thesis by (simp only: fill_uint32_def le32_bytes_def m)
qed

lemma le32_le32_bytes: "le32 (le32_bytes n) 0 = n"
proof (rule bit_word_eqI)
  fix i assume "i < LENGTH(32)"
  then consider "i < 8" | "8 \<le> i" "i < 16" | "16 \<le> i" "i < 24" | "24 \<le> i" "i < 32" by fastforce
  then show "bit (le32 (le32_bytes n) 0) i = bit n i"
    by cases (auto simp: le32_def le32_bytes_def bit_simps)
qed

lemma unpack_fill: "unpack_uint32 (xs @ fill_uint32 n @ ys) (length xs) = n"
proof -
  have "unpack_uint32 (xs @ fill_uint32 n @ ys) (length xs) = le32 (le32_bytes n) 0"
    by (simp add: fill_masks unpack_uint32_def le32_def le32_bytes_def nth_append)
  then show ?thesis by (simp only: le32_le32_bytes)
qed

lemma unpack_fill_at: "length xs = k \<Longrightarrow> unpack_uint32 (xs @ fill_uint32 n @ ys) k = n"
  using unpack_fill by blast

lemma package_lpack: "length body = sz \<Longrightarrow> sz + 2 \<le> TEMP_LENGTH \<Longrightarrow> \<exists>p. package sz body = Some p \<and> lpack body = Some p"
  by (simp add: package_def fill_header_def lpack_def write_size_def TEMP_LENGTH_def)

section \<open>Parts\<close>

lemma part_count:
  fixes l M :: nat
  assumes "M < l" "0 < M"
  shows "(l - 1) div M = Suc ((l - M - 1) div M)"
proof -
  have "l - 1 = (l - M - 1) + M" using assms by simp
  then show ?thesis using assms by (metis add_diff_cancel_right' div_add_self2 less_numeral_extra(3) Suc_eq_plus1)
qed

lemma part_count_1: "l \<le> M \<Longrightarrow> 0 < M \<Longrightarrow> (l - 1) div M = (0 :: nat)"
  by simp

lemma MULTI_pos: "0 < MULTI_PART"
  by (simp add: MULTI_PART_def)

text \<open>
  What both loops over the parts of a message do: \<open>body True c\<close> is the package of a part that others
  follow, \<open>body False c\<close> of the last one, and \<open>dec\<close> decodes them to \<open>item\<close>s.
\<close>

locale part_codec =
  fixes body :: "bool \<Rightarrow> bytes \<Rightarrow> bytes" and dec :: "bytes \<Rightarrow> 'u option" and item :: "bool \<Rightarrow> bytes \<Rightarrow> 'u"
    and loop :: "nat \<Rightarrow> bytes \<Rightarrow> bytes list option"
  assumes length_body: "length (body mo c) = length c + 5"
    and dec_body: "dec (body mo c) = Some (item mo c)"
    and loop_0: "loop 0 msg = Some []"
    and loop_more: "MULTI_PART < length msg \<Longrightarrow> loop (Suc n) msg =
      (case package (MULTI_PART + 5) (body True (take MULTI_PART msg)) of None \<Rightarrow> None
       | Some p \<Rightarrow> map_option ((#) p) (loop n (drop MULTI_PART msg)))"
    and loop_last: "length msg \<le> MULTI_PART \<Longrightarrow> loop (Suc n) msg =
      (case package (length msg + 5) (body False msg) of None \<Rightarrow> None | Some p \<Rightarrow> map_option ((#) p) (loop n []))"
begin

fun items :: "bytes list \<Rightarrow> 'u list" where
  "items [] = []"
| "items [c] = [item False c]"
| "items (c # cs) = item True c # items cs"

lemma package_body:
  assumes "length c \<le> MULTI_PART"
  shows "\<exists>p. package (length c + 5) (body mo c) = Some p \<and> lpack (body mo c) = Some p"
  using assms by (intro package_lpack) (simp_all add: length_body MULTI_PART_def TEMP_LENGTH_def)

lemma parts_delivered:
  "n = (length msg - 1) div MULTI_PART \<Longrightarrow> msg \<noteq> [] \<Longrightarrow>
     \<exists>ps bodies cs. loop (Suc n) msg = Some ps \<and> map lpack bodies = map Some ps \<and>
       map dec bodies = map Some (items cs) \<and> concat cs = msg \<and> cs \<noteq> []"
proof (induction n arbitrary: msg)
  case 0
  then have l: "length msg \<le> MULTI_PART" using part_count [of MULTI_PART "length msg"] MULTI_pos by fastforce
  then obtain p where p: "package (length msg + 5) (body False msg) = Some p" "lpack (body False msg) = Some p"
    using package_body by blast
  show ?case
    by (intro exI [of _ "[p]"] exI [of _ "[body False msg]"] exI [of _ "[msg]"]) (simp add: loop_last [OF l] p loop_0 dec_body)
next
  case (Suc n)
  then have l: "MULTI_PART < length msg" using part_count_1 [of "length msg" MULTI_PART] MULTI_pos by (metis leI nat.distinct(1))
  let ?m = "take MULTI_PART msg" and ?r = "drop MULTI_PART msg"
  have "n = (length ?r - 1) div MULTI_PART" "?r \<noteq> []"
    using Suc.prems(1) part_count [OF l MULTI_pos] l by simp_all
  then obtain ps bodies cs where ih: "loop (Suc n) ?r = Some ps" "map lpack bodies = map Some ps"
    "map dec bodies = map Some (items cs)" "concat cs = ?r" "cs \<noteq> []"
    using Suc.IH by blast
  have "length ?m = MULTI_PART" using l by simp
  then obtain p where p: "package (MULTI_PART + 5) (body True ?m) = Some p" "lpack (body True ?m) = Some p"
    using package_body [of ?m True] by auto
  have "items (?m # cs) = item True ?m # items cs" using ih(5) by (cases cs) simp_all
  then show ?case using p ih
    by (intro exI [of _ "p # ps"] exI [of _ "body True ?m # bodies"] exI [of _ "?m # cs"])
      (simp add: loop_more [OF l] dec_body)
qed

end

definition right :: "'a + 'b \<Rightarrow> 'b option" where
  "right r = (case r of Inl e \<Rightarrow> None | Inr x \<Rightarrow> Some x)"

lemma unpack_field_1: "unpack_uint32 (t # fill_uint32 n @ ys) 1 = n"
  using unpack_fill_at [of "[t]" 1 n ys] by simp

lemma unpack_field_0: "unpack_uint32 (fill_uint32 n @ ys) 0 = n"
  using unpack_fill_at [of "[]" 0 n ys] by simp

interpretation req: part_codec "\<lambda>mo c. [if mo then 2 else 3] @ fill_uint32 (of_int session) @ c"
  "\<lambda>b. right (lunpackrequest b)" "\<lambda>mo c. Request_part (of_int session) c mo" "\<lambda>n msg. multi_loop n session msg" for session
  by unfold_locales (simp_all add: right_def lunpackrequest_def unpackmreq_part_def Let_def unpack_field_1 [simplified] cong: option.case_cong)

interpretation resp: part_codec "\<lambda>mo c. fill_uint32 s @ [if mo then 3 else 4] @ c"
  "\<lambda>b. lunpackresponse b" "\<lambda>mo c. (s, True, Content c, mo)" "\<lambda>n msg. response_loop n s msg" for s
  by unfold_locales (simp_all add: lunpackresponse_def Let_def unpack_field_0 nth_append cong: option.case_cong)

lemma request_parts_items: "cs \<noteq> [] \<Longrightarrow> request_parts (of_int session) (req.items session cs) = Some cs"
  by (induction cs rule: req.items.induct) simp_all

lemma response_parts_items: "cs \<noteq> [] \<Longrightarrow> response_parts s (resp.items s cs) = Some cs"
  by (induction cs rule: resp.items.induct) simp_all

lemma concat_loop_ok: "length buff + length (concat cs) = sz \<Longrightarrow> concat_loop sz buff cs = Some (buff @ concat cs)"
  by (induction sz buff cs rule: concat_loop.induct) simp_all

lemma lconcat_ok: "lconcat (length (concat cs)) cs = Some (concat cs)"
  by (simp add: lconcat_def concat_loop_ok)

section \<open>Whole requests and responses\<close>

lemma map_right: "map (\<lambda>b. right (f b)) bs = map Some us \<longleftrightarrow> map f bs = map Inr us"
  by (auto simp: list_eq_iff_nth_eq right_def split: sum.splits) (metis Inr_inject old.sum.exhaust option.distinct(1) option.inject sum.case(1,2))+

lemma multi_ok:
  assumes "msg \<noteq> []"
  shows "\<exists>ps bodies us cs. packreq_multi session msg = Some ps \<and> map lpack bodies = map Some ps \<and>
    map lunpackrequest bodies = map Inr us \<and> request_parts (of_int session) us = Some cs \<and> concat cs = msg"
proof -
  obtain ps bodies cs where "multi_loop (Suc ((length msg - 1) div MULTI_PART)) session msg = Some ps"
    "map lpack bodies = map Some ps" "map (\<lambda>b. right (lunpackrequest b)) bodies = map Some (req.items session cs)"
    "concat cs = msg" "cs \<noteq> []"
    using req.parts_delivered [OF refl assms] by blast
  then show ?thesis
    using request_parts_items [of cs session] by (auto simp: packreq_multi_def map_right)
qed

text \<open>The address and the session of a request that \<open>packrequest\<close> accepts.\<close>

definition addr_ok :: "cluster_addr \<Rightarrow> bool" where
  "addr_ok addr = (case addr of Addr_id a \<Rightarrow> ucast (ucast a :: u32) = a | Addr_name n \<Rightarrow> 1 \<le> length n \<and> length n \<le> 255 | Addr_other \<Rightarrow> False)"

lemma byte_len: "n \<le> 255 \<Longrightarrow> unat (of_nat n :: u8) = n"
  by (simp add: unat_byte)

lemma unpack_named:
  assumes "length n \<le> 255"
  shows "unpack_uint32 (t # of_nat (length n) # n @ fill_uint32 x @ ys) (length n + 2) = x"
    "unpack_uint32 (t # of_nat (length n) # n @ fill_uint32 x @ fill_uint32 y) (length n + 6) = y"
  using unpack_fill_at [of "t # of_nat (length n) # n" "length n + 2" x ys]
    unpack_fill_at [of "t # of_nat (length n) # n @ fill_uint32 x" "length n + 6" y "[]"] by simp_all

lemma drop_named: "drop (6 + length n) (t # l # n @ fill_uint32 x @ msg) = msg"
proof -
  have "drop (4 + length n) (n @ fill_uint32 x @ msg) = msg" by simp
  moreover have "6 + length n = Suc (Suc (4 + length n))" by simp
  ultimately show ?thesis by (simp only: drop_Suc_Cons)
qed

lemma unpack_numbered:
  "unpack_uint32 (t # fill_uint32 x @ fill_uint32 y @ ys) 5 = y"
  "unpack_uint32 (t # fill_uint32 x @ fill_uint32 y @ fill_uint32 z) 9 = z"
  using unpack_fill_at [of "t # fill_uint32 x" 5 y ys] unpack_fill_at [of "t # fill_uint32 x @ fill_uint32 y" 9 z "[]"] by simp_all

text \<open>The first package of a request.\<close>

definition request_head :: "cluster_addr \<Rightarrow> u32 \<Rightarrow> bytes \<Rightarrow> cluster_request" where
  "request_head addr s msg =
     (if length msg < MULTI_PART then Request addr s msg else Multi_request addr s (of_nat (length msg)))"

lemma first_package:
  assumes "addr_ok addr"
  shows "\<exists>p body. (case addr of Addr_id a \<Rightarrow> map_option Inr (packreq_number a session msg)
                | Addr_name s \<Rightarrow> packreq_string (Some s) session msg
                | Addr_other \<Rightarrow> packreq_string None session msg)
      = Some (Inr (p, if length msg < MULTI_PART then 0 else (length msg - 1) div MULTI_PART + 1)) \<and>
    lpack body = Some p \<and> lunpackrequest body = Inr (request_head addr (of_int session) msg)"
proof (cases addr)
  case (Addr_id a)
  let ?b = "if length msg < MULTI_PART then [0] @ fill_uint32 (ucast a) @ fill_uint32 (of_int session) @ msg
    else [1] @ fill_uint32 (ucast a) @ fill_uint32 (of_int session) @ fill_uint32 (of_nat (length msg))"
  have "lunpackrequest ?b = Inr (request_head addr (of_int session) msg)"
    using assms by (simp add: Addr_id addr_ok_def lunpackrequest_def Let_def unpackreq_number_def unpackmreq_number_def
        unpack_field_1 [simplified] unpack_numbered [simplified] request_head_def)
  moreover have "\<exists>p. package (if length msg < MULTI_PART then length msg + 9 else 13) ?b = Some p \<and> lpack ?b = Some p"
    by (cases "length msg < MULTI_PART") (intro package_lpack, simp_all add: MULTI_PART_def TEMP_LENGTH_def)+
  then obtain p where "package (if length msg < MULTI_PART then length msg + 9 else 13) ?b = Some p" "lpack ?b = Some p" by blast
  ultimately show ?thesis
    by (intro exI [of _ p] exI [of _ ?b]) (auto simp: Addr_id packreq_number_def Let_def split: if_splits)
next
  case (Addr_name n)
  then have n: "1 \<le> length n" "length n \<le> 255" using assms by (simp_all add: addr_ok_def)
  let ?b = "if length msg < MULTI_PART then [0x80, of_nat (length n)] @ n @ fill_uint32 (of_int session) @ msg
    else [0x81, of_nat (length n)] @ n @ fill_uint32 (of_int session) @ fill_uint32 (of_nat (length msg))"
  have "lunpackrequest ?b = Inr (request_head addr (of_int session) msg)"
    by (simp add: Addr_name lunpackrequest_def Let_def unpackreq_string_def unpackmreq_string_def byte_len [OF n(2)]
        unpack_named [OF n(2), simplified] drop_named request_head_def)
  moreover have "\<exists>p. package (if length msg < MULTI_PART then length msg + 6 + length n else 10 + length n) ?b = Some p \<and> lpack ?b = Some p"
    using n by (cases "length msg < MULTI_PART") (intro package_lpack, simp_all add: MULTI_PART_def TEMP_LENGTH_def)+
  then obtain p where "package (if length msg < MULTI_PART then length msg + 6 + length n else 10 + length n) ?b = Some p"
    "lpack ?b = Some p" by blast
  ultimately show ?thesis using n
    by (intro exI [of _ p] exI [of _ ?b]) (auto simp: Addr_name packreq_string_def Let_def split: if_splits)
qed (use assms in \<open>simp add: addr_ok_def\<close>)

lemma request_frames:
  assumes "addr_ok addr" "0 < session" "session < 2 ^ 31" "length msg < 2 ^ 32"
  shows "\<exists>p parts bodies us. lpackrequest addr session (Some msg)
        = Some (True, Inr (p, if session = 2 ^ 31 - 1 then 1 else session + 1, parts)) \<and>
      map lpack bodies = map Some (p # (case parts of None \<Rightarrow> [] | Some ps \<Rightarrow> ps)) \<and>
      map lunpackrequest bodies = map Inr us \<and> request_of us = Some (addr, of_int session, msg)"
proof -
  let ?n = "if length msg < MULTI_PART then 0 else (length msg - 1) div MULTI_PART + 1"
  obtain p body where f: "(case addr of Addr_id a \<Rightarrow> map_option Inr (packreq_number a session msg)
                | Addr_name s \<Rightarrow> packreq_string (Some s) session msg
                | Addr_other \<Rightarrow> packreq_string None session msg) = Some (Inr (p, ?n))"
    and b: "lpack body = Some p" "lunpackrequest body = Inr (request_head addr (of_int session) msg)"
    using first_package [OF assms(1)] by metis
  have s: "to_int32 session = session" using assms(2,3) by (intro to_int32_small) simp_all
  have nx: "(let s' = to_int32 (session + 1) in if s' < 0 then 1 else s') = (if session = 2 ^ 31 - 1 then 1 else session + 1)"
  proof (cases "session = 2 ^ 31 - 1")
    case True
    have "to_int32 (2 ^ 31) < 0" by (simp add: to_int32_def)
    then show ?thesis using True by simp
  next
    case False
    then have "to_int32 (session + 1) = session + 1" using assms(2,3) by (intro to_int32_small) simp_all
    then show ?thesis using False assms(2) by simp
  qed
  show ?thesis
  proof (cases "length msg < MULTI_PART")
    case True
    then have "lpackrequest addr session (Some msg)
        = Some (True, Inr (p, if session = 2 ^ 31 - 1 then 1 else session + 1, None))"
      using f nx assms(2) by (simp add: lpackrequest_def s Let_def)
    then show ?thesis using b True
      by (intro exI [of _ p] exI [of _ None] exI [of _ "[body]"] exI [of _ "[request_head addr (of_int session) msg]"])
        (simp add: request_head_def)
  next
    case False
    then have "msg \<noteq> []" using MULTI_pos by auto
    then obtain ps bodies us cs where m: "packreq_multi session msg = Some ps" "map lpack bodies = map Some ps"
      "map lunpackrequest bodies = map Inr us" "request_parts (of_int session) us = Some cs" "concat cs = msg"
      using multi_ok by blast
    have "lpackrequest addr session (Some msg)
        = Some (True, Inr (p, if session = 2 ^ 31 - 1 then 1 else session + 1, Some ps))"
      using f nx assms(2) False m(1) by (simp add: lpackrequest_def s Let_def)
    moreover have "lconcat (length msg) cs = Some msg" using lconcat_ok [of cs] m(5) by simp
    then have "request_of (request_head addr (of_int session) msg # us) = Some (addr, of_int session, msg)"
      using m(4) False assms(4) by (simp add: request_head_def unat_of_nat_small)
    ultimately show ?thesis using b m(2,3)
      by (intro exI [of _ p] exI [of _ "Some ps"] exI [of _ "body # bodies"] exI [of _ "request_head addr (of_int session) msg # us"])
        simp
  qed
qed

lemma response_frames:
  assumes "length msg < 2 ^ 31" "\<not> ok \<longrightarrow> length msg \<le> MULTI_PART"
  shows "\<exists>r bodies us. lpackresponse session ok msg = Some r \<and>
      map lpack bodies = map Some (case r of One p \<Rightarrow> [p] | Many ps \<Rightarrow> ps) \<and>
      map lunpackresponse bodies = map Some us \<and> response_of us = Some (ucast session, ok, msg)"
proof (cases "ok \<and> MULTI_PART < length msg")
  case True
  then have "msg \<noteq> []" by auto
  let ?s = "ucast session :: u32"
  obtain ps bodies cs where m: "response_loop (Suc ((length msg - 1) div MULTI_PART)) ?s msg = Some ps"
    "map lpack bodies = map Some ps" "map lunpackresponse bodies = map Some (resp.items ?s cs)" "concat cs = msg" "cs \<noteq> []"
    using resp.parts_delivered [OF refl \<open>msg \<noteq> []\<close>] by blast
  let ?b = "fill_uint32 ?s @ [2] @ fill_uint32 (of_nat (length msg))"
  obtain p where p: "package 9 ?b = Some p" "lpack ?b = Some p"
    using package_lpack [of ?b 9] by (auto simp: TEMP_LENGTH_def)
  have "lunpackresponse ?b = Some (?s, True, Total (of_nat (length msg)), True)"
    using unpack_fill_at [of "fill_uint32 ?s @ [2]" 5 "of_nat (length msg)" "[]"]
    by (simp add: lunpackresponse_def Let_def unpack_field_0 nth_append)
  moreover have "lconcat (length msg) cs = Some msg" using lconcat_ok [of cs] m(4) by simp
  then have "response_of ((?s, True, Total (of_nat (length msg)), True) # resp.items ?s cs) = Some (?s, ok, msg)"
    using response_parts_items [OF m(5)] True assms(1) by (simp add: unat_of_nat_small)
  moreover have "lpackresponse session ok msg = Some (Many (p # ps))"
    using True p m(1) by (simp add: lpackresponse_def Let_def)
  ultimately show ?thesis using p m(2,3)
    by (intro exI [of _ "Many (p # ps)"] exI [of _ "?b # bodies"]
        exI [of _ "(?s, True, Total (of_nat (length msg)), True) # resp.items ?s cs"]) simp
next
  case False
  then have l: "length msg \<le> MULTI_PART" using assms(2) by auto
  let ?b = "fill_uint32 (ucast session) @ [if ok then 1 else 0] @ msg"
  obtain p where p: "package (length msg + 5) ?b = Some p" "lpack ?b = Some p"
    using package_lpack [of ?b "length msg + 5"] l by (auto simp: MULTI_PART_def TEMP_LENGTH_def)
  have "lunpackresponse ?b = Some (ucast session, ok, Content msg, False)"
    by (simp add: lunpackresponse_def Let_def unpack_field_0 nth_append)
  moreover have "lpackresponse session ok msg = Some (One p)" using p l by (simp add: lpackresponse_def Let_def)
  ultimately show ?thesis using p
    by (intro exI [of _ "One p"] exI [of _ "[?b]"] exI [of _ "[(ucast session, ok, Content msg, False)]"]) simp
qed

section \<open>Over a socket\<close>

lemma delivered:
  assumes "map lpack bodies = map Some fs" "all_data evs" "\<forall>e \<in> set evs. sm_buffer (fst e) \<noteq> []" "data_of fd evs = concat fs"
  shows "\<exists>outs q. np_run None evs = Some (outs, q) \<and> map snd (filter (\<lambda>x. fst x = fd) outs) = bodies"
  using netpack_delivers [OF assms(2,3)] assms(1,4) by blast



text \<open>C14: a response of any size below \<open>2 ^ 31\<close> reaches the other node in the same way: the packages of
  \<open>packresponse\<close> decode with \<open>unpackresponse\<close> to the session, the success of the call and the message.
  (The text of an error is cut after \<open>MULTI_PART\<close> bytes.)\<close>

theorem cluster_response_delivery:
  assumes "length msg < 2 ^ 31" "ok \<or> length msg \<le> MULTI_PART"
  shows "\<exists>r. lpackresponse session ok msg = Some r \<and>
      (\<forall>fd evs. all_data evs \<longrightarrow> (\<forall>e \<in> set evs. sm_buffer (fst e) \<noteq> []) \<longrightarrow>
        data_of fd evs = concat (case r of One p \<Rightarrow> [p] | Many ps \<Rightarrow> ps) \<longrightarrow>
        (\<exists>outs q us. np_run None evs = Some (outs, q) \<and>
           map (\<lambda>x. lunpackresponse (snd x)) (filter (\<lambda>x. fst x = fd) outs) = map Some us \<and>
           response_of us = Some (ucast session, ok, msg)))"
proof -
  obtain r bodies us where r: "lpackresponse session ok msg = Some r"
    "map lpack bodies = map Some (case r of One p \<Rightarrow> [p] | Many ps \<Rightarrow> ps)"
    "map lunpackresponse bodies = map Some us" "response_of us = Some (ucast session, ok, msg)"
    using response_frames [OF assms(1)] assms(2) by metis
  have "\<exists>outs q us. np_run None evs = Some (outs, q) \<and>
      map (\<lambda>x. lunpackresponse (snd x)) (filter (\<lambda>x. fst x = fd) outs) = map Some us \<and> response_of us = Some (ucast session, ok, msg)"
    if e: "all_data evs" "\<forall>e \<in> set evs. sm_buffer (fst e) \<noteq> []"
      "data_of fd evs = concat (case r of One p \<Rightarrow> [p] | Many ps \<Rightarrow> ps)" for fd evs
  proof -
    obtain outs q where o: "np_run None evs = Some (outs, q)" "map snd (filter (\<lambda>x. fst x = fd) outs) = bodies"
      using delivered [OF r(2) e] by blast
    have "map (\<lambda>x. lunpackresponse (snd x)) (filter (\<lambda>x. fst x = fd) outs) = map lunpackresponse bodies"
      unfolding o(2) [symmetric] by (simp add: comp_def)
    then show ?thesis using o(1) r(3,4) by (intro exI [of _ outs] exI [of _ q] exI [of _ us]) simp
  qed
  then show ?thesis using r(1) by blast
qed

theorem cluster_response_delivery_witness:
  "\<exists>r. lpackresponse 7 False [110, 111] = Some r \<and>
      (\<exists>outs q us. np_run None [(\<lparr>sm_type = SOCKET_DATA, sm_id = 3, sm_ud = 1,
          sm_buffer = concat (case r of One p \<Rightarrow> [p] | Many ps \<Rightarrow> ps)\<rparr>, [])] = Some (outs, q) \<and>
        map (\<lambda>x. lunpackresponse (snd x)) (filter (\<lambda>x. fst x = 3) outs) = map Some us \<and>
        response_of us = Some (7, False, [110, 111]))"
proof -
  obtain r where r: "lpackresponse 7 False [110, 111] = Some r"
    and d: "\<forall>fd evs. all_data evs \<longrightarrow> (\<forall>e \<in> set evs. sm_buffer (fst e) \<noteq> []) \<longrightarrow>
        data_of fd evs = concat (case r of One p \<Rightarrow> [p] | Many ps \<Rightarrow> ps) \<longrightarrow>
        (\<exists>outs q us. np_run None evs = Some (outs, q) \<and>
           map (\<lambda>x. lunpackresponse (snd x)) (filter (\<lambda>x. fst x = fd) outs) = map Some us \<and>
           response_of us = Some (7, False, [110, 111]))"
    using cluster_response_delivery [of "[110, 111]" False 7] by (auto simp: MULTI_PART_def)
  have "concat (case r of One p \<Rightarrow> [p] | Many ps \<Rightarrow> ps) \<noteq> []"
    using r by (auto simp: lpackresponse_def Let_def package_def fill_header_def MULTI_PART_def split: if_splits)
  then have "all_data [(\<lparr>sm_type = SOCKET_DATA, sm_id = 3, sm_ud = 1, sm_buffer = concat (case r of One p \<Rightarrow> [p] | Many ps \<Rightarrow> ps)\<rparr>, [])]"
    "\<forall>e \<in> set [(\<lparr>sm_type = SOCKET_DATA, sm_id = 3, sm_ud = 1, sm_buffer = concat (case r of One p \<Rightarrow> [p] | Many ps \<Rightarrow> ps)\<rparr>, [] :: string)].
       sm_buffer (fst e) \<noteq> []"
    "data_of 3 [(\<lparr>sm_type = SOCKET_DATA, sm_id = 3, sm_ud = 1, sm_buffer = concat (case r of One p \<Rightarrow> [p] | Many ps \<Rightarrow> ps)\<rparr>, [])]
      = concat (case r of One p \<Rightarrow> [p] | Many ps \<Rightarrow> ps)"
    by (simp_all add: all_data_def data_of_def)
  then show ?thesis using r d by blast
qed

end
