(* ===== verification/SocketBuffers.thy ===== *)
theory SocketBuffers
  imports Skynet_H CText
begin

text \<open>
  The write buffers of \<open>skynet-src/socket_server.c\<close>: a socket has two lists of buffers, of high and of
  low priority; buffers are written to the file descriptor as far as the kernel takes them. The
  results of the system calls are a script (\<open>io_in\<close>), the calls that have an effect outside are
  recorded in order (\<open>io_out\<close>), and \<open>io_poll\<close> is the set of descriptors of the event poll with the
  slot and whether they wait for writing. \<open>Abort\<close> is a failed assertion, \<open>Starved\<close> a script that is
  too short or does not fit. A list is the buffers from its head on; its tail pointer is the last.
\<close>

section \<open>Results of a run\<close>

datatype 'a run = Done 'a | Abort | Starved

definition rbind :: "'a run \<Rightarrow> ('a \<Rightarrow> 'b run) \<Rightarrow> 'b run" where
  "rbind r f = (case r of Done x \<Rightarrow> f x | Abort \<Rightarrow> Abort | Starved \<Rightarrow> Starved)"

lemma rbind_simps [simp]: "rbind (Done x) f = f x" "rbind Abort f = Abort" "rbind Starved f = Starved"
  by (simp_all add: rbind_def)

lemma rbind_assoc: "rbind (rbind r f) g = rbind r (\<lambda>x. rbind (f x) g)"
  by (cases r) simp_all

text \<open>A run does not abort, and its result has a property when the script is long enough.\<close>

definition run_ok :: "('a \<Rightarrow> bool) \<Rightarrow> 'a run \<Rightarrow> bool" where
  "run_ok P r = (case r of Done x \<Rightarrow> P x | Abort \<Rightarrow> False | Starved \<Rightarrow> True)"

lemma run_ok_simps [simp]: "run_ok P (Done x) = P x" "\<not> run_ok P Abort" "run_ok P Starved"
  by (simp_all add: run_ok_def)

lemma run_ok_mono: "run_ok P r \<Longrightarrow> (\<And>x. P x \<Longrightarrow> Q x) \<Longrightarrow> run_ok Q r"
  by (cases r) simp_all

lemma run_ok_bind [simp]: "run_ok P (rbind r f) = run_ok (\<lambda>x. run_ok P (f x)) r"
  by (cases r) simp_all

section \<open>The world outside\<close>

datatype errno = EINTR | EAGAIN | EMFILE | ENFILE | EINPROGRESS | Other_error

text \<open>\<open>strerror\<close> is the text of an error.\<close>

definition strerror :: "errno \<Rightarrow> string" where
  "strerror e = (case e of EINTR \<Rightarrow> ''Interrupted system call'' | EAGAIN \<Rightarrow> ''Resource temporarily unavailable''
    | EMFILE \<Rightarrow> ''Too many open files'' | ENFILE \<Rightarrow> ''Too many open files in system''
    | EINPROGRESS \<Rightarrow> ''Operation now in progress'' | Other_error \<Rightarrow> ''error'')"

record event =
  e_s :: "nat option"
  e_read :: bool
  e_write :: bool

text \<open>
  An address: its family, its text (\<open>inet_ntop\<close>, which can fail) and the bytes of its port and of the
  address, as in \<open>sockaddr_in\<close> and \<open>sockaddr_in6\<close>.
\<close>

datatype family = AF_INET | AF_INET6 | AF_OTHER

record address =
  ad_family :: family
  ad_text :: "string option"
  ad_bytes :: bytes

text \<open>
  The results of system calls: of a call that returns a number, of one that fails, of
  \<open>getaddrinfo\<close>, of \<open>pipe\<close>, of \<open>accept\<close>, of \<open>read\<close>, of \<open>recvfrom\<close>, of \<open>getpeername\<close> and of \<open>epoll_wait\<close>
  (the descriptors with what they are ready for).
\<close>

datatype sysret =
  Ret nat
| Errno errno
| Resolved "address list"
| Unresolved string
| Pipe int int
| Accepted int address
| Received bytes
| Datagram bytes address
| Peer address
| Events "(int \<times> bool \<times> bool) list"

datatype sys_call =
  Write int bytes
| Sendto int bytes bytes
| Close int
| Free u64
| Free_object u64
| Lookup string int
| Setsockopt int int int
| Keepalive int
| Nonblocking int
| Log string

record netio =
  io_in :: "sysret list"
  io_out :: "sys_call list"
  io_poll :: "int \<Rightarrow> (nat option \<times> bool) option"

definition call :: "netio \<Rightarrow> sys_call \<Rightarrow> netio" where
  "call io c = io\<lparr>io_out := io_out io @ [c]\<rparr>"

text \<open>The next result of the script.\<close>

definition next_ret :: "netio \<Rightarrow> (sysret \<times> netio) run" where
  "next_ret io = (case io_in io of [] \<Rightarrow> Starved | r # rs \<Rightarrow> Done (r, io\<lparr>io_in := rs\<rparr>))"

lemma run_ok_next [simp]:
  "run_ok P (next_ret io) = (case io_in io of [] \<Rightarrow> True | r # rs \<Rightarrow> P (r, io\<lparr>io_in := rs\<rparr>))"
  by (simp add: next_ret_def split: list.split)

text \<open>\<open>socket_epoll.h\<close>: \<open>sp_add\<close> can fail, \<open>sp_write\<close> changes only a registered descriptor. A descriptor is
  registered with its slot, or with none (the pipe of the requests).\<close>

definition sp_add :: "netio \<Rightarrow> int \<Rightarrow> nat option \<Rightarrow> (errno option \<times> netio) run" where
  "sp_add io fd s =
     rbind (next_ret io) (\<lambda>(r, io). case r of
       Ret _ \<Rightarrow> Done (None, io\<lparr>io_poll := (io_poll io)(fd \<mapsto> (s, False))\<rparr>)
     | Errno e \<Rightarrow> Done (Some e, io)
     | _ \<Rightarrow> Starved)"

definition sp_del :: "netio \<Rightarrow> int \<Rightarrow> netio" where
  "sp_del io fd = io\<lparr>io_poll := (io_poll io)(fd := None)\<rparr>"

definition sp_write :: "netio \<Rightarrow> int \<Rightarrow> nat option \<Rightarrow> bool \<Rightarrow> netio" where
  "sp_write io fd s enable =
     (if io_poll io fd = None then io else io\<lparr>io_poll := (io_poll io)(fd \<mapsto> (s, enable))\<rparr>)"

section \<open>Sockets\<close>

definition SOCKET_TYPE_INVALID :: nat where "SOCKET_TYPE_INVALID = 0"
definition SOCKET_TYPE_RESERVE :: nat where "SOCKET_TYPE_RESERVE = 1"
definition SOCKET_TYPE_PLISTEN :: nat where "SOCKET_TYPE_PLISTEN = 2"
definition SOCKET_TYPE_LISTEN :: nat where "SOCKET_TYPE_LISTEN = 3"
definition SOCKET_TYPE_CONNECTING :: nat where "SOCKET_TYPE_CONNECTING = 4"
definition SOCKET_TYPE_CONNECTED :: nat where "SOCKET_TYPE_CONNECTED = 5"
definition SOCKET_TYPE_HALFCLOSE :: nat where "SOCKET_TYPE_HALFCLOSE = 6"
definition SOCKET_TYPE_PACCEPT :: nat where "SOCKET_TYPE_PACCEPT = 7"
definition SOCKET_TYPE_BIND :: nat where "SOCKET_TYPE_BIND = 8"

lemmas socket_type_defs = SOCKET_TYPE_INVALID_def SOCKET_TYPE_RESERVE_def SOCKET_TYPE_PLISTEN_def SOCKET_TYPE_LISTEN_def
  SOCKET_TYPE_CONNECTING_def SOCKET_TYPE_CONNECTED_def SOCKET_TYPE_HALFCLOSE_def SOCKET_TYPE_PACCEPT_def SOCKET_TYPE_BIND_def

definition PROTOCOL_TCP :: nat where "PROTOCOL_TCP = 0"
definition PROTOCOL_UDP :: nat where "PROTOCOL_UDP = 1"
definition PROTOCOL_UDPv6 :: nat where "PROTOCOL_UDPv6 = 2"

lemmas protocol_defs = PROTOCOL_TCP_def PROTOCOL_UDP_def PROTOCOL_UDPv6_def

definition UDP_ADDRESS_SIZE :: nat where "UDP_ADDRESS_SIZE = 19"

text \<open>
  \<open>wb_base\<close> and \<open>wb_data\<close> are the address and the bytes that \<open>send_object_init\<close> found, \<open>wb_ptr\<close> is the
  offset of \<open>ptr\<close> from \<open>wb_base\<close>.
\<close>

record write_buffer =
  wb_buffer :: u64
  wb_base :: u64
  wb_data :: bytes
  wb_ptr :: nat
  wb_sz :: nat
  wb_userobject :: bool
  wb_udp_address :: bytes

record socket =
  s_opaque :: u64
  s_high :: "write_buffer list"
  s_low :: "write_buffer list"
  s_wb_size :: int
  s_fd :: int
  s_id :: int
  s_protocol :: nat
  s_type :: nat
  s_size :: int
  s_udp_address :: bytes

text \<open>The data of a message: none, a text, or bytes that its receiver has to free.\<close>

datatype payload = No_data | Text string | Buffer bytes

text \<open>What a function reports: the type and the message; \<open>None\<close> where it returns -1.\<close>

definition SS_DATA :: nat where "SS_DATA = 0"
definition SS_CLOSE :: nat where "SS_CLOSE = 1"
definition SS_OPEN :: nat where "SS_OPEN = 2"
definition SS_ACCEPT :: nat where "SS_ACCEPT = 3"
definition SS_ERROR :: nat where "SS_ERROR = 4"
definition SS_EXIT :: nat where "SS_EXIT = 5"
definition SS_UDP :: nat where "SS_UDP = 6"

lemmas ss_types = SS_DATA_def SS_CLOSE_def SS_OPEN_def SS_ACCEPT_def SS_ERROR_def SS_EXIT_def SS_UDP_def

record ss_message =
  m_id :: int
  m_opaque :: u64
  m_ud :: int
  m_data :: payload

type_synonym report = "(nat \<times> ss_message) option"

text \<open>The user objects: where the bytes of an object are, and which they are.\<close>

type_synonym soi = "u64 \<Rightarrow> u64 \<times> bytes"

record request_send =
  rs_id :: int
  rs_sz :: int
  rs_buffer :: u64
  rs_data :: bytes

text \<open>\<open>send_object_init\<close>: whether it is a user object, the address and the bytes.\<close>

definition send_object_init :: "soi \<Rightarrow> request_send \<Rightarrow> bool \<times> u64 \<times> bytes" where
  "send_object_init soi rq =
     (if rs_sz rq < 0 then (True, soi (rs_buffer rq)) else (False, rs_buffer rq, take (nat (rs_sz rq)) (rs_data rq)))"

definition free_func :: "netio \<Rightarrow> bool \<Rightarrow> u64 \<Rightarrow> netio" where
  "free_func io userobject buffer = call io (if userobject then Free_object buffer else Free buffer)"

definition write_buffer_free :: "netio \<Rightarrow> write_buffer \<Rightarrow> netio" where
  "write_buffer_free io wb = free_func io (wb_userobject wb) (wb_buffer wb)"

definition free_wb_list :: "netio \<Rightarrow> write_buffer list \<Rightarrow> netio" where
  "free_wb_list io list = foldl write_buffer_free io list"

definition force_close :: "netio \<Rightarrow> socket \<Rightarrow> (netio \<times> socket \<times> ss_message) run" where
  "force_close io s =
     (let result = \<lparr>m_id = s_id s, m_opaque = s_opaque s, m_ud = 0, m_data = No_data\<rparr>
      in if s_type s = SOCKET_TYPE_INVALID then Done (io, s, result)
         else if s_type s = SOCKET_TYPE_RESERVE then Abort
         else (let io = free_wb_list (free_wb_list io (s_high s)) (s_low s);
                   io = (if s_type s \<noteq> SOCKET_TYPE_PACCEPT \<and> s_type s \<noteq> SOCKET_TYPE_PLISTEN then sp_del io (s_fd s) else io);
                   io = (if s_type s \<noteq> SOCKET_TYPE_BIND then call io (Close (s_fd s)) else io)
               in Done (io, s\<lparr>s_high := [], s_low := [], s_type := SOCKET_TYPE_INVALID\<rparr>, result)))"

section \<open>Sending\<close>

text \<open>The high or the low list of a socket.\<close>

definition get_list :: "bool \<Rightarrow> socket \<Rightarrow> write_buffer list" where
  "get_list hi s = (if hi then s_high s else s_low s)"

definition set_list :: "bool \<Rightarrow> write_buffer list \<Rightarrow> socket \<Rightarrow> socket" where
  "set_list hi list s = (if hi then s\<lparr>s_high := list\<rparr> else s\<lparr>s_low := list\<rparr>)"

text \<open>\<open>write\<close> takes at most the bytes it is given.\<close>

function send_list_tcp :: "netio \<Rightarrow> socket \<Rightarrow> bool \<Rightarrow> (netio \<times> socket \<times> report) run" where
  "send_list_tcp io s hi =
     (case get_list hi s of
        [] \<Rightarrow> Done (io, s, None)
      | tmp # rest \<Rightarrow>
          (case io_in io of
             [] \<Rightarrow> Starved
           | r # rs \<Rightarrow>
               (let io = io\<lparr>io_in := rs\<rparr>
                in case r of
                     Errno EINTR \<Rightarrow> send_list_tcp io s hi
                   | Errno EAGAIN \<Rightarrow> Done (io, s, None)
                   | Errno _ \<Rightarrow> rbind (force_close io s) (\<lambda>(io, s, result). Done (io, s, Some (SS_CLOSE, result)))
                   | Ret n \<Rightarrow>
                       (let sz = min n (wb_sz tmp);
                            io = call io (Write (s_fd s) (take sz (drop (wb_ptr tmp) (wb_data tmp))));
                            s = s\<lparr>s_wb_size := s_wb_size s - int sz\<rparr>
                        in if sz \<noteq> wb_sz tmp
                           then Done (io, set_list hi (tmp\<lparr>wb_ptr := wb_ptr tmp + sz, wb_sz := wb_sz tmp - sz\<rparr> # rest) s, None)
                           else send_list_tcp (write_buffer_free io tmp) (set_list hi rest s) hi)
                   | _ \<Rightarrow> Starved)))"
  by pat_completeness auto
termination
  by (relation "measure (\<lambda>(io, s, hi). length (io_in io))") (auto simp: call_def write_buffer_free_def free_func_def)

declare send_list_tcp.simps [simp del]

text \<open>
  \<open>udp_socket_address\<close>: the bytes of the address, empty when it is not one of the protocol of the socket.
\<close>

definition udp_socket_address :: "socket \<Rightarrow> bytes \<Rightarrow> bytes" where
  "udp_socket_address s udp_address =
     (if unat (hd udp_address) \<noteq> s_protocol s then []
      else if s_protocol s = PROTOCOL_UDP then take (1 + 2 + 4) udp_address
      else if s_protocol s = PROTOCOL_UDPv6 then take (1 + 2 + 16) udp_address
      else [])"

function send_list_udp :: "netio \<Rightarrow> socket \<Rightarrow> bool \<Rightarrow> (netio \<times> socket \<times> report) run" where
  "send_list_udp io s hi =
     (case get_list hi s of
        [] \<Rightarrow> Done (io, s, None)
      | tmp # rest \<Rightarrow>
          (case io_in io of
             [] \<Rightarrow> Starved
           | r # rs \<Rightarrow>
               (let io = io\<lparr>io_in := rs\<rparr>
                in case r of
                     Errno e \<Rightarrow>
                       Done (if e = EINTR \<or> e = EAGAIN then io
                             else call io (Log (''socket-server : udp ('' @ fmt_d (s_id s) @ '') sendto error '' @ strerror e @ ''.'')),
                             s, None)
                   | Ret n \<Rightarrow>
                       (let io = call io (Sendto (s_fd s) (drop (wb_ptr tmp) (wb_data tmp)) (udp_socket_address s (wb_udp_address tmp)));
                            s = s\<lparr>s_wb_size := s_wb_size s - int (wb_sz tmp)\<rparr>
                        in send_list_udp (write_buffer_free io tmp) (set_list hi rest s) hi)
                   | _ \<Rightarrow> Starved)))"
  by pat_completeness auto
termination
  by (relation "measure (\<lambda>(io, s, hi). length (io_in io))") (auto simp: call_def write_buffer_free_def free_func_def)

declare send_list_udp.simps [simp del]

definition send_list :: "netio \<Rightarrow> socket \<Rightarrow> bool \<Rightarrow> (netio \<times> socket \<times> report) run" where
  "send_list io s hi = (if s_protocol s = PROTOCOL_TCP then send_list_tcp io s hi else send_list_udp io s hi)"

definition list_uncomplete :: "write_buffer list \<Rightarrow> bool" where
  "list_uncomplete list =
     (case list of [] \<Rightarrow> False | wb # _ \<Rightarrow> wb_base wb + of_nat (wb_ptr wb) \<noteq> wb_buffer wb)"

definition raise_uncomplete :: "socket \<Rightarrow> socket run" where
  "raise_uncomplete s =
     (if s_high s \<noteq> [] then Abort else Done (s\<lparr>s_low := tl (s_low s), s_high := [hd (s_low s)]\<rparr>))"

definition is_close :: "report \<Rightarrow> bool" where
  "is_close r = (case r of Some (t, _) \<Rightarrow> t = SS_CLOSE | None \<Rightarrow> False)"

lemma is_close_simps [simp]: "\<not> is_close None" "is_close (Some (t, m)) \<longleftrightarrow> t = SS_CLOSE"
  by (simp_all add: is_close_def)

text \<open>\<open>send_buffer\<close> of the socket in slot \<open>i\<close>: its steps 2 and 3, step 4, and the whole.\<close>

definition send_low :: "netio \<Rightarrow> socket \<Rightarrow> (netio \<times> socket \<times> report) run" where
  "send_low io s =
     rbind (send_list io s False) (\<lambda>(io, s, r).
       if is_close r then Done (io, s, r)
       else if list_uncomplete (s_low s) then rbind (raise_uncomplete s) (\<lambda>s. Done (io, s, None))
       else Done (io, s, None))"

definition check_close :: "netio \<Rightarrow> nat \<Rightarrow> socket \<Rightarrow> (netio \<times> socket \<times> report) run" where
  "check_close io i s =
     (let io = sp_write io (s_fd s) (Some i) False
      in if s_type s = SOCKET_TYPE_HALFCLOSE
         then rbind (force_close io s) (\<lambda>(io, s, result). Done (io, s, Some (SS_CLOSE, result)))
         else Done (io, s, None))"

definition send_buffer :: "netio \<Rightarrow> nat \<Rightarrow> socket \<Rightarrow> (netio \<times> socket \<times> report) run" where
  "send_buffer io i s =
     (if list_uncomplete (s_low s) then Abort
      else rbind (send_list io s True) (\<lambda>(io, s, r).
        if is_close r then Done (io, s, r)
        else if s_high s \<noteq> [] then Done (io, s, None)
        else if s_low s \<noteq> [] then send_low io s
        else check_close io i s))"

text \<open>\<open>append_sendbuffer_\<close>: the new buffer, of which \<open>n\<close> bytes are already written.\<close>

definition append_wb :: "soi \<Rightarrow> write_buffer list \<Rightarrow> request_send \<Rightarrow> nat \<Rightarrow> bytes \<Rightarrow> write_buffer list \<times> write_buffer" where
  "append_wb soi list rq n udp_address =
     (let (userobject, base, data) = send_object_init soi rq;
          buf = \<lparr>wb_buffer = rs_buffer rq, wb_base = base, wb_data = data, wb_ptr = n, wb_sz = length data - n,
                 wb_userobject = userobject, wb_udp_address = udp_address\<rparr>
      in (list @ [buf], buf))"

definition append_sendbuffer_udp :: "soi \<Rightarrow> socket \<Rightarrow> bool \<Rightarrow> request_send \<Rightarrow> bytes \<Rightarrow> socket" where
  "append_sendbuffer_udp soi s hi rq udp_address =
     (let (list, buf) = append_wb soi (get_list hi s) rq 0 udp_address
      in (set_list hi list s)\<lparr>s_wb_size := s_wb_size s + int (wb_sz buf)\<rparr>)"

definition append_sendbuffer :: "soi \<Rightarrow> socket \<Rightarrow> request_send \<Rightarrow> nat \<Rightarrow> socket" where
  "append_sendbuffer soi s rq n =
     (let (list, buf) = append_wb soi (s_high s) rq n []
      in s\<lparr>s_high := list, s_wb_size := s_wb_size s + int (wb_sz buf)\<rparr>)"

definition append_sendbuffer_low :: "soi \<Rightarrow> socket \<Rightarrow> request_send \<Rightarrow> socket" where
  "append_sendbuffer_low soi s rq =
     (let (list, buf) = append_wb soi (s_low s) rq 0 []
      in s\<lparr>s_low := list, s_wb_size := s_wb_size s + int (wb_sz buf)\<rparr>)"

definition send_buffer_empty :: "socket \<Rightarrow> bool" where
  "send_buffer_empty s \<longleftrightarrow> s_high s = [] \<and> s_low s = []"

text \<open>
  \<open>send_socket\<close> on the socket \<open>s\<close> of the slot \<open>i\<close> of the id; \<open>hi\<close> is the priority, \<open>udp_address\<close> the
  address of a datagram or \<open>None\<close>.
\<close>

definition send_socket ::
  "soi \<Rightarrow> netio \<Rightarrow> nat \<Rightarrow> socket \<Rightarrow> request_send \<Rightarrow> bool \<Rightarrow> bytes option \<Rightarrow> (netio \<times> socket \<times> report) run" where
  "send_socket soi io i s rq hi udp_address =
     (let (user, base, data) = send_object_init soi rq; buffer = rs_buffer rq
      in if s_type s = SOCKET_TYPE_INVALID \<or> s_id s \<noteq> rs_id rq \<or> s_type s = SOCKET_TYPE_HALFCLOSE
            \<or> s_type s = SOCKET_TYPE_PACCEPT
         then Done (free_func io user buffer, s, None)
         else if s_type s = SOCKET_TYPE_PLISTEN \<or> s_type s = SOCKET_TYPE_LISTEN
         then Done (free_func (call io (Log (''socket-server: write to listen fd '' @ fmt_d (rs_id rq) @ ''.''))) user buffer, s, None)
         else if send_buffer_empty s \<and> s_type s = SOCKET_TYPE_CONNECTED then
           (if s_protocol s = PROTOCOL_TCP then
              rbind (next_ret io) (\<lambda>(r, io).
                (case (case r of Ret n \<Rightarrow> Some (Inr (min n (length data)))
                       | Errno e \<Rightarrow> Some (if e = EINTR \<or> e = EAGAIN then Inr 0 else Inl e)
                       | _ \<Rightarrow> None) of
                   None \<Rightarrow> Starved
                 | Some (Inl e) \<Rightarrow>
                     rbind (force_close (call io (Log (''socket-server: write to '' @ fmt_d (rs_id rq) @ '' (fd='' @
                         fmt_d (s_fd s) @ '') error :'' @ strerror e @ ''.''))) s) (\<lambda>(io, s, result).
                       Done (free_func io user buffer, s, Some (SS_CLOSE, result)))
                 | Some (Inr n) \<Rightarrow>
                     (let io = (case r of Ret _ \<Rightarrow> call io (Write (s_fd s) (take n data)) | _ \<Rightarrow> io)
                      in if n = length data then Done (free_func io user buffer, s, None)
                         else Done (sp_write io (s_fd s) (Some i) True, append_sendbuffer soi s rq n, None))))
            else
              (let addr = (case udp_address of None \<Rightarrow> s_udp_address s | Some a \<Rightarrow> a)
               in rbind (next_ret io) (\<lambda>(r, io).
                 (case (case r of Ret n \<Rightarrow> Some (Some n) | Errno e \<Rightarrow> Some None | _ \<Rightarrow> None) of
                    None \<Rightarrow> Starved
                  | Some n \<Rightarrow>
                      (let io = (if n \<noteq> None then call io (Sendto (s_fd s) data (udp_socket_address s addr)) else io)
                       in if n = Some (length data) then Done (free_func io user buffer, s, None)
                          else Done (sp_write io (s_fd s) (Some i) True, append_sendbuffer_udp soi s hi rq addr, None))))))
         else
           (if s_protocol s = PROTOCOL_TCP
            then Done (io, if hi then append_sendbuffer soi s rq 0 else append_sendbuffer_low soi s rq, None)
            else (let addr = (case udp_address of None \<Rightarrow> s_udp_address s | Some a \<Rightarrow> a)
                  in Done (io, append_sendbuffer_udp soi s hi rq addr, None))))"

end
