(* ===== verification/SocketServer.thy ===== *)
theory SocketServer
  imports SocketBuffers
begin

text \<open>
  The socket server of \<open>skynet-src/socket_server.c\<close>: the slots, the requests that other threads put into
  the pipe, what the socket thread does for each request and each event, and the functions of the
  other threads. The functions on one socket take its slot \<open>i\<close> and the socket in it; the pipe is the
  list of the requests in it, a request with what its buffer points to.
\<close>

section \<open>State\<close>

definition MAX_SOCKET :: nat where "MAX_SOCKET = 65536"
definition MAX_EVENT :: nat where "MAX_EVENT = 64"
definition MIN_READ_BUFFER :: int where "MIN_READ_BUFFER = 64"
definition MAX_UDP_PACKAGE :: nat where "MAX_UDP_PACKAGE = 65535"
definition FD_SETSIZE :: int where "FD_SETSIZE = 1024"
definition TCP_NODELAY :: int where "TCP_NODELAY = 1"

definition hash_id :: "int \<Rightarrow> nat" where
  "hash_id sid = unat (word_of_int sid :: u32) mod MAX_SOCKET"

record request_open =
  ro_id :: int
  ro_port :: int
  ro_opaque :: u64
  ro_host :: string

record request_close =
  rc_id :: int
  rc_shutdown :: bool
  rc_opaque :: u64

record request_fd =
  rf_id :: int
  rf_fd :: int
  rf_opaque :: u64

record request_start =
  rt_id :: int
  rt_opaque :: u64

record request_udp =
  ru_id :: int
  ru_fd :: int
  ru_family :: family
  ru_opaque :: u64

text \<open>The first byte of a request is its type; \<open>rf\<close> is \<open>request_bind\<close> and \<open>request_listen\<close>.\<close>

datatype request =
  Req_S request_start
| Req_B request_fd
| Req_L request_fd
| Req_K request_close
| Req_O request_open
| Req_X
| Req_D request_send
| Req_P request_send
| Req_A request_send bytes
| Req_C int bytes
| Req_T int int int
| Req_U request_udp

record socket_server =
  ss_recvctrl_fd :: int
  ss_sendctrl_fd :: int
  ss_checkctrl :: bool
  ss_alloc_id :: u32
  ss_event_n :: nat
  ss_event_index :: nat
  ss_soi :: soi
  ss_ev :: "event list"
  ss_slot :: "nat \<Rightarrow> socket"
  ss_pipe :: "request list"

text \<open>A function on the socket of a slot: the new socket is put back into the slot.\<close>

definition on_slot :: "nat \<Rightarrow> (socket \<Rightarrow> (netio \<times> socket \<times> report) run) \<Rightarrow> socket_server \<Rightarrow> (netio \<times> socket_server \<times> report) run" where
  "on_slot i f ss = rbind (f (ss_slot ss i)) (\<lambda>(io, s, r). Done (io, ss\<lparr>ss_slot := (ss_slot ss)(i := s)\<rparr>, r))"

section \<open>Slots\<close>

definition socket_keepalive :: "netio \<Rightarrow> int \<Rightarrow> netio" where
  "socket_keepalive io fd = call io (Keepalive fd)"

definition sp_nonblocking :: "netio \<Rightarrow> int \<Rightarrow> netio" where
  "sp_nonblocking io fd = call io (Nonblocking fd)"

fun reserve_loop :: "nat \<Rightarrow> socket_server \<Rightarrow> socket_server \<times> int" where
  "reserve_loop 0 ss = (ss, -1)"
| "reserve_loop (Suc n) ss =
     (let alloc = ss_alloc_id ss + 1;
          alloc = (if sint alloc < 0 then alloc AND 0x7fffffff else alloc);
          ss = ss\<lparr>ss_alloc_id := alloc\<rparr>;
          sid = sint alloc;
          s = ss_slot ss (hash_id sid)
      in if s_type s = SOCKET_TYPE_INVALID
         then (ss\<lparr>ss_slot := (ss_slot ss)(hash_id sid := s\<lparr>s_type := SOCKET_TYPE_RESERVE, s_id := sid, s_fd := -1\<rparr>)\<rparr>, sid)
         else reserve_loop n ss)"

definition reserve_id :: "socket_server \<Rightarrow> socket_server \<times> int" where
  "reserve_id ss = reserve_loop MAX_SOCKET ss"

text \<open>\<open>fresh\<close> is the memory of a socket before it is set.\<close>

definition socket_server_create :: "netio \<Rightarrow> soi \<Rightarrow> (nat \<Rightarrow> socket) \<Rightarrow> (netio \<times> socket_server option) run" where
  "socket_server_create io soi fresh =
     rbind (next_ret io) (\<lambda>(r, io). case r of
       Errno _ \<Rightarrow> Done (call io (Log ''socket-server: create event pool failed.''), None)
     | Ret efd \<Rightarrow>
         rbind (next_ret io) (\<lambda>(r, io). case r of
           Errno _ \<Rightarrow> Done (call (call io (Close (int efd))) (Log ''socket-server: create socket pair failed.''), None)
         | Pipe recv send \<Rightarrow>
             rbind (sp_add io recv None) (\<lambda>(e, io).
               if e \<noteq> None
               then Done (call (call (call (call io (Log ''socket-server: can't add server fd to event pool.''))
                 (Close recv)) (Close send)) (Close (int efd)), None)
               else if \<not> recv < FD_SETSIZE then Abort
               else Done (io, Some \<lparr>ss_recvctrl_fd = recv, ss_sendctrl_fd = send, ss_checkctrl = True, ss_alloc_id = 0,
                 ss_event_n = 0, ss_event_index = 0, ss_soi = soi, ss_ev = [],
                 ss_slot = (\<lambda>i. (fresh i)\<lparr>s_type := SOCKET_TYPE_INVALID, s_high := [], s_low := []\<rparr>), ss_pipe = []\<rparr>))
         | _ \<Rightarrow> Starved)
     | _ \<Rightarrow> Starved)"

fun release_slots :: "netio \<Rightarrow> nat list \<Rightarrow> socket_server \<Rightarrow> (netio \<times> socket_server) run" where
  "release_slots io [] ss = Done (io, ss)"
| "release_slots io (i # is) ss =
     (if s_type (ss_slot ss i) \<noteq> SOCKET_TYPE_RESERVE
      then rbind (force_close io (ss_slot ss i)) (\<lambda>(io, s, dummy).
        release_slots io is (ss\<lparr>ss_slot := (ss_slot ss)(i := s)\<rparr>))
      else release_slots io is ss)"

definition socket_server_release :: "netio \<Rightarrow> int \<Rightarrow> socket_server \<Rightarrow> netio run" where
  "socket_server_release io event_fd ss =
     rbind (release_slots io [0..<MAX_SOCKET] ss) (\<lambda>(io, ss).
       Done (call (call (call io (Close (ss_sendctrl_fd ss))) (Close (ss_recvctrl_fd ss))) (Close event_fd)))"

text \<open>\<open>new_fd\<close>: whether it is not \<open>NULL\<close>.\<close>

definition new_fd :: "netio \<Rightarrow> nat \<Rightarrow> socket \<Rightarrow> int \<Rightarrow> int \<Rightarrow> nat \<Rightarrow> u64 \<Rightarrow> bool \<Rightarrow> (netio \<times> socket \<times> bool) run" where
  "new_fd io i s sid fd protocol opaque add =
     (if s_type s \<noteq> SOCKET_TYPE_RESERVE then Abort
      else rbind (if add then sp_add io fd (Some i) else Done (None, io)) (\<lambda>(e, io).
        if e \<noteq> None then Done (io, s\<lparr>s_type := SOCKET_TYPE_INVALID\<rparr>, False)
        else if s_high s \<noteq> [] \<or> s_low s \<noteq> [] then Abort
        else Done (io, s\<lparr>s_id := sid, s_fd := fd, s_protocol := protocol, s_size := MIN_READ_BUFFER, s_opaque := opaque,
               s_wb_size := 0\<rparr>, True)))"

section \<open>Requests\<close>

text \<open>
  The loop of \<open>open_socket\<close> over the addresses: the error of the last attempt, or the descriptor, whether
  it is connected, and the address.
\<close>

fun connect_loop :: "netio \<Rightarrow> errno \<Rightarrow> address list \<Rightarrow> (netio \<times> (errno + int \<times> bool \<times> address)) run" where
  "connect_loop io err [] = Done (io, Inl err)"
| "connect_loop io err (ai # ais) =
     rbind (next_ret io) (\<lambda>(r, io). case r of
       Errno e \<Rightarrow> connect_loop io e ais
     | Ret n \<Rightarrow>
         (let sock = int n; io = sp_nonblocking (socket_keepalive io sock) sock
          in rbind (next_ret io) (\<lambda>(r, io). case r of
               Ret _ \<Rightarrow> Done (io, Inr (sock, True, ai))
             | Errno e \<Rightarrow> if e = EINPROGRESS then Done (io, Inr (sock, False, ai)) else connect_loop (call io (Close sock)) e ais
             | _ \<Rightarrow> Starved))
     | _ \<Rightarrow> Starved)"

text \<open>\<open>open_socket\<close>: \<open>open_failed\<close> is from its label \<open>_failed\<close> on, \<open>open_fd\<close> what follows the loop.\<close>

definition open_failed :: "netio \<Rightarrow> socket \<Rightarrow> request_open \<Rightarrow> string \<Rightarrow> (netio \<times> socket \<times> report) run" where
  "open_failed io s rq data =
     Done (io, s\<lparr>s_type := SOCKET_TYPE_INVALID\<rparr>,
       Some (SS_ERROR, \<lparr>m_id = ro_id rq, m_opaque = ro_opaque rq, m_ud = 0, m_data = Text data\<rparr>))"

definition open_fd ::
  "netio \<Rightarrow> nat \<Rightarrow> socket \<Rightarrow> request_open \<Rightarrow> errno + int \<times> bool \<times> address \<Rightarrow> (netio \<times> socket \<times> report) run" where
  "open_fd io i s rq c =
     (case c of
        Inl e \<Rightarrow> open_failed io s rq (strerror e)
      | Inr (sock, connected, ai) \<Rightarrow>
          rbind (new_fd io i s (ro_id rq) sock PROTOCOL_TCP (ro_opaque rq) True) (\<lambda>(io, ns, ok).
            if \<not> ok then open_failed (call io (Close sock)) ns rq ''reach skynet socket number limit''
            else if connected
            then Done (io, ns\<lparr>s_type := SOCKET_TYPE_CONNECTED\<rparr>, Some (SS_OPEN,
              \<lparr>m_id = ro_id rq, m_opaque = ro_opaque rq, m_ud = 0,
               m_data = (case ad_text ai of Some t \<Rightarrow> Text t | None \<Rightarrow> No_data)\<rparr>))
            else Done (sp_write io (s_fd ns) (Some i) True, ns\<lparr>s_type := SOCKET_TYPE_CONNECTING\<rparr>, None)))"

definition open_socket :: "netio \<Rightarrow> nat \<Rightarrow> socket \<Rightarrow> request_open \<Rightarrow> (netio \<times> socket \<times> report) run" where
  "open_socket io i s rq =
     rbind (next_ret (call io (Lookup (ro_host rq) (ro_port rq)))) (\<lambda>(r, io). case r of
       Unresolved e \<Rightarrow> open_failed io s rq e
     | Resolved ai_list \<Rightarrow> rbind (connect_loop io Other_error ai_list) (\<lambda>(io, c). open_fd io i s rq c)
     | _ \<Rightarrow> Starved)"

definition listen_socket :: "netio \<Rightarrow> nat \<Rightarrow> socket \<Rightarrow> request_fd \<Rightarrow> (netio \<times> socket \<times> report) run" where
  "listen_socket io i s rq =
     rbind (new_fd io i s (rf_id rq) (rf_fd rq) PROTOCOL_TCP (rf_opaque rq) False) (\<lambda>(io, ns, ok).
       if ok then Done (io, ns\<lparr>s_type := SOCKET_TYPE_PLISTEN\<rparr>, None)
       else Done (call io (Close (rf_fd rq)), ns\<lparr>s_type := SOCKET_TYPE_INVALID\<rparr>, Some (SS_ERROR,
         \<lparr>m_id = rf_id rq, m_opaque = rf_opaque rq, m_ud = 0, m_data = Text ''reach skynet socket number limit''\<rparr>)))"

definition close_socket :: "netio \<Rightarrow> nat \<Rightarrow> socket \<Rightarrow> request_close \<Rightarrow> (netio \<times> socket \<times> report) run" where
  "close_socket io i s rq =
     (if s_type s = SOCKET_TYPE_INVALID \<or> s_id s \<noteq> rc_id rq
      then Done (io, s, Some (SS_CLOSE, \<lparr>m_id = rc_id rq, m_opaque = rc_opaque rq, m_ud = 0, m_data = No_data\<rparr>))
      else rbind (if send_buffer_empty s then Done (io, s, None) else send_buffer io i s) (\<lambda>(io, s, r).
        if r \<noteq> None then Done (io, s, r)
        else if rc_shutdown rq \<or> send_buffer_empty s
        then rbind (force_close io s) (\<lambda>(io, s, result).
          Done (io, s, Some (SS_CLOSE, result\<lparr>m_id := rc_id rq, m_opaque := rc_opaque rq\<rparr>)))
        else Done (io, s\<lparr>s_type := SOCKET_TYPE_HALFCLOSE\<rparr>, None)))"

definition bind_socket :: "netio \<Rightarrow> nat \<Rightarrow> socket \<Rightarrow> request_fd \<Rightarrow> (netio \<times> socket \<times> report) run" where
  "bind_socket io i s rq =
     (let result = \<lparr>m_id = rf_id rq, m_opaque = rf_opaque rq, m_ud = 0, m_data = No_data\<rparr>
      in rbind (new_fd io i s (rf_id rq) (rf_fd rq) PROTOCOL_TCP (rf_opaque rq) True) (\<lambda>(io, ns, ok).
        if \<not> ok then Done (io, ns, Some (SS_ERROR, result\<lparr>m_data := Text ''reach skynet socket number limit''\<rparr>))
        else Done (sp_nonblocking io (rf_fd rq), ns\<lparr>s_type := SOCKET_TYPE_BIND\<rparr>,
               Some (SS_OPEN, result\<lparr>m_data := Text ''binding''\<rparr>))))"

definition start_socket :: "netio \<Rightarrow> nat \<Rightarrow> socket \<Rightarrow> request_start \<Rightarrow> (netio \<times> socket \<times> report) run" where
  "start_socket io i s rq =
     (let result = \<lparr>m_id = rt_id rq, m_opaque = rt_opaque rq, m_ud = 0, m_data = No_data\<rparr>
      in if s_type s = SOCKET_TYPE_INVALID \<or> s_id s \<noteq> rt_id rq
         then Done (io, s, Some (SS_ERROR, result\<lparr>m_data := Text ''invalid socket''\<rparr>))
         else if s_type s = SOCKET_TYPE_PACCEPT \<or> s_type s = SOCKET_TYPE_PLISTEN then
           rbind (sp_add io (s_fd s) (Some i)) (\<lambda>(e, io). case e of
             Some e \<Rightarrow> Done (io, s\<lparr>s_type := SOCKET_TYPE_INVALID\<rparr>, Some (SS_ERROR, result\<lparr>m_data := Text (strerror e)\<rparr>))
           | None \<Rightarrow> Done (io,
               s\<lparr>s_type := (if s_type s = SOCKET_TYPE_PACCEPT then SOCKET_TYPE_CONNECTED else SOCKET_TYPE_LISTEN),
                 s_opaque := rt_opaque rq\<rparr>, Some (SS_OPEN, result\<lparr>m_data := Text ''start''\<rparr>)))
         else if s_type s = SOCKET_TYPE_CONNECTED
         then Done (io, s\<lparr>s_opaque := rt_opaque rq\<rparr>, Some (SS_OPEN, result\<lparr>m_data := Text ''transfer''\<rparr>))
         else Done (io, s, None))"

definition setopt_socket :: "netio \<Rightarrow> socket \<Rightarrow> int \<Rightarrow> int \<Rightarrow> int \<Rightarrow> netio" where
  "setopt_socket io s sid opt value =
     (if s_type s = SOCKET_TYPE_INVALID \<or> s_id s \<noteq> sid then io else call io (Setsockopt (s_fd s) opt value))"

definition add_udp_socket :: "netio \<Rightarrow> nat \<Rightarrow> socket \<Rightarrow> request_udp \<Rightarrow> (netio \<times> socket \<times> report) run" where
  "add_udp_socket io i s rq =
     (let protocol = (if ru_family rq = AF_INET6 then PROTOCOL_UDPv6 else PROTOCOL_UDP)
      in rbind (new_fd io i s (ru_id rq) (ru_fd rq) protocol (ru_opaque rq) True) (\<lambda>(io, ns, ok).
        if \<not> ok then Done (call io (Close (ru_fd rq)), ns\<lparr>s_type := SOCKET_TYPE_INVALID\<rparr>, None)
        else Done (io, ns\<lparr>s_type := SOCKET_TYPE_CONNECTED, s_udp_address := replicate UDP_ADDRESS_SIZE 0\<rparr>, None)))"

text \<open>\<open>memcpy\<close> to the address: the bytes behind those copied stay.\<close>

definition set_udp_address :: "socket \<Rightarrow> int \<Rightarrow> bytes \<Rightarrow> socket \<times> report" where
  "set_udp_address s sid address =
     (if s_type s = SOCKET_TYPE_INVALID \<or> s_id s \<noteq> sid then (s, None)
      else let type = unat (hd address)
        in if type \<noteq> s_protocol s
           then (s, Some (SS_ERROR, \<lparr>m_id = s_id s, m_opaque = s_opaque s, m_ud = 0, m_data = Text ''protocol mismatch''\<rparr>))
           else let n = (if type = PROTOCOL_UDP then 1 + 2 + 4 else 1 + 2 + 16)
             in (s\<lparr>s_udp_address := take n address @ drop n (s_udp_address s)\<rparr>, None))"

definition ctrl_cmd :: "netio \<Rightarrow> socket_server \<Rightarrow> request \<Rightarrow> (netio \<times> socket_server \<times> report) run" where
  "ctrl_cmd io ss rq =
     (case rq of
        Req_S r \<Rightarrow> on_slot (hash_id (rt_id r)) (\<lambda>s. start_socket io (hash_id (rt_id r)) s r) ss
      | Req_B r \<Rightarrow> on_slot (hash_id (rf_id r)) (\<lambda>s. bind_socket io (hash_id (rf_id r)) s r) ss
      | Req_L r \<Rightarrow> on_slot (hash_id (rf_id r)) (\<lambda>s. listen_socket io (hash_id (rf_id r)) s r) ss
      | Req_K r \<Rightarrow> on_slot (hash_id (rc_id r)) (\<lambda>s. close_socket io (hash_id (rc_id r)) s r) ss
      | Req_O r \<Rightarrow> on_slot (hash_id (ro_id r)) (\<lambda>s. open_socket io (hash_id (ro_id r)) s r) ss
      | Req_X \<Rightarrow> Done (io, ss, Some (SS_EXIT, \<lparr>m_id = 0, m_opaque = 0, m_ud = 0, m_data = No_data\<rparr>))
      | Req_D r \<Rightarrow> on_slot (hash_id (rs_id r)) (\<lambda>s. send_socket (ss_soi ss) io (hash_id (rs_id r)) s r True None) ss
      | Req_P r \<Rightarrow> on_slot (hash_id (rs_id r)) (\<lambda>s. send_socket (ss_soi ss) io (hash_id (rs_id r)) s r False None) ss
      | Req_A r a \<Rightarrow> on_slot (hash_id (rs_id r)) (\<lambda>s. send_socket (ss_soi ss) io (hash_id (rs_id r)) s r True (Some a)) ss
      | Req_C sid a \<Rightarrow> on_slot (hash_id sid) (\<lambda>s. case set_udp_address s sid a of (s, r) \<Rightarrow> Done (io, s, r)) ss
      | Req_T sid opt value \<Rightarrow> on_slot (hash_id sid) (\<lambda>s. Done (setopt_socket io s sid opt value, s, None)) ss
      | Req_U r \<Rightarrow> on_slot (hash_id (ru_id r)) (\<lambda>s. add_udp_socket io (hash_id (ru_id r)) s r) ss)"

section \<open>Events\<close>

definition forward_message_tcp :: "netio \<Rightarrow> socket \<Rightarrow> (netio \<times> socket \<times> report) run" where
  "forward_message_tcp io s =
     rbind (next_ret io) (\<lambda>(r, io). case r of
       Errno e \<Rightarrow>
         if e = EINTR then Done (io, s, None)
         else if e = EAGAIN then Done (call io (Log ''socket-server: EAGAIN capture.''), s, None)
         else rbind (force_close io s) (\<lambda>(io, s, result). Done (io, s, Some (SS_ERROR, result\<lparr>m_data := Text (strerror e)\<rparr>)))
     | Received bs \<Rightarrow>
         (let sz = s_size s; buffer = take (nat sz) bs; n = int (length buffer)
          in if n = 0 then rbind (force_close io s) (\<lambda>(io, s, result). Done (io, s, Some (SS_CLOSE, result)))
             else if s_type s = SOCKET_TYPE_HALFCLOSE then Done (io, s, None)
             else let s = (if n = sz then s\<lparr>s_size := to_int32 (sz * 2)\<rparr>
                           else if sz > MIN_READ_BUFFER \<and> n * 2 < sz then s\<lparr>s_size := sz div 2\<rparr> else s)
               in Done (io, s, Some (SS_DATA, \<lparr>m_id = s_id s, m_opaque = s_opaque s, m_ud = n, m_data = Buffer buffer\<rparr>)))
     | _ \<Rightarrow> Starved)"

definition gen_udp_address :: "nat \<Rightarrow> address \<Rightarrow> bytes" where
  "gen_udp_address protocol sa =
     of_nat protocol # take (if protocol = PROTOCOL_UDP then 2 + 4 else 2 + 16) (ad_bytes sa)"

definition forward_message_udp :: "netio \<Rightarrow> socket \<Rightarrow> (netio \<times> socket \<times> report) run" where
  "forward_message_udp io s =
     rbind (next_ret io) (\<lambda>(r, io). case r of
       Errno e \<Rightarrow>
         if e = EINTR \<or> e = EAGAIN then Done (io, s, None)
         else rbind (force_close io s) (\<lambda>(io, s, result). Done (io, s, Some (SS_ERROR, result\<lparr>m_data := Text (strerror e)\<rparr>)))
     | Datagram bs sa \<Rightarrow>
         (let data = take MAX_UDP_PACKAGE bs;
              protocol = (if ad_family sa = AF_INET then PROTOCOL_UDP else PROTOCOL_UDPv6)
          in if s_protocol s \<noteq> protocol then Done (io, s, None)
             else Done (io, s, Some (SS_UDP, \<lparr>m_id = s_id s, m_opaque = s_opaque s, m_ud = int (length data),
               m_data = Buffer (data @ gen_udp_address protocol sa)\<rparr>)))
     | _ \<Rightarrow> Starved)"

text \<open>
  \<open>report_connect\<close>: \<open>getsockopt\<close> gives the pending error of the connection (\<open>Ret 0\<close>: none) or fails
  itself; \<open>report_peer\<close> is its end, from \<open>getpeername\<close> on.
\<close>

definition report_peer :: "netio \<Rightarrow> socket \<Rightarrow> (netio \<times> socket \<times> report) run" where
  "report_peer io s =
     (let result = \<lparr>m_id = s_id s, m_opaque = s_opaque s, m_ud = 0, m_data = No_data\<rparr>
      in rbind (next_ret io) (\<lambda>(r, io). case r of
           Peer u \<Rightarrow> Done (io, s, Some (SS_OPEN, case ad_text u of Some t \<Rightarrow> result\<lparr>m_data := Text t\<rparr> | None \<Rightarrow> result))
         | Errno _ \<Rightarrow> Done (io, s, Some (SS_OPEN, result))
         | _ \<Rightarrow> Starved))"

definition report_connect :: "netio \<Rightarrow> nat \<Rightarrow> socket \<Rightarrow> (netio \<times> socket \<times> report) run" where
  "report_connect io i s =
     rbind (next_ret io) (\<lambda>(r, io). case r of
       Errno e \<Rightarrow>
         rbind (force_close io s) (\<lambda>(io, s, result). Done (io, s, Some (SS_ERROR, result\<lparr>m_data := Text (strerror e)\<rparr>)))
     | Ret _ \<Rightarrow>
         (let s = s\<lparr>s_type := SOCKET_TYPE_CONNECTED\<rparr>;
              io = (if send_buffer_empty s then sp_write io (s_fd s) (Some i) False else io)
          in report_peer io s)
     | _ \<Rightarrow> Starved)"

text \<open>The port of an address, in network order.\<close>

definition sin_port :: "address \<Rightarrow> nat" where
  "sin_port a = 256 * unat (ad_bytes a ! 0) + unat (ad_bytes a ! 1)"

text \<open>\<open>report_accept\<close> of the listening socket in slot \<open>i\<close>: 1 with \<open>SS_ACCEPT\<close>, -1 with \<open>SS_ERROR\<close>, 0 with \<open>None\<close>.\<close>

definition report_accept :: "netio \<Rightarrow> nat \<Rightarrow> socket_server \<Rightarrow> (netio \<times> socket_server \<times> report) run" where
  "report_accept io i ss =
     (let s = ss_slot ss i
      in rbind (next_ret io) (\<lambda>(r, io). case r of
           Errno e \<Rightarrow>
             if e = EMFILE \<or> e = ENFILE
             then Done (io, ss, Some (SS_ERROR, \<lparr>m_id = s_id s, m_opaque = s_opaque s, m_ud = 0, m_data = Text (strerror e)\<rparr>))
             else Done (io, ss, None)
         | Accepted client_fd u \<Rightarrow>
             (case reserve_id ss of (ss, sid) \<Rightarrow>
                if sid < 0 then Done (call io (Close client_fd), ss, None)
                else rbind (new_fd (sp_nonblocking (socket_keepalive io client_fd) client_fd) (hash_id sid)
                       (ss_slot ss (hash_id sid)) sid client_fd PROTOCOL_TCP (s_opaque s) False) (\<lambda>(io, ns, ok).
                  if \<not> ok then Done (call io (Close client_fd), ss\<lparr>ss_slot := (ss_slot ss)(hash_id sid := ns)\<rparr>, None)
                  else Done (io, ss\<lparr>ss_slot := (ss_slot ss)(hash_id sid := ns\<lparr>s_type := SOCKET_TYPE_PACCEPT\<rparr>)\<rparr>,
                    Some (SS_ACCEPT, \<lparr>m_id = s_id s, m_opaque = s_opaque s, m_ud = sid,
                      m_data = (case ad_text u of Some t \<Rightarrow> Text (take 127 (t @ '':'' @ fmt_d (int (sin_port u)))) | None \<Rightarrow> No_data)\<rparr>))))
         | _ \<Rightarrow> Starved))"

text \<open>
  \<open>sp_wait\<close>: the events of the registered descriptors that the kernel reports, each once, and ready for
  writing only where this was asked for.
\<close>

definition sp_wait :: "netio \<Rightarrow> (event list option \<times> netio) run" where
  "sp_wait io =
     rbind (next_ret io) (\<lambda>(r, io). case r of
       Errno _ \<Rightarrow> Done (None, io)
     | Events evs \<Rightarrow>
         (if length evs \<le> MAX_EVENT \<and> distinct (map fst evs) \<and>
             list_all (\<lambda>(fd, read, write). case io_poll io fd of None \<Rightarrow> False | Some (s, enable) \<Rightarrow> write \<longrightarrow> enable) evs
          then Done (Some (map (\<lambda>(fd, read, write).
                 \<lparr>e_s = (case io_poll io fd of None \<Rightarrow> None | Some (s, enable) \<Rightarrow> s), e_read = read, e_write = write\<rparr>) evs), io)
          else Starved)
     | _ \<Rightarrow> Starved)"

text \<open>The first of the events that belongs to the closed socket gets no socket.\<close>

fun clear_events :: "(nat \<Rightarrow> socket) \<Rightarrow> int \<Rightarrow> event list \<Rightarrow> event list" where
  "clear_events slot sid [] = []"
| "clear_events slot sid (e # es) =
     (case e_s e of
        Some i \<Rightarrow> if s_type (slot i) = SOCKET_TYPE_INVALID \<and> s_id (slot i) = sid then e\<lparr>e_s := None\<rparr> # es
                  else e # clear_events slot sid es
      | None \<Rightarrow> e # clear_events slot sid es)"

definition clear_closed_event :: "socket_server \<Rightarrow> ss_message \<Rightarrow> nat \<Rightarrow> socket_server" where
  "clear_closed_event ss result type =
     (if type = SS_CLOSE \<or> type = SS_ERROR
      then ss\<lparr>ss_ev := take (ss_event_index ss) (ss_ev ss) @
             clear_events (ss_slot ss) (m_id result) (take (ss_event_n ss - ss_event_index ss) (drop (ss_event_index ss) (ss_ev ss))) @
             drop (max (ss_event_index ss) (ss_event_n ss)) (ss_ev ss)\<rparr>
      else ss)"

text \<open>One round of the loop of \<open>socket_server_poll\<close>: it returns, or goes on.\<close>

datatype round = Again | Return report

definition has_cmd :: "socket_server \<Rightarrow> bool" where
  "has_cmd ss \<longleftrightarrow> ss_pipe ss \<noteq> []"

text \<open>The event \<open>e\<close> at index \<open>k\<close>, for the slot \<open>i\<close>: reading, and any event.\<close>

definition handle_read :: "netio \<Rightarrow> socket_server \<Rightarrow> nat \<Rightarrow> event \<Rightarrow> nat \<Rightarrow> (netio \<times> socket_server \<times> round) run" where
  "handle_read io ss k e i =
     (let udp = s_protocol (ss_slot ss i) \<noteq> PROTOCOL_TCP
      in rbind (on_slot i (if udp then forward_message_udp io else forward_message_tcp io) ss) (\<lambda>(io, ss, r).
        let type = map_option fst r
        in if udp \<and> type = Some SS_UDP then Done (io, ss\<lparr>ss_event_index := k\<rparr>, Return r)
           else let ss = (if e_write e \<and> type \<noteq> Some SS_CLOSE \<and> type \<noteq> Some SS_ERROR
                          then ss\<lparr>ss_ev := (ss_ev ss)[k := e\<lparr>e_read := False\<rparr>], ss_event_index := k\<rparr> else ss)
             in Done (io, ss, if r = None then Again else Return r)))"

definition handle_event :: "netio \<Rightarrow> socket_server \<Rightarrow> (netio \<times> socket_server \<times> round) run" where
  "handle_event io ss =
     (let k = ss_event_index ss; e = ss_ev ss ! k; ss = ss\<lparr>ss_event_index := k + 1\<rparr>
      in case e_s e of
           None \<Rightarrow> Done (io, ss, Again)
         | Some i \<Rightarrow>
             (let s = ss_slot ss i
              in if s_type s = SOCKET_TYPE_CONNECTING
                 then rbind (on_slot i (report_connect io i) ss) (\<lambda>(io, ss, r). Done (io, ss, Return r))
                 else if s_type s = SOCKET_TYPE_LISTEN
                 then rbind (report_accept io i ss) (\<lambda>(io, ss, r). Done (io, ss, if r = None then Again else Return r))
                 else if s_type s = SOCKET_TYPE_INVALID
                 then Done (call io (Log ''socket-server: invalid socket''), ss, Again)
                 else if e_read e then handle_read io ss k e i
                 else if e_write e
                 then rbind (on_slot i (send_buffer io i) ss) (\<lambda>(io, ss, r). Done (io, ss, if r = None then Again else Return r))
                 else Done (io, ss, Again)))"

text \<open>Waiting for events, when all are handled, and the first of them.\<close>

definition poll_wait :: "netio \<Rightarrow> socket_server \<Rightarrow> (netio \<times> socket_server \<times> bool \<times> round) run" where
  "poll_wait io ss =
     rbind (sp_wait io) (\<lambda>(evs, io). case evs of
       None \<Rightarrow> Done (io, ss\<lparr>ss_checkctrl := True, ss_event_index := 0, ss_event_n := 0\<rparr>, False, Return None)
     | Some evs \<Rightarrow>
         (let ss = ss\<lparr>ss_ev := evs, ss_event_n := length evs, ss_checkctrl := True, ss_event_index := 0\<rparr>
          in if evs = [] then Done (io, ss, False, Return None)
             else rbind (handle_event io ss) (\<lambda>(io, ss, rd). Done (io, ss, False, rd))))"

definition poll_round :: "netio \<Rightarrow> socket_server \<Rightarrow> bool \<Rightarrow> (netio \<times> socket_server \<times> bool \<times> round) run" where
  "poll_round io ss mor =
     (if ss_checkctrl ss \<and> has_cmd ss then
        rbind (ctrl_cmd io (ss\<lparr>ss_pipe := tl (ss_pipe ss)\<rparr>) (hd (ss_pipe ss))) (\<lambda>(io, ss, r). case r of
          Some (type, result) \<Rightarrow> Done (io, clear_closed_event ss result type, mor, Return r)
        | None \<Rightarrow> Done (io, ss, mor, Again))
      else
        (let ss = ss\<lparr>ss_checkctrl := False\<rparr>
         in if ss_event_index ss = ss_event_n ss then poll_wait io ss
            else rbind (handle_event io ss) (\<lambda>(io, ss, rd). Done (io, ss, mor, rd))))"

text \<open>
  \<open>socket_server_poll\<close> with a bound on its rounds; \<open>more\<close> is false when it waited for events. The bound
  \<open>poll_rounds\<close> is enough (theory \<open>SocketServerProps\<close>).
\<close>

fun poll_loop :: "nat \<Rightarrow> netio \<Rightarrow> socket_server \<Rightarrow> bool \<Rightarrow> (netio \<times> socket_server \<times> bool \<times> report) run option" where
  "poll_loop 0 io ss mor = None"
| "poll_loop (Suc n) io ss mor =
     (case poll_round io ss mor of
        Done (io, ss, mor, Again) \<Rightarrow> poll_loop n io ss mor
      | Done (io, ss, mor, Return r) \<Rightarrow> Some (Done (io, ss, mor, r))
      | Abort \<Rightarrow> Some Abort
      | Starved \<Rightarrow> Some Starved)"

text \<open>The rounds that the pending events of a server and an event list of the kernel need.\<close>

definition event_rounds :: "event list \<Rightarrow> nat" where
  "event_rounds evs = sum_list (map (\<lambda>e. if e_read e then 2 else 1) evs)"

definition poll_rounds :: "netio \<Rightarrow> socket_server \<Rightarrow> nat" where
  "poll_rounds io ss = length (ss_pipe ss) + event_rounds (drop (ss_event_index ss) (take (ss_event_n ss) (ss_ev ss))) +
     (2 * MAX_EVENT + 1) * length (io_in io) + 1"

definition socket_server_poll :: "netio \<Rightarrow> socket_server \<Rightarrow> (netio \<times> socket_server \<times> bool \<times> report) run option" where
  "socket_server_poll io ss = poll_loop (poll_rounds io ss) io ss True"
section \<open>The functions of the other threads\<close>

text \<open>\<open>request_send\<close> fits into the 256 bytes of a request; only the host of \<open>request_open\<close> can be too long.\<close>

definition send_request :: "socket_server \<Rightarrow> request \<Rightarrow> socket_server" where
  "send_request ss rq = ss\<lparr>ss_pipe := ss_pipe ss @ [rq]\<rparr>"

definition SIZEOF_REQUEST_OPEN :: nat where "SIZEOF_REQUEST_OPEN = 24"

definition open_request :: "netio \<Rightarrow> socket_server \<Rightarrow> u64 \<Rightarrow> string \<Rightarrow> int \<Rightarrow> netio \<times> socket_server \<times> request_open option" where
  "open_request io ss opaque addr port =
     (if length addr + SIZEOF_REQUEST_OPEN \<ge> 256
      then (call io (Log (''socket-server : Invalid addr '' @ addr @ ''.'')), ss, None)
      else case reserve_id ss of (ss, sid) \<Rightarrow>
        if sid < 0 then (io, ss, None)
        else (io, ss, Some \<lparr>ro_id = sid, ro_port = port, ro_opaque = opaque, ro_host = addr\<rparr>))"

definition socket_server_connect :: "netio \<Rightarrow> socket_server \<Rightarrow> u64 \<Rightarrow> string \<Rightarrow> int \<Rightarrow> netio \<times> socket_server \<times> int" where
  "socket_server_connect io ss opaque addr port =
     (case open_request io ss opaque addr port of
        (io, ss, None) \<Rightarrow> (io, ss, -1)
      | (io, ss, Some rq) \<Rightarrow> (io, send_request ss (Req_O rq), ro_id rq))"

definition free_buffer :: "netio \<Rightarrow> soi \<Rightarrow> request_send \<Rightarrow> netio" where
  "free_buffer io soi rq = (case send_object_init soi rq of (userobject, _) \<Rightarrow> free_func io userobject (rs_buffer rq))"

definition socket_server_send :: "netio \<Rightarrow> socket_server \<Rightarrow> request_send \<Rightarrow> netio \<times> socket_server \<times> int" where
  "socket_server_send io ss rq =
     (let s = ss_slot ss (hash_id (rs_id rq))
      in if s_id s \<noteq> rs_id rq \<or> s_type s = SOCKET_TYPE_INVALID then (free_buffer io (ss_soi ss) rq, ss, -1)
         else (io, send_request ss (Req_D rq), s_wb_size s))"

definition socket_server_send_lowpriority :: "netio \<Rightarrow> socket_server \<Rightarrow> request_send \<Rightarrow> netio \<times> socket_server" where
  "socket_server_send_lowpriority io ss rq =
     (let s = ss_slot ss (hash_id (rs_id rq))
      in if s_id s \<noteq> rs_id rq \<or> s_type s = SOCKET_TYPE_INVALID then (free_buffer io (ss_soi ss) rq, ss)
         else (io, send_request ss (Req_P rq)))"

definition socket_server_exit :: "socket_server \<Rightarrow> socket_server" where
  "socket_server_exit ss = send_request ss Req_X"

definition socket_server_close :: "socket_server \<Rightarrow> u64 \<Rightarrow> int \<Rightarrow> socket_server" where
  "socket_server_close ss opaque sid = send_request ss (Req_K \<lparr>rc_id = sid, rc_shutdown = False, rc_opaque = opaque\<rparr>)"

definition socket_server_shutdown :: "socket_server \<Rightarrow> u64 \<Rightarrow> int \<Rightarrow> socket_server" where
  "socket_server_shutdown ss opaque sid = send_request ss (Req_K \<lparr>rc_id = sid, rc_shutdown = True, rc_opaque = opaque\<rparr>)"

text \<open>\<open>do_bind\<close>: the descriptor and the family, or -1.\<close>

definition do_bind :: "netio \<Rightarrow> string option \<Rightarrow> int \<Rightarrow> (netio \<times> (int \<times> family) option) run" where
  "do_bind io host port =
     (let host = (case host of None \<Rightarrow> ''0.0.0.0'' | Some h \<Rightarrow> if h = [] then ''0.0.0.0'' else h)
      in rbind (next_ret (call io (Lookup host port))) (\<lambda>(r, io). case r of
           Unresolved _ \<Rightarrow> Done (io, None)
         | Resolved (ai # _) \<Rightarrow>
             rbind (next_ret io) (\<lambda>(r, io). case r of
               Errno _ \<Rightarrow> Done (io, None)
             | Ret n \<Rightarrow>
                 rbind (next_ret io) (\<lambda>(r, io). case r of
                   Errno _ \<Rightarrow> Done (call io (Close (int n)), None)
                 | Ret _ \<Rightarrow>
                     rbind (next_ret io) (\<lambda>(r, io). case r of
                       Errno _ \<Rightarrow> Done (call io (Close (int n)), None)
                     | Ret _ \<Rightarrow> Done (io, Some (int n, ad_family ai))
                     | _ \<Rightarrow> Starved)
                 | _ \<Rightarrow> Starved)
             | _ \<Rightarrow> Starved)
         | _ \<Rightarrow> Starved))"

definition do_listen :: "netio \<Rightarrow> string option \<Rightarrow> int \<Rightarrow> (netio \<times> int option) run" where
  "do_listen io host port =
     rbind (do_bind io host port) (\<lambda>(io, b). case b of
       None \<Rightarrow> Done (io, None)
     | Some (fd, _) \<Rightarrow>
         rbind (next_ret io) (\<lambda>(r, io). case r of
           Errno _ \<Rightarrow> Done (call io (Close fd), None)
         | Ret _ \<Rightarrow> Done (io, Some fd)
         | _ \<Rightarrow> Starved))"

definition socket_server_listen :: "netio \<Rightarrow> socket_server \<Rightarrow> u64 \<Rightarrow> string option \<Rightarrow> int \<Rightarrow> (netio \<times> socket_server \<times> int) run" where
  "socket_server_listen io ss opaque addr port =
     rbind (do_listen io addr port) (\<lambda>(io, l). case l of
       None \<Rightarrow> Done (io, ss, -1)
     | Some fd \<Rightarrow>
         (case reserve_id ss of (ss, sid) \<Rightarrow>
            if sid < 0 then Done (call io (Close fd), ss, sid)
            else Done (io, send_request ss (Req_L \<lparr>rf_id = sid, rf_fd = fd, rf_opaque = opaque\<rparr>), sid)))"

definition socket_server_bind :: "socket_server \<Rightarrow> u64 \<Rightarrow> int \<Rightarrow> socket_server \<times> int" where
  "socket_server_bind ss opaque fd =
     (case reserve_id ss of (ss, sid) \<Rightarrow>
        if sid < 0 then (ss, -1)
        else (send_request ss (Req_B \<lparr>rf_id = sid, rf_fd = fd, rf_opaque = opaque\<rparr>), sid))"

definition socket_server_start :: "socket_server \<Rightarrow> u64 \<Rightarrow> int \<Rightarrow> socket_server" where
  "socket_server_start ss opaque sid = send_request ss (Req_S \<lparr>rt_id = sid, rt_opaque = opaque\<rparr>)"

definition socket_server_nodelay :: "socket_server \<Rightarrow> int \<Rightarrow> socket_server" where
  "socket_server_nodelay ss sid = send_request ss (Req_T sid TCP_NODELAY 1)"

definition socket_server_userobject :: "socket_server \<Rightarrow> soi \<Rightarrow> socket_server" where
  "socket_server_userobject ss soi = ss\<lparr>ss_soi := soi\<rparr>"

text \<open>\<open>addr\<close> is \<open>None\<close> for \<open>NULL\<close>.\<close>

definition socket_server_udp :: "netio \<Rightarrow> socket_server \<Rightarrow> u64 \<Rightarrow> string option \<Rightarrow> int \<Rightarrow> (netio \<times> socket_server \<times> int) run" where
  "socket_server_udp io ss opaque addr port =
     rbind (if port \<noteq> 0 \<or> addr \<noteq> None then do_bind io addr port
            else rbind (next_ret io) (\<lambda>(r, io). case r of
              Errno _ \<Rightarrow> Done (io, None) | Ret n \<Rightarrow> Done (io, Some (int n, AF_INET)) | _ \<Rightarrow> Starved)) (\<lambda>(io, b).
       case b of
         None \<Rightarrow> Done (io, ss, -1)
       | Some (fd, family) \<Rightarrow>
           (let io = sp_nonblocking io fd
            in case reserve_id ss of (ss, sid) \<Rightarrow>
              if sid < 0 then Done (call io (Close fd), ss, -1)
              else Done (io, send_request ss (Req_U \<lparr>ru_id = sid, ru_fd = fd, ru_family = family, ru_opaque = opaque\<rparr>), sid)))"

text \<open>The size of an address of UDP by its first byte.\<close>

definition udp_addrsz :: "bytes \<Rightarrow> nat option" where
  "udp_addrsz a =
     (if unat (hd a) = PROTOCOL_UDP then Some (1 + 2 + 4)
      else if unat (hd a) = PROTOCOL_UDPv6 then Some (1 + 2 + 16)
      else None)"

definition socket_server_udp_send :: "netio \<Rightarrow> socket_server \<Rightarrow> request_send \<Rightarrow> bytes \<Rightarrow> netio \<times> socket_server \<times> int" where
  "socket_server_udp_send io ss rq udp_address =
     (let s = ss_slot ss (hash_id (rs_id rq))
      in if s_id s \<noteq> rs_id rq \<or> s_type s = SOCKET_TYPE_INVALID then (free_buffer io (ss_soi ss) rq, ss, -1)
         else case udp_addrsz udp_address of
           None \<Rightarrow> (free_buffer io (ss_soi ss) rq, ss, -1)
         | Some addrsz \<Rightarrow> (io, send_request ss (Req_A rq (take addrsz udp_address)), s_wb_size s))"

definition socket_server_udp_connect :: "netio \<Rightarrow> socket_server \<Rightarrow> int \<Rightarrow> string \<Rightarrow> int \<Rightarrow> (netio \<times> socket_server \<times> int) run" where
  "socket_server_udp_connect io ss sid addr port =
     rbind (next_ret (call io (Lookup addr port))) (\<lambda>(r, io). case r of
       Unresolved _ \<Rightarrow> Done (io, ss, -1)
     | Resolved (ai # _) \<Rightarrow>
         (case (case ad_family ai of AF_INET \<Rightarrow> Some PROTOCOL_UDP | AF_INET6 \<Rightarrow> Some PROTOCOL_UDPv6 | AF_OTHER \<Rightarrow> None) of
            None \<Rightarrow> Done (io, ss, -1)
          | Some protocol \<Rightarrow> Done (io, send_request ss (Req_C sid (gen_udp_address protocol ai)), 0))
     | _ \<Rightarrow> Starved)"

text \<open>The address behind the \<open>ud\<close> bytes of a message of UDP.\<close>

definition socket_server_udp_address :: "bytes \<Rightarrow> nat \<Rightarrow> bytes option" where
  "socket_server_udp_address data ud =
     (let address = drop ud data in case udp_addrsz address of None \<Rightarrow> None | Some addrsz \<Rightarrow> Some (take addrsz address))"

end
