(* ===== verification/SocketStream.thy ===== *)
theory SocketStream
  imports SocketServer "HOL-Library.Multiset" "HOL-Library.Sublist"
begin

text \<open>
  What a TCP socket writes to its descriptor: the messages it accepted, each in one piece, the ones of
  the same priority in the order in which they were sent, whatever the kernel takes at a time; and
  each message is freed exactly once.
\<close>

section \<open>Messages and the state of a stream\<close>

text \<open>A message: its priority (high or not), its buffer and its bytes.\<close>

type_synonym sent_message = "bool \<times> u64 \<times> bytes"

definition written :: "int \<Rightarrow> sys_call list \<Rightarrow> bytes" where
  "written fd cs = concat (map (\<lambda>c. case c of Write f b \<Rightarrow> if f = fd then b else [] | _ \<Rightarrow> []) cs)"

definition freed :: "sys_call list \<Rightarrow> u64 list" where
  "freed cs = concat (map (\<lambda>c. case c of Free b \<Rightarrow> [b] | _ \<Rightarrow> []) cs)"

lemma written_simps [simp]: "written fd [] = []" "written fd (cs @ ds) = written fd cs @ written fd ds"
  "written fd [Write fd b] = b" "written fd [Free a] = []" "written fd [Log t] = []" "written fd [Close f] = []"
  by (simp_all add: written_def)

lemma freed_simps [simp]: "freed [] = []" "freed (cs @ ds) = freed cs @ freed ds"
  "freed [Write f b] = []" "freed [Free a] = [a]" "freed [Log t] = []" "freed [Close f] = []"
  by (simp_all add: freed_def)

text \<open>A buffer of a plain (not a user) object.\<close>

definition wb_ok :: "write_buffer \<Rightarrow> bool" where
  "wb_ok wb \<longleftrightarrow> \<not> wb_userobject wb \<and> wb_base wb = wb_buffer wb \<and> wb_ptr wb \<le> length (wb_data wb) \<and>
     wb_sz wb = length (wb_data wb) - wb_ptr wb \<and> length (wb_data wb) < 2 ^ 64"

definition wb_msg :: "write_buffer \<Rightarrow> u64 \<times> bytes" where
  "wb_msg wb = (wb_buffer wb, wb_data wb)"

text \<open>What is already written of the first buffer of a queue.\<close>

definition progress :: "write_buffer list \<Rightarrow> bytes" where
  "progress q = (case q of [] \<Rightarrow> [] | wb # _ \<Rightarrow> take (wb_ptr wb) (wb_data wb))"

definition queue_ok :: "write_buffer list \<Rightarrow> bool" where
  "queue_ok q \<longleftrightarrow> (\<forall>wb \<in> set q. wb_ok wb) \<and> (\<forall>wb \<in> set (tl q). wb_ptr wb = 0)"

text \<open>
  \<open>acc\<close> are the messages sent so far, \<open>dn\<close> the ones written and freed, \<open>H\<close> and \<open>L\<close> the ones in the two
  lists; a low message can be in the high list.
\<close>

definition order_ok :: "sent_message list \<Rightarrow> sent_message list \<Rightarrow> sent_message list \<Rightarrow> sent_message list \<Rightarrow> bool" where
  "order_ok acc dn H L \<longleftrightarrow> filter fst (dn @ H) = filter fst acc \<and>
     filter (\<lambda>m. \<not> fst m) (dn @ H @ L) = filter (\<lambda>m. \<not> fst m) acc \<and> (\<forall>m \<in> set L. \<not> fst m)"

definition stream_inv :: "sys_call list \<Rightarrow> socket \<Rightarrow> sent_message list \<Rightarrow> u64 list \<Rightarrow> sent_message list \<Rightarrow> sent_message list \<Rightarrow> sent_message list \<Rightarrow> bool" where
  "stream_inv out s acc X dn H L \<longleftrightarrow> queue_ok (s_high s @ s_low s) \<and> order_ok acc dn H L \<and>
     map wb_msg (s_high s) = map snd H \<and> map wb_msg (s_low s) = map snd L \<and>
     written (s_fd s) out = concat (map (\<lambda>m. snd (snd m)) dn) @ progress (s_high s @ s_low s) \<and>
     mset (freed out) = mset (map (\<lambda>m. fst (snd m)) dn) + mset X \<and>
     s_wb_size s = int (sum_list (map wb_sz (s_high s @ s_low s)))"

text \<open>What does not change while a socket is open.\<close>

definition same_socket :: "socket \<Rightarrow> socket \<Rightarrow> bool" where
  "same_socket s s' \<longleftrightarrow> s_fd s' = s_fd s \<and> s_id s' = s_id s \<and> s_type s' = s_type s \<and> s_protocol s' = s_protocol s \<and>
     s_opaque s' = s_opaque s"

lemma same_refl [simp]: "same_socket s s"
  by (simp add: same_socket_def)

lemma same_trans: "same_socket s t \<Longrightarrow> same_socket t u \<Longrightarrow> same_socket s u"
  by (simp add: same_socket_def)

text \<open>The socket is open: it can be closed without a failed assertion.\<close>

definition open_type :: "nat \<Rightarrow> bool" where
  "open_type t \<longleftrightarrow> t \<noteq> SOCKET_TYPE_INVALID \<and> t \<noteq> SOCKET_TYPE_RESERVE"

lemma order_mset:
  assumes "order_ok acc dn H L"
  shows "mset (dn @ H @ L) = mset acc"
proof -
  have part: "mset xs = mset (filter fst xs) + mset (filter (\<lambda>m. \<not> fst m) xs)" for xs :: "sent_message list"
    by (induction xs) auto
  have "filter fst (dn @ H @ L) = filter fst (dn @ H)" using assms by (auto simp: order_ok_def filter_empty_conv)
  then have "filter fst (dn @ H @ L) = filter fst acc" "filter (\<lambda>m. \<not> fst m) (dn @ H @ L) = filter (\<lambda>m. \<not> fst m) acc"
    using assms by (simp_all only: order_ok_def)
  then show ?thesis using part [of "dn @ H @ L"] part [of acc] by (simp only:)
qed

section \<open>Closing\<close>

lemma free_list_out:
  "\<forall>wb \<in> set q. \<not> wb_userobject wb \<Longrightarrow>
     free_wb_list io q = io\<lparr>io_out := io_out io @ map (\<lambda>wb. Free (wb_buffer wb)) q\<rparr>"
  by (induction q arbitrary: io) (simp_all add: free_wb_list_def write_buffer_free_def free_func_def call_def)

lemma written_frees: "written fd (map (\<lambda>wb. Free (wb_buffer wb)) q) = []"
  by (induction q) (simp_all add: written_def)

lemma freed_map: "freed (map (\<lambda>wb. Free (wb_buffer wb)) q) = map wb_buffer q"
  by (induction q) (simp_all add: freed_def)

text \<open>
  What of the messages \<open>acc\<close> the peer gets: some of them, of each priority the first ones in their order,
  and of one more a prefix.
\<close>

definition same_order :: "sent_message list \<Rightarrow> sent_message list \<Rightarrow> bool" where
  "same_order xs acc \<longleftrightarrow> filter fst xs = filter fst acc \<and> filter (\<lambda>m. \<not> fst m) xs = filter (\<lambda>m. \<not> fst m) acc"

definition delivers :: "bytes \<Rightarrow> sent_message list \<Rightarrow> bool" where
  "delivers w acc \<longleftrightarrow> (\<exists>dn rest x. same_order (dn @ rest) acc \<and> w = concat (map (\<lambda>m. snd (snd m)) dn) @ x \<and>
     prefix x (case rest of [] \<Rightarrow> [] | m # _ \<Rightarrow> snd (snd m)))"

lemma order_same: "order_ok acc dn H L \<Longrightarrow> same_order (dn @ H @ L) acc"
  unfolding order_ok_def same_order_def by (auto simp: filter_empty_conv)

lemma inv_delivers:
  assumes "stream_inv out s acc X dn H L"
  shows "delivers (written (s_fd s) out) acc"
proof -
  have m: "map wb_msg (s_high s @ s_low s) = map snd (H @ L)" using assms by (simp add: stream_inv_def)
  have "prefix (progress (s_high s @ s_low s)) (case H @ L of [] \<Rightarrow> [] | m # _ \<Rightarrow> snd (snd m))"
  proof (cases "s_high s @ s_low s")
    case (Cons wb q)
    then obtain m r where "H @ L = m # r" "snd m = wb_msg wb" using m by (cases "H @ L") auto
    then show ?thesis using Cons by (simp add: progress_def wb_msg_def take_is_prefix)
  qed (simp add: progress_def)
  moreover have "same_order (dn @ H @ L) acc" using assms order_same by (simp add: stream_inv_def)
  ultimately show ?thesis using assms unfolding delivers_def stream_inv_def by blast
qed

definition closed_ok :: "sys_call list \<Rightarrow> socket \<Rightarrow> sent_message list \<Rightarrow> u64 list \<Rightarrow> bool" where
  "closed_ok out s acc X \<longleftrightarrow> s_type s = SOCKET_TYPE_INVALID \<and> s_high s = [] \<and> s_low s = [] \<and>
     mset (freed out) = mset (map (\<lambda>m. fst (snd m)) acc) + mset X \<and> delivers (written (s_fd s) out) acc"

lemma msg_buffers: "map wb_msg q = map snd H \<Longrightarrow> map wb_buffer q = map (\<lambda>m. fst (snd m)) H"
proof -
  assume "map wb_msg q = map snd H"
  then have "map fst (map wb_msg q) = map fst (map snd H)" by simp
  then show ?thesis by (simp add: wb_msg_def comp_def)
qed

lemma close_stream:
  assumes "stream_inv (io_out io) s acc X dn H L" "open_type (s_type s)"
  shows "\<exists>io' s' m. force_close io s = Done (io', s', m) \<and> closed_ok (io_out io') s' acc X \<and>
    m_id m = s_id s \<and> m_opaque m = s_opaque s"
proof -
  have u: "\<forall>wb \<in> set (s_high s). \<not> wb_userobject wb" "\<forall>wb \<in> set (s_low s). \<not> wb_userobject wb"
    using assms(1) by (auto simp: stream_inv_def queue_ok_def wb_ok_def)
  have f: "mset (freed (io_out io)) = mset (map (\<lambda>m. fst (snd m)) dn) + mset X" using assms(1) by (simp add: stream_inv_def)
  have w: "delivers (written (s_fd s) (io_out io)) acc" using inv_delivers [OF assms(1)] .
  have "map wb_msg (s_high s) = map snd H" "map wb_msg (s_low s) = map snd L" using assms(1) by (simp_all add: stream_inv_def)
  note b = this [THEN msg_buffers]
  have "mset (dn @ H @ L) = mset acc" using assms(1) order_mset by (simp add: stream_inv_def)
  then have "image_mset (\<lambda>m. fst (snd m)) (mset (dn @ H @ L)) = image_mset (\<lambda>m. fst (snd m)) (mset acc)" by simp
  then have m: "mset (map (\<lambda>m. fst (snd m)) dn @ map wb_buffer (s_high s) @ map wb_buffer (s_low s)) = mset (map (\<lambda>m. fst (snd m)) acc)"
    by (simp add: b)
  show ?thesis using assms(2) m u w
    by (auto simp: force_close_def open_type_def Let_def free_list_out closed_ok_def call_def sp_del_def f freed_map written_frees)
qed

section \<open>Writing\<close>

lemma get_set_list [simp]: "get_list hi (set_list hi q s) = q"
  by (simp add: get_list_def set_list_def)

lemma set_list_fields [simp]: "s_fd (set_list hi q s) = s_fd s" "s_id (set_list hi q s) = s_id s"
  "s_type (set_list hi q s) = s_type s" "s_protocol (set_list hi q s) = s_protocol s" "s_opaque (set_list hi q s) = s_opaque s"
  "s_wb_size (set_list hi q s) = s_wb_size s"
  by (simp_all add: set_list_def)

text \<open>Some more bytes of the first buffer are written.\<close>

lemma write_part:
  assumes inv: "stream_inv out s acc X dn H L" and q: "get_list hi s = tmp # rest" "hi \<or> s_high s = []"
    and sz: "sz \<le> wb_sz tmp"
  shows "stream_inv (out @ [Write (s_fd s) (take sz (drop (wb_ptr tmp) (wb_data tmp)))])
    (set_list hi (tmp\<lparr>wb_ptr := wb_ptr tmp + sz, wb_sz := wb_sz tmp - sz\<rparr> # rest) (s\<lparr>s_wb_size := s_wb_size s - int sz\<rparr>)) acc X dn H L"
proof -
  let ?tmp = "tmp\<lparr>wb_ptr := wb_ptr tmp + sz, wb_sz := wb_sz tmp - sz\<rparr>"
  let ?s = "set_list hi (?tmp # rest) (s\<lparr>s_wb_size := s_wb_size s - int sz\<rparr>)"
  obtain tl where Q: "s_high s @ s_low s = tmp # tl" "s_high ?s @ s_low ?s = ?tmp # tl"
    using q by (cases hi) (simp_all add: get_list_def set_list_def)
  have ok: "wb_ok tmp" using inv Q(1) unfolding stream_inv_def queue_ok_def by (metis list.set_intros(1))
  then have "wb_ok ?tmp" using sz by (auto simp: wb_ok_def)
  then have "queue_ok (?tmp # tl)" using inv unfolding stream_inv_def Q(1) by (simp add: queue_ok_def)
  moreover have "progress (tmp # tl) @ take sz (drop (wb_ptr tmp) (wb_data tmp)) = progress (?tmp # tl)"
    by (simp add: progress_def take_add)
  moreover have "map wb_msg (s_high ?s) = map wb_msg (s_high s)" "map wb_msg (s_low ?s) = map wb_msg (s_low s)"
    using q by (auto simp: get_list_def set_list_def wb_msg_def)
  moreover have "int (sum_list (map wb_sz (?tmp # tl))) = int (sum_list (map wb_sz (tmp # tl))) - int sz"
    using sz by simp
  ultimately show ?thesis using inv unfolding stream_inv_def Q by simp
qed

text \<open>The first buffer is written, removed and freed.\<close>

lemma pop_buffer:
  assumes inv: "stream_inv out s acc X dn H L" and q: "get_list hi s = tmp # rest" "hi \<or> s_high s = []"
    and w: "wb_sz tmp = 0"
  shows "\<exists>dn' H' L'. stream_inv (out @ [Free (wb_buffer tmp)]) (set_list hi rest s) acc X dn' H' L'"
proof -
  let ?s = "set_list hi rest s"
  obtain tl where Q: "s_high s @ s_low s = tmp # tl" "s_high ?s @ s_low ?s = tl"
    using q by (cases hi) (simp_all add: get_list_def set_list_def)
  have qo: "queue_ok (tmp # tl)" using inv unfolding stream_inv_def Q(1) by blast
  then have full: "take (wb_ptr tmp) (wb_data tmp) = wb_data tmp" using w by (simp add: queue_ok_def wb_ok_def)
  have q': "queue_ok tl" "progress tl = []"
    using qo by (cases tl; simp add: queue_ok_def progress_def)+
  obtain m H' L' where d: "order_ok acc (dn @ [m]) H' L'" "map wb_msg (s_high ?s) = map snd H'" "map wb_msg (s_low ?s) = map snd L'"
    "snd m = wb_msg tmp"
  proof (cases hi)
    case True
    then obtain m H' where "H = m # H'" "snd m = wb_msg tmp" "map wb_msg rest = map snd H'"
      using inv q by (auto simp: stream_inv_def get_list_def)
    then show ?thesis using that [of m H' L] inv True by (simp add: stream_inv_def set_list_def order_ok_def)
  next
    case False
    then obtain m L' where m: "L = m # L'" "snd m = wb_msg tmp" "map wb_msg rest = map snd L'" "H = []"
      using inv q by (auto simp: stream_inv_def get_list_def)
    then have "\<not> fst m" "\<forall>m \<in> set L'. \<not> fst m" using inv by (simp_all add: stream_inv_def order_ok_def)
    then show ?thesis using that [of m "[]" L'] inv False m q by (simp add: stream_inv_def set_list_def order_ok_def)
  qed
  have "written (s_fd s) out = concat (map (\<lambda>m. snd (snd m)) (dn @ [m])) @ progress tl"
    using inv d(4) unfolding stream_inv_def Q(1) by (simp add: q'(2)) (simp add: progress_def full wb_msg_def)
  moreover have "mset (freed (out @ [Free (wb_buffer tmp)])) = mset (map (\<lambda>m. fst (snd m)) (dn @ [m])) + mset X"
    using inv d(4) by (simp add: stream_inv_def wb_msg_def)
  moreover have "s_wb_size s = int (sum_list (map wb_sz tl))"
    using inv unfolding stream_inv_def Q(1) by (simp add: w)
  ultimately have "stream_inv (out @ [Free (wb_buffer tmp)]) ?s acc X (dn @ [m]) H' L'"
    using d(1-3) q'(1) unfolding stream_inv_def Q(2) by simp
  then show ?thesis by blast
qed

definition streaming :: "sys_call list \<Rightarrow> socket \<Rightarrow> sent_message list \<Rightarrow> u64 list \<Rightarrow> bool" where
  "streaming out s acc X \<longleftrightarrow> (\<exists>dn H L. stream_inv out s acc X dn H L)"

lemma streamingI: "stream_inv out s acc X dn H L \<Longrightarrow> streaming out s acc X"
  by (auto simp: streaming_def)

text \<open>The result of an operation on an open stream: it stays one, or the socket is closed.\<close>

definition stream_result :: "sent_message list \<Rightarrow> u64 list \<Rightarrow> socket \<Rightarrow> netio \<times> socket \<times> report \<Rightarrow> bool" where
  "stream_result acc X s = (\<lambda>(io', s', r). case r of
     None \<Rightarrow> streaming (io_out io') s' acc X \<and> same_socket s s'
   | Some (t, m) \<Rightarrow> t = SS_CLOSE \<and> closed_ok (io_out io') s' acc X \<and> m_id m = s_id s \<and> m_opaque m = s_opaque s)"

lemma result_trans: "stream_result acc X t x \<Longrightarrow> same_socket s t \<Longrightarrow> stream_result acc X s x"
  by (auto simp: stream_result_def same_socket_def split: option.splits)

lemma close_result:
  assumes "stream_inv (io_out io) s acc X dn H L" "open_type (s_type s)" "same_socket s0 s"
  shows "run_ok (stream_result acc X s0) (rbind (force_close io s) (\<lambda>(io, s, result). Done (io, s, Some (SS_CLOSE, result))))"
  using close_stream [OF assms(1,2)] assms(3) by (auto simp: stream_result_def same_socket_def)

lemma io_out_in [simp]: "io_out (io\<lparr>io_in := rs\<rparr>) = io_out io"
  by simp

lemma send_tcp:
  "stream_inv (io_out io) s acc X dn H L \<Longrightarrow> open_type (s_type s) \<Longrightarrow> hi \<or> s_high s = [] \<Longrightarrow>
     run_ok (\<lambda>(io', s', r). stream_result acc X s (io', s', r) \<and>
       (r = None \<longrightarrow> io_poll io' = io_poll io \<and> (if hi then s_low s' = s_low s else s_high s' = [])))
     (send_list_tcp io s hi)"
proof (induction io s hi arbitrary: dn H L rule: send_list_tcp.induct)
  case (1 io s hi)
  show ?case
  proof (cases "get_list hi s")
    case Nil
    then show ?thesis using streamingI [OF 1(3)] 1(5) by (auto simp: send_list_tcp.simps [of io s] stream_result_def get_list_def)
  next
    case q: (Cons tmp rest)
    show ?thesis
    proof (cases "io_in io")
      case Nil
      then show ?thesis by (simp add: send_list_tcp.simps [of io s] q)
    next
      case i: (Cons r rs)
      note inv = 1(3) and ot = 1(4) and h = 1(5)
      let ?io = "io\<lparr>io_in := rs\<rparr>"
      show ?thesis
      proof (cases r)
        case r: (Ret n)
        let ?sz = "min n (wb_sz tmp)"
        let ?w = "call ?io (Write (s_fd s) (take ?sz (drop (wb_ptr tmp) (wb_data tmp))))"
        let ?s = "s\<lparr>s_wb_size := s_wb_size s - int ?sz\<rparr>"
        let ?tmp = "tmp\<lparr>wb_ptr := wb_ptr tmp + ?sz, wb_sz := wb_sz tmp - ?sz\<rparr>"
        have part: "stream_inv (io_out ?w) (set_list hi (?tmp # rest) ?s) acc X dn H L"
          using write_part [OF inv q h, of ?sz] by (simp add: call_def)
        show ?thesis
        proof (cases "?sz = wb_sz tmp")
          case False
          then show ?thesis using streamingI [OF part] h
            by (auto simp: send_list_tcp.simps [of io s] q i r Let_def stream_result_def same_socket_def set_list_def call_def)
        next
          case True
          have h': "hi \<or> s_high (set_list hi (?tmp # rest) ?s) = []" using h by (auto simp: set_list_def)
          obtain dn' H' L' where
            "stream_inv (io_out ?w @ [Free (wb_buffer ?tmp)]) (set_list hi rest (set_list hi (?tmp # rest) ?s)) acc X dn' H' L'"
            using pop_buffer [OF part _ h', of ?tmp rest] True by auto
          moreover have "set_list hi rest (set_list hi (?tmp # rest) ?s) = set_list hi rest ?s"
            by (simp add: set_list_def)
          moreover have "\<not> wb_userobject tmp"
            using inv q by (cases hi) (auto simp: stream_inv_def queue_ok_def wb_ok_def get_list_def)
          then have "io_out (write_buffer_free ?w tmp) = io_out ?w @ [Free (wb_buffer ?tmp)]"
            by (simp add: write_buffer_free_def free_func_def call_def)
          ultimately have inv': "stream_inv (io_out (write_buffer_free ?w tmp)) (set_list hi rest ?s) acc X dn' H' L'"
            by simp
          have "hi \<or> s_high (set_list hi rest ?s) = []" using h by (auto simp: set_list_def)
          note ih = 1(1) [OF q i refl r refl refl refl _ inv' _ this]
          have "run_ok (\<lambda>(io', s', r). stream_result acc X (set_list hi rest ?s) (io', s', r) \<and>
              (r = None \<longrightarrow> io_poll io' = io_poll (write_buffer_free ?w tmp) \<and>
                (if hi then s_low s' = s_low (set_list hi rest ?s) else s_high s' = [])))
            (send_list_tcp (write_buffer_free ?w tmp) (set_list hi rest ?s) hi)"
            using ih True ot by simp
          moreover have "send_list_tcp io s hi = send_list_tcp (write_buffer_free ?w tmp) (set_list hi rest ?s) hi"
            using True by (simp add: send_list_tcp.simps [of io s] q i r Let_def)
          moreover have "same_socket s (set_list hi rest ?s)" by (simp add: same_socket_def)
          moreover have "io_poll (write_buffer_free ?w tmp) = io_poll io"
            by (simp add: write_buffer_free_def free_func_def call_def)
          moreover have "hi \<Longrightarrow> s_low (set_list hi rest ?s) = s_low s" by (simp add: set_list_def)
          ultimately show ?thesis by (auto elim!: run_ok_mono intro: result_trans)
        qed
      next
        case r: (Errno e)
        have c: "run_ok (\<lambda>(io', s', r). stream_result acc X s (io', s', r) \<and>
            (r = None \<longrightarrow> io_poll io' = io_poll io \<and> (if hi then s_low s' = s_low s else s_high s' = [])))
          (rbind (force_close ?io s) (\<lambda>(io, s, result). Done (io, s, Some (SS_CLOSE, result))))"
          using close_stream [of ?io, OF _ ot] inv by (fastforce simp: stream_result_def)
        have "stream_inv (io_out ?io) s acc X dn H L" using inv by simp
        from 1(2) [OF q i refl r _ this ot h] c show ?thesis using streamingI [OF inv] h
          by (cases e) (auto simp: send_list_tcp.simps [of io s] q i r stream_result_def)
      qed (simp_all add: send_list_tcp.simps [of io s] q i)
    qed
  qed
qed

section \<open>Rounds of writing\<close>

lemma uncomplete_iff: "wb_ok wb \<Longrightarrow> list_uncomplete (wb # q) \<longleftrightarrow> wb_ptr wb \<noteq> 0"
proof -
  assume ok: "wb_ok wb"
  then have "wb_ptr wb < 2 ^ 64" by (simp add: wb_ok_def)
  then have "(of_nat (wb_ptr wb) :: u64) = 0 \<longleftrightarrow> wb_ptr wb = 0"
    by (auto simp: word_of_nat_eq_0_iff dest: dvd_imp_le)
  then show ?thesis using ok by (simp add: list_uncomplete_def wb_ok_def)
qed

definition low_fresh :: "socket \<Rightarrow> bool" where
  "low_fresh s \<longleftrightarrow> (\<forall>wb \<in> set (s_low s). wb_ptr wb = 0)"

lemma raise_stream:
  assumes inv: "stream_inv out s acc X dn H L" and "s_high s = []" "s_low s = wb # q"
  shows "\<exists>s'. raise_uncomplete s = Done s' \<and> streaming out s' acc X \<and> same_socket s s' \<and> low_fresh s' \<and> s_high s' \<noteq> []"
proof -
  obtain m L' where L: "L = m # L'" "snd m = wb_msg wb" "map wb_msg q = map snd L'" "H = []" "\<not> fst m"
    using inv assms(2,3) by (auto simp: stream_inv_def order_ok_def)
  let ?s = "s\<lparr>s_low := q, s_high := [wb]\<rparr>"
  have "stream_inv out ?s acc X dn [m] L'"
  proof -
    have "order_ok acc dn [] (m # L')" using inv L by (simp add: stream_inv_def)
    then have "order_ok acc dn [m] L'" by (auto simp: order_ok_def)
    then show ?thesis using inv assms(2,3) L by (simp add: stream_inv_def)
  qed
  moreover have "low_fresh ?s" using inv assms(2,3) by (simp add: stream_inv_def queue_ok_def low_fresh_def)
  ultimately show ?thesis using assms(2,3)
    by (auto simp: raise_uncomplete_def same_socket_def intro: streamingI)
qed

text \<open>An open TCP stream on a slot: what has to be written is waited for.\<close>

definition waits :: "nat \<Rightarrow> netio \<Rightarrow> socket \<Rightarrow> bool" where
  "waits i io s \<longleftrightarrow> (\<exists>w. io_poll io (s_fd s) = Some (Some i, w) \<and>
     (s_high s \<noteq> [] \<or> s_low s \<noteq> [] \<or> s_type s = SOCKET_TYPE_HALFCLOSE \<longrightarrow> w))"

definition stream_open :: "nat \<Rightarrow> netio \<Rightarrow> socket \<Rightarrow> sent_message list \<Rightarrow> u64 list \<Rightarrow> bool" where
  "stream_open i io s acc X \<longleftrightarrow> streaming (io_out io) s acc X \<and> low_fresh s \<and> waits i io s \<and> s_protocol s = PROTOCOL_TCP \<and>
     (s_type s = SOCKET_TYPE_CONNECTED \<or> s_type s = SOCKET_TYPE_HALFCLOSE)"

definition stream_state :: "nat \<Rightarrow> netio \<Rightarrow> socket \<Rightarrow> sent_message list \<Rightarrow> u64 list \<Rightarrow> bool" where
  "stream_state i io s acc X \<longleftrightarrow> stream_open i io s acc X \<or> closed_ok (io_out io) s acc X"

lemma open_types [simp]: "s_type s = SOCKET_TYPE_CONNECTED \<or> s_type s = SOCKET_TYPE_HALFCLOSE \<Longrightarrow> open_type (s_type s)"
  by (auto simp: open_type_def socket_type_defs)

lemma fresh_not_uncomplete: "streaming out s acc X \<Longrightarrow> low_fresh s \<Longrightarrow> \<not> list_uncomplete (s_low s)"
proof (cases "s_low s")
  case (Cons wb q)
  assume "streaming out s acc X" "low_fresh s"
  then have "wb_ok wb" "wb_ptr wb = 0" using Cons
    by (auto simp: streaming_def stream_inv_def queue_ok_def low_fresh_def)
  then show ?thesis using Cons uncomplete_iff by simp
qed (simp add: list_uncomplete_def)

lemma send_tcp':
  assumes "streaming (io_out io) s acc X" "open_type (s_type s)" "hi \<or> s_high s = []" "s_protocol s = PROTOCOL_TCP"
  shows "run_ok (\<lambda>(io', s', r). stream_result acc X s (io', s', r) \<and>
       (r = None \<longrightarrow> io_poll io' = io_poll io \<and> (if hi then s_low s' = s_low s else s_high s' = [])))
     (send_list io s hi)"
proof -
  obtain dn H L where "stream_inv (io_out io) s acc X dn H L" using assms(1) by (auto simp: streaming_def)
  from send_tcp [OF this assms(2,3)] show ?thesis using assms(4) by (simp add: send_list_def)
qed

lemma result_None [simp]: "stream_result acc X s (io', s', None) \<longleftrightarrow> streaming (io_out io') s' acc X \<and> same_socket s s'"
  by (simp add: stream_result_def)

lemma result_close: "stream_result acc X s (io', s', r) \<Longrightarrow> is_close r \<Longrightarrow> closed_ok (io_out io') s' acc X \<and> r \<noteq> None"
  by (cases r) (auto simp: stream_result_def is_close_def)

lemma result_open: "stream_result acc X s (io', s', r) \<Longrightarrow> \<not> is_close r \<Longrightarrow> r = None"
  by (cases r) (auto simp: stream_result_def is_close_def)

text \<open>The result of writing: the stream stays open, or it is closed and reported.\<close>

definition sent_ok :: "nat \<Rightarrow> nat \<Rightarrow> sent_message list \<Rightarrow> u64 list \<Rightarrow> netio \<times> socket \<times> report \<Rightarrow> bool" where
  "sent_ok i t acc X = (\<lambda>(io', s', r).
     if r = None then stream_open i io' s' acc X \<and> s_type s' = t
     else is_close r \<and> closed_ok (io_out io') s' acc X)"

lemma sent_simps [simp]:
  "sent_ok i t acc X (io', s', None) \<longleftrightarrow> stream_open i io' s' acc X \<and> s_type s' = t"
  "is_close r \<Longrightarrow> sent_ok i t acc X (io', s', r) \<longleftrightarrow> closed_ok (io_out io') s' acc X"
  by (cases r; auto simp: sent_ok_def)+

lemma send_low_stream:
  assumes "stream_open i io s acc X" "s_high s = []" "s_low s \<noteq> []"
  shows "run_ok (sent_ok i (s_type s) acc X) (send_low io s)"
proof -
  have st: "streaming (io_out io) s acc X" "waits i io s" "s_protocol s = PROTOCOL_TCP" "open_type (s_type s)"
    and ty: "s_type s = SOCKET_TYPE_CONNECTED \<or> s_type s = SOCKET_TYPE_HALFCLOSE"
    using assms by (simp_all add: stream_open_def)
  have w: "io_poll io (s_fd s) = Some (Some i, True)" using st(2) assms(3) by (auto simp: waits_def)
  have "run_ok (\<lambda>(io', s', r). stream_result acc X s (io', s', r) \<and>
      (r = None \<longrightarrow> io_poll io' = io_poll io \<and> s_high s' = [])) (send_list io s False)"
    using send_tcp' [of io s acc X False] st assms(2) by simp
  then show ?thesis
    unfolding send_low_def run_ok_bind
  proof (rule run_ok_mono, clarify)
    fix io1 s1 r
    assume res: "stream_result acc X s (io1, s1, r)" and fr: "r = None \<longrightarrow> io_poll io1 = io_poll io \<and> s_high s1 = []"
    show "run_ok (sent_ok i (s_type s) acc X) (if is_close r then Done (io1, s1, r)
       else if list_uncomplete (s_low s1) then rbind (raise_uncomplete s1) (\<lambda>s. Done (io1, s, None))
       else Done (io1, s1, None))"
    proof (cases "is_close r")
      case True
      then show ?thesis using result_close [OF res] by (auto simp: sent_ok_def)
    next
      case False
      then have r: "r = None" using result_open [OF res] by simp
      then obtain dn H L where inv: "stream_inv (io_out io1) s1 acc X dn H L" "same_socket s s1"
        using res by (auto simp: streaming_def)
      have ok: "stream_open i io1 s2 acc X \<and> s_type s2 = s_type s"
        if "streaming (io_out io1) s2 acc X" "same_socket s s2" "low_fresh s2" for s2
        using that w r fr st(3) ty by (auto simp: stream_open_def waits_def same_socket_def intro!: exI [of _ True])
      show ?thesis
      proof (cases "list_uncomplete (s_low s1)")
        case True
        then obtain wb q where "s_low s1 = wb # q" by (cases "s_low s1") (auto simp: list_uncomplete_def)
        then obtain s2 where "raise_uncomplete s1 = Done s2" "streaming (io_out io1) s2 acc X" "same_socket s1 s2" "low_fresh s2"
          using raise_stream [OF inv(1)] fr r by blast
        then show ?thesis using True r ok same_trans [OF inv(2)] by (simp add: sent_ok_def)
      next
        case False
        have "queue_ok (s_low s1)" using inv(1) fr r by (simp add: stream_inv_def)
        then have "low_fresh s1" using False uncomplete_iff
          by (cases "s_low s1") (auto simp: queue_ok_def low_fresh_def)
        then show ?thesis using False r ok inv streamingI [OF inv(1)] by (simp add: sent_ok_def)
      qed
    qed
  qed
qed

lemma check_close_stream:
  assumes "stream_open i io s acc X" "s_high s = []" "s_low s = []"
  shows "run_ok (sent_ok i (s_type s) acc X) (check_close io i s)"
proof -
  obtain dn H L where inv: "stream_inv (io_out io) s acc X dn H L" using assms(1) by (auto simp: stream_open_def streaming_def)
  let ?io = "sp_write io (s_fd s) (Some i) False"
  have o: "io_out ?io = io_out io" by (simp add: sp_write_def)
  have "io_poll ?io (s_fd s) = Some (Some i, False)"
    using assms(1) by (auto simp: stream_open_def waits_def sp_write_def)
  then show ?thesis using close_stream [of ?io s acc X dn H L] inv assms o
    by (auto simp: check_close_def sent_ok_def Let_def stream_open_def waits_def intro: streamingI)
qed

lemma high_stream:
  assumes "stream_open i io s acc X"
  shows "run_ok (\<lambda>(io', s', r). if is_close r then r \<noteq> None \<and> closed_ok (io_out io') s' acc X
    else stream_open i io' s' acc X \<and> s_type s' = s_type s) (send_list io s True)"
proof -
  have st: "streaming (io_out io) s acc X" "low_fresh s" "waits i io s" "s_protocol s = PROTOCOL_TCP" "open_type (s_type s)"
    and ty: "s_type s = SOCKET_TYPE_CONNECTED \<or> s_type s = SOCKET_TYPE_HALFCLOSE"
    using assms by (simp_all add: stream_open_def)
  have "run_ok (\<lambda>(io', s', r). stream_result acc X s (io', s', r) \<and>
       (r = None \<longrightarrow> io_poll io' = io_poll io \<and> s_low s' = s_low s \<and> (s_high s = [] \<longrightarrow> s_high s' = []))) (send_list io s True)"
  proof (cases "s_high s = []")
    case True
    then show ?thesis using st(1,4) by (simp add: send_list_def send_list_tcp.simps [of io s] get_list_def)
  next
    case False
    then show ?thesis using send_tcp' [of io s acc X True] st by simp
  qed
  then show ?thesis
  proof (rule run_ok_mono, clarify)
    fix io1 s1 r
    assume res: "stream_result acc X s (io1, s1, r)" and fr: "r = None \<longrightarrow> io_poll io1 = io_poll io \<and> s_low s1 = s_low s \<and>
      (s_high s = [] \<longrightarrow> s_high s1 = [])"
    show "if is_close r then r \<noteq> None \<and> closed_ok (io_out io1) s1 acc X else stream_open i io1 s1 acc X \<and> s_type s1 = s_type s"
    proof (cases "is_close r")
      case True
      then show ?thesis using result_close [OF res] by auto
    next
      case False
      then have r: "r = None" using result_open [OF res] by simp
      then show ?thesis using res fr st ty by (auto simp: stream_open_def same_socket_def waits_def low_fresh_def)
    qed
  qed
qed

lemma send_buffer_stream:
  assumes "stream_open i io s acc X"
  shows "run_ok (sent_ok i (s_type s) acc X) (send_buffer io i s)"
proof -
  have "\<not> list_uncomplete (s_low s)" using assms fresh_not_uncomplete by (auto simp: stream_open_def)
  moreover have "run_ok (\<lambda>x. run_ok (sent_ok i (s_type s) acc X) (case x of (io, s, r) \<Rightarrow>
        if is_close r then Done (io, s, r)
        else if s_high s \<noteq> [] then Done (io, s, None)
        else if s_low s \<noteq> [] then send_low io s
        else check_close io i s)) (send_list io s True)"
  proof (rule run_ok_mono [OF high_stream [OF assms]], clarify)
    fix io1 s1 r
    assume h: "if is_close r then r \<noteq> None \<and> closed_ok (io_out io1) s1 acc X else stream_open i io1 s1 acc X \<and> s_type s1 = s_type s"
    show "run_ok (sent_ok i (s_type s) acc X)
        (if is_close r then Done (io1, s1, r)
         else if s_high s1 \<noteq> [] then Done (io1, s1, None)
         else if s_low s1 \<noteq> [] then send_low io1 s1
         else check_close io1 i s1)"
      using h send_low_stream [of i io1 s1 acc X] check_close_stream [of i io1 s1 acc X]
      by (auto split: if_splits)
  qed
  ultimately show ?thesis by (simp add: send_buffer_def)
qed

section \<open>Requests\<close>

text \<open>A request to send a plain buffer: the message that it is.\<close>

definition plain_request :: "request_send \<Rightarrow> bool" where
  "plain_request rq \<longleftrightarrow> 0 \<le> rs_sz rq \<and> rs_sz rq < 2 ^ 31 \<and> rs_sz rq \<le> int (length (rs_data rq))"

definition request_msg :: "request_send \<Rightarrow> bool \<Rightarrow> sent_message" where
  "request_msg rq hi = (hi, rs_buffer rq, take (nat (rs_sz rq)) (rs_data rq))"

lemma plain_object: "plain_request rq \<Longrightarrow>
    send_object_init soi rq = (False, rs_buffer rq, take (nat (rs_sz rq)) (rs_data rq))"
  by (simp add: plain_request_def send_object_init_def)

lemma order_append:
  assumes "order_ok acc dn H L"
  shows "hi \<Longrightarrow> order_ok (acc @ [(hi, m)]) dn (H @ [(hi, m)]) L"
    "\<not> hi \<Longrightarrow> order_ok (acc @ [(hi, m)]) dn H (L @ [(hi, m)])"
    "H = [] \<Longrightarrow> L = [] \<Longrightarrow> order_ok (acc @ [(hi, m)]) dn [(hi, m)] []"
    "H = [] \<Longrightarrow> L = [] \<Longrightarrow> order_ok (acc @ [(hi, m)]) (dn @ [(hi, m)]) [] []"
proof -
  have l: "filter fst L = []" "filter (\<lambda>m. \<not> fst m) L = L" using assms by (auto simp: order_ok_def filter_empty_conv filter_id_conv)
  show "hi \<Longrightarrow> order_ok (acc @ [(hi, m)]) dn (H @ [(hi, m)]) L"
    "\<not> hi \<Longrightarrow> order_ok (acc @ [(hi, m)]) dn H (L @ [(hi, m)])"
    "H = [] \<Longrightarrow> L = [] \<Longrightarrow> order_ok (acc @ [(hi, m)]) dn [(hi, m)] []"
    "H = [] \<Longrightarrow> L = [] \<Longrightarrow> order_ok (acc @ [(hi, m)]) (dn @ [(hi, m)]) [] []"
    using assms by (auto simp: order_ok_def l)
qed

lemma append_fields [simp]:
  "s_fd (append_sendbuffer soi s rq n) = s_fd s" "s_protocol (append_sendbuffer soi s rq n) = s_protocol s"
  "s_type (append_sendbuffer soi s rq n) = s_type s" "s_low (append_sendbuffer soi s rq n) = s_low s"
  "s_fd (append_sendbuffer_low soi s rq) = s_fd s" "s_protocol (append_sendbuffer_low soi s rq) = s_protocol s"
  "s_type (append_sendbuffer_low soi s rq) = s_type s"
  by (simp_all add: append_sendbuffer_def append_sendbuffer_low_def append_wb_def Let_def split: prod.split)

lemma append_fresh [simp]: "low_fresh (append_sendbuffer soi s rq n) \<longleftrightarrow> low_fresh s"
  "low_fresh (append_sendbuffer_low soi s rq) \<longleftrightarrow> low_fresh s"
  by (auto simp: low_fresh_def append_sendbuffer_low_def append_wb_def Let_def split: prod.split)

text \<open>A message is put behind the ones that wait.\<close>

lemma append_stream:
  assumes inv: "stream_inv out s acc X dn H L" and rq: "plain_request rq" and fresh: "low_fresh s"
  shows "\<exists>H' L'. stream_inv out (if hi then append_sendbuffer soi s rq 0 else append_sendbuffer_low soi s rq)
    (acc @ [request_msg rq hi]) X dn H' L'"
proof -
  let ?d = "take (nat (rs_sz rq)) (rs_data rq)"
  let ?wb = "\<lparr>wb_buffer = rs_buffer rq, wb_base = rs_buffer rq, wb_data = ?d, wb_ptr = 0, wb_sz = length ?d,
    wb_userobject = False, wb_udp_address = []\<rparr>"
  have "length ?d \<le> nat (rs_sz rq)" by simp
  also have "\<dots> < 2 ^ 64" using rq by (simp add: plain_request_def nat_less_iff)
  finally have d: "length ?d < 2 ^ 64" .
  have ok: "wb_ok ?wb" "wb_ptr ?wb = 0" "wb_msg ?wb = snd (request_msg rq hi)" using d
    by (simp_all add: wb_ok_def wb_msg_def request_msg_def)
  have low: "\<forall>wb \<in> set (s_low s). wb_ptr wb = 0" using fresh by (simp add: low_fresh_def)
  have p: "progress (q @ ?wb # r) = progress (q @ r)" "queue_ok (q @ r) \<Longrightarrow> queue_ok (q @ ?wb # r)"
    if "\<forall>wb \<in> set r. wb_ptr wb = 0" for q r
    using that ok(1) by (cases q; cases r; auto simp: progress_def queue_ok_def)+
  note o = inv [unfolded stream_inv_def, THEN conjunct2, THEN conjunct1, THEN order_append(1)]
    inv [unfolded stream_inv_def, THEN conjunct2, THEN conjunct1, THEN order_append(2)]
  show ?thesis
  proof (cases hi)
    case True
    have "stream_inv out (s\<lparr>s_high := s_high s @ [?wb], s_wb_size := s_wb_size s + int (length ?d)\<rparr>)
        (acc @ [request_msg rq hi]) X dn (H @ [request_msg rq hi]) L"
      using inv p [OF low, of "s_high s"] ok(3) o(1) True unfolding stream_inv_def by (simp add: request_msg_def)
    then show ?thesis using True by (auto simp: append_sendbuffer_def append_wb_def plain_object [OF rq] Let_def)
  next
    case False
    have "stream_inv out (s\<lparr>s_low := s_low s @ [?wb], s_wb_size := s_wb_size s + int (length ?d)\<rparr>)
        (acc @ [request_msg rq hi]) X dn H (L @ [request_msg rq hi])"
      using inv p [of "[]" "s_high s @ s_low s"] ok(3) o(2) False unfolding stream_inv_def by (simp add: request_msg_def)
    then show ?thesis using False by (auto simp: append_sendbuffer_low_def append_wb_def plain_object [OF rq] Let_def)
  qed
qed

text \<open>A message is written at once, in part or whole.\<close>

lemma stream_empty:
  "stream_inv out s acc X dn H L \<Longrightarrow> send_buffer_empty s \<Longrightarrow> H = [] \<and> L = []"
  by (simp add: stream_inv_def send_buffer_empty_def)

lemma send_part:
  assumes inv: "stream_inv out s acc X dn [] []" and rq: "plain_request rq" and e: "send_buffer_empty s"
    and w: "written (s_fd s) w = take n (snd (snd (request_msg rq hi)))" "freed w = []"
    and n: "n \<le> length (snd (snd (request_msg rq hi)))"
  shows "stream_inv (out @ w) (append_sendbuffer soi s rq n) (acc @ [request_msg rq hi]) X dn [request_msg rq hi] []"
proof -
  let ?d = "take (nat (rs_sz rq)) (rs_data rq)"
  have "length ?d \<le> nat (rs_sz rq)" by simp
  also have "\<dots> < 2 ^ 64" using rq by (simp add: plain_request_def nat_less_iff)
  finally have d: "length ?d < 2 ^ 64" .
  have "order_ok (acc @ [request_msg rq hi]) dn [request_msg rq hi] []"
    using inv order_append(3) by (simp add: stream_inv_def request_msg_def)
  then show ?thesis using inv e w n d
    by (simp add: stream_inv_def append_sendbuffer_def append_wb_def plain_object [OF rq] Let_def send_buffer_empty_def
      queue_ok_def wb_ok_def wb_msg_def request_msg_def progress_def)
qed

lemma send_whole:
  assumes inv: "stream_inv out s acc X dn [] []" and e: "send_buffer_empty s"
    and w: "written (s_fd s) w = snd (snd (request_msg rq hi))" "freed w = []"
  shows "stream_inv (out @ w @ [Free (rs_buffer rq)]) s (acc @ [request_msg rq hi]) X (dn @ [request_msg rq hi]) [] []"
  using inv e w order_append(4) by (simp add: stream_inv_def send_buffer_empty_def progress_def request_msg_def queue_ok_def)

lemma closed_more:
  "closed_ok out s acc X \<Longrightarrow> written (s_fd s) [c] = [] \<Longrightarrow> mset (freed [c]) = {#fst (snd m)#} \<Longrightarrow>
     closed_ok (out @ [c]) s (acc @ [m]) X"
proof -
  assume c: "closed_ok out s acc X" "written (s_fd s) [c] = []" "mset (freed [c]) = {#fst (snd m)#}"
  then obtain dn rest x where d: "same_order (dn @ rest) acc" "written (s_fd s) out = concat (map (\<lambda>m. snd (snd m)) dn) @ x"
    "prefix x (case rest of [] \<Rightarrow> [] | m # _ \<Rightarrow> snd (snd m))"
    by (auto simp: closed_ok_def delivers_def)
  have "same_order (dn @ rest @ [m]) (acc @ [m])" using d(1) by (simp add: same_order_def)
  moreover have "prefix x (case rest @ [m] of [] \<Rightarrow> [] | m # _ \<Rightarrow> snd (snd m))" using d(3) by (cases rest) simp_all
  ultimately have "delivers (written (s_fd s) out) (acc @ [m])" using d(2) unfolding delivers_def by blast
  then show ?thesis using c by (simp add: closed_ok_def)
qed

lemma send_stream:
  assumes op: "stream_open i io s acc X" and rq: "plain_request rq" "rs_id rq = s_id s" and c: "s_type s = SOCKET_TYPE_CONNECTED"
  shows "run_ok (\<lambda>(io', s', r). stream_state i io' s' (acc @ [request_msg rq hi]) X) (send_socket soi io i s rq hi None)"
proof -
  obtain dn H L where inv: "stream_inv (io_out io) s acc X dn H L" using op by (auto simp: stream_open_def streaming_def)
  have st: "low_fresh s" "waits i io s" "s_protocol s = PROTOCOL_TCP" using op by (simp_all add: stream_open_def)
  let ?m = "request_msg rq hi"
  have types: "s_type s \<noteq> SOCKET_TYPE_INVALID" "s_type s \<noteq> SOCKET_TYPE_HALFCLOSE" "s_type s \<noteq> SOCKET_TYPE_PACCEPT"
    "s_type s \<noteq> SOCKET_TYPE_PLISTEN" "s_type s \<noteq> SOCKET_TYPE_LISTEN" using c by (simp_all add: socket_type_defs)
  show ?thesis
  proof (cases "send_buffer_empty s")
    case False
    then have w: "io_poll io (s_fd s) = Some (Some i, True)" using st(2) by (auto simp: waits_def send_buffer_empty_def)
    define s' where "s' = (if hi then append_sendbuffer soi s rq 0 else append_sendbuffer_low soi s rq)"
    have f: "s_fd s' = s_fd s" "s_protocol s' = s_protocol s" "s_type s' = s_type s" "low_fresh s'"
      using st(1) by (simp_all add: s'_def)
    have "streaming (io_out io) s' (acc @ [?m]) X"
      using append_stream [OF inv rq(1) st(1), of hi soi] unfolding s'_def streaming_def by blast
    then have "stream_open i io s' (acc @ [?m]) X" using f w c st(3)
      by (auto simp: stream_open_def waits_def)
    moreover have "send_socket soi io i s rq hi None = Done (io, s', None)"
      using types rq st(3) False by (simp add: send_socket_def plain_object s'_def)
    ultimately show ?thesis by (simp add: stream_state_def)
  next
    case True
    then have HL: "H = []" "L = []" using stream_empty [OF inv] by simp_all
    note inv = inv [unfolded HL]
    obtain w0 where reg: "io_poll io (s_fd s) = Some (Some i, w0)" using st(2) by (auto simp: waits_def)
    have whole: "stream_state i io' s (acc @ [?m]) X"
      if "io_out io' = io_out io @ w @ [Free (rs_buffer rq)]" "io_poll io' = io_poll io"
        "written (s_fd s) w = snd (snd ?m)" "freed w = []" for io' w
      using send_whole [OF inv True that(3,4)] st c True that(1,2)
      by (auto simp: stream_state_def stream_open_def waits_def streaming_def)
    have part: "stream_state i (sp_write io' (s_fd s) (Some i) True) (append_sendbuffer soi s rq n) (acc @ [?m]) X"
      if "io_out io' = io_out io @ w" "io_poll io' = io_poll io" "n \<le> length (snd (snd ?m))"
        "written (s_fd s) w = take n (snd (snd ?m))" "freed w = []" for io' w n
    proof -
      have "stream_inv (io_out io @ w) (append_sendbuffer soi s rq n) (acc @ [?m]) X dn [?m] []"
        using send_part [OF inv rq(1) True that(4,5,3)] .
      then show ?thesis using st c reg that(1,2)
        by (auto simp: stream_state_def stream_open_def waits_def streaming_def sp_write_def)
    qed
    have failed: "run_ok (\<lambda>(io, s, result). stream_state i (free_func io False (rs_buffer rq)) s (acc @ [?m]) X)
        (force_close io' s)" if "io_out io' = io_out io @ [Log t]" for io' t
    proof -
      have "stream_inv (io_out io') s acc X dn [] []" using inv that by (simp add: stream_inv_def queue_ok_def progress_def)
      from close_stream [OF this] show ?thesis using c
        by (auto simp: stream_state_def free_func_def call_def open_type_def socket_type_defs request_msg_def intro!: closed_more)
    qed
    show ?thesis
    proof (cases "io_in io")
      case Nil
      then show ?thesis using types rq st(3) True c by (simp add: send_socket_def plain_object next_ret_def)
    next
      case i: (Cons r rs)
      let ?d = "snd (snd ?m)" and ?io = "io\<lparr>io_in := rs\<rparr>"
      show ?thesis
      proof (cases r)
        case r: (Ret n)
        let ?k = "min n (length ?d)" and ?w = "[Write (s_fd s) (take (min n (length ?d)) ?d)]"
        have "stream_state i (free_func (call ?io (Write (s_fd s) (take ?k ?d))) False (rs_buffer rq)) s (acc @ [?m]) X"
          if "?k = length ?d"
          using whole [of _ ?w] that by (simp add: free_func_def call_def)
        moreover have "stream_state i (sp_write (call ?io (Write (s_fd s) (take ?k ?d))) (s_fd s) (Some i) True)
            (append_sendbuffer soi s rq ?k) (acc @ [?m]) X"
          by (rule part [of _ ?w]) (simp_all add: call_def)
        ultimately show ?thesis using types rq st(3) True c
          by (simp add: send_socket_def plain_object next_ret_def i r request_msg_def Let_def)
      next
        case r: (Errno e)
        have "stream_state i (free_func ?io False (rs_buffer rq)) s (acc @ [?m]) X" if "?d = []"
          using whole [of _ "[]"] that by (simp add: free_func_def call_def)
        moreover have "stream_state i (sp_write ?io (s_fd s) (Some i) True) (append_sendbuffer soi s rq 0) (acc @ [?m]) X"
          by (rule part [of _ "[]"]) simp_all
        moreover have "run_ok (\<lambda>x. stream_state i (free_func (fst x) False (rs_buffer rq)) (fst (snd x)) (acc @ [?m]) X)
            (force_close (call ?io (Log t)) s)" for t
          using failed [of "call ?io (Log t)" t] by (simp add: call_def case_prod_beta')
        ultimately show ?thesis using types rq st(3) True c
          by (cases "e = EINTR \<or> e = EAGAIN")
            (simp_all add: send_socket_def plain_object next_ret_def i r request_msg_def Let_def case_prod_beta)
      qed (use types rq st(3) True c i in \<open>simp_all add: send_socket_def plain_object next_ret_def\<close>)
    qed
  qed
qed

lemma refused_socket:
  assumes "s_type s = SOCKET_TYPE_INVALID \<or> s_type s = SOCKET_TYPE_HALFCLOSE" "plain_request rq"
  shows "send_socket soi io i s rq hi None = Done (call io (Free (rs_buffer rq)), s, None)"
  using assms by (auto simp: send_socket_def plain_object free_func_def)

lemma refused_stream:
  "stream_state i io s acc X \<Longrightarrow> stream_state i (call io (Free b)) s acc (X @ [b])"
  by (auto simp: stream_state_def stream_open_def waits_def streaming_def stream_inv_def closed_ok_def call_def)

text \<open>The end of a request to close.\<close>

lemma close_rest:
  assumes "stream_open i io s acc X"
  shows "run_ok (\<lambda>(io', s', r). stream_state i io' s' acc X)
    (if rc_shutdown rq \<or> send_buffer_empty s
     then rbind (force_close io s) (\<lambda>(io, s, result).
       Done (io, s, Some (SS_CLOSE, result\<lparr>m_id := rc_id rq, m_opaque := rc_opaque rq\<rparr>)))
     else Done (io, s\<lparr>s_type := SOCKET_TYPE_HALFCLOSE\<rparr>, None))"
proof (cases "rc_shutdown rq \<or> send_buffer_empty s")
  case True
  then show ?thesis using assms close_stream [of io s acc X]
    by (fastforce simp: stream_state_def stream_open_def streaming_def)
next
  case False
  then have "stream_open i io (s\<lparr>s_type := SOCKET_TYPE_HALFCLOSE\<rparr>) acc X" using assms
    by (auto simp: stream_open_def waits_def streaming_def stream_inv_def low_fresh_def send_buffer_empty_def)
  then show ?thesis using False by (simp add: stream_state_def)
qed

lemma close_socket_stream:
  assumes op: "stream_open i io s acc X" and rq: "rc_id rq = s_id s"
  shows "run_ok (\<lambda>(io', s', r). stream_state i io' s' acc X) (close_socket io i s rq)"
proof -
  have t: "s_type s \<noteq> SOCKET_TYPE_INVALID" using op by (auto simp: stream_open_def socket_type_defs)
  have "run_ok (sent_ok i (s_type s) acc X) (if send_buffer_empty s then Done (io, s, None) else send_buffer io i s)"
    using send_buffer_stream [OF op] op by (simp add: sent_ok_def)
  then have "run_ok (\<lambda>x. run_ok (\<lambda>(io', s', r). stream_state i io' s' acc X) (case x of (io, s, r) \<Rightarrow>
      if r \<noteq> None then Done (io, s, r)
      else if rc_shutdown rq \<or> send_buffer_empty s
      then rbind (force_close io s) (\<lambda>(io, s, result).
        Done (io, s, Some (SS_CLOSE, result\<lparr>m_id := rc_id rq, m_opaque := rc_opaque rq\<rparr>)))
      else Done (io, s\<lparr>s_type := SOCKET_TYPE_HALFCLOSE\<rparr>, None)))
    (if send_buffer_empty s then Done (io, s, None) else send_buffer io i s)"
  proof (rule run_ok_mono, clarify)
    fix io1 s1 r
    assume a: "sent_ok i (s_type s) acc X (io1, s1, r)"
    show "run_ok (\<lambda>(io', s', r). stream_state i io' s' acc X) (if r \<noteq> None then Done (io1, s1, r)
      else if rc_shutdown rq \<or> send_buffer_empty s1
      then rbind (force_close io1 s1) (\<lambda>(io, s, result).
        Done (io, s, Some (SS_CLOSE, result\<lparr>m_id := rc_id rq, m_opaque := rc_opaque rq\<rparr>)))
      else Done (io1, s1\<lparr>s_type := SOCKET_TYPE_HALFCLOSE\<rparr>, None))"
    proof (cases r)
      case None
      then show ?thesis using a close_rest [of i io1 s1 acc X rq] by (simp only: sent_ok_def prod.case simp_thms if_True if_False)
    next
      case (Some x)
      then show ?thesis using a by (simp add: sent_ok_def stream_state_def)
    qed
  qed
  then show ?thesis using t rq by (simp add: close_socket_def)
qed

lemma open_size [simp]: "stream_open i io (s\<lparr>s_size := n\<rparr>) acc X \<longleftrightarrow> stream_open i io s acc X"
  "stream_open i (io\<lparr>io_in := rs\<rparr>) s acc X \<longleftrightarrow> stream_open i io s acc X"
  by (simp_all add: stream_open_def waits_def streaming_def stream_inv_def low_fresh_def)

lemma open_log: "stream_open i io s acc X \<Longrightarrow> stream_open i (call io (Log t)) s acc X"
  by (simp add: stream_open_def waits_def streaming_def stream_inv_def call_def)

lemma force_close_stream:
  "stream_open i io s acc X \<Longrightarrow> run_ok (\<lambda>(io', s', m). closed_ok (io_out io') s' acc X) (force_close io s)"
  using close_stream [of io s acc X] by (fastforce simp: stream_open_def streaming_def)

lemma forward_stream:
  assumes op: "stream_open i io s acc X"
  shows "run_ok (\<lambda>(io', s', r). stream_state i io' s' acc X) (forward_message_tcp io s)"
proof (cases "io_in io")
  case Nil
  then show ?thesis by (simp add: forward_message_tcp_def)
next
  case i: (Cons r rs)
  have op: "stream_open i (io\<lparr>io_in := rs\<rparr>) s acc X" using assms by simp
  note c = force_close_stream [OF op]
  have "run_ok (\<lambda>(io', s', r). stream_state i io' s' acc X)
      (rbind (force_close (io\<lparr>io_in := rs\<rparr>) s) (\<lambda>(io, s, result). Done (io, s, f result)))" for f
    unfolding run_ok_bind by (rule run_ok_mono [OF c]) (auto simp: stream_state_def)
  then show ?thesis using op open_log [OF op] i
    by (cases r) (auto simp: forward_message_tcp_def stream_state_def Let_def next_ret_def simp del: run_ok_bind)
qed

section \<open>Histories of a stream\<close>

text \<open>
  The history of a TCP socket in slot \<open>i\<close> after it is connected: requests to send that it accepts or
  refuses, events, requests to close, with any results of the system calls; \<open>acc\<close> are the accepted
  messages, \<open>X\<close> the buffers of the refused ones.
\<close>

inductive tcp_history :: "soi \<Rightarrow> nat \<Rightarrow> netio \<Rightarrow> socket \<Rightarrow> sent_message list \<Rightarrow> u64 list \<Rightarrow> bool" for soi i where
  connected: "tcp_history soi i io s [] []"
    if "s_type s = SOCKET_TYPE_CONNECTED" "s_protocol s = PROTOCOL_TCP" "send_buffer_empty s" "s_wb_size s = 0"
      "io_poll io (s_fd s) = Some (Some i, w)" "io_out io = []"
| kernel: "tcp_history soi i (io\<lparr>io_in := rs\<rparr>) s acc X" if "tcp_history soi i io s acc X"
| accepted: "tcp_history soi i io' s' (acc @ [request_msg rq hi]) X"
    if "tcp_history soi i io s acc X" "s_type s = SOCKET_TYPE_CONNECTED" "plain_request rq" "rs_id rq = s_id s"
      "send_socket soi io i s rq hi None = Done (io', s', r)"
| refused: "tcp_history soi i io' s' acc (X @ [rs_buffer rq])"
    if "tcp_history soi i io s acc X" "s_type s \<noteq> SOCKET_TYPE_CONNECTED" "plain_request rq" "rs_id rq = s_id s"
      "send_socket soi io i s rq hi None = Done (io', s', r)"
| writable: "tcp_history soi i io' s' acc X"
    if "tcp_history soi i io s acc X" "s_type s \<noteq> SOCKET_TYPE_INVALID" "send_buffer io i s = Done (io', s', r)"
| readable: "tcp_history soi i io' s' acc X"
    if "tcp_history soi i io s acc X" "s_type s \<noteq> SOCKET_TYPE_INVALID" "forward_message_tcp io s = Done (io', s', r)"
| closing: "tcp_history soi i io' s' acc X"
    if "tcp_history soi i io s acc X" "rc_id rq = s_id s" "close_socket io i s rq = Done (io', s', r)"

lemma run_ok_Done: "run_ok P r \<Longrightarrow> r = Done x \<Longrightarrow> P x"
  by simp

lemma history_state: "tcp_history soi i io s acc X \<Longrightarrow> stream_state i io s acc X"
proof (induction rule: tcp_history.induct)
  case (connected s io w)
  then have "stream_inv (io_out io) s [] [] [] [] []"
    by (simp add: stream_inv_def send_buffer_empty_def queue_ok_def order_ok_def progress_def)
  then show ?case using connected
    by (auto simp: stream_state_def stream_open_def streaming_def waits_def low_fresh_def send_buffer_empty_def socket_type_defs)
next
  case (kernel io s acc X rs)
  then show ?case by (auto simp: stream_state_def stream_open_def waits_def)
next
  case (accepted io s acc X rq hi io' s' r)
  then have "stream_open i io s acc X" by (auto simp: stream_state_def closed_ok_def socket_type_defs)
  from run_ok_Done [OF send_stream [OF this] accepted.hyps(5)] show ?case using accepted by simp
next
  case (refused io s acc X rq hi io' s' r)
  then have "s_type s = SOCKET_TYPE_INVALID \<or> s_type s = SOCKET_TYPE_HALFCLOSE"
    by (auto simp: stream_state_def stream_open_def closed_ok_def)
  from refused_socket [OF this refused.hyps(3), of soi io i hi] show ?case using refused refused_stream by auto
next
  case (writable io s acc X io' s' r)
  then have "stream_open i io s acc X" by (auto simp: stream_state_def closed_ok_def)
  from run_ok_Done [OF send_buffer_stream [OF this] writable.hyps(3)] show ?case
    by (auto simp: sent_ok_def stream_state_def split: if_splits)
next
  case (readable io s acc X io' s' r)
  then have "stream_open i io s acc X" by (auto simp: stream_state_def closed_ok_def)
  from run_ok_Done [OF forward_stream [OF this] readable.hyps(3)] show ?case by simp
next
  case (closing io s acc X rq io' s' r)
  show ?case
  proof (cases "s_type s = SOCKET_TYPE_INVALID")
    case True
    then show ?thesis using closing by (simp add: close_socket_def)
  next
    case False
    then have "stream_open i io s acc X" using closing by (auto simp: stream_state_def closed_ok_def)
    from run_ok_Done [OF close_socket_stream [OF this closing.hyps(2)] closing.hyps(3)] show ?thesis by simp
  qed
qed

section \<open>Progress\<close>

text \<open>What waits to be written: the bytes, and one for each buffer.\<close>

definition pending :: "socket \<Rightarrow> nat" where
  "pending s = sum_list (map (\<lambda>wb. wb_sz wb + 1) (s_high s @ s_low s))"

lemma pending_zero: "pending s = 0 \<longleftrightarrow> send_buffer_empty s"
  by (cases "s_high s"; cases "s_low s") (simp_all add: pending_def send_buffer_empty_def)

lemma pending_set:
  "get_list hi s = tmp # rest \<Longrightarrow> pending (set_list hi q s) + (wb_sz tmp + 1) + sum_list (map (\<lambda>wb. wb_sz wb + 1) rest)
     = pending s + sum_list (map (\<lambda>wb. wb_sz wb + 1) q)"
  by (cases hi) (simp_all add: pending_def get_list_def set_list_def)

lemma pending_size [simp]: "pending (s\<lparr>s_wb_size := n\<rparr>) = pending s" "get_list hi (s\<lparr>s_wb_size := n\<rparr>) = get_list hi s"
  by (simp_all add: pending_def get_list_def)

lemma tcp_pending:
  "send_list_tcp io s hi = Done (io', s', None) \<Longrightarrow> pending s' \<le> pending s \<and>
     (get_list hi s \<noteq> [] \<longrightarrow> (\<exists>n rs. io_in io = Ret n # rs \<and> n > 0) \<longrightarrow> pending s' < pending s)"
proof (induction io s hi rule: send_list_tcp.induct)
  case (1 io s hi)
  show ?case
  proof (cases "get_list hi s")
    case Nil
    then show ?thesis using 1(3) by (simp add: send_list_tcp.simps [of io s])
  next
    case q: (Cons tmp rest)
    show ?thesis
    proof (cases "io_in io")
      case Nil
      then show ?thesis using 1(3) by (simp add: send_list_tcp.simps [of io s] q)
    next
      case i: (Cons r rs)
      show ?thesis
      proof (cases r)
        case r: (Ret n)
        let ?sz = "min n (wb_sz tmp)"
        let ?w = "call (io\<lparr>io_in := rs\<rparr>) (Write (s_fd s) (take ?sz (drop (wb_ptr tmp) (wb_data tmp))))"
        let ?s = "s\<lparr>s_wb_size := s_wb_size s - int ?sz\<rparr>"
        have q': "get_list hi ?s = tmp # rest" using q by simp
        show ?thesis
        proof (cases "?sz = wb_sz tmp")
          case True
          then have "send_list_tcp (write_buffer_free ?w tmp) (set_list hi rest ?s) hi = Done (io', s', None)"
            using 1(3) by (simp add: send_list_tcp.simps [of io s] q i r Let_def)
          from 1(1) [OF q i refl r refl refl refl _ this] True
          have "pending s' \<le> pending (set_list hi rest ?s)" by simp
          then show ?thesis using pending_set [OF q', of rest] by simp
        next
          case False
          then have "s' = set_list hi (tmp\<lparr>wb_ptr := wb_ptr tmp + ?sz, wb_sz := wb_sz tmp - ?sz\<rparr> # rest) ?s"
            using 1(3) by (auto simp: send_list_tcp.simps [of io s] q i r Let_def split: if_splits)
          then show ?thesis using pending_set [OF q', of "tmp\<lparr>wb_ptr := wb_ptr tmp + ?sz, wb_sz := wb_sz tmp - ?sz\<rparr> # rest"] False i r
            by auto
        qed
      next
        case r: (Errno e)
        show ?thesis
        proof (cases "e = EINTR")
          case True
          then have "send_list_tcp (io\<lparr>io_in := rs\<rparr>) s hi = Done (io', s', None)"
            using 1(3) by (simp add: send_list_tcp.simps [of io s] q i r)
          from 1(2) [OF q i refl r True this] show ?thesis using i r by simp
        next
          case False
          then show ?thesis using 1(3) i r
            by (cases e; cases "force_close (io\<lparr>io_in := rs\<rparr>) s") (auto simp: send_list_tcp.simps [of io s] q)
        qed
      qed (use 1(3) in \<open>simp_all add: send_list_tcp.simps [of io s] q i\<close>)
    qed
  qed
qed

lemma list_report:
  assumes "stream_open i io s acc X" "hi \<or> s_high s = []" "send_list io s hi = Done (io', s', r)" "\<not> is_close r"
  shows "r = None \<and> send_list_tcp io s hi = Done (io', s', None)"
proof -
  have "streaming (io_out io) s acc X" "open_type (s_type s)" "s_protocol s = PROTOCOL_TCP"
    using assms(1) by (simp_all add: stream_open_def)
  then have "stream_result acc X s (io', s', r)" using send_tcp' [of io s acc X hi] assms(2,3) by simp
  from result_open [OF this assms(4)] show ?thesis
    using assms(3) \<open>s_protocol s = PROTOCOL_TCP\<close> by (simp add: send_list_def)
qed

lemma low_pending:
  assumes op: "stream_open i io s acc X" "s_high s = []" and d: "send_low io s = Done (io', s', None)"
  shows "pending s' \<le> pending s \<and>
     (s_low s \<noteq> [] \<longrightarrow> (\<exists>n rs. io_in io = Ret n # rs \<and> n > 0) \<longrightarrow> pending s' < pending s)"
proof -
  obtain io1 s1 r where l: "send_list io s False = Done (io1, s1, r)" and c: "\<not> is_close r"
    and s': "s' = s1 \<or> raise_uncomplete s1 = Done s'" and u: "s' \<noteq> s1 \<longrightarrow> list_uncomplete (s_low s1)"
    using d by (cases "send_list io s False"; cases "raise_uncomplete (fst (snd (case send_list io s False of Done x \<Rightarrow> x)))")
      (auto simp: send_low_def split: if_splits)
  have "pending s' = pending s1" using s' u
    by (cases "s_low s1") (auto simp: raise_uncomplete_def pending_def list_uncomplete_def split: if_splits)
  moreover have "send_list_tcp io s False = Done (io1, s1, None)" using list_report [OF op(1) _ l c] op(2) by simp
  ultimately show ?thesis using tcp_pending by (simp add: get_list_def)
qed

lemma buffer_pending:
  assumes op: "stream_open i io s acc X" and d: "send_buffer io i s = Done (io', s', None)"
    and n: "io_in io = Ret n # rs" "n > 0" and p: "\<not> send_buffer_empty s"
  shows "pending s' < pending s"
proof -
  obtain io1 s1 r where l: "send_list io s True = Done (io1, s1, r)" and c: "\<not> is_close r"
    and rest: "if s_high s1 \<noteq> [] then s' = s1 else if s_low s1 \<noteq> [] then send_low io1 s1 = Done (io', s', None)
      else check_close io1 i s1 = Done (io', s', None)"
    using d by (cases "send_list io s True") (auto simp: send_buffer_def split: if_splits)
  have t: "r = None" "send_list_tcp io s True = Done (io1, s1, None)" using list_report [OF op _ l c] by simp_all
  have le: "pending s1 \<le> pending s" "s_high s \<noteq> [] \<longrightarrow> pending s1 < pending s"
    using tcp_pending [OF t(2)] n by (auto simp: get_list_def)
  consider "s_high s1 \<noteq> []" | "s_high s1 = []" "s_low s1 \<noteq> []" | "s_high s1 = []" "s_low s1 = []" by blast
  then show ?thesis
  proof cases
    case 1
    then have "s_high s \<noteq> []" using t(2) by (auto simp: send_list_tcp.simps [of io s] get_list_def)
    then show ?thesis using 1 rest le by simp
  next
    case 2
    then have low: "send_low io1 s1 = Done (io', s', None)" using rest by simp
    have "stream_open i io1 s1 acc X" using high_stream [OF op] l c by simp
    from low_pending [OF this 2(1) low] 2(2) n show ?thesis
    proof (cases "s_high s = []")
      case True
      then have "io1 = io" "s1 = s" using t(2) by (simp_all add: send_list_tcp.simps [of io s] get_list_def)
      then show ?thesis using low_pending [OF \<open>stream_open i io1 s1 acc X\<close> 2(1) low] 2(2) n by simp
    qed (use le in simp)
  next
    case 3
    then have "pending s1 = 0" by (simp add: pending_zero send_buffer_empty_def)
    moreover have "s' = s1" using rest 3
      by (cases "force_close (sp_write io1 (s_fd s1) (Some i) False) s1") (auto simp: check_close_def Let_def split: if_splits)
    ultimately show ?thesis using p by (simp add: pending_zero [symmetric])
  qed
qed

text \<open>Rounds of \<open>send_buffer\<close>, one for each event, with the results of the system calls of each.\<close>

fun write_rounds :: "nat \<Rightarrow> sysret list list \<Rightarrow> netio \<Rightarrow> socket \<Rightarrow> (netio \<times> socket) run" where
  "write_rounds i [] io s = Done (io, s)"
| "write_rounds i (rs # rss) io s =
     (if s_type s = SOCKET_TYPE_INVALID then Done (io, s)
      else rbind (send_buffer (io\<lparr>io_in := rs\<rparr>) i s) (\<lambda>(io, s, r). write_rounds i rss io s))"

text \<open>The kernel takes at least one byte of the first buffer: the event was true.\<close>

definition takes_some :: "sysret list \<Rightarrow> bool" where
  "takes_some rs = (case rs of Ret n # _ \<Rightarrow> n > 0 | _ \<Rightarrow> False)"

lemma takes_some_iff: "takes_some rs \<longleftrightarrow> (\<exists>n rs'. rs = Ret n # rs' \<and> n > 0)"
  by (auto simp: takes_some_def split: list.splits sysret.splits)

lemma rounds_drain:
  "stream_state i io s acc X \<Longrightarrow> list_all takes_some rss \<Longrightarrow> pending s \<le> length rss \<Longrightarrow>
     write_rounds i rss io s = Done (io', s') \<Longrightarrow> send_buffer_empty s'"
proof (induction rss arbitrary: io s)
  case Nil
  then show ?case by (simp add: pending_zero [symmetric])
next
  case (Cons rs rss)
  show ?case
  proof (cases "s_type s = SOCKET_TYPE_INVALID")
    case True
    then show ?thesis using Cons.prems
      by (auto simp: stream_state_def stream_open_def socket_type_defs closed_ok_def send_buffer_empty_def)
  next
    case False
    let ?io = "io\<lparr>io_in := rs\<rparr>"
    have op: "stream_open i ?io s acc X" using Cons.prems(1) False by (simp add: stream_state_def closed_ok_def)
    obtain io1 s1 r where b: "send_buffer ?io i s = Done (io1, s1, r)" and w: "write_rounds i rss io1 s1 = Done (io', s')"
      using Cons.prems(4) False by (cases "send_buffer ?io i s") auto
    have res: "sent_ok i (s_type s) acc X (io1, s1, r)" using send_buffer_stream [OF op] b by simp
    then have st: "stream_state i io1 s1 acc X" by (auto simp: sent_ok_def stream_state_def split: if_splits)
    have "pending s1 \<le> length rss"
    proof (cases "r = None")
      case True
      obtain n rs' where n: "io_in ?io = Ret n # rs'" "n > 0" using Cons.prems(2) by (auto simp: takes_some_iff)
      show ?thesis
      proof (cases "send_buffer_empty s")
        case False
        from buffer_pending [OF op b [unfolded True] n False] Cons.prems(3) show ?thesis by simp
      next
        case empty: True
        then have "pending s = 0" by (simp add: pending_zero)
        moreover have "s1 = s" using b empty True
          by (cases "force_close (sp_write ?io (s_fd s) (Some i) False) s")
            (auto simp: send_buffer_def send_buffer_empty_def list_uncomplete_def send_list_def send_list_udp.simps [of ?io]
              send_list_tcp.simps [of ?io] get_list_def check_close_def Let_def split: if_splits)
        ultimately show ?thesis by simp
      qed
    next
      case False
      then have "pending s1 = 0" using res
        by (auto simp: sent_ok_def closed_ok_def pending_zero send_buffer_empty_def)
      then show ?thesis by simp
    qed
    then show ?thesis using Cons.IH [OF st _ _ w] Cons.prems(2) by simp
  qed
qed

lemma mset_map_eq: "mset xs = mset ys \<Longrightarrow> mset (map f xs) = mset (map f ys)"
  by simp

lemma mset_sum_eq: "mset xs = mset ys \<Longrightarrow> sum_list (map f xs) = sum_list (map f ys :: nat list)"
  using mset_map_eq [of xs ys f] by (simp only: sum_mset_sum_list [symmetric])

lemma sum_pending:
  "queue_ok q \<Longrightarrow> sum_list (map wb_sz q) + length (progress q) = sum_list (map (\<lambda>wb. length (wb_data wb)) q)"
proof (cases q)
  case (Cons wb r)
  assume "queue_ok q"
  then have "wb_ok wb" "\<forall>w \<in> set r. wb_sz w = length (wb_data w)" using Cons by (auto simp: queue_ok_def wb_ok_def)
  moreover have "sum_list (map wb_sz r) = sum_list (map (\<lambda>w. length (wb_data w)) r)"
    using calculation(2) by (induction r) auto
  ultimately show ?thesis using Cons by (simp add: progress_def wb_ok_def)
qed (simp add: progress_def)

lemma stream_size:
  assumes "stream_inv out s acc X dn H L"
  shows "s_wb_size s + int (length (written (s_fd s) out)) = int (sum_list (map (\<lambda>m. length (snd (snd m))) acc))"
proof -
  let ?q = "s_high s @ s_low s"
  have "map wb_msg ?q = map snd (H @ L)" and q: "queue_ok ?q" using assms by (simp_all add: stream_inv_def)
  then have "map (\<lambda>x. length (snd x)) (map wb_msg ?q) = map (\<lambda>x. length (snd x)) (map snd (H @ L))" by (simp only:)
  then have "sum_list (map (\<lambda>wb. length (wb_data wb)) ?q) = sum_list (map (\<lambda>m. length (snd (snd m))) (H @ L))"
    by (simp only: map_map comp_def wb_msg_def snd_conv)
  then have "sum_list (map wb_sz ?q) + length (progress ?q) = sum_list (map (\<lambda>m. length (snd (snd m))) (H @ L))"
    using sum_pending [OF q] by simp
  moreover have "mset (dn @ H @ L) = mset acc" using assms order_mset by (simp add: stream_inv_def)
  then have "sum_list (map (\<lambda>m. length (snd (snd m))) (dn @ H @ L)) = sum_list (map (\<lambda>m. length (snd (snd m))) acc)"
    by (rule mset_sum_eq)
  moreover have "length (written (s_fd s) out) = sum_list (map (\<lambda>m. length (snd (snd m))) dn) + length (progress ?q)"
    "s_wb_size s = int (sum_list (map wb_sz ?q))"
    using assms by (simp_all add: stream_inv_def length_concat comp_def)
  ultimately show ?thesis by simp
qed

section \<open>Properties\<close>

text \<open>C5: In every history of a TCP socket the bytes written to its descriptor are whole messages that it
  accepted, each in one piece and each priority in the order of sending, then a prefix of one more
  message; and while the socket is open, \<open>wb_size\<close> is exactly the number of accepted bytes not yet
  written.
\<close>

theorem tcp_stream:
  assumes "tcp_history soi i io s acc X"
  shows "delivers (written (s_fd s) (io_out io)) acc \<and> (s_type s \<noteq> SOCKET_TYPE_INVALID \<longrightarrow>
      s_wb_size s + int (length (written (s_fd s) (io_out io))) = int (sum_list (map (\<lambda>m. length (snd (snd m))) acc)))"
  using history_state [OF assms] inv_delivers stream_size
  by (auto simp: stream_state_def stream_open_def streaming_def closed_ok_def)

text \<open>C7: Every buffer that was sent to a TCP socket, accepted or refused, is freed exactly once: the buffers
  freed so far and the ones that still wait are the ones sent; after the socket is closed none waits.
\<close>

theorem tcp_freed_once:
  assumes "tcp_history soi i io s acc X"
  shows "mset (freed (io_out io)) + mset (map wb_buffer (s_high s @ s_low s)) = mset (map (\<lambda>m. fst (snd m)) acc) + mset X \<and>
    (s_type s = SOCKET_TYPE_INVALID \<longrightarrow> send_buffer_empty s)"
proof (cases "closed_ok (io_out io) s acc X")
  case True
  then show ?thesis by (simp add: closed_ok_def send_buffer_empty_def)
next
  case False
  then obtain dn H L where inv: "stream_inv (io_out io) s acc X dn H L" and t: "s_type s \<noteq> SOCKET_TYPE_INVALID"
    using history_state [OF assms] by (auto simp: stream_state_def stream_open_def streaming_def socket_type_defs)
  then have b: "map wb_buffer (s_high s @ s_low s) = map (\<lambda>m. fst (snd m)) (H @ L)"
    using msg_buffers [of "s_high s @ s_low s" "H @ L"] by (simp add: stream_inv_def)
  have "mset (dn @ H @ L) = mset acc" using inv order_mset by (simp add: stream_inv_def)
  then have "mset (map (\<lambda>m. fst (snd m)) (dn @ H @ L)) = mset (map (\<lambda>m. fst (snd m)) acc)" by (rule mset_map_eq)
  then show ?thesis using inv t unfolding b by (simp add: stream_inv_def)
qed

text \<open>C6: What is sent goes out: while something waits on an open TCP socket its descriptor is registered
  for writing, and after as many events as there are bytes and buffers that wait, if the kernel takes at
  least one byte at each, nothing waits any more.
\<close>

theorem tcp_drains:
  assumes "tcp_history soi i io s acc X" "list_all takes_some rss" "pending s \<le> length rss"
    "write_rounds i rss io s = Done (io', s')"
  shows "send_buffer_empty s' \<and> (\<not> send_buffer_empty s \<longrightarrow> io_poll io (s_fd s) = Some (Some i, True))"
  using history_state [OF assms(1)] rounds_drain [OF history_state [OF assms(1)] assms(2-4)]
  by (auto simp: stream_state_def stream_open_def waits_def closed_ok_def send_buffer_empty_def)

section \<open>An example\<close>

definition demo_socket :: "write_buffer list \<Rightarrow> int \<Rightarrow> socket" where
  "demo_socket q n = \<lparr>s_opaque = 1, s_high = q, s_low = [], s_wb_size = n, s_fd = 9, s_id = 5, s_protocol = PROTOCOL_TCP,
     s_type = SOCKET_TYPE_CONNECTED, s_size = 64, s_udp_address = []\<rparr>"

definition demo_io :: "sys_call list \<Rightarrow> bool \<Rightarrow> netio" where
  "demo_io out w = \<lparr>io_in = [], io_out = out, io_poll = [9 \<mapsto> (Some 5, w)]\<rparr>"

definition demo_wb :: write_buffer where
  "demo_wb = \<lparr>wb_buffer = 100, wb_base = 100, wb_data = [1, 2, 3, 4], wb_ptr = 2, wb_sz = 2, wb_userobject = False,
     wb_udp_address = []\<rparr>"

lemmas demo_defs = demo_socket_def demo_io_def demo_wb_def

lemma demo_history:
  "tcp_history (\<lambda>_. (0, [])) 5 (demo_io [Write 9 [1, 2]] True) (demo_socket [demo_wb] 2) [(False, 100, [1, 2, 3, 4])] []"
proof -
  let ?rq = "\<lparr>rs_id = 5, rs_sz = 4, rs_buffer = 100, rs_data = [1, 2, 3, 4]\<rparr>"
  have "tcp_history (\<lambda>_. (0, [])) 5 (demo_io [] False) (demo_socket [] 0) [] []"
    by (rule connected [where w = False]) (simp_all add: demo_defs send_buffer_empty_def)
  then have h: "tcp_history (\<lambda>_. (0, [])) 5 (demo_io [] False\<lparr>io_in := [Ret 2]\<rparr>) (demo_socket [] 0) [] []"
    by (rule kernel)
  have "send_socket (\<lambda>_. (0, [])) (demo_io [] False\<lparr>io_in := [Ret 2]\<rparr>) 5 (demo_socket [] 0) ?rq False None =
      Done (demo_io [Write 9 [1, 2]] True, demo_socket [demo_wb] 2, None)"
    by (simp add: send_socket_def demo_defs send_object_init_def socket_type_defs send_buffer_empty_def next_ret_def call_def
      sp_write_def append_sendbuffer_def append_wb_def protocol_defs Let_def)
  from accepted [OF h _ _ _ this] show ?thesis
    by (simp add: plain_request_def request_msg_def demo_socket_def)
qed

theorem tcp_stream_witness:
  "delivers (written 9 [Write 9 [1, 2]]) [(False, 100, [1, 2, 3, 4])] \<and> (2::int) + int (length (written 9 [Write 9 [1, 2]])) = 4"
  using tcp_stream [OF demo_history] by (simp add: demo_defs socket_type_defs)

theorem tcp_freed_once_witness:
  "mset (freed [Write 9 [1, 2]]) + mset (map wb_buffer [demo_wb]) = {#100#}"
  using tcp_freed_once [OF demo_history] by (simp add: demo_io_def demo_socket_def)

theorem tcp_drains_witness:
  "\<exists>io s. write_rounds 5 [[Ret 1], [Ret 1], [Ret 1]] (demo_io [Write 9 [1, 2]] True) (demo_socket [demo_wb] 2) = Done (io, s) \<and>
     send_buffer_empty s"
proof -
  have p: "pending (demo_socket [demo_wb] 2) \<le> length [[Ret 1], [Ret 1], [Ret 1]]"
    "list_all takes_some [[Ret 1], [Ret 1], [Ret 1]]"
    by (simp_all add: pending_def demo_defs takes_some_def)
  obtain io s where "write_rounds 5 [[Ret 1], [Ret 1], [Ret 1]] (demo_io [Write 9 [1, 2]] True) (demo_socket [demo_wb] 2) = Done (io, s)"
    by (simp add: demo_defs send_buffer_def list_uncomplete_def send_list_def send_list_tcp.simps get_list_def set_list_def
      call_def protocol_defs socket_type_defs Let_def write_buffer_free_def free_func_def check_close_def sp_write_def)
  then show ?thesis using tcp_drains [OF demo_history p(2) p(1)] by auto
qed

end
