(* ===== verification/SocketServerProps.thy ===== *)
theory SocketServerProps
  imports SocketServer
begin

text \<open>
  The invariant of the socket server as a whole: every request and every event keeps it, no assertion
  of \<open>socket_server.c\<close> fails under it, and \<open>socket_server_poll\<close> returns within the bound on its rounds.
\<close>

section \<open>Operations on one slot\<close>

text \<open>The socket is registered in the event poll.\<close>

definition registered :: "socket \<Rightarrow> bool" where
  "registered s \<longleftrightarrow> s_type s \<notin> {SOCKET_TYPE_INVALID, SOCKET_TYPE_RESERVE, SOCKET_TYPE_PACCEPT, SOCKET_TYPE_PLISTEN}"

text \<open>A buffer of the low list that is not begun.\<close>

definition low_ok :: "write_buffer \<Rightarrow> bool" where
  "low_ok wb \<longleftrightarrow> wb_base wb = wb_buffer wb \<and> wb_ptr wb = 0 \<and> wb_sz wb < 2 ^ 64"

definition slot_ok :: "socket \<Rightarrow> bool" where
  "slot_ok s \<longleftrightarrow> (\<not> registered s \<longrightarrow> s_high s = [] \<and> s_low s = []) \<and> (\<forall>wb \<in> set (s_low s). low_ok wb)"

text \<open>Only the descriptor of the socket is registered with its slot.\<close>

definition poll_at :: "nat \<Rightarrow> socket \<Rightarrow> (int \<Rightarrow> (nat option \<times> bool) option) \<Rightarrow> bool" where
  "poll_at i s p \<longleftrightarrow> (\<forall>fd w. p fd = Some (Some i, w) \<longrightarrow> registered s \<and> s_fd s = fd)"

text \<open>The registrations of other slots can only be lost.\<close>

definition poll_frame :: "nat \<Rightarrow> (int \<Rightarrow> (nat option \<times> bool) option) \<Rightarrow> (int \<Rightarrow> (nat option \<times> bool) option) \<Rightarrow> bool" where
  "poll_frame i p p' \<longleftrightarrow> (\<forall>fd j w. j \<noteq> i \<longrightarrow> p' fd = Some (Some j, w) \<longrightarrow> p fd = Some (Some j, w))"

definition closing :: "report \<Rightarrow> int \<Rightarrow> bool" where
  "closing r n \<longleftrightarrow> (\<exists>t m. r = Some (t, m) \<and> (t = SS_CLOSE \<or> t = SS_ERROR) \<and> m_id m = n)"

text \<open>
  What every operation on the socket \<open>s\<close> of slot \<open>i\<close> does, also an operation that opens a reserved slot:
  a registered socket stays so, or it is closed and that is reported.
\<close>

definition step_ok :: "nat \<Rightarrow> netio \<Rightarrow> socket \<Rightarrow> netio \<times> socket \<times> report \<Rightarrow> bool" where
  "step_ok i io s = (\<lambda>(io', s', r). slot_ok s' \<and> poll_at i s' (io_poll io') \<and> poll_frame i (io_poll io) (io_poll io') \<and>
     length (io_in io') \<le> length (io_in io) \<and> s_id s' = s_id s \<and>
     (registered s \<longrightarrow> registered s' \<or> s_type s' = SOCKET_TYPE_INVALID \<and> closing r (s_id s)))"

text \<open>An operation that does not open: the slot stays reserved, or not.\<close>

definition quiet :: "nat \<Rightarrow> netio \<Rightarrow> socket \<Rightarrow> netio \<times> socket \<times> report \<Rightarrow> bool" where
  "quiet i io s = (\<lambda>(io', s', r). step_ok i io s (io', s', r) \<and>
     (s_type s' = SOCKET_TYPE_RESERVE \<longleftrightarrow> s_type s = SOCKET_TYPE_RESERVE))"

lemma poll_frame_refl [simp]: "poll_frame i p p"
  by (simp add: poll_frame_def)

lemma poll_frame_trans: "poll_frame i p q \<Longrightarrow> poll_frame i q r \<Longrightarrow> poll_frame i p r"
  by (simp add: poll_frame_def)

lemma frame_del [simp]: "poll_frame i (io_poll io) (io_poll (sp_del io fd))"
  by (simp add: poll_frame_def sp_del_def)

lemma frame_write [simp]: "poll_frame i (io_poll io) (io_poll (sp_write io fd (Some i) b))"
  by (simp add: poll_frame_def sp_write_def)

lemma call_fields [simp]: "io_poll (call io c) = io_poll io" "io_in (call io c) = io_in io"
  by (simp_all add: call_def)

lemma free_fields [simp]: "io_poll (free_func io b a) = io_poll io" "io_in (free_func io b a) = io_in io"
  by (simp_all add: free_func_def)

lemma wb_free_fields [simp]: "io_poll (write_buffer_free io wb) = io_poll io" "io_in (write_buffer_free io wb) = io_in io"
  by (simp_all add: write_buffer_free_def)

lemma free_list_fields [simp]: "io_poll (free_wb_list io q) = io_poll io" "io_in (free_wb_list io q) = io_in io"
  by (induction q arbitrary: io) (simp_all add: free_wb_list_def)

lemma sp_fields [simp]: "io_in (sp_del io fd) = io_in io" "io_in (sp_write io fd i b) = io_in io"
  by (simp_all add: sp_del_def sp_write_def)

lemma slot_closed [simp]: "slot_ok (s\<lparr>s_high := [], s_low := [], s_type := t\<rparr>)"
  by (simp add: slot_ok_def)

lemma close_ok:
  assumes "poll_at i s (io_poll io)" "s_type s \<noteq> SOCKET_TYPE_RESERVE" "slot_ok s"
  shows "run_ok (\<lambda>(io', s', m). slot_ok s' \<and> poll_at i s' (io_poll io') \<and> poll_frame i (io_poll io) (io_poll io') \<and>
    io_in io' = io_in io \<and> s_id s' = s_id s \<and> s_type s' = SOCKET_TYPE_INVALID \<and> m_id m = s_id s) (force_close io s)"
proof (cases "s_type s = SOCKET_TYPE_INVALID")
  case True
  then show ?thesis using assms by (simp add: force_close_def)
next
  case False
  then show ?thesis using assms
    by (auto simp: force_close_def Let_def poll_at_def sp_del_def poll_frame_def registered_def call_def)
qed

text \<open>What is left of a list after it was sent in part.\<close>

definition list_rest :: "write_buffer list \<Rightarrow> write_buffer list \<Rightarrow> bool" where
  "list_rest q q' \<longleftrightarrow> q' = [] \<or> set (tl q') \<subseteq> set q \<and> (\<exists>wb \<in> set q. wb_base (hd q') = wb_base wb \<and>
     wb_buffer (hd q') = wb_buffer wb \<and> wb_ptr (hd q') + wb_sz (hd q') = wb_ptr wb + wb_sz wb)"

lemma rest_refl [simp]: "list_rest q q"
  by (cases q) (auto simp: list_rest_def)

lemma rest_tl: "list_rest q q' \<Longrightarrow> list_rest (x # q) q'"
  by (auto simp: list_rest_def)

definition list_ok :: "nat \<Rightarrow> netio \<Rightarrow> socket \<Rightarrow> bool \<Rightarrow> netio \<times> socket \<times> report \<Rightarrow> bool" where
  "list_ok i io s hi = (\<lambda>(io', s', r). length (io_in io') \<le> length (io_in io) \<and> s_id s' = s_id s \<and>
     poll_frame i (io_poll io) (io_poll io') \<and>
     (if r = None then io_poll io' = io_poll io \<and> s_type s' = s_type s \<and> s_fd s' = s_fd s \<and> s_protocol s' = s_protocol s \<and>
        (get_list hi s = [] \<longrightarrow> get_list hi s' = []) \<and> get_list (\<not> hi) s' = get_list (\<not> hi) s \<and>
        list_rest (get_list hi s) (get_list hi s')
      else slot_ok s' \<and> poll_at i s' (io_poll io') \<and> s_type s' = SOCKET_TYPE_INVALID \<and> closing r (s_id s) \<and> is_close r))"

lemma get_set_lists [simp]: "get_list hi (set_list hi q s) = q" "get_list (\<not> hi) (set_list hi q s) = get_list (\<not> hi) s"
  "get_list hi (s\<lparr>s_wb_size := n\<rparr>) = get_list hi s"
  by (simp_all add: get_list_def set_list_def)

lemma set_list_fields' [simp]: "s_fd (set_list hi q s) = s_fd s" "s_id (set_list hi q s) = s_id s"
  "s_type (set_list hi q s) = s_type s" "s_protocol (set_list hi q s) = s_protocol s"
  by (simp_all add: set_list_def)

lemma registered_cong: "s_type s = s_type t \<Longrightarrow> registered s = registered t"
  by (simp add: registered_def)

lemma slot_pop:
  assumes "slot_ok s" "get_list hi s = tmp # rest"
  shows "slot_ok (set_list hi rest (s\<lparr>s_wb_size := n\<rparr>))"
proof -
  have "registered (set_list hi rest (s\<lparr>s_wb_size := n\<rparr>)) = registered s" by (rule registered_cong) simp
  moreover have "registered s" using assms by (cases hi) (auto simp: slot_ok_def get_list_def)
  ultimately show ?thesis using assms unfolding slot_ok_def by (cases hi) (simp_all add: get_list_def set_list_def)
qed

lemma poll_at_cong: "s_fd s = s_fd t \<Longrightarrow> s_type s = s_type t \<Longrightarrow> poll_at i s p = poll_at i t p"
  by (simp add: poll_at_def registered_def)

lemma close_list:
  assumes "poll_at i s (io_poll io)" "s_type s \<noteq> SOCKET_TYPE_RESERVE" "slot_ok s"
    "length (io_in io) \<le> length (io_in io0)" "io_poll io = io_poll io0"
  shows "run_ok (list_ok i io0 s hi) (rbind (force_close io s) (\<lambda>(io, s, result). Done (io, s, Some (SS_CLOSE, result))))"
  unfolding run_ok_bind
  by (rule run_ok_mono [OF close_ok [OF assms(1-3)]]) (use assms(4,5) in \<open>auto simp: list_ok_def closing_def is_close_def\<close>)

lemma list_pop:
  assumes "list_ok i io1 (set_list hi rest (s\<lparr>s_wb_size := n\<rparr>)) hi x" "get_list hi s = tmp # rest"
    "length (io_in io1) \<le> length (io_in io)" "io_poll io1 = io_poll io"
  shows "list_ok i io s hi x"
  using assms rest_tl by (auto simp: list_ok_def split: if_splits)

lemma tcp_list:
  "slot_ok s \<Longrightarrow> poll_at i s (io_poll io) \<Longrightarrow> s_type s \<noteq> SOCKET_TYPE_RESERVE \<Longrightarrow>
     run_ok (list_ok i io s hi) (send_list_tcp io s hi)"
proof (induction io s hi rule: send_list_tcp.induct)
  case (1 io s hi)
  show ?case
  proof (cases "get_list hi s")
    case Nil
    then show ?thesis by (simp add: send_list_tcp.simps [of io s] list_ok_def)
  next
    case q: (Cons tmp rest)
    show ?thesis
    proof (cases "io_in io")
      case Nil
      then show ?thesis by (simp add: send_list_tcp.simps [of io s] q)
    next
      case i: (Cons r rs)
      show ?thesis
      proof (cases r)
        case r: (Ret n)
        let ?sz = "min n (wb_sz tmp)"
        let ?w = "call (io\<lparr>io_in := rs\<rparr>) (Write (s_fd s) (take ?sz (drop (wb_ptr tmp) (wb_data tmp))))"
        let ?s = "s\<lparr>s_wb_size := s_wb_size s - int ?sz\<rparr>"
        show ?thesis
        proof (cases "?sz = wb_sz tmp")
          case True
          have "poll_at i (set_list hi rest ?s) (io_poll (write_buffer_free ?w tmp))"
            using 1(4) by (simp add: poll_at_cong [of "set_list hi rest ?s" s])
          from 1(1) [OF q i refl r refl refl refl _ slot_pop [OF 1(3) q] this] True 1(5)
          have ih: "run_ok (list_ok i (write_buffer_free ?w tmp) (set_list hi rest ?s) hi)
            (send_list_tcp (write_buffer_free ?w tmp) (set_list hi rest ?s) hi)" by simp
          have "run_ok (list_ok i io s hi) (send_list_tcp (write_buffer_free ?w tmp) (set_list hi rest ?s) hi)"
            by (rule run_ok_mono [OF ih], erule list_pop [OF _ q]) (simp_all add: i)
          then show ?thesis using True by (simp add: send_list_tcp.simps [of io s] q i r Let_def)
        next
          case False
          then have "list_ok i io s hi (?w, set_list hi (tmp\<lparr>wb_ptr := wb_ptr tmp + ?sz, wb_sz := wb_sz tmp - ?sz\<rparr> # rest) ?s, None)"
            using q i by (auto simp: list_ok_def list_rest_def)
          then show ?thesis using False by (auto simp: send_list_tcp.simps [of io s] q i r Let_def)
        qed
      next
        case r: (Errno e)
        have c: "run_ok (list_ok i io s hi) (rbind (force_close (io\<lparr>io_in := rs\<rparr>) s) (\<lambda>(io, s, result). Done (io, s, Some (SS_CLOSE, result))))"
          by (rule close_list) (use 1 i in simp_all)
        show ?thesis
        proof (cases "e = EINTR")
          case True
          have "poll_at i s (io_poll (io\<lparr>io_in := rs\<rparr>))" using 1(4) by simp
          from 1(2) [OF q i refl r True 1(3) this 1(5)]
          have "run_ok (list_ok i io s hi) (send_list_tcp (io\<lparr>io_in := rs\<rparr>) s hi)"
            by (rule run_ok_mono) (use i in \<open>auto simp: list_ok_def\<close>)
          then show ?thesis using True by (simp add: send_list_tcp.simps [of io s] q i r)
        next
          case False
          have "list_ok i io s hi (io\<lparr>io_in := rs\<rparr>, s, None)" using i by (simp add: list_ok_def)
          then show ?thesis using c False by (cases e) (simp_all add: send_list_tcp.simps [of io s] q i r del: run_ok_bind)
        qed
      qed (simp_all add: send_list_tcp.simps [of io s] q i)
    qed
  qed
qed

lemma udp_list:
  "slot_ok s \<Longrightarrow> poll_at i s (io_poll io) \<Longrightarrow> run_ok (list_ok i io s hi) (send_list_udp io s hi)"
proof (induction io s hi rule: send_list_udp.induct)
  case (1 io s hi)
  show ?case
  proof (cases "get_list hi s")
    case Nil
    then show ?thesis by (simp add: send_list_udp.simps [of io s] list_ok_def)
  next
    case q: (Cons tmp rest)
    show ?thesis
    proof (cases "io_in io")
      case Nil
      then show ?thesis by (simp add: send_list_udp.simps [of io s] q)
    next
      case i: (Cons r rs)
      show ?thesis
      proof (cases r)
        case r: (Ret n)
        let ?w = "call (io\<lparr>io_in := rs\<rparr>) (Sendto (s_fd s) (drop (wb_ptr tmp) (wb_data tmp)) (udp_socket_address s (wb_udp_address tmp)))"
        let ?s = "s\<lparr>s_wb_size := s_wb_size s - int (wb_sz tmp)\<rparr>"
        have "poll_at i (set_list hi rest ?s) (io_poll (write_buffer_free ?w tmp))"
          using 1(3) by (simp add: poll_at_cong [of "set_list hi rest ?s" s])
        from 1(1) [OF q i refl r refl refl slot_pop [OF 1(2) q] this]
        have ih: "run_ok (list_ok i (write_buffer_free ?w tmp) (set_list hi rest ?s) hi)
          (send_list_udp (write_buffer_free ?w tmp) (set_list hi rest ?s) hi)" .
        have "run_ok (list_ok i io s hi) (send_list_udp (write_buffer_free ?w tmp) (set_list hi rest ?s) hi)"
          by (rule run_ok_mono [OF ih], erule list_pop [OF _ q]) (simp_all add: i)
        then show ?thesis by (simp add: send_list_udp.simps [of io s] q i r Let_def)
      next
        case r: (Errno e)
        then show ?thesis using i by (simp add: send_list_udp.simps [of io s] q list_ok_def Let_def)
      qed (simp_all add: send_list_udp.simps [of io s] q i)
    qed
  qed
qed

lemma list_step:
  assumes "slot_ok s" "poll_at i s (io_poll io)" "s_type s \<noteq> SOCKET_TYPE_RESERVE"
  shows "run_ok (list_ok i io s hi) (send_list io s hi)"
  using tcp_list [OF assms] udp_list [OF assms(1,2)] by (simp add: send_list_def)

lemma low_head:
  assumes "list_rest q (wb # q')" "\<forall>w \<in> set q. low_ok w" "\<not> list_uncomplete (wb # q')"
  shows "low_ok wb"
proof -
  obtain w where w: "w \<in> set q" "wb_base wb = wb_base w" "wb_buffer wb = wb_buffer w"
    "wb_ptr wb + wb_sz wb = wb_ptr w + wb_sz w" using assms(1) by (auto simp: list_rest_def)
  then have "low_ok w" using assms(2) by blast
  then have "(of_nat (wb_ptr wb) :: u64) = 0" "wb_ptr wb + wb_sz wb < 2 ^ 64" using w(2-4) assms(3)
    by (auto simp: low_ok_def list_uncomplete_def)
  then have "wb_ptr wb = 0" by (auto simp: word_of_nat_eq_0_iff dest: dvd_imp_le)
  then show ?thesis using \<open>low_ok w\<close> w by (simp add: low_ok_def)
qed

lemma low_list_ok:
  assumes "list_rest q q'" "\<forall>w \<in> set q. low_ok w" "\<not> list_uncomplete q'"
  shows "\<forall>w \<in> set q'. low_ok w"
  using assms low_head [of q "hd q'" "tl q'"] by (cases q') (auto simp: list_rest_def)

lemma low_fresh: "\<forall>w \<in> set q. low_ok w \<Longrightarrow> \<not> list_uncomplete q"
  by (cases q) (simp_all add: list_uncomplete_def low_ok_def)

lemma quiet_close:
  assumes "poll_at i s (io_poll io)" "s_type s \<noteq> SOCKET_TYPE_RESERVE" "slot_ok s"
    "length (io_in io) \<le> length (io_in io0)" "poll_frame i (io_poll io0) (io_poll io)" "s_id s = s_id s0"
    "s_type s0 \<noteq> SOCKET_TYPE_RESERVE" "\<And>m. f m = Some (t m, g m)" "\<And>m. t m = SS_CLOSE \<or> t m = SS_ERROR"
    "\<And>m. m_id m = s_id s0 \<Longrightarrow> m_id (g m) = s_id s0"
  shows "run_ok (quiet i io0 s0) (rbind (force_close io s) (\<lambda>(io, s, result). Done (io, s, f result)))"
  unfolding run_ok_bind
  by (rule run_ok_mono [OF close_ok [OF assms(1-3)]])
    (use assms(4-10) poll_frame_trans [OF assms(5)] in \<open>auto simp: quiet_def step_ok_def closing_def socket_type_defs\<close>)

lemma low_quiet:
  assumes ok: "slot_ok s" "poll_at i s (io_poll io)" "registered s" "s_high s = []"
  shows "run_ok (quiet i io s) (send_low io s)"
proof -
  have t: "s_type s \<noteq> SOCKET_TYPE_RESERVE" using ok(3) by (simp add: registered_def)
  have "run_ok (\<lambda>x. run_ok (quiet i io s) (case x of (io, s, r) \<Rightarrow>
       if is_close r then Done (io, s, r)
       else if list_uncomplete (s_low s) then rbind (raise_uncomplete s) (\<lambda>s. Done (io, s, None))
       else Done (io, s, None))) (send_list io s False)"
  proof (rule run_ok_mono [OF list_step [OF ok(1,2) t]], clarify)
    fix io1 s1 r
    assume l: "list_ok i io s False (io1, s1, r)"
    show "run_ok (quiet i io s)
        (if is_close r then Done (io1, s1, r)
         else if list_uncomplete (s_low s1) then rbind (raise_uncomplete s1) (\<lambda>s. Done (io1, s, None)) else Done (io1, s1, None))"
    proof (cases "r = None")
      case False
      then show ?thesis using l t by (auto simp: list_ok_def quiet_def step_ok_def socket_type_defs)
    next
      case True
      have s1: "s_type s1 = s_type s" "s_fd s1 = s_fd s" "s_id s1 = s_id s" "s_high s1 = []" "list_rest (s_low s) (s_low s1)"
        "io_poll io1 = io_poll io" "length (io_in io1) \<le> length (io_in io)"
        using l True ok(4) by (simp_all add: list_ok_def get_list_def)
      have low: "\<forall>w \<in> set (s_low s). low_ok w" using ok(1) by (simp add: slot_ok_def)
      have res: "quiet i io s (io1, s2, None)"
        if "s_type s2 = s_type s" "s_fd s2 = s_fd s" "s_id s2 = s_id s" "\<forall>w \<in> set (s_low s2). low_ok w" for s2
        using that s1 ok by (auto simp: quiet_def step_ok_def slot_ok_def poll_at_def registered_def)
      show ?thesis
      proof (cases "list_uncomplete (s_low s1)")
        case u: True
        then obtain wb q where q: "s_low s1 = wb # q" by (cases "s_low s1") (auto simp: list_uncomplete_def)
        then have "\<forall>w \<in> set q. low_ok w" using s1(5) low by (auto simp: list_rest_def)
        then show ?thesis using u q s1 True res [of "s1\<lparr>s_low := q, s_high := [wb]\<rparr>"]
          by (simp add: raise_uncomplete_def)
      next
        case False
        then show ?thesis using low_list_ok [OF s1(5) low] s1 res [of s1] True by simp
      qed
    qed
  qed
  then show ?thesis by (simp add: send_low_def)
qed

lemma check_close_quiet:
  assumes ok: "slot_ok s" "poll_at i s (io_poll io)" "registered s"
  shows "run_ok (quiet i io s) (check_close io i s)"
proof -
  have t: "s_type s \<noteq> SOCKET_TYPE_RESERVE" using ok(3) by (simp add: registered_def)
  have p: "poll_at i s (io_poll (sp_write io (s_fd s) (Some i) False))"
    using ok(2,3) by (auto simp: poll_at_def sp_write_def split: if_splits)
  have "run_ok (quiet i io s) (rbind (force_close (sp_write io (s_fd s) (Some i) False) s)
      (\<lambda>(io, s, result). Done (io, s, Some (SS_CLOSE, result))))"
    by (rule quiet_close [where t = "\<lambda>_. SS_CLOSE" and g = "\<lambda>m. m"]) (use p t ok in simp_all)
  moreover have "quiet i io s (sp_write io (s_fd s) (Some i) False, s, None)"
    using ok p by (simp add: quiet_def step_ok_def)
  ultimately show ?thesis by (simp add: check_close_def Let_def del: run_ok_bind)
qed

lemma quiet_trans:
  assumes "run_ok (quiet i io1 s1) r" "poll_frame i (io_poll io) (io_poll io1)" "length (io_in io1) \<le> length (io_in io)"
    "s_id s1 = s_id s" "registered s1" "registered s"
  shows "run_ok (quiet i io s) r"
  by (rule run_ok_mono [OF assms(1)])
    (use assms(2-) poll_frame_trans [OF assms(2)] in \<open>auto simp: quiet_def step_ok_def registered_def\<close>)

lemma buffer_quiet:
  assumes ok: "slot_ok s" "poll_at i s (io_poll io)" "registered s"
  shows "run_ok (quiet i io s) (send_buffer io i s)"
proof -
  have t: "s_type s \<noteq> SOCKET_TYPE_RESERVE" using ok(3) by (simp add: registered_def)
  have low: "\<forall>w \<in> set (s_low s). low_ok w" using ok(1) by (simp add: slot_ok_def)
  have "run_ok (\<lambda>x. run_ok (quiet i io s) (case x of (io, s, r) \<Rightarrow>
        if is_close r then Done (io, s, r)
        else if s_high s \<noteq> [] then Done (io, s, None)
        else if s_low s \<noteq> [] then send_low io s
        else check_close io i s)) (send_list io s True)"
  proof (rule run_ok_mono [OF list_step [OF ok(1,2) t]], clarify)
    fix io1 s1 r
    assume l: "list_ok i io s True (io1, s1, r)"
    show "run_ok (quiet i io s) (if is_close r then Done (io1, s1, r) else if s_high s1 \<noteq> [] then Done (io1, s1, None)
        else if s_low s1 \<noteq> [] then send_low io1 s1 else check_close io1 i s1)"
    proof (cases "r = None")
      case False
      then show ?thesis using l t by (auto simp: list_ok_def quiet_def step_ok_def socket_type_defs)
    next
      case True
      have s1: "s_type s1 = s_type s" "s_fd s1 = s_fd s" "s_id s1 = s_id s" "s_low s1 = s_low s"
        "io_poll io1 = io_poll io" "length (io_in io1) \<le> length (io_in io)"
        using l True by (simp_all add: list_ok_def get_list_def)
      have ok1: "registered s1" "slot_ok s1" "poll_at i s1 (io_poll io1)"
        using s1 ok low by (simp_all add: registered_def slot_ok_def poll_at_def)
      have "quiet i io s (io1, s1, None)" using ok1 s1 ok(3) by (simp add: quiet_def step_ok_def)
      moreover have "run_ok (quiet i io s) (send_low io1 s1)" if "s_high s1 = []"
        by (rule quiet_trans [OF low_quiet [OF ok1(2,3,1) that]]) (use s1 ok1 ok in simp_all)
      moreover have "run_ok (quiet i io s) (check_close io1 i s1)"
        by (rule quiet_trans [OF check_close_quiet [OF ok1(2,3,1)]]) (use s1 ok1 ok in simp_all)
      ultimately show ?thesis using True by simp
    qed
  qed
  then show ?thesis using low_fresh [OF low] by (simp add: send_buffer_def)
qed

lemma same_quiet: "slot_ok s \<Longrightarrow> poll_at i s (io_poll io') \<Longrightarrow> io_poll io' = io_poll io \<Longrightarrow>
    length (io_in io') \<le> length (io_in io) \<Longrightarrow> quiet i io s (io', s, r)"
  by (simp add: quiet_def step_ok_def)

text \<open>A request to send with low priority is for a plain buffer.\<close>

definition low_plain :: "bool \<Rightarrow> request_send \<Rightarrow> bool" where
  "low_plain hi rq \<longleftrightarrow> hi \<or> 0 \<le> rs_sz rq \<and> rs_sz rq < 2 ^ 31"

lemma low_plain_high [simp]: "low_plain True rq"
  by (simp add: low_plain_def)

lemma append_slot:
  assumes "slot_ok s" "registered s" "low_plain hi rq"
  shows "slot_ok (append_sendbuffer soi s rq n)" "\<not> hi \<Longrightarrow> slot_ok (append_sendbuffer_low soi s rq)"
    "slot_ok (append_sendbuffer_udp soi s hi rq a)"
proof -
  have "length (take (nat (rs_sz rq)) (rs_data rq)) < 2 ^ 64" if "\<not> hi"
  proof -
    have "length (take (nat (rs_sz rq)) (rs_data rq)) \<le> nat (rs_sz rq)" by simp
    also have "\<dots> < 2 ^ 64" using assms(3) that by (simp add: low_plain_def nat_less_iff)
    finally show ?thesis .
  qed
  then show "slot_ok (append_sendbuffer soi s rq n)" "\<not> hi \<Longrightarrow> slot_ok (append_sendbuffer_low soi s rq)"
    "slot_ok (append_sendbuffer_udp soi s hi rq a)"
    using assms
    by (auto simp: slot_ok_def append_sendbuffer_def append_sendbuffer_low_def append_sendbuffer_udp_def append_wb_def
      Let_def registered_def low_ok_def send_object_init_def low_plain_def get_list_def set_list_def split: prod.splits)
qed

lemma append_same:
  "s_type (append_sendbuffer soi s rq n) = s_type s" "s_fd (append_sendbuffer soi s rq n) = s_fd s"
  "s_id (append_sendbuffer soi s rq n) = s_id s"
  "s_type (append_sendbuffer_low soi s rq) = s_type s" "s_fd (append_sendbuffer_low soi s rq) = s_fd s"
  "s_id (append_sendbuffer_low soi s rq) = s_id s"
  "s_type (append_sendbuffer_udp soi s hi rq a) = s_type s" "s_fd (append_sendbuffer_udp soi s hi rq a) = s_fd s"
  "s_id (append_sendbuffer_udp soi s hi rq a) = s_id s"
  by (auto simp: append_sendbuffer_def append_sendbuffer_low_def append_sendbuffer_udp_def append_wb_def Let_def
    set_list_def split: prod.splits)

lemma put_quiet:
  assumes "slot_ok s'" "registered s" "poll_at i s (io_poll io')" "poll_frame i (io_poll io) (io_poll io')"
    "length (io_in io') \<le> length (io_in io)" "s_type s' = s_type s" "s_fd s' = s_fd s" "s_id s' = s_id s"
  shows "quiet i io s (io', s', r)"
  using assms by (auto simp: quiet_def step_ok_def poll_at_def registered_def)

lemma poll_write:
  "registered s \<Longrightarrow> poll_at i s (io_poll io) \<Longrightarrow> poll_at i s (io_poll (sp_write io (s_fd s) (Some i) b))"
  by (auto simp: poll_at_def sp_write_def split: if_splits)

lemma write_quiet:
  assumes "slot_ok s'" "registered s" "poll_at i s (io_poll io')" "io_poll io' = io_poll io"
    "length (io_in io') \<le> length (io_in io)" "s_type s' = s_type s" "s_fd s' = s_fd s" "s_id s' = s_id s"
  shows "quiet i io s (sp_write io' (s_fd s) (Some i) b, s', r)"
  using assms frame_write [of i io' "s_fd s" b] by (intro put_quiet poll_write) simp_all

lemma send_quiet:
  assumes ok: "slot_ok s" "poll_at i s (io_poll io)" and res: "s_type s = SOCKET_TYPE_RESERVE \<longrightarrow> s_id s \<noteq> rs_id rq"
    and low: "low_plain hi rq"
  shows "run_ok (quiet i io s) (send_socket soi io i s rq hi a)"
proof -
  obtain user base data where so: "send_object_init soi rq = (user, base, data)" by (cases "send_object_init soi rq") auto
  consider "s_type s = SOCKET_TYPE_INVALID \<or> s_id s \<noteq> rs_id rq \<or> s_type s = SOCKET_TYPE_HALFCLOSE \<or> s_type s = SOCKET_TYPE_PACCEPT"
    | "s_type s = SOCKET_TYPE_PLISTEN \<or> s_type s = SOCKET_TYPE_LISTEN"
    | "registered s" "s_type s \<noteq> SOCKET_TYPE_INVALID" "s_id s = rs_id rq" "s_type s \<noteq> SOCKET_TYPE_HALFCLOSE"
      "s_type s \<noteq> SOCKET_TYPE_PACCEPT" "s_type s \<noteq> SOCKET_TYPE_PLISTEN" "s_type s \<noteq> SOCKET_TYPE_LISTEN"
    using res by (auto simp: registered_def)
  then show ?thesis
  proof cases
    case 1
    then show ?thesis using ok by (auto simp: send_socket_def so Let_def intro!: same_quiet)
  next
    case 2
    then show ?thesis using ok by (auto simp: send_socket_def so Let_def intro!: same_quiet)
  next
    case 3
    have t: "s_type s \<noteq> SOCKET_TYPE_RESERVE" using 3(1) by (simp add: registered_def)
    note app = append_slot [OF ok(1) 3(1) low]
    show ?thesis
    proof (cases "send_buffer_empty s \<and> s_type s = SOCKET_TYPE_CONNECTED")
      case False
      then show ?thesis using 3 ok app
        by (auto simp: send_socket_def so append_same Let_def intro!: put_quiet)
    next
      case c: True
      show ?thesis
      proof (cases "io_in io")
        case Nil
        then show ?thesis using 3 c by (simp add: send_socket_def so next_ret_def Let_def)
      next
        case i: (Cons r rs)
        have fail: "run_ok (quiet i io s) (rbind (force_close (call (io\<lparr>io_in := rs\<rparr>) l) s)
            (\<lambda>(io, s, result). Done (free_func io user b, s, Some (SS_CLOSE, result))))" for l b
          unfolding run_ok_bind
          by (rule run_ok_mono [OF close_ok [of i]]) (use ok t i in \<open>auto simp: quiet_def step_ok_def closing_def socket_type_defs\<close>)
        have n: "next_ret io = Done (r, io\<lparr>io_in := rs\<rparr>)" using i by (simp add: next_ret_def)
        have freed: "quiet i io s (free_func io' user b, s, None)"
          if "io_poll io' = io_poll io" "length (io_in io') \<le> length (io_in io)" for io' b
          using that ok by (intro same_quiet) simp_all
        have kept: "quiet i io s (sp_write io' (s_fd s) (Some i) True, append_sendbuffer soi s rq k, None)"
          "quiet i io s (sp_write io' (s_fd s) (Some i) True, append_sendbuffer_udp soi s hi rq ad, None)"
          if "io_poll io' = io_poll io" "length (io_in io') \<le> length (io_in io)" for io' k ad
          using that ok 3(1) app by (auto intro!: write_quiet simp: append_same)
        show ?thesis
        proof (cases "s_protocol s = PROTOCOL_TCP")
          case True
          show ?thesis
          proof (cases r)
            case (Errno e)
            then show ?thesis using 3 c True i fail freed kept
              by (simp add: send_socket_def so n Let_def del: run_ok_bind)
          qed (use 3 c True i freed kept in \<open>simp_all add: send_socket_def so n Let_def del: run_ok_bind\<close>)
        next
          case False
          show ?thesis using 3 c False i freed kept
            by (cases r) (simp_all add: send_socket_def so n Let_def del: run_ok_bind)
        qed
      qed
    qed
  qed
qed

lemma quiet_None:
  assumes "quiet i io s (io1, s1, None)" "registered s"
  shows "registered s1"
  using assms by (simp add: quiet_def step_ok_def closing_def)

lemma close_quiet:
  assumes ok: "slot_ok s" "poll_at i s (io_poll io)" and res: "s_type s = SOCKET_TYPE_RESERVE \<longrightarrow> s_id s \<noteq> rc_id rq"
  shows "run_ok (quiet i io s) (close_socket io i s rq)"
proof (cases "s_type s = SOCKET_TYPE_INVALID \<or> s_id s \<noteq> rc_id rq")
  case True
  then show ?thesis using ok by (simp add: close_socket_def same_quiet)
next
  case False
  then have t: "s_type s \<noteq> SOCKET_TYPE_RESERVE" "s_id s = rc_id rq" using res by auto
  have reg: "registered s" if "\<not> send_buffer_empty s"
    using that ok(1) by (auto simp: slot_ok_def send_buffer_empty_def)
  have "run_ok (\<lambda>(io', s', r). quiet i io s (io', s', r) \<and> (send_buffer_empty s \<longrightarrow> r = None \<and> io' = io \<and> s' = s))
      (if send_buffer_empty s then Done (io, s, None) else send_buffer io i s)"
    using buffer_quiet [OF ok] reg same_quiet [OF ok] by (auto elim: run_ok_mono)
  then have "run_ok (\<lambda>x. run_ok (quiet i io s) (case x of (io, s, r) \<Rightarrow>
        if r \<noteq> None then Done (io, s, r)
        else if rc_shutdown rq \<or> send_buffer_empty s
        then rbind (force_close io s) (\<lambda>(io, s, result).
          Done (io, s, Some (SS_CLOSE, result\<lparr>m_id := rc_id rq, m_opaque := rc_opaque rq\<rparr>)))
        else Done (io, s\<lparr>s_type := SOCKET_TYPE_HALFCLOSE\<rparr>, None)))
      (if send_buffer_empty s then Done (io, s, None) else send_buffer io i s)"
  proof (rule run_ok_mono, clarify)
    fix io1 s1 r
    assume q: "quiet i io s (io1, s1, r)" and e: "send_buffer_empty s \<longrightarrow> r = None \<and> io1 = io \<and> s1 = s"
    show "run_ok (quiet i io s) (if r \<noteq> None then Done (io1, s1, r)
        else if rc_shutdown rq \<or> send_buffer_empty s1
        then rbind (force_close io1 s1) (\<lambda>(io, s, result).
          Done (io, s, Some (SS_CLOSE, result\<lparr>m_id := rc_id rq, m_opaque := rc_opaque rq\<rparr>)))
        else Done (io1, s1\<lparr>s_type := SOCKET_TYPE_HALFCLOSE\<rparr>, None))"
    proof (cases "r = None")
      case False
      then show ?thesis using q by simp
    next
      case True
      have s1: "slot_ok s1" "poll_at i s1 (io_poll io1)" "poll_frame i (io_poll io) (io_poll io1)"
        "length (io_in io1) \<le> length (io_in io)" "s_id s1 = s_id s" "s_type s1 \<noteq> SOCKET_TYPE_RESERVE"
        using q t(1) by (simp_all add: quiet_def step_ok_def)
      have "run_ok (quiet i io s) (rbind (force_close io1 s1) (\<lambda>(io, s, result).
          Done (io, s, Some (SS_CLOSE, result\<lparr>m_id := rc_id rq, m_opaque := rc_opaque rq\<rparr>))))"
        by (rule quiet_close [where t = "\<lambda>_. SS_CLOSE" and g = "\<lambda>m. m\<lparr>m_id := rc_id rq, m_opaque := rc_opaque rq\<rparr>"])
          (use s1 t in simp_all)
      moreover have "quiet i io s (io1, s1\<lparr>s_type := SOCKET_TYPE_HALFCLOSE\<rparr>, None)" if "\<not> send_buffer_empty s1"
      proof -
        have "registered s1" using that s1(1) by (auto simp: slot_ok_def send_buffer_empty_def)
        then show ?thesis using s1 t
          by (auto simp: quiet_def step_ok_def slot_ok_def poll_at_def registered_def socket_type_defs)
      qed
      ultimately show ?thesis using True by (simp del: run_ok_bind)
    qed
  qed
  then show ?thesis using False by (simp add: close_socket_def)
qed

lemma start_quiet:
  assumes ok: "slot_ok s" "poll_at i s (io_poll io)"
  shows "run_ok (quiet i io s) (start_socket io i s rq)"
proof -
  have "run_ok (quiet i io s) (rbind (sp_add io (s_fd s) (Some i)) (\<lambda>(e, io). case e of
             Some e \<Rightarrow> Done (io, s\<lparr>s_type := SOCKET_TYPE_INVALID\<rparr>, Some (SS_ERROR, result\<lparr>m_data := Text (strerror e)\<rparr>))
           | None \<Rightarrow> Done (io,
               s\<lparr>s_type := (if s_type s = SOCKET_TYPE_PACCEPT then SOCKET_TYPE_CONNECTED else SOCKET_TYPE_LISTEN),
                 s_opaque := op\<rparr>, r)))"
    if t: "s_type s = SOCKET_TYPE_PACCEPT \<or> s_type s = SOCKET_TYPE_PLISTEN" for result r op
  proof -
    have "\<not> registered s" using t by (auto simp: registered_def)
    then have l: "s_high s = []" "s_low s = []" "\<forall>fd w. io_poll io fd \<noteq> Some (Some i, w)"
      using ok by (auto simp: slot_ok_def poll_at_def)
    then show ?thesis using t ok
      by (cases "io_in io") (auto simp: sp_add_def quiet_def step_ok_def slot_ok_def poll_at_def registered_def
        socket_type_defs poll_frame_def split: sysret.split)
  qed
  moreover have "quiet i io s (io, s, r)" for r using ok by (simp add: same_quiet)
  moreover have "quiet i io s (io, s\<lparr>s_opaque := op\<rparr>, r)" if "s_type s = SOCKET_TYPE_CONNECTED" for r op
    by (rule put_quiet) (use ok that in \<open>auto simp: slot_ok_def registered_def socket_type_defs\<close>)
  ultimately show ?thesis by (simp add: start_socket_def Let_def del: run_ok_bind)
qed

lemma set_udp_quiet:
  assumes "slot_ok s" "poll_at i s (io_poll io)"
  shows "quiet i io s (io, set_udp_address s n a)"
proof -
  have "quiet i io s (io, s, r)" for r using assms by (simp add: same_quiet)
  moreover have "quiet i io s (io, s\<lparr>s_udp_address := b\<rparr>, r)" for r b
    using assms by (simp add: quiet_def step_ok_def slot_ok_def poll_at_def registered_def)
  ultimately show ?thesis by (simp add: set_udp_address_def Let_def)
qed

lemma setopt_quiet:
  assumes "slot_ok s" "poll_at i s (io_poll io)"
  shows "quiet i io s (setopt_socket io s n opt v, s, None)"
  using assms by (auto simp: setopt_socket_def intro: same_quiet)

lemma error_quiet:
  assumes ok: "slot_ok s" "poll_at i s (io_poll io)" "s_type s \<noteq> SOCKET_TYPE_RESERVE"
    and "length (io_in io') \<le> length (io_in io)" "io_poll io' = io_poll io"
  shows "run_ok (quiet i io s) (rbind (force_close io' s) (\<lambda>(io, s, result). Done (io, s, Some (SS_ERROR, result\<lparr>m_data := d\<rparr>))))"
    "run_ok (quiet i io s) (rbind (force_close io' s) (\<lambda>(io, s, result). Done (io, s, Some (SS_CLOSE, result))))"
proof -
  have p: "poll_at i s (io_poll io')" "poll_frame i (io_poll io) (io_poll io')" using assms by simp_all
  show "run_ok (quiet i io s) (rbind (force_close io' s) (\<lambda>(io, s, result). Done (io, s, Some (SS_ERROR, result\<lparr>m_data := d\<rparr>))))"
    by (rule quiet_close [OF p(1) ok(3,1) assms(4) p(2) refl ok(3), where t = "\<lambda>_. SS_ERROR" and g = "\<lambda>m. m\<lparr>m_data := d\<rparr>"]) simp_all
  show "run_ok (quiet i io s) (rbind (force_close io' s) (\<lambda>(io, s, result). Done (io, s, Some (SS_CLOSE, result))))"
    by (rule quiet_close [OF p(1) ok(3,1) assms(4) p(2) refl ok(3), where t = "\<lambda>_. SS_CLOSE" and g = "\<lambda>m. m"]) simp_all
qed

lemma tcp_quiet:
  assumes ok: "slot_ok s" "poll_at i s (io_poll io)" "registered s"
  shows "run_ok (quiet i io s) (forward_message_tcp io s)"
proof (cases "io_in io")
  case Nil
  then show ?thesis by (simp add: forward_message_tcp_def)
next
  case i: (Cons r rs)
  have t: "s_type s \<noteq> SOCKET_TYPE_RESERVE" using ok(3) by (simp add: registered_def)
  note e = error_quiet [OF ok(1,2) t, of "io\<lparr>io_in := rs\<rparr>"]
  have "quiet i io s (io', s, r)" if "io_poll io' = io_poll io" "length (io_in io') \<le> length (io_in io)" for io' r
    using that ok by (intro same_quiet) simp_all
  moreover have "quiet i io s (io\<lparr>io_in := rs\<rparr>, s\<lparr>s_size := n\<rparr>, r)" for n r
    by (rule put_quiet) (use ok i in \<open>simp_all add: slot_ok_def registered_def\<close>)
  ultimately show ?thesis using i e
    by (cases r) (simp_all add: forward_message_tcp_def next_ret_def Let_def del: run_ok_bind)
qed

lemma udp_quiet:
  assumes ok: "slot_ok s" "poll_at i s (io_poll io)" "registered s"
  shows "run_ok (quiet i io s) (forward_message_udp io s)"
proof (cases "io_in io")
  case Nil
  then show ?thesis by (simp add: forward_message_udp_def)
next
  case i: (Cons r rs)
  have t: "s_type s \<noteq> SOCKET_TYPE_RESERVE" using ok(3) by (simp add: registered_def)
  note e = error_quiet [OF ok(1,2) t, of "io\<lparr>io_in := rs\<rparr>"]
  have "quiet i io s (io\<lparr>io_in := rs\<rparr>, s, r)" for r
    using i ok by (intro same_quiet) simp_all
  then show ?thesis using i e
    by (cases r) (simp_all add: forward_message_udp_def next_ret_def Let_def del: run_ok_bind)
qed

lemma connect_quiet:
  assumes ok: "slot_ok s" "poll_at i s (io_poll io)" "s_type s = SOCKET_TYPE_CONNECTING"
  shows "run_ok (quiet i io s) (report_connect io i s)"
proof (cases "io_in io")
  case Nil
  then show ?thesis by (simp add: report_connect_def)
next
  case i: (Cons r rs)
  have t: "s_type s \<noteq> SOCKET_TYPE_RESERVE" and reg: "registered s" using ok(3) by (simp_all add: registered_def socket_type_defs)
  note e = error_quiet [OF ok(1,2) t, of "io\<lparr>io_in := rs\<rparr>"]
  have "quiet i io s (io', s\<lparr>s_type := SOCKET_TYPE_CONNECTED\<rparr>, q)"
    if "poll_at i s (io_poll io')" "poll_frame i (io_poll io) (io_poll io')" "length (io_in io') \<le> length (io_in io)" for io' q
    using that ok reg by (auto simp: quiet_def step_ok_def slot_ok_def poll_at_def registered_def socket_type_defs)
  note conn = this
  have w: "poll_at i s (io_poll (sp_write io' (s_fd s) (Some i) False))" if "io_poll io' = io_poll io" for io'
    using poll_write [OF reg] ok(2) that by simp
  show ?thesis
  proof (cases r)
    case (Ret n)
    define io1 where "io1 = (if send_buffer_empty s then sp_write (io\<lparr>io_in := rs\<rparr>) (s_fd s) (Some i) False else io\<lparr>io_in := rs\<rparr>)"
    have io1: "io_in io1 = rs" "poll_at i s (io_poll io1)" "poll_frame i (io_poll io) (io_poll io1)"
      using w [of "io\<lparr>io_in := rs\<rparr>"] ok(2) frame_write [of i "io\<lparr>io_in := rs\<rparr>" "s_fd s" False] by (simp_all add: io1_def)
    have "report_connect io i s = report_peer io1 (s\<lparr>s_type := SOCKET_TYPE_CONNECTED\<rparr>)"
      by (simp add: report_connect_def next_ret_def i Ret io1_def send_buffer_empty_def Let_def)
    moreover have "quiet i io s (io1\<lparr>io_in := q\<rparr>, s\<lparr>s_type := SOCKET_TYPE_CONNECTED\<rparr>, u)" if "rs = x # q" for x q u
      by (rule conn) (use io1 i that in simp_all)
    ultimately show ?thesis by (auto simp: io1(1) report_peer_def Let_def split: list.split sysret.split)
  qed (use i e in \<open>simp_all add: report_connect_def next_ret_def Let_def del: run_ok_bind\<close>)
qed

section \<open>Opening a reserved slot\<close>

definition opened :: "nat \<Rightarrow> netio \<Rightarrow> socket \<Rightarrow> netio \<times> socket \<times> report \<Rightarrow> bool" where
  "opened i io s = (\<lambda>(io', s', r). step_ok i io s (io', s', r) \<and> s_type s' \<noteq> SOCKET_TYPE_RESERVE)"

text \<open>After \<open>new_fd\<close>: the socket is as new, or the slot is free again.\<close>

definition fresh_fd :: "nat \<Rightarrow> netio \<Rightarrow> socket \<Rightarrow> int \<Rightarrow> bool \<Rightarrow> netio \<times> socket \<times> bool \<Rightarrow> bool" where
  "fresh_fd i io s fd add = (\<lambda>(io', s', ok). length (io_in io') \<le> length (io_in io) \<and> s_id s' = s_id s \<and>
     s_high s' = [] \<and> s_low s' = [] \<and>
     (if ok then s_fd s' = fd \<and> io_poll io' = (if add then (io_poll io)(fd \<mapsto> (Some i, False)) else io_poll io)
      else s_type s' = SOCKET_TYPE_INVALID \<and> io_poll io' = io_poll io))"

lemma reserved_free:
  assumes "s_type s = SOCKET_TYPE_RESERVE" "slot_ok s" "poll_at i s p"
  shows "s_high s = [] \<and> s_low s = [] \<and> (\<forall>fd w. p fd \<noteq> Some (Some i, w))"
proof -
  have "\<not> registered s" using assms(1) by (simp add: registered_def)
  then show ?thesis using assms by (auto simp: slot_ok_def poll_at_def)
qed

lemma new_fd_fresh:
  assumes "s_type s = SOCKET_TYPE_RESERVE" "slot_ok s" "poll_at i s (io_poll io)" "s_id s = n"
  shows "run_ok (fresh_fd i io s fd add) (new_fd io i s n fd protocol opaque add)"
  using assms reserved_free [OF assms(1-3)]
  by (cases "io_in io") (auto simp: new_fd_def fresh_fd_def sp_add_def split: sysret.split)

text \<open>What follows \<open>new_fd\<close>: the new type says whether the descriptor is registered.\<close>

lemma opened_new:
  assumes s: "s_type s = SOCKET_TYPE_RESERVE" "slot_ok s" "poll_at i s (io_poll io)"
    and f: "fresh_fd i io1 s fd add (io2, s2, True)" "io_poll io1 = io_poll io" "length (io_in io1) \<le> length (io_in io)"
    and s3: "s_fd s3 = s_fd s2" "s_id s3 = s_id s2" "s_high s3 = s_high s2" "s_low s3 = s_low s2"
    and t: "s_type s3 \<noteq> SOCKET_TYPE_RESERVE" "add \<Longrightarrow> registered s3"
    and io3: "io_in io3 = io_in io2" "io_poll io3 = io_poll io2 \<or> add \<and> (\<exists>w. io_poll io3 = (io_poll io2)(fd \<mapsto> (Some i, w)))"
  shows "opened i io s (io3, s3, r)"
proof -
  have "\<not> registered s" using s(1) by (simp add: registered_def)
  have free: "\<forall>fd w. io_poll io fd \<noteq> Some (Some i, w)" using reserved_free [OF s] by blast
  have s2: "length (io_in io2) \<le> length (io_in io1)" "s_id s2 = s_id s" "s_high s2 = []" "s_low s2 = []" "s_fd s2 = fd"
    "io_poll io2 = (if add then (io_poll io)(fd \<mapsto> (Some i, False)) else io_poll io)"
    using f by (simp_all add: fresh_fd_def)
  have p: "if add then \<exists>w. io_poll io3 = (io_poll io)(fd \<mapsto> (Some i, w)) else io_poll io3 = io_poll io"
    using io3(2) s2(6) by auto
  have "poll_at i s3 (io_poll io3) \<and> poll_frame i (io_poll io) (io_poll io3)"
  proof (cases add)
    case True
    then obtain w where "io_poll io3 = (io_poll io)(fd \<mapsto> (Some i, w))" using p by auto
    then show ?thesis using free t(2) True s2(5) s3(1) by (simp add: poll_at_def poll_frame_def)
  next
    case False
    then show ?thesis using p free by (simp add: poll_at_def)
  qed
  moreover have "slot_ok s3" using s3 s2 by (simp add: slot_ok_def)
  ultimately show ?thesis using \<open>\<not> registered s\<close> s3 s2 io3(1) f(3) t(1) by (simp add: opened_def step_ok_def)
qed

lemma opened_failed:
  assumes s: "s_type s = SOCKET_TYPE_RESERVE" "slot_ok s" "poll_at i s (io_poll io)"
    and "length (io_in io') \<le> length (io_in io)" "io_poll io' = io_poll io"
    and "s_type s' = SOCKET_TYPE_INVALID" "s_id s' = s_id s" "s_high s' = []" "s_low s' = []"
  shows "opened i io s (io', s', r)"
  using assms reserved_free [OF s] by (auto simp: opened_def step_ok_def slot_ok_def poll_at_def registered_def socket_type_defs)

lemma new_fd_then:
  assumes "s_type s = SOCKET_TYPE_RESERVE" "slot_ok s" "poll_at i s (io_poll io)" "s_id s = n" "io_poll io1 = io_poll io"
    and "\<And>io2 s2. fresh_fd i io1 s fd add (io2, s2, True) \<Longrightarrow> run_ok Q (g io2 s2 True)"
    and "\<And>io2 s2. fresh_fd i io1 s fd add (io2, s2, False) \<Longrightarrow> run_ok Q (g io2 s2 False)"
  shows "run_ok Q (rbind (new_fd io1 i s n fd protocol opaque add) (\<lambda>(io, ns, ok). g io ns ok))"
proof -
  have "poll_at i s (io_poll io1)" using assms(3,5) by simp
  then show ?thesis unfolding run_ok_bind
  proof (rule run_ok_mono [OF new_fd_fresh [OF assms(1,2) _ assms(4)]], clarify)
    fix io2 s2 ok
    assume "fresh_fd i io1 s fd add (io2, s2, ok)"
    then show "run_ok Q (g io2 s2 ok)" using assms(6,7) by (cases ok) auto
  qed
qed

lemma bind_opened:
  assumes s: "s_type s = SOCKET_TYPE_RESERVE" "slot_ok s" "poll_at i s (io_poll io)" "s_id s = rf_id rq"
  shows "run_ok (opened i io s) (bind_socket io i s rq)"
  unfolding bind_socket_def Let_def
proof (rule new_fd_then [OF s refl], goal_cases)
  case (1 io2 s2)
  show ?case by (simp, rule opened_new [OF s(1-3) 1 refl order_refl]) (simp_all add: registered_def socket_type_defs sp_nonblocking_def)
next
  case (2 io2 s2)
  then show ?case by (simp, intro opened_failed [OF s(1-3)]) (simp_all add: fresh_fd_def)
qed

lemma listen_opened:
  assumes s: "s_type s = SOCKET_TYPE_RESERVE" "slot_ok s" "poll_at i s (io_poll io)" "s_id s = rf_id rq"
  shows "run_ok (opened i io s) (listen_socket io i s rq)"
  unfolding listen_socket_def Let_def
proof (rule new_fd_then [OF s refl], goal_cases)
  case (1 io2 s2)
  show ?case by (simp, rule opened_new [OF s(1-3) 1 refl order_refl]) (simp_all add: registered_def socket_type_defs sp_nonblocking_def)
next
  case (2 io2 s2)
  then show ?case by (simp, intro opened_failed [OF s(1-3)]) (simp_all add: fresh_fd_def)
qed

lemma udp_opened:
  assumes s: "s_type s = SOCKET_TYPE_RESERVE" "slot_ok s" "poll_at i s (io_poll io)" "s_id s = ru_id rq"
  shows "run_ok (opened i io s) (add_udp_socket io i s rq)"
  unfolding add_udp_socket_def Let_def
proof (rule new_fd_then [OF s refl], goal_cases)
  case (1 io2 s2)
  show ?case by (simp, rule opened_new [OF s(1-3) 1 refl order_refl]) (simp_all add: registered_def socket_type_defs sp_nonblocking_def)
next
  case (2 io2 s2)
  then show ?case by (simp, intro opened_failed [OF s(1-3)]) (simp_all add: fresh_fd_def)
qed

definition same_io :: "netio \<Rightarrow> netio \<Rightarrow> bool" where
  "same_io io io' \<longleftrightarrow> io_poll io' = io_poll io \<and> length (io_in io') \<le> length (io_in io)"

lemma same_ioI: "io_poll io' = io_poll io \<Longrightarrow> length (io_in io') \<le> length (io_in io) \<Longrightarrow> same_io io io'"
  by (simp add: same_io_def)

lemma same_io_trans: "same_io io io1 \<Longrightarrow> same_io io1 io2 \<Longrightarrow> same_io io io2"
  by (simp add: same_io_def)

lemma connect_loop_io: "run_ok (\<lambda>(io', c). same_io io io') (connect_loop io e ais)"
proof (induction ais arbitrary: io e)
  case Nil
  then show ?case by (simp add: same_io_def)
next
  case (Cons ai ais)
  have next_try: "run_ok (\<lambda>(io', c). same_io io io') (connect_loop io1 e ais)" if "same_io io io1" for io1 e
    by (rule run_ok_mono [OF Cons.IH]) (use same_io_trans [OF that] in auto)
  show ?case
    by (auto simp: sp_nonblocking_def socket_keepalive_def Let_def split: list.split sysret.split intro!: next_try same_ioI)
qed

lemma open_failed_opened:
  assumes s: "s_type s = SOCKET_TYPE_RESERVE" "slot_ok s" "poll_at i s (io_poll io)" and io1: "same_io io io1"
    and "s_id s1 = s_id s" "s_high s1 = []" "s_low s1 = []"
  shows "run_ok (opened i io s) (open_failed io1 s1 rq d)"
  using assms by (auto simp: open_failed_def same_io_def intro!: opened_failed [OF s])

lemma open_fd_opened:
  assumes s: "s_type s = SOCKET_TYPE_RESERVE" "slot_ok s" "poll_at i s (io_poll io)" "s_id s = ro_id rq" and io1: "same_io io io1"
  shows "run_ok (opened i io s) (open_fd io1 i s rq c)"
proof (cases c)
  case (Inl e)
  then show ?thesis using reserved_free [OF s(1-3)] open_failed_opened [OF s(1-3) io1, of s] by (simp add: open_fd_def)
next
  case c: (Inr x)
  obtain sock connected ai where x: "x = (sock, connected, ai)" by (cases x) auto
  show ?thesis
    unfolding open_fd_def c x sum.case prod.case
  proof (rule new_fd_then [OF s], goal_cases)
    case 1
    then show ?case using io1 by (simp add: same_io_def)
  next
    case (2 io2 s2)
    have "io_poll (sp_write io2 (s_fd s2) (Some i) True) = (io_poll io2)(sock \<mapsto> (Some i, True))"
      using 2 by (simp add: fresh_fd_def sp_write_def)
    then have "opened i io s (sp_write io2 (s_fd s2) (Some i) True, s2\<lparr>s_type := SOCKET_TYPE_CONNECTING\<rparr>, None)"
      using io1 by (intro opened_new [OF s(1-3) 2]) (auto simp: registered_def socket_type_defs same_io_def)
    moreover have "opened i io s (io2, s2\<lparr>s_type := SOCKET_TYPE_CONNECTED\<rparr>, r)" for r
      using io1 by (intro opened_new [OF s(1-3) 2]) (auto simp: registered_def socket_type_defs same_io_def)
    ultimately show ?case by simp
  next
    case (3 io2 s2)
    then have "same_io io (call io2 (Close sock))" "s_id s2 = s_id s" "s_high s2 = []" "s_low s2 = []"
      using io1 by (auto simp: fresh_fd_def same_io_def)
    then show ?case using open_failed_opened [OF s(1-3)] by simp
  qed
qed

lemma open_opened:
  assumes s: "s_type s = SOCKET_TYPE_RESERVE" "slot_ok s" "poll_at i s (io_poll io)" "s_id s = ro_id rq"
  shows "run_ok (opened i io s) (open_socket io i s rq)"
proof (cases "io_in io")
  case Nil
  then show ?thesis by (simp add: open_socket_def)
next
  case i: (Cons r rs)
  let ?io1 = "(call io (Lookup (ro_host rq) (ro_port rq)))\<lparr>io_in := rs\<rparr>"
  have io1: "same_io io ?io1" using i by (simp add: same_io_def)
  have "run_ok (\<lambda>(io2, c). run_ok (opened i io s) (open_fd io2 i s rq c)) (connect_loop ?io1 Other_error ais)" for ais
    by (rule run_ok_mono [OF connect_loop_io]) (use open_fd_opened [OF s] same_io_trans [OF io1] in auto)
  moreover have "run_ok (opened i io s) (open_failed ?io1 s rq e)" for e
    using reserved_free [OF s(1-3)] open_failed_opened [OF s(1-3) io1, of s] by simp
  ultimately show ?thesis using i by (cases r) (simp_all add: open_socket_def case_prod_beta')
qed

section \<open>Slots and pending events\<close>

definition slots_ok :: "netio \<Rightarrow> socket_server \<Rightarrow> bool" where
  "slots_ok io ss \<longleftrightarrow> (\<forall>i. slot_ok (ss_slot ss i) \<and> poll_at i (ss_slot ss i) (io_poll io))"

lemma slots_step:
  assumes "slots_ok io ss" "step_ok i io (ss_slot ss i) (io', s', r)"
  shows "slots_ok io' (ss\<lparr>ss_slot := (ss_slot ss)(i := s')\<rparr>)"
  unfolding slots_ok_def
proof (intro allI conjI)
  fix j
  show "slot_ok (ss_slot (ss\<lparr>ss_slot := (ss_slot ss)(i := s')\<rparr>) j)" using assms by (simp add: slots_ok_def step_ok_def)
  show "poll_at j (ss_slot (ss\<lparr>ss_slot := (ss_slot ss)(i := s')\<rparr>) j) (io_poll io')"
  proof (cases "j = i")
    case True
    then show ?thesis using assms(2) by (simp add: step_ok_def)
  next
    case False
    have "poll_frame i (io_poll io) (io_poll io')" using assms(2) by (simp add: step_ok_def)
    then have "io_poll io fd = Some (Some j, w)" if "io_poll io' fd = Some (Some j, w)" for fd w
      using that False unfolding poll_frame_def by blast
    moreover have "poll_at j (ss_slot ss j) (io_poll io)" using assms(1) by (simp add: slots_ok_def)
    ultimately show ?thesis using False unfolding poll_at_def by auto
  qed
qed

text \<open>The slots of events, and the events that wait.\<close>

definition event_slots :: "event list \<Rightarrow> nat list" where
  "event_slots evs = List.map_filter e_s evs"

lemma event_slots_simps [simp]: "event_slots [] = []"
  "event_slots (e # evs) = (case e_s e of None \<Rightarrow> event_slots evs | Some i \<Rightarrow> i # event_slots evs)"
  by (simp_all add: event_slots_def split: option.split)

definition events_ok :: "(nat \<Rightarrow> socket) \<Rightarrow> event list \<Rightarrow> bool" where
  "events_ok slot evs \<longleftrightarrow> distinct (event_slots evs) \<and> (\<forall>i \<in> set (event_slots evs). registered (slot i))"

definition waiting :: "socket_server \<Rightarrow> event list" where
  "waiting ss = drop (ss_event_index ss) (take (ss_event_n ss) (ss_ev ss))"

definition index_ok :: "socket_server \<Rightarrow> bool" where
  "index_ok ss \<longleftrightarrow> ss_event_index ss \<le> ss_event_n ss \<and> ss_event_n ss \<le> length (ss_ev ss)"

lemma clear_slots: "set (event_slots (clear_events slot n evs)) \<subseteq> set (event_slots evs)"
  by (induction evs) (auto split: option.splits)

lemma clear_distinct: "distinct (event_slots evs) \<Longrightarrow> distinct (event_slots (clear_events slot n evs))"
  by (induction evs) (use clear_slots in \<open>auto split: option.splits\<close>)

lemma length_clear [simp]: "length (clear_events slot n evs) = length evs"
  by (induction evs) (auto split: option.splits)

lemma clear_removes:
  "distinct (event_slots evs) \<Longrightarrow> s_type (slot i) = SOCKET_TYPE_INVALID \<Longrightarrow> s_id (slot i) = n \<Longrightarrow>
     \<forall>j \<in> set (event_slots evs). j \<noteq> i \<longrightarrow> registered (slot j) \<Longrightarrow> i \<notin> set (event_slots (clear_events slot n evs))"
proof (induction evs)
  case (Cons e evs)
  show ?case
  proof (cases "e_s e")
    case (Some j)
    show ?thesis
    proof (cases "j = i")
      case False
      then have "registered (slot j)" using Cons.prems(4) Some by simp
      then have "s_type (slot j) \<noteq> SOCKET_TYPE_INVALID" by (simp add: registered_def)
      then show ?thesis using Cons Some False by simp
    qed (use Cons.prems Some in simp)
  qed (use Cons in simp)
qed simp

lemma clear_ok:
  assumes "events_ok slot evs" "\<And>j. j \<noteq> i \<Longrightarrow> slot' j = slot j"
    "registered (slot i) \<longrightarrow> registered (slot' i) \<or> s_type (slot' i) = SOCKET_TYPE_INVALID \<and> s_id (slot' i) = n"
  shows "events_ok slot' (clear_events slot' n evs)"
proof -
  have d: "distinct (event_slots evs)" "\<forall>j \<in> set (event_slots evs). registered (slot j)" using assms(1) by (simp_all add: events_ok_def)
  have o: "\<forall>j \<in> set (event_slots evs). j \<noteq> i \<longrightarrow> registered (slot' j)" using d(2) assms(2) by simp
  have "registered (slot' j)" if j: "j \<in> set (event_slots (clear_events slot' n evs))" for j
  proof (cases "j = i")
    case False
    then show ?thesis using o j clear_slots by blast
  next
    case True
    then have "i \<in> set (event_slots evs)" using j clear_slots by blast
    then have "registered (slot' i) \<or> s_type (slot' i) = SOCKET_TYPE_INVALID \<and> s_id (slot' i) = n" using d(2) assms(3) by blast
    then show ?thesis using clear_removes [of evs slot' i n] d(1) o j True by blast
  qed
  then show ?thesis using clear_distinct [OF d(1)] by (simp add: events_ok_def)
qed

lemma events_same:
  assumes "events_ok slot evs" "\<And>j. j \<in> set (event_slots evs) \<Longrightarrow> registered (slot' j)"
  shows "events_ok slot' evs"
  using assms by (simp add: events_ok_def)

lemma waiting_clear:
  assumes "index_ok ss" "t = SS_CLOSE \<or> t = SS_ERROR"
  shows "waiting (clear_closed_event ss m t) = clear_events (ss_slot ss) (m_id m) (waiting ss)"
    "index_ok (clear_closed_event ss m t)"
proof -
  let ?k = "ss_event_index ss" and ?n = "ss_event_n ss" and ?ev = "ss_ev ss"
  have k: "?k \<le> ?n" "?n \<le> length ?ev" using assms(1) by (simp_all add: index_ok_def)
  have "take (?n - ?k) (drop ?k ?ev) = waiting ss" by (simp add: waiting_def drop_take)
  then have ev: "ss_ev (clear_closed_event ss m t) = take ?k ?ev @ clear_events (ss_slot ss) (m_id m) (waiting ss) @ drop ?n ?ev"
    using assms(2) k by (simp add: clear_closed_event_def max_def)
  moreover have "length (waiting ss) = ?n - ?k" using k by (simp add: waiting_def)
  moreover have i: "ss_event_index (clear_closed_event ss m t) = ?k" "ss_event_n (clear_closed_event ss m t) = ?n"
    by (simp_all add: clear_closed_event_def)
  ultimately show "waiting (clear_closed_event ss m t) = clear_events (ss_slot ss) (m_id m) (waiting ss)"
    "index_ok (clear_closed_event ss m t)"
    using k by (simp_all add: waiting_def [of "clear_closed_event ss m t"] index_ok_def)
qed

section \<open>Requests in the pipe\<close>

text \<open>The id that a request opens, and the one that a request to close or to send is for.\<close>

definition opens :: "request \<Rightarrow> int option" where
  "opens rq = (case rq of Req_B r \<Rightarrow> Some (rf_id r) | Req_L r \<Rightarrow> Some (rf_id r) | Req_O r \<Rightarrow> Some (ro_id r)
     | Req_U r \<Rightarrow> Some (ru_id r) | _ \<Rightarrow> None)"

definition uses_id :: "request \<Rightarrow> int option" where
  "uses_id rq = (case rq of Req_K r \<Rightarrow> Some (rc_id r) | Req_D r \<Rightarrow> Some (rs_id r) | Req_P r \<Rightarrow> Some (rs_id r)
     | Req_A r _ \<Rightarrow> Some (rs_id r) | _ \<Rightarrow> None)"

definition plain_low :: "request \<Rightarrow> bool" where
  "plain_low rq = (case rq of Req_P r \<Rightarrow> low_plain False r | _ \<Rightarrow> True)"

text \<open>
  The requests in the pipe fit the reserved ids: each of these is opened by exactly one of the
  requests, and a request to close or to send is behind the one that opens its id.
\<close>

fun pipe_ok :: "int set \<Rightarrow> request list \<Rightarrow> bool" where
  "pipe_ok R [] \<longleftrightarrow> R = {}"
| "pipe_ok R (rq # rqs) \<longleftrightarrow> plain_low rq \<and>
     (case opens rq of
        Some n \<Rightarrow> n \<in> R \<and> pipe_ok (R - {n}) rqs
      | None \<Rightarrow> (case uses_id rq of Some n \<Rightarrow> n \<notin> R | None \<Rightarrow> True) \<and> pipe_ok R rqs)"

definition reserved :: "socket_server \<Rightarrow> int set" where
  "reserved ss = {n. s_type (ss_slot ss (hash_id n)) = SOCKET_TYPE_RESERVE \<and> s_id (ss_slot ss (hash_id n)) = n}"

lemma reserved_same:
  assumes "s_type s' = SOCKET_TYPE_RESERVE \<longleftrightarrow> s_type (ss_slot ss i) = SOCKET_TYPE_RESERVE" "s_id s' = s_id (ss_slot ss i)"
  shows "reserved (ss\<lparr>ss_slot := (ss_slot ss)(i := s')\<rparr>) = reserved ss"
  using assms by (auto simp: reserved_def)

lemma reserved_opened:
  assumes "n \<in> reserved ss" "s_type s' \<noteq> SOCKET_TYPE_RESERVE"
  shows "reserved (ss\<lparr>ss_slot := (ss_slot ss)(hash_id n := s')\<rparr>) = reserved ss - {n}"
  using assms by (auto simp: reserved_def)

section \<open>The invariant\<close>

definition server_inv :: "netio \<Rightarrow> socket_server \<Rightarrow> bool" where
  "server_inv io ss \<longleftrightarrow> slots_ok io ss \<and> index_ok ss \<and> events_ok (ss_slot ss) (waiting ss) \<and> pipe_ok (reserved ss) (ss_pipe ss)"

text \<open>
  After a request or an event on slot \<open>i\<close>: the state of the server, with the events that wait, and what
  the operation does to the registered socket of the slot.
\<close>

definition after_op :: "netio \<Rightarrow> socket_server \<Rightarrow> nat \<Rightarrow> netio \<times> socket_server \<times> report \<Rightarrow> bool" where
  "after_op io ss i = (\<lambda>(io', ss', r). \<exists>s'. ss' = ss\<lparr>ss_slot := (ss_slot ss)(i := s')\<rparr> \<and> slots_ok io' ss' \<and>
     length (io_in io') \<le> length (io_in io) \<and>
     (registered (ss_slot ss i) \<longrightarrow> registered s' \<or> s_type s' = SOCKET_TYPE_INVALID \<and> s_id s' = s_id (ss_slot ss i) \<and>
       closing r (s_id (ss_slot ss i))))"

lemma after_step:
  assumes "slots_ok io ss" "step_ok i io (ss_slot ss i) (io', s', r)"
  shows "after_op io ss i (io', ss\<lparr>ss_slot := (ss_slot ss)(i := s')\<rparr>, r)"
  unfolding after_op_def prod.case
  by (rule exI [of _ s']) (use slots_step [OF assms] assms(2) in \<open>auto simp: step_ok_def\<close>)

lemma step_id: "step_ok i io s (io', s', r) \<Longrightarrow> s_id s' = s_id s"
  by (simp add: step_ok_def)

lemma on_slot_quiet:
  assumes "slots_ok io ss" "run_ok (quiet i io (ss_slot ss i)) (f (ss_slot ss i))"
  shows "run_ok (\<lambda>(io', ss', r). after_op io ss i (io', ss', r) \<and> reserved ss' = reserved ss) (on_slot i f ss)"
  unfolding on_slot_def run_ok_bind
  by (rule run_ok_mono [OF assms(2)])
    (use assms(1) in \<open>auto simp: quiet_def intro!: after_step reserved_same dest: step_id\<close>)

lemma on_slot_opened:
  assumes "slots_ok io ss" "n \<in> reserved ss" "run_ok (opened (hash_id n) io (ss_slot ss (hash_id n))) (f (ss_slot ss (hash_id n)))"
  shows "run_ok (\<lambda>(io', ss', r). after_op io ss (hash_id n) (io', ss', r) \<and> reserved ss' = reserved ss - {n}) (on_slot (hash_id n) f ss)"
  unfolding on_slot_def run_ok_bind
  by (rule run_ok_mono [OF assms(3)])
    (use assms(1,2) in \<open>auto simp: opened_def reserved_opened intro: after_step\<close>)

text \<open>The slot of a request.\<close>

definition request_slot :: "request \<Rightarrow> nat" where
  "request_slot rq = (case rq of Req_S r \<Rightarrow> hash_id (rt_id r) | Req_B r \<Rightarrow> hash_id (rf_id r) | Req_L r \<Rightarrow> hash_id (rf_id r)
     | Req_K r \<Rightarrow> hash_id (rc_id r) | Req_O r \<Rightarrow> hash_id (ro_id r) | Req_X \<Rightarrow> 0 | Req_D r \<Rightarrow> hash_id (rs_id r)
     | Req_P r \<Rightarrow> hash_id (rs_id r) | Req_A r _ \<Rightarrow> hash_id (rs_id r) | Req_C n _ \<Rightarrow> hash_id n | Req_T n _ _ \<Rightarrow> hash_id n
     | Req_U r \<Rightarrow> hash_id (ru_id r))"

lemma unused_id: "n \<notin> reserved ss \<Longrightarrow>
    s_type (ss_slot ss (hash_id n)) = SOCKET_TYPE_RESERVE \<longrightarrow> s_id (ss_slot ss (hash_id n)) \<noteq> n"
  by (auto simp: reserved_def)

lemma reserved_id: "n \<in> reserved ss \<Longrightarrow>
    s_type (ss_slot ss (hash_id n)) = SOCKET_TYPE_RESERVE \<and> s_id (ss_slot ss (hash_id n)) = n"
  by (simp add: reserved_def)

lemma slot_at: "slots_ok io ss \<Longrightarrow> slot_ok (ss_slot ss i) \<and> poll_at i (ss_slot ss i) (io_poll io)"
  by (simp add: slots_ok_def)

lemma ctrl_quiet:
  assumes ok: "slots_ok io ss" and p: "pipe_ok (reserved ss) (rq # rqs)" and o: "opens rq = None"
  shows "run_ok (\<lambda>(io', ss', r). after_op io ss (request_slot rq) (io', ss', r) \<and> reserved ss' = reserved ss) (ctrl_cmd io ss rq)"
proof -
  note at = slot_at [OF ok]
  have same: "after_op io ss 0 (io, ss, r)" for r
    using ok by (auto simp: after_op_def intro!: exI [of _ "ss_slot ss 0"])
  note u = on_slot_quiet [OF ok]
  show ?thesis
    using p o
    by (cases rq) (auto simp: ctrl_cmd_def request_slot_def opens_def uses_id_def plain_low_def same
      intro!: u start_quiet close_quiet send_quiet setopt_quiet set_udp_quiet unused_id at [THEN conjunct1] at [THEN conjunct2]
      split: prod.split)
qed

lemma ctrl_opened:
  assumes ok: "slots_ok io ss" and p: "pipe_ok (reserved ss) (rq # rqs)" and o: "opens rq = Some n"
  shows "run_ok (\<lambda>(io', ss', r). after_op io ss (request_slot rq) (io', ss', r) \<and> reserved ss' = reserved ss - {n}) (ctrl_cmd io ss rq)"
proof -
  note at = slot_at [OF ok]
  have "n \<in> reserved ss" using p o by simp
  then show ?thesis
    using o
    by (cases rq) (auto simp: ctrl_cmd_def request_slot_def opens_def reserved_id
      intro!: on_slot_opened [OF ok] bind_opened listen_opened open_opened udp_opened at [THEN conjunct1] at [THEN conjunct2])
qed

lemma clear_fields [simp]: "ss_slot (clear_closed_event ss m t) = ss_slot ss" "ss_pipe (clear_closed_event ss m t) = ss_pipe ss"
  "reserved (clear_closed_event ss m t) = reserved ss" "slots_ok io (clear_closed_event ss m t) = slots_ok io ss"
  by (simp_all add: clear_closed_event_def reserved_def slots_ok_def)

lemma put_fields [simp]: "waiting (ss\<lparr>ss_slot := f\<rparr>) = waiting ss" "index_ok (ss\<lparr>ss_slot := f\<rparr>) = index_ok ss"
  by (simp_all add: waiting_def index_ok_def)

definition cleared :: "socket_server \<Rightarrow> report \<Rightarrow> socket_server" where
  "cleared ss r = (case r of Some (t, m) \<Rightarrow> clear_closed_event ss m t | None \<Rightarrow> ss)"

lemma after_events:
  assumes op: "after_op io ss i (io', ss', r)" and idx: "index_ok ss" and ev: "events_ok (ss_slot ss) (waiting ss)"
  shows "index_ok (cleared ss' r) \<and> events_ok (ss_slot ss') (waiting (cleared ss' r))"
proof -
  obtain s' where ss': "ss' = ss\<lparr>ss_slot := (ss_slot ss)(i := s')\<rparr>"
    and reg: "registered (ss_slot ss i) \<longrightarrow> registered s' \<or> s_type s' = SOCKET_TYPE_INVALID \<and> s_id s' = s_id (ss_slot ss i) \<and>
       closing r (s_id (ss_slot ss i))"
    using op by (auto simp: after_op_def)
  have idx': "index_ok ss'" and w: "waiting ss' = waiting ss" using idx by (simp_all add: ss')
  show ?thesis
  proof (cases "\<exists>t m. r = Some (t, m) \<and> (t = SS_CLOSE \<or> t = SS_ERROR)")
    case True
    then obtain t m where r: "r = Some (t, m)" "t = SS_CLOSE \<or> t = SS_ERROR" by blast
    have "events_ok (ss_slot ss') (clear_events (ss_slot ss') (m_id m) (waiting ss))"
      by (rule clear_ok [OF ev, of i]) (use reg r in \<open>auto simp: ss' closing_def\<close>)
    then show ?thesis using waiting_clear [OF idx' r(2), of m] r(1) w by (simp add: cleared_def)
  next
    case False
    then have "\<not> closing r n" for n by (auto simp: closing_def)
    then have "registered (ss_slot ss j) \<longrightarrow> registered (ss_slot ss' j)" for j using reg by (simp add: ss')
    then have "events_ok (ss_slot ss') (waiting ss)" using ev by (auto simp: events_ok_def)
    moreover have "cleared ss' r = ss'" using False by (auto simp: cleared_def clear_closed_event_def split: option.splits)
    ultimately show ?thesis using idx' w by simp
  qed
qed

lemma pipe_fields [simp]: "reserved (ss\<lparr>ss_pipe := q\<rparr>) = reserved ss" "slots_ok io (ss\<lparr>ss_pipe := q\<rparr>) = slots_ok io ss"
  "waiting (ss\<lparr>ss_pipe := q\<rparr>) = waiting ss" "index_ok (ss\<lparr>ss_pipe := q\<rparr>) = index_ok ss"
  by (simp_all add: reserved_def slots_ok_def waiting_def index_ok_def)

lemma cleared_fields [simp]: "ss_slot (cleared ss r) = ss_slot ss" "ss_pipe (cleared ss r) = ss_pipe ss"
  "reserved (cleared ss r) = reserved ss" "slots_ok io (cleared ss r) = slots_ok io ss"
  by (simp_all add: cleared_def split: option.split prod.split)

lemma after_frame: "after_op io ss i (io', ss', r) \<Longrightarrow> slots_ok io' ss' \<and> ss_pipe ss' = ss_pipe ss \<and>
    length (io_in io') \<le> length (io_in io) \<and> waiting ss' = waiting ss"
  by (auto simp: after_op_def)

lemma ctrl_round:
  assumes inv: "server_inv io ss" and q: "ss_pipe ss = rq # rqs"
  shows "run_ok (\<lambda>(io', ss', r). server_inv io' (cleared ss' r) \<and>
    ss_pipe ss' = rqs \<and> length (io_in io') \<le> length (io_in io) \<and> waiting ss' = waiting ss) (ctrl_cmd io (ss\<lparr>ss_pipe := rqs\<rparr>) rq)"
proof -
  let ?ss = "ss\<lparr>ss_pipe := rqs\<rparr>"
  have ok: "slots_ok io ?ss" "pipe_ok (reserved ?ss) (rq # rqs)" "index_ok ?ss" "events_ok (ss_slot ?ss) (waiting ?ss)"
    using inv q by (simp_all add: server_inv_def)
  have res: "run_ok (\<lambda>(io', ss', r). after_op io ?ss (request_slot rq) (io', ss', r) \<and> pipe_ok (reserved ss') rqs) (ctrl_cmd io ?ss rq)"
  proof (cases "opens rq")
    case None
    then have "pipe_ok (reserved ?ss) rqs" using ok(2) by simp
    then show ?thesis by (auto intro: run_ok_mono [OF ctrl_quiet [OF ok(1,2) None]])
  next
    case (Some n)
    then have "pipe_ok (reserved ?ss - {n}) rqs" using ok(2) by simp
    then show ?thesis by (auto intro: run_ok_mono [OF ctrl_opened [OF ok(1,2) Some]])
  qed
  show ?thesis
    by (rule run_ok_mono [OF res])
      (use after_events [OF _ ok(3,4)] after_frame in \<open>fastforce simp: server_inv_def\<close>)
qed

section \<open>New ids\<close>

lemma masked_id: "0 \<le> sint (w AND 0x7fffffff :: u32)"
proof -
  have "\<not> bit (w AND 0x7fffffff :: u32) 31" by (simp add: bit_and_iff)
  then show ?thesis using bit_last_iff [of "w AND 0x7fffffff :: u32"] by (simp add: not_less)
qed

text \<open>A new id is not negative, its slot was free, and only this slot is changed.\<close>

lemma reserve_loop_ok:
  "reserve_loop n ss = (ss', sid) \<Longrightarrow> (\<exists>a. ss' = ss\<lparr>ss_alloc_id := a\<rparr> \<and> sid = -1) \<or>
     (\<exists>a. 0 \<le> sid \<and> s_type (ss_slot ss (hash_id sid)) = SOCKET_TYPE_INVALID \<and>
       ss' = ss\<lparr>ss_alloc_id := a, ss_slot := (ss_slot ss)(hash_id sid := (ss_slot ss (hash_id sid))\<lparr>s_type := SOCKET_TYPE_RESERVE, s_id := sid, s_fd := -1\<rparr>)\<rparr>)"
proof (induction n arbitrary: ss)
  case 0
  then show ?case by (auto intro!: exI [of _ "ss_alloc_id ss"])
next
  case (Suc n)
  define a where "a = (if sint (ss_alloc_id ss + 1) < 0 then (ss_alloc_id ss + 1) AND 0x7fffffff else ss_alloc_id ss + 1)"
  have a: "0 \<le> sint a" using masked_id by (simp add: a_def)
  show ?case
  proof (cases "s_type (ss_slot ss (hash_id (sint a))) = SOCKET_TYPE_INVALID")
    case True
    then have e: "sid = sint a" "ss' = ss\<lparr>ss_alloc_id := a, ss_slot := (ss_slot ss)(hash_id (sint a) :=
        (ss_slot ss (hash_id (sint a)))\<lparr>s_type := SOCKET_TYPE_RESERVE, s_id := sint a, s_fd := -1\<rparr>)\<rparr>"
      using Suc.prems by (auto simp: Let_def simp flip: a_def)
    show ?thesis using a True unfolding e by blast
  next
    case False
    then have "reserve_loop n (ss\<lparr>ss_alloc_id := a\<rparr>) = (ss', sid)" using Suc.prems by (simp add: Let_def flip: a_def)
    from Suc.IH [OF this] show ?thesis by auto
  qed
qed

lemma reserve_ok:
  assumes "reserve_id ss = (ss', sid)" "\<not> sid < 0"
  shows "s_type (ss_slot ss (hash_id sid)) = SOCKET_TYPE_INVALID \<and>
    (\<exists>a. ss' = ss\<lparr>ss_alloc_id := a, ss_slot := (ss_slot ss)(hash_id sid := (ss_slot ss (hash_id sid))\<lparr>s_type := SOCKET_TYPE_RESERVE, s_id := sid, s_fd := -1\<rparr>)\<rparr>)"
  using reserve_loop_ok [of MAX_SOCKET ss ss' sid] assms by (auto simp: reserve_id_def)

lemma reserve_none:
  assumes "reserve_id ss = (ss', sid)" "sid < 0"
  shows "\<exists>a. ss' = ss\<lparr>ss_alloc_id := a\<rparr>"
  using reserve_loop_ok [of MAX_SOCKET ss ss' sid] assms by (auto simp: reserve_id_def)

lemma alloc_fields [simp]: "slots_ok io (ss\<lparr>ss_alloc_id := a\<rparr>) = slots_ok io ss" "reserved (ss\<lparr>ss_alloc_id := a\<rparr>) = reserved ss"
  "waiting (ss\<lparr>ss_alloc_id := a\<rparr>) = waiting ss" "index_ok (ss\<lparr>ss_alloc_id := a\<rparr>) = index_ok ss"
  by (simp_all add: slots_ok_def reserved_def waiting_def index_ok_def)

text \<open>What \<open>report_accept\<close> does to the server: a free slot can become one that is to be accepted.\<close>

definition accept_ok :: "netio \<Rightarrow> socket_server \<Rightarrow> netio \<times> socket_server \<times> report \<Rightarrow> bool" where
  "accept_ok io ss = (\<lambda>(io', ss', r). slots_ok io' ss' \<and> reserved ss' = reserved ss \<and> ss_pipe ss' = ss_pipe ss \<and>
     waiting ss' = waiting ss \<and> index_ok ss' = index_ok ss \<and> length (io_in io') \<le> length (io_in io) \<and>
     (\<forall>j. registered (ss_slot ss j) \<longrightarrow> registered (ss_slot ss' j)))"

lemma free_slot:
  assumes "slots_ok io ss" "s_type (ss_slot ss i) = SOCKET_TYPE_INVALID" "\<not> registered s'"
    "s_high s' = s_high (ss_slot ss i)" "s_low s' = s_low (ss_slot ss i)"
  shows "slots_ok io (ss\<lparr>ss_slot := (ss_slot ss)(i := s')\<rparr>)"
proof -
  have "\<not> registered (ss_slot ss i)" using assms(2) by (simp add: registered_def)
  then have "slot_ok s'" "poll_at i s' (io_poll io)" using assms slot_at [OF assms(1), of i]
    by (auto simp: slot_ok_def poll_at_def)
  then show ?thesis using assms(1) by (auto simp: slots_ok_def)
qed

lemma report_accept_ok:
  assumes ok: "slots_ok io ss"
  shows "run_ok (accept_ok io ss) (report_accept io i ss)"
proof (cases "io_in io")
  case Nil
  then show ?thesis by (simp add: report_accept_def Let_def)
next
  case i: (Cons r rs)
  have io: "slots_ok io' ss" if "io_poll io' = io_poll io" for io' using ok that by (simp add: slots_ok_def)
  have id: "accept_ok io ss (io', ss\<lparr>ss_alloc_id := a\<rparr>, r)" "accept_ok io ss (io', ss, r)"
    if "io_poll io' = io_poll io" "length (io_in io') \<le> length (io_in io)" for io' a r
    using io that by (simp_all add: accept_ok_def)
  show ?thesis
  proof (cases r)
    case (Accepted fd u)
    obtain ss1 sid where res: "reserve_id ss = (ss1, sid)" by (cases "reserve_id ss")
    show ?thesis
    proof (cases "sid < 0")
      case True
      obtain a where "ss1 = ss\<lparr>ss_alloc_id := a\<rparr>" using reserve_none [OF res True] by blast
      then show ?thesis using id(1) True i Accepted by (simp add: report_accept_def Let_def next_ret_def res)
    next
      case False
      let ?h = "hash_id sid"
      let ?s = "(ss_slot ss ?h)\<lparr>s_type := SOCKET_TYPE_RESERVE, s_id := sid, s_fd := -1\<rparr>"
      obtain a where ss1: "ss1 = ss\<lparr>ss_alloc_id := a, ss_slot := (ss_slot ss)(?h := ?s)\<rparr>"
        and free: "s_type (ss_slot ss ?h) = SOCKET_TYPE_INVALID" using reserve_ok [OF res False] by blast
      have empty: "s_high (ss_slot ss ?h) = []" "s_low (ss_slot ss ?h) = []"
        using slot_at [OF ok, of ?h] free by (auto simp: slot_ok_def registered_def)
      have acc: "accept_ok io ss (io', ss\<lparr>ss_alloc_id := a, ss_slot := (ss_slot ss)(?h := s')\<rparr>, r)"
        if "io_poll io' = io_poll io" "length (io_in io') \<le> length (io_in io)" "s_type s' = SOCKET_TYPE_PACCEPT" "s_high s' = []" "s_low s' = []"
        for io' s' r
      proof -
        have "slots_ok io' (ss\<lparr>ss_slot := (ss_slot ss)(?h := s')\<rparr>)"
          by (rule free_slot [OF io [OF that(1)] free]) (use that empty in \<open>simp_all add: registered_def\<close>)
        then have "slots_ok io' (ss\<lparr>ss_alloc_id := a, ss_slot := (ss_slot ss)(?h := s')\<rparr>)" by (simp add: slots_ok_def)
        moreover have "reserved (ss\<lparr>ss_alloc_id := a, ss_slot := (ss_slot ss)(?h := s')\<rparr>) = reserved ss"
          using free that(3) by (auto simp: reserved_def socket_type_defs)
        moreover have "\<not> registered (ss_slot ss ?h)" using free by (simp add: registered_def)
        ultimately show ?thesis using that by (simp add: accept_ok_def)
      qed
      show ?thesis using False i Accepted empty
        by (auto simp: report_accept_def Let_def next_ret_def res ss1 new_fd_def socket_keepalive_def sp_nonblocking_def intro!: acc)
    qed
  qed (use id(2) i in \<open>simp_all add: report_accept_def Let_def next_ret_def\<close>)
qed

section \<open>Events\<close>

lemma event_rounds_simps [simp]: "event_rounds [] = 0"
  "event_rounds (e # es) = (if e_read e then 2 else 1) + event_rounds es"
  by (simp_all add: event_rounds_def)

lemma waiting_Cons:
  assumes "index_ok ss" "ss_event_index ss < ss_event_n ss"
  shows "waiting ss = ss_ev ss ! ss_event_index ss # waiting (ss\<lparr>ss_event_index := ss_event_index ss + 1\<rparr>)"
    "index_ok (ss\<lparr>ss_event_index := ss_event_index ss + 1\<rparr>)"
  using assms by (simp_all add: waiting_def index_ok_def flip: Cons_nth_drop_Suc)

text \<open>The event is put back, perhaps changed.\<close>

lemma waiting_back:
  assumes "index_ok ss" "ss_event_index ss = Suc k"
  shows "waiting (ss\<lparr>ss_event_index := k\<rparr>) = ss_ev ss ! k # waiting ss"
    "waiting (ss\<lparr>ss_ev := (ss_ev ss)[k := e], ss_event_index := k\<rparr>) = e # waiting ss"
    "index_ok (ss\<lparr>ss_event_index := k\<rparr>)" "index_ok (ss\<lparr>ss_ev := (ss_ev ss)[k := e], ss_event_index := k\<rparr>)"
proof -
  have k: "k < ss_event_n ss" "ss_event_n ss \<le> length (ss_ev ss)" using assms by (simp_all add: index_ok_def)
  then show "index_ok (ss\<lparr>ss_event_index := k\<rparr>)" "index_ok (ss\<lparr>ss_ev := (ss_ev ss)[k := e], ss_event_index := k\<rparr>)"
    by (simp_all add: index_ok_def)
  show "waiting (ss\<lparr>ss_event_index := k\<rparr>) = ss_ev ss ! k # waiting ss"
    using k assms(2) by (simp add: waiting_def flip: Cons_nth_drop_Suc)
  have "drop k (take (ss_event_n ss) ((ss_ev ss)[k := e])) = e # drop (Suc k) (take (ss_event_n ss) (ss_ev ss))"
    using k by (simp add: take_update_swap flip: Cons_nth_drop_Suc)
  then show "waiting (ss\<lparr>ss_ev := (ss_ev ss)[k := e], ss_event_index := k\<rparr>) = e # waiting ss"
    using assms(2) by (simp add: waiting_def)
qed

lemma event_fields [simp]: "slots_ok io (ss\<lparr>ss_event_index := k\<rparr>) = slots_ok io ss" "reserved (ss\<lparr>ss_event_index := k\<rparr>) = reserved ss"
  "slots_ok io (ss\<lparr>ss_ev := es\<rparr>) = slots_ok io ss" "reserved (ss\<lparr>ss_ev := es\<rparr>) = reserved ss"
  "slots_ok io (ss\<lparr>ss_event_n := k\<rparr>) = slots_ok io ss" "reserved (ss\<lparr>ss_event_n := k\<rparr>) = reserved ss"
  "slots_ok io (ss\<lparr>ss_checkctrl := b\<rparr>) = slots_ok io ss" "reserved (ss\<lparr>ss_checkctrl := b\<rparr>) = reserved ss"
  "waiting (ss\<lparr>ss_checkctrl := b\<rparr>) = waiting ss" "index_ok (ss\<lparr>ss_checkctrl := b\<rparr>) = index_ok ss"
  by (simp_all add: slots_ok_def reserved_def waiting_def index_ok_def)

definition event_post :: "netio \<Rightarrow> socket_server \<Rightarrow> netio \<times> socket_server \<times> round \<Rightarrow> bool" where
  "event_post io ss = (\<lambda>(io', ss', rd). server_inv io' ss' \<and> ss_pipe ss' = ss_pipe ss \<and>
     length (io_in io') \<le> length (io_in io) \<and> (rd = Again \<longrightarrow> event_rounds (waiting ss') < event_rounds (waiting ss)))"

text \<open>An operation on the slot \<open>i\<close> of the event that was taken; no other event is for this slot.\<close>

lemma event_op:
  assumes inv: "server_inv io ss1" and op: "after_op io ss1 i (io', ss', r)" and res: "reserved ss' = reserved ss1"
    and i: "i \<notin> set (event_slots (waiting ss1))"
  shows "server_inv io' ss' \<and> ss_pipe ss' = ss_pipe ss1 \<and> length (io_in io') \<le> length (io_in io) \<and> waiting ss' = waiting ss1 \<and>
    ss_event_index ss' = ss_event_index ss1 \<and> ss_ev ss' = ss_ev ss1 \<and>
    (registered (ss_slot ss1 i) \<longrightarrow> registered (ss_slot ss' i) \<or> closing r (s_id (ss_slot ss1 i)))"
proof -
  obtain s' where ss': "ss' = ss1\<lparr>ss_slot := (ss_slot ss1)(i := s')\<rparr>"
    and reg: "registered (ss_slot ss1 i) \<longrightarrow> registered s' \<or> closing r (s_id (ss_slot ss1 i))"
    using op by (auto simp: after_op_def)
  have "events_ok (ss_slot ss') (waiting ss1)"
    by (rule events_same [of "ss_slot ss1"]) (use inv i in \<open>auto simp: ss' server_inv_def events_ok_def\<close>)
  then show ?thesis using inv after_frame [OF op] res reg by (simp add: server_inv_def ss')
qed

lemma event_start:
  assumes inv: "server_inv io ss" and k: "ss_event_index ss < ss_event_n ss" and e: "e = ss_ev ss ! ss_event_index ss"
    and ss1: "ss1 = ss\<lparr>ss_event_index := ss_event_index ss + 1\<rparr>"
  shows "server_inv io ss1" "waiting ss = e # waiting ss1" "ss_pipe ss1 = ss_pipe ss" "ss_slot ss1 = ss_slot ss"
    "ss_event_index ss1 = Suc (ss_event_index ss)" "ss_ev ss1 = ss_ev ss"
    "e_s e = Some i \<Longrightarrow> registered (ss_slot ss i) \<and> i \<notin> set (event_slots (waiting ss1))"
proof -
  have w: "waiting ss = e # waiting ss1" "index_ok ss1"
    using waiting_Cons [of ss] inv k by (simp_all add: server_inv_def e ss1)
  have ev: "events_ok (ss_slot ss) (e # waiting ss1)" using inv w(1) by (simp add: server_inv_def)
  then have "events_ok (ss_slot ss) (waiting ss1)" by (auto simp: events_ok_def split: option.splits)
  then show "server_inv io ss1" using inv w(2) by (simp add: server_inv_def ss1)
  show "waiting ss = e # waiting ss1" by (rule w(1))
  show "ss_pipe ss1 = ss_pipe ss" "ss_slot ss1 = ss_slot ss" "ss_event_index ss1 = Suc (ss_event_index ss)" "ss_ev ss1 = ss_ev ss"
    by (simp_all add: ss1)
  show "registered (ss_slot ss i) \<and> i \<notin> set (event_slots (waiting ss1))" if "e_s e = Some i"
    using ev that by (simp add: events_ok_def)
qed

text \<open>The event goes back to the front: its slot is still registered.\<close>

lemma event_again:
  assumes inv: "server_inv io ss" and k: "ss_event_index ss = Suc k" and e: "e_s e = Some i" "registered (ss_slot ss i)"
    and i: "i \<notin> set (event_slots (waiting ss))"
  shows "server_inv io (ss\<lparr>ss_ev := (ss_ev ss)[k := e], ss_event_index := k\<rparr>)"
    "waiting (ss\<lparr>ss_ev := (ss_ev ss)[k := e], ss_event_index := k\<rparr>) = e # waiting ss"
    "ss_ev ss ! k = e \<Longrightarrow> server_inv io (ss\<lparr>ss_event_index := k\<rparr>)"
proof -
  have idx: "index_ok ss" using inv by (simp add: server_inv_def)
  note w = waiting_back [OF idx k]
  have "events_ok (ss_slot ss) (e # waiting ss)" using inv e i by (auto simp: server_inv_def events_ok_def)
  then show "server_inv io (ss\<lparr>ss_ev := (ss_ev ss)[k := e], ss_event_index := k\<rparr>)"
    "ss_ev ss ! k = e \<Longrightarrow> server_inv io (ss\<lparr>ss_event_index := k\<rparr>)"
    using inv w by (simp_all add: server_inv_def)
  show "waiting (ss\<lparr>ss_ev := (ss_ev ss)[k := e], ss_event_index := k\<rparr>) = e # waiting ss" by (rule w(2))
qed

lemma handle_read_ok:
  assumes inv: "server_inv io ss" and k: "ss_event_index ss = Suc k" and e: "e_s e = Some i" "registered (ss_slot ss i)" "e_read e"
    and i: "i \<notin> set (event_slots (waiting ss))" and ev: "ss_ev ss ! k = e"
  shows "run_ok (\<lambda>(io', ss', rd). server_inv io' ss' \<and> ss_pipe ss' = ss_pipe ss \<and> length (io_in io') \<le> length (io_in io) \<and>
    (rd = Again \<longrightarrow> event_rounds (waiting ss') \<le> Suc (event_rounds (waiting ss)))) (handle_read io ss k e i)"
proof -
  let ?udp = "s_protocol (ss_slot ss i) \<noteq> PROTOCOL_TCP"
  have ok: "slots_ok io ss" using inv by (simp add: server_inv_def)
  note at = slot_at [OF ok, of i]
  have "run_ok (quiet i io (ss_slot ss i)) ((if ?udp then forward_message_udp io else forward_message_tcp io) (ss_slot ss i))"
    using tcp_quiet udp_quiet at e(2) by simp
  from on_slot_quiet [where i = i and f = "if ?udp then forward_message_udp io else forward_message_tcp io", OF ok this]
  show ?thesis
    unfolding handle_read_def Let_def run_ok_bind
  proof (rule run_ok_mono, clarify)
    fix io1 ss1 r
    assume op: "after_op io ss i (io1, ss1, r)" "reserved ss1 = reserved ss"
    from event_op [OF inv op i]
    have inv1: "server_inv io1 ss1" "ss_pipe ss1 = ss_pipe ss" "length (io_in io1) \<le> length (io_in io)" "waiting ss1 = waiting ss"
      "ss_event_index ss1 = Suc k" "ss_ev ss1 ! k = e" and reg: "registered (ss_slot ss1 i) \<or> closing r (s_id (ss_slot ss i))"
      using e(2) k ev by simp_all
    let ?t = "map_option fst r"
    have again: "server_inv io1 (ss1\<lparr>ss_event_index := k\<rparr>)"
      "server_inv io1 (ss1\<lparr>ss_ev := (ss_ev ss1)[k := e\<lparr>e_read := False\<rparr>], ss_event_index := k\<rparr>)"
      "waiting (ss1\<lparr>ss_ev := (ss_ev ss1)[k := e\<lparr>e_read := False\<rparr>], ss_event_index := k\<rparr>) = e\<lparr>e_read := False\<rparr> # waiting ss"
      if "?t \<noteq> Some SS_CLOSE" "?t \<noteq> Some SS_ERROR"
    proof -
      have "registered (ss_slot ss1 i)" using reg that by (auto simp: closing_def)
      then show "server_inv io1 (ss1\<lparr>ss_event_index := k\<rparr>)"
        "server_inv io1 (ss1\<lparr>ss_ev := (ss_ev ss1)[k := e\<lparr>e_read := False\<rparr>], ss_event_index := k\<rparr>)"
        "waiting (ss1\<lparr>ss_ev := (ss_ev ss1)[k := e\<lparr>e_read := False\<rparr>], ss_event_index := k\<rparr>) = e\<lparr>e_read := False\<rparr> # waiting ss"
        using event_again [OF inv1(1,5), of e i] event_again [OF inv1(1,5), of "e\<lparr>e_read := False\<rparr>" i] e(1) i inv1(4,6) by simp_all
    qed
    show "run_ok (\<lambda>(io', ss', rd). server_inv io' ss' \<and> ss_pipe ss' = ss_pipe ss \<and> length (io_in io') \<le> length (io_in io) \<and>
        (rd = Again \<longrightarrow> event_rounds (waiting ss') \<le> Suc (event_rounds (waiting ss))))
      (if ?udp \<and> ?t = Some SS_UDP then Done (io1, ss1\<lparr>ss_event_index := k\<rparr>, Return r)
       else Done (io1, (if e_write e \<and> ?t \<noteq> Some SS_CLOSE \<and> ?t \<noteq> Some SS_ERROR
          then ss1\<lparr>ss_ev := (ss_ev ss1)[k := e\<lparr>e_read := False\<rparr>], ss_event_index := k\<rparr> else ss1),
          if r = None then Again else Return r))"
    proof (cases "?udp \<and> ?t = Some SS_UDP")
      case True
      then show ?thesis using again(1) inv1 by (auto simp: ss_types)
    next
      case False
      then show ?thesis using again(2,3) inv1 unfolding if_not_P [OF False] by simp
    qed
  qed
qed

lemma handle_event_ok:
  assumes inv: "server_inv io ss" and k: "ss_event_index ss < ss_event_n ss"
  shows "run_ok (event_post io ss) (handle_event io ss)"
proof -
  let ?k = "ss_event_index ss"
  define e where "e = ss_ev ss ! ?k"
  define ss1 where "ss1 = ss\<lparr>ss_event_index := Suc ?k\<rparr>"
  have "ss1 = ss\<lparr>ss_event_index := ?k + 1\<rparr>" by (simp add: ss1_def)
  note st = event_start [OF inv k e_def this]
  have ok: "slots_ok io ss1" using st(1) by (simp add: server_inv_def)
  have less: "event_rounds (waiting ss1) < event_rounds (waiting ss)" using st(2) by simp
  have skip: "event_post io ss (io', ss1, Again)" if "io_poll io' = io_poll io" "io_in io' = io_in io" for io'
    using st(1,3) less that by (simp add: event_post_def server_inv_def slots_ok_def)
  show ?thesis
  proof (cases "e_s e")
    case None
    then show ?thesis using skip [of io] by (simp add: handle_event_def Let_def flip: e_def ss1_def)
  next
    case (Some i)
    then have reg: "registered (ss_slot ss1 i)" and i: "i \<notin> set (event_slots (waiting ss1))" using st(4,7) by simp_all
    note at = slot_at [OF ok, of i]
    have quiet_post: "run_ok (event_post io ss) (rbind (on_slot i f ss1) (\<lambda>(io, ss, r). Done (io, ss, g r)))"
      if "run_ok (quiet i io (ss_slot ss1 i)) (f (ss_slot ss1 i))" for f g
      unfolding run_ok_bind
      by (rule run_ok_mono [OF on_slot_quiet [where i = i and f = f, OF ok that]])
        (use event_op [OF st(1) _ _ i] less st(3) in \<open>fastforce simp: event_post_def\<close>)
    let ?s = "ss_slot ss1 i"
    consider "s_type ?s = SOCKET_TYPE_CONNECTING" | "s_type ?s = SOCKET_TYPE_LISTEN" | "s_type ?s = SOCKET_TYPE_INVALID"
      | "s_type ?s \<notin> {SOCKET_TYPE_CONNECTING, SOCKET_TYPE_LISTEN, SOCKET_TYPE_INVALID}" by blast
    then show ?thesis
    proof cases
      case 1
      then have "run_ok (quiet i io ?s) (report_connect io i ?s)" using connect_quiet at by simp
      then show ?thesis using 1 Some quiet_post [of "report_connect io i" Return]
        by (simp add: handle_event_def Let_def del: run_ok_bind flip: e_def ss1_def)
    next
      case 2
      have "run_ok (event_post io ss) (rbind (report_accept io i ss1) (\<lambda>(io, ss, r). Done (io, ss, if r = None then Again else Return r)))"
        unfolding run_ok_bind
        by (rule run_ok_mono [OF report_accept_ok [OF ok]])
          (use st(1,3) less in \<open>auto simp: accept_ok_def event_post_def server_inv_def events_ok_def\<close>)
      then show ?thesis using 2 Some
        by (simp add: handle_event_def Let_def socket_type_defs del: run_ok_bind flip: e_def ss1_def)
    next
      case 3
      then show ?thesis using reg by (simp add: registered_def)
    next
      case 4
      have "run_ok (event_post io ss) (handle_read io ss1 ?k e i)" if "e_read e"
        by (rule run_ok_mono [OF handle_read_ok [OF st(1,5) Some reg that i]])
          (use st(2,3,6) that in \<open>auto simp: event_post_def e_def\<close>)
      moreover have "run_ok (quiet i io ?s) (send_buffer io i ?s)" using buffer_quiet at reg by simp
      ultimately show ?thesis using 4 Some skip [of io] quiet_post [of "send_buffer io i" "\<lambda>r. if r = None then Again else Return r"]
        by (simp add: handle_event_def Let_def del: run_ok_bind flip: e_def ss1_def)
    qed
  qed
qed

section \<open>Rounds of the poll\<close>

text \<open>The events that the kernel reports are for different registered slots.\<close>

lemma wait_events:
  assumes ok: "slots_ok io ss" and d: "distinct (map fst evs)"
    and fit: "list_all (\<lambda>(fd, read, write). case io_poll io fd of None \<Rightarrow> False | Some (s, enable) \<Rightarrow> write \<longrightarrow> enable) evs"
  shows "events_ok (ss_slot ss) (map (\<lambda>(fd, read, write).
    \<lparr>e_s = (case io_poll io fd of None \<Rightarrow> None | Some (s, enable) \<Rightarrow> s), e_read = read, e_write = write\<rparr>) evs)"
proof -
  let ?f = "\<lambda>(fd, read, write). \<lparr>e_s = (case io_poll io fd of None \<Rightarrow> None | Some (s, enable) \<Rightarrow> s), e_read = read, e_write = write\<rparr>"
  have at: "registered (ss_slot ss i) \<and> s_fd (ss_slot ss i) = fd" if "io_poll io fd = Some (Some i, w)" for fd i w
    using slot_at [OF ok, of i] that unfolding poll_at_def by blast
  have slots: "\<exists>fd w. fd \<in> fst ` set es \<and> io_poll io fd = Some (Some i, w)"
    if "i \<in> set (event_slots (map ?f es))" for es i
    using that by (induction es) (auto split: option.splits; blast)+
  have reg: "registered (ss_slot ss i) \<and> s_fd (ss_slot ss i) \<in> fst ` set es" if "i \<in> set (event_slots (map ?f es))" for es i
    using slots [OF that] at by blast
  have "distinct (event_slots (map ?f es))" if "distinct (map fst es)" for es
    using that
  proof (induction es)
    case (Cons x es)
    obtain fd r w where x: "x = (fd, r, w)" by (cases x) auto
    have "i \<notin> set (event_slots (map ?f es))" if "io_poll io fd = Some (Some i, v)" for i v
      using reg [of i es] at [OF that] Cons.prems x by auto
    then show ?case using Cons x by (auto split: option.split)
  qed simp
  then show ?thesis using d reg by (auto simp: events_ok_def)
qed

lemma event_rounds_bound: "event_rounds evs \<le> 2 * length evs"
  by (induction evs) auto

lemma sp_wait_ok:
  assumes "slots_ok io ss"
  shows "run_ok (\<lambda>(evs, io'). io_poll io' = io_poll io \<and> length (io_in io') < length (io_in io) \<and>
    (case evs of None \<Rightarrow> True | Some evs \<Rightarrow> events_ok (ss_slot ss) evs \<and> event_rounds evs \<le> 2 * MAX_EVENT)) (sp_wait io)"
proof (cases "io_in io")
  case Nil
  then show ?thesis by (simp add: sp_wait_def)
next
  case i: (Cons r rs)
  show ?thesis
  proof (cases r)
    case (Events evs)
    show ?thesis
    proof (cases "length evs \<le> MAX_EVENT \<and> distinct (map fst evs) \<and>
        list_all (\<lambda>(fd, read, write). case io_poll io fd of None \<Rightarrow> False | Some (s, enable) \<Rightarrow> write \<longrightarrow> enable) evs")
      case True
      let ?evs = "map (\<lambda>(fd, read, write).
        \<lparr>e_s = (case io_poll io fd of None \<Rightarrow> None | Some (s, enable) \<Rightarrow> s), e_read = read, e_write = write\<rparr>) evs"
      have "sp_wait io = Done (Some ?evs, io\<lparr>io_in := rs\<rparr>)"
        using i Events True by (simp add: sp_wait_def next_ret_def)
      moreover have "event_rounds ?evs \<le> 2 * MAX_EVENT" using event_rounds_bound [of ?evs] True by simp
      ultimately show ?thesis using wait_events [OF assms] True i by simp
    next
      case False
      then have "sp_wait io = Starved" using i Events unfolding sp_wait_def next_ret_def by simp
      then show ?thesis by simp
    qed
  qed (use i in \<open>simp_all add: sp_wait_def next_ret_def\<close>)
qed

lemma poll_rounds_waiting: "poll_rounds io ss = length (ss_pipe ss) + event_rounds (waiting ss) + (2 * MAX_EVENT + 1) * length (io_in io) + 1"
  by (simp add: poll_rounds_def waiting_def)

definition round_post :: "netio \<Rightarrow> socket_server \<Rightarrow> netio \<times> socket_server \<times> bool \<times> round \<Rightarrow> bool" where
  "round_post io ss = (\<lambda>(io', ss', m, rd). server_inv io' ss' \<and> (rd = Again \<longrightarrow> poll_rounds io' ss' < poll_rounds io ss))"

lemma rounds_less:
  assumes "length (ss_pipe ss') \<le> length (ss_pipe ss)" "event_rounds (waiting ss') \<le> 2 * MAX_EVENT" "length (io_in io') < length (io_in io)"
  shows "poll_rounds io' ss' < poll_rounds io ss"
proof -
  have "(2 * MAX_EVENT + 1) * Suc (length (io_in io')) \<le> (2 * MAX_EVENT + 1) * length (io_in io)"
    using assms(3) by (intro mult_le_mono2) simp
  then show ?thesis using assms(1,2) by (simp add: poll_rounds_waiting)
qed

lemma rounds_less_events:
  assumes "length (ss_pipe ss') + event_rounds (waiting ss') < length (ss_pipe ss) + event_rounds (waiting ss)"
    "length (io_in io') \<le> length (io_in io)"
  shows "poll_rounds io' ss' < poll_rounds io ss"
proof -
  have "(2 * MAX_EVENT + 1) * length (io_in io') \<le> (2 * MAX_EVENT + 1) * length (io_in io)"
    using assms(2) by (intro mult_le_mono2)
  then show ?thesis using assms(1) by (simp add: poll_rounds_waiting)
qed

lemma round_event:
  assumes inv: "server_inv io ss" and k: "ss_event_index ss < ss_event_n ss"
    and less: "\<And>io' ss'. ss_pipe ss' = ss_pipe ss \<Longrightarrow> length (io_in io') \<le> length (io_in io) \<Longrightarrow>
      event_rounds (waiting ss') < event_rounds (waiting ss) \<Longrightarrow> poll_rounds io' ss' < poll_rounds io0 ss0"
  shows "run_ok (round_post io0 ss0) (rbind (handle_event io ss) (\<lambda>(io, ss, rd). Done (io, ss, m, rd)))"
  unfolding run_ok_bind
  by (rule run_ok_mono [OF handle_event_ok [OF inv k]]) (use less in \<open>auto simp: event_post_def round_post_def\<close>)

lemma poll_wait_ok:
  assumes inv: "server_inv io ss"
  shows "run_ok (round_post io ss) (poll_wait io ss)"
  unfolding poll_wait_def run_ok_bind
proof (rule run_ok_mono [OF sp_wait_ok [of io ss]], goal_cases)
  case 1
  then show ?case using inv by (simp add: server_inv_def)
next
  case (2 x)
  obtain evs io1 where x: "x = (evs, io1)" by (cases x)
  have io1: "io_poll io1 = io_poll io" "length (io_in io1) < length (io_in io)" using 2 x by auto
  have ok: "slots_ok io1 ss" "pipe_ok (reserved ss) (ss_pipe ss)" using inv io1(1) by (simp_all add: server_inv_def slots_ok_def)
  show ?case
  proof (cases evs)
    case None
    then show ?thesis using ok x by (simp add: round_post_def server_inv_def index_ok_def waiting_def events_ok_def)
  next
    case (Some es)
    let ?ss = "ss\<lparr>ss_ev := es, ss_event_n := length es, ss_checkctrl := True, ss_event_index := 0\<rparr>"
    have es: "events_ok (ss_slot ss) es" "event_rounds es \<le> 2 * MAX_EVENT" using 2 x Some by auto
    have w: "waiting ?ss = es" by (simp add: waiting_def)
    have inv': "server_inv io1 ?ss" using ok es(1) w by (simp add: server_inv_def index_ok_def)
    have "run_ok (round_post io ss) (rbind (handle_event io1 ?ss) (\<lambda>(io, ss, rd). Done (io, ss, False, rd)))" if "es \<noteq> []"
      by (rule round_event [OF inv']) (use that es(2) w io1(2) in \<open>auto intro!: rounds_less\<close>)
    then show ?thesis using Some x inv' by (cases "es = []") (simp_all add: round_post_def Let_def del: run_ok_bind)
  qed
qed

lemma poll_round_ok:
  assumes inv: "server_inv io ss"
  shows "run_ok (round_post io ss) (poll_round io ss m)"
proof (cases "ss_checkctrl ss \<and> has_cmd ss")
  case True
  then obtain rq rqs where q: "ss_pipe ss = rq # rqs" by (cases "ss_pipe ss") (auto simp: has_cmd_def)
  from ctrl_round [OF inv q]
  have "run_ok (round_post io ss) (rbind (ctrl_cmd io (ss\<lparr>ss_pipe := rqs\<rparr>) rq) (\<lambda>(io, ss, r). case r of
      Some (type, result) \<Rightarrow> Done (io, clear_closed_event ss result type, m, Return r) | None \<Rightarrow> Done (io, ss, m, Again)))"
    unfolding run_ok_bind
    by (rule run_ok_mono) (use q in \<open>auto simp: round_post_def cleared_def intro!: rounds_less_events split: option.splits\<close>)
  then show ?thesis using q True by (simp add: poll_round_def del: run_ok_bind)
next
  case False
  define ss1 where "ss1 = ss\<lparr>ss_checkctrl := False\<rparr>"
  have inv1: "server_inv io ss1" using inv by (simp add: ss1_def server_inv_def)
  have same: "poll_rounds io ss1 = poll_rounds io ss" by (simp add: ss1_def poll_rounds_def)
  have post: "round_post io ss1 = round_post io ss" by (simp add: round_post_def same fun_eq_iff)
  show ?thesis
  proof (cases "ss_event_index ss1 = ss_event_n ss1")
    case idx: False
    then have "ss_event_index ss1 < ss_event_n ss1" using inv1 by (simp add: server_inv_def index_ok_def)
    then have "run_ok (round_post io ss1) (rbind (handle_event io ss1) (\<lambda>(io, ss, rd). Done (io, ss, m, rd)))"
      by (rule round_event [OF inv1]) (rule rounds_less_events, simp_all)
    then show ?thesis using idx unfolding poll_round_def if_not_P [OF False]
      by (simp add: Let_def post del: run_ok_bind flip: ss1_def)
  next
    case True
    then show ?thesis using poll_wait_ok [OF inv1] unfolding poll_round_def if_not_P [OF False]
      by (simp add: Let_def post flip: ss1_def)
  qed
qed

text \<open>The bound on the rounds is enough.\<close>

lemma poll_loop_ok:
  "server_inv io ss \<Longrightarrow> poll_rounds io ss \<le> n \<Longrightarrow>
     \<exists>r. poll_loop n io ss m = Some r \<and> run_ok (\<lambda>(io', ss', m, r). server_inv io' ss') r"
proof (induction n arbitrary: io ss m)
  case 0
  then show ?case by (simp add: poll_rounds_def)
next
  case (Suc n)
  have ok: "run_ok (round_post io ss) (poll_round io ss m)" using poll_round_ok [OF Suc.prems(1)] .
  show ?case
  proof (cases "poll_round io ss m")
    case (Done x)
    obtain io1 ss1 m1 rd where x: "x = (io1, ss1, m1, rd)" by (cases x) auto
    have post: "server_inv io1 ss1" "rd = Again \<longrightarrow> poll_rounds io1 ss1 < poll_rounds io ss"
      using ok Done x by (simp_all add: round_post_def)
    show ?thesis
    proof (cases rd)
      case Again
      then have "poll_rounds io1 ss1 \<le> n" using post(2) Suc.prems(2) by simp
      from Suc.IH [OF post(1) this, of m1] show ?thesis using Done x Again by simp
    next
      case (Return r)
      then show ?thesis using Done x post(1) by simp
    qed
  qed (use ok in simp_all)
qed

end
