(* ===== verification/SocketHistory.thy ===== *)
theory SocketHistory
  imports SocketServerProps
begin

text \<open>
  The histories of the socket server (\<open>skynet-src/socket_server.c\<close>): what the other threads and the socket
  thread do to it, in any order, and the properties of every state that they reach. The operations keep
  the invariant \<open>server_inv\<close> of \<open>SocketServerProps\<close>.
\<close>

section \<open>Histories of the server\<close>

lemma pipe_append: "pipe_ok R p \<Longrightarrow> opens rq = None \<Longrightarrow> plain_low rq \<Longrightarrow> pipe_ok R (p @ [rq])"
  by (induction p arbitrary: R) (auto split: option.splits)

lemma pipe_append_open:
  "pipe_ok R p \<Longrightarrow> opens rq = Some n \<Longrightarrow> plain_low rq \<Longrightarrow> n \<notin> R \<Longrightarrow> Some n \<notin> uses_id ` set p \<Longrightarrow>
     pipe_ok (insert n R) (p @ [rq])"
proof (induction p arbitrary: R)
  case (Cons r p)
  show ?case
  proof (cases "opens r")
    case None
    then show ?thesis using Cons by (auto split: option.splits)
  next
    case (Some m)
    then have "m \<in> R" "m \<noteq> n" using Cons.prems by auto
    moreover have "insert n R - {m} = insert n (R - {m})" using \<open>m \<noteq> n\<close> by auto
    moreover have "pipe_ok (insert n (R - {m})) (p @ [rq])" using Cons Some by auto
    ultimately show ?thesis using Some Cons.prems by simp
  qed
qed simp

lemma inv_same: "server_inv io ss \<Longrightarrow> io_poll io' = io_poll io \<Longrightarrow> server_inv io' ss"
  by (simp add: server_inv_def slots_ok_def)

lemma inv_request:
  "server_inv io ss \<Longrightarrow> opens rq = None \<Longrightarrow> plain_low rq \<Longrightarrow> server_inv io (send_request ss rq)"
  by (simp add: server_inv_def send_request_def pipe_append)

text \<open>No request in the pipe is to close or to send to \<open>n\<close>: \<open>n\<close> is a new id.\<close>

definition unused :: "socket_server \<Rightarrow> int \<Rightarrow> bool" where
  "unused ss n \<longleftrightarrow> Some n \<notin> uses_id ` set (ss_pipe ss)"

lemma inv_alloc: "server_inv io ss \<Longrightarrow> server_inv io (ss\<lparr>ss_alloc_id := a\<rparr>)"
  by (simp add: server_inv_def)

lemma inv_reserve:
  assumes inv: "server_inv io ss" and r: "reserve_id ss = (ss', sid)" "\<not> sid < 0"
    and rq: "opens rq = Some sid" "plain_low rq" "unused ss sid"
  shows "server_inv io (send_request ss' rq)"
proof -
  let ?s = "(ss_slot ss (hash_id sid))\<lparr>s_type := SOCKET_TYPE_RESERVE, s_id := sid, s_fd := -1\<rparr>"
  obtain a where free: "s_type (ss_slot ss (hash_id sid)) = SOCKET_TYPE_INVALID"
    and ss': "ss' = ss\<lparr>ss_alloc_id := a, ss_slot := (ss_slot ss)(hash_id sid := ?s)\<rparr>"
    using reserve_ok [OF r] by blast
  let ?ss = "ss\<lparr>ss_slot := (ss_slot ss)(hash_id sid := ?s)\<rparr>"
  have ok: "slots_ok io ss" "index_ok ss" "events_ok (ss_slot ss) (waiting ss)" "pipe_ok (reserved ss) (ss_pipe ss)"
    using inv by (simp_all add: server_inv_def)
  have nr: "\<not> registered ?s" "\<not> registered (ss_slot ss (hash_id sid))" using free by (simp_all add: registered_def)
  have slots: "slots_ok io ?ss" by (rule free_slot [OF ok(1) free nr(1)]) simp_all
  have "sid \<notin> reserved ss" using free by (simp add: reserved_def socket_type_defs)
  moreover have "reserved ?ss = insert sid (reserved ss)"
    using free by (auto simp: reserved_def socket_type_defs)
  moreover have "events_ok (ss_slot ?ss) (waiting ss)" using ok(3) nr by (auto simp: events_ok_def)
  ultimately have "pipe_ok (reserved ?ss) (ss_pipe ss @ [rq])"
    using pipe_append_open [OF ok(4) rq(1,2)] rq(3) by (simp add: unused_def)
  then show ?thesis using slots ok(2) \<open>events_ok (ss_slot ?ss) (waiting ss)\<close>
    by (simp add: server_inv_def ss' send_request_def reserved_def slots_ok_def waiting_def index_ok_def)
qed

lemma inv_reserve_none: "server_inv io ss \<Longrightarrow> reserve_id ss = (ss', sid) \<Longrightarrow> sid < 0 \<Longrightarrow> server_inv io ss'"
  using reserve_none inv_alloc by blast

lemma bind_same: "run_ok (\<lambda>(io', b). io_poll io' = io_poll io) (do_bind io host port)"
  by (simp add: do_bind_def split: list.split sysret.split)

lemma listen_same: "run_ok (\<lambda>(io', l). io_poll io' = io_poll io) (do_listen io host port)"
  unfolding do_listen_def run_ok_bind
  by (rule run_ok_mono [OF bind_same [of io host port]]) (auto split: option.split list.split sysret.split)


text \<open>
  The histories of a server: its creation, then in any order new results of the kernel, requests of
  other threads and rounds of the socket thread. A request that opens an id is for an id that no
  request in the pipe uses: an id is used only by those it was returned to.
\<close>

inductive server_history :: "netio \<Rightarrow> socket_server \<Rightarrow> bool" where
  create: "server_history io' ss"
    if "io_poll io = Map.empty" "socket_server_create io soi fresh = Done (io', Some ss)"
| kernel: "server_history io' ss" if "server_history io ss" "io_poll io' = io_poll io"
| connect: "server_history io' ss'"
    if "server_history io ss" "socket_server_connect io ss opaque addr port = (io', ss', sid)" "unused ss sid"
| listen: "server_history io' ss'"
    if "server_history io ss" "socket_server_listen io ss opaque host port = Done (io', ss', sid)" "unused ss sid"
| bind: "server_history io ss'"
    if "server_history io ss" "socket_server_bind ss opaque fd = (ss', sid)" "unused ss sid"
| udp: "server_history io' ss'"
    if "server_history io ss" "socket_server_udp io ss opaque host port = Done (io', ss', sid)" "unused ss sid"
| start: "server_history io (socket_server_start ss opaque sid)" if "server_history io ss"
| nodelay: "server_history io (socket_server_nodelay ss sid)" if "server_history io ss"
| close: "server_history io (socket_server_close ss opaque sid)" if "server_history io ss"
| shutdown: "server_history io (socket_server_shutdown ss opaque sid)" if "server_history io ss"
| exit: "server_history io (socket_server_exit ss)" if "server_history io ss"
| userobject: "server_history io (socket_server_userobject ss soi)" if "server_history io ss"
| send: "server_history io' ss'" if "server_history io ss" "socket_server_send io ss rq = (io', ss', n)"
| send_low: "server_history io' ss'"
    if "server_history io ss" "low_plain False rq" "socket_server_send_lowpriority io ss rq = (io', ss')"
| udp_send: "server_history io' ss'" if "server_history io ss" "socket_server_udp_send io ss rq a = (io', ss', n)"
| udp_connect: "server_history io' ss'"
    if "server_history io ss" "socket_server_udp_connect io ss sid host port = Done (io', ss', n)"
| poll: "server_history io' ss'"
    if "server_history io ss" "socket_server_poll io ss = Some (Done (io', ss', m, r))"

lemma server_create_inv:
  assumes "io_poll io = Map.empty" "socket_server_create io soi fresh = Done (io', Some ss)"
  shows "server_inv io' ss"
proof -
  have inv: "server_inv (io\<lparr>io_in := rs, io_poll := [recv \<mapsto> (None, False)]\<rparr>) \<lparr>ss_recvctrl_fd = recv, ss_sendctrl_fd = send,
      ss_checkctrl = True, ss_alloc_id = 0, ss_event_n = 0, ss_event_index = 0, ss_soi = soi, ss_ev = [],
      ss_slot = (\<lambda>i. (fresh i)\<lparr>s_type := SOCKET_TYPE_INVALID, s_high := [], s_low := []\<rparr>), ss_pipe = []\<rparr>" for rs recv send
    by (simp add: server_inv_def slots_ok_def slot_ok_def poll_at_def index_ok_def events_ok_def waiting_def reserved_def socket_type_defs)
  have "run_ok (\<lambda>(io', ss). \<forall>ss'. ss = Some ss' \<longrightarrow> server_inv io' ss') (socket_server_create io soi fresh) \<or>
    socket_server_create io soi fresh = Abort"
    using inv assms(1) by (auto simp: socket_server_create_def sp_add_def next_ret_def split: list.split sysret.split)
  then show ?thesis using assms(2) by auto
qed

lemma connect_inv:
  assumes inv: "server_inv io ss" and r: "socket_server_connect io ss opaque addr port = (io', ss', sid)" "unused ss sid"
  shows "server_inv io' ss'"
proof (cases "length addr + SIZEOF_REQUEST_OPEN \<ge> 256")
  case True
  then show ?thesis using inv r by (auto simp: socket_server_connect_def open_request_def intro: inv_same)
next
  case False
  obtain ss1 n where n: "reserve_id ss = (ss1, n)" by fastforce
  show ?thesis
  proof (cases "n < 0")
    case True
    then show ?thesis using False n r inv_reserve_none [OF inv n] by (auto simp: socket_server_connect_def open_request_def)
  next
    case new: False
    then show ?thesis using False n r inv
      by (auto simp: socket_server_connect_def open_request_def opens_def plain_low_def intro: inv_reserve)
  qed
qed

lemma listen_inv:
  assumes inv: "server_inv io ss" and r: "socket_server_listen io ss opaque host port = Done (io', ss', sid)" "unused ss sid"
  shows "server_inv io' ss'"
proof -
  have "run_ok (\<lambda>(io', ss', sid). unused ss sid \<longrightarrow> server_inv io' ss') (socket_server_listen io ss opaque host port)"
    unfolding socket_server_listen_def run_ok_bind
  proof (rule run_ok_mono [OF listen_same], clarify)
    fix io1 :: netio and l assume io1: "io_poll io1 = io_poll io"
    have inv1: "server_inv io1 ss" by (rule inv_same [OF inv io1])
    obtain ss1 n where n: "reserve_id ss = (ss1, n)" by fastforce
    then show "run_ok (\<lambda>(io', ss', sid). unused ss sid \<longrightarrow> server_inv io' ss') (case l of None \<Rightarrow> Done (io1, ss, -1) | Some fd \<Rightarrow>
         (case reserve_id ss of (ss, sid) \<Rightarrow> if sid < 0 then Done (call io1 (Close fd), ss, sid)
            else Done (io1, send_request ss (Req_L \<lparr>rf_id = sid, rf_fd = fd, rf_opaque = opaque\<rparr>), sid)))"
      using inv1 inv_reserve [OF inv1 n] inv_reserve_none [OF inv1 n]
      by (auto simp: opens_def plain_low_def split: option.split intro: inv_same)
  qed
  then show ?thesis using r by simp
qed

lemma bind_inv:
  assumes inv: "server_inv io ss" and r: "socket_server_bind ss opaque fd = (ss', sid)" "unused ss sid"
  shows "server_inv io ss'"
proof -
  obtain ss1 n where n: "reserve_id ss = (ss1, n)" by fastforce
  then show ?thesis using r inv_reserve [OF inv n] inv_reserve_none [OF inv n]
    by (auto simp: socket_server_bind_def opens_def plain_low_def split: if_splits)
qed

lemma udp_fd_same:
  "run_ok (\<lambda>(io', b). io_poll io' = io_poll io)
     (if port \<noteq> 0 \<or> addr \<noteq> None then do_bind io addr port
      else rbind (next_ret io) (\<lambda>(r, io). case r of
        Errno _ \<Rightarrow> Done (io, None) | Ret n \<Rightarrow> Done (io, Some (int n, AF_INET)) | _ \<Rightarrow> Starved))"
  using bind_same by (auto split: list.split sysret.split)

lemma udp_inv:
  assumes inv: "server_inv io ss" and r: "socket_server_udp io ss opaque host port = Done (io', ss', sid)" "unused ss sid"
  shows "server_inv io' ss'"
proof -
  have "run_ok (\<lambda>(io', ss', sid). unused ss sid \<longrightarrow> server_inv io' ss') (socket_server_udp io ss opaque host port)"
    unfolding socket_server_udp_def run_ok_bind
  proof (rule run_ok_mono [OF udp_fd_same], clarify)
    fix io1 :: netio and b assume io1: "io_poll io1 = io_poll io"
    have inv1: "server_inv (sp_nonblocking io1 fd) ss" for fd by (rule inv_same [OF inv]) (simp add: io1 sp_nonblocking_def)
    obtain ss1 n where n: "reserve_id ss = (ss1, n)" by fastforce
    then show "run_ok (\<lambda>(io', ss', sid). unused ss sid \<longrightarrow> server_inv io' ss') (case b of None \<Rightarrow> Done (io1, ss, -1) | Some (fd, family) \<Rightarrow>
           (let io = sp_nonblocking io1 fd in case reserve_id ss of (ss, sid) \<Rightarrow>
              if sid < 0 then Done (call io (Close fd), ss, -1)
              else Done (io, send_request ss (Req_U \<lparr>ru_id = sid, ru_fd = fd, ru_family = family, ru_opaque = opaque\<rparr>), sid)))"
      using inv_same [OF inv io1] inv_reserve [OF inv1 n] inv_reserve_none [OF inv1 n]
      by (auto simp: opens_def plain_low_def Let_def split: option.split intro: inv_same [where io = "sp_nonblocking io1 _"])
  qed
  then show ?thesis using r by simp
qed

lemma free_buffer_fields [simp]: "io_poll (free_buffer io soi rq) = io_poll io"
  by (simp add: free_buffer_def split: prod.split)

lemma send_inv:
  assumes "server_inv io ss"
  shows "socket_server_send io ss rq = (io', ss', n) \<Longrightarrow> server_inv io' ss'"
    "low_plain False rq \<Longrightarrow> socket_server_send_lowpriority io ss rq = (io', ss') \<Longrightarrow> server_inv io' ss'"
    "socket_server_udp_send io ss rq a = (io', ss', n) \<Longrightarrow> server_inv io' ss'"
  using assms
  by (auto simp: socket_server_send_def socket_server_send_lowpriority_def socket_server_udp_send_def Let_def opens_def plain_low_def
    intro: inv_same inv_request split: if_splits option.splits)

lemma udp_connect_inv:
  assumes inv: "server_inv io ss" and r: "socket_server_udp_connect io ss sid host port = Done (io', ss', n)"
  shows "server_inv io' ss'"
proof -
  have io: "server_inv (call io c\<lparr>io_in := rs\<rparr>) ss" for c rs by (rule inv_same [OF inv]) simp
  have "run_ok (\<lambda>(io', ss', n). server_inv io' ss') (socket_server_udp_connect io ss sid host port)"
    using io by (auto simp: socket_server_udp_connect_def opens_def plain_low_def intro!: inv_request
      split: list.split sysret.split option.split)
  then show ?thesis using r by simp
qed

lemma poll_inv:
  assumes "server_inv io ss"
  shows "\<exists>r. socket_server_poll io ss = Some r \<and> run_ok (\<lambda>(io', ss', m, r). server_inv io' ss') r"
  unfolding socket_server_poll_def by (rule poll_loop_ok [OF assms order_refl])

lemma other_requests_inv:
  assumes "server_inv io ss"
  shows "server_inv io (socket_server_start ss opaque sid)" "server_inv io (socket_server_nodelay ss sid)"
    "server_inv io (socket_server_close ss opaque sid)" "server_inv io (socket_server_shutdown ss opaque sid)"
    "server_inv io (socket_server_exit ss)" "server_inv io (socket_server_userobject ss soi)"
proof -
  show "server_inv io (socket_server_userobject ss soi)"
    using assms by (simp add: socket_server_userobject_def server_inv_def slots_ok_def waiting_def index_ok_def reserved_def)
qed (simp_all add: socket_server_start_def socket_server_nodelay_def socket_server_close_def socket_server_shutdown_def
    socket_server_exit_def inv_request assms opens_def plain_low_def)

lemma history_inv: "server_history io ss \<Longrightarrow> server_inv io ss"
proof (induction rule: server_history.induct)
  case (create io soi fresh io' ss)
  then show ?case by (rule server_create_inv)
next
  case (kernel io ss io')
  then show ?case by (blast intro: inv_same)
next
  case (poll io ss io' ss' m r)
  then show ?case using poll_inv [of io ss] by auto
next
  case connect
  then show ?case by (blast intro: connect_inv)
next
  case listen
  then show ?case by (blast intro: listen_inv)
next
  case bind
  then show ?case by (blast intro: bind_inv)
next
  case udp
  then show ?case by (blast intro: udp_inv)
next
  case udp_connect
  then show ?case by (blast intro: udp_connect_inv)
qed (auto intro: send_inv other_requests_inv)


section \<open>Properties\<close>

lemma release_runs: "run_ok (\<lambda>_. True) (release_slots io is ss)"
proof (induction "is" arbitrary: io ss)
  case (Cons i "is")
  then show ?case by (simp add: force_close_def Let_def)
qed simp

text \<open>C3: In every history of the socket server no assertion of socket_server.c fails: in no request of the
  other threads and no event, in whatever order they come and whatever the kernel returns; and every call
  of socket_server_poll returns, within the bound on its rounds.
\<close>

theorem socket_server_never_aborts:
  assumes "server_history io ss"
  shows "(\<exists>r. socket_server_poll io ss = Some r \<and> r \<noteq> Abort) \<and> socket_server_release io event_fd ss \<noteq> Abort"
proof -
  obtain r where "socket_server_poll io ss = Some r" "run_ok (\<lambda>(io', ss', m, r). server_inv io' ss') r"
    using poll_inv [OF history_inv [OF assms]] by blast
  moreover have "run_ok (\<lambda>_. True) (socket_server_release io event_fd ss)"
    unfolding socket_server_release_def run_ok_bind
    by (rule run_ok_mono [OF release_runs [of io "[0..<MAX_SOCKET]" ss]]) auto
  ultimately show ?thesis by auto
qed

text \<open>C4: In every history of the socket server its state is well formed: a slot that is free, reserved or not
  yet accepted has no buffer that waits; a descriptor is registered in the event poll with a slot only while
  the slot is open on this descriptor; and the events that wait are for different open slots, so that no
  event reaches a socket that was closed.
\<close>

theorem socket_server_well_formed:
  assumes "server_history io ss"
  shows "(\<forall>i. \<not> registered (ss_slot ss i) \<longrightarrow> send_buffer_empty (ss_slot ss i)) \<and>
    (\<forall>fd i w. io_poll io fd = Some (Some i, w) \<longrightarrow> registered (ss_slot ss i) \<and> s_fd (ss_slot ss i) = fd) \<and>
    distinct (event_slots (waiting ss)) \<and> (\<forall>i \<in> set (event_slots (waiting ss)). registered (ss_slot ss i))"
  using history_inv [OF assms]
  by (auto simp: server_inv_def slots_ok_def slot_ok_def send_buffer_empty_def poll_at_def events_ok_def)

text \<open>C38: A user object that is sent with low priority to a socket that has something to write stops the
  process: the object is put into the low list and the next event for writing fails the assertion that the
  head of the low list is complete, since the bytes of the object are not at the address of the object.
\<close>

theorem low_userobject_aborts:
  assumes "s_type s = SOCKET_TYPE_CONNECTED" "s_id s = rs_id rq" "s_high s \<noteq> []" "s_low s = []"
    "rs_sz rq < 0" "fst (soi (rs_buffer rq)) \<noteq> rs_buffer rq"
  shows "\<exists>s'. send_socket soi io i s rq False None = Done (io, s', None) \<and> send_buffer io' i s' = Abort"
  using assms
  by (auto simp: send_socket_def send_buffer_empty_def send_object_init_def append_sendbuffer_low_def append_sendbuffer_udp_def
    append_wb_def get_list_def set_list_def send_buffer_def list_uncomplete_def socket_type_defs Let_def split: prod.split)

section \<open>An example\<close>

text \<open>A server, and a server after a request to connect and a round that opens the connection.\<close>

definition demo_server :: "(nat \<Rightarrow> socket) \<Rightarrow> socket_server" where
  "demo_server slot = \<lparr>ss_recvctrl_fd = 3, ss_sendctrl_fd = 4, ss_checkctrl = True, ss_alloc_id = 0, ss_event_n = 0,
     ss_event_index = 0, ss_soi = (\<lambda>b. (b + 8, [])), ss_ev = [], ss_slot = slot, ss_pipe = []\<rparr>"

definition idle_socket :: socket where
  "idle_socket = \<lparr>s_opaque = 0, s_high = [], s_low = [], s_wb_size = 0, s_fd = 0, s_id = 0, s_protocol = 0,
     s_type = SOCKET_TYPE_INVALID, s_size = 0, s_udp_address = []\<rparr>"

definition start_io :: netio where
  "start_io = \<lparr>io_in = [Ret 2, Pipe 3 4, Ret 0], io_out = [], io_poll = Map.empty\<rparr>"

lemma demo_created:
  "server_history (start_io\<lparr>io_in := [], io_poll := [3 \<mapsto> (None, False)]\<rparr>) (demo_server (\<lambda>_. idle_socket))"
  by (rule create [of start_io "\<lambda>b. (b + 8, [])" "\<lambda>_. idle_socket"])
    (simp_all add: start_io_def socket_server_create_def next_ret_def sp_add_def FD_SETSIZE_def demo_server_def idle_socket_def)


definition demo_connect_io :: netio where
  "demo_connect_io = start_io\<lparr>io_in := [Resolved [\<lparr>ad_family = AF_INET, ad_text = None, ad_bytes = []\<rparr>], Ret 7, Ret 0, Ret 0],
     io_poll := [3 \<mapsto> (None, False)]\<rparr>"

definition reserved_socket :: socket where
  "reserved_socket = idle_socket\<lparr>s_type := SOCKET_TYPE_RESERVE, s_id := 1, s_fd := -1\<rparr>"

definition demo_connecting :: socket_server where
  "demo_connecting = (demo_server ((\<lambda>_. idle_socket)(1 := reserved_socket)))\<lparr>ss_alloc_id := 1,
     ss_pipe := [Req_O \<lparr>ro_id = 1, ro_port = 80, ro_opaque = 9, ro_host = ''h''\<rparr>]\<rparr>"

definition open_socket_1 :: socket where
  "open_socket_1 = reserved_socket\<lparr>s_type := SOCKET_TYPE_CONNECTED, s_fd := 7, s_size := 64, s_opaque := 9\<rparr>"

lemma demo_reserve: "reserve_id (demo_server (\<lambda>_. idle_socket)) =
    ((demo_server ((\<lambda>_. idle_socket)(1 := reserved_socket)))\<lparr>ss_alloc_id := 1\<rparr>, 1)"
proof -
  have m: "MAX_SOCKET = Suc 65535" by (simp add: MAX_SOCKET_def)
  have h: "hash_id 1 = 1" by (simp add: hash_id_def MAX_SOCKET_def)
  show ?thesis
    unfolding reserve_id_def m reserve_loop.simps
    by (simp add: h demo_server_def idle_socket_def reserved_socket_def Let_def del: One_nat_def)
qed

lemma demo_connect: "server_history demo_connect_io demo_connecting"
proof -
  let ?ss = "demo_server (\<lambda>_. idle_socket)"
  have pipe: "ss_pipe (demo_server slot) = []" for slot by (simp add: demo_server_def)
  have "server_history demo_connect_io ?ss"
    by (rule kernel [OF demo_created]) (simp add: demo_connect_io_def start_io_def)
  moreover have "socket_server_connect demo_connect_io ?ss 9 ''h'' 80 = (demo_connect_io, demo_connecting, 1)"
    by (simp add: socket_server_connect_def open_request_def SIZEOF_REQUEST_OPEN_def demo_reserve send_request_def
      demo_connecting_def pipe)
  moreover have "unused ?ss 1" by (simp add: unused_def pipe)
  ultimately show ?thesis by (rule connect)
qed

lemma poll_loop_Return: "poll_round io ss m = Done (io', ss', m', Return r) \<Longrightarrow> 0 < n \<Longrightarrow>
    poll_loop n io ss m = Some (Done (io', ss', m', r))"
  by (cases n) simp_all

definition demo_open_io :: netio where
  "demo_open_io = \<lparr>io_in = [], io_out = [Lookup ''h'' 80, Keepalive 7, Nonblocking 7],
     io_poll = [3 \<mapsto> (None, False), 7 \<mapsto> (Some 1, False)]\<rparr>"

definition demo_open :: socket_server where
  "demo_open = (demo_server ((\<lambda>_. idle_socket)(1 := open_socket_1)))\<lparr>ss_alloc_id := 1\<rparr>"

lemma demo_poll: "socket_server_poll demo_connect_io demo_connecting = Some (Done (demo_open_io, demo_open, True,
    Some (SS_OPEN, \<lparr>m_id = 1, m_opaque = 9, m_ud = 0, m_data = No_data\<rparr>)))"
  unfolding socket_server_poll_def
  by (rule poll_loop_Return)
    (simp_all add: poll_rounds_def poll_round_def has_cmd_def demo_connecting_def demo_server_def demo_connect_io_def start_io_def
      ctrl_cmd_def on_slot_def open_socket_def open_fd_def hash_id_def MAX_SOCKET_def call_def next_ret_def socket_keepalive_def
      sp_nonblocking_def new_fd_def sp_add_def reserved_socket_def idle_socket_def open_socket_1_def demo_open_def demo_open_io_def
      socket_type_defs MIN_READ_BUFFER_def PROTOCOL_TCP_def clear_closed_event_def ss_types Let_def fun_eq_iff)

theorem socket_server_never_aborts_witness:
  "\<exists>r. socket_server_poll demo_connect_io demo_connecting = Some r \<and> r \<noteq> Abort"
  using socket_server_never_aborts [OF demo_connect] by blast

theorem socket_server_well_formed_witness:
  "send_buffer_empty (ss_slot demo_open 0) \<and> io_poll demo_open_io 7 = Some (Some 1, False) \<and>
     registered (ss_slot demo_open 1) \<and> s_fd (ss_slot demo_open 1) = 7"
proof -
  have "\<not> registered (ss_slot demo_open 0)" "io_poll demo_open_io 7 = Some (Some 1, False)"
    by (simp_all add: demo_open_def demo_server_def idle_socket_def registered_def demo_open_io_def)
  then show ?thesis using socket_server_well_formed [OF server_history.poll [OF demo_connect demo_poll]] by blast
qed

definition demo_waiting :: write_buffer where
  "demo_waiting = \<lparr>wb_buffer = 8, wb_base = 8, wb_data = [1], wb_ptr = 0, wb_sz = 1, wb_userobject = False, wb_udp_address = []\<rparr>"

theorem low_userobject_aborts_witness:
  "\<exists>s'. send_socket (\<lambda>b. (b + 8, [1])) demo_open_io 1 (open_socket_1\<lparr>s_high := [demo_waiting]\<rparr>)
        \<lparr>rs_id = 1, rs_sz = -1, rs_buffer = 64, rs_data = []\<rparr> False None = Done (demo_open_io, s', None) \<and>
      send_buffer start_io 1 s' = Abort"
  by (rule low_userobject_aborts) (simp_all add: open_socket_1_def reserved_socket_def idle_socket_def)

end
