(* ===== verification/Harbor.thy ===== *)
theory Harbor
  imports CText Bytes Server
begin

text \<open>
  \<open>service-src/service_harbor.c\<close>: the service that carries messages between the nodes. It keeps a
  connection to every other node (\<open>struct slave\<close>), a queue of the messages for a node that is not
  connected yet, and the global names it knows, with a queue of the messages for a name whose handle
  is not known yet.

  What the service asks the framework to do is a list of \<open>harbor_call\<close>s in the order of the calls. The
  argument \<open>alive\<close> says to which handles \<open>skynet_send\<close> succeeds. \<open>None\<close> is a failed assertion, an access
  outside an object, or a loop that does not end.
\<close>

unbundle bit_operations_syntax

section \<open>Data\<close>

definition HASH_SIZE :: nat where "HASH_SIZE = 4096"
definition HARBOR_QUEUE_SIZE :: nat where "HARBOR_QUEUE_SIZE = 1024"
definition HEADER_COOKIE_LENGTH :: nat where "HEADER_COOKIE_LENGTH = 12"
definition REMOTE_MAX :: nat where "REMOTE_MAX = 256"

record remote_message_header =
  rh_source :: u32
  rh_destination :: u32
  rh_session :: u32

text \<open>A message: \<open>hm_buffer\<close> is the pointer, \<open>hm_data\<close> the \<open>size\<close> bytes at it.\<close>

record harbor_msg =
  hm_header :: remote_message_header
  hm_buffer :: u64
  hm_data :: bytes

record harbor_queue =
  hq_size :: nat
  hq_head :: nat
  hq_tail :: nat
  hq_data :: "harbor_msg list"

text \<open>A key is 16 characters; the chains of the hash table are lists.\<close>

record keyvalue =
  kv_key :: string
  kv_hash :: u32
  kv_value :: u32
  kv_queue :: "harbor_queue option"

type_synonym hashmap = "nat \<Rightarrow> keyvalue list"

definition STATUS_WAIT :: nat where "STATUS_WAIT = 0"
definition STATUS_HANDSHAKE :: nat where "STATUS_HANDSHAKE = 1"
definition STATUS_HEADER :: nat where "STATUS_HEADER = 2"
definition STATUS_CONTENT :: nat where "STATUS_CONTENT = 3"
definition STATUS_DOWN :: nat where "STATUS_DOWN = 4"

lemmas status_defs = STATUS_WAIT_def STATUS_HANDSHAKE_def STATUS_HEADER_def STATUS_CONTENT_def STATUS_DOWN_def

text \<open>\<open>sl_size\<close> is the array \<open>size\<close> and \<open>sl_recv_buffer\<close> the memory at \<open>recv_buffer\<close>, as far as it is written.\<close>

record slave =
  sl_fd :: int
  sl_queue :: "harbor_queue option"
  sl_status :: nat
  sl_length :: nat
  sl_read :: nat
  sl_size :: bytes
  sl_recv_buffer :: bytes

record harbor_service =
  hb_id :: int
  hb_slave :: u32
  hb_map :: hashmap
  hb_s :: "nat \<Rightarrow> slave"

text \<open>The data of a message: a buffer that is handed over, or bytes that are copied or new.\<close>

datatype hdata = Given u64 bytes | Bytes bytes

text \<open>
  \<open>skynet_send\<close> (source, destination, type, session, data), \<open>skynet_socket_send\<close> (with the size, an \<open>int\<close>),
  \<open>skynet_socket_start\<close>, \<open>skynet_socket_close\<close>, \<open>skynet_free\<close>, \<open>skynet_error\<close> and \<open>skynet_harbor_start\<close>.
\<close>

datatype harbor_call =
  H_send u32 u32 u32 u32 hdata
| H_socket_send int bytes int
| H_socket_start int
| H_socket_close int
| H_free u64
| H_error string
| H_start

definition set_slave :: "harbor_service \<Rightarrow> nat \<Rightarrow> slave \<Rightarrow> harbor_service" where
  "set_slave h i s = h\<lparr>hb_s := (hb_s h)(i := s)\<rparr>"

section \<open>Queues\<close>

definition no_harbor_msg :: harbor_msg where
  "no_harbor_msg = \<lparr>hm_header = \<lparr>rh_source = 0, rh_destination = 0, rh_session = 0\<rparr>, hm_buffer = 0, hm_data = []\<rparr>"

definition expand_harbor_queue :: "harbor_queue \<Rightarrow> harbor_queue" where
  "expand_harbor_queue q =
     (let new_buffer = map (\<lambda>i. hq_data q ! ((i + hq_head q) mod hq_size q)) [0..<hq_size q - 1]
                       @ replicate (hq_size q * 2 - (hq_size q - 1)) no_harbor_msg
      in q\<lparr>hq_data := new_buffer, hq_head := 0, hq_tail := hq_size q - 1, hq_size := hq_size q * 2\<rparr>)"

definition push_queue_msg :: "harbor_queue \<Rightarrow> harbor_msg \<Rightarrow> harbor_queue" where
  "push_queue_msg q m =
     (let q = (if (hq_tail q + 1) mod hq_size q = hq_head q then expand_harbor_queue q else q)
      in q\<lparr>hq_data := (hq_data q)[hq_tail q := m], hq_tail := (hq_tail q + 1) mod hq_size q\<rparr>)"

definition push_queue :: "harbor_queue \<Rightarrow> u64 \<Rightarrow> bytes \<Rightarrow> remote_message_header \<Rightarrow> harbor_queue" where
  "push_queue q buffer data header = push_queue_msg q \<lparr>hm_header = header, hm_buffer = buffer, hm_data = data\<rparr>"

definition pop_queue :: "harbor_queue \<Rightarrow> harbor_msg option \<times> harbor_queue" where
  "pop_queue q =
     (if hq_head q = hq_tail q then (None, q)
      else (Some (hq_data q ! hq_head q), q\<lparr>hq_head := (hq_head q + 1) mod hq_size q\<rparr>))"

definition new_queue :: harbor_queue where
  "new_queue = \<lparr>hq_size = HARBOR_QUEUE_SIZE, hq_head = 0, hq_tail = 0, hq_data = replicate HARBOR_QUEUE_SIZE no_harbor_msg\<rparr>"

text \<open>The loop \<open>while ((m = pop_queue(queue)) != NULL)\<close>: the messages it handles, in order, and the queue behind it.\<close>

partial_function (option) pop_all :: "harbor_queue \<Rightarrow> (harbor_msg list \<times> harbor_queue) option" where
  "pop_all q =
     (case pop_queue q of
        (None, q) \<Rightarrow> Some ([], q)
      | (Some m, q) \<Rightarrow> Option.bind (pop_all q) (\<lambda>(ms, q). Some (m # ms, q)))"

definition harbor_release_queue :: "harbor_queue option \<Rightarrow> harbor_call list option" where
  "harbor_release_queue q =
     (case q of None \<Rightarrow> Some []
      | Some q \<Rightarrow> map_option (\<lambda>(ms, q). map (\<lambda>m. H_free (hm_buffer m)) ms) (pop_all q))"

section \<open>The hash table of the names\<close>

text \<open>The words of a name on a little endian machine, and \<open>strncmp\<close> of 16 characters.\<close>

definition name_word :: "string \<Rightarrow> nat \<Rightarrow> u32" where
  "name_word name i =
     (let b = map of_char (take 4 (drop (4 * i) name)) in be32 (b ! 3) (b ! 2) (b ! 1) (b ! 0))"

definition name_hash :: "string \<Rightarrow> u32" where
  "name_hash name = name_word name 0 XOR name_word name 1 XOR name_word name 2 XOR name_word name 3"

definition same_name :: "string \<Rightarrow> string \<Rightarrow> bool" where
  "same_name a b \<longleftrightarrow> cstr (take GLOBALNAME_LENGTH a) 0 = cstr (take GLOBALNAME_LENGTH b) 0"

definition bucket_of :: "string \<Rightarrow> nat" where
  "bucket_of name = unat (name_hash name) mod HASH_SIZE"

fun search_loop :: "u32 \<Rightarrow> string \<Rightarrow> keyvalue list \<Rightarrow> nat option" where
  "search_loop h name [] = None"
| "search_loop h name (node # nodes) =
     (if kv_hash node = h \<and> same_name (kv_key node) name then Some 0 else map_option Suc (search_loop h name nodes))"

text \<open>The node of a name: its place in the chain of the bucket.\<close>

definition hash_search :: "hashmap \<Rightarrow> string \<Rightarrow> nat option" where
  "hash_search hash name = search_loop (name_hash name) name (hash (bucket_of name))"

definition hash_insert :: "hashmap \<Rightarrow> string \<Rightarrow> hashmap" where
  "hash_insert hash name =
     (let node = \<lparr>kv_key = take GLOBALNAME_LENGTH name, kv_hash = name_hash name, kv_value = 0, kv_queue = None\<rparr>
      in hash(bucket_of name := node # hash (bucket_of name)))"

text \<open>\<open>hash_search\<close>, then \<open>hash_insert\<close> if there is no node: the table and the place of the node.\<close>

definition search_or_insert :: "hashmap \<Rightarrow> string \<Rightarrow> hashmap \<times> nat" where
  "search_or_insert hash name = (case hash_search hash name of Some k \<Rightarrow> (hash, k) | None \<Rightarrow> (hash_insert hash name, 0))"

definition set_node :: "hashmap \<Rightarrow> string \<Rightarrow> nat \<Rightarrow> keyvalue \<Rightarrow> hashmap" where
  "set_node hash name k node = hash(bucket_of name := (hash (bucket_of name))[k := node])"

definition hash_new :: hashmap where
  "hash_new = (\<lambda>_. [])"

fun release_nodes :: "keyvalue list \<Rightarrow> harbor_call list option" where
  "release_nodes [] = Some []"
| "release_nodes (node # nodes) =
     do { calls \<leftarrow> harbor_release_queue (kv_queue node); calls' \<leftarrow> release_nodes nodes; Some (calls @ calls') }"

definition hash_delete :: "hashmap \<Rightarrow> harbor_call list option" where
  "hash_delete hash = release_nodes (concat (map hash [0..<HASH_SIZE]))"

section \<open>Slaves\<close>

definition close_harbor :: "harbor_service \<Rightarrow> nat \<Rightarrow> (harbor_service \<times> harbor_call list) option" where
  "close_harbor h i =
     (let s = (hb_s h i)\<lparr>sl_status := STATUS_DOWN\<rparr>; close = (if sl_fd s \<noteq> 0 then [H_socket_close (sl_fd s)] else [])
      in do {
        calls \<leftarrow> harbor_release_queue (sl_queue s);
        Some (set_slave h i (s\<lparr>sl_queue := None\<rparr>), close @ calls)
      })"

definition report_harbor_down :: "harbor_service \<Rightarrow> nat \<Rightarrow> harbor_call list" where
  "report_harbor_down h i = [H_send 0 (hb_slave h) PTYPE_TEXT 0 (Bytes (string_bytes (''D '' @ fmt_d (int i))))]"

definition zero_slave :: slave where
  "zero_slave = \<lparr>sl_fd = 0, sl_queue = None, sl_status = STATUS_WAIT, sl_length = 0, sl_read = 0, sl_size = [0, 0, 0, 0], sl_recv_buffer = []\<rparr>"

definition harbor_create :: harbor_service where
  "harbor_create = \<lparr>hb_id = 0, hb_slave = 0, hb_map = hash_new, hb_s = (\<lambda>_. zero_slave)\<rparr>"

fun release_slaves :: "harbor_service \<Rightarrow> nat list \<Rightarrow> (harbor_service \<times> harbor_call list) option" where
  "release_slaves h [] = Some (h, [])"
| "release_slaves h (i # is) =
     (if sl_fd (hb_s h i) \<noteq> 0 \<and> sl_status (hb_s h i) \<noteq> STATUS_DOWN
      then do { (h, calls) \<leftarrow> close_harbor h i; (h, calls') \<leftarrow> release_slaves h is; Some (h, calls @ calls') }
      else release_slaves h is)"

definition harbor_release :: "harbor_service \<Rightarrow> harbor_call list option" where
  "harbor_release h =
     do { (h, calls) \<leftarrow> release_slaves h [1..<REMOTE_MAX]; calls' \<leftarrow> hash_delete (hb_map h); Some (calls @ calls') }"

section \<open>Messages on a connection\<close>

definition to_bigendian :: "u32 \<Rightarrow> bytes" where
  "to_bigendian n = [ucast (drop_bit 24 n AND 0xff), ucast (drop_bit 16 n AND 0xff), ucast (drop_bit 8 n AND 0xff), ucast (n AND 0xff)]"

definition header_to_message :: "remote_message_header \<Rightarrow> bytes" where
  "header_to_message header = to_bigendian (rh_source header) @ to_bigendian (rh_destination header) @ to_bigendian (rh_session header)"

definition from_bigendian :: "bytes \<Rightarrow> nat \<Rightarrow> u32" where
  "from_bigendian b i = be32 (b ! i) (b ! (i + 1)) (b ! (i + 2)) (b ! (i + 3))"

definition message_to_header :: "bytes \<Rightarrow> remote_message_header" where
  "message_to_header message =
     \<lparr>rh_source = from_bigendian message 0, rh_destination = from_bigendian message 4, rh_session = from_bigendian message 8\<rparr>"

text \<open>\<open>forward_local_messsage\<close>: the cookie is the last 12 bytes; \<open>None\<close> when the message is shorter.\<close>

definition forward_local_message :: "(u32 \<Rightarrow> bool) \<Rightarrow> harbor_service \<Rightarrow> bytes \<Rightarrow> harbor_call list option" where
  "forward_local_message alive h msg =
     (if length msg < HEADER_COOKIE_LENGTH then None
      else
        (let n = length msg - HEADER_COOKIE_LENGTH;
             header = message_to_header (drop n msg);
             destination = rh_destination header;
             type = drop_bit HANDLE_REMOTE_SHIFT destination;
             destination = (destination AND HANDLE_MASK) OR push_bit HANDLE_REMOTE_SHIFT (of_int (hb_id h));
             calls = [H_send (rh_source header) destination (type OR PTYPE_TAG_DONTCOPY) (rh_session header) (Bytes (take n msg))]
         in Some (if alive destination then calls
             else calls @
               (if type \<noteq> PTYPE_ERROR then [H_send destination (rh_source header) PTYPE_ERROR (rh_session header) (Bytes [])] else []) @
               [H_error (''Unknown destination :'' @ fmt_x destination @ '' from :'' @ fmt_x (rh_source header) @
                  '' type('' @ fmt_d (uint type) @ '')'')])))"

text \<open>\<open>send_remote\<close>: the size of \<open>skynet_socket_send\<close> is an \<open>int\<close>.\<close>

definition send_remote :: "int \<Rightarrow> bytes \<Rightarrow> remote_message_header \<Rightarrow> harbor_call list" where
  "send_remote fd buffer cookie =
     (let sz_header = length buffer + HEADER_COOKIE_LENGTH
      in if sz_header > 2 ^ 32 - 1
         then [H_error (''remote message from :'' @ fmt_08x (rh_source cookie) @ '' to :'' @ fmt_08x (rh_destination cookie) @ '' is too large.'')]
         else [H_socket_send fd (to_bigendian (of_nat sz_header) @ buffer @ header_to_message cookie) (to_int32 (int (sz_header + 4)))])"

text \<open>What is sent for the messages of a queue, each with \<open>handle\<close> in its destination.\<close>

definition send_all :: "int \<Rightarrow> u32 \<Rightarrow> harbor_msg list \<Rightarrow> harbor_call list" where
  "send_all fd handle ms = concat (map (\<lambda>m.
     send_remote fd (hm_data m) ((hm_header m)\<lparr>rh_destination := rh_destination (hm_header m) OR (handle AND HANDLE_MASK)\<rparr>) @
     [H_free (hm_buffer m)]) ms)"

text \<open>
  \<open>dispatch_name_queue\<close> of a node with a queue: what is left of the queue in the node. \<open>assert(harbor_id != 0)\<close>
  fails for a handle without a harbor.
\<close>

definition dispatch_name_queue ::
  "harbor_service \<Rightarrow> keyvalue \<Rightarrow> harbor_queue \<Rightarrow> (harbor_service \<times> harbor_queue option \<times> harbor_call list) option" where
  "dispatch_name_queue h node queue =
     (let handle = kv_value node; i = unat (drop_bit HANDLE_REMOTE_SHIFT handle); s = hb_s h i
      in if i = 0 then None
         else if sl_fd s = 0 then
           (if sl_status s = STATUS_DOWN
            then Some (h, Some queue, [H_error (''Drop message to '' @ cstr (kv_key node) 0 @ '' (in harbor '' @ fmt_d (int i) @ '')'')])
            else (case sl_queue s of
              None \<Rightarrow> Some (set_slave h i (s\<lparr>sl_queue := Some queue\<rparr>), None, [])
            | Some q \<Rightarrow> do {
                (ms, queue) \<leftarrow> pop_all queue;
                Some (set_slave h i (s\<lparr>sl_queue := Some (foldl push_queue_msg q ms)\<rparr>), Some queue, [])
              }))
         else do {
           (ms, queue) \<leftarrow> pop_all queue;
           Some (h, Some queue, send_all (sl_fd s) handle ms)
         })"

definition harbor_dispatch_queue :: "harbor_service \<Rightarrow> nat \<Rightarrow> (harbor_service \<times> harbor_call list) option" where
  "harbor_dispatch_queue h i =
     (let s = hb_s h i
      in if sl_fd s = 0 then None
         else case sl_queue s of
           None \<Rightarrow> Some (h, [])
         | Some queue \<Rightarrow> do {
             (ms, queue) \<leftarrow> pop_all queue;
             calls \<leftarrow> harbor_release_queue (Some queue);
             Some (set_slave h i (s\<lparr>sl_queue := None\<rparr>),
               concat (map (\<lambda>m. send_remote (sl_fd s) (hm_data m) (hm_header m) @ [H_free (hm_buffer m)]) ms) @ calls)
           })"

section \<open>What a connection receives\<close>

text \<open>
  The cases of the \<open>switch\<close> in \<open>push_socket_data\<close> on the rest of the data; a result with \<open>Some rest\<close> goes
  on with the loop. Where the source falls through to the next case, the loop does the same.
\<close>

definition push_handshake :: "harbor_service \<Rightarrow> nat \<Rightarrow> bytes \<Rightarrow> (harbor_service \<times> harbor_call list \<times> bytes option) option" where
  "push_handshake h i buffer =
     (case buffer of
        [] \<Rightarrow> None
      | remote_id # buffer \<Rightarrow>
          if unat remote_id \<noteq> i
          then do {
            (h', calls) \<leftarrow> close_harbor h i;
            Some (h', H_error (''Invalid shakehand id ('' @ fmt_d (int i) @ '') from fd = '' @ fmt_d (sl_fd (hb_s h i)) @
              '' , harbor = '' @ fmt_d (uint remote_id)) # calls, None)
          }
          else do {
            (h, calls) \<leftarrow> harbor_dispatch_queue (set_slave h i ((hb_s h i)\<lparr>sl_status := STATUS_HEADER\<rparr>)) i;
            Some (h, calls, Some buffer)
          })"

definition push_header :: "harbor_service \<Rightarrow> nat \<Rightarrow> bytes \<Rightarrow> (harbor_service \<times> harbor_call list \<times> bytes option) option" where
  "push_header h i buffer =
     (let s = hb_s h i; need = 4 - sl_read s
      in if 4 < sl_read s then None
         else if length buffer < need
         then Some (set_slave h i (s\<lparr>sl_size := take (sl_read s) (sl_size s) @ buffer @ drop (sl_read s + length buffer) (sl_size s),
             sl_read := sl_read s + length buffer\<rparr>), [], None)
         else
           (let size = take (sl_read s) (sl_size s) @ take need buffer; buffer = drop need buffer; s = s\<lparr>sl_size := size\<rparr>
            in if size ! 0 \<noteq> 0
               then do {
                 (h, calls) \<leftarrow> close_harbor (set_slave h i s) i;
                 Some (h, H_error (''Message is too long from harbor '' @ fmt_d (int i)) # calls, None)
               }
               else Some (set_slave h i (s\<lparr>sl_length := unat (push_bit 16 (ucast (size ! 1)) OR push_bit 8 (ucast (size ! 2)) OR ucast (size ! 3) :: u32),
                   sl_read := 0, sl_recv_buffer := [], sl_status := STATUS_CONTENT\<rparr>),
                 [], if buffer = [] then None else Some buffer)))"

definition push_content ::
  "(u32 \<Rightarrow> bool) \<Rightarrow> harbor_service \<Rightarrow> nat \<Rightarrow> bytes \<Rightarrow> (harbor_service \<times> harbor_call list \<times> bytes option) option" where
  "push_content alive h i buffer =
     (let s = hb_s h i; need = sl_length s - sl_read s
      in if sl_length s < sl_read s then None
         else if length buffer < need
         then Some (set_slave h i (s\<lparr>sl_recv_buffer := take (sl_read s) (sl_recv_buffer s) @ buffer, sl_read := sl_read s + length buffer\<rparr>), [], None)
         else do {
           calls \<leftarrow> forward_local_message alive h (take (sl_read s) (sl_recv_buffer s) @ take need buffer);
           let buffer = drop need buffer;
           Some (set_slave h i (s\<lparr>sl_length := 0, sl_read := 0, sl_recv_buffer := [], sl_status := STATUS_HEADER\<rparr>),
             calls, if buffer = [] then None else Some buffer)
         })"

definition push_step ::
  "(u32 \<Rightarrow> bool) \<Rightarrow> harbor_service \<Rightarrow> nat \<Rightarrow> bytes \<Rightarrow> (harbor_service \<times> harbor_call list \<times> bytes option) option" where
  "push_step alive h i buffer =
     (let status = sl_status (hb_s h i)
      in if status = STATUS_HANDSHAKE then push_handshake h i buffer
         else if status = STATUS_HEADER then push_header h i buffer
         else if status = STATUS_CONTENT then push_content alive h i buffer
         else Some (h, [], None))"

partial_function (option) push_loop ::
  "(u32 \<Rightarrow> bool) \<Rightarrow> harbor_service \<Rightarrow> nat \<Rightarrow> bytes \<Rightarrow> (harbor_service \<times> harbor_call list) option" where
  "push_loop alive h i buffer =
     Option.bind (push_step alive h i buffer) (\<lambda>(h, calls, rest). case rest of
       None \<Rightarrow> Some (h, calls)
     | Some buffer \<Rightarrow> Option.bind (push_loop alive h i buffer) (\<lambda>(h, calls'). Some (h, calls @ calls')))"

text \<open>The slave with a descriptor.\<close>

definition find_slave :: "harbor_service \<Rightarrow> int \<Rightarrow> nat option" where
  "find_slave h fd = List.find (\<lambda>i. sl_fd (hb_s h i) = fd) [1..<REMOTE_MAX]"

definition push_socket_data ::
  "(u32 \<Rightarrow> bool) \<Rightarrow> harbor_service \<Rightarrow> socket_message \<Rightarrow> u64 \<Rightarrow> (harbor_service \<times> harbor_call list) option" where
  "push_socket_data alive h message buffer =
     (case find_slave h (sm_id message) of
        None \<Rightarrow> Some (h, [H_free buffer, H_error (''Invalid socket fd ('' @ fmt_d (sm_id message) @ '') data'')])
      | Some i \<Rightarrow> push_loop alive h i (take (nat (sm_ud message)) (sm_buffer message)))"

section \<open>Messages to other nodes and names\<close>

definition update_name :: "harbor_service \<Rightarrow> string \<Rightarrow> u32 \<Rightarrow> (harbor_service \<times> harbor_call list) option" where
  "update_name h name handle =
     (let (map, k) = search_or_insert (hb_map h) name;
          node = (map (bucket_of name) ! k)\<lparr>kv_value := handle\<rparr>;
          h = h\<lparr>hb_map := set_node map name k node\<rparr>
      in case kv_queue node of
           None \<Rightarrow> Some (h, [])
         | Some queue \<Rightarrow> do {
             (h, rest, calls) \<leftarrow> dispatch_name_queue h node queue;
             calls' \<leftarrow> harbor_release_queue rest;
             Some (h\<lparr>hb_map := set_node (hb_map h) name k (node\<lparr>kv_queue := None\<rparr>)\<rparr>, calls @ calls')
           })"

text \<open>The last component: whether the buffer of the message is kept (the result 1).\<close>

definition remote_send_handle :: "harbor_service \<Rightarrow> u32 \<Rightarrow> u32 \<Rightarrow> u32 \<Rightarrow> u32 \<Rightarrow> u64 \<Rightarrow> bytes \<Rightarrow> harbor_service \<times> harbor_call list \<times> bool" where
  "remote_send_handle h source destination type session msg data =
     (let i = unat (drop_bit HANDLE_REMOTE_SHIFT destination); s = hb_s h i;
          header = \<lparr>rh_source = source, rh_destination = push_bit HANDLE_REMOTE_SHIFT type OR (destination AND HANDLE_MASK), rh_session = session\<rparr>
      in if int i = hb_id h
         then (h, [H_send source destination (type OR PTYPE_TAG_DONTCOPY) session (Given msg data)], True)
         else if sl_fd s = 0 \<or> sl_status s = STATUS_HANDSHAKE then
           (if sl_status s = STATUS_DOWN
            then (h, [H_send destination source PTYPE_ERROR 0 (Bytes []),
                   H_error (''Drop message to harbor '' @ fmt_d (int i) @ '' from '' @ fmt_x source @ '' to '' @ fmt_x destination @
                     '' (session = '' @ fmt_d (sint session) @ '', msgsz = '' @ fmt_d (to_int32 (int (length data))) @ '')'')], False)
            else (let q = (case sl_queue s of None \<Rightarrow> new_queue | Some q \<Rightarrow> q)
                  in (set_slave h i (s\<lparr>sl_queue := Some (push_queue q msg data header)\<rparr>), [], True)))
         else (h, send_remote (sl_fd s) data header, False))"

definition remote_send_name :: "harbor_service \<Rightarrow> u32 \<Rightarrow> string \<Rightarrow> u32 \<Rightarrow> u32 \<Rightarrow> u64 \<Rightarrow> bytes \<Rightarrow> harbor_service \<times> harbor_call list \<times> bool" where
  "remote_send_name h source name type session msg data =
     (let (map, k) = search_or_insert (hb_map h) name; node = map (bucket_of name) ! k; h = h\<lparr>hb_map := map\<rparr>
      in if kv_value node = 0 then
           (let q = (case kv_queue node of None \<Rightarrow> new_queue | Some q \<Rightarrow> q);
                header = \<lparr>rh_source = source, rh_destination = push_bit HANDLE_REMOTE_SHIFT type, rh_session = session\<rparr>;
                node = node\<lparr>kv_queue := Some (push_queue q msg data header)\<rparr>
            in (h\<lparr>hb_map := set_node map name k node\<rparr>,
                [H_send 0 (hb_slave h) PTYPE_TEXT 0 (Bytes (string_bytes (''Q '' @ cstr (take GLOBALNAME_LENGTH name) 0)))], True))
         else remote_send_handle h source (kv_value node) type session msg data)"

section \<open>Commands\<close>

definition handshake :: "harbor_service \<Rightarrow> nat \<Rightarrow> harbor_call list" where
  "handshake h i = [H_socket_send (sl_fd (hb_s h i)) [of_int (hb_id h)] 1]"

definition command_name :: "harbor_service \<Rightarrow> string \<Rightarrow> u32 \<Rightarrow> (harbor_service \<times> harbor_call list) option" where
  "command_name h msg source =
     (let s = int (length msg) - 2; name = drop 2 msg
      in if s \<le> 0 \<or> s \<ge> int GLOBALNAME_LENGTH then Some (h, [H_error (''Invalid global name '' @ cstr name 0)])
         else update_name h (name @ replicate (GLOBALNAME_LENGTH - length name) (CHR 0x00)) source)"

text \<open>\<open>sscanf(buffer, "%d %d", &fd, &id)\<close>; what is not read stays 0.\<close>

definition scan_slave :: "string \<Rightarrow> int \<times> int" where
  "scan_slave buffer =
     (case scan_int buffer of None \<Rightarrow> (0, 0)
      | Some (fd, rest) \<Rightarrow> (fd, case scan_int rest of None \<Rightarrow> 0 | Some (i, _) \<Rightarrow> i))"

definition command_slave :: "harbor_service \<Rightarrow> string \<Rightarrow> (harbor_service \<times> harbor_call list) option" where
  "command_slave h msg =
     (if length msg < 2 then None
      else
        (let buffer = cstr (drop 2 msg) 0; (fd, i) = scan_slave buffer
         in if fd = 0 \<or> i \<le> 0 \<or> i \<ge> int REMOTE_MAX
            then Some (h, [H_error (''Invalid command '' @ [hd msg] @ '' '' @ buffer)])
            else
              (let i = nat i; slave = hb_s h i
               in if sl_fd slave \<noteq> 0 then Some (h, [H_error (''Harbor '' @ fmt_d (int i) @ '' alreay exist'')])
                  else
                    (let slave = slave\<lparr>sl_fd := fd\<rparr>; calls = H_socket_start fd # handshake (set_slave h i slave) i
                     in if hd msg = CHR ''S'' then Some (set_slave h i (slave\<lparr>sl_status := STATUS_HANDSHAKE\<rparr>), calls)
                        else do {
                          (h, calls') \<leftarrow> harbor_dispatch_queue (set_slave h i (slave\<lparr>sl_status := STATUS_HEADER\<rparr>)) i;
                          Some (h, calls @ calls')
                        }))))"

definition harbor_command :: "harbor_service \<Rightarrow> string \<Rightarrow> u32 \<Rightarrow> (harbor_service \<times> harbor_call list) option" where
  "harbor_command h msg source =
     (if first_char msg = CHR ''N'' then command_name h msg source
      else if first_char msg = CHR ''S'' \<or> first_char msg = CHR ''A'' then command_slave h msg
      else Some (h, [H_error (''Unknown command '' @ cstr msg 0)]))"

text \<open>
  What \<open>msg\<close> points to: an event of a socket and the address of its buffer, the text of a command, or a
  message to another node (\<open>struct remote_message\<close>: name, handle, buffer and the bytes in it).
\<close>

datatype harbor_in =
  In_socket socket_message u64
| In_command string
| In_remote string u32 u64 bytes

definition socket_event :: "(u32 \<Rightarrow> bool) \<Rightarrow> harbor_service \<Rightarrow> socket_message \<Rightarrow> u64 \<Rightarrow> (harbor_service \<times> harbor_call list) option" where
  "socket_event alive h message buffer =
     (if sm_type message = SOCKET_DATA
      then map_option (\<lambda>(h, calls). (h, calls @ [H_free buffer])) (push_socket_data alive h message buffer)
      else if sm_type message = SOCKET_ERROR \<or> sm_type message = SOCKET_CLOSE
      then Some (h, case find_slave h (sm_id message) of
          Some i \<Rightarrow> report_harbor_down h i
        | None \<Rightarrow> [H_error (''Unkown fd ('' @ fmt_d (sm_id message) @ '') closed'')])
      else if sm_type message = SOCKET_CONNECT then Some (h, [])
      else if sm_type message = SOCKET_WARNING
      then Some (h, case find_slave h (sm_id message) of
          Some i \<Rightarrow> [H_error (''message havn't send to Harbor ('' @ fmt_d (int i) @ '') reach '' @ fmt_d (sm_ud message) @ '' K'')]
        | None \<Rightarrow> [])
      else Some (h, [H_error (''recv invalid socket message type '' @ fmt_d (uint PTYPE_SOCKET))]))"

definition remote_out :: "harbor_service \<Rightarrow> u32 \<Rightarrow> u32 \<Rightarrow> u32 \<Rightarrow> string \<Rightarrow> u32 \<Rightarrow> u64 \<Rightarrow> bytes \<Rightarrow> harbor_service \<times> harbor_call list" where
  "remote_out h type session source name handle msg data =
     (let (h, calls, kept) = (if handle = 0 then remote_send_name h source name type session msg data
                              else remote_send_handle h source handle type session msg data)
      in (h, if kept then calls else calls @ [H_free msg]))"

definition harbor_mainloop ::
  "(u32 \<Rightarrow> bool) \<Rightarrow> harbor_service \<Rightarrow> u32 \<Rightarrow> u32 \<Rightarrow> u32 \<Rightarrow> harbor_in \<Rightarrow> (harbor_service \<times> harbor_call list) option" where
  "harbor_mainloop alive h type session source msg =
     (if type = PTYPE_SOCKET
      then (case msg of In_socket message buffer \<Rightarrow> socket_event alive h message buffer | _ \<Rightarrow> None)
      else if type = PTYPE_HARBOR
      then (case msg of In_command text \<Rightarrow> harbor_command h text source | _ \<Rightarrow> None)
      else (case msg of In_remote name handle buffer data \<Rightarrow> Some (remote_out h type session source name handle buffer data) | _ \<Rightarrow> None))"

text \<open>\<open>harbor_init\<close>: whether it succeeds (result 0).\<close>

definition harbor_init :: "harbor_service \<Rightarrow> string \<Rightarrow> bool \<times> harbor_service \<times> harbor_call list" where
  "harbor_init h args =
     (let (harbor_id, slave) = (case scan_int args of None \<Rightarrow> (0, 0)
        | Some (harbor_id, rest) \<Rightarrow> (harbor_id, case scan_uint rest of None \<Rightarrow> 0 | Some (slave, _) \<Rightarrow> slave))
      in if slave = 0 then (False, h, []) else (True, h\<lparr>hb_id := harbor_id, hb_slave := slave\<rparr>, [H_start]))"

end
