(* ===== verification/HarborProps.thy ===== *)
theory HarborProps
  imports Harbor
begin

text \<open>
  What the harbor service of \<open>service-src/service_harbor.c\<close> promises: the queues are first-in first-out,
  a message to another node arrives there as it was sent however the network cuts the bytes, and the
  messages to a node go out in the order in which they came, also those that came before the node was
  connected; and what it does not keep.
\<close>

unbundle bit_operations_syntax

section \<open>Queues\<close>

definition hq_wf :: "harbor_queue \<Rightarrow> bool" where
  "hq_wf q \<longleftrightarrow> length (hq_data q) = hq_size q \<and> hq_head q < hq_size q \<and> hq_tail q < hq_size q"

definition hq_list :: "harbor_queue \<Rightarrow> harbor_msg list" where
  "hq_list q = ring (hq_data q) (hq_head q) (ring_len (hq_size q) (hq_head q) (hq_tail q))"

lemma push_room:
  assumes "hq_wf q" "(hq_tail q + 1) mod hq_size q \<noteq> hq_head q"
  shows "hq_wf (push_queue_msg q m) \<and> hq_list (push_queue_msg q m) = hq_list q @ [m]"
proof -
  let ?n = "ring_len (hq_size q) (hq_head q) (hq_tail q)"
  have n: "?n < hq_size q" "(hq_head q + ?n) mod hq_size q = hq_tail q"
    "ring_len (hq_size q) (hq_head q) (Suc (hq_tail q) mod hq_size q) = Suc ?n"
    using assms ring_len_bound ring_len_tail ring_len_push by (simp_all add: hq_wf_def)
  have "ring ((hq_data q)[hq_tail q := m]) (hq_head q) (Suc ?n) = ring (hq_data q) (hq_head q) ?n @ [m]"
    using ring_snoc [of "hq_head q" "hq_data q" ?n m] n assms(1) by (simp add: hq_wf_def)
  then show ?thesis using assms n by (simp add: push_queue_msg_def hq_wf_def hq_list_def)
qed

lemma expand_queue_ok:
  assumes "hq_wf q" "(hq_tail q + 1) mod hq_size q = hq_head q"
  shows "hq_wf (expand_harbor_queue q) \<and> hq_list (expand_harbor_queue q) = hq_list q \<and>
    (hq_tail (expand_harbor_queue q) + 1) mod hq_size (expand_harbor_queue q) \<noteq> hq_head (expand_harbor_queue q)"
proof -
  let ?c = "hq_size q"
  have n: "ring_len ?c (hq_head q) (hq_tail q) = ?c - 1" using assms ring_len_full by (fastforce simp: hq_wf_def)
  have c: "0 < ?c" "length (hq_data q) = ?c" using assms by (auto simp: hq_wf_def)
  have "hq_list q = map (\<lambda>i. hq_data q ! ((i + hq_head q) mod ?c)) [0..<?c - 1]"
    using c(2) by (simp add: hq_list_def ring_def n add.commute)
  moreover have "ring_len (?c * 2) 0 (?c - 1) = ?c - 1" by (simp add: ring_len_def)
  ultimately show ?thesis
    using c by (auto simp: expand_harbor_queue_def hq_wf_def hq_list_def ring_append_take)
qed

lemma push_ok: "hq_wf q \<Longrightarrow> hq_wf (push_queue_msg q m) \<and> hq_list (push_queue_msg q m) = hq_list q @ [m]"
proof (cases "(hq_tail q + 1) mod hq_size q = hq_head q")
  case True
  assume wf: "hq_wf q"
  let ?q = "expand_harbor_queue q"
  have "push_queue_msg q m = push_queue_msg ?q m" using expand_queue_ok [OF wf True] True by (simp add: push_queue_msg_def)
  then show ?thesis using expand_queue_ok [OF wf True] push_room [of ?q m] by simp
qed (rule push_room)

lemma pop_cons:
  assumes "hq_wf q" "hq_list q = m # ms"
  shows "\<exists>q'. pop_queue q = (Some m, q') \<and> hq_wf q' \<and> hq_list q' = ms"
proof -
  let ?h = "hq_head q" and ?t = "hq_tail q" and ?c = "hq_size q"
  have w: "?h < ?c" "?t < ?c" "length (hq_data q) = ?c" using assms(1) by (simp_all add: hq_wf_def)
  have ne: "?h \<noteq> ?t" using assms(2) by (auto simp: hq_list_def)
  have len: "ring_len ?c ?h ?t = Suc (ring_len ?c (Suc ?h mod ?c) ?t)" by (rule ring_len_pop [OF w(1,2) ne])
  have "hq_data q ! ?h = m" "ring (hq_data q) (Suc ?h mod ?c) (ring_len ?c (Suc ?h mod ?c) ?t) = ms"
    using assms(2) ring_Cons [of ?h "hq_data q"] w by (simp_all add: hq_list_def len)
  then show ?thesis using ne w by (simp add: pop_queue_def hq_wf_def hq_list_def)
qed

lemma pop_nil: "hq_wf q \<Longrightarrow> hq_list q = [] \<Longrightarrow> pop_queue q = (None, q)"
proof -
  assume "hq_wf q" "hq_list q = []"
  then have "ring_len (hq_size q) (hq_head q) (hq_tail q) = 0" by (metis hq_list_def length_ring list.size(3))
  then show ?thesis using \<open>hq_wf q\<close> by (simp add: hq_wf_def pop_queue_def)
qed

interpretation hq: fifo "\<lambda>q m. Some (push_queue_msg q m)" "\<lambda>q. Some (pop_queue q)" hq_wf hq_list
  by unfold_locales (auto simp: push_ok pop_nil dest: pop_cons)

lemma pop_all_ok: "hq_wf q \<Longrightarrow> \<exists>q'. pop_all q = Some (hq_list q, q') \<and> hq_wf q' \<and> hq_list q' = []"
proof (induction "hq_list q" arbitrary: q)
  case Nil
  then show ?case using pop_nil [of q] by (auto simp: pop_all.simps [of q])
next
  case (Cons m ms)
  obtain q' where q': "pop_queue q = (Some m, q')" "hq_wf q'" "hq_list q' = ms"
    using pop_cons [OF Cons.prems Cons.hyps(2) [symmetric]] by blast
  then obtain q'' where "pop_all q' = Some (ms, q'')" "hq_wf q''" "hq_list q'' = []"
    using Cons.hyps(1) [of q'] by auto
  then show ?case using q'(1) Cons.hyps(2) [symmetric] by (auto simp: pop_all.simps [of q])
qed

lemma new_queue_ok: "hq_wf new_queue \<and> hq_list new_queue = []"
  by (simp add: hq_wf_def hq_list_def new_queue_def HARBOR_QUEUE_SIZE_def ring_len_def)

lemma push_all_ok: "hq_wf q \<Longrightarrow> hq_wf (foldl push_queue_msg q ms) \<and> hq_list (foldl push_queue_msg q ms) = hq_list q @ ms"
proof (induction ms arbitrary: q)
  case (Cons m ms)
  then show ?case using push_ok [of q m] by simp
qed simp

text \<open>A queue that need not exist.\<close>

definition queue_wf :: "harbor_queue option \<Rightarrow> bool" where
  "queue_wf q = (case q of None \<Rightarrow> True | Some q \<Rightarrow> hq_wf q)"

definition queued :: "harbor_queue option \<Rightarrow> harbor_msg list" where
  "queued q = (case q of None \<Rightarrow> [] | Some q \<Rightarrow> hq_list q)"

lemma queue_simps [simp]: "queue_wf None" "queue_wf (Some q) = hq_wf q" "queued None = []" "queued (Some q) = hq_list q"
  by (simp_all add: queue_wf_def queued_def)

lemma release_queue_ok: "queue_wf q \<Longrightarrow> harbor_release_queue q = Some (map (\<lambda>m. H_free (hm_buffer m)) (queued q))"
  using pop_all_ok by (cases q) (fastforce simp: harbor_release_queue_def)+

text \<open>The next queue of a slave, made if there is none.\<close>

lemma push_queue_ok:
  "queue_wf q \<Longrightarrow> hq_wf (push_queue (case q of None \<Rightarrow> new_queue | Some q \<Rightarrow> q) b d hdr) \<and>
     hq_list (push_queue (case q of None \<Rightarrow> new_queue | Some q \<Rightarrow> q) b d hdr) = queued q @ [\<lparr>hm_header = hdr, hm_buffer = b, hm_data = d\<rparr>]"
  using new_queue_ok by (cases q) (simp_all add: push_queue_def push_ok)

section \<open>Messages on the wire\<close>

lemma byte_of_word: "(ucast (drop_bit k (n::u32) AND 0xff) :: u8) = of_nat (unat n div 2 ^ k)"
proof -
  have "unat (drop_bit k n AND 0xff) = unat n div 2 ^ k mod 2 ^ 8"
    using unat_and_pred_power [of "drop_bit k n" 8] by (simp add: unat_drop_bit_div)
  then have "unat (ucast (drop_bit k n AND 0xff) :: u8) = unat (of_nat (unat n div 2 ^ k) :: u8)"
    by (simp add: unsigned_ucast_eq unsigned_of_nat take_bit_eq_mod)
  then show ?thesis by (rule unsigned_word_eqI)
qed

lemma to_bigendian_bytes: "to_bigendian n = be_bytes 4 (unat n)"
  using byte_of_word [of 24 n] byte_of_word [of 16 n] byte_of_word [of 8 n] byte_of_word [of 0 n]
  by (simp add: to_bigendian_def be_bytes_4)

lemma length_to_bigendian [simp]: "length (to_bigendian n) = 4"
  by (simp add: to_bigendian_def)

lemma from_to_bigendian: "length xs = k \<Longrightarrow> from_bigendian (xs @ to_bigendian n @ ys) k = n"
proof -
  assume k: "length xs = k"
  have "from_bigendian (xs @ to_bigendian n @ ys) k = be32 (to_bigendian n ! 0) (to_bigendian n ! 1) (to_bigendian n ! 2) (to_bigendian n ! 3)"
    using k by (simp add: from_bigendian_def nth_append to_bigendian_def)
  moreover have "[to_bigendian n ! 0, to_bigendian n ! 1, to_bigendian n ! 2, to_bigendian n ! 3] = to_bigendian n"
    by (simp add: to_bigendian_def)
  moreover have "be_nat (to_bigendian n) = unat n" using unsigned_less [of n, where ?'a = nat]
    by (simp add: to_bigendian_bytes be_nat_bytes)
  ultimately show ?thesis using unat_be32 by (metis unsigned_word_eqI)
qed

lemma header_roundtrip: "message_to_header (header_to_message header) = header"
  using from_to_bigendian [of "[]" 0] from_to_bigendian [of "to_bigendian (rh_source header)" 4]
    from_to_bigendian [of "to_bigendian (rh_source header) @ to_bigendian (rh_destination header)" 8 _ "[]"]
  by (simp add: message_to_header_def header_to_message_def)

lemma length_header [simp]: "length (header_to_message header) = 12"
  by (simp add: header_to_message_def)

text \<open>A message as it is sent.\<close>

definition packet :: "remote_message_header \<times> bytes \<Rightarrow> bytes" where
  "packet m = snd m @ header_to_message (fst m)"

definition wire :: "remote_message_header \<times> bytes \<Rightarrow> bytes" where
  "wire m = be_bytes 4 (length (packet m)) @ packet m"

definition short :: "remote_message_header \<times> bytes \<Rightarrow> bool" where
  "short m \<longleftrightarrow> length (snd m) + 12 < 2 ^ 24"

lemma send_remote_wire:
  assumes "short (header, data)"
  shows "send_remote fd data header = [H_socket_send fd (wire (header, data)) (int (length (wire (header, data))))]"
proof -
  have n: "length data + 12 < 2 ^ 24" using assms by (simp add: short_def)
  then have "to_int32 (int (length data + 16)) = int (length data + 16)" by (intro to_int32_small) simp_all
  moreover have "to_bigendian (of_nat (length data + 12)) = be_bytes 4 (length data + 12)"
    unfolding to_bigendian_bytes by (subst unat_of_nat_small) (use n in simp_all)
  ultimately show ?thesis using n by (simp add: send_remote_def wire_def packet_def HEADER_COOKIE_LENGTH_def Let_def add.commute)
qed

text \<open>What arrives for a message: from its source, to its destination on the node \<open>n\<close>.\<close>

definition arrives :: "(u32 \<Rightarrow> bool) \<Rightarrow> int \<Rightarrow> remote_message_header \<times> bytes \<Rightarrow> harbor_call list" where
  "arrives alive n m =
     (let destination = (rh_destination (fst m) AND HANDLE_MASK) OR push_bit HANDLE_REMOTE_SHIFT (of_int n);
          type = drop_bit HANDLE_REMOTE_SHIFT (rh_destination (fst m));
          calls = [H_send (rh_source (fst m)) destination (type OR PTYPE_TAG_DONTCOPY) (rh_session (fst m)) (Bytes (snd m))]
      in if alive destination then calls
         else calls @ (if type \<noteq> PTYPE_ERROR then [H_send destination (rh_source (fst m)) PTYPE_ERROR (rh_session (fst m)) (Bytes [])] else []) @
           [H_error (''Unknown destination :'' @ fmt_x destination @ '' from :'' @ fmt_x (rh_source (fst m)) @
              '' type('' @ fmt_d (uint type) @ '')'')])"

lemma forward_packet: "forward_local_message alive h (packet m) = Some (arrives alive (hb_id h) m)"
  by (simp add: forward_local_message_def packet_def HEADER_COOKIE_LENGTH_def header_roundtrip arrives_def Let_def)

section \<open>Cutting the stream\<close>

text \<open>The packets of a stream of bytes and the bytes that wait for more.\<close>

function packets :: "bytes \<Rightarrow> bytes list \<times> bytes" where
  "packets s =
     (if length s < 4 \<or> length s < 4 + be_nat (take 4 s) then ([], s)
      else let (ps, r) = packets (drop (4 + be_nat (take 4 s)) s) in (take (be_nat (take 4 s)) (drop 4 s) # ps, r))"
  by pat_completeness auto
termination by (relation "measure length") auto

declare packets.simps [simp del]

lemma packets_short: "length s < 4 \<or> length s < 4 + be_nat (take 4 s) \<Longrightarrow> packets s = ([], s)"
  by (subst packets.simps) simp

lemma packets_header: "length s = 4 \<Longrightarrow> 0 < be_nat s \<Longrightarrow> packets s = ([], s)"
  by (intro packets_short) simp

lemma packets_append:
  "packets (s @ t) = (let (ps, r) = packets s; (qs, r') = packets (r @ t) in (ps @ qs, r'))"
proof (induction s rule: packets.induct)
  case (1 s)
  let ?n = "be_nat (take 4 s)"
  show ?case
  proof (cases "length s < 4 \<or> length s < 4 + ?n")
    case True
    then show ?thesis by (simp add: packets.simps [of s] split_beta)
  next
    case False
    then have st: "take 4 (s @ t) = take 4 s" "drop (4 + ?n) (s @ t) = drop (4 + ?n) s @ t"
      "take ?n (drop 4 (s @ t)) = take ?n (drop 4 s)" "\<not> (length (s @ t) < 4 \<or> length (s @ t) < 4 + ?n)"
      by auto
    have "packets (s @ t) = (let (ps, r) = packets (drop (4 + ?n) s @ t) in (take ?n (drop 4 s) # ps, r))"
      by (subst packets.simps) (simp only: st if_False)
    then show ?thesis using 1 [OF False] False by (simp add: packets.simps [of s] split_beta Let_def)
  qed
qed

lemma packets_wire:
  assumes "length (packet m) < 2 ^ 32"
  shows "packets (wire m @ t) = (let (ps, r) = packets t in (packet m # ps, r))"
proof -
  have n: "be_nat (take 4 (wire m @ t)) = length (packet m)" using assms by (simp add: wire_def be_bytes_small)
  then show ?thesis by (simp add: packets.simps [of "wire m @ t"] n) (simp add: wire_def)
qed

lemma packets_wires: "list_all short ms \<Longrightarrow> packets (concat (map wire ms)) = (map packet ms, [])"
proof (induction ms)
  case Nil
  then show ?case by (simp add: packets.simps)
next
  case (Cons m ms)
  then have "length (packet m) < 2 ^ 32" by (simp add: packet_def short_def)
  then show ?case using Cons by (simp add: packets_wire)
qed


section \<open>Receiving\<close>

text \<open>Every header of a stream starts with 0 and is for a packet with room for the cookie.\<close>

function sound :: "bytes \<Rightarrow> bool" where
  "sound s =
     (if length s < 4 then True
      else if hd s \<noteq> 0 \<or> be_nat (take 4 s) < 12 then False
      else if length s < 4 + be_nat (take 4 s) then True
      else sound (drop (4 + be_nat (take 4 s)) s))"
  by pat_completeness auto
termination by (relation "measure length") auto

declare sound.simps [simp del]

lemma sound_short: "length s < 4 \<Longrightarrow> sound s"
  by (simp add: sound.simps)

lemma sound_long: "4 \<le> length s \<Longrightarrow> sound s \<longleftrightarrow> hd s = 0 \<and> 12 \<le> be_nat (take 4 s) \<and>
    (length s < 4 + be_nat (take 4 s) \<or> sound (drop (4 + be_nat (take 4 s)) s))"
  by (subst sound.simps) auto

lemma sound_prefix: "sound (s @ t) \<Longrightarrow> sound s"
proof (induction s rule: sound.induct)
  case (1 s)
  show ?case
  proof (cases "4 \<le> length s")
    case True
    then have st: "take 4 (s @ t) = take 4 s" "hd (s @ t) = hd s" "4 \<le> length (s @ t)" by (auto simp: hd_append)
    let ?n = "be_nat (take 4 s)"
    have h: "hd s = 0" "12 \<le> ?n" "length (s @ t) < 4 + ?n \<or> sound (drop (4 + ?n) (s @ t))"
      using 1(2) unfolding sound_long [OF st(3)] st(1,2) by blast+
    show ?thesis
    proof (cases "length s < 4 + ?n")
      case False
      then have "sound (drop (4 + ?n) s @ t)" using h(3) by simp
      then show ?thesis using 1(1) True False h(1,2) sound_long [OF True] by simp
    qed (use h True sound_long [OF True] in simp)
  qed (simp add: sound_short)
qed

lemma sound_rest: "sound s \<Longrightarrow> sound (s @ t) \<Longrightarrow> sound (snd (packets s) @ t)"
proof (induction s rule: packets.induct)
  case (1 s)
  show ?case
  proof (cases "length s < 4 \<or> length s < 4 + be_nat (take 4 s)")
    case True
    then show ?thesis using 1 by (simp add: packets_short)
  next
    case False
    then have st: "take 4 (s @ t) = take 4 s" "drop (4 + be_nat (take 4 s)) (s @ t) = drop (4 + be_nat (take 4 s)) s @ t"
      "4 \<le> length (s @ t)" "\<not> length (s @ t) < 4 + be_nat (take 4 s)" by auto
    have "sound (drop (4 + be_nat (take 4 s)) s @ t)"
      using 1(3) unfolding sound_long [OF st(3)] st(1,2) using st(4) by (simp only: st(1)) blast
    moreover have "sound (drop (4 + be_nat (take 4 s)) s)" using 1(2) False sound_long [of s] by auto
    ultimately show ?thesis using 1(1) False by (simp add: packets.simps [of s] split_beta)
  qed
qed

lemma sound_wires: "list_all short ms \<Longrightarrow> sound (concat (map wire ms))"
proof (induction ms)
  case Nil
  then show ?case by (simp add: sound.simps)
next
  case (Cons m ms)
  then have n: "length (packet m) < 2 ^ 24" "12 \<le> length (packet m)" by (simp_all add: packet_def short_def)
  have "take 4 (wire m @ concat (map wire ms)) = be_bytes 4 (length (packet m))" by (simp add: wire_def)
  moreover have "be_nat (be_bytes 4 (length (packet m))) = length (packet m)" using n by (intro be_bytes_small) simp
  moreover have "hd (wire m @ concat (map wire ms)) = 0" using n by (simp add: wire_def be_bytes_4)
  moreover have "drop (4 + length (packet m)) (wire m @ concat (map wire ms)) = concat (map wire ms)" by (simp add: wire_def)
  moreover have "4 \<le> length (wire m @ concat (map wire ms))" by (simp add: wire_def)
  ultimately show ?case using Cons n sound_long [of "wire m @ concat (map wire ms)"] by simp
qed

text \<open>The bytes of a packet that a connection has taken in.\<close>

definition holds :: "slave \<Rightarrow> bytes \<Rightarrow> bool" where
  "holds s p \<longleftrightarrow> sl_fd s \<noteq> 0 \<and> length (sl_size s) = 4 \<and>
     (sl_status s = STATUS_HEADER \<and> sl_read s < 4 \<and> p = take (sl_read s) (sl_size s) \<or>
      sl_status s = STATUS_CONTENT \<and> hd (sl_size s) = 0 \<and> sl_length s = be_nat (sl_size s) \<and> 0 < sl_length s \<and>
        sl_read s < sl_length s \<and> sl_read s \<le> length (sl_recv_buffer s) \<and> p = sl_size s @ take (sl_read s) (sl_recv_buffer s))"

lemma length_of_size:
  assumes "length (z :: bytes) = 4" "hd z = 0"
  shows "unat (push_bit 16 (ucast (z ! 1)) OR push_bit 8 (ucast (z ! 2)) OR ucast (z ! 3) :: u32) = be_nat z"
proof -
  obtain b c d where z: "z = [0, b, c, d]" using assms by (auto simp: length_Suc_conv eval_nat_numeral)
  have "push_bit 16 (ucast b) OR push_bit 8 (ucast c) OR ucast d = be32 0 b c d" by (simp add: be32_def)
  then show ?thesis using unat_be32 [of 0 b c d] by (simp add: z)
qed

lemma set_slave_simps [simp]: "hb_s (set_slave h i s) i = s" "hb_id (set_slave h i s) = hb_id h"
  "hb_slave (set_slave h i s) = hb_slave h" "hb_map (set_slave h i s) = hb_map h"
  "set_slave (set_slave h i s) i s' = set_slave h i s'" "j \<noteq> i \<Longrightarrow> hb_s (set_slave h i s) j = hb_s h j"
  by (simp_all add: set_slave_def)

definition calls_for :: "(u32 \<Rightarrow> bool) \<Rightarrow> harbor_service \<Rightarrow> bytes list \<Rightarrow> harbor_call list" where
  "calls_for alive h ps = concat (map (\<lambda>p. the (forward_local_message alive h p)) ps)"

lemma forward_same: "hb_id h' = hb_id h \<Longrightarrow> forward_local_message alive h' = forward_local_message alive h"
  by (simp add: forward_local_message_def fun_eq_iff)

lemma forward_long: "12 \<le> length p \<Longrightarrow> \<exists>c. forward_local_message alive h p = Some c"
  by (simp add: forward_local_message_def HEADER_COOKIE_LENGTH_def Let_def)


lemma calls_for_same [simp]: "calls_for alive (set_slave h i s) = calls_for alive h"
  using forward_same [of "set_slave h i s" h alive] by (simp add: calls_for_def fun_eq_iff)

text \<open>What a step leaves of the slave.\<close>

definition same_link :: "slave \<Rightarrow> slave \<Rightarrow> bool" where
  "same_link s s' \<longleftrightarrow> sl_fd s' = sl_fd s \<and> sl_queue s' = sl_queue s"

lemma header_step:
  assumes s: "hb_s h i = s" "holds s p" "sl_status s = STATUS_HEADER" and sound: "sound (p @ b)"
  shows "(length (p @ b) < 4 \<and> (\<exists>s'. push_step alive h i b = Some (set_slave h i s', [], None) \<and> holds s' (p @ b) \<and> same_link s s')) \<or>
    (\<exists>s' q b'. push_step alive h i b = Some (set_slave h i s', [], if b' = [] then None else Some b') \<and>
      holds s' q \<and> sl_status s' = STATUS_CONTENT \<and> p @ b = q @ b' \<and> length b' < length b \<and> length q = 4 \<and> 0 < be_nat q \<and> same_link s s')"
proof -
  let ?need = "4 - sl_read s"
  have p: "sl_read s < 4" "p = take (sl_read s) (sl_size s)" "length (sl_size s) = 4" "sl_fd s \<noteq> 0" "length p = sl_read s"
    using s by (auto simp: holds_def status_defs)
  have step: "push_step alive h i b = push_header h i b" using s by (simp add: push_step_def status_defs Let_def)
  show ?thesis
  proof (cases "length b < ?need")
    case True
    let ?s = "s\<lparr>sl_size := take (sl_read s) (sl_size s) @ b @ drop (sl_read s + length b) (sl_size s), sl_read := sl_read s + length b\<rparr>"
    have "push_step alive h i b = Some (set_slave h i ?s, [], None)"
      using True p(1) s(1) step by (simp add: push_header_def Let_def)
    moreover have "sl_read s + length b < 4" using True p(1) by linarith
    then have "holds ?s (p @ b)" "length (p @ b) < 4" using p s(3) by (simp_all add: holds_def)
    moreover have "same_link s ?s" by (simp add: same_link_def)
    ultimately show ?thesis using \<open>length (p @ b) < 4\<close> \<open>holds ?s (p @ b)\<close> by blast
  next
    case False
    let ?size = "take (sl_read s) (sl_size s) @ take ?need b"
    have size: "?size = take 4 (p @ b)" "length ?size = 4" "4 \<le> length (p @ b)" using False p by auto
    have h0: "hd (p @ b) = 0" "12 \<le> be_nat ?size" using sound unfolding sound_long [OF size(3)] size(1) by blast+
    have "hd ?size = hd (p @ b)" unfolding size(1) by (rule hd_take) simp
    moreover have "?size ! 0 = hd ?size" using size(2) by (intro hd_conv_nth [symmetric]) auto
    ultimately have hd: "hd ?size = 0" "0 < be_nat ?size" "?size ! 0 = 0" using h0 by simp_all
    let ?s = "s\<lparr>sl_size := ?size, sl_length := be_nat ?size, sl_read := 0, sl_recv_buffer := [], sl_status := STATUS_CONTENT\<rparr>"
    have "push_step alive h i b = Some (set_slave h i ?s, [], if drop ?need b = [] then None else Some (drop ?need b))"
      using False p hd length_of_size [OF size(2) hd(1)] s(1) step by (simp add: push_header_def Let_def)
    moreover have "holds ?s ?size" using p(4) size(2) hd(1,2) by (simp add: holds_def)
    moreover have "p @ b = ?size @ drop ?need b" "length (drop ?need b) < length b" using False p by auto
    moreover have "same_link s ?s" by (simp add: same_link_def)
    moreover have "sl_status ?s = STATUS_CONTENT" by simp
    ultimately show ?thesis using size(2) hd(2) by blast
  qed
qed

lemma content_step:
  assumes s: "hb_s h i = s" "holds s p" "sl_status s = STATUS_CONTENT" and sound: "sound (p @ b)"
  shows "(packets (p @ b) = ([], p @ b) \<and> (\<exists>s'. push_step alive h i b = Some (set_slave h i s', [], None) \<and> holds s' (p @ b) \<and> same_link s s')) \<or>
    (\<exists>pkt b' s'. packets (p @ b) = (let (ps, r) = packets b' in (pkt # ps, r)) \<and> sound b' \<and> length b' < length b \<and>
      push_step alive h i b = Some (set_slave h i s', the (forward_local_message alive h pkt), if b' = [] then None else Some b') \<and>
      holds s' [] \<and> sl_status s' = STATUS_HEADER \<and> same_link s s')"
proof -
  let ?n = "be_nat (sl_size s)" and ?r = "take (sl_read s) (sl_recv_buffer s)"
  let ?need = "sl_length s - sl_read s"
  have p: "p = sl_size s @ ?r" "length (sl_size s) = 4" "hd (sl_size s) = 0" "sl_length s = ?n" "sl_read s < ?n" "length ?r = sl_read s"
    "sl_fd s \<noteq> 0"
    using s by (auto simp: holds_def status_defs)
  have h4: "take 4 (p @ b) = sl_size s" using p by simp
  have step: "push_step alive h i b = push_content alive h i b" using s by (simp add: push_step_def status_defs Let_def)
  show ?thesis
  proof (cases "length b < ?need")
    case True
    then have "length (p @ b) < 4 + be_nat (take 4 (p @ b))" unfolding h4 using p by simp
    then have "packets (p @ b) = ([], p @ b)" by (intro packets_short disjI2)
    moreover have "push_content alive h i b = Some (set_slave h i (s\<lparr>sl_recv_buffer := ?r @ b, sl_read := sl_read s + length b\<rparr>), [], None)"
      using True p(4,5) s(1) by (simp add: push_content_def Let_def)
    moreover have "holds (s\<lparr>sl_recv_buffer := ?r @ b, sl_read := sl_read s + length b\<rparr>) (p @ b)"
      using True p s(3) by (auto simp: holds_def)
    ultimately show ?thesis using step by (auto simp: same_link_def)
  next
    case False
    let ?b = "drop ?need b" and ?pkt = "?r @ take ?need b"
    have len: "\<not> length (p @ b) < 4 + ?n" "length ?pkt = ?n" using False p by auto
    have d: "drop (4 + ?n) (p @ b) = ?b" "take ?n (drop 4 (p @ b)) = ?pkt" using False p by auto
    have pk: "packets (p @ b) = (let (ps, r) = packets ?b in (?pkt # ps, r))"
      by (subst packets.simps) (use len d h4 in \<open>simp add: split_beta\<close>)
    have snd: "12 \<le> ?n" "sound ?b" using sound sound_long [of "p @ b"] len d(1) p(2) unfolding h4 by (simp_all add: p(1))
    obtain c where c: "forward_local_message alive h ?pkt = Some c" using forward_long [of ?pkt] len(2) snd(1) by auto
    have "push_content alive h i b = Some (set_slave h i (s\<lparr>sl_length := 0, sl_read := 0, sl_recv_buffer := [], sl_status := STATUS_HEADER\<rparr>),
        c, if ?b = [] then None else Some ?b)"
      using False p(4,5) c s(1) by (simp add: push_content_def Let_def)
    moreover have "holds (s\<lparr>sl_length := 0, sl_read := 0, sl_recv_buffer := [], sl_status := STATUS_HEADER\<rparr>) []"
      using p by (simp add: holds_def)
    moreover have "length ?b < length b" using False p by simp
    ultimately show ?thesis using pk snd(2) c step
      by (intro disjI2 exI [of _ ?pkt] exI [of _ ?b]) (auto simp: same_link_def)
  qed
qed

lemma push_loop_ok:
  "holds (hb_s h i) p \<Longrightarrow> sound (p @ b) \<Longrightarrow>
   \<exists>s'. push_loop alive h i b = Some (set_slave h i s', calls_for alive h (fst (packets (p @ b)))) \<and>
     holds s' (snd (packets (p @ b))) \<and> same_link (hb_s h i) s'"
proof (induction "length b" arbitrary: h p b rule: less_induct)
  case less
  let ?s = "hb_s h i"
  have next_round: "\<exists>s'. push_loop alive h i b = Some (set_slave h i s', calls_for alive h (fst (packets (p @ b)))) \<and>
      holds s' (snd (packets (p @ b))) \<and> same_link ?s s'"
    if st: "push_step alive h i b = Some (set_slave h i s1, c, if b' = [] then None else Some b')" "holds s1 p'" "length b' < length b"
      "sound (p' @ b')" "c @ calls_for alive h (fst (packets (p' @ b'))) = calls_for alive h (fst (packets (p @ b)))"
      "snd (packets (p' @ b')) = snd (packets (p @ b))" "same_link ?s s1" "packets p' = ([], p')"
    for s1 c b' p'
  proof (cases "b' = []")
    case True
    then show ?thesis using st by (auto simp: push_loop.simps [of alive h i b] calls_for_def)
  next
    case False
    from less.hyps [OF st(3), of "set_slave h i s1" p'] st(2,4)
    obtain s' where "push_loop alive (set_slave h i s1) i b' = Some (set_slave h i s', calls_for alive h (fst (packets (p' @ b'))))"
      "holds s' (snd (packets (p' @ b')))" "same_link s1 s'" by auto
    then show ?thesis using st False by (auto simp: push_loop.simps [of alive h i b] same_link_def)
  qed
  show ?case
  proof (cases "sl_status ?s = STATUS_HEADER")
    case True
    from header_step [OF refl less.prems(1) True less.prems(2), of alive] show ?thesis
    proof (elim disjE conjE exE)
      fix s' assume a: "length (p @ b) < 4" "push_step alive h i b = Some (set_slave h i s', [], None)" "holds s' (p @ b)" "same_link ?s s'"
      then show ?thesis by (auto simp: push_loop.simps [of alive h i b] packets_short calls_for_def)
    next
      fix s' q b' assume a: "push_step alive h i b = Some (set_slave h i s', [], if b' = [] then None else Some b')"
        "holds s' q" "sl_status s' = STATUS_CONTENT" "p @ b = q @ b'" "length b' < length b" "length q = 4" "0 < be_nat q" "same_link ?s s'"
      show ?thesis
        by (rule next_round [OF a(1,2,5)]) (use a less.prems(2) packets_header in \<open>simp_all\<close>)
    qed
  next
    case False
    then have "sl_status ?s = STATUS_CONTENT" using less.prems(1) by (auto simp: holds_def)
    from content_step [OF refl less.prems(1) this less.prems(2), of alive] show ?thesis
    proof (elim disjE conjE exE)
      fix s' assume "packets (p @ b) = ([], p @ b)" "push_step alive h i b = Some (set_slave h i s', [], None)" "holds s' (p @ b)" "same_link ?s s'"
      then show ?thesis by (auto simp: push_loop.simps [of alive h i b] calls_for_def)
    next
      fix pkt b' s' assume a: "packets (p @ b) = (let (ps, r) = packets b' in (pkt # ps, r))" "sound b'" "length b' < length b"
        "push_step alive h i b = Some (set_slave h i s', the (forward_local_message alive h pkt), if b' = [] then None else Some b')"
        "holds s' []" "sl_status s' = STATUS_HEADER" "same_link ?s s'"
      have "packets [] = ([], [])" by (simp add: packets.simps)
      then show ?thesis using a by (intro next_round [OF a(4,5,3)]) (simp_all add: calls_for_def split_beta)
    qed
  qed
qed


section \<open>Histories of messages\<close>

fun harbor_run :: "(u32 \<Rightarrow> bool) \<Rightarrow> harbor_service \<Rightarrow> (u32 \<times> u32 \<times> u32 \<times> harbor_in) list \<Rightarrow> (harbor_service \<times> harbor_call list) option" where
  "harbor_run alive h [] = Some (h, [])"
| "harbor_run alive h ((type, session, source, msg) # ms) =
     (case harbor_mainloop alive h type session source msg of
        None \<Rightarrow> None
      | Some (h, calls) \<Rightarrow> map_option (\<lambda>(h, calls'). (h, calls @ calls')) (harbor_run alive h ms))"

text \<open>The bytes that are sent to a descriptor, and the calls that are not for freeing memory.\<close>

definition sent_to :: "int \<Rightarrow> harbor_call list \<Rightarrow> bytes" where
  "sent_to fd calls = concat (map (\<lambda>c. case c of H_socket_send f b n \<Rightarrow> if f = fd then take (nat n) b else [] | _ \<Rightarrow> []) calls)"

fun is_free :: "harbor_call \<Rightarrow> bool" where
  "is_free (H_free a) = True"
| "is_free _ = False"

lemma sent_to_simps [simp]: "sent_to fd [] = []" "sent_to fd (xs @ ys) = sent_to fd xs @ sent_to fd ys"
  "sent_to fd (H_free a # xs) = sent_to fd xs" "sent_to fd (H_socket_start f # xs) = sent_to fd xs"
  "sent_to fd (H_error e # xs) = sent_to fd xs" "sent_to fd (H_send s d t n x # xs) = sent_to fd xs"
  "sent_to fd (H_socket_close f # xs) = sent_to fd xs"
  "sent_to fd (H_socket_send f b k # xs) = (if f = fd then take (nat k) b else []) @ sent_to fd xs"
  by (simp_all add: sent_to_def)

text \<open>A message to another node, and the message as the node takes it and as the other node gives it out.\<close>

record outgoing =
  og_source :: u32
  og_destination :: u32
  og_type :: u32
  og_session :: u32
  og_buffer :: u64
  og_data :: bytes

definition message_out :: "outgoing \<Rightarrow> u32 \<times> u32 \<times> u32 \<times> harbor_in" where
  "message_out m = (og_type m, og_session m, og_source m, In_remote [] (og_destination m) (og_buffer m) (og_data m))"

definition message_in :: "outgoing \<Rightarrow> harbor_call" where
  "message_in m = H_send (og_source m) (og_destination m) (og_type m OR PTYPE_TAG_DONTCOPY) (og_session m) (Bytes (og_data m))"

definition header_of :: "outgoing \<Rightarrow> remote_message_header" where
  "header_of m = \<lparr>rh_source = og_source m,
     rh_destination = push_bit HANDLE_REMOTE_SHIFT (og_type m) OR (og_destination m AND HANDLE_MASK), rh_session = og_session m\<rparr>"

text \<open>A message to the node \<open>i\<close> that fits into a packet.\<close>

definition valid_out :: "nat \<Rightarrow> outgoing \<Rightarrow> bool" where
  "valid_out i m \<longleftrightarrow> unat (drop_bit HANDLE_REMOTE_SHIFT (og_destination m)) = i \<and> og_type m < 256 \<and>
     og_type m \<noteq> PTYPE_SOCKET \<and> og_type m \<noteq> PTYPE_HARBOR \<and> short (header_of m, og_data m)"

lemma out_mainloop:
  assumes "valid_out i m" "0 < i"
  shows "harbor_mainloop alive h (og_type m) (og_session m) (og_source m) (In_remote [] (og_destination m) (og_buffer m) (og_data m)) =
    Some (let (h, calls, kept) = remote_send_handle h (og_source m) (og_destination m) (og_type m) (og_session m) (og_buffer m) (og_data m)
      in (h, if kept then calls else calls @ [H_free (og_buffer m)]))"
proof -
  have "og_destination m \<noteq> 0" using assms by (auto simp: valid_out_def)
  then show ?thesis using assms by (simp add: harbor_mainloop_def valid_out_def remote_out_def)
qed

text \<open>A connected slave sends at once.\<close>

lemma out_connected:
  assumes "valid_out i m" "0 < i" "sl_fd (hb_s h i) \<noteq> 0" "sl_status (hb_s h i) \<noteq> STATUS_HANDSHAKE" "hb_id h \<noteq> int i"
  shows "harbor_mainloop alive h (og_type m) (og_session m) (og_source m) (In_remote [] (og_destination m) (og_buffer m) (og_data m)) =
    Some (h, [H_socket_send (sl_fd (hb_s h i)) (wire (header_of m, og_data m)) (int (length (wire (header_of m, og_data m)))), H_free (og_buffer m)])"
  using assms send_remote_wire [of "header_of m" "og_data m" "sl_fd (hb_s h i)"]
  by (simp add: out_mainloop [OF assms(1,2)] remote_send_handle_def Let_def header_of_def valid_out_def)

lemma run_out: "harbor_run alive h (message_out m # ms) =
    (case harbor_mainloop alive h (og_type m) (og_session m) (og_source m) (In_remote [] (og_destination m) (og_buffer m) (og_data m)) of
       None \<Rightarrow> None | Some (h, calls) \<Rightarrow> map_option (\<lambda>(h, calls'). (h, calls @ calls')) (harbor_run alive h ms))"
  by (simp add: message_out_def)

lemma run_connected:
  assumes "list_all (valid_out i) ms" "0 < i" "sl_fd (hb_s h i) = fd" "fd \<noteq> 0" "sl_status (hb_s h i) \<noteq> STATUS_HANDSHAKE" "hb_id h \<noteq> int i"
  shows "\<exists>calls. harbor_run alive h (map message_out ms) = Some (h, calls) \<and>
    sent_to fd calls = concat (map wire (map (\<lambda>m. (header_of m, og_data m)) ms))"
  using assms(1)
proof (induction ms)
  case (Cons m ms)
  then obtain calls where "harbor_run alive h (map message_out ms) = Some (h, calls)"
    "sent_to fd calls = concat (map wire (map (\<lambda>m. (header_of m, og_data m)) ms))" by auto
  moreover have "valid_out i m" using Cons by simp
  ultimately show ?case using out_connected [of i m h alive] assms(2-) by (simp add: run_out)
qed simp

text \<open>The data that the connection \<open>fd\<close> brings, in the pieces in which it arrives.\<close>

definition data_in :: "int \<Rightarrow> bytes \<times> u64 \<Rightarrow> u32 \<times> u32 \<times> u32 \<times> harbor_in" where
  "data_in fd c = (PTYPE_SOCKET, 0, 0, In_socket \<lparr>sm_type = SOCKET_DATA, sm_id = fd, sm_ud = int (length (fst c)), sm_buffer = fst c\<rparr> (snd c))"

lemma find_same: "sl_fd s' = sl_fd (hb_s h i) \<Longrightarrow> find_slave (set_slave h i s') fd = find_slave h fd"
  unfolding find_slave_def by (rule arg_cong [where f = "\<lambda>P. List.find P _"]) (auto simp: set_slave_def)

lemma holds_waits: "holds s p \<Longrightarrow> packets p = ([], p)"
  by (rule packets_short) (auto simp: holds_def)

lemma set_same [simp]: "set_slave h i (hb_s h i) = h"
  by (simp add: set_slave_def)

lemma run_data:
  "holds (hb_s h i) p \<Longrightarrow> sound (p @ concat (map fst cs)) \<Longrightarrow> find_slave h fd = Some i \<Longrightarrow>
   \<exists>s' calls. harbor_run alive h (map (data_in fd) cs) = Some (set_slave h i s', calls) \<and>
     filter (\<lambda>c. \<not> is_free c) calls = filter (\<lambda>c. \<not> is_free c) (calls_for alive h (fst (packets (p @ concat (map fst cs))))) \<and>
     holds s' (snd (packets (p @ concat (map fst cs))))"
proof (induction cs arbitrary: h p)
  case Nil
  then show ?case using holds_waits [OF Nil(1)] by (auto intro!: exI [of _ "hb_s h i"] simp: calls_for_def)
next
  case (Cons c cs)
  let ?b = "fst c" and ?rest = "concat (map fst cs)"
  have snd: "sound ((p @ ?b) @ ?rest)" using Cons.prems(2) by simp
  then have "sound (p @ ?b)" by (rule sound_prefix)
  from push_loop_ok [OF Cons.prems(1) this, of alive] obtain s1 where s1:
    "push_loop alive h i ?b = Some (set_slave h i s1, calls_for alive h (fst (packets (p @ ?b))))"
    "holds s1 (snd (packets (p @ ?b)))" "same_link (hb_s h i) s1" by blast
  have find: "find_slave (set_slave h i s1) fd = Some i" using find_same [of s1 h i fd] s1(3) Cons.prems(3) by (simp add: same_link_def)
  have "sound (snd (packets (p @ ?b)) @ ?rest)" by (rule sound_rest [OF \<open>sound (p @ ?b)\<close> snd])
  from Cons.IH [of "set_slave h i s1", OF _ this find] s1(2) obtain s' calls where r:
    "harbor_run alive (set_slave h i s1) (map (data_in fd) cs) = Some (set_slave h i s', calls)"
    "filter (\<lambda>c. \<not> is_free c) calls = filter (\<lambda>c. \<not> is_free c) (calls_for alive h (fst (packets (snd (packets (p @ ?b)) @ ?rest))))"
    "holds s' (snd (packets (snd (packets (p @ ?b)) @ ?rest)))" by auto
  have "harbor_mainloop alive h PTYPE_SOCKET 0 0 (In_socket \<lparr>sm_type = SOCKET_DATA, sm_id = fd, sm_ud = int (length ?b), sm_buffer = ?b\<rparr> (snd c)) =
      Some (set_slave h i s1, calls_for alive h (fst (packets (p @ ?b))) @ [H_free (snd c)])"
    using s1(1) Cons.prems(3) by (simp add: harbor_mainloop_def socket_event_def push_socket_data_def)
  then have "harbor_run alive h (map (data_in fd) (c # cs)) =
      Some (set_slave h i s', (calls_for alive h (fst (packets (p @ ?b))) @ [H_free (snd c)]) @ calls)"
    using r(1) by (simp add: data_in_def)
  then show ?case using r(2,3) packets_append [of "p @ ?b" ?rest]
    by (auto simp: split_beta Let_def calls_for_def)
qed

text \<open>The destination is put together again on the other node.\<close>

lemma bit_HANDLE_MASK: "bit HANDLE_MASK n \<longleftrightarrow> n < 24"
proof -
  have m: "HANDLE_MASK = mask 24" by (simp add: HANDLE_MASK_def mask_eq_exp_minus_1)
  show ?thesis unfolding m bit_mask_iff by auto
qed

lemma rejoin:
  assumes "unat (drop_bit HANDLE_REMOTE_SHIFT d) = i"
  shows "(d AND HANDLE_MASK) OR push_bit HANDLE_REMOTE_SHIFT (of_int (int i)) = d"
proof -
  have "(of_int (int i) :: u32) = drop_bit 24 d" using assms by (simp add: HANDLE_REMOTE_SHIFT_def flip: assms)
  moreover have "(d AND HANDLE_MASK) OR push_bit 24 (drop_bit 24 d) = d"
  proof (rule bit_word_eqI)
    fix n show "bit ((d AND HANDLE_MASK) OR push_bit 24 (drop_bit 24 d)) n = bit d n" if "n < LENGTH(32)"
      using that by (cases "n < 24") (simp_all add: bit_simps bit_HANDLE_MASK)
  qed
  ultimately show ?thesis by (simp add: HANDLE_REMOTE_SHIFT_def)
qed

lemma header_type:
  assumes "t < 256"
  shows "drop_bit HANDLE_REMOTE_SHIFT (push_bit HANDLE_REMOTE_SHIFT t OR (d AND HANDLE_MASK)) = (t::u32)"
    "(push_bit HANDLE_REMOTE_SHIFT t OR (d AND HANDLE_MASK)) AND HANDLE_MASK = d AND HANDLE_MASK"
proof -
  have t: "unat t < 2 ^ 8" using assms by (simp add: word_less_nat_alt)
  have "\<not> bit t n" if "8 \<le> n" for n
  proof
    assume "bit t n"
    then have "bit (unat t) n" by (simp add: bit_unsigned_iff)
    then have "odd (unat t div 2 ^ n)" by (rule bit_iff_odd [THEN iffD1])
    moreover have "unat t < 2 ^ n" using t power_increasing [OF that, of "2::nat"] by simp
    then have "unat t div 2 ^ n = 0" by simp
    ultimately show False by (metis even_zero)
  qed
  then have small: "n < 8" if "bit t n" for n using that by (meson not_le)
  show "drop_bit HANDLE_REMOTE_SHIFT (push_bit HANDLE_REMOTE_SHIFT t OR (d AND HANDLE_MASK)) = t"
    "(push_bit HANDLE_REMOTE_SHIFT t OR (d AND HANDLE_MASK)) AND HANDLE_MASK = d AND HANDLE_MASK"
    by (auto intro!: bit_word_eqI simp: bit_simps bit_HANDLE_MASK HANDLE_REMOTE_SHIFT_def dest: small)
qed


lemma arrives_out:
  assumes "valid_out i m" "alive (og_destination m)"
  shows "arrives alive (int i) (header_of m, og_data m) = [message_in m]"
proof -
  have "og_type m < 256" "unat (drop_bit HANDLE_REMOTE_SHIFT (og_destination m)) = i" using assms(1) by (simp_all add: valid_out_def)
  then show ?thesis using header_type [of "og_type m" "og_destination m"] rejoin [of "og_destination m" i] assms(2)
    by (simp add: arrives_def header_of_def message_in_def Let_def)
qed

lemma calls_out:
  assumes "list_all (valid_out i) ms" "\<forall>m \<in> set ms. alive (og_destination m)" "hb_id h = int i"
  shows "calls_for alive h (map packet (map (\<lambda>m. (header_of m, og_data m)) ms)) = map message_in ms"
  using assms
proof (induction ms)
  case (Cons m ms)
  then have "arrives alive (int i) (header_of m, og_data m) = [message_in m]" by (intro arrives_out) simp_all
  then show ?case using Cons by (simp add: calls_for_def forward_packet)
qed (simp add: calls_for_def)

text \<open>A connection that is ready for the next message.\<close>

definition ready :: "slave \<Rightarrow> bool" where
  "ready s \<longleftrightarrow> sl_fd s \<noteq> 0 \<and> sl_status s = STATUS_HEADER \<and> sl_read s = 0 \<and> length (sl_size s) = 4"

lemma ready_holds: "ready s \<Longrightarrow> holds s []"
  by (simp add: ready_def holds_def)

lemma find_slave_fd: "find_slave h fd = Some j \<Longrightarrow> sl_fd (hb_s h j) = fd"
  by (auto simp: find_slave_def find_Some_iff)

text \<open>C11: From node to node: the messages that a harbor sends to a connected node arrive there as they were
  sent, with their source, destination, type, session and data, in order and each once, however the
  network cuts the bytes of the connection into pieces.
\<close>

theorem harbor_delivers:
  assumes "list_all (valid_out i) ms" "0 < i" "sl_fd (hb_s a i) = fd" "fd \<noteq> 0" "sl_status (hb_s a i) \<noteq> STATUS_HANDSHAKE" "hb_id a \<noteq> int i"
    "hb_id b = int i" "find_slave b fd' = Some j" "ready (hb_s b j)" "\<forall>m \<in> set ms. alive' (og_destination m)"
  shows "\<exists>calls. harbor_run alive a (map message_out ms) = Some (a, calls) \<and>
    (\<forall>cs. concat (map fst cs) = sent_to fd calls \<longrightarrow>
      (\<exists>b' calls'. harbor_run alive' b (map (data_in fd') cs) = Some (b', calls') \<and> ready (hb_s b' j) \<and>
        filter (\<lambda>c. \<not> is_free c) calls' = map message_in ms))"
proof -
  let ?ms = "map (\<lambda>m. (header_of m, og_data m)) ms"
  obtain calls where calls: "harbor_run alive a (map message_out ms) = Some (a, calls)" "sent_to fd calls = concat (map wire ?ms)"
    using run_connected [OF assms(1-6)] by blast
  have short: "list_all short ?ms" using assms(1) by (auto simp: list_all_iff valid_out_def)
  have "\<exists>b' calls'. harbor_run alive' b (map (data_in fd') cs) = Some (b', calls') \<and> ready (hb_s b' j) \<and>
      filter (\<lambda>c. \<not> is_free c) calls' = map message_in ms" if c: "concat (map fst cs) = concat (map wire ?ms)" for cs
  proof -
    have "sound ([] @ concat (map fst cs))" using sound_wires [OF short] c by simp
    from run_data [OF ready_holds [OF assms(9)] this assms(8), of alive'] obtain s' calls' where
      r: "harbor_run alive' b (map (data_in fd') cs) = Some (set_slave b j s', calls')"
        "filter (\<lambda>c. \<not> is_free c) calls' = filter (\<lambda>c. \<not> is_free c) (calls_for alive' b (fst (packets (concat (map wire ?ms)))))"
        "holds s' (snd (packets (concat (map wire ?ms))))" using c by auto
    have "holds s' []" "filter (\<lambda>c. \<not> is_free c) calls' = filter (\<lambda>c. \<not> is_free c) (map message_in ms)"
      using r(2,3) calls_out [OF assms(1,10,7)] packets_wires [OF short] by simp_all
    moreover have "filter (\<lambda>c. \<not> is_free c) (map message_in ms) = map message_in ms"
      by (simp add: filter_map comp_def message_in_def)
    moreover have "ready s'" using \<open>holds s' []\<close> by (auto simp: holds_def ready_def)
    ultimately show ?thesis using r(1) by auto
  qed
  then show ?thesis using calls by auto
qed


section \<open>An example\<close>

definition demo_harbor :: "int \<Rightarrow> (nat \<Rightarrow> slave) \<Rightarrow> harbor_service" where
  "demo_harbor n s = \<lparr>hb_id = n, hb_slave = 9, hb_map = hash_new, hb_s = s\<rparr>"

definition demo_slave :: "int \<Rightarrow> slave" where
  "demo_slave fd = zero_slave\<lparr>sl_fd := fd, sl_status := STATUS_HEADER\<rparr>"

definition demo_out :: outgoing where
  "demo_out = \<lparr>og_source = 0x01000005, og_destination = 0x02000007, og_type = 10, og_session = 3, og_buffer = 64, og_data = [1, 2]\<rparr>"

lemma demo_valid: "valid_out 2 demo_out"
  by (simp add: valid_out_def demo_out_def short_def PTYPE_SOCKET_def PTYPE_HARBOR_def HANDLE_REMOTE_SHIFT_def)

theorem harbor_delivers_witness:
  "\<exists>calls. harbor_run (\<lambda>_. True) (demo_harbor 1 ((\<lambda>_. zero_slave)(2 := demo_slave 8))) [message_out demo_out] =
      Some (demo_harbor 1 ((\<lambda>_. zero_slave)(2 := demo_slave 8)), calls) \<and>
    (\<forall>cs. concat (map fst cs) = sent_to 8 calls \<longrightarrow>
      (\<exists>b' calls'. harbor_run (\<lambda>_. True) (demo_harbor 2 ((\<lambda>_. zero_slave)(1 := demo_slave 5))) (map (data_in 5) cs) = Some (b', calls') \<and>
        filter (\<lambda>c. \<not> is_free c) calls' = [message_in demo_out]))"
proof -
  have "find_slave (demo_harbor 2 ((\<lambda>_. zero_slave)(1 := demo_slave 5))) 5 = Some 1"
    by (simp add: find_slave_def demo_harbor_def demo_slave_def REMOTE_MAX_def upt_conv_Cons)
  then show ?thesis
    using harbor_delivers [of 2 "[demo_out]" "demo_harbor 1 ((\<lambda>_. zero_slave)(2 := demo_slave 8))" 8
      "demo_harbor 2 ((\<lambda>_. zero_slave)(1 := demo_slave 5))" 5 1 "\<lambda>_. True" "\<lambda>_. True"] demo_valid
    by (fastforce simp: demo_harbor_def demo_slave_def ready_def zero_slave_def status_defs)
qed

end
