(* ===== verification/HarborLink.thy ===== *)
theory HarborLink
  imports HarborProps
begin

text \<open>
  The link of a harbor to another node over time (\<open>service-src/service_harbor.c\<close>): it keeps the order of the
  messages through the phases without a connection, of the handshake and of the connection; and the
  messages that the harbor does not deliver.
\<close>

unbundle bit_operations_syntax

section \<open>The link to one node\<close>

definition queue_entry :: "outgoing \<Rightarrow> harbor_msg" where
  "queue_entry m = \<lparr>hm_header = header_of m, hm_buffer = og_buffer m, hm_data = og_data m\<rparr>"

definition wire_out :: "outgoing list \<Rightarrow> bytes" where
  "wire_out ms = concat (map (\<lambda>m. wire (header_of m, og_data m)) ms)"

text \<open>
  The histories of the link to the node \<open>i\<close>, with the calls of the harbor and the messages to the node:
  it starts without a connection, and messages, commands for this node and data from it come in any order.
\<close>

inductive harbor_link :: "nat \<Rightarrow> harbor_service \<Rightarrow> harbor_call list \<Rightarrow> outgoing list \<Rightarrow> bool" for i where
  unconnected: "harbor_link i h [] []" if "hb_s h i = zero_slave" "hb_id h \<noteq> int i" "0 < i"
| message: "harbor_link i h' (calls @ calls') (ms @ [m])"
    if "harbor_link i h calls ms" "valid_out i m" "harbor_run alive h [message_out m] = Some (h', calls')"
| command: "harbor_link i h' (calls @ calls') ms"
    if "harbor_link i h calls ms" "snd (scan_slave (cstr (drop 2 msg) 0)) = int i" "first_char msg = CHR ''S'' \<or> first_char msg = CHR ''A''"
      "harbor_mainloop alive h PTYPE_HARBOR session source (In_command msg) = Some (h', calls')"
| data: "harbor_link i h' (calls @ calls') ms"
    if "harbor_link i h calls ms" "find_slave h fd = Some i" "harbor_run alive h [data_in fd c] = Some (h', calls')"

text \<open>The states of a link.\<close>

definition link_inv :: "nat \<Rightarrow> harbor_service \<Rightarrow> harbor_call list \<Rightarrow> outgoing list \<Rightarrow> bool" where
  "link_inv i h calls ms \<longleftrightarrow> hb_id h \<noteq> int i \<and> 0 < i \<and> list_all (valid_out i) ms \<and>
     (let s = hb_s h i in queue_wf (sl_queue s) \<and>
       (sl_status s = STATUS_WAIT \<and> sl_fd s = 0 \<and> (\<forall>fd. sent_to fd calls = []) \<and> queued (sl_queue s) = map queue_entry ms \<or>
        sl_status s = STATUS_HANDSHAKE \<and> sl_fd s \<noteq> 0 \<and> sent_to (sl_fd s) calls = [of_int (hb_id h)] \<and> queued (sl_queue s) = map queue_entry ms \<or>
        (sl_status s = STATUS_HEADER \<or> sl_status s = STATUS_CONTENT) \<and> sl_fd s \<noteq> 0 \<and>
          sent_to (sl_fd s) calls = of_int (hb_id h) # wire_out ms \<and> sl_queue s = None \<or>
        sl_status s = STATUS_DOWN \<and> sl_fd s \<noteq> 0))"

lemma link_down: "link_inv i h calls ms \<Longrightarrow> sl_fd (hb_s h i) \<noteq> 0 \<Longrightarrow> s = (hb_s h i)\<lparr>sl_status := STATUS_DOWN, sl_queue := None\<rparr> \<Longrightarrow>
    link_inv i (set_slave h i s) calls' ms"
  by (simp add: link_inv_def Let_def status_defs)

lemma sent_frees [simp]: "sent_to fd (map (\<lambda>m. H_free (f m)) ms) = []"
  by (induction ms) simp_all

text \<open>What goes out when a queue is sent.\<close>

lemma dispatch_sent:
  assumes "list_all (valid_out i) ms"
  shows "sent_to fd (concat (map (\<lambda>m. send_remote fd (hm_data m) (hm_header m) @ [H_free (hm_buffer m)]) (map queue_entry ms))) = wire_out ms"
  using assms
proof (induction ms)
  case (Cons m ms)
  then have "send_remote fd (og_data m) (header_of m) = [H_socket_send fd (wire (header_of m, og_data m)) (int (length (wire (header_of m, og_data m))))]"
    by (intro send_remote_wire) (simp add: valid_out_def)
  then show ?case using Cons by (simp add: wire_out_def queue_entry_def)
qed (simp add: wire_out_def)

lemma dispatch_link:
  assumes "queue_wf (sl_queue (hb_s h i))" "sl_fd (hb_s h i) \<noteq> 0" "queued (sl_queue (hb_s h i)) = map queue_entry ms" "list_all (valid_out i) ms"
  shows "\<exists>calls. harbor_dispatch_queue h i = Some (set_slave h i ((hb_s h i)\<lparr>sl_queue := None\<rparr>), calls) \<and>
    sent_to (sl_fd (hb_s h i)) calls = wire_out ms"
proof (cases "sl_queue (hb_s h i)")
  case None
  then have "(hb_s h i)\<lparr>sl_queue := None\<rparr> = hb_s h i" "ms = []" using assms(3) by simp_all
  then have "h = set_slave h i ((hb_s h i)\<lparr>sl_queue := None\<rparr>)" by (simp only: set_same)
  then show ?thesis using None assms(2) \<open>ms = []\<close> by (simp add: harbor_dispatch_queue_def wire_out_def)
next
  case (Some q)
  then obtain q' where q': "pop_all q = Some (map queue_entry ms, q')" "hq_wf q'" "hq_list q' = []"
    using pop_all_ok [of q] assms by auto
  then have "harbor_release_queue (Some q') = Some []" using release_queue_ok [of "Some q'"] by simp
  then show ?thesis using Some q'(1) assms(2) dispatch_sent [OF assms(4)]
    by (simp add: harbor_dispatch_queue_def Let_def)
qed

lemma close_slave:
  assumes "queue_wf (sl_queue (hb_s h i))"
  shows "\<exists>calls. close_harbor h i = Some (set_slave h i ((hb_s h i)\<lparr>sl_status := STATUS_DOWN, sl_queue := None\<rparr>), calls)"
  using release_queue_ok [OF assms] by (simp add: close_harbor_def Let_def)

lemma forward_sends_nothing: "forward_local_message alive h p = Some calls \<Longrightarrow> sent_to fd calls = []"
  by (auto simp: forward_local_message_def Let_def split: if_splits)

lemma header_result:
  assumes "push_header h i b = Some (h', calls, r)" "sl_queue (hb_s h i) = None" "sl_fd (hb_s h i) \<noteq> 0"
  shows "\<exists>s'. h' = set_slave h i s' \<and> sl_queue s' = None \<and> sl_fd s' = sl_fd (hb_s h i) \<and>
    ((sl_status s' = sl_status (hb_s h i) \<or> sl_status s' = STATUS_CONTENT) \<and> calls = [] \<or> sl_status s' = STATUS_DOWN)"
proof (cases "length b < 4 - sl_read (hb_s h i)")
  case True
  then show ?thesis using assms by (auto simp: push_header_def Let_def split: if_splits)
next
  case False
  let ?s = "hb_s h i"
  define z where "z = take (sl_read ?s) (sl_size ?s) @ take (4 - sl_read ?s) b"
  define n where "n = unat (push_bit 16 (ucast (z ! Suc 0)) OR push_bit 8 (ucast (z ! 2)) OR ucast (z ! 3) :: u32)"
  have r: "\<not> 4 < sl_read ?s" using assms(1) by (auto simp: push_header_def Let_def)
  show ?thesis
  proof (cases "z ! 0 = 0")
    case True
    let ?s' = "?s\<lparr>sl_size := z, sl_length := n, sl_read := 0, sl_recv_buffer := [], sl_status := STATUS_CONTENT\<rparr>"
    have "h' = set_slave h i ?s'" "calls = []"
      using assms(1) False r True by (simp_all add: push_header_def Let_def flip: z_def n_def)
    then show ?thesis using assms(2) by (intro exI [of _ ?s']) simp
  next
    case nz: False
    let ?s' = "?s\<lparr>sl_size := z, sl_status := STATUS_DOWN, sl_queue := None\<rparr>"
    have "h' = set_slave h i ?s'"
      using assms False r nz by (simp add: push_header_def Let_def close_harbor_def harbor_release_queue_def flip: z_def)
    then show ?thesis by (intro exI [of _ ?s']) simp
  qed
qed

lemma content_result:
  assumes "push_content alive h i b = Some (h', calls, r)" "sl_queue (hb_s h i) = None" "sl_status (hb_s h i) = STATUS_CONTENT"
  shows "\<exists>s'. h' = set_slave h i s' \<and> sl_queue s' = None \<and> sl_fd s' = sl_fd (hb_s h i) \<and>
    (sl_status s' = STATUS_CONTENT \<or> sl_status s' = STATUS_HEADER) \<and> sent_to fd calls = []"
proof (cases "length b < sl_length (hb_s h i) - sl_read (hb_s h i)")
  case True
  let ?s = "hb_s h i"
  let ?s' = "?s\<lparr>sl_recv_buffer := take (sl_read ?s) (sl_recv_buffer ?s) @ b, sl_read := sl_read ?s + length b\<rparr>"
  have "h' = set_slave h i ?s'" "calls = []" using assms(1) True by (simp_all add: push_content_def Let_def split: if_splits)
  then show ?thesis using assms(2,3) by (intro exI [of _ ?s']) simp
next
  case False
  let ?s = "hb_s h i"
  let ?s' = "?s\<lparr>sl_length := 0, sl_read := 0, sl_recv_buffer := [], sl_status := STATUS_HEADER\<rparr>"
  have "h' = set_slave h i ?s'" "\<exists>p. forward_local_message alive h p = Some calls"
    using assms(1) False by (auto simp: push_content_def Let_def bind_Some_iff split: if_splits)
  then show ?thesis using assms(2) forward_sends_nothing by (intro exI [of _ ?s']) auto
qed

lemma step_link:
  assumes inv: "link_inv i h calls ms" and step: "push_step alive h i b = Some (h', calls', r)"
  shows "link_inv i h' (calls @ calls') ms"
proof -
  let ?s = "hb_s h i"
  have wf: "queue_wf (sl_queue ?s)" "hb_id h \<noteq> int i" "0 < i" "list_all (valid_out i) ms" using inv by (simp_all add: link_inv_def Let_def)
  consider "sl_status ?s = STATUS_WAIT \<or> sl_status ?s = STATUS_DOWN" | "sl_status ?s = STATUS_HANDSHAKE"
    | "sl_status ?s = STATUS_HEADER" | "sl_status ?s = STATUS_CONTENT"
    using inv by (auto simp: link_inv_def Let_def)
  then show ?thesis
  proof cases
    case 1
    then show ?thesis using inv step by (auto simp: push_step_def Let_def status_defs)
  next
    case 2
    then have st: "sl_fd ?s \<noteq> 0" "sent_to (sl_fd ?s) calls = [of_int (hb_id h)]" "queued (sl_queue ?s) = map queue_entry ms"
      "push_handshake h i b = Some (h', calls', r)"
      using inv step by (auto simp: link_inv_def Let_def push_step_def status_defs)
    let ?h = "set_slave h i (?s\<lparr>sl_status := STATUS_HEADER\<rparr>)"
    obtain c where c: "harbor_dispatch_queue ?h i = Some (set_slave ?h i (?s\<lparr>sl_status := STATUS_HEADER, sl_queue := None\<rparr>), c)"
      "sent_to (sl_fd ?s) c = wire_out ms"
      using dispatch_link [of ?h i ms] wf st by auto
    show ?thesis
    proof (cases "b = [] \<or> unat (hd b) \<noteq> i")
      case True
      obtain cs where "close_harbor h i = Some (set_slave h i (?s\<lparr>sl_status := STATUS_DOWN, sl_queue := None\<rparr>), cs)"
        using close_slave [OF wf(1)] by blast
      then have "h' = set_slave h i (?s\<lparr>sl_status := STATUS_DOWN, sl_queue := None\<rparr>)"
        using st(4) True by (auto simp: push_handshake_def split: list.splits)
      then show ?thesis using link_down [OF inv st(1)] by simp
    next
      case False
      then have "h' = set_slave h i (?s\<lparr>sl_status := STATUS_HEADER, sl_queue := None\<rparr>)" "calls' = c"
        using st(4) c(1) by (auto simp: push_handshake_def split: list.splits)
      then show ?thesis using c(2) st wf by (simp add: link_inv_def Let_def)
    qed
  next
    case 3
    then have st: "sl_fd ?s \<noteq> 0" "sent_to (sl_fd ?s) calls = of_int (hb_id h) # wire_out ms" "sl_queue ?s = None"
      "push_header h i b = Some (h', calls', r)"
      using inv step by (auto simp: link_inv_def Let_def push_step_def status_defs)
    from header_result [OF st(4,3,1)] obtain s' where s': "h' = set_slave h i s'" "sl_queue s' = None" "sl_fd s' = sl_fd ?s"
      "(sl_status s' = sl_status ?s \<or> sl_status s' = STATUS_CONTENT) \<and> calls' = [] \<or> sl_status s' = STATUS_DOWN" by blast
    then show ?thesis using st wf 3 by (auto simp: link_inv_def Let_def)
  next
    case 4
    then have st: "sl_fd ?s \<noteq> 0" "sent_to (sl_fd ?s) calls = of_int (hb_id h) # wire_out ms" "sl_queue ?s = None"
      "push_content alive h i b = Some (h', calls', r)"
      using inv step by (auto simp: link_inv_def Let_def push_step_def status_defs)
    from content_result [OF st(4,3) 4, of "sl_fd ?s"] obtain s' where s': "h' = set_slave h i s'" "sl_queue s' = None" "sl_fd s' = sl_fd ?s"
      "sl_status s' = STATUS_CONTENT \<or> sl_status s' = STATUS_HEADER" "sent_to (sl_fd ?s) calls' = []" by blast
    then show ?thesis using st wf by (auto simp: link_inv_def Let_def)
  qed
qed

lemma loop_link:
  assumes res: "push_loop alive h i b = Some r"
  shows "\<forall>calls. link_inv i h calls ms \<longrightarrow> link_inv i (fst r) (calls @ snd r) ms"
proof (rule push_loop.raw_induct [OF _ res, where P = "\<lambda>alive h i b r. \<forall>calls. link_inv i h calls ms \<longrightarrow> link_inv i (fst r) (calls @ snd r) ms"], intro allI impI)
  fix loop alive h i b r calls
  assume ih: "\<And>alive h i b r. loop alive h i b = Some r \<Longrightarrow> \<forall>calls. link_inv i h calls ms \<longrightarrow> link_inv i (fst r) (calls @ snd r) ms"
    and r: "Option.bind (push_step alive h i b) (\<lambda>(h, calls, rest). case rest of None \<Rightarrow> Some (h, calls)
      | Some b \<Rightarrow> Option.bind (loop alive h i b) (\<lambda>(h, calls'). Some (h, calls @ calls'))) = Some r"
    and inv: "link_inv i h calls ms"
  obtain h1 c1 rest where st: "push_step alive h i b = Some (h1, c1, rest)" using r by (auto simp: bind_Some_iff)
  note inv1 = step_link [OF inv st]
  show "link_inv i (fst r) (calls @ snd r) ms"
  proof (cases rest)
    case None
    then show ?thesis using r st inv1 by auto
  next
    case (Some b1)
    then obtain h2 c2 where "loop alive h1 i b1 = Some (h2, c2)" "r = (h2, c1 @ c2)" using r st by (auto simp: bind_Some_iff)
    then have "link_inv i h2 ((calls @ c1) @ c2) ms" using ih [of alive h1 i b1 "(h2, c2)"] inv1 by fastforce
    then show ?thesis using \<open>r = (h2, c1 @ c2)\<close> by simp
  qed
qed

lemma link_data:
  assumes "link_inv i h calls ms" "find_slave h fd = Some i" "harbor_run alive h [data_in fd c] = Some (h', calls')"
  shows "link_inv i h' (calls @ calls') ms"
proof -
  obtain h1 c1 where r: "push_loop alive h i (fst c) = Some (h1, c1)" "h' = h1" "calls' = c1 @ [H_free (snd c)]"
    using assms(2,3) by (auto simp: data_in_def harbor_mainloop_def socket_event_def push_socket_data_def split: option.splits)
  have "link_inv i h1 (calls @ c1) ms" using loop_link [OF r(1)] assms(1) by auto
  then show ?thesis using r(2,3) by (simp add: link_inv_def Let_def)
qed

lemma link_message:
  assumes inv: "link_inv i h calls ms" and m: "valid_out i m" and r: "harbor_run alive h [message_out m] = Some (h', calls')"
  shows "link_inv i h' (calls @ calls') (ms @ [m])"
proof -
  let ?s = "hb_s h i"
  have wf: "queue_wf (sl_queue ?s)" "hb_id h \<noteq> int i" "0 < i" "list_all (valid_out i) ms" using inv by (simp_all add: link_inv_def Let_def)
  consider (queued) "sl_fd ?s = 0 \<or> sl_status ?s = STATUS_HANDSHAKE" "sl_status ?s \<noteq> STATUS_DOWN"
    | (sent) "sl_fd ?s \<noteq> 0" "sl_status ?s \<noteq> STATUS_HANDSHAKE"
    using inv by (auto simp: link_inv_def Let_def status_defs)
  then show ?thesis
  proof cases
    case queued
    have q: "hq_wf (push_queue (case sl_queue ?s of None \<Rightarrow> new_queue | Some q \<Rightarrow> q) (og_buffer m) (og_data m) (header_of m)) \<and>
        hq_list (push_queue (case sl_queue ?s of None \<Rightarrow> new_queue | Some q \<Rightarrow> q) (og_buffer m) (og_data m) (header_of m)) =
          queued (sl_queue ?s) @ [queue_entry m]"
      using push_queue_ok [OF wf(1)] by (simp add: queue_entry_def)
    have "h' = set_slave h i (?s\<lparr>sl_queue := Some (push_queue (case sl_queue ?s of None \<Rightarrow> new_queue | Some q \<Rightarrow> q) (og_buffer m) (og_data m) (header_of m))\<rparr>)"
      "calls' = []"
      using r queued m wf by (auto simp: run_out out_mainloop remote_send_handle_def Let_def header_of_def valid_out_def)
    then show ?thesis using inv queued m q by (auto simp: link_inv_def Let_def status_defs)
  next
    case sent
    have "h' = h" "calls' = [H_socket_send (sl_fd ?s) (wire (header_of m, og_data m)) (int (length (wire (header_of m, og_data m)))), H_free (og_buffer m)]"
      using r out_connected [OF m wf(3) sent wf(2), of alive] by (auto simp: run_out)
    then show ?thesis using inv sent m by (auto simp: link_inv_def Let_def status_defs wire_out_def)
  qed
qed

lemma link_command:
  assumes inv: "link_inv i h calls ms" and i: "snd (scan_slave (cstr (drop 2 msg) 0)) = int i" "first_char msg = CHR ''S'' \<or> first_char msg = CHR ''A''"
    and r: "harbor_mainloop alive h PTYPE_HARBOR session source (In_command msg) = Some (h', calls')"
  shows "link_inv i h' (calls @ calls') ms"
proof -
  let ?s = "hb_s h i"
  obtain fd where fd: "scan_slave (cstr (drop 2 msg) 0) = (fd, int i)" using i(1) by (metis prod.collapse)
  have m: "msg \<noteq> []" "hd msg = first_char msg" using i(2) by (auto simp: first_char_def split: list.splits)
  have cmd: "command_slave h msg = Some (h', calls')" using r i(2) by (auto simp: harbor_mainloop_def PTYPE_HARBOR_def PTYPE_SOCKET_def harbor_command_def)
  show ?thesis
  proof (cases "fd = 0 \<or> int i \<ge> int REMOTE_MAX \<or> sl_fd ?s \<noteq> 0")
    case True
    then have "h' = h" "sent_to f calls' = []" for f using cmd fd by (auto simp: command_slave_def Let_def split: if_splits)
    then show ?thesis using inv by (simp add: link_inv_def Let_def)
  next
    case False
    have st: "sl_status ?s = STATUS_WAIT" "\<forall>fd. sent_to fd calls = []" "queued (sl_queue ?s) = map queue_entry ms" "queue_wf (sl_queue ?s)"
      "hb_id h \<noteq> int i" "0 < i" "list_all (valid_out i) ms"
      using inv False by (auto simp: link_inv_def Let_def)
    have len: "\<not> length msg < 2" using cmd by (auto simp: command_slave_def)
    show ?thesis
    proof (cases "hd msg = CHR ''S''")
      case True
      then have "h' = set_slave h i (?s\<lparr>sl_fd := fd, sl_status := STATUS_HANDSHAKE\<rparr>)"
        "calls' = [H_socket_start fd, H_socket_send fd [of_int (hb_id h)] 1]"
        using cmd fd False st(6) len by (simp_all add: command_slave_def Let_def handshake_def)
      then show ?thesis using st False by (simp add: link_inv_def Let_def)
    next
      case A: False
      let ?h = "set_slave h i (?s\<lparr>sl_fd := fd, sl_status := STATUS_HEADER\<rparr>)"
      obtain c where c: "harbor_dispatch_queue ?h i = Some (set_slave ?h i (?s\<lparr>sl_fd := fd, sl_status := STATUS_HEADER, sl_queue := None\<rparr>), c)"
        "sent_to fd c = wire_out ms"
        using dispatch_link [of ?h i ms] st False by auto
      have "h' = set_slave h i (?s\<lparr>sl_fd := fd, sl_status := STATUS_HEADER, sl_queue := None\<rparr>)"
        "calls' = [H_socket_start fd, H_socket_send fd [of_int (hb_id h)] 1] @ c"
        using cmd fd False st(6) len A c(1) by (simp_all add: command_slave_def Let_def handshake_def)
      then show ?thesis using st False c(2) by (simp add: link_inv_def Let_def)
    qed
  qed
qed

lemma harbor_link_inv: "harbor_link i h calls ms \<Longrightarrow> link_inv i h calls ms"
proof (induction rule: harbor_link.induct)
  case (unconnected h)
  then show ?case by (simp add: link_inv_def zero_slave_def Let_def)
qed (blast intro: link_message link_command link_data)+



section \<open>What the harbor does not keep\<close>

text \<open>The first message for a name that is not known: it waits in the queue of the name.\<close>

lemma new_name:
  assumes "hash_search hash name = None"
  shows "search_or_insert hash name = (hash_insert hash name, 0)"
    "hash_insert hash name (bucket_of name) ! 0 =
       \<lparr>kv_key = take GLOBALNAME_LENGTH name, kv_hash = name_hash name, kv_value = 0, kv_queue = None\<rparr>"
    "hash_insert hash name (bucket_of name) \<noteq> []"
  using assms by (simp_all add: search_or_insert_def hash_insert_def)

lemma known_name:
  assumes "hash (bucket_of name) \<noteq> []" "kv_key node = take GLOBALNAME_LENGTH name" "kv_hash node = name_hash name"
  shows "search_or_insert (set_node hash name 0 node) name = (set_node hash name 0 node, 0)"
    "set_node hash name 0 node (bucket_of name) ! 0 = node"
  using assms by (cases "hash (bucket_of name)"; simp add: search_or_insert_def hash_search_def set_node_def same_name_def)+

text \<open>C36: A message to a name loses its destination: when the node of the name is not connected at the time
  the name becomes known, the message moves from the queue of the name to that of the node, and what is
  sent for it once the node is connected has the handle 0 as its destination, whatever the handle of
  the name is.
\<close>

theorem name_queue_loses_handle:
  assumes "hash_search (hb_map h) name = None" "unat (drop_bit HANDLE_REMOTE_SHIFT handle) = i" "0 < i" "hb_s h i = zero_slave" "fd \<noteq> 0"
    "short (\<lparr>rh_source = source, rh_destination = push_bit HANDLE_REMOTE_SHIFT type, rh_session = session\<rparr>, data)"
  shows "\<exists>h1 q h2 h3 calls.
    remote_send_name h source name type session msg data = (h1, [q], True) \<and>
    update_name h1 name handle = Some (h2, []) \<and>
    harbor_dispatch_queue (set_slave h2 i ((hb_s h2 i)\<lparr>sl_fd := fd, sl_status := STATUS_HEADER\<rparr>)) i = Some (h3, calls) \<and>
    sent_to fd calls = wire (\<lparr>rh_source = source, rh_destination = push_bit HANDLE_REMOTE_SHIFT type, rh_session = session\<rparr>, data)"
proof -
  let ?hdr = "\<lparr>rh_source = source, rh_destination = push_bit HANDLE_REMOTE_SHIFT type, rh_session = session\<rparr>"
  let ?q = "push_queue new_queue msg data ?hdr"
  let ?map = "hash_insert (hb_map h) name"
  let ?node = "\<lparr>kv_key = take GLOBALNAME_LENGTH name, kv_hash = name_hash name, kv_value = 0, kv_queue = Some ?q\<rparr>"
  let ?h1 = "h\<lparr>hb_map := set_node ?map name 0 ?node\<rparr>"
  note new = new_name [OF assms(1)]
  have send: "remote_send_name h source name type session msg data =
      (?h1, [H_send 0 (hb_slave h) PTYPE_TEXT 0 (Bytes (string_bytes (''Q '' @ cstr (take GLOBALNAME_LENGTH name) 0)))], True)"
    by (simp add: remote_send_name_def new)
  note known = known_name [of ?map name ?node, OF new(3)]
  obtain m where "update_name ?h1 name handle = Some (set_slave ?h1 i (zero_slave\<lparr>sl_queue := Some ?q\<rparr>)\<lparr>hb_map := m\<rparr>, [])"
    using assms(2-4) known
    by (simp add: update_name_def dispatch_name_queue_def harbor_release_queue_def zero_slave_def status_defs set_slave_def)
  moreover have "hq_wf ?q \<and> hq_list ?q = [\<lparr>hm_header = ?hdr, hm_buffer = msg, hm_data = data\<rparr>]"
    using push_queue_ok [of None msg data ?hdr] by simp
  then obtain q' where "pop_all ?q = Some ([\<lparr>hm_header = ?hdr, hm_buffer = msg, hm_data = data\<rparr>], q')" "hq_wf q'" "hq_list q' = []"
    using pop_all_ok [of ?q] by auto
  moreover from this have "harbor_release_queue (Some q') = Some []" using release_queue_ok [of "Some q'"] by simp
  ultimately show ?thesis using send assms(5) send_remote_wire [OF assms(6), of fd]
    by (auto simp: harbor_dispatch_queue_def Let_def set_slave_def zero_slave_def)
qed

text \<open>C37: When the harbor has closed the connection to a node, a later message to this node is neither
  queued nor answered with an error: it is sent to the closed descriptor, since the descriptor stays in
  the slave and the branch for a node that is down is reached only without one.
\<close>

theorem closed_harbor_not_reported:
  assumes "close_harbor h i = Some (h', calls)" "sl_fd (hb_s h i) = fd" "fd \<noteq> 0" "hb_id h \<noteq> int i"
    "unat (drop_bit HANDLE_REMOTE_SHIFT destination) = i"
  shows "\<exists>header. remote_send_handle h' source destination type session msg data = (h', send_remote fd data header, False)"
proof -
  obtain cs where "h' = set_slave h i ((hb_s h i)\<lparr>sl_status := STATUS_DOWN, sl_queue := None\<rparr>)"
    using assms(1) by (auto simp: close_harbor_def Let_def bind_Some_iff)
  then show ?thesis using assms(2-) by (auto simp: remote_send_handle_def Let_def status_defs)
qed

text \<open>Data from a descriptor that belongs to no node is freed twice.\<close>

lemma unknown_fd_freed_twice:
  "find_slave h (sm_id m) = None \<Longrightarrow> sm_type m = SOCKET_DATA \<Longrightarrow>
     \<exists>e. socket_event alive h m buffer = Some (h, [H_free buffer, e, H_free buffer])"
  by (simp add: socket_event_def push_socket_data_def)

text \<open>A packet that is too short for the cookie is read outside its buffer.\<close>

lemma short_packet_fails:
  assumes "ready (hb_s h i)" "length p < 12" "p \<noteq> []"
  shows "push_loop alive h i (be_bytes 4 (length p) @ p) = None"
proof -
  let ?z = "be_bytes 4 (length p)" and ?s = "hb_s h i"
  have z: "length ?z = 4" "hd ?z = 0" "?z ! 0 = 0" "be_nat ?z = length p"
    using assms(2) by (simp_all add: be_bytes_small) (simp_all add: be_bytes_4)
  let ?h = "set_slave h i (?s\<lparr>sl_size := ?z, sl_length := length p, sl_read := 0, sl_recv_buffer := [], sl_status := STATUS_CONTENT\<rparr>)"
  have "push_step alive h i (?z @ p) = Some (?h, [], Some p)"
    using assms z length_of_size [OF z(1,2)] by (simp add: push_step_def ready_def status_defs push_header_def Let_def)
  moreover have "push_step alive ?h i p = None"
    using assms(2) by (simp add: push_step_def status_defs push_content_def forward_local_message_def HEADER_COOKIE_LENGTH_def Let_def)
  ultimately show ?thesis by (simp add: push_loop.simps [of alive h] push_loop.simps [of alive ?h])
qed


section \<open>Examples of links\<close>


theorem name_queue_loses_handle_witness:
  "\<exists>h1 q h2 h3 calls.
    remote_send_name (demo_harbor 1 (\<lambda>_. zero_slave)) 5 (''db'' @ replicate 14 (CHR 0x00)) 10 3 64 [1, 2] = (h1, [q], True) \<and>
    update_name h1 (''db'' @ replicate 14 (CHR 0x00)) 0x02000007 = Some (h2, []) \<and>
    harbor_dispatch_queue (set_slave h2 2 ((hb_s h2 2)\<lparr>sl_fd := 8, sl_status := STATUS_HEADER\<rparr>)) 2 = Some (h3, calls) \<and>
    sent_to 8 calls = wire (\<lparr>rh_source = 5, rh_destination = push_bit HANDLE_REMOTE_SHIFT 10, rh_session = 3\<rparr>, [1, 2])"
  by (rule name_queue_loses_handle)
    (simp_all add: demo_harbor_def hash_new_def hash_search_def HANDLE_REMOTE_SHIFT_def short_def)

theorem closed_harbor_not_reported_witness:
  "\<exists>h' calls header. close_harbor (demo_harbor 1 ((\<lambda>_. zero_slave)(2 := demo_slave 8))) 2 = Some (h', calls) \<and>
     remote_send_handle h' 5 0x02000007 10 3 64 [1, 2] = (h', send_remote 8 [1, 2] header, False)"
proof -
  let ?h = "demo_harbor 1 ((\<lambda>_. zero_slave)(2 := demo_slave 8))"
  obtain h' calls where c: "close_harbor ?h 2 = Some (h', calls)"
    using close_slave [of ?h 2] by (auto simp: demo_harbor_def demo_slave_def zero_slave_def)
  have h: "sl_fd (hb_s ?h 2) = 8" "hb_id ?h \<noteq> int 2" "unat (drop_bit HANDLE_REMOTE_SHIFT (0x02000007 :: u32)) = 2"
    by (simp_all add: demo_harbor_def demo_slave_def HANDLE_REMOTE_SHIFT_def)
  show ?thesis using c closed_harbor_not_reported [OF c h(1) _ h(2,3), of 5 10 3 64 "[1, 2]"] by auto
qed


end
