(* ===== verification/LuaSeri.thy ===== *)
theory LuaSeri
  imports CText Bytes "HOL-Library.AList"
begin

text \<open>
  \<open>lualib-src/lua-seri.c\<close>: Lua values as bytes. \<open>pack\<close> writes values into a chain of blocks, \<open>unpack\<close> reads
  them from a buffer.

  A table is the list of its keys and values in the order of \<open>lua_next\<close>. What the Lua library decides is
  the argument \<open>vm\<close>: the length of a table (\<open>lua_rawlen\<close>), and which floating point numbers \<open>lua_rawset\<close> takes
  for integers or refuses. Floating point numbers are their 64 bits.
\<close>

unbundle bit_operations_syntax

section \<open>Values\<close>

text \<open>
  \<open>Lua_pairs\<close> is a table with the metamethod \<open>__pairs\<close> and the pairs that the iterator of this gives; \<open>Lua_other\<close>
  is a value of a type that can not be packed.
\<close>

datatype lua_value =
  Lua_nil
| Lua_boolean bool
| Lua_integer u64
| Lua_number u64
| Lua_string bytes
| Lua_lightuserdata u64
| Lua_table "(lua_value \<times> lua_value) list"
| Lua_pairs "(lua_value \<times> lua_value) list"
| Lua_other string

type_synonym lua_entries = "(lua_value \<times> lua_value) list"

record lua_vm =
  vm_rawlen :: "lua_entries \<Rightarrow> nat"
  vm_tointeger :: "u64 \<Rightarrow> u64 option"
  vm_isnan :: "u64 \<Rightarrow> bool"

definition lua_rawgeti :: "lua_entries \<Rightarrow> nat \<Rightarrow> lua_value" where
  "lua_rawgeti es i = (case map_of es (Lua_integer (of_nat i)) of None \<Rightarrow> Lua_nil | Some v \<Rightarrow> v)"

text \<open>
  \<open>lua_rawset\<close>: a key that is a floating point number is an integer key if it has an integral value; a key
  that is a table is new; a value \<open>nil\<close> removes the key.
\<close>

definition set_key :: "lua_entries \<Rightarrow> lua_value \<Rightarrow> lua_value \<Rightarrow> lua_entries" where
  "set_key es k v =
     (if v = Lua_nil then AList.delete k es
      else case k of Lua_table _ \<Rightarrow> es @ [(k, v)] | _ \<Rightarrow> AList.update k v es)"

definition lua_rawset :: "lua_vm \<Rightarrow> lua_entries \<Rightarrow> lua_value \<Rightarrow> lua_value \<Rightarrow> lua_entries lua_result" where
  "lua_rawset vm es k v =
     (case k of
        Lua_number f \<Rightarrow>
          if vm_isnan vm f then Lua_error ''table index is NaN''
          else Val (set_key es (case vm_tointeger vm f of Some i \<Rightarrow> Lua_integer i | None \<Rightarrow> k) v)
      | _ \<Rightarrow> Val (set_key es k v))"

section \<open>Types on the wire\<close>

definition TYPE_NIL :: nat where "TYPE_NIL = 0"
definition TYPE_BOOLEAN :: nat where "TYPE_BOOLEAN = 1"
definition TYPE_NUMBER :: nat where "TYPE_NUMBER = 2"
definition TYPE_NUMBER_ZERO :: int where "TYPE_NUMBER_ZERO = 0"
definition TYPE_NUMBER_BYTE :: int where "TYPE_NUMBER_BYTE = 1"
definition TYPE_NUMBER_WORD :: int where "TYPE_NUMBER_WORD = 2"
definition TYPE_NUMBER_DWORD :: int where "TYPE_NUMBER_DWORD = 4"
definition TYPE_NUMBER_QWORD :: int where "TYPE_NUMBER_QWORD = 6"
definition TYPE_NUMBER_REAL :: int where "TYPE_NUMBER_REAL = 8"
definition TYPE_USERDATA :: nat where "TYPE_USERDATA = 3"
definition TYPE_SHORT_STRING :: nat where "TYPE_SHORT_STRING = 4"
definition TYPE_LONG_STRING :: nat where "TYPE_LONG_STRING = 5"
definition TYPE_TABLE :: nat where "TYPE_TABLE = 6"
definition MAX_COOKIE :: int where "MAX_COOKIE = 32"
definition BLOCK_SIZE :: nat where "BLOCK_SIZE = 128"
definition MAX_DEPTH :: nat where "MAX_DEPTH = 32"

lemmas seri_types = TYPE_NIL_def TYPE_BOOLEAN_def TYPE_NUMBER_def TYPE_USERDATA_def TYPE_SHORT_STRING_def TYPE_LONG_STRING_def
  TYPE_TABLE_def TYPE_NUMBER_ZERO_def TYPE_NUMBER_BYTE_def TYPE_NUMBER_WORD_def TYPE_NUMBER_DWORD_def TYPE_NUMBER_QWORD_def
  TYPE_NUMBER_REAL_def

definition COMBINE_TYPE :: "nat \<Rightarrow> int \<Rightarrow> u8" where
  "COMBINE_TYPE t v = of_nat t OR push_bit 3 (of_int v)"

section \<open>Blocks\<close>

text \<open>The blocks from \<open>head\<close> on, each as far as it is written; \<open>current\<close> is the last.\<close>

record write_block =
  wk_blocks :: "bytes list"
  wk_len :: nat
  wk_ptr :: nat

definition wb_init :: write_block where
  "wb_init = \<lparr>wk_blocks = [[]], wk_len = 0, wk_ptr = 0\<rparr>"

text \<open>\<open>memcpy(b->current->buffer + b->ptr, buffer, sz)\<close>.\<close>

definition wb_copy :: "write_block \<Rightarrow> bytes \<Rightarrow> write_block" where
  "wb_copy b buffer =
     b\<lparr>wk_blocks := butlast (wk_blocks b) @ [take (wk_ptr b) (last (wk_blocks b)) @ buffer],
       wk_ptr := wk_ptr b + length buffer, wk_len := wk_len b + length buffer\<rparr>"

text \<open>\<open>wb_push\<close> from the label \<open>_again\<close> on, and the whole.\<close>

function wb_again :: "write_block \<Rightarrow> bytes \<Rightarrow> write_block" where
  "wb_again b buffer =
     (let b = b\<lparr>wk_blocks := wk_blocks b @ [[]], wk_ptr := 0\<rparr>
      in if length buffer \<le> BLOCK_SIZE then wb_copy b buffer
         else wb_again (wb_copy b (take BLOCK_SIZE buffer)) (drop BLOCK_SIZE buffer))"
  by pat_completeness auto
termination by (relation "measure (\<lambda>(b, buffer). length buffer)") (auto simp: BLOCK_SIZE_def)

declare wb_again.simps [simp del]

definition wb_push :: "write_block \<Rightarrow> bytes \<Rightarrow> write_block" where
  "wb_push b buffer =
     (if wk_ptr b = BLOCK_SIZE then wb_again b buffer
      else if wk_ptr b + length buffer \<le> BLOCK_SIZE then wb_copy b buffer
      else let copy = BLOCK_SIZE - wk_ptr b in wb_again (wb_copy b (take copy buffer)) (drop copy buffer))"

text \<open>\<open>seri\<close>: the bytes of a chain of blocks.\<close>

fun seri :: "bytes list \<Rightarrow> nat \<Rightarrow> bytes lua_result" where
  "seri b len =
     (if len = 0 then Val []
      else case b of
        [] \<Rightarrow> Crash
      | buffer # next \<Rightarrow>
          if len \<ge> BLOCK_SIZE then lua_bind (seri next (len - BLOCK_SIZE)) (\<lambda>rest. Val (take BLOCK_SIZE buffer @ rest))
          else Val (take len buffer))"

declare seri.simps [simp del]

section \<open>Packing\<close>

definition wb_nil :: "write_block \<Rightarrow> write_block" where
  "wb_nil wb = wb_push wb [of_nat TYPE_NIL]"

definition wb_boolean :: "write_block \<Rightarrow> bool \<Rightarrow> write_block" where
  "wb_boolean wb boolean = wb_push wb [COMBINE_TYPE TYPE_BOOLEAN (if boolean then 1 else 0)]"

definition wb_integer :: "write_block \<Rightarrow> u64 \<Rightarrow> write_block" where
  "wb_integer wb w =
     (let v = sint w
      in if v = 0 then wb_push wb [COMBINE_TYPE TYPE_NUMBER TYPE_NUMBER_ZERO]
         else if v \<noteq> sint (ucast w :: u32)
         then wb_push (wb_push wb [COMBINE_TYPE TYPE_NUMBER TYPE_NUMBER_QWORD]) (le_bytes 8 (unat w))
         else if v < 0
         then wb_push (wb_push wb [COMBINE_TYPE TYPE_NUMBER TYPE_NUMBER_DWORD]) (le_bytes 4 (unat (ucast w :: u32)))
         else if v < 0x100
         then wb_push (wb_push wb [COMBINE_TYPE TYPE_NUMBER TYPE_NUMBER_BYTE]) [ucast w]
         else if v < 0x10000
         then wb_push (wb_push wb [COMBINE_TYPE TYPE_NUMBER TYPE_NUMBER_WORD]) (le_bytes 2 (unat (ucast w :: u16)))
         else wb_push (wb_push wb [COMBINE_TYPE TYPE_NUMBER TYPE_NUMBER_DWORD]) (le_bytes 4 (unat (ucast w :: u32))))"

definition wb_real :: "write_block \<Rightarrow> u64 \<Rightarrow> write_block" where
  "wb_real wb v = wb_push (wb_push wb [COMBINE_TYPE TYPE_NUMBER TYPE_NUMBER_REAL]) (le_bytes 8 (unat v))"

definition wb_pointer :: "write_block \<Rightarrow> u64 \<Rightarrow> write_block" where
  "wb_pointer wb v = wb_push (wb_push wb [of_nat TYPE_USERDATA]) (le_bytes 8 (unat v))"

text \<open>The length of a string is converted to \<open>int\<close>.\<close>

definition wb_string :: "write_block \<Rightarrow> bytes \<Rightarrow> write_block" where
  "wb_string wb str =
     (let len = to_int32 (int (length str)); str = take (nat len) str
      in if len < MAX_COOKIE
         then (let wb = wb_push wb [COMBINE_TYPE TYPE_SHORT_STRING len] in if len > 0 then wb_push wb str else wb)
         else if len < 0x10000
         then wb_push (wb_push (wb_push wb [COMBINE_TYPE TYPE_LONG_STRING 2]) (le_bytes 2 (nat len))) str
         else wb_push (wb_push (wb_push wb [COMBINE_TYPE TYPE_LONG_STRING 4]) (le_bytes 4 (nat len))) str)"

text \<open>\<open>pack_one\<close> on each value of a list; \<open>pack\<close> is \<open>pack_one\<close> at its depth.\<close>

type_synonym packer = "lua_value \<Rightarrow> write_block \<Rightarrow> write_block lua_result"

fun pack_each :: "packer \<Rightarrow> lua_value list \<Rightarrow> write_block \<Rightarrow> write_block lua_result" where
  "pack_each pack [] wb = Val wb"
| "pack_each pack (v # vs) wb = lua_bind (pack v wb) (pack_each pack vs)"

definition wb_table_array :: "lua_vm \<Rightarrow> packer \<Rightarrow> lua_entries \<Rightarrow> write_block \<Rightarrow> write_block lua_result" where
  "wb_table_array vm pack es wb =
     (let array_size = to_int32 (int (vm_rawlen vm es));
          wb = (if array_size \<ge> MAX_COOKIE - 1
                then wb_integer (wb_push wb [COMBINE_TYPE TYPE_TABLE (MAX_COOKIE - 1)]) (of_int array_size)
                else wb_push wb [COMBINE_TYPE TYPE_TABLE array_size])
      in pack_each pack (map (lua_rawgeti es) [1..<Suc (nat array_size)]) wb)"

text \<open>The keys that are in the array part.\<close>

definition in_array :: "int \<Rightarrow> lua_value \<Rightarrow> bool" where
  "in_array array_size k = (case k of Lua_integer x \<Rightarrow> sint x > 0 \<and> sint x \<le> array_size | _ \<Rightarrow> False)"

definition wb_table_hash :: "lua_vm \<Rightarrow> packer \<Rightarrow> lua_entries \<Rightarrow> write_block \<Rightarrow> write_block lua_result" where
  "wb_table_hash vm pack es wb =
     (let array_size = to_int32 (int (vm_rawlen vm es))
      in lua_bind (pack_each pack (concat (map (\<lambda>(k, v). if in_array array_size k then [] else [k, v]) es)) wb) (\<lambda>wb. Val (wb_nil wb)))"

definition wb_table_metapairs :: "packer \<Rightarrow> lua_entries \<Rightarrow> write_block \<Rightarrow> write_block lua_result" where
  "wb_table_metapairs pack ps wb =
     lua_bind (pack_each pack (concat (map (\<lambda>(k, v). [k, v]) ps)) (wb_push wb [COMBINE_TYPE TYPE_TABLE 0])) (\<lambda>wb. Val (wb_nil wb))"

definition wb_table :: "lua_vm \<Rightarrow> packer \<Rightarrow> lua_entries \<Rightarrow> write_block \<Rightarrow> write_block lua_result" where
  "wb_table vm pack es wb = lua_bind (wb_table_array vm pack es wb) (wb_table_hash vm pack es)"

function pack_one :: "lua_vm \<Rightarrow> nat \<Rightarrow> lua_value \<Rightarrow> write_block \<Rightarrow> write_block lua_result" where
  "pack_one vm depth v b =
     (if depth > MAX_DEPTH then Lua_error ''serialize can't pack too depth table''
      else case v of
        Lua_nil \<Rightarrow> Val (wb_nil b)
      | Lua_integer x \<Rightarrow> Val (wb_integer b x)
      | Lua_number n \<Rightarrow> Val (wb_real b n)
      | Lua_boolean x \<Rightarrow> Val (wb_boolean b x)
      | Lua_string str \<Rightarrow> Val (wb_string b str)
      | Lua_lightuserdata p \<Rightarrow> Val (wb_pointer b p)
      | Lua_table es \<Rightarrow> wb_table vm (\<lambda>v b. pack_one vm (depth + 1) v b) es b
      | Lua_pairs ps \<Rightarrow> wb_table_metapairs (\<lambda>v b. pack_one vm (depth + 1) v b) ps b
      | Lua_other type \<Rightarrow> Lua_error (''Unsupport type '' @ type @ '' to serialize''))"
  by pat_completeness auto
termination by (relation "measure (\<lambda>(vm, depth, v, b). Suc MAX_DEPTH - depth)") auto

declare pack_one.simps [simp del]

definition luaseri_pack :: "lua_vm \<Rightarrow> lua_value list \<Rightarrow> bytes lua_result" where
  "luaseri_pack vm vs = lua_bind (pack_each (pack_one vm 0) vs wb_init) (\<lambda>wb. seri (wk_blocks wb) (wk_len wb))"

section \<open>Unpacking\<close>

text \<open>
  A read block is the bytes from \<open>ptr\<close> on, \<open>len\<close> many. \<open>rb_read\<close> of a negative size succeeds; what is
  then read is not in the buffer.
\<close>

definition rb_read :: "bytes \<Rightarrow> nat \<Rightarrow> (bytes \<times> bytes) option" where
  "rb_read rb sz = (if length rb < sz then None else Some (take sz rb, drop sz rb))"

definition invalid_stream_line :: "bytes \<Rightarrow> int \<Rightarrow> 'a lua_result" where
  "invalid_stream_line rb line = Lua_error (''Invalid serialize stream '' @ fmt_d (int (length rb)) @ '' (line:'' @ fmt_d line @ '')'')"

definition read_line :: "bytes \<Rightarrow> nat \<Rightarrow> int \<Rightarrow> (bytes \<times> bytes) lua_result" where
  "read_line rb sz line = (case rb_read rb sz of None \<Rightarrow> invalid_stream_line rb line | Some r \<Rightarrow> Val r)"

definition get_integer :: "bytes \<Rightarrow> int \<Rightarrow> (u64 \<times> bytes) lua_result" where
  "get_integer rb cookie =
     (if cookie = TYPE_NUMBER_ZERO then Val (0, rb)
      else if cookie = TYPE_NUMBER_BYTE then lua_bind (read_line rb 1 366) (\<lambda>(n, rb). Val (of_nat (le_nat n), rb))
      else if cookie = TYPE_NUMBER_WORD then lua_bind (read_line rb 2 374) (\<lambda>(n, rb). Val (of_nat (le_nat n), rb))
      else if cookie = TYPE_NUMBER_DWORD then lua_bind (read_line rb 4 382) (\<lambda>(n, rb). Val (scast (of_nat (le_nat n) :: u32), rb))
      else if cookie = TYPE_NUMBER_QWORD then lua_bind (read_line rb 8 390) (\<lambda>(n, rb). Val (of_nat (le_nat n), rb))
      else invalid_stream_line rb 395)"

definition get_real :: "bytes \<Rightarrow> (u64 \<times> bytes) lua_result" where
  "get_real rb = lua_bind (read_line rb 8 405) (\<lambda>(n, rb). Val (of_nat (le_nat n), rb))"

definition get_pointer :: "bytes \<Rightarrow> (u64 \<times> bytes) lua_result" where
  "get_pointer rb = lua_bind (read_line rb 8 415) (\<lambda>(n, rb). Val (of_nat (le_nat n), rb))"

text \<open>
  \<open>lua_pushlstring\<close> gets the length as a \<open>size_t\<close>. The Lua library refuses one that a negative \<open>len\<close> gives, but not
  \<open>-1\<close>: there the length and the final zero add up to 0, and \<open>createstrobj\<close> copies \<open>SIZE_MAX\<close> bytes
  (\<open>3rd/lua/lstring.c\<close>).
\<close>

definition get_buffer :: "bytes \<Rightarrow> int \<Rightarrow> (bytes \<times> bytes) lua_result" where
  "get_buffer rb len =
     (if len = -1 then Crash
      else if len < 0 then Lua_error ''memory allocation error: block too big''
      else read_line rb (nat len) 425)"

type_synonym unpacker = "bytes \<Rightarrow> (lua_value \<times> bytes) lua_result"

text \<open>The elements of the array, in order, and the keys and values up to the first key \<open>nil\<close>.\<close>

fun unpack_array :: "unpacker \<Rightarrow> nat \<Rightarrow> nat \<Rightarrow> lua_entries \<Rightarrow> bytes \<Rightarrow> (lua_entries \<times> bytes) lua_result" where
  "unpack_array unpack i 0 es rb = Val (es, rb)"
| "unpack_array unpack i (Suc n) es rb =
     lua_bind (unpack rb) (\<lambda>(v, rb). unpack_array unpack (i + 1) n (set_key es (Lua_integer (of_nat i)) v) rb)"

fun unpack_hash :: "lua_vm \<Rightarrow> unpacker \<Rightarrow> nat \<Rightarrow> lua_entries \<Rightarrow> bytes \<Rightarrow> (lua_entries \<times> bytes) lua_result" where
  "unpack_hash vm unpack 0 es rb = Out_of_fuel"
| "unpack_hash vm unpack (Suc n) es rb =
     lua_bind (unpack rb) (\<lambda>(k, rb).
       if k = Lua_nil then Val (es, rb)
       else lua_bind (unpack rb) (\<lambda>(v, rb). lua_bind (lua_rawset vm es k v) (\<lambda>es. unpack_hash vm unpack n es rb)))"

text \<open>The size of the array: an \<open>int\<close>; a negative one is taken as 0 by the loop.\<close>

definition table_size :: "bytes \<Rightarrow> int \<Rightarrow> (int \<times> bytes) lua_result" where
  "table_size rb array_size =
     (if array_size = MAX_COOKIE - 1
      then lua_bind (read_line rb 1 438) (\<lambda>(t, rb).
        let type = unat (hd t); cookie = int (type div 8)
        in if type mod 8 \<noteq> TYPE_NUMBER \<or> cookie = TYPE_NUMBER_REAL then invalid_stream_line rb 443
           else lua_bind (get_integer rb cookie) (\<lambda>(n, rb). Val (sint (ucast n :: u32), rb)))
      else Val (array_size, rb))"

definition unpack_table :: "lua_vm \<Rightarrow> unpacker \<Rightarrow> nat \<Rightarrow> bytes \<Rightarrow> int \<Rightarrow> (lua_value \<times> bytes) lua_result" where
  "unpack_table vm unpack fuel rb array_size =
     lua_bind (table_size rb array_size) (\<lambda>(array_size, rb).
       lua_bind (unpack_array unpack 1 (nat array_size) [] rb) (\<lambda>(es, rb).
         lua_bind (unpack_hash vm unpack fuel es rb) (\<lambda>(es, rb). Val (Lua_table es, rb))))"

definition push_value :: "lua_vm \<Rightarrow> unpacker \<Rightarrow> nat \<Rightarrow> bytes \<Rightarrow> nat \<Rightarrow> int \<Rightarrow> (lua_value \<times> bytes) lua_result" where
  "push_value vm unpack fuel rb type cookie =
     (if type = TYPE_NIL then Val (Lua_nil, rb)
      else if type = TYPE_BOOLEAN then Val (Lua_boolean (cookie \<noteq> 0), rb)
      else if type = TYPE_NUMBER then
        (if cookie = TYPE_NUMBER_REAL then lua_bind (get_real rb) (\<lambda>(n, rb). Val (Lua_number n, rb))
         else lua_bind (get_integer rb cookie) (\<lambda>(n, rb). Val (Lua_integer n, rb)))
      else if type = TYPE_USERDATA then lua_bind (get_pointer rb) (\<lambda>(p, rb). Val (Lua_lightuserdata p, rb))
      else if type = TYPE_SHORT_STRING then lua_bind (get_buffer rb cookie) (\<lambda>(s, rb). Val (Lua_string s, rb))
      else if type = TYPE_LONG_STRING then
        (if cookie = 2
         then lua_bind (read_line rb 2 491) (\<lambda>(n, rb). lua_bind (get_buffer rb (int (le_nat n))) (\<lambda>(s, rb). Val (Lua_string s, rb)))
         else if cookie \<noteq> 4 then invalid_stream_line rb 498
         else lua_bind (read_line rb 4 502) (\<lambda>(n, rb). lua_bind (get_buffer rb (to_int32 (int (le_nat n)))) (\<lambda>(s, rb). Val (Lua_string s, rb))))
      else if type = TYPE_TABLE then unpack_table vm unpack fuel rb cookie
      else invalid_stream_line rb 515)"

text \<open>\<open>unpack_one\<close>; the fuel bounds the depth and the loops, \<open>length rb + 1\<close> is enough (theory \<open>LuaSeriProps\<close>).\<close>

primrec unpack_one :: "lua_vm \<Rightarrow> nat \<Rightarrow> bytes \<Rightarrow> (lua_value \<times> bytes) lua_result" where
  "unpack_one vm 0 = (\<lambda>rb. Out_of_fuel)"
| "unpack_one vm (Suc n) = (\<lambda>rb.
     lua_bind (read_line rb 1 526) (\<lambda>(t, rb). push_value vm (unpack_one vm n) n rb (unat (hd t) mod 8) (int (unat (hd t) div 8))))"

text \<open>The loop of \<open>luaseri_unpack\<close>: it ends when no byte is left.\<close>

fun unpack_values :: "lua_vm \<Rightarrow> nat \<Rightarrow> bytes \<Rightarrow> lua_value list lua_result" where
  "unpack_values vm 0 rb = Out_of_fuel"
| "unpack_values vm (Suc n) rb =
     (case rb_read rb 1 of
        None \<Rightarrow> Val []
      | Some (t, rb) \<Rightarrow>
          lua_bind (push_value vm (unpack_one vm n) n rb (unat (hd t) mod 8) (int (unat (hd t) div 8))) (\<lambda>(v, rb).
            lua_bind (unpack_values vm n rb) (\<lambda>vs. Val (v # vs))))"

text \<open>The argument: none or \<open>nil\<close>, a string, or a pointer (\<open>None\<close>: \<open>NULL\<close>) and a length.\<close>

datatype unpack_arg = Arg_none | Arg_string bytes | Arg_pointer "bytes option" int

definition luaseri_unpack :: "lua_vm \<Rightarrow> unpack_arg \<Rightarrow> lua_value list lua_result" where
  "luaseri_unpack vm arg =
     (case arg of
        Arg_none \<Rightarrow> Val []
      | Arg_string bs \<Rightarrow> unpack_values vm (length bs + 1) bs
      | Arg_pointer buffer len \<Rightarrow>
          if len = 0 then Val []
          else case buffer of
            None \<Rightarrow> Lua_error ''deserialize null pointer''
          | Some bs \<Rightarrow> if int (length bs) < len then Crash else unpack_values vm (nat len + 1) (take (nat len) bs))"

end
