(* ===== verification/LuaSeriProps.thy ===== *)
theory LuaSeriProps
  imports LuaSeri
begin

text \<open>
  The round trip of \<open>lualib-src/lua-seri.c\<close>: what \<open>pack\<close> wrote, \<open>unpack\<close> reads back, with tables that have
  the same keys and copies of the values; and \<open>unpack\<close> ends on all bytes.
\<close>

unbundle bit_operations_syntax

section \<open>Blocks\<close>

definition wk_contents :: "write_block \<Rightarrow> bytes" where
  "wk_contents b = concat (wk_blocks b)"

text \<open>All blocks but the last are full.\<close>

definition wk_wf :: "write_block \<Rightarrow> bool" where
  "wk_wf b \<longleftrightarrow> (\<exists>full cur. wk_blocks b = full @ [cur] \<and> list_all (\<lambda>x. length x = BLOCK_SIZE) full \<and>
     wk_ptr b = length cur \<and> length cur \<le> BLOCK_SIZE \<and> wk_len b = length (wk_contents b))"

lemma init_wf: "wk_wf wb_init \<and> wk_contents wb_init = []"
  by (simp add: wk_wf_def wb_init_def wk_contents_def)

lemma copy_wf:
  assumes "wk_wf b" "wk_ptr b + length buffer \<le> BLOCK_SIZE"
  shows "wk_wf (wb_copy b buffer) \<and> wk_contents (wb_copy b buffer) = wk_contents b @ buffer \<and>
    wk_ptr (wb_copy b buffer) = wk_ptr b + length buffer"
proof -
  obtain full cur where b: "wk_blocks b = full @ [cur]" "list_all (\<lambda>x. length x = BLOCK_SIZE) full" "wk_ptr b = length cur"
    "wk_len b = length (wk_contents b)" using assms(1) by (auto simp: wk_wf_def)
  have "wk_blocks (wb_copy b buffer) = full @ [cur @ buffer]" using b by (simp add: wb_copy_def)
  then show ?thesis using b assms(2) by (auto simp: wk_wf_def wk_contents_def wb_copy_def)
qed

lemma next_block_wf:
  assumes "wk_wf b" "wk_ptr b = BLOCK_SIZE"
  shows "wk_wf (b\<lparr>wk_blocks := wk_blocks b @ [[]], wk_ptr := 0\<rparr>) \<and>
    wk_contents (b\<lparr>wk_blocks := wk_blocks b @ [[]], wk_ptr := 0\<rparr>) = wk_contents b"
  using assms by (auto simp: wk_wf_def wk_contents_def)

lemma again_wf: "wk_wf b \<Longrightarrow> wk_ptr b = BLOCK_SIZE \<Longrightarrow>
    wk_wf (wb_again b buffer) \<and> wk_contents (wb_again b buffer) = wk_contents b @ buffer"
proof (induction b buffer rule: wb_again.induct)
  case (1 b buffer)
  let ?b = "b\<lparr>wk_blocks := wk_blocks b @ [[]], wk_ptr := 0\<rparr>"
  have b: "wk_wf ?b" "wk_contents ?b = wk_contents b" "wk_ptr ?b = 0" using next_block_wf [OF 1(2,3)] by simp_all
  show ?case
  proof (cases "length buffer \<le> BLOCK_SIZE")
    case True
    then show ?thesis using copy_wf [of ?b buffer] b by (simp add: wb_again.simps [of b])
  next
    case False
    have c: "wk_wf (wb_copy ?b (take BLOCK_SIZE buffer)) \<and>
        wk_contents (wb_copy ?b (take BLOCK_SIZE buffer)) = wk_contents b @ take BLOCK_SIZE buffer \<and>
        wk_ptr (wb_copy ?b (take BLOCK_SIZE buffer)) = BLOCK_SIZE"
      using copy_wf [of ?b "take BLOCK_SIZE buffer"] b False by (simp add: min_def)
    then show ?thesis using 1(1) [OF refl False] False by (simp add: wb_again.simps [of b] Let_def)
  qed
qed

lemma push_wf: "wk_wf b \<Longrightarrow> wk_wf (wb_push b buffer) \<and> wk_contents (wb_push b buffer) = wk_contents b @ buffer"
proof -
  assume b: "wk_wf b"
  then have le: "wk_ptr b \<le> BLOCK_SIZE" by (auto simp: wk_wf_def)
  consider "wk_ptr b = BLOCK_SIZE" | "wk_ptr b \<noteq> BLOCK_SIZE" "wk_ptr b + length buffer \<le> BLOCK_SIZE"
    | "wk_ptr b \<noteq> BLOCK_SIZE" "\<not> wk_ptr b + length buffer \<le> BLOCK_SIZE" by blast
  then show ?thesis
  proof cases
    case 3
    let ?c = "wb_copy b (take (BLOCK_SIZE - wk_ptr b) buffer)"
    have "wk_wf ?c \<and> wk_contents ?c = wk_contents b @ take (BLOCK_SIZE - wk_ptr b) buffer \<and> wk_ptr ?c = BLOCK_SIZE"
      using copy_wf [OF b, of "take (BLOCK_SIZE - wk_ptr b) buffer"] 3 le by (simp add: min_def)
    then show ?thesis using 3 again_wf [of ?c "drop (BLOCK_SIZE - wk_ptr b) buffer"] by (simp add: wb_push_def Let_def)
  qed (simp_all add: wb_push_def again_wf copy_wf b)
qed

lemma push_simps [simp]: "wk_wf b \<Longrightarrow> wk_wf (wb_push b x)" "wk_wf b \<Longrightarrow> wk_contents (wb_push b x) = wk_contents b @ x"
  using push_wf by blast+

lemma seri_blocks:
  "list_all (\<lambda>x. length x = BLOCK_SIZE) full \<Longrightarrow> length cur \<le> BLOCK_SIZE \<Longrightarrow>
     seri (full @ [cur]) (length (concat full) + length cur) = Val (concat full @ cur)"
proof (induction full)
  case Nil
  have "seri [] 0 = Val []" by (simp add: seri.simps)
  then show ?case using Nil by (auto simp: seri.simps [of "[cur]"])
next
  case (Cons x full)
  then have "length (concat (x # full)) + length cur - BLOCK_SIZE = length (concat full) + length cur" "0 < BLOCK_SIZE"
    by (simp_all add: BLOCK_SIZE_def)
  then show ?case using Cons by (subst seri.simps) simp
qed

lemma seri_contents: "wk_wf b \<Longrightarrow> seri (wk_blocks b) (wk_len b) = Val (wk_contents b)"
  using seri_blocks by (auto simp: wk_wf_def wk_contents_def)

section \<open>Numbers\<close>

lemma combine_type:
  assumes "t < 8" "0 \<le> v" "v < 32"
  shows "unat (COMBINE_TYPE t v) mod 8 = t" "int (unat (COMBINE_TYPE t v) div 8) = v"
proof -
  obtain m where m: "v = int m" "m < 32" using assms by (metis nonneg_int_cases of_nat_less_iff of_nat_numeral)
  have t: "take_bit 3 t = t" using assms(1) by (simp add: take_bit_nat_eq_self)
  have "(of_nat t :: u8) = take_bit 3 (of_nat t)" by (simp add: take_bit_of_nat t)
  moreover have "take_bit 3 (of_nat t :: u8) AND push_bit 3 (of_nat m) = 0" by (auto simp: bit_eq_iff bit_simps)
  ultimately have "(of_nat t :: u8) AND push_bit 3 (of_nat m) = 0" by simp
  then have "COMBINE_TYPE t v = of_nat t + push_bit 3 (of_nat m)"
    unfolding COMBINE_TYPE_def m by (simp add: disjunctive_add_eq_or)
  also have "\<dots> = of_nat (t + 8 * m)" by (simp add: push_bit_eq_mult)
  finally have "unat (COMBINE_TYPE t v) = t + 8 * m" using assms m(2) by (simp only: unat_of_nat) simp
  then show "unat (COMBINE_TYPE t v) mod 8 = t" "int (unat (COMBINE_TYPE t v) div 8) = v" using assms m by simp_all
qed

lemma read_line_append: "length x = n \<Longrightarrow> read_line (x @ y) n l = Val (x, y)"
  by (simp add: read_line_def rb_read_def)

text \<open>The bytes of an integer.\<close>

definition int_bytes :: "u64 \<Rightarrow> bytes" where
  "int_bytes w = wk_contents (wb_integer wb_init w)"

lemma integer_push: "wk_wf b \<Longrightarrow> wk_wf (wb_integer b w) \<and> wk_contents (wb_integer b w) = wk_contents b @ int_bytes w"
  using init_wf by (simp add: wb_integer_def int_bytes_def Let_def)

lemma scast_back:
  assumes "sint (w::u64) = sint (ucast w :: u32)"
  shows "scast (ucast w :: u32) = w"
proof -
  have "scast (ucast w :: u32) = (of_int (sint (ucast w :: u32)) :: u64)" by (rule scast_eq)
  also have "\<dots> = of_int (sint w)" by (simp only: assms)
  also have "\<dots> = w" by simp
  finally show ?thesis .
qed

lemma nonneg_uint:
  assumes "0 \<le> sint (w::u64)"
  shows "uint w = sint w"
proof -
  have "sint w < 2 ^ 64" using sint_lt [of w] by simp
  then show ?thesis using assms uint_sint [of w] by (simp add: take_bit_int_eq_self)
qed

lemma nonneg_small:
  assumes "0 \<le> sint (w::u64)" "sint w < 2 ^ k"
  shows "unat w < 2 ^ k"
proof -
  have "int (unat w) < 2 ^ k" using nonneg_uint [OF assms(1)] assms(2) by simp
  then show ?thesis by (metis of_nat_less_iff of_nat_numeral of_nat_power)
qed

text \<open>What \<open>get_integer\<close> reads after the byte of the type.\<close>

definition read_back :: "u64 \<Rightarrow> bytes \<Rightarrow> bool" where
  "read_back w bs \<longleftrightarrow> (\<exists>t rest. bs = t # rest \<and> unat t mod 8 = TYPE_NUMBER \<and> int (unat t div 8) \<noteq> TYPE_NUMBER_REAL \<and>
    (\<forall>others. get_integer (rest @ others) (int (unat t div 8)) = Val (w, others)))"

lemma read_backI:
  assumes "0 \<le> c" "c < 32" "c \<noteq> 8" "\<And>others. get_integer (rest @ others) c = Val (w, others)"
  shows "read_back w (COMBINE_TYPE TYPE_NUMBER c # rest)"
proof -
  have "unat (COMBINE_TYPE TYPE_NUMBER c) mod 8 = TYPE_NUMBER" "int (unat (COMBINE_TYPE TYPE_NUMBER c) div 8) = c"
    using combine_type [of TYPE_NUMBER c] assms(1,2) by (simp_all add: TYPE_NUMBER_def)
  then show ?thesis using assms(3,4) unfolding read_back_def by (auto simp: TYPE_NUMBER_REAL_def)
qed

lemma int_bytes_cases:
  "int_bytes w =
     (if w = 0 then [COMBINE_TYPE TYPE_NUMBER 0]
      else if sint w \<noteq> sint (ucast w :: u32) then COMBINE_TYPE TYPE_NUMBER 6 # le_bytes 8 (unat w)
      else if sint w < 0 then COMBINE_TYPE TYPE_NUMBER 4 # le_bytes 4 (unat (ucast w :: u32))
      else if sint w < 0x100 then [COMBINE_TYPE TYPE_NUMBER 1, ucast w]
      else if sint w < 0x10000 then COMBINE_TYPE TYPE_NUMBER 2 # le_bytes 2 (unat (ucast w :: u16))
      else COMBINE_TYPE TYPE_NUMBER 4 # le_bytes 4 (unat (ucast w :: u32)))"
proof -
  have "w = 0" if "sint w = 0" using uint_sint [of w] that by (simp add: uint_0_iff)
  then have z: "sint w = 0 \<longleftrightarrow> w = 0" by (auto simp: sint_0)
  have w: "wk_wf wb_init" "wk_contents wb_init = []" using init_wf by simp_all
  show ?thesis unfolding int_bytes_def wb_integer_def Let_def if_distrib [of wk_contents]
    by (simp only: push_simps w z TYPE_NUMBER_ZERO_def TYPE_NUMBER_BYTE_def TYPE_NUMBER_WORD_def
        TYPE_NUMBER_DWORD_def TYPE_NUMBER_QWORD_def append_Nil append_Cons)
qed

lemma get_dword: "get_integer (le_bytes 4 (unat (ucast (w::u64) :: u32)) @ others) 4 = Val (scast (ucast w :: u32), others)"
proof -
  have "(of_nat (le_nat (le_bytes 4 (unat (ucast w :: u32)))) :: u32) = ucast w"
    using unsigned_less [of "ucast w :: u32", where ?'a = nat] by (simp add: le_nat_bytes)
  then show ?thesis
    unfolding get_integer_def by (simp add: read_line_append seri_types del: unsigned_ucast_eq)
qed

lemma int_bytes_read: "read_back w (int_bytes w)"
proof -
  consider "w = 0" | "w \<noteq> 0" "sint w \<noteq> sint (ucast w :: u32)"
    | "w \<noteq> 0" "sint w = sint (ucast w :: u32)" "sint w < 0 \<or> \<not> sint w < 0x10000"
    | "w \<noteq> 0" "sint w = sint (ucast w :: u32)" "0 \<le> sint w" "sint w < 0x100"
    | "w \<noteq> 0" "sint w = sint (ucast w :: u32)" "\<not> sint w < 0" "\<not> sint w < 0x100" "sint w < 0x10000" by linarith
  then show ?thesis
  proof cases
    case 1
    have "get_integer ([] @ others) 0 = Val (0, others)" for others by (simp add: get_integer_def seri_types)
    then show ?thesis unfolding int_bytes_cases using 1 by (auto intro!: read_backI)
  next
    case 2
    have "get_integer (le_bytes 8 (unat w) @ others) 6 = Val (w, others)" for others
      using unsigned_less [of w, where ?'a = nat] by (simp add: get_integer_def read_line_append seri_types le_nat_bytes)
    then show ?thesis unfolding int_bytes_cases using 2 by (auto intro!: read_backI)
  next
    case 3
    then have i: "int_bytes w = COMBINE_TYPE TYPE_NUMBER 4 # le_bytes 4 (unat (ucast w :: u32))"
      unfolding int_bytes_cases by auto
    show ?thesis unfolding i by (rule read_backI) (simp, simp, simp, simp only: get_dword scast_back [OF 3(2)])
  next
    case 4
    have "unat w < 2 ^ 8" using nonneg_small [of w 8] 4 by simp
    then have "take_bit 8 w = w" by (simp add: word_unat_eq_iff unsigned_take_bit_eq take_bit_nat_eq_self)
    then have "ucast (ucast w :: u8) = w" by (simp add: unsigned_ucast_eq)
    then have "get_integer ([ucast w] @ others) 1 = Val (w, others)" for others
      by (simp add: get_integer_def read_line_def rb_read_def seri_types le_nat_def be_nat_def)
    then show ?thesis unfolding int_bytes_cases using 4 by (auto intro!: read_backI)
  next
    case 5
    have l: "unat w < 2 ^ 16" using nonneg_small [of w 16] 5 by simp
    then have "unat (ucast w :: u16) = unat w" by (simp add: unsigned_ucast_eq take_bit_nat_eq_self)
    then have "get_integer (le_bytes 2 (unat (ucast w :: u16)) @ others) 2 = Val (w, others)" for others
      using l by (simp add: get_integer_def read_line_append seri_types le_nat_bytes)
    then show ?thesis unfolding int_bytes_cases using 5 by (auto intro!: read_backI)
  qed
qed

section \<open>Reading back\<close>

text \<open>A byte string from which \<open>unpack_one\<close> reads \<open>w\<close> and nothing more.\<close>

definition reads :: "lua_vm \<Rightarrow> bytes \<Rightarrow> lua_value \<Rightarrow> bool" where
  "reads vm bs w \<longleftrightarrow> (\<forall>n rest. length bs + length rest < n \<longrightarrow> unpack_one vm n (bs @ rest) = Val (w, rest))"

lemma readsD: "reads vm bs w \<Longrightarrow> length (bs @ rest) < n \<Longrightarrow> unpack_one vm n (bs @ rest) = Val (w, rest)"
  by (simp add: reads_def)

lemma reads_combine:
  assumes "t < 8" "0 \<le> c" "c < 32"
    and "\<And>n rest. length body + length rest < n \<Longrightarrow> push_value vm (unpack_one vm n) n (body @ rest) t c = Val (w, rest)"
  shows "reads vm (COMBINE_TYPE t c # body) w"
  unfolding reads_def
proof (intro allI impI)
  fix n and rest :: bytes
  assume n: "length (COMBINE_TYPE t c # body) + length rest < n"
  then obtain m where m: "n = Suc m" "length body + length rest < m" by (cases n) auto
  have "unpack_one vm n ((COMBINE_TYPE t c # body) @ rest) = push_value vm (unpack_one vm m) m (body @ rest) t c"
    using combine_type [OF assms(1-3)] by (simp add: m(1) read_line_def rb_read_def)
  then show "unpack_one vm n ((COMBINE_TYPE t c # body) @ rest) = Val (w, rest)" using assms(4) [OF m(2)] by simp
qed

lemma plain_type: "of_nat t = COMBINE_TYPE t 0"
  by (simp add: COMBINE_TYPE_def)

lemma reads_nil: "reads vm [of_nat TYPE_NIL] Lua_nil"
  unfolding plain_type by (rule reads_combine) (simp_all add: push_value_def seri_types)

lemma reads_boolean: "reads vm [COMBINE_TYPE TYPE_BOOLEAN (if x then 1 else 0)] (Lua_boolean x)"
  by (rule reads_combine) (simp_all add: push_value_def seri_types)

lemma le_nat_bytes_64: "(of_nat (le_nat (le_bytes 8 (unat w))) :: u64) = w"
  using unsigned_less [of w, where ?'a = nat] by (simp add: le_nat_bytes)

lemma reads_real: "reads vm (COMBINE_TYPE TYPE_NUMBER TYPE_NUMBER_REAL # le_bytes 8 (unat x)) (Lua_number x)"
  by (rule reads_combine) (simp_all add: push_value_def seri_types get_real_def read_line_append le_nat_bytes_64)

lemma reads_pointer: "reads vm (of_nat TYPE_USERDATA # le_bytes 8 (unat x)) (Lua_lightuserdata x)"
  unfolding plain_type
  by (rule reads_combine) (simp_all add: push_value_def seri_types get_pointer_def read_line_append le_nat_bytes_64)

lemma type_byte: "COMBINE_TYPE (unat t mod 8) (int (unat t div 8)) = t"
proof -
  have "unat t mod 8 < 8" "int (unat t div 8) < 32" using byte_less [of t] by simp_all
  then have "unat (COMBINE_TYPE (unat t mod 8) (int (unat t div 8))) mod 8 = unat t mod 8"
    "int (unat (COMBINE_TYPE (unat t mod 8) (int (unat t div 8))) div 8) = int (unat t div 8)"
    using combine_type by simp_all
  then have "unat (COMBINE_TYPE (unat t mod 8) (int (unat t div 8))) = unat t"
    by (metis div_mult_mod_eq of_nat_eq_iff)
  then show ?thesis by (simp add: word_unat_eq_iff)
qed

lemma reads_integer: "reads vm (int_bytes w) (Lua_integer w)"
proof -
  obtain t rest where t: "int_bytes w = t # rest" "unat t mod 8 = TYPE_NUMBER" "int (unat t div 8) \<noteq> TYPE_NUMBER_REAL"
    "\<And>others. get_integer (rest @ others) (int (unat t div 8)) = Val (w, others)"
    using int_bytes_read [of w] unfolding read_back_def by blast
  have "reads vm (COMBINE_TYPE TYPE_NUMBER (int (unat t div 8)) # rest) (Lua_integer w)"
    by (rule reads_combine)
      (use t(3) byte_less [of t] in \<open>simp_all add: push_value_def TYPE_NUMBER_def TYPE_NIL_def TYPE_BOOLEAN_def t(4)\<close>)
  then show ?thesis using type_byte [of t] t(1,2) by simp
qed

text \<open>Strings.\<close>

definition string_bytes :: "bytes \<Rightarrow> bytes" where
  "string_bytes s =
     (if length s < 32 then COMBINE_TYPE TYPE_SHORT_STRING (int (length s)) # s
      else if length s < 0x10000 then COMBINE_TYPE TYPE_LONG_STRING 2 # le_bytes 2 (length s) @ s
      else COMBINE_TYPE TYPE_LONG_STRING 4 # le_bytes 4 (length s) @ s)"

lemma string_push:
  assumes "wk_wf b" "length s < 2 ^ 31"
  shows "wk_wf (wb_string b s)" "wk_contents (wb_string b s) = wk_contents b @ string_bytes s"
proof -
  have l: "to_int32 (int (length s)) = int (length s)" using assms(2) by (simp add: to_int32_small)
  show "wk_wf (wb_string b s)" "wk_contents (wb_string b s) = wk_contents b @ string_bytes s"
    using assms(1) by (simp_all add: wb_string_def string_bytes_def Let_def l MAX_COOKIE_def)
qed

lemma reads_string:
  assumes "length s < 2 ^ 31"
  shows "reads vm (string_bytes s) (Lua_string s)"
proof -
  consider "length s < 32" | "\<not> length s < 32" "length s < 0x10000" | "\<not> length s < 0x10000" by linarith
  then show ?thesis
  proof cases
    case 1
    then have "reads vm (COMBINE_TYPE TYPE_SHORT_STRING (int (length s)) # s) (Lua_string s)"
      by (intro reads_combine) (simp_all add: push_value_def seri_types get_buffer_def read_line_append)
    then show ?thesis using 1 by (simp add: string_bytes_def)
  next
    case 2
    then have "reads vm (COMBINE_TYPE TYPE_LONG_STRING 2 # (le_bytes 2 (length s) @ s)) (Lua_string s)"
      by (intro reads_combine) (simp_all add: push_value_def seri_types get_buffer_def read_line_append le_nat_bytes)
    then show ?thesis using 2 by (simp add: string_bytes_def)
  next
    case 3
    then have "reads vm (COMBINE_TYPE TYPE_LONG_STRING 4 # (le_bytes 4 (length s) @ s)) (Lua_string s)"
      using assms
      by (intro reads_combine) (simp_all add: push_value_def seri_types get_buffer_def read_line_append le_nat_bytes to_int32_small)
    then show ?thesis using 3 by (simp add: string_bytes_def)
  qed
qed
section \<open>Tables\<close>

lemma map_of_set_key:
  assumes "\<And>es. k \<noteq> Lua_table es"
  shows "map_of (set_key es k v) = (map_of es)(k := if v = Lua_nil then None else Some v)"
  using assms by (auto simp: set_key_def update_conv' delete_conv' split: lua_value.splits)

text \<open>The elements of an array that are set from index \<open>i\<close> on.\<close>

fun set_array :: "lua_entries \<Rightarrow> nat \<Rightarrow> lua_value list \<Rightarrow> lua_entries" where
  "set_array es i [] = es"
| "set_array es i (w # ws) = set_array (set_key es (Lua_integer (of_nat i)) w) (i + 1) ws"

lemma set_array_other:
  "(\<And>j. i \<le> j \<Longrightarrow> j < i + length ws \<Longrightarrow> k \<noteq> Lua_integer (of_nat j)) \<Longrightarrow> map_of (set_array es i ws) k = map_of es k"
proof (induction ws arbitrary: es i)
  case (Cons w ws)
  then have "map_of (set_array (set_key es (Lua_integer (of_nat i)) w) (i + 1) ws) k = map_of (set_key es (Lua_integer (of_nat i)) w) k"
    by simp
  moreover have "k \<noteq> Lua_integer (of_nat i)" using Cons.prems by simp
  ultimately show ?case by (simp add: map_of_set_key)
qed simp

lemma of_nat_64_inj: "a < 2 ^ 64 \<Longrightarrow> b < 2 ^ 64 \<Longrightarrow> (of_nat a :: u64) = of_nat b \<longleftrightarrow> a = b"
proof -
  assume "a < 2 ^ 64" "b < 2 ^ 64"
  then have "unat (of_nat a :: u64) = a" "unat (of_nat b :: u64) = b"
    by (simp_all add: unsigned_of_nat take_bit_nat_eq_self)
  then show ?thesis by metis
qed

lemma set_array_index:
  "i \<le> j \<Longrightarrow> j < i + length ws \<Longrightarrow> i + length ws \<le> 2 ^ 64 \<Longrightarrow>
     map_of (set_array es i ws) (Lua_integer (of_nat j)) = (if ws ! (j - i) = Lua_nil then None else Some (ws ! (j - i)))"
proof (induction ws arbitrary: es i)
  case (Cons w ws)
  show ?case
  proof (cases "i = j")
    case True
    have "Lua_integer (of_nat i) \<noteq> Lua_integer (of_nat m)" if "i + 1 \<le> m" "m < i + 1 + length ws" for m
    proof -
      have "of_nat m \<noteq> (of_nat i :: u64)" using of_nat_64_inj [of m i] that Cons.prems by simp
      then show ?thesis by simp
    qed
    then show ?thesis using True by (simp add: set_array_other map_of_set_key)
  next
    case False
    then show ?thesis using Cons.IH [of "i + 1"] Cons.prems by (simp add: nth_Cons' )
  qed
qed simp

text \<open>The keys and values that are set one after another.\<close>

definition set_pairs :: "lua_entries \<Rightarrow> lua_entries \<Rightarrow> lua_entries" where
  "set_pairs es ps = fold (\<lambda>(k, v) es. set_key es k v) ps es"

lemma map_of_set_pairs:
  "distinct (map fst ps) \<Longrightarrow> \<forall>(k, v)\<in>set ps. v \<noteq> Lua_nil \<and> (\<forall>es. k \<noteq> Lua_table es) \<Longrightarrow>
     map_of (set_pairs es ps) k = (case map_of ps k of None \<Rightarrow> map_of es k | Some v \<Rightarrow> Some v)"
proof (induction ps arbitrary: es)
  case Nil
  then show ?case by (simp add: set_pairs_def)
next
  case (Cons p ps)
  obtain a v where p: "p = (a, v)" by (cases p)
  have "map_of (set_pairs (set_key es a v) ps) k = (case map_of ps k of None \<Rightarrow> map_of (set_key es a v) k | Some v \<Rightarrow> Some v)"
    using Cons by simp
  moreover have "map_of ps a = None" using Cons.prems(1) by (simp add: p map_of_eq_None_iff)
  ultimately show ?case using Cons.prems(2) by (auto simp: p set_pairs_def map_of_set_key split: option.split)
qed

section \<open>Copies\<close>

text \<open>
  A copy: the same scalar, or a table with the same keys and copies of their values. A table with
  \<open>__pairs\<close> is copied as the table of what its iterator gives.
\<close>

inductive copy :: "lua_value \<Rightarrow> lua_value \<Rightarrow> bool" where
  copy_nil: "copy Lua_nil Lua_nil"
| copy_boolean: "copy (Lua_boolean x) (Lua_boolean x)"
| copy_integer: "copy (Lua_integer i) (Lua_integer i)"
| copy_number: "copy (Lua_number f) (Lua_number f)"
| copy_string: "copy (Lua_string s) (Lua_string s)"
| copy_lightuserdata: "copy (Lua_lightuserdata p) (Lua_lightuserdata p)"
| copy_table: "(\<And>k. rel_option copy (map_of es k) (map_of ws k)) \<Longrightarrow> copy (Lua_table es) (Lua_table ws)"
| copy_pairs: "(\<And>k. rel_option copy (map_of es k) (map_of ws k)) \<Longrightarrow> copy (Lua_pairs es) (Lua_table ws)"
  monos option.rel_mono

inductive_simps copy_simps [simp]:
  "copy Lua_nil w" "copy (Lua_boolean x) w" "copy (Lua_integer i) w" "copy (Lua_number f) w" "copy (Lua_string s) w"
  "copy (Lua_lightuserdata p) w" "copy v Lua_nil"

text \<open>
  The keys that the table keeps as they are, and the values of which a copy is made: strings of less than
  \<open>2\<^sup>31\<close> bytes, keys that are distinct, no value \<open>nil\<close>, an array of less than \<open>2\<^sup>31\<close> elements.
\<close>

definition is_key :: "lua_vm \<Rightarrow> lua_value \<Rightarrow> bool" where
  "is_key vm k = (case k of
     Lua_boolean _ \<Rightarrow> True | Lua_integer _ \<Rightarrow> True | Lua_string s \<Rightarrow> length s < 2 ^ 31 | Lua_lightuserdata _ \<Rightarrow> True
   | Lua_number f \<Rightarrow> \<not> vm_isnan vm f \<and> vm_tointeger vm f = None
   | _ \<Rightarrow> False)"

fun wf_value :: "lua_vm \<Rightarrow> lua_value \<Rightarrow> bool" where
  "wf_value vm (Lua_string s) = (length s < 2 ^ 31)"
| "wf_value vm (Lua_table es) =
     (vm_rawlen vm es < 2 ^ 31 \<and> distinct (map fst es) \<and> list_all (\<lambda>p. is_key vm (fst p) \<and> snd p \<noteq> Lua_nil \<and> wf_value vm (snd p)) es)"
| "wf_value vm (Lua_pairs es) =
     (distinct (map fst es) \<and> list_all (\<lambda>p. is_key vm (fst p) \<and> snd p \<noteq> Lua_nil \<and> wf_value vm (snd p)) es)"
| "wf_value vm v = True"

lemma key_wf: "is_key vm k \<Longrightarrow> wf_value vm k \<and> k \<noteq> Lua_nil \<and> (\<forall>es. k \<noteq> Lua_table es)"
  by (cases k) (auto simp: is_key_def)

lemma key_copy: "is_key vm k \<Longrightarrow> copy k w \<Longrightarrow> w = k"
  by (cases k) (auto simp: is_key_def)

lemma key_rawset: "is_key vm k \<Longrightarrow> lua_rawset vm es k v = Val (set_key es k v)"
  by (cases k) (auto simp: is_key_def lua_rawset_def)
section \<open>What is packed is read back\<close>

text \<open>A byte string from which a copy of \<open>v\<close> is read.\<close>

definition packed :: "lua_vm \<Rightarrow> lua_value \<Rightarrow> bytes \<Rightarrow> bool" where
  "packed vm v bs \<longleftrightarrow> bs \<noteq> [] \<and> (\<exists>w. copy v w \<and> reads vm bs w)"

definition appends :: "write_block \<Rightarrow> write_block \<Rightarrow> bytes \<Rightarrow> bool" where
  "appends b b' bs \<longleftrightarrow> wk_wf b' \<and> wk_contents b' = wk_contents b @ bs"

definition packs :: "lua_vm \<Rightarrow> packer \<Rightarrow> lua_value \<Rightarrow> bool" where
  "packs vm pack v \<longleftrightarrow> (\<forall>b b'. pack v b = Val b' \<longrightarrow> wk_wf b \<longrightarrow> (\<exists>bs. appends b b' bs \<and> packed vm v bs))"

lemma pack_each_packed:
  assumes "\<And>v. v \<in> set vs \<Longrightarrow> packs vm pack v" "pack_each pack vs b = Val b'" "wk_wf b"
  shows "\<exists>bss. appends b b' (concat bss) \<and> list_all2 (packed vm) vs bss"
  using assms
proof (induction vs arbitrary: b)
  case Nil
  then show ?case by (auto simp: appends_def intro: exI [of _ "[]"])
next
  case (Cons v vs)
  obtain c where c: "pack v b = Val c" "pack_each pack vs c = Val b'" using Cons.prems(2) by (auto simp: bind_Val)
  obtain bs where bs: "appends b c bs" "packed vm v bs" using Cons.prems(1) [of v] c(1) Cons.prems(3) by (auto simp: packs_def)
  obtain bss where "appends c b' (concat bss)" "list_all2 (packed vm) vs bss"
    using Cons.IH [of c] Cons.prems(1) c(2) bs(1) by (auto simp: appends_def)
  then show ?case using bs by (intro exI [of _ "bs # bss"]) (simp add: appends_def)
qed

lemma array_reads:
  "list_all2 (reads vm) bss ws \<Longrightarrow> length (concat bss @ rest) < n \<Longrightarrow>
     unpack_array (unpack_one vm n) i (length ws) es (concat bss @ rest) = Val (set_array es i ws, rest)"
proof (induction arbitrary: es i rule: list_all2_induct)
  case (Cons bs bss w ws)
  have "unpack_one vm n (bs @ concat bss @ rest) = Val (w, concat bss @ rest)" using readsD [OF Cons(1)] Cons.prems by simp
  then show ?case using Cons by simp
qed simp

definition pair_copies :: "lua_entries \<Rightarrow> lua_entries \<Rightarrow> bool" where
  "pair_copies es ps \<longleftrightarrow> list_all2 (\<lambda>p q. fst q = fst p \<and> copy (snd p) (snd q)) es ps"

lemma hash_reads:
  assumes "\<forall>p\<in>set fs. is_key vm (fst p)" "list_all2 (packed vm) (concat (map (\<lambda>(k, v). [k, v]) fs)) bss"
  shows "\<exists>ps. pair_copies fs ps \<and>
    (\<forall>es m n rest. length (concat bss @ of_nat TYPE_NIL # rest) < m \<longrightarrow> length (concat bss @ of_nat TYPE_NIL # rest) < n \<longrightarrow>
       unpack_hash vm (unpack_one vm n) m es (concat bss @ of_nat TYPE_NIL # rest) = Val (set_pairs es ps, rest))"
  using assms
proof (induction fs arbitrary: bss)
  case Nil
  have "unpack_hash vm (unpack_one vm n) m es (of_nat TYPE_NIL # rest) = Val (es, rest)"
    if "length (of_nat TYPE_NIL # rest) < m" "length (of_nat TYPE_NIL # rest) < n" for es m n rest
    using readsD [OF reads_nil, of rest n] that by (cases m) auto
  then show ?case using Nil by (intro exI [of _ "[]"]) (simp add: pair_copies_def set_pairs_def)
next
  case (Cons p fs)
  obtain k v where p: "p = (k, v)" by (cases p)
  have k: "is_key vm k" using Cons.prems(1) by (simp add: p)
  obtain kb vb bss' where bss: "bss = kb # vb # bss'" "packed vm k kb" "packed vm v vb"
    "list_all2 (packed vm) (concat (map (\<lambda>(k, v). [k, v]) fs)) bss'"
    using Cons.prems(2) by (auto simp: p list_all2_Cons1)
  have kr: "reads vm kb k" "kb \<noteq> []" using bss(2) key_copy [OF k] by (auto simp: packed_def)
  obtain w where w: "copy v w" "reads vm vb w" using bss(3) by (auto simp: packed_def)
  obtain ps where ps: "pair_copies fs ps"
    "\<And>es m n rest. length (concat bss' @ of_nat TYPE_NIL # rest) < m \<Longrightarrow> length (concat bss' @ of_nat TYPE_NIL # rest) < n \<Longrightarrow>
       unpack_hash vm (unpack_one vm n) m es (concat bss' @ of_nat TYPE_NIL # rest) = Val (set_pairs es ps, rest)"
    using Cons.IH [of bss'] Cons.prems(1) bss(4) by auto
  have "unpack_hash vm (unpack_one vm n) m es (concat bss @ of_nat TYPE_NIL # rest) = Val (set_pairs es ((k, w) # ps), rest)"
    if l: "length (concat bss @ of_nat TYPE_NIL # rest) < m" "length (concat bss @ of_nat TYPE_NIL # rest) < n" for es m n rest
  proof -
    define tl where "tl = concat bss' @ of_nat TYPE_NIL # rest"
    have all: "concat bss @ of_nat TYPE_NIL # rest = kb @ vb @ tl" by (simp add: bss(1) tl_def)
    obtain m' where m: "m = Suc m'" using l by (cases m) auto
    have u: "unpack_one vm n (kb @ vb @ tl) = Val (k, vb @ tl)" "unpack_one vm n (vb @ tl) = Val (w, tl)"
      using readsD [OF kr(1), of "vb @ tl" n] readsD [OF w(2), of tl n] l(2) unfolding all by simp_all
    have "0 < length kb" using kr(2) by simp
    moreover have "length kb + length vb + length tl < Suc m'" "length kb + length vb + length tl < n"
      using l m unfolding all by simp_all
    ultimately have "length tl < m'" "length tl < n" by linarith+
    then have "unpack_hash vm (unpack_one vm n) m' (set_key es k w) tl = Val (set_pairs (set_key es k w) ps, rest)"
      using ps(2) unfolding tl_def by blast
    then show ?thesis using key_wf [OF k] unfolding all by (simp add: m u key_rawset [OF k] set_pairs_def)
  qed
  then show ?case using ps(1) w(1) by (intro exI [of _ "(k, w) # ps"]) (simp add: pair_copies_def p)
qed

lemma pair_copies_map_of: "pair_copies es ps \<Longrightarrow> rel_option copy (map_of es k) (map_of ps k)"
  unfolding pair_copies_def by (induction rule: list_all2_induct) auto

lemma pair_copies_keys: "pair_copies es ps \<Longrightarrow> map fst ps = map fst es"
  unfolding pair_copies_def by (induction rule: list_all2_induct) auto

lemma set_pairs_copies:
  assumes "pair_copies fs ps" "distinct (map fst fs)" "\<forall>p\<in>set fs. is_key vm (fst p) \<and> snd p \<noteq> Lua_nil"
  shows "map_of (set_pairs es ps) k = (case map_of ps k of None \<Rightarrow> map_of es k | Some v \<Rightarrow> Some v)"
proof (rule map_of_set_pairs)
  show "distinct (map fst ps)" using pair_copies_keys [OF assms(1)] assms(2) by simp
  have "\<forall>p\<in>set ps. snd p \<noteq> Lua_nil \<and> (\<forall>es. fst p \<noteq> Lua_table es)"
    using assms(1,3) unfolding pair_copies_def
  proof (induction rule: list_all2_induct)
    case (Cons x xs y ys)
    then show ?case using key_wf [of vm "fst x"] by auto
  qed simp
  then show "\<forall>(k, v)\<in>set ps. v \<noteq> Lua_nil \<and> (\<forall>es. k \<noteq> Lua_table es)" by auto
qed

section \<open>Packing of tables and values\<close>

definition size_bytes :: "nat \<Rightarrow> bytes" where
  "size_bytes n =
     (if n \<ge> 31 then COMBINE_TYPE TYPE_TABLE 31 # int_bytes (of_nat n) else [COMBINE_TYPE TYPE_TABLE (int n)])"

lemma integer_wf [simp]: "wk_wf b \<Longrightarrow> wk_wf (wb_integer b w)" "wk_wf b \<Longrightarrow> wk_contents (wb_integer b w) = wk_contents b @ int_bytes w"
  using integer_push by blast+

text \<open>After the byte of the type, the size is read.\<close>

lemma size_reads:
  assumes "n < 2 ^ 31"
  shows "\<exists>c body. size_bytes n = COMBINE_TYPE TYPE_TABLE c # body \<and> 0 \<le> c \<and> c < 32 \<and>
    (\<forall>rest. table_size (body @ rest) c = Val (int n, rest))"
proof (cases "n \<ge> 31")
  case True
  obtain t rest where t: "int_bytes (of_nat n) = t # rest" "unat t mod 8 = TYPE_NUMBER" "int (unat t div 8) \<noteq> TYPE_NUMBER_REAL"
    "\<And>others. get_integer (rest @ others) (int (unat t div 8)) = Val (of_nat n, others)"
    using int_bytes_read [of "of_nat n"] unfolding read_back_def by blast
  have "sint (ucast (of_nat n :: u64) :: u32) = int n"
  proof -
    have "unat (of_nat n :: u64) = n" using assms by (simp add: unsigned_of_nat take_bit_nat_eq_self)
    then have "unat (ucast (of_nat n :: u64) :: u32) = n" using assms by (simp add: unsigned_ucast_eq take_bit_nat_eq_self)
    then show ?thesis using assms by (simp only: sint_u32) simp
  qed
  then have "table_size ((t # rest) @ more) 31 = Val (int n, more)" for more
    using t(2-4) by (simp add: table_size_def MAX_COOKIE_def read_line_def rb_read_def Let_def)
  then show ?thesis using True t(1) unfolding size_bytes_def by auto
next
  case False
  then show ?thesis by (auto simp: size_bytes_def table_size_def MAX_COOKIE_def)
qed

lemma table_reads:
  assumes n: "n < 2 ^ 31" and arr: "list_all2 (reads vm) bss ws" "length ws = n"
    and hash: "\<And>es m l rest. length (hb @ rest) < m \<Longrightarrow> length (hb @ rest) < l \<Longrightarrow>
      unpack_hash vm (unpack_one vm l) m es (hb @ rest) = Val (set_pairs es ps, rest)"
  shows "reads vm (size_bytes n @ concat bss @ hb) (Lua_table (set_pairs (set_array [] 1 ws) ps))"
proof -
  obtain c body where c: "size_bytes n = COMBINE_TYPE TYPE_TABLE c # body" "0 \<le> c" "c < 32"
    "\<And>rest. table_size (body @ rest) c = Val (int n, rest)" using size_reads [OF n] by blast
  have "reads vm (COMBINE_TYPE TYPE_TABLE c # (body @ concat bss @ hb)) (Lua_table (set_pairs (set_array [] 1 ws) ps))"
  proof (rule reads_combine)
    fix l and rest :: bytes
    assume l: "length (body @ concat bss @ hb) + length rest < l"
    have "unpack_array (unpack_one vm l) 1 n [] (concat bss @ (hb @ rest)) = Val (set_array [] 1 ws, hb @ rest)"
      using array_reads [OF arr(1), of "hb @ rest" l 1 "[]"] l arr(2) by simp
    moreover have "unpack_hash vm (unpack_one vm l) l (set_array [] 1 ws) (hb @ rest) = Val (set_pairs (set_array [] 1 ws) ps, rest)"
      using hash l by simp
    ultimately have "unpack_table vm (unpack_one vm l) l ((body @ concat bss @ hb) @ rest) c =
        Val (Lua_table (set_pairs (set_array [] 1 ws) ps), rest)"
      using c(4) [of "concat bss @ hb @ rest"] by (simp add: unpack_table_def)
    then show "push_value vm (unpack_one vm l) l ((body @ concat bss @ hb) @ rest) TYPE_TABLE c =
        Val (Lua_table (set_pairs (set_array [] 1 ws) ps), rest)"
      by (simp add: push_value_def seri_types)
  qed (use c in \<open>simp_all add: TYPE_TABLE_def\<close>)
  then show ?thesis using c(1) by simp
qed

lemma packed_list: "list_all2 (packed vm) vs bss \<Longrightarrow> \<exists>ws. list_all2 copy vs ws \<and> list_all2 (reads vm) bss ws"
proof (induction rule: list_all2_induct)
  case (Cons v vs bs bss)
  then obtain w ws where "copy v w" "reads vm bs w" "list_all2 copy vs ws" "list_all2 (reads vm) bss ws"
    by (auto simp: packed_def)
  then show ?case by (intro exI [of _ "w # ws"]) simp
qed simp

definition rest_pairs :: "nat \<Rightarrow> lua_entries \<Rightarrow> lua_entries" where
  "rest_pairs n es = filter (\<lambda>p. \<not> in_array (int n) (fst p)) es"

lemma rest_pairs_concat:
  "concat (map (\<lambda>(k, v). if in_array (int n) k then [] else [k, v]) es) = concat (map (\<lambda>(k, v). [k, v]) (rest_pairs n es))"
  by (induction es) (auto simp: rest_pairs_def)

lemma map_of_rest: "map_of (rest_pairs n es) k = (if in_array (int n) k then None else map_of es k)"
  by (induction es) (auto simp: rest_pairs_def)

lemma in_array_index:
  assumes "in_array (int n) k" "n < 2 ^ 31"
  shows "\<exists>j. k = Lua_integer (of_nat j) \<and> 1 \<le> j \<and> j \<le> n"
proof -
  obtain x where x: "k = Lua_integer x" "0 < sint x" "sint x \<le> int n" using assms(1) by (cases k) (auto simp: in_array_def)
  then have "uint x = sint x" using nonneg_uint [of x] by simp
  then have "int (unat x) = sint x" by simp
  then have "1 \<le> unat x" "unat x \<le> n" using x by linarith+
  then show ?thesis using x(1) by (intro exI [of _ "unat x"]) simp
qed

lemma index_in_array: "1 \<le> j \<Longrightarrow> j \<le> n \<Longrightarrow> n < 2 ^ 31 \<Longrightarrow> in_array (int n) (Lua_integer (of_nat j))"
  by (simp add: in_array_def signed_of_nat signed_take_bit_int_eq_self)

text \<open>The table that is read has the keys of the table that was packed.\<close>

lemma table_copies:
  assumes n: "n < 2 ^ 31" and arr: "list_all2 copy (map (lua_rawgeti es) [1..<Suc n]) ws"
    and pc: "pair_copies (rest_pairs n es) ps" and d: "distinct (map fst es)"
    and keys: "\<forall>p\<in>set es. is_key vm (fst p) \<and> snd p \<noteq> Lua_nil"
  shows "rel_option copy (map_of es k) (map_of (set_pairs (set_array [] 1 ws) ps) k)"
proof -
  have len: "length ws = n" using list_all2_lengthD [OF arr] by (simp del: upt_Suc)
  have "distinct (map fst (rest_pairs n es))" using d by (simp add: rest_pairs_def distinct_map_filter)
  then have T: "map_of (set_pairs (set_array [] 1 ws) ps) k =
      (case map_of ps k of None \<Rightarrow> map_of (set_array [] 1 ws) k | Some v \<Rightarrow> Some v)"
    using set_pairs_copies [OF pc, of vm "set_array [] 1 ws" k] keys by (simp add: rest_pairs_def)
  have rel: "rel_option copy (map_of (rest_pairs n es) k) (map_of ps k)" by (rule pair_copies_map_of [OF pc])
  show ?thesis
  proof (cases "in_array (int n) k")
    case True
    then obtain j where j: "k = Lua_integer (of_nat j)" "1 \<le> j" "j \<le> n" using in_array_index n by blast
    have "map_of ps k = None" using rel True by (simp add: map_of_rest)
    moreover have "map_of (set_array [] 1 ws) k = (if ws ! (j - 1) = Lua_nil then None else Some (ws ! (j - 1)))"
      unfolding j(1) using set_array_index [of 1 j ws "[]"] j len n by simp
    moreover have "copy (lua_rawgeti es j) (ws ! (j - 1))"
      using list_all2_nthD [OF arr, of "j - 1"] j by (simp add: nth_append del: upt_Suc)
    moreover have "map_of es k = Some v \<Longrightarrow> v \<noteq> Lua_nil" for v using keys map_of_SomeD by fastforce
    ultimately show ?thesis unfolding T by (auto simp: lua_rawgeti_def j(1) split: option.splits if_splits)
  next
    case False
    have "map_of (set_array [] 1 ws) k = map_of [] k"
      by (rule set_array_other) (use False index_in_array n len in auto)
    then have "map_of (set_pairs (set_array [] 1 ws) ps) k = map_of ps k" unfolding T by (simp split: option.split)
    then show ?thesis using rel False by (simp add: map_of_rest)
  qed
qed

lemma wf_table_values:
  assumes "list_all (\<lambda>p. is_key vm (fst p) \<and> snd p \<noteq> Lua_nil \<and> wf_value vm (snd p)) es"
  shows "wf_value vm (lua_rawgeti es j)"
  using assms by (auto simp: lua_rawgeti_def list_all_iff dest!: map_of_SomeD split: option.split)

lemma pairs_packed:
  assumes wf: "list_all (\<lambda>p. is_key vm (fst p) \<and> snd p \<noteq> Lua_nil \<and> wf_value vm (snd p)) fs"
    and each: "\<And>v. wf_value vm v \<Longrightarrow> packs vm pack v"
    and res: "lua_bind (pack_each pack (concat (map (\<lambda>(k, v). [k, v]) fs)) b) (\<lambda>wb. Val (wb_nil wb)) = Val b'" "wk_wf b"
  shows "\<exists>hb ps. appends b b' hb \<and> pair_copies fs ps \<and>
    (\<forall>es m n rest. length (hb @ rest) < m \<longrightarrow> length (hb @ rest) < n \<longrightarrow>
       unpack_hash vm (unpack_one vm n) m es (hb @ rest) = Val (set_pairs es ps, rest))"
proof -
  obtain c where c: "pack_each pack (concat (map (\<lambda>(k, v). [k, v]) fs)) b = Val c" "b' = wb_nil c"
    using res(1) by (auto simp: bind_Val)
  have "packs vm pack v" if "v \<in> set (concat (map (\<lambda>(k, v). [k, v]) fs))" for v
  proof (rule each)
    have "\<exists>p\<in>set fs. v = fst p \<or> v = snd p" using that by force
    then show "wf_value vm v" using wf key_wf by (auto simp: list_all_iff)
  qed
  then obtain bss where bss: "appends b c (concat bss)" "list_all2 (packed vm) (concat (map (\<lambda>(k, v). [k, v]) fs)) bss"
    using pack_each_packed [OF _ c(1) res(2)] by blast
  have "\<forall>p\<in>set fs. is_key vm (fst p)" using wf by (auto simp: list_all_iff)
  then obtain ps where ps: "pair_copies fs ps"
    "\<And>es m n rest. length (concat bss @ of_nat TYPE_NIL # rest) < m \<Longrightarrow> length (concat bss @ of_nat TYPE_NIL # rest) < n \<Longrightarrow>
       unpack_hash vm (unpack_one vm n) m es (concat bss @ of_nat TYPE_NIL # rest) = Val (set_pairs es ps, rest)"
    using hash_reads [OF _ bss(2)] by blast
  have "appends b b' (concat bss @ [of_nat TYPE_NIL])" using bss(1) by (simp add: appends_def c(2) wb_nil_def)
  then show ?thesis using ps by (intro exI [of _ "concat bss @ [of_nat TYPE_NIL]"] exI [of _ ps]) simp
qed

lemma table_packed:
  assumes wf: "wf_value vm (Lua_table es)" and each: "\<And>v. wf_value vm v \<Longrightarrow> packs vm pack v"
    and res: "wb_table vm pack es b = Val b'" "wk_wf b"
  shows "\<exists>bs. appends b b' bs \<and> packed vm (Lua_table es) bs"
proof -
  define n where "n = vm_rawlen vm es"
  have n: "n < 2 ^ 31" "to_int32 (int (vm_rawlen vm es)) = int n" using wf by (simp_all add: n_def to_int32_small)
  define h where "h = (if int n \<ge> MAX_COOKIE - 1 then wb_integer (wb_push b [COMBINE_TYPE TYPE_TABLE (MAX_COOKIE - 1)]) (of_int (int n))
    else wb_push b [COMBINE_TYPE TYPE_TABLE (int n)])"
  have h: "wk_wf h" "wk_contents h = wk_contents b @ size_bytes n"
    using res(2) by (simp_all add: h_def size_bytes_def MAX_COOKIE_def)
  obtain c where c: "pack_each pack (map (lua_rawgeti es) [1..<Suc n]) h = Val c"
    "lua_bind (pack_each pack (concat (map (\<lambda>(k, v). [k, v]) (rest_pairs n es))) c) (\<lambda>wb. Val (wb_nil wb)) = Val b'"
    using res(1) unfolding wb_table_def wb_table_array_def wb_table_hash_def n(2) Let_def rest_pairs_concat
    by (auto simp: bind_Val h_def simp del: upt_Suc)
  have wfs: "list_all (\<lambda>p. is_key vm (fst p) \<and> snd p \<noteq> Lua_nil \<and> wf_value vm (snd p)) es" using wf by simp
  have "packs vm pack v" if "v \<in> set (map (lua_rawgeti es) [1..<Suc n])" for v
    using that each wf_table_values [OF wfs] by auto
  then obtain bss where bss: "appends h c (concat bss)" "list_all2 (packed vm) (map (lua_rawgeti es) [1..<Suc n]) bss"
    using pack_each_packed [OF _ c(1) h(1)] by blast
  obtain ws where ws: "list_all2 copy (map (lua_rawgeti es) [1..<Suc n]) ws" "list_all2 (reads vm) bss ws"
    using packed_list [OF bss(2)] by blast
  have "list_all (\<lambda>p. is_key vm (fst p) \<and> snd p \<noteq> Lua_nil \<and> wf_value vm (snd p)) (rest_pairs n es)"
    using wfs by (auto simp: rest_pairs_def list_all_iff)
  then obtain hb ps where hb: "appends c b' hb" "pair_copies (rest_pairs n es) ps"
    "\<And>es m n rest. length (hb @ rest) < m \<Longrightarrow> length (hb @ rest) < n \<Longrightarrow>
       unpack_hash vm (unpack_one vm n) m es (hb @ rest) = Val (set_pairs es ps, rest)"
    using pairs_packed [OF _ each c(2)] bss(1) by (auto simp: appends_def)
  have "length ws = n" using list_all2_lengthD [OF ws(1)] by (simp del: upt_Suc)
  then have "reads vm (size_bytes n @ concat bss @ hb) (Lua_table (set_pairs (set_array [] 1 ws) ps))"
    using table_reads [OF n(1) ws(2) _ hb(3)] by blast
  moreover have "copy (Lua_table es) (Lua_table (set_pairs (set_array [] 1 ws) ps))"
    using table_copies [OF n(1) ws(1) hb(2)] wf wfs by (intro copy_table) (auto simp: list_all_iff)
  moreover have "appends b b' (size_bytes n @ concat bss @ hb)" using h(2) bss(1) hb(1) by (simp add: appends_def)
  moreover have "size_bytes n @ concat bss @ hb \<noteq> []" by (simp add: size_bytes_def)
  ultimately show ?thesis unfolding packed_def by blast
qed

lemma metapairs_packed:
  assumes wf: "wf_value vm (Lua_pairs es)" and each: "\<And>v. wf_value vm v \<Longrightarrow> packs vm pack v"
    and res: "wb_table_metapairs pack es b = Val b'" "wk_wf b"
  shows "\<exists>bs. appends b b' bs \<and> packed vm (Lua_pairs es) bs"
proof -
  have wfs: "list_all (\<lambda>p. is_key vm (fst p) \<and> snd p \<noteq> Lua_nil \<and> wf_value vm (snd p)) es" and d: "distinct (map fst es)"
    using wf by simp_all
  have h: "wk_wf (wb_push b [COMBINE_TYPE TYPE_TABLE 0])" "wk_contents (wb_push b [COMBINE_TYPE TYPE_TABLE 0]) = wk_contents b @ size_bytes 0"
    using res(2) by (simp_all add: size_bytes_def)
  obtain hb ps where hb: "appends (wb_push b [COMBINE_TYPE TYPE_TABLE 0]) b' hb" "pair_copies es ps"
    "\<And>es m n rest. length (hb @ rest) < m \<Longrightarrow> length (hb @ rest) < n \<Longrightarrow>
       unpack_hash vm (unpack_one vm n) m es (hb @ rest) = Val (set_pairs es ps, rest)"
    using pairs_packed [OF wfs each _ h(1), of b'] res(1) unfolding wb_table_metapairs_def by blast
  have "reads vm (size_bytes 0 @ concat [] @ hb) (Lua_table (set_pairs (set_array [] 1 []) ps))"
    by (rule table_reads [of 0]) (use hb(3) in simp_all)
  moreover have "copy (Lua_pairs es) (Lua_table (set_pairs (set_array [] 1 []) ps))"
  proof (rule copy_pairs)
    fix k
    have "\<forall>p\<in>set es. is_key vm (fst p) \<and> snd p \<noteq> Lua_nil" using wfs by (auto simp: list_all_iff)
    then have "map_of (set_pairs [] ps) k = map_of ps k"
      using set_pairs_copies [OF hb(2) d, of vm "[]" k] by (simp split: option.split)
    then show "rel_option copy (map_of es k) (map_of (set_pairs (set_array [] 1 []) ps) k)"
      using pair_copies_map_of [OF hb(2)] by simp
  qed
  moreover have "appends b b' (size_bytes 0 @ concat [] @ hb)" using h(2) hb(1) by (simp add: appends_def)
  moreover have "size_bytes 0 @ concat [] @ hb \<noteq> []" by (simp add: size_bytes_def)
  ultimately show ?thesis unfolding packed_def by blast
qed

lemma one_packed: "wf_value vm v \<Longrightarrow> packs vm (pack_one vm depth) v"
proof (induction "Suc MAX_DEPTH - depth" arbitrary: depth v rule: less_induct)
  case less
  show ?case unfolding packs_def
  proof (intro allI impI)
    fix b b' assume res: "pack_one vm depth v b = Val b'" "wk_wf b"
    have d: "depth \<le> MAX_DEPTH" using res(1) by (subst (asm) pack_one.simps) (simp split: if_splits)
    then have each: "\<And>u. wf_value vm u \<Longrightarrow> packs vm (pack_one vm (depth + 1)) u" using less.hyps [of "depth + 1"] by simp
    note one = res(1) [unfolded pack_one.simps [of vm depth v b]] d res(2) appends_def packed_def
    show "\<exists>bs. appends b b' bs \<and> packed vm v bs"
    proof (cases v)
      case Lua_nil
      then show ?thesis using one reads_nil by (intro exI [of _ "[of_nat TYPE_NIL]"]) (auto simp: wb_nil_def)
    next
      case (Lua_boolean x)
      then show ?thesis using one reads_boolean by (intro exI [of _ "[COMBINE_TYPE TYPE_BOOLEAN (if x then 1 else 0)]"]) (auto simp: wb_boolean_def)
    next
      case (Lua_integer x)
      then show ?thesis using one reads_integer int_bytes_read [of x] by (intro exI [of _ "int_bytes x"]) (auto simp: read_back_def)
    next
      case (Lua_number x)
      then show ?thesis using one reads_real
        by (intro exI [of _ "COMBINE_TYPE TYPE_NUMBER TYPE_NUMBER_REAL # le_bytes 8 (unat x)"]) (auto simp: wb_real_def)
    next
      case (Lua_lightuserdata x)
      then show ?thesis using one reads_pointer
        by (intro exI [of _ "of_nat TYPE_USERDATA # le_bytes 8 (unat x)"]) (auto simp: wb_pointer_def)
    next
      case (Lua_string s)
      moreover have "string_bytes s \<noteq> []" by (simp add: string_bytes_def)
      ultimately show ?thesis using one reads_string [of s] string_push [of b s] less.prems
        by (intro exI [of _ "string_bytes s"]) auto
    next
      case (Lua_table es)
      then show ?thesis using table_packed [OF _ each _ res(2)] one(1,2) less.prems by simp
    next
      case (Lua_pairs es)
      then show ?thesis using metapairs_packed [OF _ each _ res(2)] one(1,2) less.prems by simp
    next
      case (Lua_other t)
      then show ?thesis using one(1,2) by simp
    qed
  qed
qed

section \<open>The whole\<close>

lemma unpack_values_step:
  "rb \<noteq> [] \<Longrightarrow> unpack_values vm (Suc n) rb =
     lua_bind (unpack_one vm (Suc n) rb) (\<lambda>(v, rb). lua_bind (unpack_values vm n rb) (\<lambda>vs. Val (v # vs)))"
  by (simp add: rb_read_def read_line_def Suc_le_eq)

lemma unpack_values_reads:
  "list_all2 (\<lambda>w bs. bs \<noteq> [] \<and> reads vm bs w) ws bss \<Longrightarrow> length (concat bss) < n \<Longrightarrow> unpack_values vm n (concat bss) = Val ws"
proof (induction arbitrary: n rule: list_all2_induct)
  case Nil
  then show ?case by (cases n) (auto simp: rb_read_def)
next
  case (Cons w ws bs bss)
  obtain m where m: "n = Suc m" using Cons.prems by (cases n) auto
  have u: "unpack_one vm (Suc m) (bs @ concat bss) = Val (w, concat bss)" using readsD [of vm bs w "concat bss" "Suc m"] Cons m by simp
  have "0 < length bs" using Cons(1) by simp
  moreover have "length bs + length (concat bss) < Suc m" using Cons.prems unfolding m by simp
  ultimately have short: "length (concat bss) < m" by linarith
  have "unpack_values vm m (concat bss) = Val ws" using short by (rule Cons(3))
  then show ?case using Cons(1) u unfolding m by (simp add: unpack_values_step del: unpack_values.simps unpack_one.simps)
qed

text \<open>C19: what \<open>pack\<close> writes, \<open>unpack\<close> reads back: as many values, each a copy of the value that was packed, with
  tables that have the same keys and copies of the values, at any depth.\<close>

theorem seri_roundtrip:
  assumes "luaseri_pack vm vs = Val bytes" "list_all (wf_value vm) vs"
  shows "\<exists>ws. luaseri_unpack vm (Arg_string bytes) = Val ws \<and> list_all2 copy vs ws"
proof -
  obtain b where b: "pack_each (pack_one vm 0) vs wb_init = Val b" "seri (wk_blocks b) (wk_len b) = Val bytes"
    using assms(1) by (auto simp: luaseri_pack_def bind_Val)
  have "packs vm (pack_one vm 0) v" if "v \<in> set vs" for v using one_packed assms(2) that by (auto simp: list_all_iff)
  then obtain bss where bss: "appends wb_init b (concat bss)" "list_all2 (packed vm) vs bss"
    using pack_each_packed [OF _ b(1)] init_wf by blast
  have "bytes = concat bss" using b(2) bss(1) seri_contents init_wf by (simp add: appends_def)
  moreover have "\<exists>ws. list_all2 copy vs ws \<and> list_all2 (\<lambda>w bs. bs \<noteq> [] \<and> reads vm bs w) ws bss"
    using bss(2)
  proof (induction rule: list_all2_induct)
    case (Cons v vs bs bss)
    then obtain w ws where "copy v w" "reads vm bs w" "bs \<noteq> []" "list_all2 copy vs ws"
      "list_all2 (\<lambda>w bs. bs \<noteq> [] \<and> reads vm bs w) ws bss" by (auto simp: packed_def)
    then show ?case by (intro exI [of _ "w # ws"]) simp
  qed simp
  ultimately obtain ws where "list_all2 copy vs ws" "unpack_values vm (length bytes + 1) bytes = Val ws"
    using unpack_values_reads by force
  then show ?thesis by (auto simp: luaseri_unpack_def simp del: unpack_values.simps)
qed

definition seri_vm :: lua_vm where
  "seri_vm = \<lparr>vm_rawlen = (\<lambda>es. length (filter (\<lambda>p. case fst p of Lua_integer _ \<Rightarrow> True | _ \<Rightarrow> False) es)),
     vm_tointeger = (\<lambda>f. None), vm_isnan = (\<lambda>f. False)\<rparr>"

definition seri_example :: "lua_value list" where
  "seri_example =
     [Lua_table [(Lua_integer 1, Lua_string [104, 105]), (Lua_string [107], Lua_table [(Lua_boolean True, Lua_integer (-7))])],
      Lua_nil]"

definition seri_bytes :: bytes where
  "seri_bytes = [14, 20, 104, 105, 12, 107, 6, 9, 34, 249, 255, 255, 255, 0, 0, 0]"

lemmas pack_one_each =
  pack_one.simps [where v = Lua_nil, simplified] pack_one.simps [where v = "Lua_integer x" for x, simplified]
  pack_one.simps [where v = "Lua_boolean x" for x, simplified] pack_one.simps [where v = "Lua_string s" for s, simplified]
  pack_one.simps [where v = "Lua_table es" for es, simplified]

lemma push_short:
  "wk_ptr b + length buffer \<le> BLOCK_SIZE \<Longrightarrow> wk_ptr b < BLOCK_SIZE \<Longrightarrow> wb_push b buffer = wb_copy b buffer"
  by (simp add: wb_push_def)

lemma le_bytes_example: "le_bytes 4 4294967289 = [249, 255, 255, 255]"
proof -
  have "be_bytes (Suc (Suc (Suc (Suc 0)))) 4294967289 = [255, 255, 255, 249]" by simp
  moreover have "Suc (Suc (Suc (Suc 0))) = 4" by simp
  ultimately have "be_bytes 4 4294967289 = [255, 255, 255, 249]" by metis
  then show ?thesis by (simp add: le_bytes_def)
qed

lemma seri_example_bytes: "luaseri_pack seri_vm seri_example = Val seri_bytes"
proof -
  have len: "vm_rawlen seri_vm es = length (filter (\<lambda>p. case fst p of Lua_integer _ \<Rightarrow> True | _ \<Rightarrow> False) es)" for es
    by (simp add: seri_vm_def)
  show ?thesis
    by (simp add: luaseri_pack_def seri_example_def len pack_one_each MAX_DEPTH_def wb_table_def wb_table_array_def
        wb_table_hash_def in_array_def lua_rawgeti_def wb_nil_def wb_boolean_def wb_integer_def wb_string_def Let_def
        to_int32_small MAX_COOKIE_def seri_types wb_init_def push_short wb_copy_def BLOCK_SIZE_def le_bytes_example,
      simp add: seri.simps BLOCK_SIZE_def seri_bytes_def COMBINE_TYPE_def)
qed

theorem seri_roundtrip_witness: "\<exists>ws. luaseri_unpack seri_vm (Arg_string seri_bytes) = Val ws \<and> list_all2 copy seri_example ws"
proof (rule seri_roundtrip [OF seri_example_bytes])
  show "list_all (wf_value seri_vm) seri_example" by (simp add: seri_example_def seri_vm_def is_key_def)
qed

section \<open>Unpacking ends\<close>

text \<open>No lack of fuel, and less than \<open>k\<close> bytes are left.\<close>

definition ends :: "nat \<Rightarrow> ('a \<times> bytes) lua_result \<Rightarrow> bool" where
  "ends k m \<longleftrightarrow> (case m of Val (x, r) \<Rightarrow> length r < k | Out_of_fuel \<Rightarrow> False | _ \<Rightarrow> True)"

lemma ends_simps [simp]: "ends k (Val (x, r)) \<longleftrightarrow> length r < k" "ends k (Lua_error e)" "ends k Crash" "\<not> ends k Out_of_fuel"
  by (simp_all add: ends_def)

lemma ends_bind: "ends k m \<Longrightarrow> (\<And>x r. length r < k \<Longrightarrow> ends l (f (x, r))) \<Longrightarrow> ends l (lua_bind m f)"
  by (cases m) (auto simp: ends_def)

lemma ends_mono: "ends k m \<Longrightarrow> k \<le> l \<Longrightarrow> ends l m"
  by (cases m) (auto simp: ends_def)

lemma ends_line [simp]: "ends k (invalid_stream_line rb l)"
  by (simp add: invalid_stream_line_def)

lemma read_line_ends: "length rb - sz < k \<Longrightarrow> ends k (read_line rb sz l)"
  by (simp add: read_line_def rb_read_def)

lemma get_integer_ends: "length rb < k \<Longrightarrow> ends k (get_integer rb c)"
  by (auto simp: get_integer_def intro!: ends_bind [where k = k] read_line_ends)

lemma get_real_ends: "length rb < k \<Longrightarrow> ends k (get_real rb)"
  by (auto simp: get_real_def intro!: ends_bind [where k = k] read_line_ends)

lemma get_pointer_ends: "length rb < k \<Longrightarrow> ends k (get_pointer rb)"
  by (auto simp: get_pointer_def intro!: ends_bind [where k = k] read_line_ends)

lemma get_buffer_ends: "length rb < k \<Longrightarrow> ends k (get_buffer rb n)"
  by (auto simp: get_buffer_def intro!: read_line_ends)

lemma table_size_ends: "length rb < k \<Longrightarrow> ends k (table_size rb n)"
  by (auto simp: table_size_def Let_def intro!: ends_bind [where k = k] read_line_ends get_integer_ends)

definition all_end :: "unpacker \<Rightarrow> nat \<Rightarrow> bool" where
  "all_end unpack n \<longleftrightarrow> (\<forall>rb. length rb < n \<longrightarrow> ends (length rb) (unpack rb))"

lemma all_endD: "all_end unpack n \<Longrightarrow> length rb < n \<Longrightarrow> ends (length rb) (unpack rb)"
  by (simp add: all_end_def)

lemma unpack_array_ends: "all_end unpack n \<Longrightarrow> length rb < n \<Longrightarrow> length rb < k \<Longrightarrow> ends k (unpack_array unpack i m es rb)"
proof (induction m arbitrary: i es rb)
  case (Suc m)
  show ?case using Suc by (auto intro!: ends_bind [OF all_endD [OF Suc.prems(1,2)]])
qed simp

lemma rawset_no_fuel: "lua_rawset vm es k v \<noteq> Out_of_fuel" "lua_rawset vm es k v \<noteq> Crash"
  by (cases k; simp add: lua_rawset_def)+

lemma unpack_hash_ends:
  "all_end unpack n \<Longrightarrow> length rb < n \<Longrightarrow> length rb < m \<Longrightarrow> length rb < k \<Longrightarrow> ends k (unpack_hash vm unpack m es rb)"
proof (induction m arbitrary: es rb)
  case (Suc m)
  have "ends k (lua_bind (lua_rawset vm es a v) (\<lambda>es. unpack_hash vm unpack m es r))"
    if "length r < length rb" for a v r
    using Suc that rawset_no_fuel(1) [of vm es a v] by (cases "lua_rawset vm es a v") auto
  then have "ends k (lua_bind (unpack r) (\<lambda>(v, rb). lua_bind (lua_rawset vm es a v) (\<lambda>es. unpack_hash vm unpack m es rb)))"
    if "length r < length rb" for a r
    using that Suc.prems by (auto intro!: ends_bind [OF all_endD [OF Suc.prems(1), of r]])
  then show ?case using Suc.prems by (auto intro!: ends_bind [OF all_endD [OF Suc.prems(1,2)]])
qed simp

lemma unpack_table_ends:
  assumes "all_end unpack n" "length rb < n" "length rb < fuel" "length rb < k"
  shows "ends k (unpack_table vm unpack fuel rb c)"
proof -
  have h: "ends k (lua_bind (unpack_hash vm unpack fuel es r) (\<lambda>(es, rb). Val (Lua_table es, rb)))"
    if "length r < Suc (length rb)" for es r
    by (rule ends_bind, rule unpack_hash_ends [where n = n and k = "Suc (length rb)"]) (use assms that in auto)
  have "ends k (lua_bind (unpack_array unpack 1 m [] r) (\<lambda>(es, rb). lua_bind (unpack_hash vm unpack fuel es rb) (\<lambda>(es, rb). Val (Lua_table es, rb))))"
    if "length r < Suc (length rb)" for m r
    by (rule ends_bind, rule unpack_array_ends [where n = n and k = "Suc (length rb)"]) (use assms that h in auto)
  then show ?thesis unfolding unpack_table_def
    by (intro ends_bind [OF table_size_ends [where k = "Suc (length rb)"]]) auto
qed

lemma push_value_ends:
  assumes "all_end unpack n" "length rb < n" "length rb < fuel" "length rb < k"
  shows "ends k (push_value vm unpack fuel rb t c)"
  unfolding push_value_def
  using assms
  by (auto intro!: ends_bind [where k = "Suc (length rb)"] get_integer_ends get_real_ends get_pointer_ends get_buffer_ends
      read_line_ends unpack_table_ends [OF assms])

lemma unpack_one_ends: "all_end (unpack_one vm n) n"
proof (induction n)
  case 0
  then show ?case by (simp add: all_end_def)
next
  case (Suc n)
  have "ends (length rb) (unpack_one vm (Suc n) rb)" if "length rb < Suc n" for rb
  proof (cases rb)
    case (Cons t r)
    then show ?thesis using push_value_ends [OF Suc, of r n] that by (simp add: read_line_def rb_read_def)
  qed (simp add: read_line_def rb_read_def invalid_stream_line_def)
  then show ?case by (simp add: all_end_def del: unpack_one.simps)
qed

lemma unpack_values_ends: "length rb < n \<Longrightarrow> unpack_values vm n rb \<noteq> Out_of_fuel"
proof (induction n arbitrary: rb)
  case (Suc n)
  show ?case
  proof (cases "rb = []")
    case True
    then show ?thesis by (simp add: rb_read_def)
  next
    case False
    have e: "ends (length rb) (unpack_one vm (Suc n) rb)" using all_endD [OF unpack_one_ends Suc.prems] .
    show ?thesis
    proof (cases "unpack_one vm (Suc n) rb")
      case (Val x)
      then obtain v r where "x = (v, r)" "length r < length rb" using e by (cases x) auto
      moreover have "unpack_values vm n r \<noteq> Out_of_fuel" if "length r < length rb" using Suc that by simp
      ultimately show ?thesis using Val False
        by (cases "unpack_values vm n r") (simp_all add: unpack_values_step del: unpack_values.simps unpack_one.simps)
    qed (use e False in \<open>simp_all add: unpack_values_step del: unpack_values.simps unpack_one.simps\<close>)
  qed
qed simp

text \<open>C20: \<open>unpack\<close> ends on every argument: each value that is read, at any depth, takes at least one byte.\<close>

theorem unpack_ends: "luaseri_unpack vm arg \<noteq> Out_of_fuel"
  using unpack_values_ends by (cases arg) (auto simp: luaseri_unpack_def simp del: unpack_values.simps split: option.split)


text \<open>
  \<open>pack\<close> loses a string of \<open>2\<^sup>31\<close> bytes or more: its length is negative as an \<open>int\<close>, and only one byte is
  written, without an error.
\<close>

theorem pack_loses_string:
  assumes "2 ^ 31 \<le> length s" "length s < 2 ^ 32"
  shows "luaseri_pack vm [Lua_string s] = Val [COMBINE_TYPE TYPE_SHORT_STRING (int (length s) - 2 ^ 32)]"
proof -
  have "to_int32 (int (length s)) = int (length s) - 2 ^ 32" "int (length s) - 2 ^ 32 < 0"
    using assms by (simp_all add: to_int32_def sint_u32 unsigned_of_nat take_bit_nat_eq_self)
  then have "pack_one vm 0 (Lua_string s) wb_init = Val (wb_push wb_init [COMBINE_TYPE TYPE_SHORT_STRING (int (length s) - 2 ^ 32)])"
    by (simp add: pack_one_each wb_string_def Let_def MAX_COOKIE_def)
  then show ?thesis using init_wf by (simp add: luaseri_pack_def seri_contents)
qed

theorem pack_loses_string_witness:
  "luaseri_pack seri_vm [Lua_string (replicate 2147483652 0)] = Val [COMBINE_TYPE TYPE_SHORT_STRING (- 2147483644)]"
  using pack_loses_string [of "replicate 2147483652 0" seri_vm] by simp

end
