(* ===== verification/LuaSocket.thy ===== *)
theory LuaSocket
  imports Skynet_H CText Bytes
begin

text \<open>
  \<open>lualib-src/lua-socket.c\<close>: the buffers in which Lua services collect what a socket receives. A buffer is a
  list of nodes, each with a message of the socket layer; the nodes come from a pool that all buffers of a
  service share.

  A buffer is the list of its nodes from \<open>head\<close> to \<open>tail\<close>. The pool is a Lua table with the list of free nodes
  at index 1 and the chunks of nodes behind it; a node has its number, counted through all chunks. \<open>bp_freed\<close>
  records the messages that \<open>skynet_free\<close> gets. Sizes are C \<open>int\<close>s and do not overflow.
\<close>

section \<open>Buffers and the pool\<close>

definition LARGE_PAGE_NODE :: nat where "LARGE_PAGE_NODE = 12"

text \<open>A node: its number, and the address and the bytes of its message.\<close>

record buffer_node =
  bn_id :: nat
  bn_msg :: nat
  bn_data :: bytes

record socket_buffer =
  sb_size :: int
  sb_offset :: nat
  sb_nodes :: "buffer_node list"

record buffer_pool =
  bp_free :: "nat list"
  bp_chunks :: "nat list"
  bp_freed :: "nat list"

definition need_buffer :: "socket_buffer option \<Rightarrow> (socket_buffer \<Rightarrow> 'a lua_result) \<Rightarrow> 'a lua_result" where
  "need_buffer sb f = (case sb of None \<Rightarrow> Lua_error ''Need buffer object at param 1'' | Some sb \<Rightarrow> f sb)"

definition lnewpool :: "buffer_pool \<Rightarrow> nat \<Rightarrow> buffer_pool" where
  "lnewpool pool sz =
     pool\<lparr>bp_free := [sum_list (bp_chunks pool)..<sum_list (bp_chunks pool) + sz], bp_chunks := bp_chunks pool @ [sz]\<rparr>"

definition lnewbuffer :: socket_buffer where
  "lnewbuffer = \<lparr>sb_size = 0, sb_offset = 0, sb_nodes = []\<rparr>"

text \<open>\<open>lua_rawlen\<close> of a table with a free list and \<open>k\<close> chunks is \<open>k + 1\<close>; it is 0 for a new table.\<close>

definition chunk_size :: "buffer_pool \<Rightarrow> nat" where
  "chunk_size pool =
     (let rawlen = (if bp_chunks pool = [] then 0 else length (bp_chunks pool) + 1);
          tsz = (if rawlen = 0 then rawlen + 1 else rawlen)
      in if tsz \<le> LARGE_PAGE_NODE - 3 then push_bit tsz 8 else push_bit (LARGE_PAGE_NODE - 3) 8)"

text \<open>The size that the caller passes is the one of the message.\<close>

definition lpushbuffer ::
  "socket_buffer option \<Rightarrow> buffer_pool \<Rightarrow> (nat \<times> bytes) option \<Rightarrow> (int \<times> socket_buffer \<times> buffer_pool) lua_result" where
  "lpushbuffer sbp pool msg =
     (case sbp of None \<Rightarrow> Lua_error ''need buffer object at param 1''
      | Some sb \<Rightarrow> (case msg of None \<Rightarrow> Lua_error ''need message block at param 3''
      | Some (a, data) \<Rightarrow>
          let pool = (if bp_free pool = [] then lnewpool pool (chunk_size pool) else pool);
              free_node = \<lparr>bn_id = hd (bp_free pool), bn_msg = a, bn_data = data\<rparr>;
              len = sb_size sb + int (length data)
          in Val (len, sb\<lparr>sb_nodes := sb_nodes sb @ [free_node], sb_size := len\<rparr>, pool\<lparr>bp_free := tl (bp_free pool)\<rparr>)))"

text \<open>The head, which exists, goes back to the pool.\<close>

definition return_free_node :: "buffer_pool \<Rightarrow> socket_buffer \<Rightarrow> socket_buffer \<times> buffer_pool" where
  "return_free_node pool sb =
     (let free_node = hd (sb_nodes sb)
      in (sb\<lparr>sb_offset := 0, sb_nodes := tl (sb_nodes sb)\<rparr>,
          pool\<lparr>bp_free := bn_id free_node # bp_free pool, bp_freed := bp_freed pool @ [bn_msg free_node]\<rparr>))"

text \<open>The Lua library refuses the length that a negative \<open>int\<close> gives, but not the one of \<open>-1\<close>.\<close>

definition pushlstring :: "bytes \<Rightarrow> int \<Rightarrow> bytes lua_result" where
  "pushlstring p len =
     (if len = -1 then Crash
      else if len < 0 then Lua_error ''memory allocation error: block too big''
      else if int (length p) < len then Crash
      else Val (take (nat len) p))"

text \<open>The loop of \<open>pop_lstring\<close>; \<open>acc\<close> is what was added to the Lua buffer.\<close>

function pop_loop :: "buffer_pool \<Rightarrow> socket_buffer \<Rightarrow> int \<Rightarrow> int \<Rightarrow> bytes \<Rightarrow> (bytes \<times> socket_buffer \<times> buffer_pool) lua_result" where
  "pop_loop pool sb sz skip acc =
     (case sb_nodes sb of
        [] \<Rightarrow> Crash
      | current # _ \<Rightarrow>
          let bytes = int (length (bn_data current)) - int (sb_offset sb);
              at = drop (sb_offset sb) (bn_data current)
          in if bytes \<ge> sz then
               (let acc = (if sz > skip then acc @ take (nat (sz - skip)) at else acc);
                    sb = sb\<lparr>sb_offset := nat (int (sb_offset sb) + sz)\<rparr>
                in if bytes = sz then Val (acc, return_free_node pool sb) else Val (acc, sb, pool))
             else
               (let real_sz = sz - skip;
                    acc = (if real_sz > 0 then acc @ take (nat (if real_sz < bytes then real_sz else bytes)) at else acc);
                    (sb', pool) = return_free_node pool sb
                in if sz - bytes = 0 then Val (acc, sb', pool) else pop_loop pool sb' (sz - bytes) skip acc))"
  by pat_completeness auto
termination
  by (relation "measure (\<lambda>(pool, sb, sz, skip, acc). length (sb_nodes sb))") (auto simp: return_free_node_def Let_def)

declare pop_loop.simps [simp del]

definition pop_lstring :: "buffer_pool \<Rightarrow> socket_buffer \<Rightarrow> int \<Rightarrow> int \<Rightarrow> (bytes \<times> socket_buffer \<times> buffer_pool) lua_result" where
  "pop_lstring pool sb sz skip =
     (case sb_nodes sb of
        [] \<Rightarrow> Crash
      | current # _ \<Rightarrow>
          let bytes = int (length (bn_data current)) - int (sb_offset sb);
              at = drop (sb_offset sb) (bn_data current)
          in if sz < bytes
             then lua_bind (pushlstring at (sz - skip)) (\<lambda>s. Val (s, sb\<lparr>sb_offset := nat (int (sb_offset sb) + sz)\<rparr>, pool))
             else if sz = bytes then lua_bind (pushlstring at (sz - skip)) (\<lambda>s. Val (s, return_free_node pool sb))
             else pop_loop pool sb sz skip [])"

section \<open>What the services call\<close>

text \<open>\<open>lheader\<close>: the number in 1 to 4 bytes.\<close>

definition lheader :: "string \<Rightarrow> int lua_result" where
  "lheader s =
     (if length s > 4 \<or> length s < 1 then Lua_error (''Invalid read '' @ cstr s 0)
      else Val (int (foldl (\<lambda>sz c. push_bit 8 sz OR of_char c) (0::nat) s)))"

definition lpopbuffer ::
  "socket_buffer option \<Rightarrow> buffer_pool \<Rightarrow> int \<Rightarrow> ((bytes option \<times> int) \<times> socket_buffer \<times> buffer_pool) lua_result" where
  "lpopbuffer sbp pool sz = need_buffer sbp (\<lambda>sb.
     if sb_size sb < sz \<or> sz = 0 then Val ((None, sb_size sb), sb, pool)
     else lua_bind (pop_lstring pool sb sz 0) (\<lambda>(s, sb, pool).
       let left = sb_size sb - sz in Val ((Some s, left), sb\<lparr>sb_size := left\<rparr>, pool)))"

function clear_nodes :: "buffer_pool \<Rightarrow> socket_buffer \<Rightarrow> socket_buffer \<times> buffer_pool" where
  "clear_nodes pool sb =
     (if sb_nodes sb = [] then (sb, pool) else let (sb', pool) = return_free_node pool sb in clear_nodes pool sb')"
  by pat_completeness auto
termination
  by (relation "measure (\<lambda>(pool, sb). length (sb_nodes sb))") (auto simp: return_free_node_def Let_def)

declare clear_nodes.simps [simp del]

definition lclearbuffer :: "socket_buffer option \<Rightarrow> buffer_pool \<Rightarrow> (socket_buffer \<times> buffer_pool) lua_result" where
  "lclearbuffer sbp pool = need_buffer sbp (\<lambda>sb. let (sb, pool) = clear_nodes pool sb in Val (sb\<lparr>sb_size := 0\<rparr>, pool))"

function readall_loop :: "buffer_pool \<Rightarrow> socket_buffer \<Rightarrow> bytes \<Rightarrow> bytes \<times> socket_buffer \<times> buffer_pool" where
  "readall_loop pool sb acc =
     (case sb_nodes sb of
        [] \<Rightarrow> (acc, sb, pool)
      | current # _ \<Rightarrow> let (sb', pool) = return_free_node pool sb
          in readall_loop pool sb' (acc @ drop (sb_offset sb) (bn_data current)))"
  by pat_completeness auto
termination
  by (relation "measure (\<lambda>(pool, sb, acc). length (sb_nodes sb))") (auto simp: return_free_node_def Let_def)

declare readall_loop.simps [simp del]

definition lreadall :: "socket_buffer option \<Rightarrow> buffer_pool \<Rightarrow> (bytes \<times> socket_buffer \<times> buffer_pool) lua_result" where
  "lreadall sbp pool = need_buffer sbp (\<lambda>sb. let (s, sb, pool) = readall_loop pool sb [] in Val (s, sb\<lparr>sb_size := 0\<rparr>, pool))"

text \<open>
  \<open>check_sep\<close>: is \<open>sep\<close> at \<open>from\<close> in the message of the first node and the ones behind it? \<open>None\<close> is a
  read through \<open>NULL\<close> or in front of \<open>sep\<close>.
\<close>

fun check_sep :: "buffer_node list \<Rightarrow> int \<Rightarrow> bytes \<Rightarrow> bool option" where
  "check_sep [] from sep = None"
| "check_sep (node # nodes) from sep =
     (let sz = int (length (bn_data node)) - from; at = drop (nat from) (bn_data node)
      in if sz \<ge> int (length sep) then Some (take (length sep) at = sep)
         else if sz < 0 then None
         else if sz > 0 \<and> take (nat sz) at \<noteq> take (nat sz) sep then Some False
         else check_sep nodes 0 (drop (nat sz) sep))"

text \<open>The loop of \<open>lreadline\<close>: the index at which the separator was found.\<close>

function readline_loop :: "buffer_node list \<Rightarrow> int \<Rightarrow> int \<Rightarrow> int \<Rightarrow> int \<Rightarrow> bytes \<Rightarrow> int option option" where
  "readline_loop nodes from bytes i len sep =
     (if i > len - int (length sep) then Some None
      else case check_sep nodes from sep of
        None \<Rightarrow> None
      | Some True \<Rightarrow> Some (Some i)
      | Some False \<Rightarrow>
          if bytes - 1 = 0 then
            (case tl nodes of [] \<Rightarrow> Some None
             | node # _ \<Rightarrow> readline_loop (tl nodes) 0 (int (length (bn_data node))) (i + 1) len sep)
          else readline_loop nodes (from + 1) (bytes - 1) (i + 1) len sep)"
  by pat_completeness auto
termination
  by (relation "measure (\<lambda>(nodes, from, bytes, i, len, sep). nat (len - int (length sep) + 1 - i))") auto

declare readline_loop.simps [simp del]

text \<open>The result: nothing, \<open>true\<close> (with no pool, for a check), or the line.\<close>

datatype line_result = No_line | Has_line | Line bytes

definition lreadline ::
  "socket_buffer option \<Rightarrow> buffer_pool \<Rightarrow> bool \<Rightarrow> bytes \<Rightarrow> (line_result \<times> socket_buffer \<times> buffer_pool) lua_result" where
  "lreadline sbp pool check sep = need_buffer sbp (\<lambda>sb.
     case sb_nodes sb of
       [] \<Rightarrow> Val (No_line, sb, pool)
     | current # _ \<Rightarrow>
         (case readline_loop (sb_nodes sb) (int (sb_offset sb)) (int (length (bn_data current)) - int (sb_offset sb)) 0 (sb_size sb) sep of
            None \<Rightarrow> Crash
          | Some None \<Rightarrow> Val (No_line, sb, pool)
          | Some (Some i) \<Rightarrow>
              if check then Val (Has_line, sb, pool)
              else lua_bind (pop_lstring pool sb (i + int (length sep)) (int (length sep))) (\<lambda>(s, sb, pool).
                Val (Line s, sb\<lparr>sb_size := sb_size sb - (i + int (length sep))\<rparr>, pool))))"

section \<open>Addresses and strings to send\<close>

definition strtoul10 :: "string \<Rightarrow> nat" where
  "strtoul10 s =
     (let (neg, t) = scan_sign s; n = scan_digits 10 t 0
      in if 2 ^ 64 \<le> n then 2 ^ 64 - 1 else if neg then (2 ^ 64 - n) mod 2 ^ 64 else n)"

text \<open>\<open>strchr\<close>: the text from the first \<open>c\<close> on.\<close>

definition strchr :: "string \<Rightarrow> char \<Rightarrow> string option" where
  "strchr s c = (case dropWhile (\<lambda>x. x \<noteq> c) s of [] \<Rightarrow> None | t \<Rightarrow> Some t)"

text \<open>The host and the port; \<open>port\<close> is the separate argument, if there is one. In an IPv6 address the text of
  the host is what stands between \<open>[\<close> and \<open>]\<close>; \<open>memcpy\<close> with a negative size crashes.\<close>

definition address_port :: "string \<Rightarrow> int option \<Rightarrow> (string \<times> int) lua_result" where
  "address_port addr port =
     (case port of
        Some p \<Rightarrow> Val (addr, to_int32 p)
      | None \<Rightarrow>
          (case strchr addr (CHR ''['') of
             Some host \<Rightarrow>
               (case strchr addr (CHR '']'') of
                  None \<Rightarrow> Lua_error (''Invalid address '' @ addr @ ''.'')
                | Some sep \<Rightarrow>
                    if length (tl host) < length sep then Crash
                    else (case strchr (tl sep) (CHR '':'') of
                      None \<Rightarrow> Lua_error (''Invalid address '' @ addr @ ''.'')
                    | Some colon \<Rightarrow> Val (take (length (tl host) - length sep) (tl host), to_int32 (int (strtoul10 (tl colon))))))
           | None \<Rightarrow>
               (case strchr addr (CHR '':'') of
                  None \<Rightarrow> Lua_error (''Invalid address '' @ addr @ ''.'')
                | Some sep \<Rightarrow> Val (take (length addr - length sep) addr, to_int32 (int (strtoul10 (tl sep)))))))"

end
