(* ===== verification/LuaSocketProps.thy ===== *)
theory LuaSocketProps
  imports LuaSocket
begin

text \<open>
  The buffers of \<open>lualib-src/lua-socket.c\<close> are byte streams: what is pushed comes out in order, by sizes and by
  lines, each message is freed once, and the nodes of the pool are never shared.
\<close>

section \<open>The contents\<close>

definition sb_contents :: "socket_buffer \<Rightarrow> bytes" where
  "sb_contents sb = drop (sb_offset sb) (concat (map bn_data (sb_nodes sb)))"

definition offset_ok :: "socket_buffer \<Rightarrow> bool" where
  "offset_ok sb \<longleftrightarrow> (case sb_nodes sb of [] \<Rightarrow> sb_offset sb = 0 | node # _ \<Rightarrow> sb_offset sb = 0 \<or> sb_offset sb < length (bn_data node))"

lemma contents_Cons:
  assumes "sb_nodes sb = node # nodes" "offset_ok sb"
  shows "sb_contents sb = drop (sb_offset sb) (bn_data node) @ concat (map bn_data nodes)" "sb_offset sb \<le> length (bn_data node)"
  using assms by (auto simp: sb_contents_def offset_ok_def)

lemma contents_Nil: "sb_nodes sb = [] \<Longrightarrow> sb_contents sb = []"
  by (simp add: sb_contents_def)

text \<open>The first \<open>k\<close> nodes went back to the pool.\<close>

definition taken :: "nat \<Rightarrow> buffer_pool \<Rightarrow> socket_buffer \<Rightarrow> buffer_pool \<Rightarrow> socket_buffer \<Rightarrow> bool" where
  "taken k pool sb pool' sb' \<longleftrightarrow> sb_nodes sb' = drop k (sb_nodes sb) \<and> sb_size sb' = sb_size sb \<and>
     bp_freed pool' = bp_freed pool @ map bn_msg (take k (sb_nodes sb)) \<and>
     bp_free pool' = rev (map bn_id (take k (sb_nodes sb))) @ bp_free pool \<and> bp_chunks pool' = bp_chunks pool"

lemma taken_0: "taken 0 pool sb pool (sb\<lparr>sb_offset := n\<rparr>)"
  by (simp add: taken_def)

lemma taken_1: "sb_nodes sb \<noteq> [] \<Longrightarrow> return_free_node pool sb = (sb', pool') \<Longrightarrow> taken 1 pool sb pool' sb'"
  by (cases "sb_nodes sb") (auto simp: taken_def return_free_node_def)

lemma taken_Suc:
  assumes "sb_nodes sb \<noteq> []" "return_free_node pool sb = (sb1, pool1)" "taken k pool1 sb1 pool' sb'"
  shows "taken (Suc k) pool sb pool' sb'"
  using assms by (cases "sb_nodes sb") (auto simp: taken_def return_free_node_def)

lemma return_contents:
  assumes "sb_nodes sb = node # nodes" "return_free_node pool sb = (sb', pool')"
  shows "sb_contents sb' = concat (map bn_data nodes)" "offset_ok sb'" "sb_nodes sb' = nodes"
  using assms by (auto simp: return_free_node_def sb_contents_def offset_ok_def split: list.split)

section \<open>Reading by size\<close>

lemma return_offset [simp]: "return_free_node pool (sb\<lparr>sb_offset := n\<rparr>) = return_free_node pool sb"
  by (simp add: return_free_node_def)

text \<open>What a call that takes \<open>sz\<close> bytes gives, when \<open>skip\<close> of them are not part of the result.\<close>

definition popped ::
  "int \<Rightarrow> int \<Rightarrow> buffer_pool \<Rightarrow> socket_buffer \<Rightarrow> bytes \<Rightarrow> (bytes \<times> socket_buffer \<times> buffer_pool) lua_result \<Rightarrow> bool" where
  "popped sz skip pool sb acc res \<longleftrightarrow>
     (\<exists>k sb' pool'. res = Val (acc @ take (nat (sz - skip)) (sb_contents sb), sb', pool') \<and>
        sb_contents sb' = drop (nat sz) (sb_contents sb) \<and> offset_ok sb' \<and> taken k pool sb pool' sb')"

lemma popped_inside:
  assumes "sb_nodes sb = node # nodes" "offset_ok sb" "0 \<le> sz" "0 \<le> skip" "sz < int (length (bn_data node)) - int (sb_offset sb)"
  shows "popped sz skip pool sb acc (Val (acc @ take (nat (sz - skip)) (drop (sb_offset sb) (bn_data node)),
    sb\<lparr>sb_offset := nat (int (sb_offset sb) + sz)\<rparr>, pool))"
proof -
  define z where "z = nat sz"
  have z: "sz = int z" "z < length (bn_data node) - sb_offset sb" using assms(3,5) by (auto simp: z_def)
  have "nat (sz - skip) \<le> length (bn_data node) - sb_offset sb" using z assms(4) by simp
  then have "take (nat (sz - skip)) (sb_contents sb) = take (nat (sz - skip)) (drop (sb_offset sb) (bn_data node))"
    using contents_Cons [OF assms(1,2)] by simp
  moreover have "sb_contents (sb\<lparr>sb_offset := sb_offset sb + z\<rparr>) = drop z (sb_contents sb)"
    by (simp add: sb_contents_def add.commute)
  moreover have "sb_offset sb + z < length (bn_data node)" using z(2) by linarith
  then have "offset_ok (sb\<lparr>sb_offset := sb_offset sb + z\<rparr>)" using assms(1) by (simp add: offset_ok_def)
  moreover have "nat (int (sb_offset sb) + sz) = sb_offset sb + z" by (simp add: z(1))
  ultimately show ?thesis unfolding popped_def using taken_0 [of pool sb "sb_offset sb + z"] z(1) by fastforce
qed

lemma popped_node:
  assumes "sb_nodes sb = node # nodes" "offset_ok sb" "sz = int (length (bn_data node)) - int (sb_offset sb)" "0 \<le> skip"
  shows "popped sz skip pool sb acc (Val (acc @ take (nat (sz - skip)) (drop (sb_offset sb) (bn_data node)), return_free_node pool sb))"
proof -
  obtain sb' pool' where r: "return_free_node pool sb = (sb', pool')" by (cases "return_free_node pool sb")
  have c: "sb_contents sb = drop (sb_offset sb) (bn_data node) @ concat (map bn_data nodes)"
    "nat sz = length (drop (sb_offset sb) (bn_data node))"
    using contents_Cons [OF assms(1,2)] assms(3) by simp_all
  have "nat (sz - skip) \<le> length (drop (sb_offset sb) (bn_data node))" using c(2) assms(4) by simp
  then have "take (nat (sz - skip)) (sb_contents sb) = take (nat (sz - skip)) (drop (sb_offset sb) (bn_data node))"
    unfolding c(1) by simp
  moreover have "sb_contents sb' = drop (nat sz) (sb_contents sb)"
    using return_contents [OF assms(1) r] unfolding c by simp
  moreover have "taken 1 pool sb pool' sb'" using taken_1 [OF _ r] assms(1) by simp
  ultimately show ?thesis unfolding popped_def using return_contents [OF assms(1) r] r by auto
qed

lemma popped_next:
  assumes "sb_nodes sb = node # nodes" "offset_ok sb" "return_free_node pool sb = (sb1, pool1)" "0 \<le> skip"
    and l: "l = int (length (bn_data node)) - int (sb_offset sb)" "l \<le> sz"
    and rest: "popped (sz - l) skip pool1 sb1 (acc @ take (nat (sz - skip)) (drop (sb_offset sb) (bn_data node))) res"
  shows "popped sz skip pool sb acc res"
proof -
  define at where "at = drop (sb_offset sb) (bn_data node)"
  have c: "sb_contents sb = at @ sb_contents sb1" "int (length at) = l"
    using contents_Cons [OF assms(1,2)] return_contents [OF assms(1,3)] l(1) by (simp_all add: at_def)
  have n: "nat (sz - l - skip) = nat (sz - skip) - length at" "nat (sz - l) = nat sz - length at" "length at \<le> nat sz"
    using c(2) l(2) by simp_all
  obtain k sb' pool' where res: "res = Val (acc @ take (nat (sz - skip)) at @ take (nat (sz - skip) - length at) (sb_contents sb1), sb', pool')"
    "sb_contents sb' = drop (nat sz - length at) (sb_contents sb1)" "offset_ok sb'" "taken k pool1 sb1 pool' sb'"
    using rest unfolding popped_def n at_def [symmetric] by auto
  have "taken (Suc k) pool sb pool' sb'" using taken_Suc [OF _ assms(3) res(4)] assms(1) by simp
  moreover have "sb_contents sb' = drop (nat sz) (sb_contents sb)" using res(2) n(3) by (simp add: c(1))
  moreover have "res = Val (acc @ take (nat (sz - skip)) (sb_contents sb), sb', pool')" using res(1) by (simp add: c(1))
  ultimately show ?thesis unfolding popped_def using res(3) by blast
qed

lemma pop_loop_ok:
  "offset_ok sb \<Longrightarrow> sb_nodes sb \<noteq> [] \<Longrightarrow> 0 \<le> sz \<Longrightarrow> 0 \<le> skip \<Longrightarrow> sz \<le> int (length (sb_contents sb)) \<Longrightarrow>
     popped sz skip pool sb acc (pop_loop pool sb sz skip acc)"
proof (induction "sb_nodes sb" arbitrary: pool sb sz acc)
  case (Cons node nodes)
  define l where "l = int (length (bn_data node)) - int (sb_offset sb)"
  define at where "at = drop (sb_offset sb) (bn_data node)"
  note eq = pop_loop.simps [of pool sb sz skip acc, folded Cons.hyps(2), simplified, folded l_def at_def]
  have nodes: "sb_nodes sb = node # nodes" using Cons.hyps(2) by simp
  have c: "sb_contents sb = at @ concat (map bn_data nodes)" "int (length at) = l"
    using contents_Cons [OF nodes Cons.prems(1)] by (simp_all add: at_def l_def)
  have acc: "(if skip < sz then acc @ take (nat (sz - skip)) at else acc) = acc @ take (nat (sz - skip)) at" by simp
  show ?case
  proof (cases "sz \<le> l")
    case True
    show ?thesis
      using popped_inside [OF nodes Cons.prems(1,3,4), folded l_def at_def] popped_node [OF nodes Cons.prems(1) _ Cons.prems(4), folded l_def at_def]
        True unfolding eq by (auto simp: Let_def acc simp del: if_split)
  next
    case False
    obtain sb1 pool1 where r: "return_free_node pool sb = (sb1, pool1)" by (cases "return_free_node pool sb")
    note r1 = return_contents [OF nodes r]
    have more: "sz \<le> l + int (length (sb_contents sb1))" using Cons.prems(5) c r1(1) by simp
    then have "sb_nodes sb1 \<noteq> []" using False contents_Nil [of sb1] by auto
    then have "popped (sz - l) skip pool1 sb1 (acc @ take (nat (sz - skip)) at)
        (pop_loop pool1 sb1 (sz - l) skip (acc @ take (nat (sz - skip)) at))"
      using Cons.hyps(1) [of sb1] r1 Cons.prems(4) more False by simp
    then have "popped sz skip pool sb acc (pop_loop pool1 sb1 (sz - l) skip (acc @ take (nat (sz - skip)) at))"
      using popped_next [OF nodes Cons.prems(1) r Cons.prems(4) l_def _] False unfolding at_def by simp
    moreover have "(if 0 < sz - skip then acc @ take (nat (if sz - skip < l then sz - skip else l)) at else acc) =
        acc @ take (nat (sz - skip)) at" using c(2) by auto
    ultimately show ?thesis using False r unfolding eq by (simp add: Let_def)
  qed
qed simp

lemma pushlstring_ok: "0 \<le> n \<Longrightarrow> n \<le> int (length p) \<Longrightarrow> pushlstring p n = Val (take (nat n) p)"
  by (simp add: pushlstring_def)

lemma pop_lstring_ok:
  assumes "offset_ok sb" "sb_nodes sb \<noteq> []" "0 \<le> skip" "skip \<le> sz" "sz \<le> int (length (sb_contents sb))"
  shows "popped sz skip pool sb [] (pop_lstring pool sb sz skip)"
proof -
  obtain node nodes where nodes: "sb_nodes sb = node # nodes" using assms(2) by (cases "sb_nodes sb") auto
  define l where "l = int (length (bn_data node)) - int (sb_offset sb)"
  define at where "at = drop (sb_offset sb) (bn_data node)"
  have l: "int (length at) = l" using contents_Cons [OF nodes assms(1)] by (simp add: at_def l_def)
  have sz: "0 \<le> sz" using assms(3,4) by simp
  have p: "pushlstring at (sz - skip) = Val (take (nat (sz - skip)) at)" if "sz \<le> l"
    using pushlstring_ok [of "sz - skip" at] assms(3,4) l that by simp
  consider "sz < l" | "sz = l" | "l < sz" by linarith
  then show ?thesis
  proof cases
    case 1
    then show ?thesis using popped_inside [OF nodes assms(1) sz assms(3), folded l_def at_def, of pool "[]"] p
      by (simp add: pop_lstring_def nodes flip: l_def at_def)
  next
    case 2
    then show ?thesis using popped_node [OF nodes assms(1) _ assms(3), folded l_def at_def, of sz pool "[]"] p
      by (simp add: pop_lstring_def nodes flip: l_def at_def)
  next
    case 3
    then have "pop_lstring pool sb sz skip = pop_loop pool sb sz skip []"
      by (simp add: pop_lstring_def nodes flip: l_def)
    then show ?thesis using pop_loop_ok [OF assms(1,2) sz assms(3,5)] by simp
  qed
qed

text \<open>The interface of a byte stream.\<close>

lemma push_contents: "offset_ok sb \<Longrightarrow> sb_contents (sb\<lparr>sb_nodes := sb_nodes sb @ [node], sb_size := n\<rparr>) = sb_contents sb @ bn_data node"
  by (auto simp: sb_contents_def offset_ok_def split: list.splits)

lemma push_offset: "offset_ok sb \<Longrightarrow> offset_ok (sb\<lparr>sb_nodes := sb_nodes sb @ [node], sb_size := n\<rparr>)"
  by (auto simp: offset_ok_def split: list.splits)

lemma size_offset: "offset_ok (sb\<lparr>sb_size := n\<rparr>) = offset_ok sb" "sb_contents (sb\<lparr>sb_size := n\<rparr>) = sb_contents sb"
  by (simp_all add: sb_contents_def offset_ok_def split: list.split)

interpretation lsb: byte_stream
  "\<lambda>s bs. case lpushbuffer (Some (fst s)) (snd s) (Some (0, bs)) of Val (_, t) \<Rightarrow> Some t | _ \<Rightarrow> None"
  "\<lambda>s n. case lpopbuffer (Some (fst s)) (snd s) (int n) of Val ((Some r, _), t) \<Rightarrow> Some (r, t) | _ \<Rightarrow> None"
  "\<lambda>s. nat (sb_size (fst s))"
  "\<lambda>s. offset_ok (fst s) \<and> sb_size (fst s) = int (length (sb_contents (fst s)))"
  "\<lambda>s. sb_contents (fst s)"
proof (unfold_locales, goal_cases push read avail)
  case (push s bs)
  then show ?case by (simp add: lpushbuffer_def Let_def push_contents push_offset)
next
  case (read s n)
  then have "sb_nodes (fst s) \<noteq> []" using contents_Nil [of "fst s"] by auto
  then obtain k sb' pool' where p: "pop_lstring (snd s) (fst s) (int n) 0 = Val (take n (sb_contents (fst s)), sb', pool')"
    "sb_contents sb' = drop n (sb_contents (fst s))" "offset_ok sb'" "taken k (snd s) (fst s) pool' sb'"
    using pop_lstring_ok [of "fst s" 0 "int n" "snd s"] read by (auto simp: popped_def)
  then show ?case using read by (auto simp: lpopbuffer_def need_buffer_def Let_def size_offset taken_def)
next
  case (avail s)
  then show ?case by simp
qed

section \<open>Reading by lines\<close>

text \<open>The index of the first occurrence.\<close>

fun find_sep :: "bytes \<Rightarrow> bytes \<Rightarrow> nat option" where
  "find_sep sep [] = (if sep = [] then Some 0 else None)"
| "find_sep sep (b # bs) = (if take (length sep) (b # bs) = sep then Some 0 else map_option Suc (find_sep sep bs))"

lemma find_sep_Some:
  "find_sep sep bs = Some k \<longleftrightarrow>
     k \<le> length bs \<and> take (length sep) (drop k bs) = sep \<and> (\<forall>j<k. take (length sep) (drop j bs) \<noteq> sep)"
proof (induction bs arbitrary: k)
  case (Cons b bs)
  show ?case by (cases k) (auto simp: Cons less_Suc_eq_0_disj)
qed auto

lemma find_sep_bound: "find_sep sep bs = Some k \<Longrightarrow> k + length sep \<le> length bs"
proof -
  assume f: "find_sep sep bs = Some k"
  then have t: "take (length sep) (drop k bs) = sep" "k \<le> length bs" by (simp_all add: find_sep_Some)
  have "length (take (length sep) (drop k bs)) = length sep" by (simp only: t(1))
  then show ?thesis using t(2) by simp
qed

lemma find_sep_short: "length bs < length sep \<Longrightarrow> find_sep sep bs = None"
  using find_sep_bound [of sep bs] by (cases "find_sep sep bs") auto

lemma check_sep_ok:
  "nodes \<noteq> [] \<Longrightarrow> f \<le> length (bn_data (hd nodes)) \<Longrightarrow> length sep \<le> length (drop f (concat (map bn_data nodes))) \<Longrightarrow>
     check_sep nodes (int f) sep = Some (take (length sep) (drop f (concat (map bn_data nodes))) = sep)"
proof (induction nodes arbitrary: f sep)
  case (Cons node nodes)
  define at where "at = drop f (bn_data node)"
  define R where "R = concat (map bn_data nodes)"
  have sz: "int (length (bn_data node)) - int f = int (length at)" using Cons.prems(2) by (simp add: at_def)
  have C: "drop f (concat (map bn_data (node # nodes))) = at @ R" using Cons.prems(2) by (simp add: at_def R_def)
  have eq: "check_sep (node # nodes) (int f) sep =
      (if length sep \<le> length at then Some (take (length sep) at = sep)
       else if at \<noteq> [] \<and> at \<noteq> take (length at) sep then Some False
       else check_sep nodes 0 (drop (length at) sep))"
    by (simp add: sz Let_def flip: at_def)
  show ?case
  proof (cases "length sep \<le> length at")
    case True
    then show ?thesis unfolding eq C by simp
  next
    case False
    have len: "length sep \<le> length at + length R" using Cons.prems(3) unfolding C by simp
    have ne: "nodes \<noteq> []" using False len by (auto simp: R_def)
    have rec: "check_sep nodes 0 (drop (length at) sep) = Some (take (length sep - length at) R = drop (length at) sep)"
      using Cons.IH [OF ne, of 0 "drop (length at) sep"] len by (simp add: R_def)
    have "take (length sep) (at @ R) = sep \<longleftrightarrow> at = take (length at) sep \<and> take (length sep - length at) R = drop (length at) sep"
      using False append_eq_conv_conj [of at "take (length sep - length at) R" sep] by auto
    then show ?thesis using False rec unfolding eq C by auto
  qed
qed simp

lemma readline_loop_ok:
  "nodes \<noteq> [] \<Longrightarrow> list_all (\<lambda>n. bn_data n \<noteq> []) nodes \<Longrightarrow> f < length (bn_data (hd nodes)) \<Longrightarrow>
     C = drop f (concat (map bn_data nodes)) \<Longrightarrow>
     readline_loop nodes (int f) (int (length (bn_data (hd nodes))) - int f) i (i + int (length C)) sep =
       Some (map_option (\<lambda>k. i + int k) (find_sep sep C))"
proof (induction C arbitrary: nodes f i)
  case Nil
  then show ?case by (cases nodes) auto
next
  case (Cons c C)
  define len where "len = i + int (length (c # C))"
  define l where "l = int (length (bn_data (hd nodes))) - int f"
  obtain node rest where nodes: "nodes = node # rest" using Cons.prems(1) by (cases nodes) auto
  note eq = readline_loop.simps [of nodes "int f" l i len sep]
  have C: "c # C = drop f (bn_data node) @ concat (map bn_data rest)" using Cons.prems(3,4) by (simp add: nodes)
  have "readline_loop nodes (int f) l i len sep = Some (map_option (\<lambda>k. i + int k) (find_sep sep (c # C)))"
  proof (cases "i > len - int (length sep)")
    case True
    then have "length (c # C) < length sep" by (simp add: len_def)
    then show ?thesis using True find_sep_short [of "c # C" sep] unfolding eq by simp
  next
    case False
    then have "length sep \<le> length (c # C)" by (simp add: len_def)
    then have chk: "check_sep nodes (int f) sep = Some (take (length sep) (c # C) = sep)"
      using check_sep_ok [OF Cons.prems(1), of f sep] Cons.prems(3,4) by simp
    show ?thesis
    proof (cases "take (length sep) (c # C) = sep")
      case True
      then show ?thesis using False chk unfolding eq by simp
    next
      case no: False
      then have "sep \<noteq> []" by auto
      have find: "map_option (\<lambda>k. i + int k) (find_sep sep (c # C)) = map_option (\<lambda>k. (i + 1) + int k) (find_sep sep C)"
        using no by (cases "find_sep sep C") auto
      have len': "len = (i + 1) + int (length C)" by (simp add: len_def)
      show ?thesis
      proof (cases "l - 1 = 0")
        case True
        then have f: "Suc f = length (bn_data node)" by (simp add: l_def nodes)
        then have "length (drop f (bn_data node)) = 1" by simp
        then have C': "C = concat (map bn_data rest)" using C by (cases "drop f (bn_data node)") auto
        show ?thesis
        proof (cases rest)
          case Nil
          then have "tl nodes = []" "find_sep sep C = None" using C' \<open>sep \<noteq> []\<close> by (simp_all add: nodes)
          then show ?thesis using False no chk True unfolding eq find by (simp del: check_sep.simps)
        next
          case (Cons node' rest')
          have "readline_loop rest (int 0) (int (length (bn_data (hd rest))) - int 0) (i + 1) len sep =
              Some (map_option (\<lambda>k. (i + 1) + int k) (find_sep sep C))"
            unfolding len' by (rule Cons.IH) (use Cons.prems(2) C' nodes local.Cons in auto)
          then show ?thesis using False no chk True unfolding eq find by (simp add: nodes local.Cons)
        qed
      next
        case more: False
        then have f: "Suc f < length (bn_data node)" using Cons.prems(3) by (simp add: l_def nodes)
        then have C': "C = drop (Suc f) (concat (map bn_data nodes))" using Cons.prems(4) by (simp add: drop_Suc tl_drop [symmetric] flip: Cons.prems(4))
        have "readline_loop nodes (int (Suc f)) (int (length (bn_data (hd nodes))) - int (Suc f)) (i + 1) len sep =
            Some (map_option (\<lambda>k. (i + 1) + int k) (find_sep sep C))"
          unfolding len' by (rule Cons.IH) (use Cons.prems(1,2) C' f nodes in auto)
        moreover have "int (length (bn_data (hd nodes))) - int (Suc f) = l - 1" "int (Suc f) = int f + 1" by (simp_all add: l_def)
        ultimately have "readline_loop nodes (int f + 1) (l - 1) (i + 1) len sep =
            Some (map_option (\<lambda>k. (i + 1) + int k) (find_sep sep C))" by (simp only:)
        then show ?thesis using False no chk more unfolding eq find by simp
      qed
    qed
  qed
  then show ?case unfolding len_def l_def .
qed

section \<open>Histories of a buffer\<close>

text \<open>What a service does with a buffer, and what it gets.\<close>

datatype buffer_op = Op_push nat bytes | Op_pop nat | Op_line bytes | Op_check bytes | Op_all | Op_clear

datatype buffer_result = Size int | Popped "bytes option" int | Line_result line_result | All bytes | Cleared

fun buffer_step ::
  "buffer_op \<Rightarrow> socket_buffer \<Rightarrow> buffer_pool \<Rightarrow> (buffer_result \<times> socket_buffer \<times> buffer_pool) lua_result" where
  "buffer_step (Op_push a data) sb pool = lua_bind (lpushbuffer (Some sb) pool (Some (a, data))) (\<lambda>(n, s). Val (Size n, s))"
| "buffer_step (Op_pop n) sb pool = lua_bind (lpopbuffer (Some sb) pool (int n)) (\<lambda>((r, m), s). Val (Popped r m, s))"
| "buffer_step (Op_line sep) sb pool = lua_bind (lreadline (Some sb) pool False sep) (\<lambda>(r, s). Val (Line_result r, s))"
| "buffer_step (Op_check sep) sb pool = lua_bind (lreadline (Some sb) pool True sep) (\<lambda>(r, s). Val (Line_result r, s))"
| "buffer_step Op_all sb pool = lua_bind (lreadall (Some sb) pool) (\<lambda>(r, s). Val (All r, s))"
| "buffer_step Op_clear sb pool = lua_bind (lclearbuffer (Some sb) pool) (\<lambda>s. Val (Cleared, s))"

fun buffer_run ::
  "buffer_op list \<Rightarrow> socket_buffer \<Rightarrow> buffer_pool \<Rightarrow> (buffer_result list \<times> socket_buffer \<times> buffer_pool) lua_result" where
  "buffer_run [] sb pool = Val ([], sb, pool)"
| "buffer_run (op # ops) sb pool =
     lua_bind (buffer_step op sb pool) (\<lambda>(r, sb, pool). lua_bind (buffer_run ops sb pool) (\<lambda>(rs, s). Val (r # rs, s)))"

text \<open>The specification: a string of bytes.\<close>

fun line_spec :: "bytes \<Rightarrow> bytes \<Rightarrow> nat option" where
  "line_spec sep bs = (if bs = [] then None else find_sep sep bs)"

fun buffer_spec :: "buffer_op \<Rightarrow> bytes \<Rightarrow> buffer_result \<times> bytes" where
  "buffer_spec (Op_push a data) bs = (Size (int (length (bs @ data))), bs @ data)"
| "buffer_spec (Op_pop n) bs =
     (if n = 0 \<or> length bs < n then (Popped None (int (length bs)), bs)
      else (Popped (Some (take n bs)) (int (length bs - n)), drop n bs))"
| "buffer_spec (Op_line sep) bs =
     (case line_spec sep bs of None \<Rightarrow> (Line_result No_line, bs)
      | Some k \<Rightarrow> (Line_result (Line (take k bs)), drop (k + length sep) bs))"
| "buffer_spec (Op_check sep) bs = (Line_result (if line_spec sep bs = None then No_line else Has_line), bs)"
| "buffer_spec Op_all bs = (All bs, [])"
| "buffer_spec Op_clear bs = (Cleared, [])"

fun specs_run :: "buffer_op list \<Rightarrow> bytes \<Rightarrow> buffer_result list \<times> bytes" where
  "specs_run [] bs = ([], bs)"
| "specs_run (op # ops) bs = (let (r, bs) = buffer_spec op bs; (rs, bs) = specs_run ops bs in (r # rs, bs))"

fun pushed :: "buffer_op \<Rightarrow> nat list" where
  "pushed (Op_push a data) = [a]"
| "pushed op = []"

text \<open>
  The buffer holds \<open>bs\<close>; no node of it is free or in one of the other buffers, whose nodes are \<open>others\<close>; the
  messages \<open>ms\<close> were pushed, and each was freed or is still in a node.
\<close>

definition buffer_holds :: "nat list \<Rightarrow> socket_buffer \<Rightarrow> buffer_pool \<Rightarrow> bytes \<Rightarrow> nat list \<Rightarrow> bool" where
  "buffer_holds others sb pool bs ms \<longleftrightarrow>
     sb_contents sb = bs \<and> sb_size sb = int (length bs) \<and> offset_ok sb \<and> list_all (\<lambda>n. bn_data n \<noteq> []) (sb_nodes sb) \<and>
     distinct (others @ map bn_id (sb_nodes sb) @ bp_free pool) \<and>
     (\<forall>x\<in>set (others @ map bn_id (sb_nodes sb) @ bp_free pool). x < sum_list (bp_chunks pool)) \<and>
     bp_freed pool @ map bn_msg (sb_nodes sb) = ms"

lemma holds_taken:
  assumes "buffer_holds others sb pool bs ms" "taken k pool sb pool' sb'" "offset_ok sb'"
  shows "buffer_holds others (sb'\<lparr>sb_size := int (length (sb_contents sb'))\<rparr>) pool' (sb_contents sb') ms"
proof -
  define a where "a = take k (sb_nodes sb)"
  define b where "b = drop k (sb_nodes sb)"
  have ab: "sb_nodes sb = a @ b" by (simp add: a_def b_def)
  have t: "sb_nodes sb' = b" "bp_freed pool' = bp_freed pool @ map bn_msg a" "bp_free pool' = rev (map bn_id a) @ bp_free pool"
    "bp_chunks pool' = bp_chunks pool" using assms(2) by (simp_all add: taken_def a_def b_def)
  show ?thesis using assms(1,3) by (auto simp: buffer_holds_def t ab size_offset)
qed

lemma nonempty_nodes: "buffer_holds others sb pool bs ms \<Longrightarrow> bs \<noteq> [] \<longleftrightarrow> sb_nodes sb \<noteq> []"
proof -
  assume h: "buffer_holds others sb pool bs ms"
  show ?thesis
  proof (cases "sb_nodes sb")
    case Nil
    then show ?thesis using h contents_Nil by (auto simp: buffer_holds_def)
  next
    case (Cons node nodes)
    have "offset_ok sb" "bn_data node \<noteq> []" "sb_contents sb = bs" using h Cons by (auto simp: buffer_holds_def)
    then show ?thesis using contents_Cons(1) [OF Cons] Cons by (auto simp: offset_ok_def)
  qed
qed

lemma nodes_offset: "buffer_holds others sb pool bs ms \<Longrightarrow> sb_nodes sb \<noteq> [] \<Longrightarrow> sb_offset sb < length (bn_data (hd (sb_nodes sb)))"
  by (cases "sb_nodes sb") (auto simp: buffer_holds_def offset_ok_def)

lemma chunk_size_pos: "0 < chunk_size pool"
  by (simp add: chunk_size_def Let_def push_bit_eq_mult)

text \<open>There is a free node, after a new chunk if need be.\<close>

lemma free_node:
  assumes "distinct (used @ bp_free pool)" "\<forall>x\<in>set (used @ bp_free pool). x < sum_list (bp_chunks pool)"
    and "pool1 = (if bp_free pool = [] then lnewpool pool (chunk_size pool) else pool)"
  shows "bp_free pool1 \<noteq> []" "distinct (used @ bp_free pool1)"
    "\<forall>x\<in>set (used @ bp_free pool1). x < sum_list (bp_chunks pool1)" "bp_freed pool1 = bp_freed pool"
proof -
  have u: "x < sum_list (bp_chunks pool)" if "x \<in> set used" for x using assms(2) that by simp
  have new: "set [sum_list (bp_chunks pool)..<sum_list (bp_chunks pool) + chunk_size pool] \<inter> set used = {}"
    by (auto dest!: u)
  have "x < sum_list (bp_chunks pool) + chunk_size pool" if "x \<in> set used" for x using u [OF that] by simp
  note new = new this
  show "bp_free pool1 \<noteq> []" "distinct (used @ bp_free pool1)"
    "\<forall>x\<in>set (used @ bp_free pool1). x < sum_list (bp_chunks pool1)" "bp_freed pool1 = bp_freed pool"
    using assms new chunk_size_pos [of pool] by (auto simp: lnewpool_def)
qed

lemma push_holds:
  assumes "buffer_holds others sb pool bs ms" "data \<noteq> []"
  shows "\<exists>sb' pool'. buffer_step (Op_push a data) sb pool = Val (Size (int (length (bs @ data))), sb', pool') \<and>
    buffer_holds others sb' pool' (bs @ data) (ms @ [a])"
proof -
  define pool1 where "pool1 = (if bp_free pool = [] then lnewpool pool (chunk_size pool) else pool)"
  define used where "used = others @ map bn_id (sb_nodes sb)"
  have h: "distinct (used @ bp_free pool)" "\<forall>x\<in>set (used @ bp_free pool). x < sum_list (bp_chunks pool)"
    "sb_contents sb = bs" "sb_size sb = int (length bs)" "offset_ok sb" "list_all (\<lambda>n. bn_data n \<noteq> []) (sb_nodes sb)"
    "bp_freed pool @ map bn_msg (sb_nodes sb) = ms" using assms(1) by (simp_all add: buffer_holds_def used_def)
  note f = free_node [OF h(1,2) pool1_def]
  obtain x xs where x: "bp_free pool1 = x # xs" using f(1) by (cases "bp_free pool1") auto
  define sb' where "sb' = sb\<lparr>sb_nodes := sb_nodes sb @ [\<lparr>bn_id = x, bn_msg = a, bn_data = data\<rparr>], sb_size := sb_size sb + int (length data)\<rparr>"
  have "buffer_step (Op_push a data) sb pool = Val (Size (int (length (bs @ data))), sb', pool1\<lparr>bp_free := xs\<rparr>)"
    by (simp add: lpushbuffer_def Let_def x sb'_def h(4) flip: pool1_def)
  moreover have "sb_contents sb' = bs @ data" "offset_ok sb'"
    using h(3,5) by (simp_all add: sb'_def push_contents push_offset)
  moreover have "distinct (others @ map bn_id (sb_nodes sb') @ xs)" using f(2) by (auto simp: x sb'_def used_def)
  moreover have "\<forall>y\<in>set (others @ map bn_id (sb_nodes sb') @ xs). y < sum_list (bp_chunks pool1)"
    using f(3) by (auto simp: x sb'_def used_def)
  ultimately show ?thesis using h(4,6,7) f(4) assms(2) by (auto simp: buffer_holds_def sb'_def)
qed

lemma pop_holds:
  assumes "buffer_holds others sb pool bs ms"
  shows "\<exists>sb' pool'. buffer_step (Op_pop n) sb pool = Val (fst (buffer_spec (Op_pop n) bs), sb', pool') \<and>
    buffer_holds others sb' pool' (snd (buffer_spec (Op_pop n) bs)) ms"
proof (cases "n = 0 \<or> length bs < n")
  case True
  then show ?thesis using assms by (auto simp: lpopbuffer_def need_buffer_def buffer_holds_def)
next
  case False
  have h: "offset_ok sb" "sb_contents sb = bs" "sb_size sb = int (length bs)" using assms by (simp_all add: buffer_holds_def)
  have "sb_nodes sb \<noteq> []" using False nonempty_nodes [OF assms] by auto
  then have "popped (int n) 0 pool sb [] (pop_lstring pool sb (int n) 0)" using pop_lstring_ok [of sb 0 "int n"] h False by simp
  then obtain k sb' pool' where p: "pop_lstring pool sb (int n) 0 = Val (take n bs, sb', pool')" "sb_contents sb' = drop n bs"
    "offset_ok sb'" "taken k pool sb pool' sb'" by (auto simp: popped_def h(2))
  have left: "sb_size sb' - int n = int (length (drop n bs))" using p(4) h(3) False by (simp add: taken_def)
  have "buffer_step (Op_pop n) sb pool =
      Val (Popped (Some (take n bs)) (int (length (drop n bs))), sb'\<lparr>sb_size := int (length (sb_contents sb'))\<rparr>, pool')"
    using False h(3) by (simp add: lpopbuffer_def need_buffer_def p(1,2) Let_def left [simplified])
  then show ?thesis using holds_taken [OF assms p(4,3)] False by (simp add: p(2))
qed

lemma line_index:
  assumes "buffer_holds others sb pool bs ms"
  shows "bs = [] \<Longrightarrow> lreadline (Some sb) pool check sep = Val (No_line, sb, pool)"
    and "bs \<noteq> [] \<Longrightarrow> find_sep sep bs = None \<Longrightarrow> lreadline (Some sb) pool check sep = Val (No_line, sb, pool)"
    and "bs \<noteq> [] \<Longrightarrow> find_sep sep bs = Some k \<Longrightarrow> lreadline (Some sb) pool check sep =
      (if check then Val (Has_line, sb, pool)
       else lua_bind (pop_lstring pool sb (int (k + length sep)) (int (length sep))) (\<lambda>(s, sb, pool).
         Val (Line s, sb\<lparr>sb_size := sb_size sb - int (k + length sep)\<rparr>, pool)))"
proof -
  show "lreadline (Some sb) pool check sep = Val (No_line, sb, pool)" if "bs = []"
    using nonempty_nodes [OF assms] that by (simp add: lreadline_def need_buffer_def)
  assume ne: "bs \<noteq> []"
  then obtain node nodes where n: "sb_nodes sb = node # nodes" using nonempty_nodes [OF assms] by (cases "sb_nodes sb") auto
  have h: "list_all (\<lambda>n. bn_data n \<noteq> []) (sb_nodes sb)" "sb_size sb = int (length bs)"
    "bs = drop (sb_offset sb) (concat (map bn_data (sb_nodes sb)))" using assms by (auto simp: buffer_holds_def sb_contents_def)
  have loop: "readline_loop (node # nodes) (int (sb_offset sb)) (int (length (bn_data node)) - int (sb_offset sb)) 0 (int (length bs)) sep =
      Some (map_option int (find_sep sep bs))"
    using readline_loop_ok [of "sb_nodes sb" "sb_offset sb" bs 0 sep] h nodes_offset [OF assms] by (simp add: n)
  show "find_sep sep bs = None \<Longrightarrow> lreadline (Some sb) pool check sep = Val (No_line, sb, pool)"
    using loop by (simp add: lreadline_def need_buffer_def n h(2))
  show "find_sep sep bs = Some k \<Longrightarrow> lreadline (Some sb) pool check sep =
      (if check then Val (Has_line, sb, pool)
       else lua_bind (pop_lstring pool sb (int (k + length sep)) (int (length sep))) (\<lambda>(s, sb, pool).
         Val (Line s, sb\<lparr>sb_size := sb_size sb - int (k + length sep)\<rparr>, pool)))"
    using loop by (simp add: lreadline_def need_buffer_def n h(2))
qed

lemma line_holds:
  assumes "buffer_holds others sb pool bs ms"
  shows "\<exists>sb' pool'. buffer_step (Op_line sep) sb pool = Val (fst (buffer_spec (Op_line sep) bs), sb', pool') \<and>
    buffer_holds others sb' pool' (snd (buffer_spec (Op_line sep) bs)) ms"
proof (cases "line_spec sep bs")
  case None
  then show ?thesis using line_index(1,2) [OF assms, where check = False and sep = sep] assms by (auto split: if_splits)
next
  case (Some k)
  then have k: "bs \<noteq> []" "find_sep sep bs = Some k" by (auto split: if_splits)
  have h: "offset_ok sb" "sb_contents sb = bs" "sb_size sb = int (length bs)" using assms by (simp_all add: buffer_holds_def)
  have le: "k + length sep \<le> length bs" by (rule find_sep_bound [OF k(2)])
  have "popped (int (k + length sep)) (int (length sep)) pool sb [] (pop_lstring pool sb (int (k + length sep)) (int (length sep)))"
    using pop_lstring_ok [of sb "int (length sep)" "int (k + length sep)"] h nonempty_nodes [OF assms] k(1) le by simp
  then obtain j sb' pool' where p: "pop_lstring pool sb (int (k + length sep)) (int (length sep)) = Val (take k bs, sb', pool')"
    "sb_contents sb' = drop (k + length sep) bs" "offset_ok sb'" "taken j pool sb pool' sb'"
    by (auto simp: popped_def h(2) simp del: of_nat_add) (metis add_diff_cancel_right' nat_int of_nat_add)
  have left: "sb_size sb' - int (k + length sep) = int (length (sb_contents sb'))" using p(2,4) h(3) le by (simp add: taken_def)
  have "buffer_step (Op_line sep) sb pool = Val (Line_result (Line (take k bs)), sb'\<lparr>sb_size := int (length (sb_contents sb'))\<rparr>, pool')"
    using line_index(3) [OF assms k, where check = False] by (simp add: p(1) left del: of_nat_add)
  then show ?thesis using holds_taken [OF assms p(4,3)] Some by (simp add: p(2) del: line_spec.simps)
qed

lemma check_holds:
  assumes "buffer_holds others sb pool bs ms"
  shows "\<exists>sb' pool'. buffer_step (Op_check sep) sb pool = Val (fst (buffer_spec (Op_check sep) bs), sb', pool') \<and>
    buffer_holds others sb' pool' (snd (buffer_spec (Op_check sep) bs)) ms"
  using line_index [OF assms, where check = True and sep = sep] assms by (cases "bs = []"; cases "find_sep sep bs") auto

lemma readall_loop_ok:
  "\<exists>sb' pool'. readall_loop pool sb acc = (acc @ sb_contents sb, sb', pool') \<and> sb_contents sb' = [] \<and> offset_ok sb' \<and>
     taken (length (sb_nodes sb)) pool sb pool' sb'" if "offset_ok sb"
  using that
proof (induction "sb_nodes sb" arbitrary: pool sb acc)
  case Nil
  then show ?case by (auto simp: readall_loop.simps [of pool sb] sb_contents_def taken_def)
next
  case (Cons node nodes)
  have nodes: "sb_nodes sb = node # nodes" using Cons.hyps(2) by simp
  obtain sb1 pool1 where r: "return_free_node pool sb = (sb1, pool1)" by (cases "return_free_node pool sb")
  note r1 = return_contents [OF nodes r]
  obtain sb' pool' where ih: "readall_loop pool1 sb1 (acc @ drop (sb_offset sb) (bn_data node)) =
      ((acc @ drop (sb_offset sb) (bn_data node)) @ sb_contents sb1, sb', pool')" "sb_contents sb' = []" "offset_ok sb'"
    "taken (length (sb_nodes sb1)) pool1 sb1 pool' sb'"
    using Cons.hyps(1) [of sb1] r1 by blast
  have "readall_loop pool sb acc = (acc @ sb_contents sb, sb', pool')"
    using ih(1) r contents_Cons(1) [OF nodes Cons.prems] r1(1) by (simp add: readall_loop.simps [of pool sb] nodes)
  then show ?case using ih taken_Suc [OF _ r ih(4)] r1(3) nodes by auto
qed

lemma clear_nodes_readall: "clear_nodes pool sb = snd (readall_loop pool sb acc)"
proof (induction "sb_nodes sb" arbitrary: pool sb acc)
  case Nil
  then show ?case by (simp add: readall_loop.simps [of pool sb] clear_nodes.simps [of pool sb])
next
  case (Cons node nodes)
  have nodes: "sb_nodes sb = node # nodes" using Cons.hyps(2) by simp
  obtain sb1 pool1 where r: "return_free_node pool sb = (sb1, pool1)" by (cases "return_free_node pool sb")
  show ?case using Cons.hyps(1) [of sb1] return_contents(3) [OF nodes r]
    by (simp add: readall_loop.simps [of pool sb] clear_nodes.simps [of pool sb] nodes r)
qed

lemma all_holds:
  assumes "buffer_holds others sb pool bs ms"
  shows "\<exists>sb' pool'. buffer_step Op_all sb pool = Val (All bs, sb', pool') \<and> buffer_holds others sb' pool' [] ms"
    and "\<exists>sb' pool'. buffer_step Op_clear sb pool = Val (Cleared, sb', pool') \<and> buffer_holds others sb' pool' [] ms"
proof -
  have h: "offset_ok sb" "sb_contents sb = bs" using assms by (simp_all add: buffer_holds_def)
  obtain sb' pool' where r: "readall_loop pool sb [] = (bs, sb', pool')" "sb_contents sb' = []" "offset_ok sb'"
    "taken (length (sb_nodes sb)) pool sb pool' sb'" using readall_loop_ok [OF h(1), of pool "[]"] h(2) by auto
  have "buffer_holds others (sb'\<lparr>sb_size := 0\<rparr>) pool' [] ms" using holds_taken [OF assms r(4,3)] r(2) by simp
  moreover have "clear_nodes pool sb = (sb', pool')" using clear_nodes_readall [of pool sb "[]"] r(1) by simp
  ultimately show "\<exists>sb' pool'. buffer_step Op_all sb pool = Val (All bs, sb', pool') \<and> buffer_holds others sb' pool' [] ms"
    "\<exists>sb' pool'. buffer_step Op_clear sb pool = Val (Cleared, sb', pool') \<and> buffer_holds others sb' pool' [] ms"
    using r(1) by (auto simp: lreadall_def lclearbuffer_def need_buffer_def)
qed

text \<open>Each operation follows the specification.\<close>

lemma step_holds:
  assumes "buffer_holds others sb pool bs ms" "\<forall>a data. op = Op_push a data \<longrightarrow> data \<noteq> []"
  shows "\<exists>sb' pool'. buffer_step op sb pool = Val (fst (buffer_spec op bs), sb', pool') \<and>
    buffer_holds others sb' pool' (snd (buffer_spec op bs)) (ms @ pushed op)"
proof (cases op)
  case (Op_push a data)
  then show ?thesis using push_holds [OF assms(1), of data a] assms(2) by simp
next
  case (Op_pop n)
  then show ?thesis using pop_holds [OF assms(1), of n] by (simp del: buffer_step.simps buffer_spec.simps)
next
  case (Op_line sep)
  then show ?thesis using line_holds [OF assms(1), of sep] by (simp del: buffer_step.simps buffer_spec.simps)
next
  case (Op_check sep)
  then show ?thesis using check_holds [OF assms(1), of sep] by (simp del: buffer_step.simps buffer_spec.simps)
next
  case Op_all
  then show ?thesis using all_holds(1) [OF assms(1)] by (simp del: buffer_step.simps)
next
  case Op_clear
  then show ?thesis using all_holds(2) [OF assms(1)] by (simp del: buffer_step.simps)
qed

lemma run_holds:
  "buffer_holds others sb pool bs ms \<Longrightarrow> \<forall>a data. Op_push a data \<in> set ops \<longrightarrow> data \<noteq> [] \<Longrightarrow>
     \<exists>sb' pool'. buffer_run ops sb pool = Val (fst (specs_run ops bs), sb', pool') \<and>
       buffer_holds others sb' pool' (snd (specs_run ops bs)) (ms @ concat (map pushed ops))"
proof (induction ops arbitrary: sb pool bs ms)
  case (Cons op ops)
  obtain sb1 pool1 where s: "buffer_step op sb pool = Val (fst (buffer_spec op bs), sb1, pool1)"
    "buffer_holds others sb1 pool1 (snd (buffer_spec op bs)) (ms @ pushed op)"
    using step_holds [OF Cons.prems(1), of op] Cons.prems(2) by auto
  obtain sb' pool' where r: "buffer_run ops sb1 pool1 = Val (fst (specs_run ops (snd (buffer_spec op bs))), sb', pool')"
    "buffer_holds others sb' pool' (snd (specs_run ops (snd (buffer_spec op bs)))) ((ms @ pushed op) @ concat (map pushed ops))"
    using Cons.IH [OF s(2)] Cons.prems(2) by auto
  then show ?case using s(1) by (auto simp: split_beta Let_def simp del: buffer_step.simps buffer_spec.simps)
qed simp

text \<open>C21: the buffer of a socket is a string of bytes. Over every history of pushed messages, reads by size and by
  line, checks for a line, and reads of everything, on a new buffer, no read goes beyond a message, and each result is
  the one that the specification gives on the bytes; a separator is found at its first occurrence, also when it
  lies across messages. Each message is freed once, in order, when its last byte was read; no node is shared with
  another buffer of the pool.\<close>

theorem socket_buffer_is_string:
  assumes "\<forall>a data. Op_push a data \<in> set ops \<longrightarrow> data \<noteq> []"
    and "distinct (others @ bp_free pool)" "\<forall>x\<in>set (others @ bp_free pool). x < sum_list (bp_chunks pool)" "bp_freed pool = []"
  shows "\<exists>sb pool'. buffer_run ops lnewbuffer pool = Val (fst (specs_run ops []), sb, pool') \<and>
    sb_contents sb = snd (specs_run ops []) \<and> bp_freed pool' @ map bn_msg (sb_nodes sb) = concat (map pushed ops) \<and>
    distinct (others @ map bn_id (sb_nodes sb) @ bp_free pool')"
proof -
  have "buffer_holds others lnewbuffer pool [] []"
    using assms(2-4) by (simp add: buffer_holds_def lnewbuffer_def sb_contents_def offset_ok_def)
  from run_holds [OF this assms(1)] show ?thesis by (auto simp: buffer_holds_def)
qed

definition empty_pool :: buffer_pool where
  "empty_pool = \<lparr>bp_free = [], bp_chunks = [], bp_freed = []\<rparr>"

definition example_ops :: "buffer_op list" where
  "example_ops = [Op_push 7 [104, 105, 13], Op_line [13, 10], Op_push 8 [10, 97], Op_line [13, 10], Op_pop 1]"

theorem socket_buffer_is_string_witness:
  "\<exists>sb pool'. buffer_run example_ops lnewbuffer empty_pool =
      Val ([Size 3, Line_result No_line, Size 5, Line_result (Line [104, 105]), Popped (Some [97]) 0], sb, pool') \<and>
    bp_freed pool' @ map bn_msg (sb_nodes sb) = [7, 8]"
proof -
  have "\<forall>a data. Op_push a data \<in> set example_ops \<longrightarrow> data \<noteq> []" by (simp add: example_ops_def)
  moreover have "fst (specs_run example_ops []) =
      [Size 3, Line_result No_line, Size 5, Line_result (Line [104, 105]), Popped (Some [97]) 0]"
    "concat (map pushed example_ops) = [7, 8]" by (simp_all add: example_ops_def)
  ultimately show ?thesis using socket_buffer_is_string [of example_ops "[]" empty_pool] by (auto simp: empty_pool_def)
qed

section \<open>Headers and addresses\<close>

lemma header_fold: "int (foldl (\<lambda>sz c. push_bit 8 sz OR of_char c) (0::nat) s) = int (be_nat (map of_char s))"
proof (induction s rule: rev_induct)
  case (snoc c s)
  have "of_char c < (256::nat)" by simp
  then have "take_bit 8 (of_char c :: nat) = of_char c" by (simp add: take_bit_nat_eq_self)
  moreover have "push_bit 8 n OR take_bit 8 m = n * 256 + take_bit 8 m" for n m :: nat
  proof -
    have "push_bit 8 n AND take_bit 8 m = 0" by (auto simp: bit_eq_iff bit_simps)
    then show ?thesis by (simp add: disjunctive_add_eq_or [symmetric] push_bit_eq_mult)
  qed
  ultimately have "push_bit 8 n OR (of_char c :: nat) = n * 256 + of_char c" for n by metis
  moreover have "unat (of_char c :: u8) = of_char c" using unat_byte [of "of_char c"] by (simp add: of_nat_of_char)
  ultimately show ?case using snoc by simp
qed (simp add: be_nat_def)

lemma lheader_value: "s \<noteq> [] \<Longrightarrow> length s \<le> 4 \<Longrightarrow> lheader s = Val (int (be_nat (map of_char s)))"
  using header_fold [of s] by (cases s) (auto simp: lheader_def)

lemma strtoul10_fmt_u: "n < 2 ^ 64 \<Longrightarrow> strtoul10 (fmt_u n) = n"
  using plain_scan(1) [OF radix_plain [of 10 n]] by (simp add: strtoul10_def fmt_u_def scan_radix)

lemma strchr_append: "c \<notin> set s \<Longrightarrow> strchr (s @ c # t) c = Some (c # t)"
  by (simp add: strchr_def dropWhile_append)

lemma strchr_None: "c \<notin> set s \<Longrightarrow> strchr s c = None"
  by (induction s) (auto simp: strchr_def)

text \<open>An address with its port is taken apart as it was written.\<close>

lemma address_port_ipv4:
  assumes "CHR '':'' \<notin> set host" "CHR ''['' \<notin> set (host @ fmt_u p)" "p < 2 ^ 31"
  shows "address_port (host @ '':'' @ fmt_u p) None = Val (host, int p)"
proof -
  have "strchr (host @ CHR '':'' # fmt_u p) (CHR ''['') = None" using assms(2) by (intro strchr_None) auto
  then show ?thesis using strchr_append [OF assms(1), of "fmt_u p"] assms(3)
    by (simp add: address_port_def strtoul10_fmt_u to_int32_small)
qed

lemma address_port_ipv6:
  assumes "CHR '']'' \<notin> set host" "p < 2 ^ 31"
  shows "address_port (''['' @ host @ '']:'' @ fmt_u p) None = Val (host, int p)"
proof -
  have "strchr (''['' @ host @ '']:'' @ fmt_u p) (CHR ''['') = Some (''['' @ host @ '']:'' @ fmt_u p)" by (simp add: strchr_def)
  moreover have "strchr (''['' @ host @ '']:'' @ fmt_u p) (CHR '']'') = Some ('']:'' @ fmt_u p)"
    using strchr_append [of "CHR '']''" "''['' @ host" "'':'' @ fmt_u p"] assms(1) by simp
  moreover have "strchr ('':'' @ fmt_u p) (CHR '':'') = Some ('':'' @ fmt_u p)" by (simp add: strchr_def)
  ultimately show ?thesis using assms(2) by (simp add: address_port_def strtoul10_fmt_u to_int32_small)
qed

end
