(* ===== verification/SkynetSocket.thy ===== *)
theory SkynetSocket
  imports ServerProps SocketServer Bytes
begin

text \<open>
  \<open>skynet-src/skynet_socket.c\<close>: the socket thread takes the events of the socket server and sends each to the
  service that owns the socket; the services call the socket server with their handle.

  \<open>struct skynet_socket_message\<close> is 24 bytes on the heap of the node: three \<open>int\<close>s, 4 bytes that are not used (0
  here) and a pointer. The data of an event, which the socket server allocated, becomes an object of the
  heap when the event is taken. \<open>SOCKET_SERVER\<close> is the argument \<open>ss\<close> (an assertion fails without it).
\<close>

definition skynet_socket_init :: "netio \<Rightarrow> soi \<Rightarrow> (nat \<Rightarrow> socket) \<Rightarrow> (netio \<times> socket_server option) run" where
  "skynet_socket_init io soi fresh = socket_server_create io soi fresh"

definition skynet_socket_exit :: "socket_server \<Rightarrow> socket_server" where
  "skynet_socket_exit ss = socket_server_exit ss"

definition skynet_socket_free :: "netio \<Rightarrow> int \<Rightarrow> socket_server \<Rightarrow> netio run" where
  "skynet_socket_free io event_fd ss = socket_server_release io event_fd ss"

section \<open>Events\<close>

definition le_int :: "int \<Rightarrow> bytes" where
  "le_int i = le_bytes 4 (unat (of_int i :: u32))"

text \<open>\<open>struct skynet_socket_message\<close>.\<close>

definition socket_message_bytes :: "int \<Rightarrow> int \<Rightarrow> int \<Rightarrow> u64 \<Rightarrow> bytes" where
  "socket_message_bytes type sid ud buffer = le_int type @ le_int sid @ le_int ud @ [0, 0, 0, 0] @ le_bytes 8 (unat buffer)"

text \<open>The text behind the message: at most 128 characters. No event with a text has a buffer.\<close>

definition padding_bytes :: "payload \<Rightarrow> bytes option" where
  "padding_bytes data =
     (case data of No_data \<Rightarrow> Some [] | Text t \<Rightarrow> Some (take 128 (string_bytes t)) | Buffer _ \<Rightarrow> None)"

text \<open>The pointer \<open>result->data\<close> where it is not a text.\<close>

definition event_data :: "ext \<Rightarrow> node \<Rightarrow> payload \<Rightarrow> (u64 \<times> node) option" where
  "event_data x nd data =
     (case data of No_data \<Rightarrow> Some (0, nd) | Buffer bs \<Rightarrow> Some (skynet_malloc x nd (Data bs)) | Text _ \<Rightarrow> None)"

definition socket_forward_message :: "ext \<Rightarrow> node \<Rightarrow> int \<Rightarrow> bool \<Rightarrow> ss_message \<Rightarrow> node option" where
  "socket_forward_message x nd type padding result =
     do {
       (buffer, nd) \<leftarrow> (if padding then Some (0, nd) else event_data x nd (m_data result));
       pad \<leftarrow> (if padding then padding_bytes (m_data result) else Some []);
       let bytes = socket_message_bytes type (m_id result) (m_ud result) buffer @ pad;
       let (sm, nd) = skynet_malloc x nd (Data bytes);
       (ok, nd) \<leftarrow> skynet_context_push x nd (ucast (m_opaque result))
         \<lparr>msg_source = 0, msg_session = 0, msg_data = sm,
          msg_sz = of_nat (length bytes) OR push_bit MESSAGE_TYPE_SHIFT (ucast PTYPE_SOCKET)\<rparr>;
       if ok then Some nd
       else do { nd \<leftarrow> skynet_free nd buffer; skynet_free nd sm }
     }"

text \<open>The type of the message for a service, and whether it has a text behind it.\<close>

definition event_kind :: "nat \<Rightarrow> (int \<times> bool) option" where
  "event_kind type =
     (if type = SS_DATA then Some (SOCKET_DATA, False)
      else if type = SS_CLOSE then Some (SOCKET_CLOSE, False)
      else if type = SS_OPEN then Some (SOCKET_CONNECT, True)
      else if type = SS_ERROR then Some (SOCKET_ERROR, True)
      else if type = SS_ACCEPT then Some (SOCKET_ACCEPT, True)
      else if type = SS_UDP then Some (SOCKET_UDP, False)
      else None)"

definition run_of :: "'a option \<Rightarrow> 'a run" where
  "run_of m = (case m of None \<Rightarrow> Abort | Some y \<Rightarrow> Done y)"

text \<open>What is done with the result of \<open>socket_server_poll\<close>.\<close>

definition take_event :: "ext \<Rightarrow> node \<Rightarrow> bool \<Rightarrow> report \<Rightarrow> (int \<times> node) option" where
  "take_event x nd mor rep =
     (case rep of
        None \<Rightarrow> map_option (\<lambda>nd. (-1, nd)) (skynet_error x nd None ''Unknown socket message type -1.'')
      | Some (type, result) \<Rightarrow>
          if type = SS_EXIT then Some (0, nd)
          else (case event_kind type of
            None \<Rightarrow> map_option (\<lambda>nd. (-1, nd)) (skynet_error x nd None (''Unknown socket message type '' @ fmt_d (int type) @ ''.''))
          | Some (kind, padding) \<Rightarrow>
              map_option (\<lambda>nd. (if mor then -1 else 1, nd)) (socket_forward_message x nd kind padding result)))"

definition skynet_socket_poll ::
  "ext \<Rightarrow> node \<Rightarrow> netio \<Rightarrow> socket_server \<Rightarrow> (int \<times> node \<times> netio \<times> socket_server) run option" where
  "skynet_socket_poll x nd io ss =
     map_option (\<lambda>r. rbind r (\<lambda>(io, ss, mor, rep).
       rbind (run_of (take_event x nd mor rep)) (\<lambda>(n, nd). Done (n, nd, io, ss)))) (socket_server_poll io ss)"

section \<open>Calls of the services\<close>

text \<open>The service is the context at \<open>ctx\<close>.\<close>

definition socket_source :: "node \<Rightarrow> addr \<Rightarrow> u64 option" where
  "socket_source nd ctx = map_option ucast (skynet_context_handle (nd_ctxs nd) ctx)"

text \<open>\<open>check_wsz\<close>: when more than 1 MB waits, the service gets a warning. The message \<open>tmp\<close> is on the stack, an
  object that is gone after the call.\<close>

definition check_wsz :: "ext \<Rightarrow> node \<Rightarrow> addr \<Rightarrow> int \<Rightarrow> int \<Rightarrow> (int \<times> node) option" where
  "check_wsz x nd ctx sid wsz =
     (if wsz < 0 then Some (-1, nd)
      else if wsz > 1024 * 1024 then
        do {
          let tmp = socket_message_bytes SOCKET_WARNING sid (to_int32 (wsz div 1024)) 0;
          let (p, nd) = skynet_malloc x nd (Data tmp);
          handle \<leftarrow> skynet_context_handle (nd_ctxs nd) ctx;
          (_, nd) \<leftarrow> skynet_send x nd (Some ctx) 0 handle PTYPE_SOCKET 0 p (of_nat (length tmp));
          nd \<leftarrow> skynet_free nd p;
          Some (0, nd)
        }
      else Some (0, nd))"

definition skynet_socket_send ::
  "ext \<Rightarrow> node \<Rightarrow> netio \<Rightarrow> socket_server \<Rightarrow> addr \<Rightarrow> request_send \<Rightarrow> (int \<times> node \<times> netio \<times> socket_server) option" where
  "skynet_socket_send x nd io ss ctx rq =
     (let (io, ss, wsz) = socket_server_send io ss rq
      in map_option (\<lambda>(n, nd). (n, nd, io, ss)) (check_wsz x nd ctx (rs_id rq) wsz))"

definition skynet_socket_send_lowpriority :: "netio \<Rightarrow> socket_server \<Rightarrow> request_send \<Rightarrow> netio \<times> socket_server" where
  "skynet_socket_send_lowpriority io ss rq = socket_server_send_lowpriority io ss rq"

definition skynet_socket_listen ::
  "node \<Rightarrow> netio \<Rightarrow> socket_server \<Rightarrow> addr \<Rightarrow> string option \<Rightarrow> int \<Rightarrow> (netio \<times> socket_server \<times> int) run" where
  "skynet_socket_listen nd io ss ctx host port =
     rbind (run_of (socket_source nd ctx)) (\<lambda>source. socket_server_listen io ss source host port)"

definition skynet_socket_connect ::
  "node \<Rightarrow> netio \<Rightarrow> socket_server \<Rightarrow> addr \<Rightarrow> string \<Rightarrow> int \<Rightarrow> (netio \<times> socket_server \<times> int) option" where
  "skynet_socket_connect nd io ss ctx host port =
     map_option (\<lambda>source. socket_server_connect io ss source host port) (socket_source nd ctx)"

definition skynet_socket_bind :: "node \<Rightarrow> socket_server \<Rightarrow> addr \<Rightarrow> int \<Rightarrow> (socket_server \<times> int) option" where
  "skynet_socket_bind nd ss ctx fd = map_option (\<lambda>source. socket_server_bind ss source fd) (socket_source nd ctx)"

definition skynet_socket_close :: "node \<Rightarrow> socket_server \<Rightarrow> addr \<Rightarrow> int \<Rightarrow> socket_server option" where
  "skynet_socket_close nd ss ctx sid = map_option (\<lambda>source. socket_server_close ss source sid) (socket_source nd ctx)"

definition skynet_socket_shutdown :: "node \<Rightarrow> socket_server \<Rightarrow> addr \<Rightarrow> int \<Rightarrow> socket_server option" where
  "skynet_socket_shutdown nd ss ctx sid = map_option (\<lambda>source. socket_server_shutdown ss source sid) (socket_source nd ctx)"

definition skynet_socket_start :: "node \<Rightarrow> socket_server \<Rightarrow> addr \<Rightarrow> int \<Rightarrow> socket_server option" where
  "skynet_socket_start nd ss ctx sid = map_option (\<lambda>source. socket_server_start ss source sid) (socket_source nd ctx)"

definition skynet_socket_nodelay :: "socket_server \<Rightarrow> int \<Rightarrow> socket_server" where
  "skynet_socket_nodelay ss sid = socket_server_nodelay ss sid"

definition skynet_socket_udp ::
  "node \<Rightarrow> netio \<Rightarrow> socket_server \<Rightarrow> addr \<Rightarrow> string option \<Rightarrow> int \<Rightarrow> (netio \<times> socket_server \<times> int) run" where
  "skynet_socket_udp nd io ss ctx host port =
     rbind (run_of (socket_source nd ctx)) (\<lambda>source. socket_server_udp io ss source host port)"

definition skynet_socket_udp_connect ::
  "netio \<Rightarrow> socket_server \<Rightarrow> int \<Rightarrow> string \<Rightarrow> int \<Rightarrow> (netio \<times> socket_server \<times> int) run" where
  "skynet_socket_udp_connect io ss sid host port = socket_server_udp_connect io ss sid host port"

definition skynet_socket_udp_send ::
  "ext \<Rightarrow> node \<Rightarrow> netio \<Rightarrow> socket_server \<Rightarrow> addr \<Rightarrow> request_send \<Rightarrow> bytes \<Rightarrow> (int \<times> node \<times> netio \<times> socket_server) option" where
  "skynet_socket_udp_send x nd io ss ctx rq address =
     (let (io, ss, wsz) = socket_server_udp_send io ss rq address
      in map_option (\<lambda>(n, nd). (n, nd, io, ss)) (check_wsz x nd ctx (rs_id rq) wsz))"

text \<open>The address of a message of UDP: its type, the bytes at its pointer and \<open>ud\<close>.\<close>

definition skynet_socket_udp_address :: "int \<Rightarrow> bytes \<Rightarrow> nat \<Rightarrow> bytes option" where
  "skynet_socket_udp_address type data ud =
     (if type \<noteq> SOCKET_UDP then None else socket_server_udp_address data ud)"

section \<open>Who owns an event\<close>

text \<open>The pointer in the message, the heap with the data of the event, and the heap with the message.\<close>

definition event_pointer :: "ext \<Rightarrow> node \<Rightarrow> payload \<Rightarrow> u64" where
  "event_pointer x nd data = (case data of Buffer bs \<Rightarrow> x_malloc x (nd_heap nd) | _ \<Rightarrow> 0)"

definition event_heap :: "ext \<Rightarrow> node \<Rightarrow> payload \<Rightarrow> heap" where
  "event_heap x nd data = (case data of Buffer bs \<Rightarrow> (nd_heap nd)(x_malloc x (nd_heap nd) := Some (Data bs)) | _ \<Rightarrow> nd_heap nd)"

definition event_text :: "payload \<Rightarrow> bytes" where
  "event_text data = (case data of Text t \<Rightarrow> take 128 (string_bytes t) | _ \<Rightarrow> [])"

definition event_bytes :: "ext \<Rightarrow> node \<Rightarrow> int \<Rightarrow> ss_message \<Rightarrow> bytes" where
  "event_bytes x nd type result =
     socket_message_bytes type (m_id result) (m_ud result) (event_pointer x nd (m_data result)) @ event_text (m_data result)"

lemma node_ok_heap: "node_ok (nd\<lparr>nd_heap := h\<rparr>) H xs = node_ok nd H xs" "node_lookup (nd\<lparr>nd_heap := h\<rparr>) d = node_lookup nd d"
  "inbox (nd\<lparr>nd_heap := h\<rparr>) q = inbox nd q"
  by (simp_all add: node_ok_def node_lookup_def inbox_def)

definition event_fits :: "bool \<Rightarrow> payload \<Rightarrow> bool" where
  "event_fits padding data \<longleftrightarrow> (case data of No_data \<Rightarrow> True | Text _ \<Rightarrow> padding | Buffer _ \<Rightarrow> \<not> padding)"

lemma forward_steps:
  fixes x :: ext and nd :: node and result :: ss_message and type :: int
  defines "h1 \<equiv> event_heap x nd (m_data result)"
  defines "h2 \<equiv> h1(x_malloc x h1 := Some (Data (event_bytes x nd type result)))"
  assumes "event_fits padding (m_data result)"
  shows "socket_forward_message x nd type padding result =
     do {
       (ok, nd') \<leftarrow> skynet_context_push x (nd\<lparr>nd_heap := h2\<rparr>) (ucast (m_opaque result))
         \<lparr>msg_source = 0, msg_session = 0, msg_data = x_malloc x h1,
          msg_sz = of_nat (length (event_bytes x nd type result)) OR push_bit MESSAGE_TYPE_SHIFT (ucast PTYPE_SOCKET)\<rparr>;
       if ok then Some nd'
       else do { nd' \<leftarrow> skynet_free nd' (event_pointer x nd (m_data result)); skynet_free nd' (x_malloc x h1) }
     }"
  using assms(3) unfolding h1_def h2_def
  by (cases "m_data result"; cases padding)
    (simp_all add: socket_forward_message_def event_fits_def padding_bytes_def event_data_def event_heap_def event_bytes_def
      event_text_def event_pointer_def skynet_malloc_def Let_def cong: if_cong)

text \<open>C27: an event of the socket server has one owner. The socket thread sends it to the service of the socket: if the
  service is alive, the message (the type, the id, the number and the pointer to the data, or up to 128 characters
  of the text behind them) is appended to its queue, no other queue changes, and the queue owns the message and the
  data; if it is not, both are freed and nothing else changes.\<close>

theorem socket_event_owner:
  fixes x :: ext and nd :: node and result :: ss_message
  defines "h1 \<equiv> event_heap x nd (m_data result)"
  assumes ok: "node_ok nd H xs" and fits: "event_fits padding (m_data result)"
    and fresh: "x_malloc x (nd_heap nd) \<noteq> 0" "nd_heap nd (x_malloc x (nd_heap nd)) = None" "x_malloc x h1 \<noteq> 0" "h1 (x_malloc x h1) = None"
  shows "\<exists>nd' ys. socket_forward_message x nd type padding result = Some nd' \<and> node_ok nd' H ys \<and>
    (case node_lookup nd (ucast (m_opaque result)) of
       Some c \<Rightarrow>
         nd_heap nd' = h1(x_malloc x h1 := Some (Data (event_bytes x nd type result))) \<and>
         mq_view (nd_mq nd') = (mq_view (nd_mq nd))(ctx_queue (the (nd_ctxs nd c)) :=
           Some (inbox nd (ctx_queue (the (nd_ctxs nd c))) @
             [\<lparr>msg_source = 0, msg_session = 0, msg_data = x_malloc x h1,
               msg_sz = of_nat (length (event_bytes x nd type result)) OR push_bit MESSAGE_TYPE_SHIFT (ucast PTYPE_SOCKET)\<rparr>],
             ucast (m_opaque result), 0))
     | None \<Rightarrow> nd_heap nd' = nd_heap nd \<and> mq_view (nd_mq nd') = mq_view (nd_mq nd))"
proof -
  let ?h = "h1(x_malloc x h1 := Some (Data (event_bytes x nd type result)))"
  let ?m = "\<lparr>msg_source = 0, msg_session = 0, msg_data = x_malloc x h1,
    msg_sz = of_nat (length (event_bytes x nd type result)) OR push_bit MESSAGE_TYPE_SHIFT (ucast PTYPE_SOCKET)\<rparr>"
  note run = forward_steps [of padding result x nd type, OF fits, folded h1_def]
  show ?thesis
  proof (cases "node_lookup nd (ucast (m_opaque result))")
    case None
    then have p: "skynet_context_push x (nd\<lparr>nd_heap := ?h\<rparr>) (ucast (m_opaque result)) ?m = Some (False, nd\<lparr>nd_heap := ?h\<rparr>)"
      by (intro push_fails) (simp add: node_ok_heap)
    have other: "event_pointer x nd (m_data result) \<noteq> 0 \<Longrightarrow> event_pointer x nd (m_data result) \<noteq> x_malloc x h1 \<and>
        h1 (event_pointer x nd (m_data result)) \<noteq> None \<and> h1(event_pointer x nd (m_data result) := None) = nd_heap nd"
      "event_pointer x nd (m_data result) = 0 \<Longrightarrow> h1 = nd_heap nd"
      using fresh by (cases "m_data result"; auto simp: event_pointer_def h1_def event_heap_def fun_upd_idem)+
    have "do { nd' \<leftarrow> skynet_free (nd\<lparr>nd_heap := ?h\<rparr>) (event_pointer x nd (m_data result)); skynet_free nd' (x_malloc x h1) } =
        Some (nd\<lparr>nd_heap := nd_heap nd\<rparr>)"
      using other fresh(3,4) by (cases "event_pointer x nd (m_data result) = 0")
        (auto simp: skynet_free_def fun_upd_idem fun_upd_twist)
    then have "socket_forward_message x nd type padding result = Some (nd\<lparr>nd_heap := nd_heap nd\<rparr>)"
      unfolding run p by simp
    then show ?thesis using None ok by auto
  next
    case (Some c)
    then obtain cc where cc: "nd_ctxs nd c = Some cc" using lookup_ctx by blast
    have "node_ok (nd\<lparr>nd_heap := ?h\<rparr>) H xs" "node_lookup (nd\<lparr>nd_heap := ?h\<rparr>) (ucast (m_opaque result)) = Some c"
      "nd_ctxs (nd\<lparr>nd_heap := ?h\<rparr>) c = Some cc" using ok Some cc by (simp_all add: node_ok_heap)
    from push_delivers [OF this] obtain mq ys where
      p: "skynet_context_push x (nd\<lparr>nd_heap := ?h\<rparr>) (ucast (m_opaque result)) ?m = Some (True, nd\<lparr>nd_heap := ?h\<rparr>\<lparr>nd_mq := mq\<rparr>)"
      "node_ok (nd\<lparr>nd_heap := ?h\<rparr>\<lparr>nd_mq := mq\<rparr>) H ys"
      "mq_view mq = (mq_view (nd_mq (nd\<lparr>nd_heap := ?h\<rparr>)))(ctx_queue cc :=
         Some (inbox (nd\<lparr>nd_heap := ?h\<rparr>) (ctx_queue cc) @ [?m], ucast (m_opaque result), 0))"
      by blast
    then have "socket_forward_message x nd type padding result = Some (nd\<lparr>nd_heap := ?h\<rparr>\<lparr>nd_mq := mq\<rparr>)"
      unfolding run by simp
    moreover have "mq_view mq = (mq_view (nd_mq nd))(ctx_queue cc := Some (inbox nd (ctx_queue cc) @ [?m], ucast (m_opaque result), 0))"
      using p(3) by (simp add: node_ok_heap)
    ultimately show ?thesis using Some cc p(2) by auto
  qed
qed

text \<open>The service 1 of the node gets 2 bytes of data of the socket 9; a socket of a service that is gone.\<close>

definition sample_data :: ss_message where
  "sample_data = \<lparr>m_id = 9, m_opaque = 1, m_ud = 2, m_data = Buffer [8, 9]\<rparr>"

definition growing_ext :: ext where
  "growing_ext = sample_ext\<lparr>x_malloc := (\<lambda>h. if h 100 = None then 100 else 200)\<rparr>"

theorem socket_event_owner_witness:
  "\<exists>nd'. socket_forward_message growing_ext sample_node SOCKET_DATA False sample_data = Some nd' \<and>
     nd_heap nd' 100 = Some (Data [8, 9]) \<and> nd_heap nd' 200 \<noteq> None \<and> length (inbox nd' 7) = 1"
proof -
  have hp: "nd_heap sample_node = (\<lambda>_. None)(5 := Some (Data [8, 9]))" by (simp add: sample_node_def)
  have cx: "nd_ctxs sample_node 3 = Some sample_service" "ctx_queue sample_service = 7"
    by (simp_all add: sample_node_def sample_service_def)
  have ib: "inbox sample_node 7 = []"
    by (simp add: inbox_def sample_node_def mq_view_def skynet_mq_create_def mq_create_list)
  have d: "m_data sample_data = Buffer [8, 9]" "m_opaque sample_data = 1" by (simp_all add: sample_data_def)
  have m: "x_malloc growing_ext (nd_heap sample_node) = 100" by (simp add: growing_ext_def hp)
  have h1: "event_heap growing_ext sample_node (Buffer [8, 9]) = (nd_heap sample_node)(100 := Some (Data [8, 9]))"
    by (simp add: event_heap_def m)
  have m1: "x_malloc growing_ext ((nd_heap sample_node)(100 := Some (Data [8, 9]))) = 200" by (simp add: growing_ext_def)
  have fits: "event_fits False (m_data sample_data)" by (simp add: event_fits_def d)
  have l: "node_lookup sample_node (ucast (m_opaque sample_data)) = Some 3" by (simp add: d sample_lookup)
  obtain nd' ys where r: "socket_forward_message growing_ext sample_node SOCKET_DATA False sample_data = Some nd'"
    "nd_heap nd' = (nd_heap sample_node)(100 := Some (Data [8, 9]), 200 := Some (Data (event_bytes growing_ext sample_node SOCKET_DATA sample_data)))"
    "mq_view (nd_mq nd') 7 = Some ([\<lparr>msg_source = 0, msg_session = 0, msg_data = 200,
       msg_sz = of_nat (length (event_bytes growing_ext sample_node SOCKET_DATA sample_data)) OR push_bit MESSAGE_TYPE_SHIFT (ucast PTYPE_SOCKET)\<rparr>], 1, 0)"
    using socket_event_owner [OF sample_ok fits, of growing_ext SOCKET_DATA, unfolded d(1) h1 m m1 l] m1 d(2)
    by (force simp: cx ib hp)
  then have "length (inbox nd' 7) = 1" by (simp add: inbox_def)
  then show ?thesis using r by auto
qed

end
