(* ===== verification/Spec2Isabelle.thy ===== *)
theory Spec2Isabelle
  imports MqScheduler Context HandleStorage Timer Monitor ServerProps GateProps NetPack CryptProps Sha1Props ClusterProps SocketStream SocketHistory HarborLink LuaSeriProps LuaSocketProps SkynetSocket
begin

text \<open>
  A model of the C core of skynet, a framework for services that send messages to each other
  (\<open>src/tower/share/skynet\<close>: the directories \<open>skynet-src\<close>, \<open>lualib-src\<close> and \<open>service-src\<close>; paths below are
  relative to it). A node is a process: services have handles and message queues, worker threads
  take the queues in turn, a timer thread and a socket thread put messages into the queues, and the
  harbor service carries messages to other nodes. The Lua services use C modules for packages,
  cryptography, messages of a cluster and the serialization of values.

  \<^bold>\<open>Foundations\<close>
  \<^item> \<open>Skynet_Prelude\<close>: machine integers, options as possibly failing calls, ring buffers, and the
    interfaces \<open>fifo\<close> and \<open>write_once\<close>. \<open>CText\<close>: numbers as text (\<open>sprintf\<close>, \<open>sscanf\<close>, \<open>strtol\<close>).
    \<open>Bytes\<close>: big-endian numbers, lists linked through an array, the interface \<open>byte_stream\<close>.
    \<open>Skynet_H\<close>: the message types of \<open>skynet.h\<close> and \<open>skynet_socket.h\<close>.

  \<^bold>\<open>The node\<close>
  \<^item> \<open>MessageQueue\<close> (\<open>skynet-src/skynet_mq.c\<close>): the ring buffer of a service and the global queue.
    \<open>mq_is_fifo\<close> refines it to a list through the interface \<open>fifo\<close> (interpretation \<open>mqf\<close>),
    \<open>mq_pop_overload\<close> states the overload detector.
  \<^item> \<open>MqScheduler\<close>: senders, workers and the destruction of services as the step relation \<open>mq_step\<close>, one
    locked function at a time. No assertion fails on any interleaving, no queue with a message is
    lost, releasing a queue ends.
  \<^item> \<open>Context\<close> and \<open>HandleStorage\<close> (\<open>skynet_server.c\<close>, \<open>skynet_handle.c\<close>): contexts, the table of handles
    and the sorted array of names (interpretation \<open>name_table\<close> of \<open>write_once\<close>).
  \<^item> \<open>Timer\<close> (\<open>skynet_timer.c\<close>): the timing wheel refines a queue of deadlines (locale \<open>deadline_queue\<close>,
    interpretation \<open>wheel\<close>).
  \<^item> \<open>Monitor\<close> (\<open>skynet_env.c\<close>, \<open>skynet_monitor.c\<close>): the environment (interpretation \<open>env\<close>) and the
    detector of endless loops, equal to its specification on the history of a worker.
  \<^item> \<open>Server\<close> and \<open>ServerProps\<close> (\<open>skynet_server.c\<close>, \<open>skynet_harbor.c\<close>, \<open>skynet_error.c\<close>, the files of
    \<open>skynet_log.c\<close>): sending, dispatching and the commands over one record \<open>node\<close>, which holds the
    states of the components above. A payload has one owner after \<open>skynet_send\<close>; a worker handles exactly
    the batch its weight asks for.

  \<^bold>\<open>The socket layer\<close>
  \<^item> \<open>SocketBuffers\<close> and \<open>SocketServer\<close> (\<open>socket_server.c\<close>, \<open>socket_epoll.h\<close>): the write buffers, the
    slots, the requests of the other threads and the events. A system call takes its result from a
    script and is recorded.
  \<^item> \<open>SocketStream\<close>: a TCP socket over its history: what is written to its descriptor is whole messages in
    order, it all goes out, and each buffer is freed once. \<open>SocketServerProps\<close> and \<open>SocketHistory\<close>: the invariant
    of the server, kept by every request and event; so no assertion fails and \<open>socket_server_poll\<close>
    returns.
  \<^item> \<open>SkynetSocket\<close> (\<open>skynet_socket.c\<close>): the socket server and the node together. The socket thread sends each
    event to its service; the event has one owner (\<open>socket_event_owner\<close>).

  \<^bold>\<open>The gate\<close> (\<open>service-src/service_gate.c\<close>)
  \<^item> \<open>DataBuffer\<close> (\<open>databuffer.h\<close>): the bytes of a connection in blocks of a pool (interpretation \<open>db\<close> of
    \<open>byte_stream\<close>). \<open>HashId\<close> (\<open>hashid.h\<close>): the hash table of the connections (locale \<open>slot_table\<close>,
    interpretation \<open>hid\<close>).
  \<^item> \<open>Gate\<close>, \<open>GateFrames\<close>, \<open>GateSpec\<close>, \<open>GateProps\<close>: the service, the cutting of a stream into packages, the
    specification as a map from connections to the bytes that wait, and the refinement
    \<open>gate_refines_streams\<close> with its consequence \<open>gate_delivers_packages\<close>.

  \<^bold>\<open>The harbor\<close> (\<open>service-src/service_harbor.c\<close>)
  \<^item> \<open>Harbor\<close>, \<open>HarborProps\<close>, \<open>HarborLink\<close>: the service, its queues (interpretation \<open>hq\<close> of \<open>fifo\<close>), the format of
    the packets, delivery from node to node however the network cuts the bytes, and the order of the
    messages over the history of a link (\<open>harbor_link\<close>).

  \<^bold>\<open>Modules for Lua services\<close> (\<open>lualib-src\<close>)
  \<^item> \<open>NetPack\<close> (\<open>lua-netpack.c\<close>): packages with a 2 byte header, the queue of complete ones
    (interpretation \<open>npf\<close> of \<open>fifo\<close>) and the unfinished ones; \<open>netpack_roundtrip\<close>.
  \<^item> \<open>Cluster\<close>, \<open>ClusterProps\<close> (\<open>lua-cluster.c\<close>): requests and responses, in parts when they are long (locale
    \<open>part_codec\<close>, interpretations \<open>req\<close> and \<open>resp\<close>); they arrive through \<open>NetPack\<close>.
  \<^item> \<open>Des\<close>, \<open>Crypt\<close>, \<open>CryptProps\<close> (\<open>lua-crypt.c\<close>): DES, base64, hexadecimal text, hashes, Diffie-Hellman.
    \<open>Sha1\<close>, \<open>Sha1Props\<close> (\<open>lsha1.c\<close>): SHA-1 in pieces refines the digest of the standard; HMAC over the locale
    \<open>hash_context\<close> (interpretation \<open>sha1\<close>).
  \<^item> \<open>LuaSeri\<close>, \<open>LuaSeriProps\<close> (\<open>lua-seri.c\<close>): Lua values as bytes; \<open>seri_roundtrip\<close> and \<open>unpack_ends\<close>.
  \<^item> \<open>LuaSocket\<close>, \<open>LuaSocketProps\<close> (\<open>lua-socket.c\<close>): the buffers of the data that a service receives. They refine a
    string of bytes (\<open>socket_buffer_is_string\<close>; interpretation \<open>lsb\<close> of \<open>byte_stream\<close>); the functions that only pass
    their arguments on are left out.

  \<^bold>\<open>How the code is read\<close>
  \<^item> A structure is a record, a linked list a list or a chain of indices into an array, an address a key
    of a map. Integers whose overflow matters are words; the others are \<open>int\<close> or \<open>nat\<close> with their bounds
    in the text of the theory. \<open>None\<close>, \<open>Abort\<close> and \<open>Crash\<close> are a failed assertion or an access outside an
    object; \<open>Inl\<close> and \<open>Lua_error\<close> a Lua error; calls into the framework or the kernel are recorded in order.
  \<^item> Loops that end because of an invariant (probing for a handle, releasing a queue, reading a
    chain of blocks) are partial functions with \<open>None\<close> for an endless run, and the theorems show that
    they return. \<open>socket_server_poll\<close> runs with the bound \<open>poll_rounds\<close>, which every history keeps
    (\<open>socket_server_never_aborts\<close>). \<open>unpack_one\<close> has fuel for its depth and its loops; the length of its
    input and one more is enough (\<open>unpack_ends\<close>).
  \<^item> A function that runs under a lock is one step. The functions of the other threads that first reserve a
    socket id and then send a request are one step too, and a new id is one that no request in the pipe
    uses, as ids repeat only after \<open>2\<^sup>31\<close> reservations. In the histories, what is sent with low priority is plain
    memory; \<open>low_userobject_aborts\<close> shows what a user object does there.

  \<^bold>\<open>Not modelled\<close>
  \<^item> \<open>3rd\<close> (Lua, jemalloc, lpeg, md5 and others): third-party code. Where the core depends on it, it is an
    argument (memory allocation, the length of a Lua table, the calls into services).
  \<^item> \<open>skynet_main.c\<close>, \<open>skynet_start.c\<close>, \<open>skynet_daemon.c\<close>, \<open>skynet_module.c\<close>, \<open>malloc_hook.c\<close>,
    \<open>socket_kqueue.h\<close> and the lock headers: the start of a process, threads, \<open>dlopen\<close>, memory statistics, the
    same interface on another system, and atomic instructions.
  \<^item> \<open>lua-skynet.c\<close> and the other Lua bindings: they convert arguments between the Lua stack and
    C. \<open>lua-bson.c\<close>, \<open>lua-mongo.c\<close>, \<open>lua-mysqlaux.c\<close>, \<open>sproto\<close>: formats of other systems.
    \<open>lua-sharedata.c\<close>, \<open>lua-stm.c\<close>, \<open>lua-multicast.c\<close>, \<open>lua-profile.c\<close>, \<open>lua-debugchannel.c\<close>,
    \<open>lua-memory.c\<close>, \<open>lua-clientsocket.c\<close>: objects shared by
    services and tools, which for the most part convert Lua tables.
  \<^item> \<open>service_logger.c\<close> and \<open>service_snlua.c\<close>: output to a file and the start of a Lua state.
\<close>

end
